(* ===== verification/Prelude.thy ===== *)
theory Prelude
  imports Main "HOL-Library.Word" "HOL-Library.Multiset" "HOL-Library.Monad_Syntax"
begin

text \<open>
  What the components share: the type of a fault-aware computation, checked array reads, and the
  generic facts on lists, maps, multisets and machine words that carry the component proofs.

  A computation of type \<open>'a option\<close> is \<open>None\<close> where the C code would leave defined behaviour or
  abort (an access outside an array, a failed \<open>assert\<close>); a theorem that an operation returns
  \<open>Some\<close> is therefore a memory-safety statement.
\<close>

unbundle bit_operations_syntax

named_theorems model_simps \<open>characteristic equations of the state components\<close>
named_theorems inv_intros \<open>preservation of the component invariants\<close>

subsection \<open>Machine integers\<close>

type_synonym u8 = "8 word"
type_synonym u16 = "16 word"
type_synonym u32 = "32 word"
type_synonym u64 = "64 word"

abbreviation LONG_MAX :: nat where
  "LONG_MAX \<equiv> 2 ^ 63 - 1"

text \<open>
  \<open>c_int\<close> is the conversion of a wider integer to an \<open>int\<close> (the low 32 bits, signed), \<open>c_uint\<close> that to
  an \<open>unsigned int\<close>, \<open>c_ulong\<close> that to an \<open>unsigned long\<close>.
\<close>

definition c_int :: "int \<Rightarrow> int" where
  "c_int x = signed_take_bit 31 x"

definition c_uint :: "int \<Rightarrow> int" where
  "c_uint x = x mod 2 ^ 32"

definition c_ulong :: "int \<Rightarrow> int" where
  "c_ulong x = x mod 2 ^ 64"

abbreviation INT_MAX :: int where
  "INT_MAX \<equiv> 2 ^ 31 - 1"

lemma c_int_id: "- (2 ^ 31) \<le> x \<Longrightarrow> x < 2 ^ 31 \<Longrightarrow> c_int x = x"
  by (simp add: c_int_def signed_take_bit_int_eq_self)

lemma c_int_nat [simp]: "n < 2 ^ 31 \<Longrightarrow> c_int (int n) = int n"
  by (rule c_int_id) simp_all

lemma c_int_add [simp]: "m + n < 2 ^ 31 \<Longrightarrow> c_int (int m + int n) = int m + int n"
  by (rule c_int_id) simp_all

lemma c_uint_id [simp]: "0 \<le> x \<Longrightarrow> x < 2 ^ 32 \<Longrightarrow> c_uint x = x"
  by (simp add: c_uint_def)

lemma c_ulong_id [simp]: "0 \<le> x \<Longrightarrow> x < 2 ^ 64 \<Longrightarrow> c_ulong x = x"
  by (simp add: c_ulong_def)

lemma unat_u64_lt: "unat (x :: u64) < 2 ^ 64"
  using unsigned_less [of x, where ?'a = nat] by simp

lemma unat_power2: "n < LENGTH('a) \<Longrightarrow> unat (2 ^ n :: 'a :: len word) = 2 ^ n"
  by (metis mod_less of_nat_numeral of_nat_power one_less_numeral_iff power_strict_increasing
      semiring_norm(76) unat_of_nat)

lemma unat_drop_bit_div: "unat (drop_bit n x) = unat x div 2 ^ n"
  unfolding unat_drop_bit_eq by (rule drop_bit_eq_div)

lemma unat_take_bit_mod: "unat (take_bit n (x :: 'a :: len word)) = unat x mod 2 ^ n"
  unfolding unsigned_take_bit_eq by (rule take_bit_eq_mod)

subsection \<open>Arrays\<close>

text \<open>\<open>array_get t i\<close> is the read \<open>t[i]\<close> of an array \<open>t\<close>; outside its bounds it is a fault.\<close>

definition array_get :: "'a list \<Rightarrow> nat \<Rightarrow> 'a option" where
  "array_get t i = (if i < length t then Some (t ! i) else None)"

lemma array_get_in [simp]: "i < length t \<Longrightarrow> array_get t i = Some (t ! i)"
  by (simp add: array_get_def)

lemma array_get_eq_Some: "array_get t i = Some x \<longleftrightarrow> i < length t \<and> x = t ! i"
  by (auto simp: array_get_def)

subsection \<open>Bitwise conjunction on naturals\<close>

lemma nat_and_le_right: "(a AND b :: nat) \<le> b"
proof -
  have "int (a AND b) \<le> int b"
    by (simp add: of_nat_and_eq)
  then show ?thesis by simp
qed

lemma nat_and_mask_lt: "0 < n \<Longrightarrow> (a AND (n - 1) :: nat) < n"
  using nat_and_le_right [of a "n - 1"] by linarith

subsection \<open>Association lists with distinct keys, compared as multisets\<close>

lemma mset_concat_update:
  "i < length xss \<Longrightarrow>
    mset (concat (xss[i := ys])) + mset (xss ! i) = mset (concat xss) + mset ys"
proof (induction xss arbitrary: i)
  case (Cons xs xss)
  then show ?case by (cases i) (auto simp: ac_simps)
qed simp

lemma mset_list_update_add:
  "i < length xs \<Longrightarrow> mset (xs[i := y]) + {#xs ! i#} = mset xs + {#y#}"
  by (induction xs arbitrary: i) (auto simp: nth_Cons split: nat.splits)

lemma mset_exchange:
  assumes "A + e = B + x" and "D + B = E + A" shows "D + e = E + (x :: 'a multiset)"
proof -
  have "D + e + B = (D + B) + e" by (simp only: ac_simps)
  also have "\<dots> = E + (A + e)" using assms(2) by (simp only: ac_simps)
  also have "\<dots> = E + x + B" using assms(1) by (simp only: ac_simps)
  finally show ?thesis by simp
qed

lemma length_concat_update:
  "i < length xss \<Longrightarrow>
    length (concat (xss[i := ys])) + length (xss ! i) = length (concat xss) + length ys"
  using arg_cong [OF mset_concat_update, of i xss size ys] by simp

lemma in_set_concat_nth: "x \<in> set (concat xss) \<longleftrightarrow> (\<exists>i < length xss. x \<in> set (xss ! i))"
  by simp (metis in_set_conv_nth)

lemma nth_concat_mem: "i < length xss \<Longrightarrow> x \<in> set (xss ! i) \<Longrightarrow> x \<in> set (concat xss)"
  by auto

lemma distinct_keys_mset:
  "mset xs = mset ys \<Longrightarrow> distinct (map fst xs) \<longleftrightarrow> distinct (map fst ys)"
  by (metis mset_eq_imp_distinct_iff mset_map)

lemma map_of_mset:
  assumes "distinct (map fst xs)" and "mset xs = mset ys"
  shows "map_of xs = map_of ys"
proof -
  have "set xs = set ys" using assms(2) by (rule mset_eq_setD)
  moreover have "distinct (map fst ys)" using assms by (simp add: distinct_keys_mset [of xs ys])
  ultimately show ?thesis using assms(1) by (simp add: map_of_inject_set)
qed

lemma map_of_mset_insert:
  assumes "distinct (map fst xs)" and "k \<notin> fst ` set xs" and "mset ys = add_mset (k, v) (mset xs)"
  shows "map_of ys = (map_of xs)(k \<mapsto> v)" and "distinct (map fst ys)"
proof -
  have m: "mset ((k, v) # xs) = mset ys" using assms(3) by simp
  have d: "distinct (map fst ((k, v) # xs))" using assms(1,2) by simp
  show "distinct (map fst ys)" using d distinct_keys_mset [OF m] by blast
  show "map_of ys = (map_of xs)(k \<mapsto> v)" using map_of_mset [OF d m] by simp
qed

lemma map_of_mset_remove:
  assumes "distinct (map fst xs)" and "mset xs = add_mset (k, v) (mset ys)"
  shows "map_of ys = (map_of xs)(k := None)" and "distinct (map fst ys)" and "map_of xs k = Some v"
proof -
  have m: "mset xs = mset ((k, v) # ys)" using assms(2) by simp
  have d: "distinct (map fst ((k, v) # ys))" using assms(1) distinct_keys_mset [OF m] by blast
  then show "distinct (map fst ys)" by simp
  have "map_of xs = (map_of ys)(k \<mapsto> v)" using map_of_mset [OF assms(1) m] by simp
  moreover have "map_of ys k = None" using d by (simp add: map_of_eq_None_iff)
  ultimately show "map_of ys = (map_of xs)(k := None)" and "map_of xs k = Some v"
    by (auto simp: fun_eq_iff)
qed

lemma map_of_mset_update:
  assumes "distinct (map fst xs)"
    and "mset ys + {#(k, v0)#} = mset xs + {#(k, v)#}" and "(k, v0) \<in> set xs"
  shows "map_of ys = (map_of xs)(k \<mapsto> v)" and "distinct (map fst ys)"
proof -
  obtain us ws where xs: "xs = us @ (k, v0) # ws" using split_list [OF assms(3)] by blast
  then have m: "mset ys = mset ((k, v) # us @ ws)" using assms(2) by simp
  have d: "distinct (map fst ((k, v) # us @ ws))" using assms(1) xs by auto
  then show "distinct (map fst ys)" using distinct_keys_mset [OF m] by blast
  have "map_of ys = (map_of (us @ ws))(k \<mapsto> v)" using map_of_mset [OF d m [symmetric]] by simp
  moreover have "map_of us k = None" using assms(1) xs by (auto simp: map_of_eq_None_iff)
  ultimately show "map_of ys = (map_of xs)(k \<mapsto> v)"
    using xs by (auto simp: fun_eq_iff map_add_def split: option.splits)
qed

lemma char_neq_code: "c \<noteq> d \<longleftrightarrow> (of_char c :: nat) \<noteq> of_char d"
  by (metis char_of_char)

lemma split_at:
  assumes "n \<le> length xs" obtains ys zs where "xs = ys @ zs" "length ys = n" "length zs = length xs - n"
  using assms that [of "take n xs" "drop n xs"] by simp

subsection \<open>Loops that may fail\<close>

fun foldM :: "('b \<Rightarrow> 's \<Rightarrow> 's option) \<Rightarrow> 'b list \<Rightarrow> 's \<Rightarrow> 's option" where
  "foldM f [] s = Some s"
| "foldM f (x # xs) s = Option.bind (f x s) (foldM f xs)"

text \<open>A loop over an interval that establishes \<open>P\<close> step by step.\<close>

lemma foldM_upt:
  assumes "P a s" and "a \<le> b"
    and "\<And>j s. a \<le> j \<Longrightarrow> j < b \<Longrightarrow> P j s \<Longrightarrow> \<exists>s'. f j s = Some s' \<and> P (Suc j) s'"
  shows "\<exists>s'. foldM f [a..<b] s = Some s' \<and> P b s'"
  using assms
proof (induction "b - a" arbitrary: a s)
  case (Suc n)
  then have "a < b" by simp
  then obtain s1 where s1: "f a s = Some s1" "P (Suc a) s1" using Suc.prems by blast
  have "\<exists>s'. foldM f [Suc a..<b] s1 = Some s' \<and> P b s'"
    by (rule Suc.hyps(1)) (use Suc.hyps(2) Suc.prems s1 \<open>a < b\<close> in auto)
  then show ?case using \<open>a < b\<close> s1(1) by (simp add: upt_conv_Cons)
qed auto

lemma foldM_inv:
  assumes "P s" and "\<And>x s. x \<in> set xs \<Longrightarrow> P s \<Longrightarrow> \<exists>s'. f x s = Some s' \<and> P s'"
  shows "\<exists>s'. foldM f xs s = Some s' \<and> P s'"
  using assms
proof (induction xs arbitrary: s)
  case (Cons x xs)
  then obtain s1 where s1: "f x s = Some s1" "P s1" by (meson list.set_intros(1))
  then have "\<exists>s'. foldM f xs s1 = Some s' \<and> P s'"
    using Cons by (meson list.set_intros(2))
  then show ?case using s1(1) by simp
qed simp

lemma foldM_frame:
  assumes "\<And>x s s'. f x s = Some s' \<Longrightarrow> g s' = g s" and "foldM f xs s = Some s'"
  shows "g s' = g s"
  using assms(2)
proof (induction xs arbitrary: s)
  case (Cons x xs)
  then obtain s1 where "f x s = Some s1" "foldM f xs s1 = Some s'" by (auto simp: bind_eq_Some_conv)
  then show ?case using Cons.IH assms(1) by metis
qed simp

end
