(* ===== verification/Dict.thy ===== *)
theory Dict
  imports Prelude
begin

text \<open>
  The hash table of \<^verbatim>\<open>src/redis-3.0.3/src/dict.c\<close> and \<^verbatim>\<open>dict.h\<close>: two chained tables with
  incremental rehashing.  A table is the list of its buckets and a bucket the list of its
  \<open>dictEntry\<close> nodes from the head of the chain; the NULL table is the empty list.  Sizes are
  naturals; where the code keeps a count or an index in an \<open>int\<close> or \<open>unsigned\<close> variable it is narrowed.
  Keys and values are owned by the caller: the members \<open>keyDup\<close>, \<open>valDup\<close>, \<open>keyDestructor\<close>, \<open>valDestructor\<close> and
  \<open>privdata\<close> of a \<open>dictType\<close>, which copy and release them, are left out.  The value of \<open>dict_can_resize\<close> is an argument of the operations that read it.
\<close>

section \<open>Data\<close>

record 'k dictType =
  hashFunction :: "'k \<Rightarrow> u32"
  keyCompare :: "('k \<Rightarrow> 'k \<Rightarrow> bool) option"

record ('k, 'v) dictht =
  ht_table :: "('k \<times> 'v) list list"
  ht_size :: nat
  ht_sizemask :: nat
  ht_used :: nat

record ('k, 'v) dict =
  dtype :: "'k dictType"
  ht0 :: "('k, 'v) dictht"
  ht1 :: "('k, 'v) dictht"
  rehashidx :: int
  iterators :: int

datatype dict_status = DICT_OK | DICT_ERR

text \<open>A pointer to a \<open>dictEntry\<close>: the table (0 or 1), the bucket and the place in its chain.\<close>

datatype entry_ptr = EntryPtr (ptr_table: nat) (ptr_index: nat) (ptr_pos: nat)

definition DICT_HT_INITIAL_SIZE :: nat where "DICT_HT_INITIAL_SIZE = 4"
definition dict_force_resize_ratio :: nat where "dict_force_resize_ratio = 5"

definition dictIsRehashing :: "('k, 'v) dict \<Rightarrow> bool" where
  "dictIsRehashing d \<longleftrightarrow> rehashidx d \<noteq> -1"

definition dictSize :: "('k, 'v) dict \<Rightarrow> nat" where
  "dictSize d = ht_used (ht0 d) + ht_used (ht1 d)"

definition dictSlots :: "('k, 'v) dict \<Rightarrow> nat" where
  "dictSlots d = ht_size (ht0 d) + ht_size (ht1 d)"

definition dictCompareKeys :: "'k dictType \<Rightarrow> 'k \<Rightarrow> 'k \<Rightarrow> bool" where
  "dictCompareKeys t k1 k2 = (case keyCompare t of Some f \<Rightarrow> f k1 k2 | None \<Rightarrow> k1 = k2)"

definition dictHashKey :: "'k dictType \<Rightarrow> 'k \<Rightarrow> nat" where
  "dictHashKey t k = unat (hashFunction t k)"

section \<open>Creation and resizing\<close>

definition dictReset :: "('k, 'v) dictht" where
  "dictReset = \<lparr>ht_table = [], ht_size = 0, ht_sizemask = 0, ht_used = 0\<rparr>"

definition dictCreate :: "'k dictType \<Rightarrow> ('k, 'v) dict" where
  "dictCreate t = \<lparr>dtype = t, ht0 = dictReset, ht1 = dictReset, rehashidx = -1, iterators = 0\<rparr>"

text \<open>The loop of \<open>_dictNextPower\<close> starts at 4; the guard \<open>i = 0\<close> only makes it total.\<close>

function dictNextPower_loop :: "nat \<Rightarrow> nat \<Rightarrow> nat" where
  "dictNextPower_loop i sz = (if i \<ge> sz \<or> i = 0 then i else dictNextPower_loop (i * 2) sz)"
  by pat_completeness auto
termination by (relation "measure (\<lambda>(i, sz). sz - i)") auto

declare dictNextPower_loop.simps [simp del]

definition dictNextPower :: "nat \<Rightarrow> nat" where
  "dictNextPower sz =
     (if sz \<ge> LONG_MAX then LONG_MAX else dictNextPower_loop DICT_HT_INITIAL_SIZE sz)"

definition dictExpand :: "('k, 'v) dict \<Rightarrow> nat \<Rightarrow> ('k, 'v) dict \<times> dict_status" where
  "dictExpand d sz =
    (let realsize = dictNextPower sz in
     if dictIsRehashing d \<or> ht_used (ht0 d) > sz then (d, DICT_ERR)
     else if realsize = ht_size (ht0 d) then (d, DICT_ERR)
     else let n = \<lparr>ht_table = replicate realsize [], ht_size = realsize,
                    ht_sizemask = realsize - 1, ht_used = 0\<rparr> in
       if ht_table (ht0 d) = [] then (d\<lparr>ht0 := n\<rparr>, DICT_OK)
       else (d\<lparr>ht1 := n, rehashidx := 0\<rparr>, DICT_OK))"

definition dictResize :: "bool \<Rightarrow> ('k, 'v) dict \<Rightarrow> ('k, 'v) dict \<times> dict_status" where
  "dictResize can_resize d =
    (if \<not> can_resize \<or> dictIsRehashing d then (d, DICT_ERR)
     else let minimal = c_int (int (ht_used (ht0 d)));
              minimal = (if minimal < int DICT_HT_INITIAL_SIZE then int DICT_HT_INITIAL_SIZE else minimal)
          in dictExpand d (nat minimal))"

definition dictExpandIfNeeded :: "bool \<Rightarrow> ('k, 'v) dict \<Rightarrow> ('k, 'v) dict \<times> dict_status" where
  "dictExpandIfNeeded can_resize d =
    (if dictIsRehashing d then (d, DICT_OK)
     else if ht_size (ht0 d) = 0 then dictExpand d DICT_HT_INITIAL_SIZE
     else if ht_used (ht0 d) \<ge> ht_size (ht0 d) \<and>
             (can_resize \<or> ht_used (ht0 d) div ht_size (ht0 d) > dict_force_resize_ratio)
     then dictExpand d (ht_used (ht0 d) * 2)
     else (d, DICT_OK))"

section \<open>Incremental rehashing\<close>

text \<open>
  \<open>rehash_skip\<close> is the inner loop over empty buckets: the bucket it stops at, the visits left and
  whether it gave up (\<open>return 1\<close>).  Reading past the table is a fault.
\<close>

function rehash_skip :: "'b list list \<Rightarrow> nat \<Rightarrow> int \<Rightarrow> (nat \<times> int \<times> bool) option" where
  "rehash_skip table i empty_visits =
    (if i \<ge> length table then None
     else if table ! i = [] then
       (if empty_visits - 1 = 0 then Some (i + 1, 0, True)
        else rehash_skip table (i + 1) (empty_visits - 1))
     else Some (i, empty_visits, False))"
  by pat_completeness auto
termination by (relation "measure (\<lambda>(table, i, ev). length table - i)") auto

declare rehash_skip.simps [simp del]

text \<open>\<open>rehash_bucket\<close> moves the chain of one bucket, entry by entry, into the second table.\<close>

fun rehash_bucket :: "'k dictType \<Rightarrow> ('k \<times> 'v) list \<Rightarrow> ('k, 'v) dictht \<Rightarrow> ('k, 'v) dictht
    \<Rightarrow> (('k, 'v) dictht \<times> ('k, 'v) dictht) option" where
  "rehash_bucket t [] h0 h1 = Some (h0, h1)"
| "rehash_bucket t (de # des) h0 h1 =
    (let h = dictHashKey t (fst de) AND ht_sizemask h1 in
     case array_get (ht_table h1) h of
       None \<Rightarrow> None
     | Some chain \<Rightarrow>
         rehash_bucket t des (h0\<lparr>ht_used := ht_used h0 - 1\<rparr>)
           (h1\<lparr>ht_table := (ht_table h1)[h := de # chain], ht_used := ht_used h1 + 1\<rparr>))"

fun dictRehash_loop :: "('k, 'v) dict \<Rightarrow> nat \<Rightarrow> int \<Rightarrow> (('k, 'v) dict \<times> bool) option" where
  "dictRehash_loop d 0 empty_visits = Some (d, False)"
| "dictRehash_loop d (Suc n) empty_visits =
    (if ht_used (ht0 d) = 0 then Some (d, False)
     else if \<not> (0 \<le> rehashidx d \<and> rehashidx d < int (ht_size (ht0 d))) then None
     else case rehash_skip (ht_table (ht0 d)) (nat (rehashidx d)) empty_visits of
       None \<Rightarrow> None
     | Some (i, ev, True) \<Rightarrow> Some (d\<lparr>rehashidx := int i\<rparr>, True)
     | Some (i, ev, False) \<Rightarrow>
        (case rehash_bucket (dtype d) (ht_table (ht0 d) ! i) (ht0 d) (ht1 d) of
           None \<Rightarrow> None
         | Some (h0, h1) \<Rightarrow>
             dictRehash_loop
               (d\<lparr>ht0 := h0\<lparr>ht_table := (ht_table h0)[i := []]\<rparr>, ht1 := h1,
                  rehashidx := int i + 1\<rparr>) n ev))"

text \<open>\<open>n\<close> and \<open>empty_visits\<close> are of type \<open>int\<close>: where \<open>n*10\<close> overflows the behaviour is undefined.\<close>

definition dictRehash :: "('k, 'v) dict \<Rightarrow> nat \<Rightarrow> (('k, 'v) dict \<times> bool) option" where
  "dictRehash d n =
    (if int n * 10 > INT_MAX then None
     else if \<not> dictIsRehashing d then Some (d, False)
     else case dictRehash_loop d n (int n * 10) of
       None \<Rightarrow> None
     | Some (d, True) \<Rightarrow> Some (d, True)
     | Some (d, False) \<Rightarrow>
         if ht_used (ht0 d) = 0
         then Some (d\<lparr>ht0 := ht1 d, ht1 := dictReset, rehashidx := -1\<rparr>, False)
         else Some (d, True))"

definition dictRehashStep :: "('k, 'v) dict \<Rightarrow> ('k, 'v) dict option" where
  "dictRehashStep d = (if iterators d = 0 then map_option fst (dictRehash d 1) else Some d)"

text \<open>
  The loop of \<open>dictRehashMilliseconds\<close>; \<open>clock\<close> lists what the successive calls of
  \<open>timeInMilliseconds\<close> inside the loop return.
\<close>

fun rehash_ms_loop :: "('k, 'v) dict \<Rightarrow> int \<Rightarrow> int \<Rightarrow> int list \<Rightarrow> int
    \<Rightarrow> (('k, 'v) dict \<times> int) option" where
  "rehash_ms_loop d start ms [] rehashes = None"
| "rehash_ms_loop d start ms (now # clock) rehashes =
    (case dictRehash d 100 of
       None \<Rightarrow> None
     | Some (d, False) \<Rightarrow> Some (d, rehashes)
     | Some (d, True) \<Rightarrow>
         if now - start > ms then Some (d, rehashes + 100)
         else rehash_ms_loop d start ms clock (rehashes + 100))"


section \<open>Lookup and update\<close>

definition dict_ht :: "('k, 'v) dict \<Rightarrow> nat \<Rightarrow> ('k, 'v) dictht" where
  "dict_ht d t = (if t = 0 then ht0 d else ht1 d)"

definition set_dict_ht :: "('k, 'v) dict \<Rightarrow> nat \<Rightarrow> ('k, 'v) dictht \<Rightarrow> ('k, 'v) dict" where
  "set_dict_ht d t h = (if t = 0 then d\<lparr>ht0 := h\<rparr> else d\<lparr>ht1 := h\<rparr>)"

text \<open>The walk along one chain: the place of the first entry whose key compares equal.\<close>

fun chain_search :: "'k dictType \<Rightarrow> 'k \<Rightarrow> ('k \<times> 'v) list \<Rightarrow> nat option" where
  "chain_search t key [] = None"
| "chain_search t key (he # hes) =
    (if dictCompareKeys t key (fst he) then Some 0 else map_option Suc (chain_search t key hes))"

text \<open>
  The search over both tables that \<open>dictFind\<close>, \<open>_dictKeyIndex\<close> and \<open>dictGenericDelete\<close> share:
  the second table is visited only while rehashing.
\<close>

definition table_search :: "('k, 'v) dict \<Rightarrow> 'k \<Rightarrow> nat \<Rightarrow> entry_ptr option option" where
  "table_search d key t =
    (let idx = dictHashKey (dtype d) key AND ht_sizemask (dict_ht d t) in
     case array_get (ht_table (dict_ht d t)) idx of
       None \<Rightarrow> None
     | Some chain \<Rightarrow> Some (map_option (EntryPtr t idx) (chain_search (dtype d) key chain)))"

definition dict_search :: "('k, 'v) dict \<Rightarrow> 'k \<Rightarrow> entry_ptr option option" where
  "dict_search d key =
    (case table_search d key 0 of
       None \<Rightarrow> None
     | Some (Some p) \<Rightarrow> Some (Some p)
     | Some None \<Rightarrow> if \<not> dictIsRehashing d then Some None else table_search d key 1)"

definition dictFind :: "('k, 'v) dict \<Rightarrow> 'k \<Rightarrow> (('k, 'v) dict \<times> entry_ptr option) option" where
  "dictFind d key =
    (if ht_size (ht0 d) = 0 then Some (d, None)
     else do {
       d \<leftarrow> (if dictIsRehashing d then dictRehashStep d else Some d);
       he \<leftarrow> dict_search d key;
       Some (d, he)
     })"

definition entry_at :: "('k, 'v) dict \<Rightarrow> entry_ptr \<Rightarrow> 'k \<times> 'v" where
  "entry_at d p = ht_table (dict_ht d (ptr_table p)) ! ptr_index p ! ptr_pos p"

definition dictSetVal :: "('k, 'v) dict \<Rightarrow> entry_ptr \<Rightarrow> 'v \<Rightarrow> ('k, 'v) dict" where
  "dictSetVal d p v =
    (let h = dict_ht d (ptr_table p); chain = ht_table h ! ptr_index p in
     set_dict_ht d (ptr_table p)
       (h\<lparr>ht_table := (ht_table h)[ptr_index p := chain[ptr_pos p := (fst (chain ! ptr_pos p), v)]]\<rparr>))"

definition dictFetchValue :: "('k, 'v) dict \<Rightarrow> 'k \<Rightarrow> (('k, 'v) dict \<times> 'v option) option" where
  "dictFetchValue d key = do {
     (d, he) \<leftarrow> dictFind d key;
     Some (d, map_option (\<lambda>p. snd (entry_at d p)) he)
   }"

text \<open>\<open>_dictKeyIndex\<close> returns the unsigned index as an \<open>int\<close>; -1 is the answer for a key already there.\<close>

definition dictKeyIndex :: "bool \<Rightarrow> ('k, 'v) dict \<Rightarrow> 'k \<Rightarrow> (('k, 'v) dict \<times> int) option" where
  "dictKeyIndex can_resize d key =
    (case dictExpandIfNeeded can_resize d of
       (d, DICT_ERR) \<Rightarrow> Some (d, -1)
     | (d, DICT_OK) \<Rightarrow>
        do { he \<leftarrow> dict_search d key;
             case he of
               Some p \<Rightarrow> Some (d, -1)
             | None \<Rightarrow> Some (d, c_int (int (dictHashKey (dtype d) key AND
                 ht_sizemask (if dictIsRehashing d then ht1 d else ht0 d)))) })"

text \<open>
  \<open>dictAddRaw\<close>; \<open>junk\<close> is what the freshly allocated, uninitialised value field holds.  A negative
  index other than -1 is a fault.
\<close>

definition dictAddRaw :: "bool \<Rightarrow> ('k, 'v) dict \<Rightarrow> 'k \<Rightarrow> 'v
    \<Rightarrow> (('k, 'v) dict \<times> entry_ptr option) option" where
  "dictAddRaw can_resize d key junk = do {
     d \<leftarrow> (if dictIsRehashing d then dictRehashStep d else Some d);
     (d, index) \<leftarrow> dictKeyIndex can_resize d key;
     if index = -1 then Some (d, None)
     else if index < 0 then None
     else let t = (if dictIsRehashing d then 1 else 0); h = dict_ht d t; i = nat index in
         do { chain \<leftarrow> array_get (ht_table h) i;
              Some (set_dict_ht d t (h\<lparr>ht_table := (ht_table h)[i := (key, junk) # chain],
                                       ht_used := ht_used h + 1\<rparr>),
                    Some (EntryPtr t i 0)) }
   }"

definition dictAdd :: "bool \<Rightarrow> ('k, 'v) dict \<Rightarrow> 'k \<Rightarrow> 'v \<Rightarrow> 'v
    \<Rightarrow> (('k, 'v) dict \<times> dict_status) option" where
  "dictAdd can_resize d key val junk = do {
     (d, entry) \<leftarrow> dictAddRaw can_resize d key junk;
     case entry of
       None \<Rightarrow> Some (d, DICT_ERR)
     | Some e \<Rightarrow> Some (dictSetVal d e val, DICT_OK)
   }"

text \<open>\<open>dictReplace\<close> returns whether the key was added from scratch; after a failed \<open>dictAdd\<close> the
  entry is found and its value overwritten (a NULL entry there would be a fault).\<close>

definition dictReplace :: "bool \<Rightarrow> ('k, 'v) dict \<Rightarrow> 'k \<Rightarrow> 'v \<Rightarrow> 'v
    \<Rightarrow> (('k, 'v) dict \<times> bool) option" where
  "dictReplace can_resize d key val junk = do {
     (d, r) \<leftarrow> dictAdd can_resize d key val junk;
     if r = DICT_OK then Some (d, True)
     else do {
       (d, entry) \<leftarrow> dictFind d key;
       case entry of None \<Rightarrow> None | Some e \<Rightarrow> Some (dictSetVal d e val, False)
     }
   }"

definition dictReplaceRaw :: "bool \<Rightarrow> ('k, 'v) dict \<Rightarrow> 'k \<Rightarrow> 'v
    \<Rightarrow> (('k, 'v) dict \<times> entry_ptr option) option" where
  "dictReplaceRaw can_resize d key junk = do {
     (d, entry) \<leftarrow> dictFind d key;
     case entry of Some e \<Rightarrow> Some (d, Some e) | None \<Rightarrow> dictAddRaw can_resize d key junk
   }"

definition unlink_at :: "'a list \<Rightarrow> nat \<Rightarrow> 'a list" where
  "unlink_at chain p = take p chain @ drop (Suc p) chain"

definition dictGenericDelete :: "('k, 'v) dict \<Rightarrow> 'k \<Rightarrow> (('k, 'v) dict \<times> dict_status) option" where
  "dictGenericDelete d key =
    (if ht_size (ht0 d) = 0 then Some (d, DICT_ERR)
     else do {
       d \<leftarrow> (if dictIsRehashing d then dictRehashStep d else Some d);
       he \<leftarrow> dict_search d key;
       case he of
         None \<Rightarrow> Some (d, DICT_ERR)
       | Some p \<Rightarrow>
           let h = dict_ht d (ptr_table p); chain = ht_table h ! ptr_index p in
           Some (set_dict_ht d (ptr_table p)
                   (h\<lparr>ht_table := (ht_table h)[ptr_index p := unlink_at chain (ptr_pos p)],
                      ht_used := ht_used h - 1\<rparr>), DICT_OK)
     })"

text \<open>\<open>dictEmpty\<close>: \<open>_dictClear\<close> frees every chain while entries remain, then resets the table.\<close>

fun dictClear_loop :: "('k \<times> 'v) list list \<Rightarrow> nat \<Rightarrow> ('k \<times> 'v) list \<Rightarrow> nat \<times> ('k \<times> 'v) list" where
  "dictClear_loop [] used freed = (used, freed)"
| "dictClear_loop (chain # table) used freed =
    (if used > 0 then dictClear_loop table (used - length chain) (freed @ chain) else (used, freed))"

definition dictClear :: "('k, 'v) dictht \<Rightarrow> ('k, 'v) dictht \<times> ('k \<times> 'v) list" where
  "dictClear h = (dictReset, snd (dictClear_loop (ht_table h) (ht_used h) []))"

definition dictEmpty :: "('k, 'v) dict \<Rightarrow> ('k, 'v) dict \<times> ('k \<times> 'v) list" where
  "dictEmpty d =
    (let (h0, freed0) = dictClear (ht0 d); (h1, freed1) = dictClear (ht1 d) in
     (d\<lparr>ht0 := h0, ht1 := h1, rehashidx := -1, iterators := 0\<rparr>, freed0 @ freed1))"

end
