(* ===== verification/Dict_Correct.thy ===== *)
theory Dict_Correct
  imports Dict
begin

text \<open>
  The invariant of the hash table and the refinement of its operations to a finite map:
  \<open>dict_map\<close> reads a table in any stage of rehashing as a partial function from keys to values.
\<close>

section \<open>Invariant and abstraction\<close>

definition type_ok :: "'k dictType \<Rightarrow> bool" where
  "type_ok t \<longleftrightarrow> (\<forall>a b. dictCompareKeys t a b \<longleftrightarrow> a = b)"

definition ht_entries :: "('k, 'v) dictht \<Rightarrow> ('k \<times> 'v) list" where
  "ht_entries h = concat (ht_table h)"

definition dict_entries :: "('k, 'v) dict \<Rightarrow> ('k \<times> 'v) list" where
  "dict_entries d = ht_entries (ht0 d) @ ht_entries (ht1 d)"

definition dict_map :: "('k, 'v) dict \<Rightarrow> 'k \<rightharpoonup> 'v" where
  "dict_map d = map_of (dict_entries d)"

definition bucket_ok :: "'k dictType \<Rightarrow> nat \<Rightarrow> nat \<Rightarrow> ('k \<times> 'v) list \<Rightarrow> bool" where
  "bucket_ok t msk i chain \<longleftrightarrow> (\<forall>e \<in> set chain. dictHashKey t (fst e) AND msk = i)"

definition ht_wf :: "'k dictType \<Rightarrow> ('k, 'v) dictht \<Rightarrow> bool" where
  "ht_wf t h \<longleftrightarrow> length (ht_table h) = ht_size h \<and> ht_sizemask h = ht_size h - 1 \<and>
     ht_used h = length (ht_entries h) \<and>
     (\<forall>i < ht_size h. bucket_ok t (ht_sizemask h) i (ht_table h ! i))"

definition rehash_wf :: "('k, 'v) dict \<Rightarrow> bool" where
  "rehash_wf d \<longleftrightarrow> 0 \<le> rehashidx d \<and> rehashidx d \<le> int (ht_size (ht0 d)) \<and>
     0 < ht_size (ht0 d) \<and> 0 < ht_size (ht1 d) \<and>
     (\<forall>i < nat (rehashidx d). ht_table (ht0 d) ! i = [])"

definition dict_inv :: "('k, 'v) dict \<Rightarrow> bool" where
  "dict_inv d \<longleftrightarrow> type_ok (dtype d) \<and> ht_wf (dtype d) (ht0 d) \<and> ht_wf (dtype d) (ht1 d) \<and>
     distinct (map fst (dict_entries d)) \<and>
     (if dictIsRehashing d then rehash_wf d else ht1 d = dictReset)"

definition valid_ptr :: "('k, 'v) dict \<Rightarrow> entry_ptr \<Rightarrow> bool" where
  "valid_ptr d p \<longleftrightarrow> ptr_table p \<le> 1 \<and> ptr_index p < length (ht_table (dict_ht d (ptr_table p))) \<and>
     ptr_pos p < length (ht_table (dict_ht d (ptr_table p)) ! ptr_index p)"

text \<open>\<open>dict_like d d'\<close>: \<open>d'\<close> holds the same entries in another stage of rehashing.\<close>

definition dict_like :: "('k, 'v) dict \<Rightarrow> ('k, 'v) dict \<Rightarrow> bool" where
  "dict_like d d' \<longleftrightarrow> dict_inv d' \<and> mset (dict_entries d') = mset (dict_entries d) \<and>
     dtype d' = dtype d \<and> iterators d' = iterators d \<and>
     (0 < ht_size (ht0 d) \<longrightarrow> 0 < ht_size (ht0 d'))"

lemma dict_like_refl [simp]: "dict_inv d \<Longrightarrow> dict_like d d"
  by (simp add: dict_like_def)

lemma dict_like_trans [trans]: "dict_like a b \<Longrightarrow> dict_like b c \<Longrightarrow> dict_like a c"
  by (simp add: dict_like_def)

lemma dict_like_map: "dict_inv d \<Longrightarrow> dict_like d d' \<Longrightarrow> dict_map d' = dict_map d"
  unfolding dict_like_def dict_map_def dict_inv_def by (metis map_of_mset)

lemma dict_like_inv: "dict_like d d' \<Longrightarrow> dict_inv d'"
  by (simp add: dict_like_def)

lemma dict_like_mset: "dict_like d d' \<Longrightarrow> mset (dict_entries d') = mset (dict_entries d)"
  by (simp add: dict_like_def)

lemma ht_wf_dictReset [simp]: "ht_wf t dictReset"
  by (simp add: ht_wf_def dictReset_def ht_entries_def)

lemma ht_entries_dictReset [simp]: "ht_entries dictReset = []"
  by (simp add: dictReset_def ht_entries_def)

lemma dictSize_entries: "dict_inv d \<Longrightarrow> dictSize d = length (dict_entries d)"
  by (simp add: dict_inv_def dictSize_def dict_entries_def ht_wf_def)

lemma bucket_in_range: "ht_wf t h \<Longrightarrow> 0 < ht_size h \<Longrightarrow> x AND ht_sizemask h < length (ht_table h)"
  using nat_and_mask_lt [of "ht_size h" x] by (simp add: ht_wf_def)

lemma entry_in_bucket:
  assumes "ht_wf t h" and "e \<in> set (ht_entries h)"
  shows "e \<in> set (ht_table h ! (dictHashKey t (fst e) AND ht_sizemask h))"
proof -
  obtain i where i: "i < length (ht_table h)" "e \<in> set (ht_table h ! i)"
    using assms(2) unfolding ht_entries_def by (metis in_set_conv_nth in_set_concat_nth)
  with assms(1) have "dictHashKey t (fst e) AND ht_sizemask h = i"
    unfolding ht_wf_def bucket_ok_def by metis
  with i show ?thesis by simp
qed

section \<open>Search\<close>

lemma chain_search_None:
  "type_ok t \<Longrightarrow> chain_search t key chain = None \<longleftrightarrow> key \<notin> fst ` set chain"
  by (induction chain) (auto simp: type_ok_def)

lemma chain_search_Some:
  "type_ok t \<Longrightarrow> chain_search t key chain = Some p \<Longrightarrow> p < length chain \<and> fst (chain ! p) = key"
  by (induction chain arbitrary: p) (auto simp: type_ok_def split: if_splits)

lemma table_search_correct:
  assumes wf: "ht_wf (dtype d) (dict_ht d t)" and sz: "0 < ht_size (dict_ht d t)"
    and ok: "type_ok (dtype d)" and t: "t \<le> 1"
  obtains (found) p where "table_search d key t = Some (Some p)" and "ptr_table p = t"
      and "valid_ptr d p" and "fst (entry_at d p) = key"
  | (absent) "table_search d key t = Some None" and "key \<notin> fst ` set (ht_entries (dict_ht d t))"
proof -
  let ?h = "dict_ht d t"
  let ?i = "dictHashKey (dtype d) key AND ht_sizemask ?h"
  let ?c = "ht_table ?h ! ?i"
  have i: "?i < length (ht_table ?h)" using bucket_in_range [OF wf sz] .
  show thesis
  proof (cases "chain_search (dtype d) key ?c")
    case None
    then have "key \<notin> fst ` set ?c" using ok by (simp add: chain_search_None)
    then have "key \<notin> fst ` set (ht_entries ?h)" using entry_in_bucket [OF wf] by force
    moreover have "table_search d key t = Some None"
      using i None by (simp add: table_search_def Let_def)
    ultimately show thesis by (rule absent [rotated])
  next
    case (Some p)
    then have "p < length ?c" "fst (?c ! p) = key" using ok chain_search_Some by fastforce+
    moreover have "table_search d key t = Some (Some (EntryPtr t ?i p))"
      using i Some by (simp add: table_search_def Let_def)
    ultimately show thesis using i t
      by (intro found [of "EntryPtr t ?i p"]) (auto simp: valid_ptr_def entry_at_def)
  qed
qed

lemma dict_search_correct:
  assumes inv: "dict_inv d" and sz: "0 < ht_size (ht0 d)"
  obtains (found) p where "dict_search d key = Some (Some p)" and "valid_ptr d p"
      and "fst (entry_at d p) = key"
  | (absent) "dict_search d key = Some None" and "key \<notin> fst ` set (dict_entries d)"
proof -
  have wf: "ht_wf (dtype d) (dict_ht d 0)" "ht_wf (dtype d) (dict_ht d 1)" and ok: "type_ok (dtype d)"
    using inv by (auto simp: dict_inv_def dict_ht_def)
  have sz0: "0 < ht_size (dict_ht d 0)" using sz by (simp add: dict_ht_def)
  show thesis
  proof (cases rule: table_search_correct [OF wf(1) sz0 ok, of key])
    case 1 then show ?case by simp
  next
    case (2 p) then show thesis by (intro found) (auto simp: dict_search_def)
  next
    case 3
    show thesis
    proof (cases "dictIsRehashing d")
      case False
      then show thesis using 3 inv
        by (intro absent) (auto simp: dict_search_def dict_entries_def dict_inv_def dict_ht_def)
    next
      case True
      then have sz1: "0 < ht_size (dict_ht d 1)"
        using inv by (simp add: dict_inv_def rehash_wf_def dict_ht_def)
      show thesis
      proof (cases rule: table_search_correct [OF wf(2) sz1 ok, of key])
        case 1 then show ?case by simp
      next
        case (2 p) then show thesis using 3 True by (intro found) (auto simp: dict_search_def)
      next
        case absent1: 3
        then show thesis using 3 True
          by (intro absent) (auto simp: dict_search_def dict_entries_def dict_ht_def)
      qed
    qed
  qed
qed

lemma entry_at_mem:
  assumes "valid_ptr d p" shows "entry_at d p \<in> set (dict_entries d)"
proof -
  have "entry_at d p \<in> set (ht_entries (dict_ht d (ptr_table p)))"
    using assms unfolding valid_ptr_def entry_at_def ht_entries_def
    by (metis nth_concat_mem nth_mem)
  then show ?thesis by (auto simp: dict_entries_def dict_ht_def split: if_splits)
qed

lemma entry_at_map:
  assumes "dict_inv d" and "valid_ptr d p"
  shows "dict_map d (fst (entry_at d p)) = Some (snd (entry_at d p))"
  using entry_at_mem [OF assms(2)] assms(1) by (simp add: dict_map_def dict_inv_def)

lemma dict_map_None: "dict_map d k = None \<longleftrightarrow> k \<notin> fst ` set (dict_entries d)"
  by (simp add: dict_map_def map_of_eq_None_iff)

section \<open>Rehashing\<close>

lemma ht_wf_upd:
  assumes wf: "ht_wf t h" and i: "i < length (ht_table h)" and c: "bucket_ok t (ht_sizemask h) i c"
    and h': "ht_table h' = (ht_table h)[i := c]" "ht_size h' = ht_size h"
      "ht_sizemask h' = ht_sizemask h" "ht_used h' + length (ht_table h ! i) = ht_used h + length c"
  shows "ht_wf t h'" and "mset (ht_entries h') + mset (ht_table h ! i) = mset (ht_entries h) + mset c"
proof -
  show "mset (ht_entries h') + mset (ht_table h ! i) = mset (ht_entries h) + mset c"
    using mset_concat_update [OF i, of c] by (simp add: ht_entries_def h')
  have "length (ht_entries h') + length (ht_table h ! i) = length (ht_entries h) + length c"
    using length_concat_update [OF i, of c] by (simp add: ht_entries_def h')
  then have "ht_used h' = length (ht_entries h')" using wf h'(4) by (simp add: ht_wf_def)
  moreover have "bucket_ok t (ht_sizemask h') j (ht_table h' ! j)" if "j < ht_size h'" for j
    using wf that c i h' unfolding ht_wf_def by (cases "j = i") auto
  ultimately show "ht_wf t h'" using wf h' by (simp add: ht_wf_def)
qed

lemma bucket_ok_nth: "ht_wf t h \<Longrightarrow> i < length (ht_table h) \<Longrightarrow> bucket_ok t (ht_sizemask h) i (ht_table h ! i)"
  unfolding ht_wf_def by metis

lemma ht_wf_insert:
  assumes wf: "ht_wf t h" and i: "i = dictHashKey t (fst e) AND ht_sizemask h" and sz: "0 < ht_size h"
    and h': "h' = h\<lparr>ht_table := (ht_table h)[i := e # ht_table h ! i], ht_used := ht_used h + 1\<rparr>"
  shows "ht_wf t h'" and "mset (ht_entries h') = add_mset e (mset (ht_entries h))"
proof -
  have lt: "i < length (ht_table h)" using bucket_in_range [OF wf sz] i by simp
  have c: "bucket_ok t (ht_sizemask h) i (e # ht_table h ! i)"
    using bucket_ok_nth [OF wf lt] i by (simp add: bucket_ok_def)
  show "ht_wf t h'" by (rule ht_wf_upd(1) [OF wf lt c]) (simp_all add: h')
  show "mset (ht_entries h') = add_mset e (mset (ht_entries h))"
    using ht_wf_upd(2) [OF wf lt c, of h'] by (simp add: h')
qed

lemma rehash_bucket_correct:
  assumes "ht_wf t h1" and "0 < ht_size h1"
  shows "\<exists>h1'. rehash_bucket t des h0 h1 = Some (h0\<lparr>ht_used := ht_used h0 - length des\<rparr>, h1') \<and>
     ht_wf t h1' \<and> ht_size h1' = ht_size h1 \<and>
     mset (ht_entries h1') = mset des + mset (ht_entries h1)"
  using assms
proof (induction des arbitrary: h0 h1)
  case Nil
  then show ?case by simp
next
  case (Cons de des)
  let ?i = "dictHashKey t (fst de) AND ht_sizemask h1"
  let ?h1 = "h1\<lparr>ht_table := (ht_table h1)[?i := de # ht_table h1 ! ?i], ht_used := ht_used h1 + 1\<rparr>"
  note ins = ht_wf_insert [OF Cons.prems(1) refl Cons.prems(2) refl, of de]
  have "0 < ht_size ?h1" using Cons.prems(2) by simp
  from Cons.IH [OF ins(1) this, of "h0\<lparr>ht_used := ht_used h0 - 1\<rparr>"] obtain h1' where
    "rehash_bucket t des (h0\<lparr>ht_used := ht_used h0 - 1\<rparr>) ?h1 =
       Some (h0\<lparr>ht_used := ht_used h0 - 1 - length des\<rparr>, h1')"
    "ht_wf t h1'" "ht_size h1' = ht_size ?h1"
    "mset (ht_entries h1') = mset des + mset (ht_entries ?h1)" by auto
  then show ?case
    using bucket_in_range [OF Cons.prems, of "dictHashKey t (fst de)"] ins(2) by (simp add: Let_def)
qed

lemma rehash_skip_correct:
  assumes "\<exists>j \<ge> i. j < length table \<and> table ! j \<noteq> []"
  obtains i' ev' b where "rehash_skip table i ev = Some (i', ev', b)" and "i \<le> i'"
    and "i' < length table" and "\<And>j. i \<le> j \<Longrightarrow> j < i' \<Longrightarrow> table ! j = []"
    and "b = False \<Longrightarrow> table ! i' \<noteq> []"
proof -
  have "\<exists>i' ev' b. rehash_skip table i ev = Some (i', ev', b) \<and> i \<le> i' \<and> i' < length table \<and>
    (\<forall>j. i \<le> j \<longrightarrow> j < i' \<longrightarrow> table ! j = []) \<and> (b = False \<longrightarrow> table ! i' \<noteq> [])"
    using assms
  proof (induction table i ev rule: rehash_skip.induct)
    case (1 table i ev)
    then obtain j where j: "j \<ge> i" "j < length table" "table ! j \<noteq> []" by blast
    show ?case
    proof (cases "table ! i = []")
      case False
      then have "rehash_skip table i ev = Some (i, ev, False)"
        using j by (simp add: rehash_skip.simps [of table i ev])
      then show ?thesis using False j by auto
    next
      case True
      with j have "j \<noteq> i" by auto
      with j have j': "Suc i \<le> j" by simp
      show ?thesis
      proof (cases "ev - 1 = 0")
        case True
        then have "rehash_skip table i ev = Some (Suc i, 0, True)"
          using \<open>table ! i = []\<close> j by (subst rehash_skip.simps) simp
        moreover have "table ! m = []" if "i \<le> m" "m < Suc i" for m
          using that \<open>table ! i = []\<close> by (cases "m = i") auto
        ultimately show ?thesis using j j' by auto
      next
        case False
        have "\<not> i \<ge> length table" using j by simp
        from "1.IH" [OF this \<open>table ! i = []\<close> False] j j' obtain i' ev' b where
          IH: "rehash_skip table (i + 1) (ev - 1) = Some (i', ev', b)" "i + 1 \<le> i'"
            "i' < length table" "\<forall>j. i + 1 \<le> j \<longrightarrow> j < i' \<longrightarrow> table ! j = []" "b = False \<longrightarrow> table ! i' \<noteq> []"
          by auto
        have "table ! j = []" if "i \<le> j" "j < i'" for j
          using that IH(4) \<open>table ! i = []\<close> by (cases "j = i") auto
        moreover have "rehash_skip table i ev = Some (i', ev', b)"
          using IH(1) False \<open>table ! i = []\<close> j by (simp add: rehash_skip.simps [of table i ev])
        ultimately show ?thesis using IH by (intro exI [of _ i'] exI [of _ ev'] exI [of _ b]) auto
      qed
    qed
  qed
  then show thesis using that by blast
qed

lemma rehash_nonempty_left:
  assumes inv: "dict_inv d" and re: "dictIsRehashing d" and used: "ht_used (ht0 d) \<noteq> 0"
  shows "\<exists>j \<ge> nat (rehashidx d). j < length (ht_table (ht0 d)) \<and> ht_table (ht0 d) ! j \<noteq> []"
proof -
  have "ht_entries (ht0 d) \<noteq> []" using inv used by (auto simp: dict_inv_def ht_wf_def)
  then obtain e where "e \<in> set (ht_entries (ht0 d))" using hd_in_set by blast
  then obtain j where j: "j < length (ht_table (ht0 d))" "e \<in> set (ht_table (ht0 d) ! j)"
    unfolding ht_entries_def by (metis in_set_concat_nth)
  then have "\<not> j < nat (rehashidx d)" using inv re by (auto simp: dict_inv_def rehash_wf_def)
  with j show ?thesis by (metis empty_iff empty_set not_less)
qed

text \<open>One bucket moved: the state the outer loop continues with.\<close>

lemma rehash_one_bucket:
  assumes inv: "dict_inv d" and re: "dictIsRehashing d"
    and i: "i < length (ht_table (ht0 d))" "\<And>j. j < i \<Longrightarrow> ht_table (ht0 d) ! j = []"
  obtains h1 where
    "rehash_bucket (dtype d) (ht_table (ht0 d) ! i) (ht0 d) (ht1 d) =
       Some ((ht0 d)\<lparr>ht_used := ht_used (ht0 d) - length (ht_table (ht0 d) ! i)\<rparr>, h1)"
    "dict_like d (d\<lparr>ht0 := (ht0 d)\<lparr>ht_used := ht_used (ht0 d) - length (ht_table (ht0 d) ! i),
         ht_table := (ht_table (ht0 d))[i := []]\<rparr>, ht1 := h1, rehashidx := int i + 1\<rparr>)"
proof -
  let ?b = "ht_table (ht0 d) ! i"
  let ?h0 = "(ht0 d)\<lparr>ht_used := ht_used (ht0 d) - length ?b, ht_table := (ht_table (ht0 d))[i := []]\<rparr>"
  have wf0: "ht_wf (dtype d) (ht0 d)" and wf1: "ht_wf (dtype d) (ht1 d)" and sz1: "0 < ht_size (ht1 d)"
    using inv re by (auto simp: dict_inv_def rehash_wf_def)
  from rehash_bucket_correct [OF wf1 sz1, of ?b "ht0 d"] obtain h1 where h1:
    "rehash_bucket (dtype d) ?b (ht0 d) (ht1 d) = Some ((ht0 d)\<lparr>ht_used := ht_used (ht0 d) - length ?b\<rparr>, h1)"
    "ht_wf (dtype d) h1" "ht_size h1 = ht_size (ht1 d)"
    "mset (ht_entries h1) = mset ?b + mset (ht_entries (ht1 d))" by blast
  have "length ?b \<le> ht_used (ht0 d)"
    using wf0 length_concat_update [OF i(1), of "[]"] by (simp add: ht_wf_def ht_entries_def)
  then have wf0': "ht_wf (dtype d) ?h0" and m0: "mset (ht_entries ?h0) + mset ?b = mset (ht_entries (ht0 d))"
    using ht_wf_upd [OF wf0 i(1), of "[]" ?h0] by (simp_all add: bucket_ok_def)
  let ?d = "d\<lparr>ht0 := ?h0, ht1 := h1, rehashidx := int i + 1\<rparr>"
  have m: "mset (dict_entries ?d) = mset (dict_entries d)"
    using m0 h1(4) by (simp add: dict_entries_def ac_simps)
  have "rehash_wf ?d" using inv re i wf0 h1(3)
    by (auto simp: dict_inv_def rehash_wf_def ht_wf_def nth_list_update less_Suc_eq nat_add_distrib)
  moreover have "distinct (map fst (dict_entries ?d))"
    using inv distinct_keys_mset [OF m] by (simp add: dict_inv_def)
  ultimately have "dict_inv ?d" using wf0' h1(2) inv by (simp add: dict_inv_def dictIsRehashing_def)
  with m h1(1) that show thesis by (simp add: dict_like_def)
qed

lemma dictRehash_loop_correct:
  assumes "dict_inv d" and "dictIsRehashing d"
  shows "\<exists>d' b. dictRehash_loop d n ev = Some (d', b) \<and> dict_like d d' \<and> dictIsRehashing d' \<and>
    (b \<longrightarrow> ht_used (ht0 d') \<noteq> 0)"
  using assms
proof (induction n arbitrary: d ev)
  case 0
  then show ?case by auto
next
  case (Suc n)
  show ?case
  proof (cases "ht_used (ht0 d) = 0")
    case True
    with Suc.prems show ?thesis by auto
  next
    case False
    note left = rehash_nonempty_left [OF Suc.prems False]
    have wf: "rehash_wf d" "length (ht_table (ht0 d)) = ht_size (ht0 d)"
      using Suc.prems by (auto simp: dict_inv_def ht_wf_def)
    have "nat (rehashidx d) < length (ht_table (ht0 d))" using left by (meson le_less_trans)
    then have idx: "0 \<le> rehashidx d \<and> rehashidx d < int (ht_size (ht0 d))"
      using wf by (simp add: rehash_wf_def nat_less_iff)
    from rehash_skip_correct [OF left, of ev] obtain i ev' b where sk:
      "rehash_skip (ht_table (ht0 d)) (nat (rehashidx d)) ev = Some (i, ev', b)"
      "nat (rehashidx d) \<le> i" "i < length (ht_table (ht0 d))"
      "\<And>j. nat (rehashidx d) \<le> j \<Longrightarrow> j < i \<Longrightarrow> ht_table (ht0 d) ! j = []" by metis
    have empty: "ht_table (ht0 d) ! j = []" if "j < i" for j
      using that sk(4) wf(1) by (cases "j < nat (rehashidx d)") (auto simp: rehash_wf_def)
    show ?thesis
    proof (cases b)
      case True
      have "dict_like d (d\<lparr>rehashidx := int i\<rparr>)"
        using Suc.prems sk(3) wf empty
        by (auto simp: dict_like_def dict_inv_def dictIsRehashing_def rehash_wf_def dict_entries_def)
      with True False idx sk show ?thesis by (auto simp: dictIsRehashing_def)
    next
      case f: False
      from rehash_one_bucket [OF Suc.prems sk(3) empty] obtain h1 where h1:
        "rehash_bucket (dtype d) (ht_table (ht0 d) ! i) (ht0 d) (ht1 d) =
          Some ((ht0 d)\<lparr>ht_used := ht_used (ht0 d) - length (ht_table (ht0 d) ! i)\<rparr>, h1)"
        "dict_like d (d\<lparr>ht0 := (ht0 d)\<lparr>ht_used := ht_used (ht0 d) - length (ht_table (ht0 d) ! i),
           ht_table := (ht_table (ht0 d))[i := []]\<rparr>, ht1 := h1, rehashidx := int i + 1\<rparr>)"
        (is "dict_like d ?d") by blast
      have "dictIsRehashing ?d" by (simp add: dictIsRehashing_def)
      from Suc.IH [OF dict_like_inv [OF h1(2)] this, of ev'] dict_like_trans [OF h1(2)]
      obtain d' b' where "dictRehash_loop ?d n ev' = Some (d', b') \<and> dict_like d d' \<and>
          dictIsRehashing d' \<and> (b' \<longrightarrow> ht_used (ht0 d') \<noteq> 0)" by blast
      then show ?thesis using f False idx sk(1) h1(1) by (auto split: bool.splits)
    qed
  qed
qed

lemma dictRehash_correct:
  assumes inv: "dict_inv d" and n: "int n * 10 \<le> INT_MAX"
  shows "\<exists>d' b. dictRehash d n = Some (d', b) \<and> dict_like d d' \<and> (b \<longleftrightarrow> dictIsRehashing d')"
proof (cases "dictIsRehashing d")
  case False
  then show ?thesis using inv n by (simp add: dictRehash_def)
next
  case True
  from dictRehash_loop_correct [OF inv True, of n "int n * 10"] obtain d' b where
    l: "dictRehash_loop d n (int n * 10) = Some (d', b)" and like: "dict_like d d'"
    and re: "dictIsRehashing d'" and b: "b \<longrightarrow> ht_used (ht0 d') \<noteq> 0" by blast
  show ?thesis
  proof (cases "b \<or> ht_used (ht0 d') \<noteq> 0")
    case c: True
    then show ?thesis using l like re True n by (cases b) (auto simp: dictRehash_def)
  next
    case False
    let ?d = "d'\<lparr>ht0 := ht1 d', ht1 := dictReset, rehashidx := -1\<rparr>"
    have "ht_entries (ht0 d') = []"
      using False like by (auto simp: dict_like_def dict_inv_def ht_wf_def)
    moreover have "0 < ht_size (ht1 d')"
      using like re by (auto simp: dict_like_def dict_inv_def rehash_wf_def)
    ultimately have "dict_like d ?d"
      using like by (auto simp: dict_like_def dict_inv_def dictIsRehashing_def dict_entries_def)
    then show ?thesis using l False True n by (auto simp: dictRehash_def dictIsRehashing_def)
  qed
qed

lemma dictRehashStep_correct:
  assumes "dict_inv d"
  obtains d' where "dictRehashStep d = Some d'" and "dict_like d d'"
proof -
  have "int 1 * 10 \<le> INT_MAX" by simp
  from dictRehash_correct [OF assms this] obtain d' b where "dictRehash d 1 = Some (d', b)" "dict_like d d'"
    by blast
  with assms that show thesis by (cases "iterators d = 0") (auto simp: dictRehashStep_def)
qed

section \<open>Resizing\<close>

lemma dictNextPower_loop_pow:
  "0 < i \<Longrightarrow> \<exists>k. dictNextPower_loop i sz = i * 2 ^ k \<and> sz \<le> i * 2 ^ k"
proof (induction i sz rule: dictNextPower_loop.induct)
  case (1 i sz)
  show ?case
  proof (cases "sz \<le> i")
    case True
    then show ?thesis
      by (intro exI [of _ 0]) (simp add: dictNextPower_loop.simps [of i sz])
  next
    case False
    with 1 obtain k where "dictNextPower_loop (i * 2) sz = i * 2 * 2 ^ k" "sz \<le> i * 2 * 2 ^ k" by auto
    with False "1.prems" show ?thesis
      by (intro exI [of _ "Suc k"]) (simp add: dictNextPower_loop.simps [of i sz])
  qed
qed

lemma dictNextPower_pow:
  assumes "sz < LONG_MAX"
  shows "\<exists>k. dictNextPower sz = 4 * 2 ^ k" and "sz \<le> dictNextPower sz"
  using dictNextPower_loop_pow [of 4 sz] assms by (auto simp: dictNextPower_def DICT_HT_INITIAL_SIZE_def)

lemma dictNextPower_pos: "0 < dictNextPower sz"
  using dictNextPower_pow(1) [of sz] by (cases "sz < LONG_MAX") (auto simp: dictNextPower_def)

lemma ht_wf_fresh:
  "ht_wf t \<lparr>ht_table = replicate n [], ht_size = n, ht_sizemask = n - Suc 0, ht_used = 0\<rparr>"
  "ht_entries \<lparr>ht_table = replicate n [], ht_size = n, ht_sizemask = n - Suc 0, ht_used = 0\<rparr> = []"
  by (auto simp: ht_wf_def ht_entries_def bucket_ok_def)

lemma dictExpand_like:
  assumes "dict_inv d" shows "dict_like d (fst (dictExpand d sz))"
proof -
  let ?n = "\<lparr>ht_table = replicate (dictNextPower sz) [], ht_size = dictNextPower sz,
    ht_sizemask = dictNextPower sz - 1, ht_used = 0\<rparr> :: ('a, 'b) dictht"
  have "dict_like d (d\<lparr>ht0 := ?n\<rparr>)" if "\<not> dictIsRehashing d" "ht_table (ht0 d) = []"
  proof -
    have "ht_entries (ht0 d) = []" using that by (simp add: ht_entries_def)
    then show ?thesis using that assms dictNextPower_pos [of sz]
      by (simp add: dict_like_def dict_inv_def dictIsRehashing_def dict_entries_def ht_wf_fresh)
  qed
  moreover have "dict_like d (d\<lparr>ht1 := ?n, rehashidx := 0\<rparr>)"
    if "\<not> dictIsRehashing d" "ht_table (ht0 d) \<noteq> []"
  proof -
    have "0 < ht_size (ht0 d)" using that assms by (cases "ht_table (ht0 d)") (auto simp: dict_inv_def ht_wf_def)
    then show ?thesis using that assms dictNextPower_pos [of sz]
      by (simp add: dict_like_def dict_inv_def dictIsRehashing_def dict_entries_def ht_wf_fresh rehash_wf_def)
  qed
  ultimately show ?thesis using assms by (simp add: dictExpand_def Let_def)
qed

lemma dictResize_like: "dict_inv d \<Longrightarrow> dict_like d (fst (dictResize cr d))"
  by (simp add: dictResize_def dictExpand_like Let_def)

text \<open>
  Up to 2^30 entries a table doubles to at most 2^31 buckets.  In tables of at most 2^31 buckets (\<open>dict_fits\<close>)
  every index is an \<open>int\<close>.
\<close>

definition dict_small :: "('k, 'v) dict \<Rightarrow> bool" where
  "dict_small d \<longleftrightarrow> 2 * dictSize d \<le> 2 ^ 31"

definition dict_fits :: "('k, 'v) dict \<Rightarrow> bool" where
  "dict_fits d \<longleftrightarrow> ht_size (ht0 d) \<le> 2 ^ 31 \<and> ht_size (ht1 d) \<le> 2 ^ 31"

lemma rehash_bucket_sizes:
  "rehash_bucket t des h0 h1 = Some (h0', h1') \<Longrightarrow> ht_size h0' = ht_size h0 \<and> ht_size h1' = ht_size h1"
  by (induction t des h0 h1 rule: rehash_bucket.induct) (auto simp: Let_def split: option.splits)

lemma dictRehash_loop_sizes:
  "dictRehash_loop d n ev = Some (d', b) \<Longrightarrow>
    ht_size (ht0 d') = ht_size (ht0 d) \<and> ht_size (ht1 d') = ht_size (ht1 d)"
  by (induction d n ev rule: dictRehash_loop.induct)
    (auto split: if_splits option.splits bool.splits dest!: rehash_bucket_sizes)

lemma dictRehash_fits: "dictRehash d n = Some (d', b) \<Longrightarrow> dict_fits d \<Longrightarrow> dict_fits d'"
  by (auto simp: dictRehash_def dict_fits_def dictReset_def split: if_splits option.splits bool.splits
      dest!: dictRehash_loop_sizes)

lemma dictRehashStep_fits: "dictRehashStep d = Some d' \<Longrightarrow> dict_fits d \<Longrightarrow> dict_fits d'"
  by (auto simp: dictRehashStep_def split: if_splits dest: dictRehash_fits)

lemma dictNextPower_loop_le:
  "i = 2 ^ j \<Longrightarrow> j \<le> 31 \<Longrightarrow> sz \<le> 2 ^ 31 \<Longrightarrow> dictNextPower_loop i sz \<le> 2 ^ 31"
proof (induction i sz arbitrary: j rule: dictNextPower_loop.induct)
  case (1 i sz)
  show ?case
  proof (cases "sz \<le> i")
    case True
    have "(2 :: nat) ^ j \<le> 2 ^ 31" using "1.prems"(2) by (intro power_increasing) simp_all
    then show ?thesis using True "1.prems"(1) by (subst dictNextPower_loop.simps) simp
  next
    case False
    then have "j \<noteq> 31" using "1.prems" by auto
    then have "dictNextPower_loop (i * 2) sz \<le> 2 ^ 31"
      using False "1.prems" by (intro "1.IH" [of "Suc j"]) auto
    then show ?thesis using False "1.prems"(1) by (subst dictNextPower_loop.simps) simp
  qed
qed

lemma dictNextPower_le: "sz \<le> 2 ^ 31 \<Longrightarrow> dictNextPower sz \<le> 2 ^ 31"
  using dictNextPower_loop_le [of 4 2 sz] by (simp add: dictNextPower_def DICT_HT_INITIAL_SIZE_def)

lemma dictExpand_fits: "sz \<le> 2 ^ 31 \<Longrightarrow> dict_fits d \<Longrightarrow> dict_fits (fst (dictExpand d sz))"
  using dictNextPower_le [of sz] by (simp add: dictExpand_def dict_fits_def Let_def)

lemma dictExpandIfNeeded_fits:
  "dict_small d \<Longrightarrow> dict_fits d \<Longrightarrow> dict_fits (fst (dictExpandIfNeeded cr d))"
  by (auto simp: dictExpandIfNeeded_def dict_small_def dictSize_def DICT_HT_INITIAL_SIZE_def intro!: dictExpand_fits)

lemma dict_like_size:
  assumes "dict_inv d" and "dict_like d d'" shows "dictSize d' = dictSize d"
  using mset_eq_length [OF dict_like_mset [OF assms(2)]]
  by (simp only: dictSize_entries [OF assms(1)] dictSize_entries [OF dict_like_inv [OF assms(2)]])

lemma dict_like_small: "dict_inv d \<Longrightarrow> dict_like d d' \<Longrightarrow> dict_small d' \<longleftrightarrow> dict_small d"
  unfolding dict_small_def by (drule (1) dict_like_size) simp

lemma dictExpandIfNeeded_correct:
  assumes inv: "dict_inv d" and small: "dict_small d"
  obtains d' where "dictExpandIfNeeded cr d = (d', DICT_OK)" and "dict_like d d'"
    and "0 < ht_size (ht0 d')"
proof (cases "dictIsRehashing d \<or> 0 < ht_size (ht0 d) \<and> \<not> (ht_used (ht0 d) \<ge> ht_size (ht0 d) \<and>
    (cr \<or> ht_used (ht0 d) div ht_size (ht0 d) > dict_force_resize_ratio))")
  case True
  then have "0 < ht_size (ht0 d)" using inv by (auto simp: dict_inv_def rehash_wf_def)
  with True inv show thesis by (intro that [of d]) (auto simp: dictExpandIfNeeded_def)
next
  case False
  define sz where "sz = (if ht_size (ht0 d) = 0 then DICT_HT_INITIAL_SIZE else ht_used (ht0 d) * 2)"
  have eq: "dictExpandIfNeeded cr d = dictExpand d sz"
    using False by (auto simp: dictExpandIfNeeded_def sz_def)
  have le: "ht_used (ht0 d) \<le> sz" "ht_size (ht0 d) < sz"
    using False inv by (auto simp: sz_def DICT_HT_INITIAL_SIZE_def dict_inv_def ht_wf_def ht_entries_def)
  have "sz < LONG_MAX"
    using small by (auto simp: dict_small_def dictSize_def sz_def DICT_HT_INITIAL_SIZE_def)
  then have "sz \<le> dictNextPower sz" by (rule dictNextPower_pow)
  moreover have "ht_table (ht0 d) = [] \<longleftrightarrow> ht_size (ht0 d) = 0"
    using inv by (auto simp: dict_inv_def ht_wf_def)
  ultimately have "snd (dictExpand d sz) = DICT_OK" "0 < ht_size (ht0 (fst (dictExpand d sz)))"
    using False le dictNextPower_pos [of sz] by (auto simp: dictExpand_def Let_def)
  then show thesis using dictExpand_like [OF inv, of sz]
    by (intro that [of "fst (dictExpand d sz)"]) (simp_all add: eq prod_eq_iff)
qed

section \<open>Operations\<close>

lemma dict_ht_simps [simp]:
  "dict_ht d 0 = ht0 d" "dict_ht d (Suc 0) = ht1 d" "dict_ht (set_dict_ht d t h) t = h"
  "dtype (set_dict_ht d t h) = dtype d" "rehashidx (set_dict_ht d t h) = rehashidx d"
  "iterators (set_dict_ht d t h) = iterators d"
  by (auto simp: dict_ht_def set_dict_ht_def)

text \<open>Replacing one bucket of one table, the shape of every update.\<close>

lemma dict_inv_upd:
  assumes inv: "dict_inv d" and t: "t \<le> 1" "t = 1 \<longrightarrow> dictIsRehashing d"
    and i: "i < length (ht_table (dict_ht d t))" and c: "bucket_ok (dtype d) (ht_sizemask (dict_ht d t)) i c"
    and h: "h = dict_ht d t"
    and h': "ht_table h' = (ht_table h)[i := c]" "ht_size h' = ht_size h"
      "ht_sizemask h' = ht_sizemask h" "ht_used h' + length (ht_table h ! i) = ht_used h + length c"
    and nonempty: "ht_table h ! i = [] \<longrightarrow> c = [] \<or> t = 1 \<or> \<not> dictIsRehashing d"
    and keys: "distinct (map fst (dict_entries (set_dict_ht d t h')))"
  shows "dict_inv (set_dict_ht d t h')"
proof -
  have wf: "ht_wf (dtype d) h" using inv t h by (auto simp: dict_inv_def dict_ht_def)
  have wf': "ht_wf (dtype d) h'" by (rule ht_wf_upd(1) [OF wf]) (use i c h h' in auto)
  show ?thesis
  proof (cases "t = 0")
    case True
    have "ht_table h' ! j = []" if "dictIsRehashing d" "j < nat (rehashidx d)" for j
    proof -
      have "ht_table h ! j = []" using that inv True h by (auto simp: dict_inv_def rehash_wf_def)
      then show ?thesis using nonempty True that i h h' by (cases "j = i") auto
    qed
    then show ?thesis using inv wf' True keys h h'
      by (auto simp: dict_inv_def set_dict_ht_def dictIsRehashing_def rehash_wf_def)
  next
    case False
    then show ?thesis using inv wf' t keys h h'
      by (auto simp: dict_inv_def set_dict_ht_def dictIsRehashing_def rehash_wf_def dict_ht_def)
  qed
qed

lemma dict_entries_upd:
  assumes "t \<le> 1" and "i < length (ht_table (dict_ht d t))"
    and "ht_table h' = (ht_table (dict_ht d t))[i := c]"
  shows "mset (dict_entries (set_dict_ht d t h')) + mset (ht_table (dict_ht d t) ! i) =
    mset (dict_entries d) + mset c"
  using assms mset_concat_update [of i "ht_table (dict_ht d t)" c]
  by (auto simp: dict_entries_def ht_entries_def dict_ht_def set_dict_ht_def ac_simps)

lemma valid_ptr_rehashing:
  "dict_inv d \<Longrightarrow> valid_ptr d p \<Longrightarrow> ptr_table p = 1 \<longrightarrow> dictIsRehashing d"
  by (auto simp: dict_inv_def valid_ptr_def dictReset_def split: if_splits)

lemma valid_ptr_wf:
  "dict_inv d \<Longrightarrow> valid_ptr d p \<Longrightarrow> ht_wf (dtype d) (dict_ht d (ptr_table p))"
  by (auto simp: dict_inv_def valid_ptr_def dict_ht_def)

lemma dict_maybe_step:
  assumes "dict_inv d"
  obtains d' where "(if dictIsRehashing d then dictRehashStep d else Some d) = Some d'" and "dict_like d d'"
  by (cases "dictIsRehashing d") (use assms in \<open>auto intro: dictRehashStep_correct\<close>)

lemma dictFind_correct:
  assumes inv: "dict_inv d"
  obtains (found) d' p where "dictFind d key = Some (d', Some p)" and "dict_like d d'"
      and "valid_ptr d' p" and "fst (entry_at d' p) = key" and "dict_map d key = Some (snd (entry_at d' p))"
  | (absent) d' where "dictFind d key = Some (d', None)" and "dict_like d d'" and "dict_map d key = None"
proof (cases "ht_size (ht0 d) = 0")
  case True
  then have "\<not> dictIsRehashing d" "ht_table (ht0 d) = []" using inv
    by (auto simp: dict_inv_def rehash_wf_def ht_wf_def)
  then have "dict_entries d = []" using inv by (simp add: dict_inv_def dict_entries_def ht_entries_def dictReset_def)
  then have "dict_map d key = None" by (simp add: dict_map_def)
  moreover have "dictFind d key = Some (d, None)" using True by (simp add: dictFind_def)
  ultimately show thesis using inv by (intro that(2) [of d]) simp_all
next
  case False
  obtain d' where step: "(if dictIsRehashing d then dictRehashStep d else Some d) = Some d'" and
    like: "dict_like d d'"
    using dict_maybe_step [OF inv] .
  note inv' = dict_like_inv [OF like] and m = dict_like_map [OF inv like]
  have sz: "0 < ht_size (ht0 d')" using like False by (simp add: dict_like_def)
  show thesis
  proof (cases rule: dict_search_correct [OF inv' sz, of key])
    case (1 p)
    then show thesis using False step like entry_at_map [OF inv', of p] m
      by (intro that(1) [of d' p]) (auto simp: dictFind_def)
  next
    case 2
    then show thesis using False step like m
      by (intro that(2) [of d']) (auto simp: dictFind_def dict_map_None [of d', symmetric])
  qed
qed

lemma dictSetVal_correct:
  assumes inv: "dict_inv d" and p: "valid_ptr d p"
  shows "dict_inv (dictSetVal d p v)"
    and "dict_map (dictSetVal d p v) = (dict_map d)(fst (entry_at d p) \<mapsto> v)"
    and "dictSize (dictSetVal d p v) = dictSize d" and "iterators (dictSetVal d p v) = iterators d"
    and "dtype (dictSetVal d p v) = dtype d"
proof -
  obtain t i j where ptr: "p = EntryPtr t i j" by (cases p)
  define h where "h = dict_ht d t"
  define k where "k = fst (ht_table h ! i ! j)"
  let ?c = "(ht_table h ! i)[j := (k, v)]"
  define h' where "h' = h\<lparr>ht_table := (ht_table h)[i := ?c]\<rparr>"
  have b: "t \<le> 1" "i < length (ht_table h)" "j < length (ht_table h ! i)"
    using p ptr by (auto simp: valid_ptr_def h_def)
  have eq: "dictSetVal d p v = set_dict_ht d t h'" and k: "fst (entry_at d p) = k"
    by (simp_all add: dictSetVal_def ptr h'_def h_def Let_def k_def entry_at_def)
  have m: "mset (dict_entries (set_dict_ht d t h')) + {#entry_at d p#} = mset (dict_entries d) + {#(k, v)#}"
  proof -
    have "mset ?c + {#entry_at d p#} = mset (ht_table h ! i) + {#(k, v)#}"
      using mset_list_update_add [OF b(3), of "(k, v)"] by (simp add: entry_at_def ptr h_def)
    moreover have "mset (dict_entries (set_dict_ht d t h')) + mset (ht_table h ! i) = mset (dict_entries d) + mset ?c"
      using dict_entries_upd [of t i d h' ?c] b by (simp add: h'_def h_def)
    ultimately show ?thesis by (rule mset_exchange)
  qed
  obtain v0 where e: "entry_at d p = (k, v0)" using k by (metis prod.collapse)
  have d: "distinct (map fst (dict_entries d))" using inv by (simp add: dict_inv_def)
  note upd = map_of_mset_update [OF d m [unfolded e] entry_at_mem [OF p, unfolded e]]
  have ok: "bucket_ok (dtype d) (ht_sizemask h) i (ht_table h ! i)"
    using bucket_ok_nth valid_ptr_wf [OF inv p] b by (auto simp: ptr h_def)
  have "bucket_ok (dtype d) (ht_sizemask h) i ?c"
  proof -
    have "dictHashKey (dtype d) k AND ht_sizemask h = i"
      using ok b(3) by (auto simp: bucket_ok_def k_def)
    then show ?thesis using ok b(3) by (auto simp: bucket_ok_def set_conv_nth nth_list_update)
  qed
  then have "dict_inv (set_dict_ht d t h')"
    using b inv upd(2) valid_ptr_rehashing [OF inv p]
    by (intro dict_inv_upd [where i = i and c = ?c and h = h]) (auto simp: h_def h'_def ptr)
  then show "dict_inv (dictSetVal d p v)" by (simp add: eq)
  show "dict_map (dictSetVal d p v) = (dict_map d)(fst (entry_at d p) \<mapsto> v)"
    using upd(1) by (simp add: eq k dict_map_def)
  show "dictSize (dictSetVal d p v) = dictSize d"
    by (auto simp: eq dictSize_def set_dict_ht_def h'_def h_def dict_ht_def)
  show "iterators (dictSetVal d p v) = iterators d" "dtype (dictSetVal d p v) = dtype d"
    by (simp_all add: eq)
qed

lemma dictKeyIndex_correct:
  assumes inv: "dict_inv d" and small: "dict_small d" and fits: "dict_fits d"
  obtains (exists) d' where "dictKeyIndex cr d key = Some (d', -1)" and "dict_like d d'"
      and "key \<in> dom (dict_map d)"
  | (fresh) d' i where "dictKeyIndex cr d key = Some (d', int i)" and "dict_like d d'"
      and "key \<notin> dom (dict_map d)" and "0 < ht_size (ht0 d')"
      and "i = dictHashKey (dtype d') key AND ht_sizemask (if dictIsRehashing d' then ht1 d' else ht0 d')"
proof -
  from dictExpandIfNeeded_correct [OF inv small, of cr] obtain d' where
    ex: "dictExpandIfNeeded cr d = (d', DICT_OK)" and like: "dict_like d d'" and sz: "0 < ht_size (ht0 d')"
    by blast
  note inv' = dict_like_inv [OF like] and m = dict_like_map [OF inv like]
  show thesis
  proof (cases rule: dict_search_correct [OF inv' sz, of key])
    case (1 p)
    then show thesis using ex like entry_at_map [OF inv', of p] m
      by (intro exists [of d']) (auto simp: dictKeyIndex_def)
  next
    case 2
    then have "key \<notin> dom (dict_map d)" by (simp add: m [symmetric] dict_map_None domIff)
    define h where "h = (if dictIsRehashing d' then ht1 d' else ht0 d')"
    let ?i = "dictHashKey (dtype d') key AND ht_sizemask h"
    have wf: "ht_wf (dtype d') h" "0 < ht_size h" using inv' sz by (auto simp: h_def dict_inv_def rehash_wf_def)
    have "?i < ht_size h" using bucket_in_range [OF wf] wf(1) by (simp only: ht_wf_def)
    moreover have "ht_size h \<le> 2 ^ 31"
      using dictExpandIfNeeded_fits [OF small fits, of cr] ex by (simp add: dict_fits_def h_def)
    ultimately have "c_int (int ?i) = int ?i" by simp
    then have "dictKeyIndex cr d key = Some (d', int ?i)"
      using ex 2(1) unfolding dictKeyIndex_def h_def by simp
    then show thesis using like \<open>key \<notin> dom (dict_map d)\<close> sz by (rule fresh) (simp add: h_def)
  qed
qed

lemma dictKeyIndex_fits:
  "dictKeyIndex cr d key = Some (d', i) \<Longrightarrow> dict_small d \<Longrightarrow> dict_fits d \<Longrightarrow> dict_fits d'"
  using dictExpandIfNeeded_fits [of d cr]
  by (auto simp: dictKeyIndex_def split: prod.splits dict_status.splits Option.bind_splits option.splits)

lemma set_dict_ht_fits: "ht_size h = ht_size (dict_ht d t) \<Longrightarrow> dict_fits (set_dict_ht d t h) = dict_fits d"
  by (auto simp: dict_fits_def set_dict_ht_def dict_ht_def)

lemma dictSetVal_fits [simp]: "dict_fits (dictSetVal d p v) = dict_fits d"
  by (simp add: dictSetVal_def Let_def set_dict_ht_fits)

lemma dict_maybe_step_fits:
  "(if dictIsRehashing d then dictRehashStep d else Some d) = Some d' \<Longrightarrow> dict_fits d \<Longrightarrow> dict_fits d'"
  by (auto split: if_splits dest: dictRehashStep_fits)

lemma dictFind_fits: "dictFind d key = Some (d', he) \<Longrightarrow> dict_fits d \<Longrightarrow> dict_fits d'"
  by (auto simp: dictFind_def split: if_splits Option.bind_splits dest: dictRehashStep_fits)

lemma dictAddRaw_fits:
  assumes "dictAddRaw cr d key junk = Some (d', p)" and "dict_inv d" and "dict_small d" and "dict_fits d"
  shows "dict_fits d'"
proof -
  obtain d1 where step: "(if dictIsRehashing d then dictRehashStep d else Some d) = Some d1" and
    like: "dict_like d d1"
    using dict_maybe_step [OF assms(2)] .
  have small: "dict_small d1" using assms(3) dict_like_small [OF assms(2) like] by simp
  obtain d2 i where i: "dictKeyIndex cr d1 key = Some (d2, i)"
    using assms(1) step by (auto simp: dictAddRaw_def split: Option.bind_splits)
  have "dict_fits d2" using dictKeyIndex_fits [OF i small] dict_maybe_step_fits [OF step assms(4)] by simp
  then show ?thesis using assms(1) step i
    by (auto simp: dictAddRaw_def Let_def set_dict_ht_fits split: if_splits Option.bind_splits)
qed

lemma dictAdd_fits:
  "dictAdd cr d key val junk = Some (d', r) \<Longrightarrow> dict_inv d \<Longrightarrow> dict_small d \<Longrightarrow> dict_fits d \<Longrightarrow> dict_fits d'"
  using dictAddRaw_fits [of cr d key junk]
  by (auto simp: dictAdd_def split: Option.bind_splits option.splits)

lemma dictReplace_fits:
  "dictReplace cr d key val junk = Some (d', r) \<Longrightarrow> dict_inv d \<Longrightarrow> dict_small d \<Longrightarrow> dict_fits d \<Longrightarrow> dict_fits d'"
  using dictAdd_fits [of cr d key val junk] dictFind_fits
  by (fastforce simp: dictReplace_def split: Option.bind_splits option.splits if_splits)

lemma dictGenericDelete_fits: "dictGenericDelete d key = Some (d', r) \<Longrightarrow> dict_fits d \<Longrightarrow> dict_fits d'"
  by (auto simp: dictGenericDelete_def Let_def set_dict_ht_fits split: if_splits Option.bind_splits option.splits
      dest: dictRehashStep_fits)

lemma dictAddRaw_correct:
  assumes inv: "dict_inv d" and small: "dict_small d" and fits: "dict_fits d"
  obtains (exists) d' where "dictAddRaw cr d key junk = Some (d', None)" and "dict_like d d'"
      and "key \<in> dom (dict_map d)"
  | (fresh) d' p where "dictAddRaw cr d key junk = Some (d', Some p)" and "dict_inv d'"
      and "valid_ptr d' p" and "entry_at d' p = (key, junk)" and "key \<notin> dom (dict_map d)"
      and "dict_map d' = (dict_map d)(key \<mapsto> junk)" and "dictSize d' = Suc (dictSize d)"
      and "iterators d' = iterators d" and "dtype d' = dtype d"
proof -
  obtain d1 where step: "(if dictIsRehashing d then dictRehashStep d else Some d) = Some d1" and
    like1: "dict_like d d1"
    using dict_maybe_step [OF inv] .
  note inv1 = dict_like_inv [OF like1] and m1 = dict_like_map [OF inv like1]
  have small1: "dict_small d1" using small dict_like_small [OF inv like1] by simp
  have fits1: "dict_fits d1" by (rule dict_maybe_step_fits [OF step fits])
  show thesis
  proof (cases rule: dictKeyIndex_correct [OF inv1 small1 fits1, of cr key])
    case (1 d')
    then show thesis using step m1 dict_like_trans [OF like1]
      by (intro that(1) [of d']) (auto simp: dictAddRaw_def)
  next
    case (2 d2 i)
    note inv2 = dict_like_inv [OF 2(2)]
    define t :: nat where "t = (if dictIsRehashing d2 then 1 else 0)"
    define h where "h = dict_ht d2 t"
    define h' where "h' = h\<lparr>ht_table := (ht_table h)[i := (key, junk) # ht_table h ! i], ht_used := ht_used h + 1\<rparr>"
    have wf: "ht_wf (dtype d2) h" and sz: "0 < ht_size h"
      using inv2 2(4) by (auto simp: h_def t_def dict_inv_def rehash_wf_def)
    have i: "i = dictHashKey (dtype d2) (fst (key, junk)) AND ht_sizemask h"
      using 2(5) by (simp add: h_def t_def)
    have lt: "i < length (ht_table h)" using bucket_in_range [OF wf sz] i by simp
    let ?d = "set_dict_ht d2 t h'"
    have ms: "mset (dict_entries ?d) = add_mset (key, junk) (mset (dict_entries d2))"
      using dict_entries_upd [of t i d2 h' "(key, junk) # ht_table h ! i"] lt by (simp add: h_def h'_def t_def)
    have m2: "dict_map d2 = dict_map d" using dict_like_map [OF inv1 2(2)] m1 by simp
    have nk: "key \<notin> dom (dict_map d)" using 2(3) m1 by simp
    have nk2: "key \<notin> fst ` set (dict_entries d2)" using nk m2 dict_map_None [of d2 key] by (auto simp: domIff)
    have dist: "distinct (map fst (dict_entries d2))" using inv2 by (simp add: dict_inv_def)
    note ins = map_of_mset_insert [OF dist nk2 ms]
    have inv3: "dict_inv ?d"
      using lt inv2 ins(2) bucket_ok_nth [OF wf lt] i
      by (intro dict_inv_upd [where i = i and c = "(key, junk) # ht_table h ! i" and h = h])
        (auto simp: h_def h'_def t_def bucket_ok_def)
    have "dictAddRaw cr d key junk = Some (?d, Some (EntryPtr t i 0))"
      using step 2(1) lt by (simp add: dictAddRaw_def Let_def h_def h'_def t_def)
    moreover have "valid_ptr ?d (EntryPtr t i 0)" "entry_at ?d (EntryPtr t i 0) = (key, junk)"
      using lt by (auto simp: valid_ptr_def entry_at_def h'_def h_def t_def)
    moreover have "dictSize ?d = Suc (dictSize d)"
    proof -
      have "size (mset (dict_entries ?d)) = Suc (size (mset (dict_entries d2)))" using ms by simp
      moreover have "mset (dict_entries d2) = mset (dict_entries d)"
        using like1 2(2) by (simp add: dict_like_def)
      ultimately show ?thesis using inv inv3 by (metis dictSize_entries size_mset)
    qed
    moreover have "dict_map ?d = (dict_map d)(key \<mapsto> junk)"
      using ins(1) m2 by (simp add: dict_map_def)
    ultimately show thesis using inv3 nk like1 2(2)
      by (intro that(2) [of ?d]) (auto simp: dict_like_def)
  qed
qed

lemma dictSize_card:
  assumes "dict_inv d" shows "dictSize d = card (dom (dict_map d))" and "finite (dom (dict_map d))"
proof -
  have "distinct (map fst (dict_entries d))" using assms by (simp add: dict_inv_def)
  then have "card (fst ` set (dict_entries d)) = length (dict_entries d)"
    by (metis distinct_card length_map set_map)
  then show "dictSize d = card (dom (dict_map d))"
    using dictSize_entries [OF assms] by (simp add: dict_map_def dom_map_of_conv_image_fst)
  show "finite (dom (dict_map d))" by (simp add: dict_map_def finite_dom_map_of)
qed

lemma dictAdd_correct:
  assumes inv: "dict_inv d" and small: "dict_small d" and fits: "dict_fits d"
  obtains (exists) d' where "dictAdd cr d key val junk = Some (d', DICT_ERR)" and "dict_like d d'"
      and "key \<in> dom (dict_map d)"
  | (fresh) d' where "dictAdd cr d key val junk = Some (d', DICT_OK)" and "dict_inv d'"
      and "key \<notin> dom (dict_map d)" and "dict_map d' = (dict_map d)(key \<mapsto> val)"
      and "iterators d' = iterators d" and "dtype d' = dtype d"
proof (cases rule: dictAddRaw_correct [OF inv small fits, of cr key junk])
  case (1 d')
  then show thesis by (intro that(1) [of d']) (auto simp: dictAdd_def)
next
  case (2 d' p)
  note set = dictSetVal_correct [OF 2(2,3), of val]
  have "dict_map (dictSetVal d' p val) = (dict_map d)(key \<mapsto> val)"
    using set(2) 2(4,6) by simp
  then show thesis using 2 set by (intro that(2) [of "dictSetVal d' p val"]) (auto simp: dictAdd_def)
qed

lemma dictReplace_correct:
  assumes inv: "dict_inv d" and small: "dict_small d" and fits: "dict_fits d"
  obtains d' where "dictReplace cr d key val junk = Some (d', key \<notin> dom (dict_map d))"
    and "dict_inv d'" and "dict_map d' = (dict_map d)(key \<mapsto> val)"
proof (cases rule: dictAdd_correct [OF inv small fits, of cr key val junk])
  case (1 d1)
  note inv1 = dict_like_inv [OF 1(2)] and m1 = dict_like_map [OF inv 1(2)]
  show thesis
  proof (cases rule: dictFind_correct [OF inv1, of key])
    case f: (1 d2 p)
    note set = dictSetVal_correct [OF dict_like_inv [OF f(2)] f(3), of val]
    have "dictReplace cr d key val junk = Some (dictSetVal d2 p val, False)"
      using 1(1) f(1) by (simp add: dictReplace_def)
    then show thesis using set(1,2) f(4) dict_like_map [OF inv1 f(2)] m1 1(3)
      by (intro that [of "dictSetVal d2 p val"]) auto
  next
    case (2 d2)
    then show thesis using 1(3) m1 by auto
  qed
next
  case (2 d')
  then show thesis by (intro that [of d']) (auto simp: dictReplace_def)
qed

lemma unlink_at_mset: "p < length xs \<Longrightarrow> mset (unlink_at xs p) + {#xs ! p#} = mset xs"
  by (metis (no_types, lifting) add_mset_add_single id_take_nth_drop mset.simps(2) mset_append
      union_mset_add_mset_right unlink_at_def)

lemma dictGenericDelete_correct:
  assumes inv: "dict_inv d"
  obtains (found) d' where "dictGenericDelete d key = Some (d', DICT_OK)" and "dict_inv d'"
      and "key \<in> dom (dict_map d)" and "dict_map d' = (dict_map d)(key := None)"
      and "iterators d' = iterators d" and "dtype d' = dtype d"
  | (absent) d' where "dictGenericDelete d key = Some (d', DICT_ERR)" and "dict_like d d'"
      and "key \<notin> dom (dict_map d)"
proof (cases "ht_size (ht0 d) = 0")
  case True
  then have "\<not> dictIsRehashing d" "ht_table (ht0 d) = []" using inv
    by (auto simp: dict_inv_def rehash_wf_def ht_wf_def)
  then have "dict_entries d = []" using inv by (simp add: dict_inv_def dict_entries_def ht_entries_def dictReset_def)
  then have "key \<notin> dom (dict_map d)" by (simp add: dict_map_def)
  then show thesis using True inv by (intro that(2) [of d]) (simp_all add: dictGenericDelete_def)
next
  case False
  obtain d1 where step: "(if dictIsRehashing d then dictRehashStep d else Some d) = Some d1" and
    like: "dict_like d d1"
    using dict_maybe_step [OF inv] .
  note inv1 = dict_like_inv [OF like] and m1 = dict_like_map [OF inv like]
  have sz: "0 < ht_size (ht0 d1)" using like False by (simp add: dict_like_def)
  show thesis
  proof (cases rule: dict_search_correct [OF inv1 sz, of key])
    case (1 p)
    obtain t i j where ptr: "p = EntryPtr t i j" by (cases p)
    define h where "h = dict_ht d1 t"
    let ?c = "unlink_at (ht_table h ! i) j"
    define h' where "h' = h\<lparr>ht_table := (ht_table h)[i := ?c], ht_used := ht_used h - 1\<rparr>"
    let ?d = "set_dict_ht d1 t h'"
    have b: "t \<le> 1" "i < length (ht_table h)" "j < length (ht_table h ! i)"
      using 1 ptr by (auto simp: valid_ptr_def h_def)
    obtain v where v: "entry_at d1 p = (key, v)" using 1(3) by (metis prod.collapse)
    have un: "mset ?c + {#(key, v)#} = mset (ht_table h ! i)"
      using unlink_at_mset [OF b(3)] v by (simp add: entry_at_def ptr h_def)
    have len: "Suc (length ?c) = length (ht_table h ! i)" using arg_cong [OF un, of size] by simp
    have "mset (dict_entries ?d) + mset (ht_table h ! i) = mset (dict_entries d1) + mset ?c"
      using dict_entries_upd [of t i d1 h' ?c] b by (simp add: h'_def h_def)
    then have ms: "mset (dict_entries d1) = add_mset (key, v) (mset (dict_entries ?d))"
      by (simp flip: un)
    note rem = map_of_mset_remove [OF _ ms]
    have dist: "distinct (map fst (dict_entries d1))" using inv1 by (simp add: dict_inv_def)
    have wf: "ht_wf (dtype d1) h" using valid_ptr_wf [OF inv1 1(2)] by (simp add: ptr h_def)
    have ok: "bucket_ok (dtype d1) (ht_sizemask h) i ?c"
      using bucket_ok_nth [OF wf b(2)] by (auto simp: bucket_ok_def unlink_at_def dest: in_set_takeD in_set_dropD)
    have "length (ht_table h ! i) \<le> ht_used h"
      using wf length_concat_update [OF b(2), of "[]"] by (simp add: ht_wf_def ht_entries_def)
    then have inv2: "dict_inv ?d"
      using b inv1 rem(2) [OF dist] ok valid_ptr_rehashing [OF inv1 1(2)] len
      by (intro dict_inv_upd [where i = i and c = ?c and h = h]) (auto simp: h_def h'_def ptr)
    have "dictGenericDelete d key = Some (?d, DICT_OK)"
      using False step 1(1) by (simp add: dictGenericDelete_def ptr h'_def h_def Let_def)
    moreover have "dict_map ?d = (dict_map d)(key := None)"
      using rem(1) [OF dist] m1 by (simp add: dict_map_def)
    moreover have "key \<in> dom (dict_map d)"
      using rem(3) [OF dist] m1 by (auto simp: dict_map_def)
    ultimately show thesis using inv2 like by (intro that(1) [of ?d]) (auto simp: dict_like_def)
  next
    case 2
    then have "key \<notin> dom (dict_map d)" by (simp add: m1 [symmetric] dict_map_None domIff)
    with 2 show thesis using False step like
      by (intro that(2) [of d1]) (auto simp: dictGenericDelete_def)
  qed
qed

lemma dictClear_loop_all:
  "used = length (concat table) \<Longrightarrow> dictClear_loop table used freed = (0, freed @ concat table)"
  by (induction table used freed rule: dictClear_loop.induct) auto

lemma dictEmpty_correct:
  assumes "dict_inv d"
  shows "dict_inv (fst (dictEmpty d))" and "dict_map (fst (dictEmpty d)) = Map.empty"
    and "snd (dictEmpty d) = dict_entries d"
  using assms
  by (auto simp: dictEmpty_def dictClear_def dict_inv_def dictIsRehashing_def dict_entries_def
      dict_map_def ht_wf_def ht_entries_def dictClear_loop_all split: prod.splits)
    (auto simp: dictReset_def)

end
