(* ===== verification/Dict_Scan.thy ===== *)
theory Dict_Scan
  imports Dict_Correct
begin

text \<open>
  The stateless cursor of \<open>dictScan\<close> (\<^verbatim>\<open>src/redis-3.0.3/src/dict.c\<close>): the bit reversal \<open>rev\<close>, one
  scan step over one or two tables, and the guarantee of a whole scan while the tables change size.
\<close>

section \<open>Reversing the bits of a word\<close>

text \<open>The loop of \<open>rev\<close>; \<open>s\<close> is the bit size before the shift in the loop condition.\<close>

fun rev_loop :: "nat \<Rightarrow> u64 \<Rightarrow> u64 \<Rightarrow> u64" where
  "rev_loop s msk v =
    (let s = s div 2 in
     if s > 0 then
       let msk = msk XOR push_bit s msk;
           v = (drop_bit s v AND msk) OR (push_bit s v AND NOT msk)
       in rev_loop s msk v
     else v)"

declare rev_loop.simps [simp del]

definition rev_bits :: "u64 \<Rightarrow> u64" where
  "rev_bits v = rev_loop 64 (NOT 0) v"

section \<open>One step of the scan\<close>

definition scan_bucket :: "('k, 'v) dictht \<Rightarrow> u64 \<Rightarrow> ('k \<times> 'v) list option" where
  "scan_bucket t v = array_get (ht_table t) (unat (v AND of_nat (ht_sizemask t)))"

text \<open>The \<open>do \<dots> while\<close> loop over the expansions of the cursor in the larger table.\<close>

definition scan_incr :: "u64 \<Rightarrow> u64 \<Rightarrow> u64" where
  "scan_incr m0 v = (((v OR m0) + 1) AND NOT m0) OR (v AND m0)"

partial_function (option) scan_expand ::
  "('k, 'v) dictht \<Rightarrow> u64 \<Rightarrow> u64 \<Rightarrow> u64 \<Rightarrow> ('k \<times> 'v) list \<Rightarrow> (u64 \<times> ('k \<times> 'v) list) option" where
  "scan_expand t1 m0 m1 v acc =
    (case scan_bucket t1 v of
       None \<Rightarrow> None
     | Some chain \<Rightarrow>
         if scan_incr m0 v AND (m0 XOR m1) \<noteq> 0
         then scan_expand t1 m0 m1 (scan_incr m0 v) (acc @ chain)
         else Some (scan_incr m0 v, acc @ chain))"

definition scan_next :: "u64 \<Rightarrow> u64 \<Rightarrow> u64" where
  "scan_next m0 v = rev_bits (rev_bits (v OR NOT m0) + 1)"

definition scan_tables :: "('k, 'v) dict \<Rightarrow> ('k, 'v) dictht \<times> ('k, 'v) dictht" where
  "scan_tables d = (if ht_size (ht0 d) > ht_size (ht1 d) then (ht1 d, ht0 d) else (ht0 d, ht1 d))"

text \<open>\<open>dictScan\<close> returns the new cursor and the entries it passes to the callback, in order.\<close>

definition dictScan :: "('k, 'v) dict \<Rightarrow> u64 \<Rightarrow> (u64 \<times> ('k \<times> 'v) list) option" where
  "dictScan d v =
    (if dictSize d = 0 then Some (0, [])
     else if \<not> dictIsRehashing d then
       do { es \<leftarrow> scan_bucket (ht0 d) v;
            Some (scan_next (of_nat (ht_sizemask (ht0 d))) v, es) }
     else
       let (t0, t1) = scan_tables d; m0 = of_nat (ht_sizemask t0); m1 = of_nat (ht_sizemask t1) in
       do { es \<leftarrow> scan_bucket t0 v;
            (v, es) \<leftarrow> scan_expand t1 m0 m1 v es;
            Some (scan_next m0 v, es) })"

text \<open>
  A whole iteration: the client calls \<open>dictScan\<close> on the successive states of the table until the
  cursor is 0 again.  \<open>None\<close>: the states ran out first.
\<close>

fun scan_run :: "('k, 'v) dict list \<Rightarrow> u64 \<Rightarrow> ('k \<times> 'v) list option" where
  "scan_run [] v = None"
| "scan_run (d # ds) v =
    do { (v, es) \<leftarrow> dictScan d v;
         if v = 0 then Some es else map_option (\<lambda>es'. es @ es') (scan_run ds v) }"

section \<open>Correctness of the reversal\<close>

definition mirror :: "nat \<Rightarrow> nat \<Rightarrow> nat" where
  "mirror s i = i div s * s + (s - 1 - i mod s)"

lemma mirror_double:
  assumes "0 < s"
  shows "mirror (2 * s) i = (let m = mirror s i in if even (m div s) then m + s else m - s)"
proof -
  define q r where "q = i div s" and "r = i mod s"
  have r: "r < s" and i: "i = q * s + r" using assms by (simp_all add: q_def r_def)
  have m: "mirror s i = q * s + (s - 1 - r)" by (simp add: mirror_def q_def r_def)
  have "mirror s i div s = (s - 1 - r + q * s) div s" by (simp add: m add.commute)
  also have "\<dots> = q" using assms by simp
  finally have q: "mirror s i div s = q" .
  show ?thesis
  proof (cases "even q")
    case True
    then obtain p where p: "q = 2 * p" by blast
    have i2: "i = r + p * (2 * s)" using i p by simp
    have "i div (2 * s) = p" using r unfolding i2 by simp
    moreover have "i mod (2 * s) = r" using r unfolding i2 by simp
    ultimately show ?thesis using r q m p by (simp add: mirror_def [of "2 * s"] Let_def)
  next
    case False
    then obtain p where p: "q = 2 * p + 1" by (metis oddE)
    have i2: "i = (r + s) + p * (2 * s)" using i p by (simp add: algebra_simps)
    have "i div (2 * s) = p" using r unfolding i2 by simp
    moreover have "i mod (2 * s) = r + s" using r unfolding i2 by simp
    ultimately show ?thesis using r q m p by (simp add: mirror_def [of "2 * s"] Let_def)
  qed
qed

lemma rev_mask_step:
  assumes s: "0 < s" and m: "\<And>i. i < 64 \<Longrightarrow> bit (msk :: u64) i \<longleftrightarrow> even (i div (2 * s))" and i: "i < 64"
  shows "bit (msk XOR push_bit s msk) i \<longleftrightarrow> even (i div s)"
proof -
  define q where "q = i div s"
  have a: "i div (2 * s) = q div 2" by (simp add: q_def div_mult2_eq mult.commute)
  have c: "(i - s) div (2 * s) = (q - 1) div 2" if "s \<le> i"
  proof -
    have "(i - s) div s = q - 1" using that s by (simp add: q_def le_div_geq)
    then show ?thesis by (metis div_mult2_eq mult.commute)
  qed
  have b: "s \<le> i \<longleftrightarrow> 1 \<le> q" using s by (simp add: q_def div_greater_zero_iff Suc_le_eq)
  have "bit (msk XOR push_bit s msk) i \<longleftrightarrow> (even (q div 2) \<noteq> (1 \<le> q \<and> even ((q - 1) div 2)))"
    using i m a b c by (auto simp: bit_simps)
  also have "\<dots> \<longleftrightarrow> even q" by presburger
  finally show ?thesis by (simp add: q_def)
qed

lemma rev_loop_bit:
  assumes "j \<le> 6" and "\<And>i. i < 64 \<Longrightarrow> bit msk i \<longleftrightarrow> even (i div 2 ^ j)" and "i < 64"
  shows "bit (rev_loop (2 ^ j) msk v) i = bit v (mirror (2 ^ j) i)"
  using assms
proof (induction j arbitrary: msk v i)
  case 0
  then show ?case by (simp add: rev_loop.simps mirror_def)
next
  case (Suc j)
  let ?s = "2 ^ j :: nat"
  let ?m = "msk XOR push_bit ?s msk"
  let ?v = "(drop_bit ?s v AND ?m) OR (push_bit ?s v AND NOT ?m)"
  have m': "bit ?m i \<longleftrightarrow> even (i div ?s)" if "i < 64" for i
    using rev_mask_step [of ?s msk] Suc.prems(2) that by simp
  have "(2::nat) ^ j dvd 2 ^ 6" using Suc.prems(1) by (intro le_imp_power_dvd) simp
  then have dvd: "?s dvd 64" by simp
  have "i div ?s < 64 div ?s" using Suc.prems(3) dvd
    by (metis dvd_mult_div_cancel less_mult_imp_div_less mult.commute)
  then have "Suc (i div ?s) * ?s \<le> 64 div ?s * ?s" by (intro mult_le_mono1) simp
  then have "i div ?s * ?s + ?s \<le> 64" using dvd by simp
  moreover have "?s - 1 - i mod ?s < ?s" by simp
  ultimately have mi: "mirror ?s i < 64" unfolding mirror_def by linarith
  have "bit (rev_loop (2 ^ Suc j) msk v) i = bit (rev_loop ?s ?m ?v) i"
    by (subst rev_loop.simps) (simp add: Let_def)
  also have "\<dots> = bit ?v (mirror ?s i)"
    using Suc.IH [of ?m i ?v] Suc.prems m' by simp
  also have "\<dots> = bit v (mirror (2 ^ Suc j) i)"
  proof (cases "even (mirror ?s i div ?s)")
    case True
    then show ?thesis using m' [OF mi] mi mirror_double [of ?s i]
      by (simp add: bit_or_iff bit_and_iff bit_not_iff bit_drop_bit_eq bit_push_bit_iff Let_def add.commute)
  next
    case False
    then have "?s \<le> mirror ?s i" by (metis div_less even_zero leI)
    then show ?thesis using False m' [OF mi] mi mirror_double [of ?s i]
      by (simp add: bit_or_iff bit_and_iff bit_not_iff bit_drop_bit_eq bit_push_bit_iff Let_def)
  qed
  finally show ?case .
qed

lemma bit_rev_bits: "i < 64 \<Longrightarrow> bit (rev_bits v) i \<longleftrightarrow> bit v (63 - i)"
  using rev_loop_bit [of 6 "NOT 0" i v] by (simp add: rev_bits_def mirror_def)

lemma rev_bits_rev_bits [simp]: "rev_bits (rev_bits v) = v"
  by (rule bit_word_eqI) (simp add: bit_rev_bits)

section \<open>The cursor as a position in reversed order\<close>

text \<open>\<open>rpos v\<close> is the reversed cursor as a number; a scan visits the hashes by ascending \<open>rpos\<close>.\<close>

definition rpos :: "u64 \<Rightarrow> nat" where
  "rpos v = unat (rev_bits v)"

lemma rpos_lt: "rpos v < 2 ^ 64"
  unfolding rpos_def by (rule unat_u64_lt)

lemma rpos_0 [simp]: "rpos 0 = 0"
proof -
  have "rev_bits 0 = 0" by (rule bit_word_eqI) (simp add: bit_rev_bits)
  then show ?thesis by (simp add: rpos_def)
qed

lemma rpos_eq_0: "rpos v = 0 \<longleftrightarrow> v = 0"
  by (metis rev_bits_rev_bits rpos_0 rpos_def unat_eq_zero)

lemma rev_bits_or_not_mask:
  assumes "j \<le> 64" shows "rev_bits (v OR NOT (mask j)) = rev_bits v OR mask (64 - j)"
proof (rule bit_word_eqI)
  fix i :: nat
  assume "i < LENGTH(64)"
  moreover from this have "63 - i < j \<longleftrightarrow> \<not> i < 64 - j" using assms by auto
  ultimately show "bit (rev_bits (v OR NOT (mask j))) i = bit (rev_bits v OR mask (64 - j)) i"
    by (auto simp: bit_rev_bits bit_or_iff bit_not_iff bit_mask_iff)
qed

lemma or_mask_plus_1: "(x OR mask n) + 1 = push_bit n (drop_bit n x) + (2 ^ n :: u64)"
proof -
  have "(x OR mask n) + take_bit n x = x + mask n"
    using word_plus_and_or [of x "mask n"] by (simp add: take_bit_eq_mask add.commute)
  moreover have "push_bit n (drop_bit n x) + take_bit n x = x" by (simp add: bits_ident)
  ultimately have "(x OR mask n) + take_bit n x + 1 = push_bit n (drop_bit n x) + take_bit n x + 2 ^ n"
    by (simp add: mask_eq_decr_exp)
  then show ?thesis by (simp add: algebra_simps)
qed

lemma unat_push_drop: "unat (push_bit n (drop_bit n (x :: u64))) = unat x div 2 ^ n * 2 ^ n"
proof -
  have "unat x div 2 ^ n * 2 ^ n \<le> unat x" by (simp add: div_times_less_eq_dividend)
  then have "unat x div 2 ^ n * 2 ^ n < 2 ^ 64" using unat_u64_lt [of x] by linarith
  then show ?thesis
    unfolding unsigned_push_bit_eq unat_drop_bit_div
    by (simp add: push_bit_eq_mult take_bit_nat_eq_self_iff)
qed

lemma rpos_scan_next:
  assumes "0 < j" and "j \<le> 64"
  shows "rpos (scan_next (mask j) v) = (rpos v div 2 ^ (64 - j) + 1) * 2 ^ (64 - j) mod 2 ^ 64"
proof -
  let ?n = "64 - j"
  have "rev_bits (scan_next (mask j) v) = push_bit ?n (drop_bit ?n (rev_bits v)) + 2 ^ ?n"
    using assms by (simp add: scan_next_def rev_bits_or_not_mask or_mask_plus_1)
  moreover have "unat (2 ^ ?n :: u64) = 2 ^ ?n" using assms by (intro unat_power2) simp
  ultimately have "rpos (scan_next (mask j) v) =
      (unat (rev_bits v) div 2 ^ ?n * 2 ^ ?n + 2 ^ ?n) mod 2 ^ LENGTH(64)"
    by (simp only: rpos_def unat_word_ariths(1) unat_push_drop)
  moreover have "LENGTH(64) = 64" by simp
  ultimately show ?thesis by (simp only: rpos_def distrib_right mult_1)
qed

text \<open>Two cursors agree on their low \<open>j\<close> bits when their positions agree on the top \<open>j\<close> bits.\<close>

lemma take_bit_rpos:
  assumes "j \<le> 64"
  shows "take_bit j v = take_bit j w \<longleftrightarrow> rpos v div 2 ^ (64 - j) = rpos w div 2 ^ (64 - j)"
proof -
  let ?n = "64 - j"
  have "rpos v div 2 ^ ?n = rpos w div 2 ^ ?n \<longleftrightarrow>
      drop_bit ?n (rev_bits v) = drop_bit ?n (rev_bits w)"
    by (simp only: rpos_def word_unat_eq_iff unat_drop_bit_div)
  also have "\<dots> \<longleftrightarrow> take_bit j v = take_bit j w"
  proof
    assume eq: "drop_bit ?n (rev_bits v) = drop_bit ?n (rev_bits w)"
    have "bit v i = bit w i" if "i < j" for i
    proof -
      have "?n + (63 - i - ?n) = 63 - i" "63 - (63 - i) = i" "63 - i < 64" using that assms by auto
      then show ?thesis using arg_cong [OF eq, of "\<lambda>x. bit x (63 - i - ?n)"]
        by (simp add: bit_drop_bit_eq bit_rev_bits)
    qed
    then show "take_bit j v = take_bit j w" by (auto simp: bit_eq_iff bit_take_bit_iff)
  next
    assume eq: "take_bit j v = take_bit j w"
    show "drop_bit ?n (rev_bits v) = drop_bit ?n (rev_bits w)"
    proof (rule bit_word_eqI)
      fix i :: nat
      assume "i < LENGTH(64)"
      show "bit (drop_bit ?n (rev_bits v)) i = bit (drop_bit ?n (rev_bits w)) i"
      proof (cases "?n + i < 64")
        case True
        then have "63 - (?n + i) < j" using assms by auto
        then show ?thesis using True arg_cong [OF eq, of "\<lambda>x. bit x (63 - (?n + i))"]
          by (simp add: bit_drop_bit_eq bit_rev_bits bit_take_bit_iff)
      next
        case False
        then show ?thesis by (auto simp: bit_drop_bit_eq dest: bit_imp_le_length)
      qed
    qed
  qed
  finally show ?thesis by simp
qed

section \<open>What one step emits\<close>

definition pow2_table :: "('k, 'v) dictht \<Rightarrow> nat \<Rightarrow> bool" where
  "pow2_table t j \<longleftrightarrow> 0 < j \<and> j < 64 \<and> ht_size t = 2 ^ j"

definition hash_pos :: "'k dictType \<Rightarrow> 'k \<Rightarrow> nat" where
  "hash_pos t k = rpos (of_nat (dictHashKey t k))"

lemma sizemask_mask:
  assumes "ht_wf t h" and "pow2_table h j"
  shows "of_nat (ht_sizemask h) = (mask j :: u64)" and "ht_sizemask h = mask j"
  using assms by (simp_all add: ht_wf_def pow2_table_def mask_eq_exp_minus_1 of_nat_diff mask_eq_decr_exp)

lemma unat_hash: "unat (of_nat (dictHashKey t k) :: u64) = dictHashKey t k"
proof -
  have "dictHashKey t k < 2 ^ 32"
    using unsigned_less [of "hashFunction t k", where ?'a = nat] by (simp add: dictHashKey_def)
  then show ?thesis by (simp add: unat_of_nat)
qed

lemma scan_bucket_covers:
  assumes wf: "ht_wf t h" and p: "pow2_table h j"
  obtains es where "scan_bucket h v = Some es"
    and "\<And>e. e \<in> set (ht_entries h) \<Longrightarrow>
      take_bit j (of_nat (dictHashKey t (fst e))) = take_bit j v \<Longrightarrow> e \<in> set es"
    and "set es \<subseteq> set (ht_entries h)"
proof -
  let ?i = "unat (v AND of_nat (ht_sizemask h))"
  have i: "?i = unat (take_bit j v)" by (simp add: sizemask_mask(1) [OF wf p] take_bit_eq_mask)
  also have "\<dots> = unat v mod 2 ^ j" by (rule unat_take_bit_mod)
  finally have lt: "?i < length (ht_table h)" using wf p by (simp add: ht_wf_def pow2_table_def)
  have "e \<in> set (ht_table h ! ?i)"
    if e: "e \<in> set (ht_entries h)" "take_bit j (of_nat (dictHashKey t (fst e))) = take_bit j v" for e
  proof -
    have "dictHashKey t (fst e) AND ht_sizemask h = dictHashKey t (fst e) mod 2 ^ j"
      by (simp add: sizemask_mask(2) [OF wf p] take_bit_eq_mask [symmetric] take_bit_eq_mod)
    also have "\<dots> = unat (take_bit j (of_nat (dictHashKey t (fst e)) :: u64))"
      by (simp only: unat_take_bit_mod unat_hash)
    also have "\<dots> = ?i" using e(2) i by simp
    finally show ?thesis using entry_in_bucket [OF wf e(1)] by simp
  qed
  moreover have "set (ht_table h ! ?i) \<subseteq> set (ht_entries h)"
    unfolding ht_entries_def using nth_concat_mem [OF lt] by (rule subsetI)
  moreover have "scan_bucket h v = Some (ht_table h ! ?i)" using lt by (simp add: scan_bucket_def)
  ultimately show thesis by (intro that)
qed

lemma scan_incr_plus: "scan_incr (mask k) v = v + (2 ^ k :: u64)"
proof -
  let ?u = "push_bit k (drop_bit k v + 1)"
  have w: "(v OR mask k) + 1 = ?u"
    unfolding or_mask_plus_1 by (simp add: push_bit_add push_bit_of_1)
  have "?u AND NOT (mask k) = ?u"
    by (rule bit_word_eqI) (auto simp: bit_and_iff bit_not_iff bit_mask_iff bit_push_bit_iff)
  then have "scan_incr (mask k) v = ?u OR take_bit k v"
    unfolding scan_incr_def w by (simp add: take_bit_eq_mask)
  moreover have "?u AND take_bit k v = 0"
    by (rule bit_word_eqI) (auto simp: bit_and_iff bit_take_bit_iff bit_push_bit_iff)
  ultimately have "scan_incr (mask k) v = ?u + take_bit k v"
    using word_plus_and_or [of ?u "take_bit k v"] by simp
  also have "\<dots> = (push_bit k (drop_bit k v) + take_bit k v) + 2 ^ k"
    by (simp add: push_bit_add push_bit_of_1)
  finally show ?thesis by (simp add: bits_ident)
qed

text \<open>
  The expansion loop, from a cursor whose bits between the two masks spell \<open>a\<close>: it emits every
  bucket of the larger table that extends the low bits of the cursor and whose middle bits are at
  least \<open>a\<close>, and keeps the low bits.
\<close>

definition midbits :: "nat \<Rightarrow> nat \<Rightarrow> u64 \<Rightarrow> nat" where
  "midbits k j v = unat v div 2 ^ k mod 2 ^ (j - k)"

lemma midbits_lt: "midbits k j v < 2 ^ (j - k)"
  by (simp add: midbits_def)

lemma midbits_add:
  assumes "k \<le> j" and "j < 64"
  shows "midbits k j (v + 2 ^ k) = (midbits k j v + 1) mod 2 ^ (j - k)"
proof -
  have k: "unat (2 ^ k :: u64) = 2 ^ k" using assms by (intro unat_power2) simp
  have k64: "k + (64 - k) = 64" using assms by simp
  have dvd: "(2::nat) ^ (j - k) dvd 2 ^ (64 - k)" using assms by (intro le_imp_power_dvd) simp
  have "unat (v + 2 ^ k) = (unat v + 2 ^ k) mod 2 ^ (k + (64 - k))"
    unfolding unat_word_ariths(1) k k64 by simp
  then have "unat (v + 2 ^ k) div 2 ^ k = (unat v + 2 ^ k) div 2 ^ k mod 2 ^ (64 - k)"
    by (simp only: div_exp_mod_exp_eq)
  then have "midbits k j (v + 2 ^ k) = (unat v + 2 ^ k) div 2 ^ k mod 2 ^ (j - k)"
    by (simp only: midbits_def mod_mod_cancel [OF dvd])
  moreover have "(unat v + 2 ^ k) div 2 ^ k = Suc (unat v div 2 ^ k)"
    using div_add_self2 [of "2 ^ k" "unat v"] by simp
  ultimately show ?thesis by (simp only: midbits_def mod_Suc_eq Suc_eq_plus1 [symmetric])
qed

lemma mask_xor_and:
  assumes "k \<le> j" and "j \<le> 64"
  shows "v AND (mask k XOR mask j) = (0 :: u64) \<longleftrightarrow> midbits k j v = 0"
proof -
  have "midbits k j v = unat (take_bit (j - k) (drop_bit k v))"
    by (simp only: midbits_def unat_take_bit_mod unat_drop_bit_div)
  then have "midbits k j v = 0 \<longleftrightarrow> take_bit (j - k) (drop_bit k v) = 0" by (simp add: unat_eq_0)
  also have "\<dots> \<longleftrightarrow> push_bit k (take_bit (j - k) (drop_bit k v)) = 0"
  proof
    assume z: "push_bit k (take_bit (j - k) (drop_bit k v)) = 0"
    show "take_bit (j - k) (drop_bit k v) = 0"
    proof (rule bit_word_eqI)
      fix i :: nat
      assume "i < LENGTH(64)"
      have "bit (push_bit k (take_bit (j - k) (drop_bit k v))) (k + i) = False" by (simp add: z)
      then show "bit (take_bit (j - k) (drop_bit k v)) i = bit 0 i"
        using assms by (auto simp: bit_push_bit_iff bit_take_bit_iff bit_drop_bit_eq)
    qed
  qed simp
  also have "push_bit k (take_bit (j - k) (drop_bit k v)) = v AND (mask k XOR mask j)"
    using assms by (intro bit_word_eqI)
      (auto simp: bit_and_iff bit_xor_iff bit_mask_iff bit_push_bit_iff bit_take_bit_iff bit_drop_bit_eq)
  finally show ?thesis by simp
qed

lemma take_bit_plus_exp:
  assumes "k < 64" shows "take_bit k (v + 2 ^ k) = take_bit k (v :: u64)"
proof -
  have k: "unat (2 ^ k :: u64) = 2 ^ k" using assms by (intro unat_power2) simp
  have "(2::nat) ^ k dvd 2 ^ LENGTH(64)" using assms by (intro le_imp_power_dvd) simp
  then have "unat (take_bit k (v + 2 ^ k)) = unat (take_bit k v)"
    unfolding unat_take_bit_mod unat_word_ariths(1) k by (simp only: mod_mod_cancel mod_add_self2)
  then show ?thesis by (simp only: word_unat_eq_iff)
qed

lemma take_bit_split:
  assumes "k \<le> j" and "j < 64"
    and "take_bit k v = take_bit k (w :: u64)" and "midbits k j v = midbits k j w"
  shows "take_bit j v = take_bit j w"
proof (rule bit_word_eqI)
  fix i :: nat
  assume "i < LENGTH(64)"
  have "unat (take_bit (j - k) (drop_bit k v)) = unat (take_bit (j - k) (drop_bit k w))"
    using assms(4) by (simp only: midbits_def unat_take_bit_mod unat_drop_bit_div)
  then have eq: "take_bit (j - k) (drop_bit k v) = take_bit (j - k) (drop_bit k w)"
    by (simp only: word_unat_eq_iff)
  show "bit (take_bit j v) i = bit (take_bit j w) i"
  proof (cases "i < k")
    case True
    then show ?thesis using arg_cong [OF assms(3), of "\<lambda>x. bit x i"] by (auto simp: bit_take_bit_iff)
  next
    case False
    then show ?thesis using arg_cong [OF eq, of "\<lambda>x. bit x (i - k)"]
      by (auto simp: bit_take_bit_iff bit_drop_bit_eq)
  qed
qed

lemma scan_expand_covers:
  assumes wf: "ht_wf t h" and p: "pow2_table h j" and kj: "k \<le> j" and k: "0 < k"
  shows "\<exists>v' es. scan_expand h (mask k) (mask j) v acc = Some (v', acc @ es) \<and>
    take_bit k v' = take_bit k v \<and> set es \<subseteq> set (ht_entries h) \<and>
    (\<forall>e \<in> set (ht_entries h). take_bit k (of_nat (dictHashKey t (fst e))) = take_bit k v \<longrightarrow>
       midbits k j v \<le> midbits k j (of_nat (dictHashKey t (fst e))) \<longrightarrow> e \<in> set es)"
  using p
proof (induction "2 ^ (j - k) - midbits k j v" arbitrary: v acc rule: less_induct)
  case less
  have j: "j < 64" using p by (simp add: pow2_table_def)
  obtain c where c: "scan_bucket h v = Some c"
    "\<And>e. e \<in> set (ht_entries h) \<Longrightarrow>
      take_bit j (of_nat (dictHashKey t (fst e))) = take_bit j v \<Longrightarrow> e \<in> set c"
    "set c \<subseteq> set (ht_entries h)"
    by (rule scan_bucket_covers [OF wf p, of v]) blast
  let ?v = "v + 2 ^ k"
  note mid = midbits_add [OF kj j, of v]
  have low: "take_bit k ?v = take_bit k v"
    by (rule take_bit_plus_exp) (use kj j in simp)
  have here: "e \<in> set c" if "e \<in> set (ht_entries h)"
    "take_bit k (of_nat (dictHashKey t (fst e))) = take_bit k v"
    "midbits k j (of_nat (dictHashKey t (fst e))) = midbits k j v" for e
    using c(2) [OF that(1)] take_bit_split [OF kj j that(2,3)] by blast
  show ?case
  proof (cases "midbits k j ?v = 0")
    case True
    then have top: "midbits k j v = 2 ^ (j - k) - 1"
      using mid midbits_lt [of k j v] by (metis Suc_eq_plus1 diff_Suc_1 less_Suc_eq_le mod_less nat.simps(3) not_less_eq antisym_conv2 Suc_lessI)
    have "scan_expand h (mask k) (mask j) v acc = Some (?v, acc @ c)"
      using True c(1) mask_xor_and [OF kj, of ?v] j
      by (subst scan_expand.simps) (simp add: scan_incr_plus)
    moreover have "e \<in> set c" if "e \<in> set (ht_entries h)"
      "take_bit k (of_nat (dictHashKey t (fst e))) = take_bit k v"
      "midbits k j v \<le> midbits k j (of_nat (dictHashKey t (fst e)))" for e
      using here [OF that(1,2)] that(3) top midbits_lt [of k j "of_nat (dictHashKey t (fst e))"] by linarith
    ultimately show ?thesis using low c(3) by blast
  next
    case False
    then have suc: "midbits k j ?v = midbits k j v + 1"
      using mid midbits_lt [of k j v] by (metis Suc_eq_plus1 Suc_lessI mod_less mod_self)
    have "2 ^ (j - k) - midbits k j ?v < 2 ^ (j - k) - midbits k j v"
      using suc midbits_lt [of k j ?v] by linarith
    from less.hyps [OF this p, of "acc @ c"] obtain v' es where IH:
      "scan_expand h (mask k) (mask j) ?v (acc @ c) = Some (v', (acc @ c) @ es)"
      "take_bit k v' = take_bit k ?v" "set es \<subseteq> set (ht_entries h)"
      "\<forall>e \<in> set (ht_entries h). take_bit k (of_nat (dictHashKey t (fst e))) = take_bit k ?v \<longrightarrow>
         midbits k j ?v \<le> midbits k j (of_nat (dictHashKey t (fst e))) \<longrightarrow> e \<in> set es" by blast
    have "scan_expand h (mask k) (mask j) v acc = Some (v', acc @ (c @ es))"
      using False c(1) mask_xor_and [OF kj, of ?v] j IH(1)
      by (subst scan_expand.simps) (simp add: scan_incr_plus)
    moreover have "e \<in> set (c @ es)" if "e \<in> set (ht_entries h)"
      "take_bit k (of_nat (dictHashKey t (fst e))) = take_bit k v"
      "midbits k j v \<le> midbits k j (of_nat (dictHashKey t (fst e)))" for e
      using here [OF that(1,2)] that IH(4) low suc
      by (cases "midbits k j (of_nat (dictHashKey t (fst e))) = midbits k j v") auto
    ultimately show ?thesis using low c(3) IH(2,3) by (intro exI conjI) (assumption | auto)+
  qed
qed

section \<open>A whole iteration\<close>

text \<open>
  \<open>scannable\<close>: the invariant, with tables that are powers of two; \<open>scan_size\<close> is the size of the
  smaller table in use.
\<close>

definition scannable :: "('k, 'v) dict \<Rightarrow> bool" where
  "scannable d \<longleftrightarrow> dict_inv d \<and> (\<exists>j. pow2_table (ht0 d) j) \<and>
     (dictIsRehashing d \<longrightarrow> (\<exists>j. pow2_table (ht1 d) j))"

definition scan_size :: "('k, 'v) dict \<Rightarrow> nat" where
  "scan_size d =
    (if dictIsRehashing d then min (ht_size (ht0 d)) (ht_size (ht1 d)) else ht_size (ht0 d))"

lemma scan_next_low:
  assumes "0 < k" and "k < 64" shows "unat (scan_next (mask k) v) < 2 ^ k"
proof -
  let ?w = "scan_next (mask k) v"
  have "(2::nat) ^ (64 - k) dvd 2 ^ 64" by (intro le_imp_power_dvd) simp
  then have "rpos ?w mod 2 ^ (64 - k) = 0"
    using assms by (simp only: rpos_scan_next less_imp_le mod_mod_cancel mod_mult_self2_is_0)
  then have "unat (take_bit (64 - k) (rev_bits ?w)) = 0" by (simp only: unat_take_bit_mod rpos_def)
  then have z: "take_bit (64 - k) (rev_bits ?w) = 0" by (simp only: unat_eq_0)
  have "take_bit k ?w = ?w"
  proof (rule bit_word_eqI)
    fix i :: nat
    assume i: "i < LENGTH(64)"
    have "\<not> bit (take_bit (64 - k) (rev_bits ?w)) (63 - i)" by (simp add: z)
    then show "bit (take_bit k ?w) i = bit ?w i"
      using i assms by (auto simp: bit_take_bit_iff bit_rev_bits)
  qed
  then have "unat ?w = unat ?w mod 2 ^ k" by (metis unat_take_bit_mod)
  then show ?thesis by (metis mod_less_divisor zero_less_numeral zero_less_power)
qed

lemma midbits_low: "unat v < 2 ^ k \<Longrightarrow> midbits k j v = 0"
  by (simp add: midbits_def)

lemma hash_pos_block:
  assumes "k \<le> 64"
  shows "take_bit k (of_nat (dictHashKey t key)) = take_bit k v \<longleftrightarrow>
    hash_pos t key div 2 ^ (64 - k) = rpos v div 2 ^ (64 - k)"
  using take_bit_rpos [OF assms] by (simp add: hash_pos_def)

text \<open>A step emits every entry whose hash lies in the block of the cursor.\<close>

lemma dictScan_covers:
  assumes ok: "scannable d" and ne: "dictSize d \<noteq> 0" and low: "unat v < scan_size d"
  obtains k es where "scan_size d = 2 ^ k" and "0 < k" and "k < 64"
    and "dictScan d v = Some (scan_next (mask k) v, es)"
    and "set es \<subseteq> set (dict_entries d)"
    and "\<And>e. e \<in> set (dict_entries d) \<Longrightarrow>
      hash_pos (dtype d) (fst e) div 2 ^ (64 - k) = rpos v div 2 ^ (64 - k) \<Longrightarrow> e \<in> set es"
proof (cases "dictIsRehashing d")
  case False
  obtain k where k: "pow2_table (ht0 d) k" using ok by (auto simp: scannable_def)
  have wf: "ht_wf (dtype d) (ht0 d)" and h1: "ht_entries (ht1 d) = []"
    using ok False by (auto simp: scannable_def dict_inv_def)
  obtain es where es: "scan_bucket (ht0 d) v = Some es" "set es \<subseteq> set (ht_entries (ht0 d))"
    "\<And>e. e \<in> set (ht_entries (ht0 d)) \<Longrightarrow>
      take_bit k (of_nat (dictHashKey (dtype d) (fst e))) = take_bit k v \<Longrightarrow> e \<in> set es"
    by (rule scan_bucket_covers [OF wf k, of v]) blast
  have "dictScan d v = Some (scan_next (mask k) v, es)"
    using False ne es(1) sizemask_mask(1) [OF wf k] by (simp add: dictScan_def)
  then show thesis using False k es h1
    by (intro that [of k es]) (auto simp: scan_size_def pow2_table_def hash_pos_block [symmetric] dict_entries_def)
next
  case True
  define t0 t1 where "t0 = fst (scan_tables d)" and "t1 = snd (scan_tables d)"
  have ents: "set (dict_entries d) = set (ht_entries t0) \<union> set (ht_entries t1)"
    by (auto simp: t0_def t1_def scan_tables_def dict_entries_def)
  have wf: "ht_wf (dtype d) t0" "ht_wf (dtype d) t1" and le: "ht_size t0 \<le> ht_size t1"
    using ok by (auto simp: t0_def t1_def scan_tables_def scannable_def dict_inv_def)
  have "\<exists>k. pow2_table t0 k" "\<exists>j. pow2_table t1 j"
    using ok True by (auto simp: t0_def t1_def scan_tables_def scannable_def)
  then obtain k j where k: "pow2_table t0 k" and j: "pow2_table t1 j" by blast
  have kj: "k \<le> j" using le k j by (simp add: pow2_table_def)
  have sz: "scan_size d = 2 ^ k"
    using True k by (auto simp: scan_size_def t0_def scan_tables_def pow2_table_def min_def split: if_splits)
  obtain es where es: "scan_bucket t0 v = Some es" "set es \<subseteq> set (ht_entries t0)"
    "\<And>e. e \<in> set (ht_entries t0) \<Longrightarrow>
      take_bit k (of_nat (dictHashKey (dtype d) (fst e))) = take_bit k v \<Longrightarrow> e \<in> set es"
    by (rule scan_bucket_covers [OF wf(1) k, of v]) blast
  have k0: "0 < k" "k < 64" using k by (auto simp: pow2_table_def)
  from scan_expand_covers [OF wf(2) j kj k0(1), of v es] obtain v' es' where ex:
    "scan_expand t1 (mask k) (mask j) v es = Some (v', es @ es')" "take_bit k v' = take_bit k v"
    "set es' \<subseteq> set (ht_entries t1)"
    "\<forall>e \<in> set (ht_entries t1). take_bit k (of_nat (dictHashKey (dtype d) (fst e))) = take_bit k v \<longrightarrow>
       midbits k j v \<le> midbits k j (of_nat (dictHashKey (dtype d) (fst e))) \<longrightarrow> e \<in> set es'" by blast
  have "rev_bits (v' OR NOT (mask k)) = rev_bits (v OR NOT (mask k))"
  proof -
    have "v' OR NOT (mask k) = v OR NOT (mask k)"
    proof (rule bit_word_eqI)
      fix i :: nat
      assume "i < LENGTH(64)"
      then show "bit (v' OR NOT (mask k)) i = bit (v OR NOT (mask k)) i"
        using arg_cong [OF ex(2), of "\<lambda>x. bit x i"]
        by (auto simp: bit_or_iff bit_not_iff bit_mask_iff bit_take_bit_iff)
    qed
    then show ?thesis by simp
  qed
  then have "scan_next (mask k) v' = scan_next (mask k) v" by (simp add: scan_next_def)
  then have "dictScan d v = Some (scan_next (mask k) v, es @ es')"
    using True ne es(1) ex(1) sizemask_mask(1) [OF wf(1) k] sizemask_mask(1) [OF wf(2) j]
    by (simp add: dictScan_def Let_def split_beta t0_def t1_def)
  moreover have "e \<in> set (es @ es')" if "e \<in> set (dict_entries d)"
    "hash_pos (dtype d) (fst e) div 2 ^ (64 - k) = rpos v div 2 ^ (64 - k)" for e
  proof -
    have "take_bit k (of_nat (dictHashKey (dtype d) (fst e))) = take_bit k v"
      using that(2) k0 by (simp only: hash_pos_block less_imp_le)
    moreover have "midbits k j v = 0" using low sz by (simp add: midbits_low)
    moreover have "e \<in> set (ht_entries t0) \<or> e \<in> set (ht_entries t1)" using that(1) ents by simp
    ultimately show ?thesis using es(3) [of e] ex(4) by auto
  qed
  ultimately show thesis using sz k0 es(2) ex(3) ents by (intro that [of k "es @ es'"]) auto
qed

lemma squeeze: "a < m \<Longrightarrow> q \<le> a \<Longrightarrow> q + 1 = m \<Longrightarrow> a = (q :: nat)"
  by simp

lemma rpos_next_cases:
  assumes "0 < k" and "k < 64"
  shows "scan_next (mask k) v = 0 \<and> (\<forall>x < 2 ^ 64. rpos v \<le> x \<longrightarrow> x div 2 ^ (64 - k) = rpos v div 2 ^ (64 - k)) \<or>
    scan_next (mask k) v \<noteq> 0 \<and>
      rpos (scan_next (mask k) v) = (rpos v div 2 ^ (64 - k) + 1) * 2 ^ (64 - k)"
proof -
  let ?n = "2 ^ (64 - k) :: nat"
  let ?q = "rpos v div ?n"
  have big: "(2::nat) ^ 64 = 2 ^ k * ?n" using assms by (simp flip: power_add)
  have "rpos v < 2 ^ k * ?n" using rpos_lt [of v] unfolding big .
  then have q: "?q < 2 ^ k" by (rule less_mult_imp_div_less)
  have next_pos: "rpos (scan_next (mask k) v) = (?q + 1) * ?n mod (2 ^ k * ?n)"
    unfolding big [symmetric] using assms by (intro rpos_scan_next) simp_all
  show ?thesis
  proof (cases "?q + 1 = 2 ^ k")
    case True
    then have "rpos (scan_next (mask k) v) = 0" using next_pos by simp
    then have "scan_next (mask k) v = 0" by (simp only: rpos_eq_0)
    moreover have "x div ?n = ?q" if "x < 2 ^ 64" "rpos v \<le> x" for x
    proof -
      have "x div ?n < 2 ^ k" using that(1) unfolding big by (rule less_mult_imp_div_less)
      moreover have "?q \<le> x div ?n" using that(2) by (rule div_le_mono)
      ultimately show ?thesis by (rule squeeze [OF _ _ True])
    qed
    ultimately show ?thesis by blast
  next
    case False
    then have "?q + 1 < 2 ^ k" using q by simp
    then have "(?q + 1) * ?n < 2 ^ k * ?n" by (rule mult_strict_right_mono) simp
    then have "rpos (scan_next (mask k) v) = (?q + 1) * ?n" using next_pos by (simp only: mod_less)
    moreover from this have "rpos (scan_next (mask k) v) \<noteq> 0" by simp
    ultimately show ?thesis by (metis rpos_0)
  qed
qed

lemma scan_run_covers:
  assumes "\<forall>d \<in> set ds. scannable d \<and> dtype d = t \<and> key \<in> dom (dict_map d)"
    and "sorted (map scan_size ds)" and "\<forall>d \<in> set ds. unat v < scan_size d"
    and "rpos v \<le> hash_pos t key" and "scan_run ds v = Some es"
  shows "key \<in> fst ` set es"
  using assms
proof (induction ds arbitrary: v es)
  case Nil
  then show ?case by simp
next
  case (Cons d ds)
  have d: "scannable d" "dtype d = t" "key \<in> dom (dict_map d)" using Cons.prems(1) by auto
  then obtain val where val: "(key, val) \<in> set (dict_entries d)"
    by (auto simp: dict_map_def dest: map_of_SomeD)
  then have ne: "dictSize d \<noteq> 0" using d(1) by (auto simp: scannable_def dictSize_entries)
  have low: "unat v < scan_size d" using Cons.prems(3) by simp
  obtain k es1 where st: "scan_size d = 2 ^ k" "0 < k" "k < 64"
    "dictScan d v = Some (scan_next (mask k) v, es1)"
    "\<And>e. e \<in> set (dict_entries d) \<Longrightarrow>
      hash_pos t (fst e) div 2 ^ (64 - k) = rpos v div 2 ^ (64 - k) \<Longrightarrow> e \<in> set es1"
    by (rule dictScan_covers [OF d(1) ne low]) (use d(2) in metis)
  let ?v = "scan_next (mask k) v"
  have key: "key \<in> fst ` set es1"
    if "hash_pos t key div 2 ^ (64 - k) = rpos v div 2 ^ (64 - k)"
    using st(5) [OF val] that by force
  have lt: "hash_pos t key < 2 ^ 64" unfolding hash_pos_def by (rule rpos_lt)
  from rpos_next_cases [OF st(2,3), of v] show ?case
  proof (elim disjE conjE)
    assume z: "?v = 0" and last: "\<forall>x < 2 ^ 64. rpos v \<le> x \<longrightarrow> x div 2 ^ (64 - k) = rpos v div 2 ^ (64 - k)"
    have "key \<in> fst ` set es1" using key last lt Cons.prems(4) by blast
    moreover have "es = es1" using z Cons.prems(5) st(4) by simp
    ultimately show ?thesis by simp
  next
    assume nz: "?v \<noteq> 0" and r: "rpos ?v = (rpos v div 2 ^ (64 - k) + 1) * 2 ^ (64 - k)"
    from nz Cons.prems(5) st(4) obtain es2 where
      run: "scan_run ds ?v = Some es2" and es: "es = es1 @ es2" by auto
    show ?thesis
    proof (cases "hash_pos t key div 2 ^ (64 - k) = rpos v div 2 ^ (64 - k)")
      case True
      then show ?thesis using key es by auto
    next
      case False
      have "rpos v div 2 ^ (64 - k) \<le> hash_pos t key div 2 ^ (64 - k)"
        using Cons.prems(4) by (rule div_le_mono)
      then have "rpos v div 2 ^ (64 - k) + 1 \<le> hash_pos t key div 2 ^ (64 - k)" using False by simp
      then have "rpos ?v \<le> hash_pos t key div 2 ^ (64 - k) * 2 ^ (64 - k)"
        unfolding r by (rule mult_le_mono1)
      also have "\<dots> \<le> hash_pos t key" by (rule div_times_less_eq_dividend)
      finally have pos: "rpos ?v \<le> hash_pos t key" .
      have "unat ?v < scan_size d'" if "d' \<in> set ds" for d'
        using scan_next_low [OF st(2,3), of v] Cons.prems(2) st(1) that by (force dest: le_less_trans)
      then have "key \<in> fst ` set es2"
        using Cons.IH [OF _ _ _ pos run] Cons.prems(1,2) by auto
      then show ?thesis using es by auto
    qed
  qed
qed

end
