(* ===== verification/Kv_Store.thy ===== *)
theory Kv_Store
  imports Prelude
begin

text \<open>
  The interface of a finite map with in-place operations, as \<^verbatim>\<open>db.c\<close>, \<^verbatim>\<open>pubsub.c\<close> and \<^verbatim>\<open>multi.c\<close> use the
  hash table: every operation may reorganise the store, so it returns a new state also when it only
  reads.  A client is a sequence of operations; on any provider of the contract it sees the answers
  of the abstract map.
\<close>

datatype ('k, 'v) kv_op = Fetch 'k | Add 'k 'v | Replace 'k 'v | Delete 'k

datatype 'v kv_answer = Fetched "'v option" | Flag bool

text \<open>The abstract map.\<close>

fun map_step :: "('k \<rightharpoonup> 'v) \<Rightarrow> ('k, 'v) kv_op \<Rightarrow> ('k \<rightharpoonup> 'v) \<times> 'v kv_answer" where
  "map_step m (Fetch k) = (m, Fetched (m k))"
| "map_step m (Add k v) = (if m k = None then (m(k \<mapsto> v), Flag True) else (m, Flag False))"
| "map_step m (Replace k v) = (m(k \<mapsto> v), Flag (m k = None))"
| "map_step m (Delete k) = (m(k := None), Flag (m k \<noteq> None))"

fun map_run :: "('k \<rightharpoonup> 'v) \<Rightarrow> ('k, 'v) kv_op list \<Rightarrow> ('k \<rightharpoonup> 'v) \<times> 'v kv_answer list" where
  "map_run m [] = (m, [])"
| "map_run m (x # xs) = (let (m, a) = map_step m x; (m, as) = map_run m xs in (m, a # as))"

text \<open>A provider, as the tuple of its operations.\<close>

record ('s, 'k, 'v) kv_ops =
  kv_fetch :: "'s \<Rightarrow> 'k \<Rightarrow> ('s \<times> 'v option) option"
  kv_add :: "'s \<Rightarrow> 'k \<Rightarrow> 'v \<Rightarrow> ('s \<times> bool) option"
  kv_replace :: "'s \<Rightarrow> 'k \<Rightarrow> 'v \<Rightarrow> ('s \<times> bool) option"
  kv_delete :: "'s \<Rightarrow> 'k \<Rightarrow> ('s \<times> bool) option"

fun kv_step :: "('s, 'k, 'v) kv_ops \<Rightarrow> 's \<Rightarrow> ('k, 'v) kv_op \<Rightarrow> ('s \<times> 'v kv_answer) option" where
  "kv_step P s (Fetch k) = map_option (apsnd Fetched) (kv_fetch P s k)"
| "kv_step P s (Add k v) = map_option (apsnd Flag) (kv_add P s k v)"
| "kv_step P s (Replace k v) = map_option (apsnd Flag) (kv_replace P s k v)"
| "kv_step P s (Delete k) = map_option (apsnd Flag) (kv_delete P s k)"

fun kv_run :: "('s, 'k, 'v) kv_ops \<Rightarrow> 's \<Rightarrow> ('k, 'v) kv_op list \<Rightarrow> ('s \<times> 'v kv_answer list) option" where
  "kv_run P s [] = Some (s, [])"
| "kv_run P s (x # xs) = do {
     (s, a) \<leftarrow> kv_step P s x;
     (s, as) \<leftarrow> kv_run P s xs;
     Some (s, a # as)
   }"

text \<open>The contract.  \<open>room n s\<close> says that \<open>n\<close> more keys fit before a size computation overflows.\<close>

locale kv_store =
  fixes P :: "('s, 'k, 'v) kv_ops" and inv :: "'s \<Rightarrow> bool" and look :: "'s \<Rightarrow> 'k \<Rightarrow> 'v option"
    and room :: "nat \<Rightarrow> 's \<Rightarrow> bool"
  assumes room_le: "room n s \<Longrightarrow> m \<le> n \<Longrightarrow> room m s"
    and fetch: "inv s \<Longrightarrow> \<exists>s'. kv_fetch P s k = Some (s', look s k) \<and> inv s' \<and> look s' = look s \<and>
      (\<forall>n. room n s \<longrightarrow> room n s')"
    and add: "inv s \<Longrightarrow> room 1 s \<Longrightarrow> \<exists>s'. kv_add P s k v = Some (s', look s k = None) \<and> inv s' \<and>
      look s' = (if look s k = None then (look s)(k \<mapsto> v) else look s) \<and>
      (\<forall>n. room (Suc n) s \<longrightarrow> room n s')"
    and replace: "inv s \<Longrightarrow> room 1 s \<Longrightarrow> \<exists>s'. kv_replace P s k v = Some (s', look s k = None) \<and> inv s' \<and>
      look s' = (look s)(k \<mapsto> v) \<and> (\<forall>n. room (Suc n) s \<longrightarrow> room n s')"
    and delete: "inv s \<Longrightarrow> \<exists>s'. kv_delete P s k = Some (s', look s k \<noteq> None) \<and> inv s' \<and>
      look s' = (look s)(k := None) \<and> (\<forall>n. room n s \<longrightarrow> room n s')"
begin

lemma step_refines:
  assumes "inv s" and "room (Suc n) s"
  shows "\<exists>s'. kv_step P s x = Some (s', snd (map_step (look s) x)) \<and> inv s' \<and>
    look s' = fst (map_step (look s) x) \<and> room n s'"
proof -
  have r: "room 1 s" "room n s" using room_le [OF assms(2)] by auto
  show ?thesis
  proof (cases x)
    case (Fetch k)
    then show ?thesis using fetch [OF assms(1), of k] r by auto
  next
    case (Add k v)
    then show ?thesis using add [OF assms(1) r(1), of k v] assms(2) by auto
  next
    case (Replace k v)
    then show ?thesis using replace [OF assms(1) r(1), of k v] assms(2) by auto
  next
    case (Delete k)
    then show ?thesis using delete [OF assms(1), of k] r by auto
  qed
qed

lemma run_refines:
  "inv s \<Longrightarrow> room (length xs) s \<Longrightarrow>
    \<exists>s'. kv_run P s xs = Some (s', snd (map_run (look s) xs)) \<and> inv s' \<and>
      look s' = fst (map_run (look s) xs)"
proof (induction xs arbitrary: s)
  case (Cons x xs)
  then obtain s1 where s1: "kv_step P s x = Some (s1, snd (map_step (look s) x))" "inv s1"
      "look s1 = fst (map_step (look s) x)" "room (length xs) s1"
    using step_refines [of s "length xs" x] by auto
  from Cons.IH [OF s1(2,4)] s1(1,3) show ?case
    by (auto simp: Let_def split_beta)
qed simp

lemma fetch_obtain:
  assumes "inv s"
  obtains s' where "kv_fetch P s k = Some (s', look s k)" and "inv s'" and "look s' = look s"
    and "\<And>n. room n s \<Longrightarrow> room n s'"
  using fetch [OF assms, of k] by blast

lemma delete_obtain:
  assumes "inv s"
  obtains s' where "kv_delete P s k = Some (s', look s k \<noteq> None)" and "inv s'"
    and "look s' = (look s)(k := None)" and "\<And>n. room n s \<Longrightarrow> room n s'"
  using delete [OF assms, of k] by blast

lemma add_obtain:
  assumes "inv s" and "room 1 s"
  obtains s' where "kv_add P s k v = Some (s', look s k = None)" and "inv s'"
    and "look s' = (if look s k = None then (look s)(k \<mapsto> v) else look s)"
    and "\<And>n. room (Suc n) s \<Longrightarrow> room n s'"
  using add [OF assms, of k v] by blast

lemma replace_obtain:
  assumes "inv s" and "room 1 s"
  obtains s' where "kv_replace P s k v = Some (s', look s k = None)" and "inv s'"
    and "look s' = (look s)(k \<mapsto> v)" and "\<And>n. room (Suc n) s \<Longrightarrow> room n s'"
  using replace [OF assms, of k v] by blast

end

end
