(* ===== verification/Dict_Laws.thy ===== *)
theory Dict_Laws
  imports Dict_Correct Kv_Store
begin

text \<open>
  The hash table as a provider of the finite-map interface, and the properties of
  \<^verbatim>\<open>src/redis-3.0.3/src/dict.c\<close> that its clients rest on.
\<close>

text \<open>\<open>n\<close> more keys fit before an index leaves the range of \<open>int\<close>.\<close>

definition dict_room :: "nat \<Rightarrow> ('k, 'v) dict \<Rightarrow> bool" where
  "dict_room n d \<longleftrightarrow> 2 * (dictSize d + n) \<le> 2 ^ 31 \<and> dict_fits d"

definition dict_ops :: "bool \<Rightarrow> 'v \<Rightarrow> (('k, 'v) dict, 'k, 'v) kv_ops" where
  "dict_ops can_resize junk =
    \<lparr>kv_fetch = dictFetchValue,
     kv_add = (\<lambda>d k v. map_option (apsnd (\<lambda>r. r = DICT_OK)) (dictAdd can_resize d k v junk)),
     kv_replace = (\<lambda>d k v. dictReplace can_resize d k v junk),
     kv_delete = (\<lambda>d k. map_option (apsnd (\<lambda>r. r = DICT_OK)) (dictGenericDelete d k))\<rparr>"

lemma dict_room_small: "dict_room n d \<Longrightarrow> dict_small d" and dict_room_fits: "dict_room n d \<Longrightarrow> dict_fits d"
  by (simp_all add: dict_room_def dict_small_def)

lemma dict_room_like: "dict_inv d \<Longrightarrow> dict_like d d' \<Longrightarrow> (dict_fits d \<Longrightarrow> dict_fits d') \<Longrightarrow> dict_room n d \<Longrightarrow> dict_room n d'"
  unfolding dict_room_def by (drule (1) dict_like_size) simp

lemma dict_room_upd:
  assumes "dict_inv d" "dict_inv d'" "dict_map d' = (dict_map d)(k \<mapsto> v)" "dict_fits d'" "dict_room (Suc n) d"
  shows "dict_room n d'"
proof -
  have "finite (dom (dict_map d))" by (simp add: dict_map_def finite_dom_map_of)
  then have "card (dom (dict_map d')) \<le> Suc (card (dom (dict_map d)))"
    using assms(3) by (simp add: card_insert_le_m1 card_insert_if)
  then show ?thesis
    using assms(4,5) unfolding dict_room_def dictSize_card [OF assms(1)] dictSize_card [OF assms(2)] by simp
qed

lemma dict_room_del:
  assumes "dict_inv d" "dict_inv d'" "dict_map d' = (dict_map d)(k := None)" "dict_fits d'" "dict_room n d"
  shows "dict_room n d'"
proof -
  have "finite (dom (dict_map d))" by (simp add: dict_map_def finite_dom_map_of)
  then have "card (dom (dict_map d')) \<le> card (dom (dict_map d))"
    using assms(3) by (simp add: card_mono)
  then show ?thesis
    using assms(4,5) unfolding dict_room_def dictSize_card [OF assms(1)] dictSize_card [OF assms(2)] by simp
qed

lemma dictFetchValue_correct:
  assumes "dict_inv d"
  obtains d' where "dictFetchValue d key = Some (d', dict_map d key)" and "dict_like d d'"
    and "dict_fits d \<Longrightarrow> dict_fits d'"
proof (cases rule: dictFind_correct [OF assms, of key])
  case (1 d' p)
  then show thesis by (intro that [of d']) (auto simp: dictFetchValue_def dest: dictFind_fits)
next
  case (2 d')
  then show thesis by (intro that [of d']) (auto simp: dictFetchValue_def dest: dictFind_fits)
qed

lemma dict_contract:
  assumes inv: "dict_inv d"
  shows dict_fetch: "\<exists>d'. kv_fetch (dict_ops cr junk) d k = Some (d', dict_map d k) \<and> dict_inv d' \<and>
      dict_map d' = dict_map d \<and> (\<forall>n. dict_room n d \<longrightarrow> dict_room n d')"
    and dict_add: "dict_room 1 d \<Longrightarrow> \<exists>d'. kv_add (dict_ops cr junk) d k v = Some (d', dict_map d k = None) \<and>
      dict_inv d' \<and> dict_map d' = (if dict_map d k = None then (dict_map d)(k \<mapsto> v) else dict_map d) \<and>
      (\<forall>n. dict_room (Suc n) d \<longrightarrow> dict_room n d')"
    and dict_replace: "dict_room 1 d \<Longrightarrow> \<exists>d'. kv_replace (dict_ops cr junk) d k v = Some (d', dict_map d k = None) \<and>
      dict_inv d' \<and> dict_map d' = (dict_map d)(k \<mapsto> v) \<and> (\<forall>n. dict_room (Suc n) d \<longrightarrow> dict_room n d')"
    and dict_delete: "\<exists>d'. kv_delete (dict_ops cr junk) d k = Some (d', dict_map d k \<noteq> None) \<and> dict_inv d' \<and>
      dict_map d' = (dict_map d)(k := None) \<and> (\<forall>n. dict_room n d \<longrightarrow> dict_room n d')"
proof -
  show "\<exists>d'. kv_fetch (dict_ops cr junk) d k = Some (d', dict_map d k) \<and> dict_inv d' \<and>
      dict_map d' = dict_map d \<and> (\<forall>n. dict_room n d \<longrightarrow> dict_room n d')"
    by (rule dictFetchValue_correct [OF inv, of k])
      (auto simp: dict_ops_def dict_like_inv dict_like_map [OF inv] intro: dict_room_like [OF inv])
next
  assume room: "dict_room 1 d"
  note small = dict_room_small [OF room] and fits = dict_room_fits [OF room]
  have le: "dict_room n d" if "dict_room (Suc n) d" for n using that by (simp add: dict_room_def)
  show "\<exists>d'. kv_add (dict_ops cr junk) d k v = Some (d', dict_map d k = None) \<and>
      dict_inv d' \<and> dict_map d' = (if dict_map d k = None then (dict_map d)(k \<mapsto> v) else dict_map d) \<and>
      (\<forall>n. dict_room (Suc n) d \<longrightarrow> dict_room n d')"
  proof (cases rule: dictAdd_correct [OF inv small fits, of cr k v junk])
    case (1 d')
    moreover have "dict_room n d'" if "dict_room (Suc n) d" for n
      using dict_room_like [OF inv 1(2) _ le [OF that]] dictAdd_fits [OF 1(1) inv small fits] by simp
    ultimately show ?thesis by (auto simp: dict_ops_def dict_like_inv dict_like_map [OF inv])
  next
    case (2 d')
    moreover have "dict_map d k = None" using 2(3) by auto
    ultimately show ?thesis using dict_room_upd [OF inv 2(2,4) dictAdd_fits [OF 2(1) inv small fits]]
      by (intro exI [of _ d']) (simp add: dict_ops_def)
  qed
  show "\<exists>d'. kv_replace (dict_ops cr junk) d k v = Some (d', dict_map d k = None) \<and>
      dict_inv d' \<and> dict_map d' = (dict_map d)(k \<mapsto> v) \<and> (\<forall>n. dict_room (Suc n) d \<longrightarrow> dict_room n d')"
  proof (rule dictReplace_correct [OF inv small fits, of cr k v junk])
    fix d' assume d': "dictReplace cr d k v junk = Some (d', k \<notin> dom (dict_map d))" "dict_inv d'"
      "dict_map d' = (dict_map d)(k \<mapsto> v)"
    then show ?thesis using dict_room_upd [OF inv d'(2,3) dictReplace_fits [OF d'(1) inv small fits]]
      by (intro exI [of _ d']) (auto simp: dict_ops_def)
  qed
next
  show "\<exists>d'. kv_delete (dict_ops cr junk) d k = Some (d', dict_map d k \<noteq> None) \<and> dict_inv d' \<and>
      dict_map d' = (dict_map d)(k := None) \<and> (\<forall>n. dict_room n d \<longrightarrow> dict_room n d')"
  proof (cases rule: dictGenericDelete_correct [OF inv, of k])
    case (1 d')
    moreover have "dict_room n d'" if "dict_room n d" for n
      using dict_room_del [OF inv 1(2,4) _ that] dictGenericDelete_fits [OF 1(1)] dict_room_fits [OF that] by simp
    ultimately show ?thesis
      by (intro exI [of _ d']) (auto simp: dict_ops_def)
  next
    case (2 d')
    moreover have "(dict_map d)(k := None) = dict_map d" "dict_map d k = None" using 2(3) by auto
    moreover have "dict_room n d'" if "dict_room n d" for n
      using dict_room_like [OF inv 2(2) _ that] dictGenericDelete_fits [OF 2(1)] by simp
    ultimately show ?thesis
      by (intro exI [of _ d']) (simp add: dict_ops_def dict_like_inv dict_like_map [OF inv])
  qed
qed

interpretation dkv: kv_store "dict_ops can_resize junk" dict_inv dict_map dict_room
  for can_resize junk
  by (rule kv_store.intro)
    (simp add: dict_room_def, erule dict_fetch, erule (1) dict_add, erule (1) dict_replace, erule dict_delete)

section \<open>A concrete table\<close>

definition demo_type :: "nat dictType" where
  "demo_type = \<lparr>hashFunction = of_nat, keyCompare = None\<rparr>"

lemma demo_type_ok [simp]: "type_ok demo_type"
  by (simp add: type_ok_def dictCompareKeys_def demo_type_def)

lemma dict_inv_create [simp]: "type_ok t \<Longrightarrow> dict_inv (dictCreate t)"
  by (simp add: dict_inv_def dictCreate_def dictIsRehashing_def dict_entries_def)

lemma dict_map_create [simp]: "dict_map (dictCreate t) = Map.empty"
  by (simp add: dict_map_def dict_entries_def dictCreate_def)

lemma dict_room_create: "2 * n \<le> 2 ^ 31 \<Longrightarrow> dict_room n (dictCreate t)"
  by (simp add: dict_room_def dictSize_def dict_fits_def dictCreate_def dictReset_def)

section \<open>Properties\<close>

text \<open>(C1) Every sequence of lookups, insertions, replacements and deletions on a hash table, whatever its
  stage of incremental rehashing, runs without an out-of-bounds access, returns exactly the answers
  of the finite map it represents, and leaves a well-formed table for the final map.  The room it needs:
  neither table has more than 2^31 buckets, and the entries together with the operations of the sequence are
  at most 2^30; beyond that \<open>_dictKeyIndex\<close> returns an index of 2^31 or more through an \<open>int\<close>.\<close>

theorem dict_trace_refinement:
  assumes "dict_inv d" and "dict_room (length xs) d"
  shows "\<exists>d'. kv_run (dict_ops can_resize junk) d xs = Some (d', snd (map_run (dict_map d) xs)) \<and>
    dict_inv d' \<and> dict_map d' = fst (map_run (dict_map d) xs)"
  using assms by (rule dkv.run_refines)

theorem dict_trace_refinement_witness:
  "\<exists>d'. kv_run (dict_ops True 0) (dictCreate demo_type) [Add 1 (10::nat), Add 1 11, Replace 1 12, Fetch 1, Delete 1, Fetch 1]
     = Some (d', [Flag True, Flag False, Flag False, Fetched (Some 12), Flag True, Fetched None])"
proof -
  have "dict_room (length [Add 1 (10::nat), Add 1 11, Replace 1 12, Fetch 1, Delete 1, Fetch 1])
      (dictCreate demo_type)"
    by (rule dict_room_create) simp
  from dict_trace_refinement [OF dict_inv_create [OF demo_type_ok] this, of True 0]
  show ?thesis by (auto simp: Let_def)
qed

end
