(* ===== verification/Dict_Scan_Laws.thy ===== *)
theory Dict_Scan_Laws
  imports Dict_Scan Dict_Laws
begin

text \<open>
  The guarantee of a whole \<open>dictScan\<close> iteration, its use on a concrete table, and the iteration during
  which the table shrinks and an element that is present all the time is never returned.
\<close>

section \<open>Evaluating cursors\<close>

lemma rpos_inj: "rpos v = rpos w \<longleftrightarrow> v = w"
  by (metis rev_bits_rev_bits rpos_def word_unat_eq_iff)

lemma rev_bits_exp: "i < 64 \<Longrightarrow> rev_bits (2 ^ i) = 2 ^ (63 - i)"
  by (rule bit_word_eqI) (auto simp: bit_rev_bits bit_exp_iff)

lemma rev_bits_or: "rev_bits (v OR w) = rev_bits v OR rev_bits w"
  by (rule bit_word_eqI) (simp add: bit_rev_bits bit_or_iff)

lemma rpos_exp: "i < 64 \<Longrightarrow> rpos (2 ^ i) = 2 ^ (63 - i)"
  unfolding rpos_def rev_bits_exp by (rule unat_power2) simp

lemma scan_nextI:
  assumes "0 < k" "k \<le> 64" "take_bit k v = take_bit k u"
    and "(rpos u div 2 ^ (64 - k) + 1) * 2 ^ (64 - k) mod 2 ^ 64 = rpos w"
  shows "scan_next (mask k) v = w"
  using rpos_scan_next [OF assms(1,2), of v] assms take_bit_rpos [of k v u] by (simp flip: rpos_inj)

lemma rpos_small: "rpos 8 = 2 ^ 60" "rpos 2 = 2 ^ 62" "rpos 1 = 2 ^ 63" "rpos 3 = 3 * 2 ^ 62"
proof -
  show "rpos 8 = 2 ^ 60" "rpos 2 = 2 ^ 62" "rpos 1 = 2 ^ 63"
    using rpos_exp [of 3] rpos_exp [of 1] rpos_exp [of 0] by simp_all
  have "rev_bits (2 ^ 1 OR 2 ^ 0) = 2 ^ 62 OR 2 ^ 63" by (simp only: rev_bits_or rev_bits_exp) simp
  then have "rev_bits 3 = 13835058055282163712" by simp
  then show "rpos 3 = 3 * 2 ^ 62" by (simp add: rpos_def)
qed

lemma small_masks: "mask 4 = (15 :: u64)" "mask 2 = (3 :: u64)"
  by (simp_all add: mask_eq_decr_exp)

lemma scan_next_eval:
  "scan_next 15 0 = 8" "scan_next 3 16 = 2" "scan_next 3 18 = 1" "scan_next 3 17 = 3" "scan_next 3 19 = 0"
  "scan_next 3 0 = 2" "scan_next 3 2 = 1" "scan_next 3 1 = 3" "scan_next 3 3 = 0"
  using scan_nextI [of 4 0 0 8] scan_nextI [of 2 16 0 2] scan_nextI [of 2 18 2 1] scan_nextI [of 2 17 1 3]
    scan_nextI [of 2 19 3 0] scan_nextI [of 2 0 0 2] scan_nextI [of 2 2 2 1] scan_nextI [of 2 1 1 3]
    scan_nextI [of 2 3 3 0]
  by (simp_all add: rpos_small small_masks take_bit_eq_mask)

section \<open>The guarantee\<close>

text \<open>(C2) An element present in the table during a whole scan is returned, provided the (smaller)
  table never shrinks between calls: expansion, and any stage of incremental rehashing to a larger
  table, lose nothing.\<close>

theorem dictScan_guarantee:
  assumes "\<forall>d \<in> set ds. scannable d \<and> dtype d = t \<and> key \<in> dom (dict_map d)"
    and "sorted (map scan_size ds)" and "scan_run ds 0 = Some es"
  shows "key \<in> fst ` set es"
proof (rule scan_run_covers [OF assms(1,2) _ _ assms(3)])
  show "rpos 0 \<le> hash_pos t key" by (simp add: rpos_def rev_bits_def rev_loop.simps)
  show "\<forall>d \<in> set ds. unat (0 :: u64) < scan_size d"
    using assms(1) by (auto simp: scannable_def scan_size_def pow2_table_def)
qed

definition scan_demo4 :: "(nat, nat) dict" where
  "scan_demo4 = \<lparr>dtype = demo_type,
     ht0 = \<lparr>ht_table = [[], [(1, 7)], [], []], ht_size = 4, ht_sizemask = 3, ht_used = 1\<rparr>,
     ht1 = dictReset, rehashidx = -1, iterators = 0\<rparr>"

lemma scan_demo4_ok: "scannable scan_demo4" "dict_map scan_demo4 = [1 \<mapsto> 7]" "scan_size scan_demo4 = 4"
proof -
  have "i \<in> {0, 1, 2, 3}" if "i < 4" for i :: nat using that by auto
  then have "\<forall>i < 4. bucket_ok demo_type 3 i ([[], [(1, 7)], [], []] ! i :: (nat \<times> nat) list)"
    by (fastforce simp: bucket_ok_def dictHashKey_def demo_type_def)
  moreover have "\<exists>j. pow2_table (ht0 scan_demo4) j"
    by (intro exI [of _ 2]) (simp add: pow2_table_def scan_demo4_def)
  ultimately show "scannable scan_demo4"
    by (simp add: scannable_def dict_inv_def scan_demo4_def dictIsRehashing_def ht_wf_def ht_entries_def
        dict_entries_def dictReset_def)
qed (simp_all add: scan_demo4_def dict_map_def dict_entries_def ht_entries_def dictReset_def
    scan_size_def dictIsRehashing_def)

theorem dictScan_guarantee_witness:
  "\<exists>es. scan_run (replicate 4 scan_demo4) 0 = Some es \<and> 1 \<in> fst ` set es"
proof -
  have "scan_run (replicate 4 scan_demo4) 0 = Some [(1, 7)]"
    by (simp add: numeral_eq_Suc)
      (simp add: scan_demo4_def dictScan_def dictSize_def dictReset_def dictIsRehashing_def
        scan_bucket_def array_get_def scan_next_eval)
  moreover from dictScan_guarantee [OF _ _ this, of demo_type 1] have "1 \<in> fst ` set [(1 :: nat, 7 :: nat)]"
    using scan_demo4_ok by (simp add: scan_demo4_def)
  ultimately show ?thesis by blast
qed

section \<open>A scan during which the table shrinks\<close>

definition scan_demo16 :: "(nat, nat) dict" where
  "scan_demo16 = \<lparr>dtype = demo_type,
     ht0 = \<lparr>ht_table = (replicate 16 [])[4 := [(4, 7)]], ht_size = 16, ht_sizemask = 15, ht_used = 1\<rparr>,
     ht1 = dictReset, rehashidx = -1, iterators = 0\<rparr>"

definition scan_shrunk :: "(nat, nat) dict" where
  "scan_shrunk = fst (dictResize True scan_demo16)"

lemma dictNextPower_4: "dictNextPower 4 = 4"
  by (simp add: dictNextPower_def dictNextPower_loop.simps DICT_HT_INITIAL_SIZE_def)

lemma replicate_16: "replicate 16 x = [x,x,x,x,x,x,x,x,x,x,x,x,x,x,x,x]"
  by (simp add: numeral_eq_Suc)

lemma c_int_1: "c_int 1 = 1"
  by (rule c_int_id) simp_all

lemma scan_shrunk_eq: "scan_shrunk = scan_demo16\<lparr>ht1 :=
    \<lparr>ht_table = [[],[],[],[]], ht_size = 4, ht_sizemask = 3, ht_used = 0\<rparr>, rehashidx := 0\<rparr>"
  by (simp add: scan_shrunk_def dictResize_def dictExpand_def dictNextPower_4 scan_demo16_def
      dictIsRehashing_def DICT_HT_INITIAL_SIZE_def Let_def c_int_1 replicate_16) (simp add: numeral_eq_Suc)

lemmas scan_eval = dictScan_def scan_demo16_def dictSize_def dictReset_def dictIsRehashing_def
  scan_tables_def scan_bucket_def array_get_def scan_incr_def scan_next_eval

lemma scan_first: "dictScan scan_demo16 0 = Some (8, [])"
  by (simp add: scan_eval)

text \<open>On the shrinking table every cursor from 8 on skips bucket 4 of the larger table.\<close>

lemma scan_expand_go:
  "scan_bucket t1 v = Some c \<Longrightarrow> scan_incr m0 v AND (m0 XOR m1) \<noteq> 0 \<Longrightarrow>
    scan_expand t1 m0 m1 v acc = scan_expand t1 m0 m1 (scan_incr m0 v) (acc @ c)"
  by (subst scan_expand.simps) simp

lemma scan_expand_stop:
  "scan_bucket t1 v = Some c \<Longrightarrow> scan_incr m0 v AND (m0 XOR m1) = 0 \<Longrightarrow>
    scan_expand t1 m0 m1 v acc = Some (scan_incr m0 v, acc @ c)"
  by (subst scan_expand.simps) simp

lemma scan_rest:
  "dictScan scan_shrunk 8 = Some (2, [])" "dictScan scan_shrunk 2 = Some (1, [])"
  "dictScan scan_shrunk 1 = Some (3, [])" "dictScan scan_shrunk 3 = Some (0, [])"
  by (simp_all add: scan_shrunk_eq scan_eval scan_expand_go scan_expand_stop)

lemma scan_shrunk_map: "dict_map scan_demo16 4 = Some 7" "dict_map scan_shrunk 4 = Some 7"
  by (simp_all add: scan_shrunk_eq scan_demo16_def dict_map_def dict_entries_def ht_entries_def dictReset_def replicate_16)

text \<open>The documented guarantee fails for a table that shrinks: a scan starts on a table of 16 buckets,
  \<open>dictResize\<close> then starts rehashing it to 4 buckets, and the completed scan returns nothing although key
  4 is in the table before the resize and at every later call.\<close>

lemma dictScan_shrink_loses:
  "scan_run [scan_demo16, scan_shrunk, scan_shrunk, scan_shrunk, scan_shrunk] 0 = Some [] \<and>
    fst (dictResize True scan_demo16) = scan_shrunk \<and>
    dict_map scan_demo16 4 = Some 7 \<and> dict_map scan_shrunk 4 = Some 7"
  by (simp add: scan_first scan_rest scan_shrunk_map) (simp add: scan_shrunk_def)

end
