(* ===== verification/Util.thy ===== *)
theory Util
  imports Prelude "HOL-Library.Char_ord"
begin

text \<open>
  \<^verbatim>\<open>src/redis-3.0.3/src/util.c\<close>: conversions between decimal strings and 64 bit integers
  (\<open>digits10\<close>, \<open>ll2string\<close>, \<open>string2ll\<close>, \<open>string2l\<close>) and glob matching (\<open>stringmatchlen\<close>).
  A C string is the list of its characters; its NUL terminator is the character read at its length.
\<close>

section \<open>Decimal conversions\<close>

abbreviation LLONG_MAX :: int where "LLONG_MAX \<equiv> 2 ^ 63 - 1"
abbreviation LLONG_MIN :: int where "LLONG_MIN \<equiv> - (2 ^ 63)"
abbreviation ULLONG_MAX :: nat where "ULLONG_MAX \<equiv> 2 ^ 64 - 1"

function digits10 :: "nat \<Rightarrow> nat" where
  "digits10 v =
    (if v < 10 then 1 else if v < 100 then 2 else if v < 1000 then 3
     else if v < 1000000000000 then
       (if v < 100000000 then
          (if v < 1000000 then
             (if v < 10000 then 4 else 5 + (if v \<ge> 100000 then 1 else 0))
           else 7 + (if v \<ge> 10000000 then 1 else 0))
        else if v < 10000000000 then 9 + (if v \<ge> 1000000000 then 1 else 0)
        else 11 + (if v \<ge> 100000000000 then 1 else 0))
     else 12 + digits10 (v div 1000000000000))"
  by pat_completeness auto
termination by (relation "measure id") auto

declare digits10.simps [simp del]

definition digit_pairs :: string where
  "digit_pairs =
    ''0001020304050607080910111213141516171819'' @
    ''2021222324252627282930313233343536373839'' @
    ''4041424344454647484950515253545556575859'' @
    ''6061626364656667686970717273747576777879'' @
    ''8081828384858687888990919293949596979899''"

text \<open>The main loop of \<open>ll2string\<close> writes two digits per round from the right.\<close>

function ll2string_loop :: "nat \<Rightarrow> string \<Rightarrow> nat \<Rightarrow> nat \<times> string \<times> nat" where
  "ll2string_loop val dst nxt =
    (if val \<ge> 100 then
       let i = (val mod 100) * 2
       in ll2string_loop (val div 100) (dst[nxt := digit_pairs ! (i + 1), nxt - 1 := digit_pairs ! i]) (nxt - 2)
     else (val, dst, nxt))"
  by pat_completeness auto
termination by (relation "measure fst") auto

declare ll2string_loop.simps [simp del]

text \<open>\<open>dst\<close> is the whole buffer; the result is the returned length and the buffer afterwards.\<close>

definition ll2string :: "string \<Rightarrow> int \<Rightarrow> nat \<times> string" where
  "ll2string dst svalue =
    (let negative = svalue < 0;
         val = nat \<bar>svalue\<bar>;
         len = digits10 val + (if negative then 1 else 0) in
     if len \<ge> length dst then (0, dst)
     else
       let dst = dst[len := CHR 0x00];
           (val, dst, nxt) = ll2string_loop val dst (len - 1);
           dst = (if val < 10 then dst[nxt := char_of (48 + val)]
                  else dst[nxt := digit_pairs ! (val * 2 + 1), nxt - 1 := digit_pairs ! (val * 2)]);
           dst = (if negative then dst[0 := CHR ''-''] else dst)
       in (len, dst))"

definition is_digit :: "char \<Rightarrow> bool" where
  "is_digit c \<longleftrightarrow> CHR ''0'' \<le> c \<and> c \<le> CHR ''9''"

definition digit_val :: "char \<Rightarrow> nat" where
  "digit_val c = of_char c - 48"

text \<open>The digit loop of \<open>string2ll\<close>: \<open>None\<close> is \<open>return 0\<close> on overflow, otherwise the value and the
  unread rest.\<close>

fun string2ll_loop :: "nat \<Rightarrow> string \<Rightarrow> (nat \<times> string) option" where
  "string2ll_loop v [] = Some (v, [])"
| "string2ll_loop v (c # p) =
    (if is_digit c then
       if v > ULLONG_MAX div 10 then None
       else if v * 10 > ULLONG_MAX - digit_val c then None
       else string2ll_loop (v * 10 + digit_val c) p
     else Some (v, c # p))"

definition string2ll :: "string \<Rightarrow> int option" where
  "string2ll s =
    (if s = [] then None
     else if length s = 1 \<and> s ! 0 = CHR ''0'' then Some 0
     else
       let negative = (s ! 0 = CHR ''-''); p = (if negative then tl s else s) in
       case p of
         [] \<Rightarrow> None
       | c # p \<Rightarrow>
           if CHR ''1'' \<le> c \<and> c \<le> CHR ''9'' then
             (case string2ll_loop (digit_val c) p of
                None \<Rightarrow> None
              | Some (v, rest) \<Rightarrow>
                  if rest \<noteq> [] then None
                  else if negative then
                    (if v > nat (- (LLONG_MIN + 1)) + 1 then None else Some (- int v))
                  else if v > nat LLONG_MAX then None else Some (int v))
           else if c = CHR ''0'' \<and> length s = 1 then Some 0
           else None)"

text \<open>On the modelled machine \<open>long\<close> is 64 bits wide, like \<open>long long\<close>.\<close>

definition string2l :: "string \<Rightarrow> int option" where
  "string2l s =
    (case string2ll s of
       None \<Rightarrow> None
     | Some llval \<Rightarrow> if llval < LLONG_MIN \<or> llval > LLONG_MAX then None else Some llval)"

section \<open>The decimal representation, as a specification\<close>

fun dec_nat :: "nat \<Rightarrow> string" where
  "dec_nat n = (if n < 10 then [char_of (48 + n)] else dec_nat (n div 10) @ [char_of (48 + n mod 10)])"

declare dec_nat.simps [simp del]

definition dec_int :: "int \<Rightarrow> string" where
  "dec_int i = (if i < 0 then CHR ''-'' # dec_nat (nat (- i)) else dec_nat (nat i))"

lemma dec_nat_length: "n < 10 ^ Suc d \<Longrightarrow> 10 ^ d \<le> n \<or> d = 0 \<Longrightarrow> length (dec_nat n) = Suc d"
proof (induction d arbitrary: n)
  case 0
  then show ?case by (simp add: dec_nat.simps)
next
  case (Suc d)
  then have "n div 10 < 10 ^ Suc d" "10 ^ d \<le> n div 10" by (auto simp: less_mult_imp_div_less)
  moreover have "\<not> n < 10"
    using Suc.prems by (metis One_nat_def Suc_neq_Zero le_trans linorder_not_less one_le_numeral
        one_le_power power_Suc mult_le_mono2 mult_1_right power_increasing)
  ultimately show ?case using Suc.IH [of "n div 10"] by (subst dec_nat.simps) simp
qed

lemma dec_nat_length_bound: "n < 10 ^ Suc d \<Longrightarrow> length (dec_nat n) \<le> Suc d"
proof (induction d arbitrary: n)
  case (Suc d)
  then have "n div 10 < 10 ^ Suc d" by (auto simp: less_mult_imp_div_less)
  then show ?case using Suc.IH [of "n div 10"] by (subst dec_nat.simps) simp
qed (simp add: dec_nat.simps)

lemma dec_nat_length_div: "10 ^ k \<le> v \<Longrightarrow> length (dec_nat v) = k + length (dec_nat (v div 10 ^ k))"
proof (induction k)
  case 0
  then show ?case by simp
next
  case (Suc k)
  have "10 ^ k \<le> v" using Suc.prems by (rule le_trans [rotated]) simp
  moreover have "\<not> v div 10 ^ k < 10"
    using Suc.prems by (simp add: not_less less_eq_div_iff_mult_less_eq)
  ultimately show ?case
    using Suc.IH by (simp add: dec_nat.simps [of "v div 10 ^ k"] div_mult2_eq [symmetric] mult.commute)
qed

lemma digits10_correct: "digits10 v = length (dec_nat v)"
proof (induction v rule: digits10.induct)
  case (1 v)
  show ?case
  proof (cases "v < 1000000000000")
    case False
    then show ?thesis using 1 dec_nat_length_div [of 12 v]
      by (subst digits10.simps) simp
  next
    case True
    consider "v < 10" | "10 \<le> v \<and> v < 100" | "100 \<le> v \<and> v < 1000" | "1000 \<le> v \<and> v < 10000"
      | "10000 \<le> v \<and> v < 100000" | "100000 \<le> v \<and> v < 1000000" | "1000000 \<le> v \<and> v < 10000000"
      | "10000000 \<le> v \<and> v < 100000000" | "100000000 \<le> v \<and> v < 1000000000"
      | "1000000000 \<le> v \<and> v < 10000000000" | "10000000000 \<le> v \<and> v < 100000000000"
      | "100000000000 \<le> v" by linarith
    then show ?thesis
    proof cases
      case 1
      then show ?thesis using dec_nat_length [of v 0] True by (simp add: digits10.simps [of v])
    next
      case 2
      then show ?thesis using dec_nat_length [of v 1] True by (simp add: digits10.simps [of v])
    next
      case 3
      then show ?thesis using dec_nat_length [of v 2] True by (simp add: digits10.simps [of v])
    next
      case 4
      then show ?thesis using dec_nat_length [of v 3] True by (simp add: digits10.simps [of v])
    next
      case 5
      then show ?thesis using dec_nat_length [of v 4] True by (simp add: digits10.simps [of v])
    next
      case 6
      then show ?thesis using dec_nat_length [of v 5] True by (simp add: digits10.simps [of v])
    next
      case 7
      then show ?thesis using dec_nat_length [of v 6] True by (simp add: digits10.simps [of v])
    next
      case 8
      then show ?thesis using dec_nat_length [of v 7] True by (simp add: digits10.simps [of v])
    next
      case 9
      then show ?thesis using dec_nat_length [of v 8] True by (simp add: digits10.simps [of v])
    next
      case 10
      then show ?thesis using dec_nat_length [of v 9] True by (simp add: digits10.simps [of v])
    next
      case 11
      then show ?thesis using dec_nat_length [of v 10] True by (simp add: digits10.simps [of v])
    next
      case 12
      then show ?thesis using dec_nat_length [of v 11] True by (simp add: digits10.simps [of v])
    qed
  qed
qed

lemma dec_nat_not_Nil [simp]: "dec_nat n \<noteq> []"
  by (simp add: dec_nat.simps [of n])

lemma dec_nat_100: "100 \<le> n \<Longrightarrow>
  dec_nat n = dec_nat (n div 100) @ [char_of (48 + n mod 100 div 10), char_of (48 + n mod 10)]"
  by (subst dec_nat.simps, subst dec_nat.simps)
    (simp add: div_mult2_eq [symmetric] mod_mult2_eq [of n 10 10, simplified])

lemma digit_char: "d < 10 \<Longrightarrow> char_of (48 + d) = ''0123456789'' ! d"
proof -
  have "\<forall>d \<in> set [0..<10]. char_of (48 + d) = ''0123456789'' ! d" by code_simp
  then show "d < 10 \<Longrightarrow> char_of (48 + d) = ''0123456789'' ! d" by simp
qed

lemma digit_pairs_rows: "digit_pairs = concat (map (\<lambda>a. concat (map (\<lambda>b. [a, b]) ''0123456789'')) ''0123456789'')"
  by (simp add: digit_pairs_def)

lemma nth_concat_same:
  "\<forall>x \<in> set xs. length (f x) = n \<Longrightarrow> i < length xs \<Longrightarrow> k < n \<Longrightarrow> concat (map f xs) ! (i * n + k) = f (xs ! i) ! k"
proof (induction xs arbitrary: i)
  case (Cons x xs)
  then show ?case by (cases i) (auto simp: nth_append add.assoc)
qed simp

lemma digit_pairs_nth:
  assumes "j < 100"
  shows "digit_pairs ! (2 * j) = char_of (48 + j div 10)"
    and "digit_pairs ! (2 * j + 1) = char_of (48 + j mod 10)"
proof -
  let ?row = "\<lambda>a. concat (map (\<lambda>b. [a, b]) ''0123456789'')"
  have d: "j div 10 < 10" "j mod 10 < 10" using assms by auto
  have "digit_pairs ! (j div 10 * 20 + (j mod 10 * 2 + k)) = [''0123456789'' ! (j div 10), ''0123456789'' ! (j mod 10)] ! k"
    if "k < 2" for k
  proof -
    have "digit_pairs ! (j div 10 * 20 + (j mod 10 * 2 + k)) = ?row (''0123456789'' ! (j div 10)) ! (j mod 10 * 2 + k)"
      unfolding digit_pairs_rows using d that by (intro nth_concat_same) auto
    also have "\<dots> = [''0123456789'' ! (j div 10), ''0123456789'' ! (j mod 10)] ! k"
      using d that by (intro nth_concat_same) auto
    finally show ?thesis .
  qed
  note rows = this
  have j: "j div 10 * 20 + j mod 10 * 2 = 2 * j" by presburger
  from rows [of 0] rows [of 1] show "digit_pairs ! (2 * j) = char_of (48 + j div 10)"
    "digit_pairs ! (2 * j + 1) = char_of (48 + j mod 10)"
    using d by (simp_all add: j digit_char [OF d(1)] digit_char [OF d(2)])
qed

section \<open>Printing\<close>

definition ll_fill :: "nat \<Rightarrow> string \<Rightarrow> nat \<Rightarrow> string" where
  "ll_fill val dst nxt =
    (let (val, dst, nxt) = ll2string_loop val dst nxt in
     if val < 10 then dst[nxt := char_of (48 + val)]
     else dst[nxt := digit_pairs ! (val * 2 + 1), nxt - 1 := digit_pairs ! (val * 2)])"

lemma ll2string_fill:
  "ll2string dst i =
    (let len = digits10 (nat \<bar>i\<bar>) + (if i < 0 then 1 else 0) in
     if len \<ge> length dst then (0, dst)
     else let dst = ll_fill (nat \<bar>i\<bar>) (dst[len := CHR 0x00]) (len - 1)
          in (len, if i < 0 then dst[0 := CHR ''-''] else dst))"
  by (simp add: ll2string_def ll_fill_def Let_def split_beta)

lemma ll_fill_dec:
  "length ys = length (dec_nat val) \<Longrightarrow>
    ll_fill val (us @ ys @ vs) (length us + length ys - 1) = us @ dec_nat val @ vs"
proof (induction val arbitrary: ys vs rule: less_induct)
  case (less val)
  have two: "\<exists>ys' y1 y2. ys = ys' @ [y1, y2]" if "2 \<le> length ys"
  proof -
    from that obtain zs y2 where "ys = zs @ [y2]" by (cases ys rule: rev_cases) auto
    moreover from this that obtain ys' y1 where "zs = ys' @ [y1]" by (cases zs rule: rev_cases) auto
    ultimately show ?thesis by auto
  qed
  consider "val < 10" | "10 \<le> val" "val < 100" | "100 \<le> val" by linarith
  then show ?case
  proof cases
    case 1
    then obtain y where "ys = [y]" using less.prems
      by (auto simp: dec_nat.simps [of val] length_Suc_conv)
    then show ?thesis using 1
      by (simp add: ll_fill_def ll2string_loop.simps [of val] dec_nat.simps [of val])
  next
    case 2
    then have d: "dec_nat val = [char_of (48 + val div 10), char_of (48 + val mod 10)]"
      by (simp add: dec_nat.simps [of val] dec_nat.simps [of "val div 10"])
    then have "2 \<le> length ys" using less.prems by simp
    then obtain ys' y1 y2 where ys: "ys = ys' @ [y1, y2]" using two by blast
    then have "ys' = []" using less.prems d by simp
    then show ?thesis using 2 ys d digit_pairs_nth [of val]
      by (simp add: ll_fill_def ll2string_loop.simps [of val] list_update_append mult.commute)
  next
    case 3
    note d = dec_nat_100 [OF 3]
    then have "2 \<le> length ys" using less.prems by simp
    then obtain ys' y1 y2 where ys: "ys = ys' @ [y1, y2]" using two by blast
    then have len: "length ys' = length (dec_nat (val div 100))" using less.prems d by simp
    then have pos: "0 < length ys'" by simp
    let ?a = "char_of (48 + val mod 100 div 10) :: char"
    let ?b = "char_of (48 + val mod 10) :: char"
    have m: "val mod 100 mod 10 = val mod 10" by (simp add: mod_mod_cancel)
    have upd: "(us @ ys @ vs)[length us + length ys - 1 := ?b, length us + length ys - 1 - 1 := ?a]
        = us @ ys' @ ([?a, ?b] @ vs)"
      by (simp add: ys list_update_append)
    have "ll_fill val (us @ ys @ vs) (length us + length ys - 1) =
        ll_fill (val div 100) (us @ ys' @ ([?a, ?b] @ vs)) (length us + length ys' - 1)"
      using 3 digit_pairs_nth [of "val mod 100"] upd m
      by (simp add: ll_fill_def ll2string_loop.simps [of val] mult.commute Let_def ys)
    also have "\<dots> = us @ dec_nat (val div 100) @ ([?a, ?b] @ vs)"
      using 3 len by (intro less.IH) auto
    finally show ?thesis by (simp add: d)
  qed
qed

lemma dec_nat_1: "1 \<le> length (dec_nat n)"
  by (simp add: Suc_le_eq)

lemma ll2string_correct:
  "ll2string dst i =
    (if length dst \<le> length (dec_int i) then (0, dst)
     else (length (dec_int i), dec_int i @ CHR 0x00 # drop (Suc (length (dec_int i))) dst))"
proof -
  define v where "v = nat \<bar>i\<bar>"
  have len: "digits10 v + (if i < 0 then 1 else 0) = length (dec_int i)"
    by (auto simp: digits10_correct dec_int_def v_def)
  show ?thesis
  proof (cases "length dst \<le> length (dec_int i)")
    case True
    then show ?thesis using len by (simp add: ll2string_fill v_def [symmetric] Let_def)
  next
    case False
    let ?l = "length (dec_int i)"
    obtain xs y vs where dst: "dst = xs @ y # vs" "length xs = ?l"
      using False by (metis id_take_nth_drop length_take min.absorb2 not_le order_less_imp_le)
    have nul: "dst[?l := CHR 0x00] = xs @ CHR 0x00 # vs" using dst by (simp add: list_update_append)
    have lens: "length (dec_nat v) = digits10 v" by (simp add: digits10_correct)
    have "snd (ll2string dst i) = dec_int i @ CHR 0x00 # vs"
    proof (cases "i < 0")
      case neg: True
      then obtain x xs' where xs: "xs = x # xs'" using dst(2) by (cases xs) (auto simp: dec_int_def)
      have "length xs' = length (dec_nat v)" using len neg dst(2) xs lens by simp
      from ll_fill_dec [OF this, of "[x]" "CHR 0x00 # vs"]
      have "ll_fill v (xs @ CHR 0x00 # vs) (?l - 1) = x # dec_nat v @ CHR 0x00 # vs"
        using xs by (simp flip: dst(2))
      then show ?thesis using False neg len nul
        by (auto simp: ll2string_fill v_def [symmetric] dec_int_def) (auto simp: v_def)
    next
      case pos: False
      have "length xs = length (dec_nat v)" using len pos dst(2) lens by simp
      from ll_fill_dec [OF this, of "[]" "CHR 0x00 # vs"]
      have "ll_fill v (xs @ CHR 0x00 # vs) (?l - 1) = dec_nat v @ CHR 0x00 # vs"
        using dst(2) by simp
      then show ?thesis using False pos len nul
        by (auto simp: ll2string_fill v_def [symmetric] dec_int_def) (auto simp: v_def)
    qed
    moreover have "fst (ll2string dst i) = ?l"
      using False len by (simp add: ll2string_fill v_def [symmetric] Let_def)
    moreover have "drop (Suc ?l) dst = vs" using dst by simp
    ultimately show ?thesis using False by (simp add: prod_eq_iff)
  qed
qed

section \<open>Parsing\<close>

definition horner :: "nat \<Rightarrow> string \<Rightarrow> nat" where
  "horner v s = foldl (\<lambda>a c. a * 10 + digit_val c) v s"

lemma horner_simps [simp]:
  "horner v [] = v" "horner v (c # s) = horner (v * 10 + digit_val c) s"
  "horner v (s @ [c]) = horner v s * 10 + digit_val c"
  by (simp_all add: horner_def)

lemma horner_ge: "v \<le> horner v s"
proof (induction s arbitrary: v)
  case (Cons c s)
  have "v \<le> v * 10 + digit_val c" by simp
  also have "\<dots> \<le> horner v (c # s)" using Cons by simp
  finally show ?case .
qed simp

lemma is_digit_code: "is_digit c \<longleftrightarrow> 48 \<le> (of_char c :: nat) \<and> (of_char c :: nat) \<le> 57"
  by (simp add: is_digit_def less_eq_char_def)

lemma of_char_of_nat [simp]: "d < 256 \<Longrightarrow> (of_char (char_of (d :: nat)) :: nat) = d"
  by (simp add: of_char_of)

lemma is_digit_char_of [simp]: "(d :: nat) < 10 \<Longrightarrow> is_digit (char_of (48 + d))"
  unfolding is_digit_code by (subst (1 2) of_char_of_nat) simp_all

lemma digit_val_char_of [simp]: "(d :: nat) < 10 \<Longrightarrow> digit_val (char_of (48 + d)) = d"
  unfolding digit_val_def by (subst of_char_of_nat) simp_all

lemma char_of_digit_val: "is_digit c \<Longrightarrow> char_of (48 + digit_val c) = c"
  by (simp add: is_digit_code digit_val_def)

lemma digit_val_lt: "is_digit c \<Longrightarrow> digit_val c < 10"
  unfolding is_digit_code digit_val_def by arith

lemma string2ll_loop_iff:
  "v \<le> ULLONG_MAX \<Longrightarrow> string2ll_loop v s = Some (w, []) \<longleftrightarrow>
    (\<forall>c \<in> set s. is_digit c) \<and> w = horner v s \<and> w \<le> ULLONG_MAX"
proof (induction s arbitrary: v)
  case Nil
  then show ?case by auto
next
  case (Cons c s)
  have g: "(v > ULLONG_MAX div 10 \<or> v * 10 > ULLONG_MAX - digit_val c) \<longleftrightarrow>
      \<not> v * 10 + digit_val c \<le> ULLONG_MAX" if "is_digit c"
    using digit_val_lt [OF that] by auto
  show ?case
  proof (cases "is_digit c \<and> v * 10 + digit_val c \<le> ULLONG_MAX")
    case True
    then have "string2ll_loop v (c # s) = string2ll_loop (v * 10 + digit_val c) s"
      using g by simp
    then show ?thesis using Cons.IH [of "v * 10 + digit_val c"] True by simp
  next
    case False
    then have "string2ll_loop v (c # s) \<noteq> Some (w, [])" using g by auto
    moreover have "\<not> horner v (c # s) \<le> ULLONG_MAX" if "is_digit c"
      using that False horner_ge [of "v * 10 + digit_val c" s] by auto
    ultimately show ?thesis by auto
  qed
qed

lemma dec_nat_digits: "c \<in> set (dec_nat n) \<Longrightarrow> is_digit c"
proof (induction n rule: dec_nat.induct)
  case (1 n)
  then show ?case by (cases "n < 10") (auto simp: dec_nat.simps [of n])
qed

lemma horner_dec_nat: "horner 0 (dec_nat n) = n"
proof (induction n rule: dec_nat.induct)
  case (1 n)
  then show ?case by (cases "n < 10") (auto simp: dec_nat.simps [of n])
qed

lemma dec_nat_hd: "0 < n \<Longrightarrow> CHR ''1'' \<le> hd (dec_nat n) \<and> hd (dec_nat n) \<le> CHR ''9''"
proof (induction n rule: dec_nat.induct)
  case (1 n)
  then show ?case
    by (cases "n < 10") (auto simp: dec_nat.simps [of n] less_eq_char_def of_char_of div_greater_zero_iff)
qed

text \<open>A digit string that does not start with 0 is the decimal representation of its value.\<close>

lemma zero_char: "char_of (48 :: nat) = CHR ''0''"
  by code_simp

lemma dec_nat_horner:
  "s \<noteq> [] \<Longrightarrow> \<forall>c \<in> set s. is_digit c \<Longrightarrow> hd s \<noteq> CHR ''0'' \<Longrightarrow>
    dec_nat (horner 0 s) = s \<and> 0 < horner 0 s"
proof (induction s rule: rev_induct)
  case (snoc c s)
  show ?case
  proof (cases "s = []")
    case True
    have c: "is_digit c" "c \<noteq> CHR ''0''" using True snoc.prems by auto
    then have "digit_val c \<noteq> 0" using char_of_digit_val [of c] by (metis add_0_right zero_char)
    then have "0 < digit_val c" by simp
    then show ?thesis using True snoc.prems digit_val_lt [of c] char_of_digit_val [of c]
      by (simp add: dec_nat.simps [of "digit_val c"])
  next
    case False
    with snoc have IH: "dec_nat (horner 0 s) = s" "0 < horner 0 s" by auto
    have d: "is_digit c" "digit_val c < 10" using snoc.prems digit_val_lt by auto
    have "\<not> horner 0 s * 10 + digit_val c < 10" using IH(2) by simp
    moreover have "(horner 0 s * 10 + digit_val c) div 10 = horner 0 s"
      "(horner 0 s * 10 + digit_val c) mod 10 = digit_val c" using d(2) by simp_all
    ultimately show ?thesis using IH d
      by (subst dec_nat.simps) (simp add: char_of_digit_val)
  qed
qed simp

lemma hd_not_zero_iff: "CHR ''1'' \<le> c \<and> c \<le> CHR ''9'' \<longleftrightarrow> is_digit c \<and> c \<noteq> CHR ''0''"
  unfolding char_neq_code [of c "CHR ''0''"] is_digit_code less_eq_char_def by auto

lemma string2ll_digits:
  assumes c: "CHR ''1'' \<le> c \<and> c \<le> CHR ''9''" and v: "v \<le> ULLONG_MAX"
  shows "string2ll_loop (digit_val c) p = Some (v, []) \<longleftrightarrow> c # p = dec_nat v"
proof -
  have d: "is_digit c" "c \<noteq> CHR ''0''" using c hd_not_zero_iff by auto
  have le: "digit_val c \<le> ULLONG_MAX" using digit_val_lt [OF d(1)] by simp
  have hor: "horner (digit_val c) p = horner 0 (c # p)" by simp
  have "string2ll_loop (digit_val c) p = Some (v, []) \<longleftrightarrow>
      (\<forall>x \<in> set (c # p). is_digit x) \<and> v = horner 0 (c # p)"
    unfolding string2ll_loop_iff [OF le] using d v by auto
  also have "\<dots> \<longleftrightarrow> c # p = dec_nat v"
  proof
    assume "(\<forall>x \<in> set (c # p). is_digit x) \<and> v = horner 0 (c # p)"
    then show "c # p = dec_nat v" using dec_nat_horner [of "c # p"] d by simp
  next
    assume "c # p = dec_nat v"
    then show "(\<forall>x \<in> set (c # p). is_digit x) \<and> v = horner 0 (c # p)"
      using dec_nat_digits [of _ v] horner_dec_nat [of v] by metis
  qed
  finally show ?thesis .
qed

text \<open>The checks after the first digit, for both signs at once.\<close>

lemma string2ll_tail:
  assumes c: "CHR ''1'' \<le> c \<and> c \<le> CHR ''9''" and M: "M \<le> ULLONG_MAX"
  shows "(case string2ll_loop (digit_val c) p of None \<Rightarrow> None
      | Some (v, rest) \<Rightarrow> if rest \<noteq> [] then None else if v > M then None else Some (f v :: int)) = Some n
    \<longleftrightarrow> (\<exists>v \<le> M. c # p = dec_nat v \<and> n = f v)"
proof -
  have "?thesis \<longleftrightarrow> ((\<exists>v \<le> M. string2ll_loop (digit_val c) p = Some (v, []) \<and> n = f v) \<longleftrightarrow>
      (\<exists>v \<le> M. c # p = dec_nat v \<and> n = f v))"
    by (cases "string2ll_loop (digit_val c) p") (auto split: if_splits)
  moreover have "string2ll_loop (digit_val c) p = Some (v, []) \<longleftrightarrow> c # p = dec_nat v" if "v \<le> M" for v
    using string2ll_digits [OF c] that M by simp
  ultimately show ?thesis by blast
qed

lemma dec_nat_zero [simp]: "dec_nat 0 = [CHR ''0'']"
  by (simp add: dec_nat.simps zero_char)

lemma dec_nat_minus: "dec_nat v \<noteq> CHR ''-'' # s"
  using dec_nat_digits [of "CHR ''-''" v] by (auto simp: is_digit_code)

lemma dec_nat_obtain: obtains c q where "dec_nat v = c # q"
  using dec_nat_not_Nil [of v] by (cases "dec_nat v") auto

lemma dec_nat_hd_zero: "dec_nat v = c # p \<Longrightarrow> \<not> (CHR ''1'' \<le> c \<and> c \<le> CHR ''9'') \<Longrightarrow> v = 0"
  using dec_nat_hd [of v] by (cases "v = 0") auto

lemma string2ll_dash:
  "string2ll (CHR ''-'' # p) = Some n \<longleftrightarrow> (\<exists>v \<le> 2 ^ 63. p = dec_nat v \<and> 0 < v \<and> n = - int v)"
proof (cases "\<exists>c q. p = c # q \<and> CHR ''1'' \<le> c \<and> c \<le> CHR ''9''")
  case True
  then obtain c q where p: "p = c # q" "CHR ''1'' \<le> c \<and> c \<le> CHR ''9''" by blast
  have "0 < v" if "p = dec_nat v" for v using that p by (cases "v = 0") (auto simp: less_eq_char_def)
  have M: "(2 ^ 63 :: nat) = 9223372036854775808" by simp
  have e: "string2ll (CHR ''-'' # p) =
      (case string2ll_loop (digit_val c) q of None \<Rightarrow> None
       | Some (v, rest) \<Rightarrow> if rest \<noteq> [] then None
           else if v > 9223372036854775808 then None else Some (- int v))"
    using p(2) by (cases "string2ll_loop (digit_val c) q") (simp_all add: string2ll_def p(1) split_beta)
  have "string2ll (CHR ''-'' # p) = Some n \<longleftrightarrow> (\<exists>v \<le> 2 ^ 63. p = dec_nat v \<and> n = - int v)"
    unfolding e M unfolding p(1) by (rule string2ll_tail [OF p(2)]) simp
  then show ?thesis using \<open>\<And>v. p = dec_nat v \<Longrightarrow> 0 < v\<close> by blast
next
  case False
  then have "string2ll (CHR ''-'' # p) = None" by (auto simp: string2ll_def split: list.splits)
  moreover have "v = 0" if "p = dec_nat v" for v
  proof -
    obtain c q where "dec_nat v = c # q" by (rule dec_nat_obtain)
    then show ?thesis using that False dec_nat_hd_zero [of v c q] by auto
  qed
  ultimately show ?thesis by auto
qed

lemma string2ll_nodash:
  assumes "s = [] \<or> hd s \<noteq> CHR ''-''"
  shows "string2ll s = Some n \<longleftrightarrow> (\<exists>v \<le> 2 ^ 63 - 1. s = dec_nat v \<and> n = int v)"
proof (cases "\<exists>c q. s = c # q \<and> CHR ''1'' \<le> c \<and> c \<le> CHR ''9''")
  case True
  then obtain c q where s: "s = c # q" "CHR ''1'' \<le> c \<and> c \<le> CHR ''9''" by blast
  then have "c \<noteq> CHR ''0''" using hd_not_zero_iff by auto
  have M: "(2 ^ 63 - 1 :: nat) = 9223372036854775807" by simp
  have e: "string2ll s =
      (case string2ll_loop (digit_val c) q of None \<Rightarrow> None
       | Some (v, rest) \<Rightarrow> if rest \<noteq> [] then None
           else if v > 9223372036854775807 then None else Some (int v))"
    using s assms \<open>c \<noteq> CHR ''0''\<close>
    by (cases "string2ll_loop (digit_val c) q") (simp_all add: string2ll_def split_beta)
  show ?thesis
    unfolding e M unfolding s(1) by (rule string2ll_tail [OF s(2)]) simp
next
  case False
  have z: "v = 0" if "s = dec_nat v" for v
  proof -
    obtain c q where "dec_nat v = c # q" by (rule dec_nat_obtain)
    then show ?thesis using that False dec_nat_hd_zero [of v c q] by auto
  qed
  have "string2ll s = (if s = ''0'' then Some 0 else None)"
  proof (cases s)
    case (Cons c q)
    then have "\<not> (CHR ''1'' \<le> c \<and> c \<le> CHR ''9'')" "c \<noteq> CHR ''-''" using False assms by auto
    then show ?thesis by (auto simp: string2ll_def Cons)
  qed (simp add: string2ll_def)
  moreover have "(\<exists>v \<le> 2 ^ 63 - 1. s = dec_nat v \<and> n = int v) \<longleftrightarrow> s = ''0'' \<and> n = 0"
  proof
    assume "\<exists>v \<le> 2 ^ 63 - 1. s = dec_nat v \<and> n = int v"
    then obtain v where v: "s = dec_nat v" "n = int v" by blast
    with z have "v = 0" by blast
    with v show "s = ''0'' \<and> n = 0" by simp
  qed (auto intro!: exI [of _ 0])
  ultimately show ?thesis by auto
qed

lemma string2ll_iff:
  "string2ll s = Some n \<longleftrightarrow> s = dec_int n \<and> LLONG_MIN \<le> n \<and> n \<le> LLONG_MAX"
proof (cases "s \<noteq> [] \<and> hd s = CHR ''-''")
  case True
  then obtain p where s: "s = CHR ''-'' # p" by (cases s) auto
  have "(\<exists>v \<le> 2 ^ 63. p = dec_nat v \<and> 0 < v \<and> n = - int v) \<longleftrightarrow>
      n < 0 \<and> p = dec_nat (nat (- n)) \<and> LLONG_MIN \<le> n"
    by (auto intro!: exI [of _ "nat (- n)"])
  then show ?thesis unfolding s string2ll_dash dec_int_def
    using dec_nat_minus [of "nat n" p] by auto
next
  case False
  then have "(\<exists>v \<le> 2 ^ 63 - 1. s = dec_nat v \<and> n = int v) \<longleftrightarrow>
      0 \<le> n \<and> s = dec_nat (nat n) \<and> n \<le> LLONG_MAX"
    by (auto intro!: exI [of _ "nat n"])
  then show ?thesis using False string2ll_nodash [of s n] unfolding dec_int_def by auto
qed

lemma string2l_eq [simp]: "string2l s = string2ll s"
proof (cases "string2ll s")
  case (Some n)
  then show ?thesis using string2ll_iff [of s n] by (simp add: string2l_def)
qed (simp add: string2l_def)

section \<open>Properties\<close>

text \<open>(C14) \<open>string2ll\<close> accepts exactly the canonical decimal representations of the 64 bit signed
  integers and returns their value: no leading zeros or plus sign, no \<open>-0\<close>, no spaces, nothing out of
  range.\<close>

theorem string2ll_spec:
  "string2ll s = Some n \<longleftrightarrow> s = dec_int n \<and> LLONG_MIN \<le> n \<and> n \<le> LLONG_MAX"
  by (rule string2ll_iff)

lemma dec_int_length: "LLONG_MIN \<le> n \<Longrightarrow> n \<le> LLONG_MAX \<Longrightarrow> length (dec_int n) \<le> 20"
proof -
  assume n: "LLONG_MIN \<le> n" "n \<le> LLONG_MAX"
  have "length (dec_nat v) \<le> 19" if "v < 10 ^ 19" for v
    using that dec_nat_length_bound [of v 18] by simp
  moreover have "nat (- n) < 10 ^ 19" "nat n < 10 ^ 19" using n by auto
  ultimately have "length (dec_nat (nat (- n))) \<le> 19" "length (dec_nat (nat n)) \<le> 19" by blast+
  then show ?thesis by (simp add: dec_int_def)
qed

text \<open>(C15) Printing a 64 bit integer into a buffer of at least 21 bytes (\<open>LONG_STR_SIZE\<close>) writes its
  digits and the terminator inside the buffer, leaves the rest of the buffer alone, and \<open>string2l\<close> reads
  the number back.\<close>

theorem ll2string_roundtrip:
  assumes "LLONG_MIN \<le> n" and "n \<le> LLONG_MAX" and "21 \<le> length buf"
  shows "\<exists>len. ll2string buf n = (len, dec_int n @ CHR 0x00 # drop (Suc len) buf) \<and>
    len \<le> 20 \<and> string2l (take len (snd (ll2string buf n))) = Some n"
  using assms dec_int_length [OF assms(1,2)] string2ll_iff [of "dec_int n" n]
  by (intro exI [of _ "length (dec_int n)"]) (simp add: ll2string_correct)

theorem ll2string_roundtrip_witness:
  "\<exists>len. len \<le> 20 \<and> string2l (take len (snd (ll2string (replicate 21 CHR ''x'') (- 9223372036854775808))))
    = Some (- 9223372036854775808)"
  using ll2string_roundtrip [of "- 9223372036854775808" "replicate 21 CHR ''x''"] by auto

end
