(* ===== verification/Glob.thy ===== *)
theory Glob
  imports Prelude "HOL-Library.Char_ord"
begin

text \<open>
  \<^verbatim>\<open>src/redis-3.0.3/src/util.c\<close>: glob matching (\<open>stringmatchlen\<close>), used by KEYS, SCAN, PSUBSCRIBE and
  CONFIG GET.  The two pointers are positions \<open>p\<close> and \<open>q\<close> in the NUL terminated buffers, so the C
  variables \<open>patternLen\<close> and \<open>stringLen\<close> are \<open>length pat - p\<close> and \<open>length s - q\<close>; a read past a
  terminator is the fault \<open>None\<close>.
\<close>

section \<open>The code\<close>

definition peek :: "string \<Rightarrow> nat \<Rightarrow> char option" where
  "peek s i = (if i < length s then Some (s ! i) else if i = length s then Some (CHR 0x00) else None)"

text \<open>\<open>char\<close> is signed; \<open>tolower\<close> in the C locale changes the 26 capital letters only.\<close>

definition schar :: "char \<Rightarrow> int" where
  "schar c = (let n = of_char c :: nat in if n < 128 then int n else int n - 256)"

definition tolower :: "int \<Rightarrow> int" where
  "tolower c = (if 65 \<le> c \<and> c \<le> 90 then c + 32 else c)"

definition char_eq :: "bool \<Rightarrow> char \<Rightarrow> char \<Rightarrow> bool" where
  "char_eq nocase a b = (if \<not> nocase then a = b else tolower (schar a) = tolower (schar b))"

definition in_range :: "bool \<Rightarrow> char \<Rightarrow> char \<Rightarrow> char \<Rightarrow> bool" where
  "in_range nocase a b x =
    (let start = schar a; end = schar b; c = schar x;
         (start, end) = (if start > end then (end, start) else (start, end));
         (start, end, c) = (if nocase then (tolower start, tolower end, tolower c) else (start, end, c))
     in c \<ge> start \<and> c \<le> end)"

text \<open>\<open>while (pattern[0] == '*')\<close>, as in the two star-skipping loops.\<close>

function skip_stars :: "string \<Rightarrow> nat \<Rightarrow> nat option" where
  "skip_stars pat p =
    (case peek pat p of
       None \<Rightarrow> None
     | Some c \<Rightarrow> if c = CHR ''*'' then skip_stars pat (Suc p) else Some p)"
  by pat_completeness auto
termination by (relation "measure (\<lambda>(pat, p). Suc (length pat) - p)") (auto simp: peek_def split: if_splits)

declare skip_stars.simps [simp del]

text \<open>The loop over a \<open>[...]\<close> class, for the string character \<open>x\<close>: the position of the closing bracket
  (or of the last pattern character when there is none) and whether an item matched.\<close>

function class_loop :: "bool \<Rightarrow> string \<Rightarrow> char option \<Rightarrow> nat \<Rightarrow> bool \<Rightarrow> (nat \<times> bool) option" where
  "class_loop nocase pat x p mtch =
    (case peek pat p of
       None \<Rightarrow> None
     | Some c \<Rightarrow>
         if c = CHR 0x5C then
           (case (peek pat (p + 1), x) of
              (Some d, Some x) \<Rightarrow> class_loop nocase pat (Some x) (p + 2) (mtch \<or> d = x)
            | _ \<Rightarrow> None)
         else if c = CHR '']'' then Some (p, mtch)
         else if p = length pat then Some (p - 1, mtch)
         else
           (case (peek pat (p + 1), x) of
              (Some d, Some x) \<Rightarrow>
                if d = CHR ''-'' \<and> p + 3 \<le> length pat
                then class_loop nocase pat (Some x) (p + 3) (mtch \<or> in_range nocase c (pat ! (p + 2)) x)
                else class_loop nocase pat (Some x) (p + 1) (mtch \<or> char_eq nocase c x)
            | _ \<Rightarrow> None))"
  by pat_completeness auto
termination by (relation "measure (\<lambda>(nocase, pat, x, p, mtch). Suc (length pat) - p)")
    (auto simp: peek_def split: if_splits)

declare class_loop.simps [simp del]

lemma skip_stars_ge: "skip_stars pat p = Some p' \<Longrightarrow> p \<le> p' \<and> p' \<le> length pat"
proof (induction pat p rule: skip_stars.induct)
  case (1 pat p)
  show ?case using "1.prems" "1.IH"
    by (subst (asm) skip_stars.simps) (fastforce simp: peek_def split: if_splits option.splits)
qed

lemma class_loop_ge: "class_loop nocase pat x p mtch = Some (p', m) \<Longrightarrow> p \<le> Suc p' \<and> p' \<le> length pat"
proof (induction nocase pat x p mtch rule: class_loop.induct)
  case (1 nocase pat x p mtch)
  show ?case using "1.prems" "1.IH"
    by (subst (asm) class_loop.simps) (fastforce simp: peek_def split: if_splits option.splits)
qed

text \<open>The main loop; the loop that tries the rest of the pattern after a star at every suffix (a
  negative \<open>stringLen\<close> is never 0 again, so that loop runs out of the string); and the common end of a
  round.\<close>

function stringmatch_at :: "bool \<Rightarrow> string \<Rightarrow> string \<Rightarrow> nat \<Rightarrow> nat \<Rightarrow> bool option"
  and star_loop :: "bool \<Rightarrow> string \<Rightarrow> string \<Rightarrow> nat \<Rightarrow> nat \<Rightarrow> bool option"
  and stringmatch_next :: "bool \<Rightarrow> string \<Rightarrow> string \<Rightarrow> nat \<Rightarrow> nat \<Rightarrow> bool option"
where
  "stringmatch_at nocase pat s p q =
    (if p = length pat then Some (q = length s)
     else case peek pat p of
       None \<Rightarrow> None
     | Some c \<Rightarrow>
         if c = CHR ''*'' then
           (case skip_stars pat (p + 1) of
              None \<Rightarrow> None
            | Some p' \<Rightarrow> if p' = length pat then Some True else star_loop nocase pat s p' q)
         else if c = CHR ''?'' then
           (if q = length s then Some False else stringmatch_next nocase pat s p (q + 1))
         else if c = CHR ''['' then
           (case peek pat (p + 1) of
              None \<Rightarrow> None
            | Some d \<Rightarrow>
                (let neg = (d = CHR ''^'') in
                 case class_loop nocase pat (peek s q) (if neg then p + 2 else p + 1) False of
                   None \<Rightarrow> None
                 | Some (p', mtch) \<Rightarrow>
                     if mtch \<noteq> neg then stringmatch_next nocase pat s p' (q + 1) else Some False))
         else
           (let p' = (if c = CHR 0x5C \<and> p + 2 \<le> length pat then p + 1 else p) in
            case (peek pat p', peek s q) of
              (Some c, Some x) \<Rightarrow>
                if char_eq nocase c x then stringmatch_next nocase pat s p' (q + 1) else Some False
            | _ \<Rightarrow> None))"
| "star_loop nocase pat s p q =
    (if q = length s then Some False
     else if q > length s then None
     else case stringmatch_at nocase pat s p q of
       None \<Rightarrow> None
     | Some True \<Rightarrow> Some True
     | Some False \<Rightarrow> star_loop nocase pat s p (q + 1))"
| "stringmatch_next nocase pat s p q =
    (if q = length s then
       (case skip_stars pat (p + 1) of None \<Rightarrow> None | Some p' \<Rightarrow> Some (p' = length pat))
     else stringmatch_at nocase pat s (p + 1) q)"
  by pat_completeness auto
termination
  by (relation "inv_image (less_than <*lex*> less_than)
      (\<lambda>x. case x of
         Inl (nc, pat, s, p, q) \<Rightarrow> (3 * (Suc (length pat) - p), 0)
       | Inr (Inl (nc, pat, s, p, q)) \<Rightarrow> (3 * (Suc (length pat) - p) + 1, length s - q)
       | Inr (Inr (nc, pat, s, p, q)) \<Rightarrow> (3 * (Suc (length pat) - Suc p) + 1, 0))")
    (auto dest: skip_stars_ge class_loop_ge simp: peek_def split: if_splits)

declare stringmatch_at.simps [simp del] star_loop.simps [simp del] stringmatch_next.simps [simp del]

definition stringmatchlen :: "string \<Rightarrow> string \<Rightarrow> bool \<Rightarrow> bool option" where
  "stringmatchlen pat s nocase = stringmatch_at nocase pat s 0 0"

section \<open>Specification\<close>

text \<open>Patterns without classes: stars, question marks, plain characters and escaped characters.\<close>

datatype glob_item = Star | Any | Lit char | Esc char

fun item_string :: "glob_item \<Rightarrow> string" where
  "item_string Star = ''*''"
| "item_string Any = ''?''"
| "item_string (Lit c) = [c]"
| "item_string (Esc c) = [CHR 0x5C, c]"

fun item_ok :: "glob_item \<Rightarrow> bool" where
  "item_ok (Lit c) \<longleftrightarrow> c \<notin> set ''*?['' \<and> c \<noteq> CHR 0x5C \<and> c \<noteq> CHR 0x00"
| "item_ok (Esc c) \<longleftrightarrow> c \<noteq> CHR 0x00"
| "item_ok _ \<longleftrightarrow> True"

fun glob :: "bool \<Rightarrow> glob_item list \<Rightarrow> string \<Rightarrow> bool" where
  "glob nocase [] s \<longleftrightarrow> s = []"
| "glob nocase (Star # g) s \<longleftrightarrow> (\<exists>n \<le> length s. glob nocase g (drop n s))"
| "glob nocase (Any # g) s \<longleftrightarrow> s \<noteq> [] \<and> glob nocase g (tl s)"
| "glob nocase (Lit c # g) s \<longleftrightarrow> s \<noteq> [] \<and> char_eq nocase c (hd s) \<and> glob nocase g (tl s)"
| "glob nocase (Esc c # g) s \<longleftrightarrow> s \<noteq> [] \<and> char_eq nocase c (hd s) \<and> glob nocase g (tl s)"

abbreviation pat_of :: "glob_item list \<Rightarrow> string" where "pat_of g \<equiv> concat (map item_string g)"

section \<open>Correctness\<close>

lemma peek_nth [simp]: "peek (pre @ c # post) (length pre) = Some c"
  by (simp add: peek_def)

lemma peek_nth_Suc [simp]: "peek (pre @ c # d # post) (Suc (length pre)) = Some d"
  using peek_nth [of "pre @ [c]" d post] by simp

lemma peek_end [simp]: "peek s (length s) = Some (CHR 0x00)"
  by (simp add: peek_def)

lemma tolower_zero [simp]: "tolower (schar c) = 0 \<longleftrightarrow> c = CHR 0x00"
proof -
  have "(of_char c :: nat) mod 256 = of_char c" by (rule of_char_mod_256)
  then have "(of_char c :: nat) \<noteq> 256" by (metis mod_self zero_neq_numeral)
  moreover have "c = CHR 0x00 \<longleftrightarrow> (of_char c :: nat) = 0"
    using char_neq_code [of c "CHR 0x00"] by auto
  ultimately show ?thesis by (auto simp: tolower_def schar_def Let_def)
qed

lemma char_eq_nul: "char_eq nocase c (CHR 0x00) \<longleftrightarrow> c = CHR 0x00"
proof -
  have "tolower (schar (CHR 0x00)) = 0" by (simp only: tolower_zero)
  then show ?thesis unfolding char_eq_def by (simp del: tolower_zero) simp
qed

lemma skip_stars_replicate:
  assumes "g = [] \<or> hd g \<noteq> Star" "\<forall>i \<in> set g. item_ok i"
  shows "skip_stars (pre @ replicate k (CHR ''*'') @ pat_of g) (length pre) = Some (length pre + k)"
proof (induction k arbitrary: pre)
  case 0
  have "peek (pre @ pat_of g) (length pre) \<noteq> Some (CHR ''*'')"
    "peek (pre @ pat_of g) (length pre) \<noteq> None"
    using assms by (cases g; cases "hd g"; simp add: peek_def)+
  then show ?case by (subst skip_stars.simps) (auto split: option.splits)
next
  case (Suc k)
  show ?case using Suc.IH [of "pre @ ''*''"] by (subst skip_stars.simps) simp
qed

lemma glob_Nil: "glob nocase g [] \<longleftrightarrow> (\<forall>i \<in> set g. i = Star)"
  by (induction nocase g "[] :: string" rule: glob.induct) auto

lemma glob_stars: "glob nocase (Star # replicate k Star @ g) s \<longleftrightarrow> glob nocase (Star # g) s"
proof (induction k arbitrary: s)
  case (Suc k)
  have "glob nocase (Star # replicate (Suc k) Star @ g) s \<longleftrightarrow>
      (\<exists>n \<le> length s. glob nocase (Star # g) (drop n s))"
    unfolding replicate_Suc append_Cons glob.simps(2) [of nocase "Star # xs" for xs] Suc.IH ..
  also have "\<dots> \<longleftrightarrow> glob nocase (Star # g) s"
  proof
    assume "\<exists>n \<le> length s. glob nocase (Star # g) (drop n s)"
    then obtain n m where "n \<le> length s" "m \<le> length s - n" "glob nocase g (drop (m + n) s)" by auto
    then show "glob nocase (Star # g) s" by (auto intro: exI [of _ "m + n"])
  next
    assume "glob nocase (Star # g) s"
    then show "\<exists>n \<le> length s. glob nocase (Star # g) (drop n s)" by (intro exI [of _ 0]) simp
  qed
  finally show ?case .
qed simp

lemma glob_star_step:
  "glob nocase (Star # g) s \<longleftrightarrow> glob nocase g s \<or> s \<noteq> [] \<and> glob nocase (Star # g) (tl s)"
proof (cases s)
  case (Cons c t)
  have "(\<exists>n \<le> Suc (length t). P n) \<longleftrightarrow> P 0 \<or> (\<exists>n \<le> length t. P (Suc n))" for P
    by (metis Suc_le_mono le0 not0_implies_Suc)
  then show ?thesis using Cons by simp
qed simp

lemma star_loop_correct:
  assumes "\<And>q. q \<le> length s \<Longrightarrow> stringmatch_at nocase pat s p q = Some (glob nocase g (drop q s))"
    and "q \<le> length s" "\<not> (\<forall>i \<in> set g. i = Star)"
  shows "star_loop nocase pat s p q = Some (glob nocase (Star # g) (drop q s))"
  using assms(2)
proof (induction "length s - q" arbitrary: q)
  case 0
  then show ?case using assms(3) by (subst star_loop.simps) (simp add: glob_Nil del: glob.simps(2) glob_Nil, simp add: glob_Nil)
next
  case (Suc k)
  then have q: "q < length s" by simp
  have "star_loop nocase pat s p (q + 1) = Some (glob nocase (Star # g) (drop (q + 1) s))"
    using Suc q by simp
  moreover have "glob nocase (Star # g) (drop q s) \<longleftrightarrow>
      glob nocase g (drop q s) \<or> glob nocase (Star # g) (drop (q + 1) s)"
    using q glob_star_step [of nocase g "drop q s"] by (simp del: glob.simps(2) add: tl_drop drop_Suc)
  ultimately show ?case using q assms(1) [of q] by (subst star_loop.simps) (auto split: bool.splits)
qed

lemma split_stars:
  obtains k h where "g = replicate k Star @ h" "h = [] \<or> hd h \<noteq> Star"
proof (induction g arbitrary: thesis)
  case (Cons i g)
  show ?case
  proof (cases "i = Star")
    case True
    obtain k h where "g = replicate k Star @ h" "h = [] \<or> hd h \<noteq> Star" by (rule Cons.IH)
    then show ?thesis using True Cons.prems [of "Suc k" h] by simp
  next
    case False
    then show ?thesis using Cons.prems [of 0 "i # g"] by simp
  qed
qed simp

lemma pat_of_stars [simp]: "pat_of (replicate k Star) = replicate k (CHR ''*'')"
  by (induction k) auto

lemma pat_of_Nil: "\<forall>i \<in> set g. item_ok i \<Longrightarrow> pat_of g = [] \<longleftrightarrow> g = []"
  by (cases g; cases "hd g") auto

text \<open>The end of a round, given the rest of the pattern.\<close>

lemma stringmatch_next_correct:
  assumes at: "\<And>q. q \<le> length s \<Longrightarrow>
      stringmatch_at nocase (pre @ pat_of g) s (length pre) q = Some (glob nocase g (drop q s))"
    and ok: "\<forall>i \<in> set g. item_ok i" and q: "q \<le> length s" and p: "Suc p = length pre"
  shows "stringmatch_next nocase (pre @ pat_of g) s p q = Some (glob nocase g (drop q s))"
proof (cases "q = length s")
  case True
  obtain k h where g: "g = replicate k Star @ h" "h = [] \<or> hd h \<noteq> Star" by (rule split_stars)
  have "skip_stars (pre @ pat_of g) (p + 1) = Some (length pre + k)"
    using skip_stars_replicate [of h pre k] g ok p by simp
  moreover have "pat_of h = [] \<longleftrightarrow> (\<forall>i \<in> set g. i = Star)"
    using g ok pat_of_Nil [of h] by (cases h) auto
  ultimately show ?thesis using True g(1)
    by (subst stringmatch_next.simps) (auto simp: glob_Nil)
next
  case False
  then show ?thesis using q p at [of q] by (subst stringmatch_next.simps) simp
qed

lemma peek_at: "q \<le> length s \<Longrightarrow> peek s q = Some (if q < length s then s ! q else CHR 0x00)"
  by (auto simp: peek_def)

lemma stringmatch_at_correct:
  "\<forall>i \<in> set g. item_ok i \<Longrightarrow> q \<le> length s \<Longrightarrow>
    stringmatch_at nocase (pre @ pat_of g) s (length pre) q = Some (glob nocase g (drop q s))"
proof (induction "length g" arbitrary: g pre q rule: less_induct)
  case less
  show ?case
  proof (cases g)
    case Nil
    then show ?thesis using less.prems by (subst stringmatch_at.simps) auto
  next
    case g: (Cons i g')
    have next': "stringmatch_next nocase (pre' @ pat_of g') s p q' = Some (glob nocase g' (drop q' s))"
      if "Suc p = length pre'" "q' \<le> length s" for pre' p q'
      using less that g by (intro stringmatch_next_correct) auto
    have tl: "drop q s \<noteq> [] \<and> tl (drop q s) = drop (q + 1) s \<and> hd (drop q s) = s ! q"
      if "q < length s" using that by (simp add: tl_drop drop_Suc hd_drop_conv_nth)
    show ?thesis
    proof (cases i)
      case Any
      show ?thesis
        using less.prems next' [of "length pre" "pre @ ''?''" "q + 1"] tl
        by (subst stringmatch_at.simps) (auto simp: g Any)
    next
      case (Lit c)
      then have ok: "c \<notin> set ''*?[''" "c \<noteq> CHR 0x5C" "c \<noteq> CHR 0x00" using less.prems g by auto
      show ?thesis
        using ok less.prems next' [of "length pre" "pre @ [c]" "q + 1"] tl peek_at [of q s]
        by (subst stringmatch_at.simps) (auto simp: g Lit char_eq_nul)
    next
      case (Esc c)
      then have ok: "c \<noteq> CHR 0x00" using less.prems g by auto
      show ?thesis
        using ok less.prems next' [of "Suc (length pre)" "pre @ [CHR 0x5C, c]" "q + 1"] tl peek_at [of q s]
        by (subst stringmatch_at.simps) (auto simp: g Esc char_eq_nul)
    next
      case Star
      obtain k h where g': "g' = replicate k Star @ h" "h = [] \<or> hd h \<noteq> Star" by (rule split_stars)
      have pat: "pre @ pat_of g = (pre @ replicate (Suc k) (CHR ''*'')) @ pat_of h"
        by (simp add: g g' Star)
      have skip: "skip_stars (pre @ pat_of g) (length pre + 1) = Some (length pre + 1 + k)"
        using skip_stars_replicate [of h "pre @ ''*''" k] g' less.prems g Star by simp
      have spec: "glob nocase g s' \<longleftrightarrow> glob nocase (Star # h) s'" for s'
        unfolding g Star g'(1) by (rule glob_stars)
      show ?thesis
      proof (cases "h = []")
        case True
        then have "glob nocase g (drop q s)" unfolding spec by auto
        then show ?thesis using skip True
          by (subst stringmatch_at.simps) (simp add: g g' Star del: glob.simps(2))
      next
        case False
        have ok: "\<forall>i \<in> set h. item_ok i" using less.prems g g' by auto
        have star: "star_loop nocase (pre @ pat_of g) s (length pre + 1 + k) q =
            Some (glob nocase (Star # h) (drop q s))"
          using less.hyps [of h _ "pre @ replicate (Suc k) (CHR ''*'')"] False g'(2) less.prems(2) ok
          unfolding pat by (intro star_loop_correct) (auto simp: g g'(1) neq_Nil_conv)
        have "pat_of h \<noteq> []" using False pat_of_Nil [OF ok] by simp
        then have "length pre + 1 + k \<noteq> length (pre @ pat_of g)" unfolding pat by simp
        moreover have "peek (pre @ pat_of g) (length pre) = Some (CHR ''*'')" by (simp add: g Star)
        moreover have "length pre \<noteq> length (pre @ pat_of g)" by (simp add: g Star)
        ultimately show ?thesis unfolding spec
          by (subst stringmatch_at.simps) (simp only: skip star option.case if_True if_False simp_thms)
      qed
    qed
  qed
qed

section \<open>Properties\<close>

text \<open>(C16) On every pattern of stars, question marks, plain and escaped non-NUL characters, and every
  string, \<open>stringmatchlen\<close> terminates, reads neither buffer past its terminator, and answers exactly
  whether the string matches, where a star stands for any substring.\<close>

theorem stringmatchlen_spec:
  assumes "\<forall>i \<in> set g. item_ok i"
  shows "stringmatchlen (pat_of g) s nocase = Some (glob nocase g s)"
  using stringmatch_at_correct [of g 0 s nocase "[]"] assms by (simp add: stringmatchlen_def)

theorem stringmatchlen_spec_witness:
  "stringmatchlen ''*l?'' ''hello'' False = Some (glob False [Star, Lit CHR ''l'', Any] ''hello'') \<and>
    glob False [Star, Lit CHR ''l'', Any] ''hello''"
proof -
  have "stringmatchlen ''*l?'' ''hello'' False = Some (glob False [Star, Lit CHR ''l'', Any] ''hello'')"
    using stringmatchlen_spec [of "[Star, Lit CHR ''l'', Any]" "''hello''" False] by simp
  moreover have "glob False [Star, Lit CHR ''l'', Any] ''hello''"
    by (auto simp: char_eq_def intro!: exI [of _ 3])
  ultimately show ?thesis by blast
qed






end
