(* ===== verification/Adlist.thy ===== *)
theory Adlist
  imports Prelude
begin

text \<open>
  The doubly linked list of \<^verbatim>\<open>src/redis-3.0.3/src/adlist.c\<close>, over an explicit store of nodes: a pointer is
  an address or NULL (\<open>None\<close>), and dereferencing NULL or a freed node is a fault.  \<open>alloc\<close> stands for
  \<open>zmalloc\<close>, which returns an unused address and aborts the server when memory runs out, so the NULL checks
  after it are never taken.
\<close>

section \<open>Data\<close>

type_synonym ptr = "nat option"

record 'v listNode =
  prev_of :: ptr
  next_of :: ptr
  value_of :: 'v

type_synonym 'v heap = "nat \<Rightarrow> 'v listNode option"

record 'v adlist =
  head :: ptr
  tail :: ptr
  dup_m :: "('v \<Rightarrow> 'v option) option"
  match_m :: "('v \<Rightarrow> 'v \<Rightarrow> bool) option"
  len :: nat

datatype direction = AL_START_HEAD | AL_START_TAIL

record listIter =
  iter_next :: ptr
  iter_direction :: direction

definition deref :: "'v heap \<Rightarrow> ptr \<Rightarrow> 'v listNode option" where
  "deref h p = (case p of None \<Rightarrow> None | Some a \<Rightarrow> h a)"

definition set_node :: "'v heap \<Rightarrow> ptr \<Rightarrow> ('v listNode \<Rightarrow> 'v listNode) \<Rightarrow> 'v heap option" where
  "set_node h p f = (case p of None \<Rightarrow> None | Some a \<Rightarrow> (case h a of None \<Rightarrow> None | Some nd \<Rightarrow> Some (h(a \<mapsto> f nd))))"

section \<open>Operations\<close>

definition listCreate :: "'v adlist" where
  "listCreate = \<lparr>head = None, tail = None, dup_m = None, match_m = None, len = 0\<rparr>"

text \<open>\<open>listRelease\<close> also returns the values handed to the \<open>free\<close> method.\<close>

fun listRelease_loop :: "nat \<Rightarrow> 'v heap \<Rightarrow> ptr \<Rightarrow> ('v heap \<times> 'v list) option" where
  "listRelease_loop 0 h current = Some (h, [])"
| "listRelease_loop (Suc n) h current =
    (case deref h current of
       None \<Rightarrow> None
     | Some nd \<Rightarrow>
        (case listRelease_loop n (h(the current := None)) (next_of nd) of
           None \<Rightarrow> None
         | Some (h, vs) \<Rightarrow> Some (h, value_of nd # vs)))"

definition listRelease :: "'v heap \<Rightarrow> 'v adlist \<Rightarrow> ('v heap \<times> 'v list) option" where
  "listRelease h l = listRelease_loop (len l) h (head l)"

definition listAddNodeHead :: "nat \<Rightarrow> 'v heap \<Rightarrow> 'v adlist \<Rightarrow> 'v \<Rightarrow> ('v heap \<times> 'v adlist) option" where
  "listAddNodeHead node h l value =
    (if len l = 0 then
       Some (h(node \<mapsto> \<lparr>prev_of = None, next_of = None, value_of = value\<rparr>),
             l\<lparr>head := Some node, tail := Some node, len := len l + 1\<rparr>)
     else do {
       h \<leftarrow> set_node (h(node \<mapsto> \<lparr>prev_of = None, next_of = head l, value_of = value\<rparr>)) (head l)
              (prev_of_update (\<lambda>_. Some node));
       Some (h, l\<lparr>head := Some node, len := len l + 1\<rparr>)
     })"

definition listAddNodeTail :: "nat \<Rightarrow> 'v heap \<Rightarrow> 'v adlist \<Rightarrow> 'v \<Rightarrow> ('v heap \<times> 'v adlist) option" where
  "listAddNodeTail node h l value =
    (if len l = 0 then
       Some (h(node \<mapsto> \<lparr>prev_of = None, next_of = None, value_of = value\<rparr>),
             l\<lparr>head := Some node, tail := Some node, len := len l + 1\<rparr>)
     else do {
       h \<leftarrow> set_node (h(node \<mapsto> \<lparr>prev_of = tail l, next_of = None, value_of = value\<rparr>)) (tail l)
              (next_of_update (\<lambda>_. Some node));
       Some (h, l\<lparr>tail := Some node, len := len l + 1\<rparr>)
     })"

definition listInsertNode :: "nat \<Rightarrow> 'v heap \<Rightarrow> 'v adlist \<Rightarrow> nat \<Rightarrow> 'v \<Rightarrow> bool
    \<Rightarrow> ('v heap \<times> 'v adlist) option" where
  "listInsertNode node h l old_node value after = do {
     old \<leftarrow> h old_node;
     let (nd, l) =
       (if after then
          (\<lparr>prev_of = Some old_node, next_of = next_of old, value_of = value\<rparr>,
           if tail l = Some old_node then l\<lparr>tail := Some node\<rparr> else l)
        else
          (\<lparr>prev_of = prev_of old, next_of = Some old_node, value_of = value\<rparr>,
           if head l = Some old_node then l\<lparr>head := Some node\<rparr> else l));
     let h = h(node \<mapsto> nd);
     h \<leftarrow> (if prev_of nd \<noteq> None then set_node h (prev_of nd) (next_of_update (\<lambda>_. Some node)) else Some h);
     h \<leftarrow> (if next_of nd \<noteq> None then set_node h (next_of nd) (prev_of_update (\<lambda>_. Some node)) else Some h);
     Some (h, l\<lparr>len := len l + 1\<rparr>)
   }"

text \<open>\<open>listDelNode\<close> also returns the value handed to the \<open>free\<close> method.\<close>

definition listDelNode :: "'v heap \<Rightarrow> 'v adlist \<Rightarrow> nat \<Rightarrow> ('v heap \<times> 'v adlist \<times> 'v) option" where
  "listDelNode h l node = do {
     nd \<leftarrow> h node;
     (h, l) \<leftarrow> (if prev_of nd \<noteq> None
                then map_option (\<lambda>h. (h, l)) (set_node h (prev_of nd) (next_of_update (\<lambda>_. next_of nd)))
                else Some (h, l\<lparr>head := next_of nd\<rparr>));
     (h, l) \<leftarrow> (if next_of nd \<noteq> None
                then map_option (\<lambda>h. (h, l)) (set_node h (next_of nd) (prev_of_update (\<lambda>_. prev_of nd)))
                else Some (h, l\<lparr>tail := prev_of nd\<rparr>));
     Some (h(node := None), l\<lparr>len := len l - 1\<rparr>, value_of nd)
   }"

definition listGetIterator :: "'v adlist \<Rightarrow> direction \<Rightarrow> listIter" where
  "listGetIterator l direction =
    \<lparr>iter_next = (if direction = AL_START_HEAD then head l else tail l), iter_direction = direction\<rparr>"

definition listRewind :: "'v adlist \<Rightarrow> listIter" where
  "listRewind l = \<lparr>iter_next = head l, iter_direction = AL_START_HEAD\<rparr>"

definition listRewindTail :: "'v adlist \<Rightarrow> listIter" where
  "listRewindTail l = \<lparr>iter_next = tail l, iter_direction = AL_START_TAIL\<rparr>"

definition listNext :: "'v heap \<Rightarrow> listIter \<Rightarrow> (listIter \<times> ptr) option" where
  "listNext h iter =
    (case iter_next iter of
       None \<Rightarrow> Some (iter, None)
     | Some current \<Rightarrow>
        (case h current of
           None \<Rightarrow> None
         | Some nd \<Rightarrow>
             Some (iter\<lparr>iter_next := (if iter_direction iter = AL_START_HEAD then next_of nd else prev_of nd)\<rparr>,
                   Some current)))"

definition value_matches :: "'v adlist \<Rightarrow> 'v \<Rightarrow> 'v \<Rightarrow> bool" where
  "value_matches l key v = (case match_m l of Some f \<Rightarrow> f v key | None \<Rightarrow> key = v)"

definition dup_value :: "'v adlist \<Rightarrow> 'v \<Rightarrow> 'v option" where
  "dup_value l v = (case dup_m l of Some f \<Rightarrow> f v | None \<Rightarrow> Some v)"

text \<open>The two loops driven by \<open>listNext\<close>; they end when the iterator returns NULL, which is after at most
  \<open>fuel\<close> rounds on a well-formed list (\<open>fuel\<close> is one more than the length).\<close>

fun listSearchKey_loop :: "nat \<Rightarrow> 'v heap \<Rightarrow> 'v adlist \<Rightarrow> listIter \<Rightarrow> 'v \<Rightarrow> ptr option" where
  "listSearchKey_loop 0 h l iter key = None"
| "listSearchKey_loop (Suc n) h l iter key =
    (case listNext h iter of
       None \<Rightarrow> None
     | Some (iter, None) \<Rightarrow> Some None
     | Some (iter, Some node) \<Rightarrow>
         do { nd \<leftarrow> h node;
              if value_matches l key (value_of nd)
              then Some (Some node) else listSearchKey_loop n h l iter key })"

definition listSearchKey :: "'v heap \<Rightarrow> 'v adlist \<Rightarrow> 'v \<Rightarrow> ptr option" where
  "listSearchKey h l key = listSearchKey_loop (len l + 1) h l (listGetIterator l AL_START_HEAD) key"

text \<open>\<open>listDup\<close>: the outer \<open>None\<close> is a fault, the inner one the NULL result after a failed \<open>dup\<close>
  method, when the partial copy is released again.\<close>

fun listDup_loop :: "('v heap \<Rightarrow> nat) \<Rightarrow> nat \<Rightarrow> 'v heap \<Rightarrow> 'v adlist \<Rightarrow> listIter
    \<Rightarrow> ('v heap \<times> 'v adlist option) option" where
  "listDup_loop alloc 0 h copy iter = None"
| "listDup_loop alloc (Suc n) h copy iter =
    (case listNext h iter of
       None \<Rightarrow> None
     | Some (iter, None) \<Rightarrow> Some (h, Some copy)
     | Some (iter, Some node) \<Rightarrow>
         do { nd \<leftarrow> h node;
              case dup_value copy (value_of nd) of
                None \<Rightarrow> do { (h, freed) \<leftarrow> listRelease h copy; Some (h, None) }
              | Some value \<Rightarrow>
                  do { (h, copy) \<leftarrow> listAddNodeTail (alloc h) h copy value;
                       listDup_loop alloc n h copy iter } })"

definition listDup :: "('v heap \<Rightarrow> nat) \<Rightarrow> 'v heap \<Rightarrow> 'v adlist \<Rightarrow> ('v heap \<times> 'v adlist option) option" where
  "listDup alloc h orig =
    listDup_loop alloc (len orig + 1) h (listCreate\<lparr>dup_m := dup_m orig, match_m := match_m orig\<rparr>)
      (listGetIterator orig AL_START_HEAD)"

text \<open>\<open>long\<close> is 64 bits wide; negating its least value is undefined behaviour, a fault here.\<close>

fun listIndex_walk :: "'v heap \<Rightarrow> ('v listNode \<Rightarrow> ptr) \<Rightarrow> nat \<Rightarrow> ptr \<Rightarrow> ptr option" where
  "listIndex_walk h step 0 n = Some n"
| "listIndex_walk h step (Suc i) n =
    (case n of
       None \<Rightarrow> Some None
     | Some a \<Rightarrow> (case h a of None \<Rightarrow> None | Some nd \<Rightarrow> listIndex_walk h step i (step nd)))"

definition listIndex :: "'v heap \<Rightarrow> 'v adlist \<Rightarrow> int \<Rightarrow> ptr option" where
  "listIndex h l index =
    (if index < 0 then
       (if index = - (2 ^ 63) then None else listIndex_walk h prev_of (nat (- index - 1)) (tail l))
     else listIndex_walk h next_of (nat index) (head l))"

definition listRotate :: "'v heap \<Rightarrow> 'v adlist \<Rightarrow> ('v heap \<times> 'v adlist) option" where
  "listRotate h l =
    (if len l \<le> 1 then Some (h, l)
     else do {
       let old = tail l;
       nd \<leftarrow> deref h old;
       let l = l\<lparr>tail := prev_of nd\<rparr>;
       h \<leftarrow> set_node h (tail l) (next_of_update (\<lambda>_. None));
       h \<leftarrow> set_node h (head l) (prev_of_update (\<lambda>_. old));
       h \<leftarrow> set_node h old (prev_of_update (\<lambda>_. None));
       h \<leftarrow> set_node h old (next_of_update (\<lambda>_. head l));
       Some (h, l\<lparr>head := old\<rparr>)
     })"

section \<open>The represented list\<close>

text \<open>\<open>seg h p cs n\<close>: the addresses and values \<open>cs\<close> are a chain from a node whose predecessor is \<open>p\<close> to
  one whose successor is \<open>n\<close>.\<close>

definition first_ptr :: "(nat \<times> 'v) list \<Rightarrow> ptr \<Rightarrow> ptr" where
  "first_ptr cs n = (case cs of [] \<Rightarrow> n | c # _ \<Rightarrow> Some (fst c))"

definition last_ptr :: "ptr \<Rightarrow> (nat \<times> 'v) list \<Rightarrow> ptr" where
  "last_ptr p cs = (if cs = [] then p else Some (fst (last cs)))"

fun seg :: "'v heap \<Rightarrow> ptr \<Rightarrow> (nat \<times> 'v) list \<Rightarrow> ptr \<Rightarrow> bool" where
  "seg h p [] n \<longleftrightarrow> True"
| "seg h p ((a, v) # cs) n \<longleftrightarrow>
    h a = Some \<lparr>prev_of = p, next_of = first_ptr cs n, value_of = v\<rparr> \<and> seg h (Some a) cs n"

definition list_ok :: "'v heap \<Rightarrow> 'v adlist \<Rightarrow> (nat \<times> 'v) list \<Rightarrow> bool" where
  "list_ok h l cs \<longleftrightarrow> distinct (map fst cs) \<and> seg h None cs None \<and> head l = first_ptr cs None \<and>
     tail l = last_ptr None cs \<and> len l = length cs"

lemma first_ptr_simps [simp]:
  "first_ptr [] n = n" "first_ptr ((a, v) # cs) n = Some a"
  "first_ptr (cs @ ds) n = first_ptr cs (first_ptr ds n)"
  by (auto simp: first_ptr_def split: list.split)

lemma last_ptr_simps [simp]:
  "last_ptr p [] = p" "last_ptr p ((a, v) # cs) = last_ptr (Some a) cs"
  "last_ptr p (cs @ ds) = last_ptr (last_ptr p cs) ds"
  by (auto simp: last_ptr_def)

lemma seg_append [simp]:
  "seg h p (cs @ ds) n \<longleftrightarrow> seg h p cs (first_ptr ds n) \<and> seg h (last_ptr p cs) ds n"
  by (induction cs arbitrary: p) auto

lemma seg_upd [simp]: "a \<notin> fst ` set cs \<Longrightarrow> seg (h(a := x)) p cs n \<longleftrightarrow> seg h p cs n"
  by (induction cs arbitrary: p) auto

lemma seg_fun_cong: "\<forall>a \<in> fst ` set cs. h' a = h a \<Longrightarrow> seg h' p cs n \<longleftrightarrow> seg h p cs n"
  by (induction cs arbitrary: p) auto

lemma seg_node: "seg h p cs n \<Longrightarrow> (a, v) \<in> set cs \<Longrightarrow> h a \<noteq> None"
  by (induction cs arbitrary: p) auto

lemma list_ok_fresh: "list_ok h l cs \<Longrightarrow> h a = None \<Longrightarrow> a \<notin> fst ` set cs"
  using seg_node by (fastforce simp: list_ok_def)

lemma set_node_Some [simp]: "h a = Some nd \<Longrightarrow> set_node h (Some a) f = Some (h(a \<mapsto> f nd))"
  by (simp add: set_node_def)

lemma deref_Some [simp]: "deref h (Some a) = h a"
  by (simp add: deref_def)

lemma first_ptr_ne: "cs \<noteq> [] \<Longrightarrow> first_ptr cs n = Some (fst (hd cs))"
  by (cases cs) (auto simp: first_ptr_def)

lemma last_ptr_ne: "cs \<noteq> [] \<Longrightarrow> last_ptr p cs = Some (fst (last cs))"
  by (simp add: last_ptr_def)

text \<open>The two ways to relink a chain at an end.\<close>

lemma seg_first:
  assumes "seg h p cs n" "cs \<noteq> []" "distinct (map fst cs)"
  obtains nd where "h (fst (hd cs)) = Some nd" "prev_of nd = p"
    and "\<And>q. seg (h(fst (hd cs) \<mapsto> nd\<lparr>prev_of := q\<rparr>)) q cs n"
  using assms by (cases cs) auto

lemma seg_last:
  assumes "seg h p cs n" "cs \<noteq> []" "distinct (map fst cs)"
  obtains nd where "h (fst (last cs)) = Some nd" "next_of nd = n"
    and "\<And>m. seg (h(fst (last cs) \<mapsto> nd\<lparr>next_of := m\<rparr>)) p cs m"
proof -
  obtain a v ds where cs: "cs = ds @ [(a, v)]" using assms(2) by (metis rev_exhaust surj_pair)
  then show thesis using assms that by auto
qed

lemma listAddNodeHead_ok:
  assumes "list_ok h l cs" "h node = None"
  shows "\<exists>h' l'. listAddNodeHead node h l v = Some (h', l') \<and> list_ok h' l' ((node, v) # cs) \<and>
    dup_m l' = dup_m l \<and> match_m l' = match_m l"
proof (cases cs)
  case Nil
  then show ?thesis using assms by (simp add: listAddNodeHead_def list_ok_def)
next
  case (Cons c ds)
  obtain a w where c: "c = (a, w)" by force
  have "node \<notin> fst ` set cs" using assms by (rule list_ok_fresh)
  then show ?thesis using assms by (simp add: listAddNodeHead_def list_ok_def Cons c)
qed

lemma listAddNodeTail_ok:
  assumes "list_ok h l cs" "h node = None"
  obtains h' l' where "listAddNodeTail node h l v = Some (h', l')" and "list_ok h' l' (cs @ [(node, v)])"
    and "dup_m l' = dup_m l" "match_m l' = match_m l"
    and "\<And>a. a \<notin> insert node (fst ` set cs) \<Longrightarrow> h' a = h a" and "dom h' = insert node (dom h)"
proof (cases cs rule: rev_cases)
  case Nil
  then show ?thesis using assms
    by (intro that [of "h(node \<mapsto> \<lparr>prev_of = None, next_of = None, value_of = v\<rparr>)"
          "l\<lparr>head := Some node, tail := Some node, len := len l + 1\<rparr>"])
      (auto simp: listAddNodeTail_def list_ok_def)
next
  case (snoc ds c)
  obtain a w where c: "c = (a, w)" by force
  have "node \<notin> fst ` set cs" using assms by (rule list_ok_fresh)
  let ?nd = "\<lparr>prev_of = last_ptr None ds, next_of = Some node, value_of = w\<rparr>"
  show ?thesis using assms \<open>node \<notin> fst ` set cs\<close>
    by (intro that [of "h(node \<mapsto> \<lparr>prev_of = tail l, next_of = None, value_of = v\<rparr>, a \<mapsto> ?nd)"
          "l\<lparr>tail := Some node, len := len l + 1\<rparr>"])
      (auto simp: listAddNodeTail_def list_ok_def snoc c)
qed

lemma list_ok_split:
  assumes "list_ok h l cs" "i < length cs"
  obtains xs a v ys where "cs = xs @ (a, v) # ys" "length xs = i" "a = fst (cs ! i)"
    "h a = Some \<lparr>prev_of = last_ptr None xs, next_of = first_ptr ys None, value_of = v\<rparr>"
    "a \<notin> fst ` set xs" "a \<notin> fst ` set ys"
proof -
  from assms(2) have "cs = take i cs @ cs ! i # drop (Suc i) cs" by (simp add: id_take_nth_drop)
  moreover obtain a v where "cs ! i = (a, v)" by force
  ultimately obtain xs ys where "cs = xs @ (a, v) # ys" "length xs = i" using assms(2)
    by (metis length_take less_imp_le_nat min.absorb2)
  then show thesis using assms(1) by (intro that [of xs a v ys]) (auto simp: list_ok_def nth_append)
qed

lemma listDelNode_ok:
  assumes "list_ok h l cs" "i < length cs"
  shows "\<exists>h' l'. listDelNode h l (fst (cs ! i)) = Some (h', l', snd (cs ! i)) \<and> list_ok h' l' (take i cs @ drop (Suc i) cs) \<and>
    dup_m l' = dup_m l \<and> match_m l' = match_m l"
proof -
  obtain xs a v ys where cs: "cs = xs @ (a, v) # ys" "length xs = i" "a = fst (cs ! i)"
    and nd: "h a = Some \<lparr>prev_of = last_ptr None xs, next_of = first_ptr ys None, value_of = v\<rparr>"
    and a: "a \<notin> fst ` set xs" "a \<notin> fst ` set ys"
    by (rule list_ok_split [OF assms])
  have ok: "distinct (map fst cs)" "seg h None cs None" "head l = first_ptr cs None"
    "tail l = last_ptr None cs" "len l = length cs" using assms(1) by (auto simp: list_ok_def)
  have del: "take i cs @ drop (Suc i) cs = xs @ ys" using cs(1,2) by simp
  have "cs ! i = (a, v)" unfolding cs(1) using cs(2) by (simp add: nth_append)
  then have at: "fst (cs ! i) = a" "snd (cs ! i) = v" by simp_all
  define l1 where "l1 = (if xs = [] then l\<lparr>head := first_ptr ys None\<rparr> else l)"
  define l2 where "l2 = (if ys = [] then l1\<lparr>tail := last_ptr None xs\<rparr> else l1)"
  obtain h1 where 1: "(if last_ptr None xs \<noteq> None
      then map_option (\<lambda>h. (h, l)) (set_node h (last_ptr None xs) (next_of_update (\<lambda>_. first_ptr ys None)))
      else Some (h, l\<lparr>head := first_ptr ys None\<rparr>)) = Some (h1, l1)"
    "seg h1 None xs (first_ptr ys None)" "seg h1 (Some a) ys None" "head l1 = first_ptr (xs @ ys) None"
    "tail l1 = tail l" "len l1 = len l" "dup_m l1 = dup_m l" "match_m l1 = match_m l" "h1 a = h a"
    using ok nd a by (cases xs rule: rev_cases) (auto simp: cs(1) l1_def)
  obtain h2 where 2: "(if first_ptr ys None \<noteq> None
      then map_option (\<lambda>h. (h, l1)) (set_node h1 (first_ptr ys None) (prev_of_update (\<lambda>_. last_ptr None xs)))
      else Some (h1, l1\<lparr>tail := last_ptr None xs\<rparr>)) = Some (h2, l2)"
    "seg h2 None xs (first_ptr ys None)" "seg h2 (last_ptr None xs) ys None" "head l2 = head l1"
    "tail l2 = last_ptr None (xs @ ys)" "len l2 = len l" "dup_m l2 = dup_m l" "match_m l2 = match_m l"
    using 1 ok nd a by (cases ys) (auto simp: cs(1) l2_def)
  have "listDelNode h l a = Some (h2(a := None), l2\<lparr>len := len l2 - 1\<rparr>, v)"
    by (simp only: listDelNode_def nd bind.bind_lunit listNode.select_convs 1(1) 2(1) prod.case)
  then show ?thesis unfolding at del using 1 2 ok a by (auto simp: list_ok_def cs(1))
qed

lemma last_ptr_eq: "a \<notin> fst ` set ys \<Longrightarrow> last_ptr (Some a) ys = Some a \<longleftrightarrow> ys = []"
  by (cases ys rule: rev_cases) (auto simp: last_ptr_def)

lemma first_ptr_eq: "a \<notin> fst ` set xs \<Longrightarrow> first_ptr xs (Some a) = Some a \<longleftrightarrow> xs = []"
  by (cases xs) (auto simp: first_ptr_def)

lemma listInsertNode_ok:
  assumes "list_ok h l cs" "i < length cs" "h node = None"
  shows "\<exists>h' l'. listInsertNode node h l (fst (cs ! i)) w after = Some (h', l') \<and>
    list_ok h' l' (if after then take (Suc i) cs @ (node, w) # drop (Suc i) cs
                   else take i cs @ (node, w) # drop i cs) \<and>
    dup_m l' = dup_m l \<and> match_m l' = match_m l"
proof -
  obtain xs a v ys where cs: "cs = xs @ (a, v) # ys" "length xs = i" "a = fst (cs ! i)"
    and nd: "h a = Some \<lparr>prev_of = last_ptr None xs, next_of = first_ptr ys None, value_of = v\<rparr>"
    and a: "a \<notin> fst ` set xs" "a \<notin> fst ` set ys"
    by (rule list_ok_split [OF assms(1,2)])
  have ok: "distinct (map fst cs)" "seg h None cs None" "head l = first_ptr cs None"
    "tail l = last_ptr None cs" "len l = length cs" using assms(1) by (auto simp: list_ok_def)
  have new: "node \<notin> fst ` set xs" "node \<notin> fst ` set ys" "node \<noteq> a"
    using list_ok_fresh [OF assms(1,3)] cs(1) by auto
  have at: "fst (cs ! i) = a" using cs(3) by simp
  have cut: "take i cs = xs" "drop i cs = (a, v) # ys" "take (Suc i) cs = xs @ [(a, v)]" "drop (Suc i) cs = ys"
    using cs(1,2) by simp_all
  show ?thesis
  proof (cases after)
    case True
    have "\<exists>h'. listInsertNode node h l a w True =
        Some (h', (if ys = [] then l\<lparr>tail := Some node\<rparr> else l)\<lparr>len := len l + 1\<rparr>) \<and>
        seg h' None (xs @ [(a, v), (node, w)] @ ys) None"
      using ok nd a new last_ptr_eq [OF a(2)]
      by (cases ys) (auto simp: listInsertNode_def cs(1) fun_upd_twist)
    then obtain h' where "listInsertNode node h l a w True =
        Some (h', (if ys = [] then l\<lparr>tail := Some node\<rparr> else l)\<lparr>len := len l + 1\<rparr>)"
      "seg h' None (xs @ [(a, v), (node, w)] @ ys) None" by blast
    then show ?thesis using ok new True unfolding at cut
      by (cases ys) (auto simp add: list_ok_def cs(1))
  next
    case False
    have "\<exists>h'. listInsertNode node h l a w False =
        Some (h', (if xs = [] then l\<lparr>head := Some node\<rparr> else l)\<lparr>len := len l + 1\<rparr>) \<and>
        seg h' None (xs @ [(node, w), (a, v)] @ ys) None"
      using ok nd a new first_ptr_eq [OF a(1)]
      by (cases xs rule: rev_cases) (auto simp: listInsertNode_def cs(1) fun_upd_twist)
    then obtain h' where "listInsertNode node h l a w False =
        Some (h', (if xs = [] then l\<lparr>head := Some node\<rparr> else l)\<lparr>len := len l + 1\<rparr>)"
      "seg h' None (xs @ [(node, w), (a, v)] @ ys) None" by blast
    then show ?thesis using ok new False unfolding at cut
      by (cases xs) (auto simp add: list_ok_def cs(1))
  qed
qed

lemma listIndex_fwd:
  "seg h p (xs @ ys) None \<Longrightarrow> listIndex_walk h next_of (length xs) (first_ptr (xs @ ys) None) = Some (first_ptr ys None)"
  by (induction xs arbitrary: p) (auto split: prod.splits)

lemma listIndex_fwd_end:
  "seg h p cs None \<Longrightarrow> length cs \<le> i \<Longrightarrow> listIndex_walk h next_of i (first_ptr cs None) = Some None"
proof (induction cs arbitrary: p i)
  case Nil
  then show ?case by (cases i) auto
next
  case (Cons c cs)
  then show ?case by (cases i; cases c) auto
qed

lemma listIndex_bwd:
  "seg h None (xs @ ys) n \<Longrightarrow> listIndex_walk h prev_of (length ys) (last_ptr None (xs @ ys)) = Some (last_ptr None xs)"
  by (induction ys arbitrary: n rule: rev_induct) (auto simp del: append_assoc simp flip: append_assoc)

lemma listIndex_bwd_end:
  "seg h None cs n \<Longrightarrow> length cs \<le> i \<Longrightarrow> listIndex_walk h prev_of i (last_ptr None cs) = Some None"
proof (induction cs arbitrary: n i rule: rev_induct)
  case Nil
  then show ?case by (cases i) auto
next
  case (snoc c cs)
  then show ?case by (cases i; cases c) auto
qed

text \<open>The position an index denotes.\<close>

definition list_pos :: "nat \<Rightarrow> int \<Rightarrow> nat option" where
  "list_pos n index =
    (if index < 0 then (if nat (- index) \<le> n then Some (n - nat (- index)) else None)
     else if nat index < n then Some (nat index) else None)"

lemma listIndex_ok:
  assumes "list_ok h l cs" "- (2 ^ 63) < index"
  shows "listIndex h l index = Some (map_option (\<lambda>i. fst (cs ! i)) (list_pos (length cs) index))"
proof (cases "index < 0")
  case True
  define k where "k = nat (- index - 1)"
  have k: "nat (- index) = Suc k" using True by (simp add: k_def)
  show ?thesis
  proof (cases "k < length cs")
    case k_lt: True
    define xs ys where "xs = take (length cs - k) cs" and "ys = drop (length cs - k) cs"
    have cs: "cs = xs @ ys" "length ys = k" "xs \<noteq> []" using k_lt by (auto simp: xs_def ys_def)
    then have "last xs = cs ! (length cs - Suc k)" "Suc 0 \<le> length xs"
      by (simp_all add: last_conv_nth nth_append Suc_le_eq)
    then show ?thesis using assms listIndex_bwd [of h xs ys None] cs k_lt True k
      by (simp add: listIndex_def list_ok_def list_pos_def k_def [symmetric] last_ptr_ne)
  next
    case False
    then show ?thesis using assms listIndex_bwd_end [of h cs None k] True k
      by (simp add: listIndex_def list_ok_def list_pos_def k_def [symmetric])
  qed
next
  case False
  define k where "k = nat index"
  show ?thesis
  proof (cases "k < length cs")
    case k_lt: True
    define xs ys where "xs = take k cs" and "ys = drop k cs"
    have cs: "cs = xs @ ys" "length xs = k" "ys \<noteq> []" using k_lt by (simp_all add: xs_def ys_def)
    then have "hd ys = cs ! k" by (simp add: hd_conv_nth nth_append)
    then show ?thesis using assms listIndex_fwd [of h None xs ys] cs k_lt False
      by (simp add: listIndex_def list_ok_def list_pos_def k_def [symmetric] first_ptr_ne)
  next
    case k_ge: False
    then show ?thesis using assms listIndex_fwd_end [of h None cs k] False
      by (simp add: listIndex_def list_ok_def list_pos_def k_def [symmetric])
  qed
qed

lemma listRotate_ok:
  assumes "list_ok h l cs"
  shows "\<exists>h' l'. listRotate h l = Some (h', l') \<and>
    list_ok h' l' (if cs = [] then [] else last cs # butlast cs) \<and> dup_m l' = dup_m l \<and> match_m l' = match_m l"
proof (cases "length cs \<le> 1")
  case True
  then have "cs = [] \<or> (\<exists>c. cs = [c])" by (cases cs) auto
  then show ?thesis using assms True by (auto simp: listRotate_def list_ok_def)
next
  case False
  then obtain xs c where c: "cs = xs @ [c]" by (cases cs rule: rev_cases) auto
  obtain a v where "c = (a, v)" by force
  with c False have cs: "cs = xs @ [(a, v)]" "xs \<noteq> []" by auto
  obtain b w zs where xs: "xs = (b, w) # zs" using cs(2) by (cases xs) auto
  show ?thesis using assms
    by (cases zs rule: rev_cases) (auto simp: listRotate_def list_ok_def cs xs butlast_append Let_def)
qed

lemma listRelease_loop_ok:
  "seg h p cs n \<Longrightarrow> distinct (map fst cs) \<Longrightarrow>
    listRelease_loop (length cs) h (first_ptr cs n) = Some (h |` (- (fst ` set cs)), map snd cs)"
proof (induction cs arbitrary: h p)
  case (Cons c cs)
  obtain a v where c: "c = (a, v)" by force
  have eq: "h(a := None) |` (- (fst ` set cs)) = h |` (- (insert a (fst ` set cs)))"
    by (auto simp: restrict_map_def)
  have IH: "listRelease_loop (length cs) (h(a := None)) (first_ptr cs n) =
      Some (h(a := None) |` (- (fst ` set cs)), map snd cs)"
  proof (rule Cons.IH)
    show "seg (h(a := None)) (Some a) cs n" using Cons.prems by (subst seg_upd) (auto simp: c)
  qed (use Cons.prems in \<open>simp add: c\<close>)
  show ?case using Cons.prems(1) by (simp add: c deref_def IH [unfolded eq])
qed (simp add: restrict_map_def)

lemma listRelease_ok:
  "list_ok h l cs \<Longrightarrow> listRelease h l = Some (h |` (- (fst ` set cs)), map snd cs)"
  using listRelease_loop_ok [of h None cs None] by (simp add: listRelease_def list_ok_def)

section \<open>Iteration\<close>

lemma listNext_fwd:
  "seg h p cs None \<Longrightarrow> listNext h \<lparr>iter_next = first_ptr cs None, iter_direction = AL_START_HEAD\<rparr> =
    Some (\<lparr>iter_next = first_ptr (tl cs) None, iter_direction = AL_START_HEAD\<rparr>,
          map_option fst (case cs of [] \<Rightarrow> None | c # _ \<Rightarrow> Some c))"
  by (cases cs) (auto simp: listNext_def)

lemma listNext_bwd:
  "seg h None cs n \<Longrightarrow> listNext h \<lparr>iter_next = last_ptr None cs, iter_direction = AL_START_TAIL\<rparr> =
    Some (\<lparr>iter_next = last_ptr None (butlast cs), iter_direction = AL_START_TAIL\<rparr>,
          if cs = [] then None else Some (fst (last cs)))"
  by (cases cs rule: rev_cases) (auto simp: listNext_def)

lemma listSearchKey_loop_ok:
  "seg h p cs None \<Longrightarrow> length cs < n \<Longrightarrow>
    listSearchKey_loop n h l \<lparr>iter_next = first_ptr cs None, iter_direction = AL_START_HEAD\<rparr> key =
      Some (map_option fst (find (\<lambda>c. value_matches l key (snd c)) cs))"
proof (induction cs arbitrary: p n)
  case Nil
  then show ?case by (cases n) (simp_all add: listNext_def)
next
  case (Cons c cs)
  obtain a v where c: "c = (a, v)" by force
  obtain m where n: "n = Suc m" using Cons.prems by (cases n) auto
  show ?case using Cons.prems Cons.IH [of "Some a" m]
    by (auto simp: n c listNext_def split: option.splits)
qed

lemma listSearchKey_ok:
  "list_ok h l cs \<Longrightarrow> listSearchKey h l key = Some (map_option fst (find (\<lambda>c. value_matches l key (snd c)) cs))"
  using listSearchKey_loop_ok [of h None cs "len l + 1" l key]
  by (simp add: listSearchKey_def list_ok_def listGetIterator_def)

section \<open>Duplication\<close>

definition alloc_ok :: "('v heap \<Rightarrow> nat) \<Rightarrow> bool" where
  "alloc_ok alloc \<longleftrightarrow> (\<forall>h. finite (dom h) \<longrightarrow> h (alloc h) = None)"

lemma listDup_loop_ok:
  assumes "alloc_ok alloc"
  shows "seg h p rest None \<Longrightarrow> list_ok h copy ds \<Longrightarrow> fst ` set ds \<inter> fst ` set rest = {} \<Longrightarrow>
    finite (dom h) \<Longrightarrow> length rest < n \<Longrightarrow>
    \<exists>h' r. listDup_loop alloc n h copy \<lparr>iter_next = first_ptr rest None, iter_direction = AL_START_HEAD\<rparr>
        = Some (h', r) \<and> (\<forall>x \<in> dom h - fst ` set ds. h' x = h x) \<and>
      (if \<forall>c \<in> set rest. dup_value copy (snd c) \<noteq> None
       then (\<exists>copy' ds'. r = Some copy' \<and> list_ok h' copy' (ds @ ds') \<and>
              map snd ds' = map (\<lambda>c. the (dup_value copy (snd c))) rest \<and> fst ` set ds' \<inter> dom h = {})
       else r = None \<and> h' = h |` (- (fst ` set ds)))"
proof (induction rest arbitrary: h p copy ds n)
  case Nil
  then show ?case by (cases n) (auto simp: listNext_def intro: exI [of _ "[]"])
next
  case (Cons c rest)
  obtain a v where c: "c = (a, v)" by force
  obtain m where n: "n = Suc m" using Cons.prems by (cases n) auto
  have next1: "listNext h \<lparr>iter_next = first_ptr (c # rest) None, iter_direction = AL_START_HEAD\<rparr> =
      Some (\<lparr>iter_next = first_ptr rest None, iter_direction = AL_START_HEAD\<rparr>, Some a)"
    "h a = Some \<lparr>prev_of = p, next_of = first_ptr rest None, value_of = v\<rparr>"
    using Cons.prems(1) by (simp_all add: c listNext_def)
  show ?case
  proof (cases "dup_value copy v")
    case None
    then show ?thesis using next1 listRelease_ok [OF Cons.prems(2)]
      by (auto simp: n c)
  next
    case (Some u)
    let ?x = "alloc h"
    have fresh: "h ?x = None" using assms Cons.prems(4) by (simp add: alloc_ok_def)
    obtain h1 copy1 where add: "listAddNodeTail ?x h copy u = Some (h1, copy1)"
      "list_ok h1 copy1 (ds @ [(?x, u)])" "dup_m copy1 = dup_m copy" "match_m copy1 = match_m copy"
      "\<And>a. a \<notin> insert ?x (fst ` set ds) \<Longrightarrow> h1 a = h a" "dom h1 = insert ?x (dom h)"
      using listAddNodeTail_ok [OF Cons.prems(2) fresh, of u] by blast
    have x_rest: "?x \<notin> fst ` set rest"
      using Cons.prems(1) fresh seg_node [of h "Some a" rest None ?x] by (auto simp: c)
    have "seg h1 (Some a) rest None \<longleftrightarrow> seg h (Some a) rest None"
    proof (intro seg_fun_cong ballI add(5))
      fix y assume "y \<in> fst ` set rest"
      moreover from this have "y \<noteq> ?x" using x_rest by blast
      ultimately show "y \<notin> insert ?x (fst ` set ds)" using Cons.prems(3) by auto
    qed
    then have seg1: "seg h1 (Some a) rest None" using Cons.prems(1) by (simp add: c)
    have step: "listDup_loop alloc n h copy \<lparr>iter_next = first_ptr (c # rest) None, iter_direction = AL_START_HEAD\<rparr> =
        listDup_loop alloc m h1 copy1 \<lparr>iter_next = first_ptr rest None, iter_direction = AL_START_HEAD\<rparr>"
      using next1 Some add(1) unfolding n by simp
    have dv: "dup_value copy1 = dup_value copy" using add(3) by (simp add: dup_value_def fun_eq_iff)
    have "fst ` set (ds @ [(?x, u)]) \<inter> fst ` set rest = {}" using x_rest Cons.prems(3) by auto
    moreover have "finite (dom h1)" using add(6) Cons.prems(4) by simp
    ultimately obtain h' r where IH:
      "listDup_loop alloc m h1 copy1 \<lparr>iter_next = first_ptr rest None, iter_direction = AL_START_HEAD\<rparr> = Some (h', r)"
      "\<forall>x \<in> dom h1 - fst ` set (ds @ [(?x, u)]). h' x = h1 x"
      "if \<forall>c \<in> set rest. dup_value copy1 (snd c) \<noteq> None
       then (\<exists>copy' ds'. r = Some copy' \<and> list_ok h' copy' ((ds @ [(?x, u)]) @ ds') \<and>
              map snd ds' = map (\<lambda>c. the (dup_value copy1 (snd c))) rest \<and> fst ` set ds' \<inter> dom h1 = {})
       else r = None \<and> h' = h1 |` (- (fst ` set (ds @ [(?x, u)])))"
      using Cons.IH [OF seg1 add(2) _ _, of m] Cons.prems(5) n by auto
    have keep: "\<forall>x \<in> dom h - fst ` set ds. h' x = h x"
      using IH(2) add(5,6) fresh by auto
    show ?thesis
    proof (cases "\<forall>c \<in> set rest. dup_value copy (snd c) \<noteq> None")
      case True
      then obtain copy' ds' where "r = Some copy'" "list_ok h' copy' (ds @ (?x, u) # ds')"
        "map snd ds' = map (\<lambda>c. the (dup_value copy (snd c))) rest" "fst ` set ds' \<inter> dom h1 = {}"
        using IH(3) dv by auto
      moreover from this have "fst ` set ((?x, u) # ds') \<inter> dom h = {}" using fresh add(6) by auto
      ultimately have fin: "\<exists>copy' ds''. r = Some copy' \<and> list_ok h' copy' (ds @ ds'') \<and>
          map snd ds'' = map (\<lambda>c. the (dup_value copy (snd c))) (c # rest) \<and> fst ` set ds'' \<inter> dom h = {}"
        using Some by (intro exI [of _ copy'] exI [of _ "(?x, u) # ds'"]) (simp add: c)
      have all: "\<forall>c \<in> set (c # rest). dup_value copy (snd c) \<noteq> None" using True Some by (simp add: c)
      show ?thesis unfolding step IH(1) if_P [OF all] by (rule exI [of _ h'], rule exI [of _ r], intro conjI refl keep fin)
    next
      case False
      then have "r = None" "h' = h1 |` (- (fst ` set (ds @ [(?x, u)])))" using IH(3) dv by auto
      moreover have "h1 |` (- (fst ` set (ds @ [(?x, u)]))) = h |` (- (fst ` set ds))"
        using add(5) fresh by (auto simp: restrict_map_def fun_eq_iff)
      ultimately show ?thesis unfolding step IH(1) using False keep by (auto simp: c)
    qed
  qed
qed

section \<open>A list as a sequence\<close>

text \<open>Client operations on one list, a removal answering with the value that is freed; a node pointer is obtained with \<open>listIndex\<close> before it is used.\<close>

datatype 'v list_op =
    PushHead 'v | PushTail 'v | InsertAt int 'v bool | RemoveAt int | Rotate | ValueAt int | Member 'v

fun list_step :: "('v heap \<Rightarrow> nat) \<Rightarrow> 'v heap \<times> 'v adlist \<Rightarrow> 'v list_op
    \<Rightarrow> (('v heap \<times> 'v adlist) \<times> 'v option) option" where
  "list_step alloc (h, l) (PushHead v) = map_option (\<lambda>s. (s, None)) (listAddNodeHead (alloc h) h l v)"
| "list_step alloc (h, l) (PushTail v) = map_option (\<lambda>s. (s, None)) (listAddNodeTail (alloc h) h l v)"
| "list_step alloc (h, l) (InsertAt i v after) = do {
     p \<leftarrow> listIndex h l i;
     case p of None \<Rightarrow> Some ((h, l), None)
     | Some a \<Rightarrow> map_option (\<lambda>s. (s, None)) (listInsertNode (alloc h) h l a v after) }"
| "list_step alloc (h, l) (RemoveAt i) = do {
     p \<leftarrow> listIndex h l i;
     case p of None \<Rightarrow> Some ((h, l), None)
     | Some a \<Rightarrow> do { (h, l, freed) \<leftarrow> listDelNode h l a; Some ((h, l), Some freed) } }"
| "list_step alloc (h, l) Rotate = map_option (\<lambda>s. (s, None)) (listRotate h l)"
| "list_step alloc (h, l) (ValueAt i) = do {
     p \<leftarrow> listIndex h l i;
     case p of None \<Rightarrow> Some ((h, l), None) | Some a \<Rightarrow> do { nd \<leftarrow> h a; Some ((h, l), Some (value_of nd)) } }"
| "list_step alloc (h, l) (Member v) = do {
     p \<leftarrow> listSearchKey h l v;
     case p of None \<Rightarrow> Some ((h, l), None) | Some a \<Rightarrow> do { nd \<leftarrow> h a; Some ((h, l), Some (value_of nd)) } }"

fun list_run :: "('v heap \<Rightarrow> nat) \<Rightarrow> 'v heap \<times> 'v adlist \<Rightarrow> 'v list_op list
    \<Rightarrow> (('v heap \<times> 'v adlist) \<times> 'v option list) option" where
  "list_run alloc s [] = Some (s, [])"
| "list_run alloc s (x # xs) = do {
     (s, r) \<leftarrow> list_step alloc s x; (s, rs) \<leftarrow> list_run alloc s xs; Some (s, r # rs) }"

text \<open>The same operations on HOL lists.\<close>

fun seq_step :: "('v \<Rightarrow> 'v \<Rightarrow> bool) \<Rightarrow> 'v list \<Rightarrow> 'v list_op \<Rightarrow> 'v list \<times> 'v option" where
  "seq_step eq vs (PushHead v) = (v # vs, None)"
| "seq_step eq vs (PushTail v) = (vs @ [v], None)"
| "seq_step eq vs (InsertAt i v after) =
    (case list_pos (length vs) i of None \<Rightarrow> (vs, None)
     | Some k \<Rightarrow> let k = (if after then Suc k else k) in (take k vs @ v # drop k vs, None))"
| "seq_step eq vs (RemoveAt i) =
    (case list_pos (length vs) i of None \<Rightarrow> (vs, None)
     | Some k \<Rightarrow> (take k vs @ drop (Suc k) vs, Some (vs ! k)))"
| "seq_step eq vs Rotate = ((if vs = [] then [] else last vs # butlast vs), None)"
| "seq_step eq vs (ValueAt i) = (vs, map_option (\<lambda>k. vs ! k) (list_pos (length vs) i))"
| "seq_step eq vs (Member v) = (vs, find (eq v) vs)"

fun seq_run :: "('v \<Rightarrow> 'v \<Rightarrow> bool) \<Rightarrow> 'v list \<Rightarrow> 'v list_op list \<Rightarrow> 'v list \<times> 'v option list" where
  "seq_run eq vs [] = (vs, [])"
| "seq_run eq vs (x # xs) = (let (vs, r) = seq_step eq vs x; (vs, rs) = seq_run eq vs xs in (vs, r # rs))"

fun op_ok :: "'v list_op \<Rightarrow> bool" where
  "op_ok (InsertAt i v a) \<longleftrightarrow> - (2 ^ 63) < i"
| "op_ok (RemoveAt i) \<longleftrightarrow> - (2 ^ 63) < i"
| "op_ok (ValueAt i) \<longleftrightarrow> - (2 ^ 63) < i"
| "op_ok _ \<longleftrightarrow> True"

definition list_repr :: "'v heap \<times> 'v adlist \<Rightarrow> ('v \<Rightarrow> 'v \<Rightarrow> bool) \<Rightarrow> 'v list \<Rightarrow> bool" where
  "list_repr s eq vs \<longleftrightarrow> finite (dom (fst s)) \<and> value_matches (snd s) = eq \<and>
     (\<exists>cs. list_ok (fst s) (snd s) cs \<and> map snd cs = vs)"

lemma find_map: "find P (map f xs) = map_option f (find (\<lambda>x. P (f x)) xs)"
  by (induction xs) auto

lemma find_node:
  assumes "list_ok h l cs" "find P cs = Some c"
  shows "\<exists>nd. h (fst c) = Some nd \<and> value_of nd = snd c"
proof -
  from assms(2) have "c \<in> set cs" by (auto simp: find_Some_iff)
  then obtain i where "i < length cs" "cs ! i = c" by (auto simp: in_set_conv_nth)
  then show ?thesis using list_ok_split [OF assms(1), of i]
    by (metis fst_conv listNode.select_convs(3) nth_append_length snd_conv)
qed

lemma list_ok_value:
  assumes "list_ok h l cs" "i < length cs"
  shows "\<exists>nd. h (fst (cs ! i)) = Some nd \<and> value_of nd = snd (cs ! i)"
  by (rule list_ok_split [OF assms]) (metis fst_conv listNode.select_convs(3) nth_append_length snd_conv)

lemma list_pos_lt: "list_pos n i = Some k \<Longrightarrow> k < n"
  by (auto simp: list_pos_def split: if_splits)

text \<open>No operation leaves the finite store.\<close>

lemma set_node_dom: "set_node h p f = Some h' \<Longrightarrow> dom h' = dom h"
  by (auto simp: set_node_def split: option.splits if_splits)

lemma list_step_finite:
  assumes "list_step alloc s x = Some (s', r)" "finite (dom (fst s))"
  shows "finite (dom (fst s'))"
proof -
  have ins: "finite (dom h')" if "listInsertNode nd h l a v b = Some (h', l')" "finite (dom h)"
    for nd h l a v b h' l'
    using that by (auto simp: listInsertNode_def bind_eq_Some_conv Let_def split: if_splits prod.splits dest!: set_node_dom)
  have del: "finite (dom h')" if "listDelNode h l a = Some (h', l', v)" "finite (dom h)" for h l a h' l' v
    using that by (auto simp: listDelNode_def bind_eq_Some_conv split: if_splits dest!: set_node_dom)
  have rot: "finite (dom h')" if "listRotate h l = Some (h', l')" "finite (dom h)" for h l h' l'
    using that by (auto simp: listRotate_def bind_eq_Some_conv Let_def split: if_splits dest!: set_node_dom)
  obtain h l where s: "s = (h, l)" by force
  show ?thesis using assms ins del rot unfolding s
    by (cases x) (auto simp: listAddNodeHead_def listAddNodeTail_def bind_eq_Some_conv split: if_splits option.splits
        dest!: set_node_dom)
qed

lemma list_ok_dup_match:
  "match_m l' = match_m l \<Longrightarrow> value_matches l' = value_matches l"
  by (simp add: value_matches_def fun_eq_iff)

lemma list_step_ok:
  assumes alloc: "alloc_ok alloc" and fin: "finite (dom h)" and ok: "list_ok h l cs" and x: "op_ok x"
  shows "\<exists>h' l' cs'. list_step alloc (h, l) x = Some ((h', l'), snd (seq_step (value_matches l) (map snd cs) x)) \<and>
    list_ok h' l' cs' \<and> map snd cs' = fst (seq_step (value_matches l) (map snd cs) x) \<and> match_m l' = match_m l"
proof -
  have fresh: "h (alloc h) = None" using alloc fin by (simp add: alloc_ok_def)
  show ?thesis
  proof (cases x)
    case (PushHead v)
    then show ?thesis using listAddNodeHead_ok [OF ok fresh, of v] by force
  next
    case (PushTail v)
    show ?thesis
      using listAddNodeTail_ok [OF ok fresh, of v] by (rule listAddNodeTail_ok [OF ok fresh, of v]) (auto simp: PushTail)
  next
    case (InsertAt i v after)
    then have idx: "listIndex h l i = Some (map_option (\<lambda>i. fst (cs ! i)) (list_pos (length cs) i))"
      using listIndex_ok [OF ok] x by simp
    show ?thesis
    proof (cases "list_pos (length cs) i")
      case None
      then show ?thesis using idx ok InsertAt by auto
    next
      case (Some k)
      then show ?thesis using idx InsertAt listInsertNode_ok [OF ok list_pos_lt [OF Some] fresh, of v after]
        by (cases after) (force simp: take_map drop_map)+
    qed
  next
    case (RemoveAt i)
    then have idx: "listIndex h l i = Some (map_option (\<lambda>i. fst (cs ! i)) (list_pos (length cs) i))"
      using listIndex_ok [OF ok] x by simp
    show ?thesis
    proof (cases "list_pos (length cs) i")
      case None
      then show ?thesis using idx ok RemoveAt by auto
    next
      case (Some k)
      then show ?thesis
        using idx RemoveAt listDelNode_ok [OF ok list_pos_lt [OF Some]] list_ok_value [OF ok list_pos_lt [OF Some]]
          list_pos_lt [OF Some]
        by (force simp: take_map drop_map)
    qed
  next
    case Rotate
    then show ?thesis using listRotate_ok [OF ok] by (auto simp: map_butlast last_map split: if_splits
        intro!: exI [where x = "last cs # butlast cs"])
  next
    case (ValueAt i)
    then have idx: "listIndex h l i = Some (map_option (\<lambda>i. fst (cs ! i)) (list_pos (length cs) i))"
      using listIndex_ok [OF ok] x by simp
    show ?thesis
    proof (cases "list_pos (length cs) i")
      case (Some k)
      then show ?thesis using idx ValueAt ok list_ok_value [OF ok list_pos_lt [OF Some]] list_pos_lt [OF Some]
        by auto
    qed (use idx ValueAt ok in auto)
  next
    case (Member v)
    show ?thesis
    proof (cases "find (\<lambda>c. value_matches l v (snd c)) cs")
      case (Some c)
      then show ?thesis using Member ok listSearchKey_ok [OF ok, of v] find_node [OF ok Some]
        by (auto simp: find_map)
    qed (use Member ok listSearchKey_ok [OF ok, of v] in \<open>auto simp: find_map\<close>)
  qed
qed

section \<open>Properties\<close>

text \<open>(C18) Any sequence of pushes, insertions next to an indexed node, removals, rotations, index reads and
  searches on a linked list dereferences no NULL or freed node, returns what the same operations return
  on the sequence of values, and leaves a well-linked list of the resulting sequence.\<close>

theorem adlist_trace_refinement:
  assumes "alloc_ok alloc" and "list_repr s eq vs" and "\<forall>x \<in> set xs. op_ok x"
  shows "\<exists>s'. list_run alloc s xs = Some (s', snd (seq_run eq vs xs)) \<and>
    list_repr s' eq (fst (seq_run eq vs xs))"
  using assms(2,3)
proof (induction xs arbitrary: s vs)
  case (Cons x xs)
  obtain h l where s: "s = (h, l)" by force
  with Cons.prems obtain cs where cs: "finite (dom h)" "value_matches l = eq" "list_ok h l cs" "map snd cs = vs"
    by (auto simp: list_repr_def)
  from list_step_ok [OF assms(1) cs(1,3), of x] Cons.prems(2) cs(2,4) obtain h' l' cs' where
    step: "list_step alloc s x = Some ((h', l'), snd (seq_step eq vs x))" "list_ok h' l' cs'"
      "map snd cs' = fst (seq_step eq vs x)" "match_m l' = match_m l"
    by (auto simp: s)
  have "finite (dom h')" using list_step_finite [OF step(1)] cs(1) by (simp add: s)
  then have "list_repr (h', l') eq (fst (seq_step eq vs x))"
    using step(2,3) list_ok_dup_match [OF step(4)] cs(2) by (auto simp: list_repr_def)
  from Cons.IH [OF this] Cons.prems(2) step(1) show ?case by (auto simp: Let_def split_beta)
qed simp

definition next_free :: "'v heap \<Rightarrow> nat" where
  "next_free h = (if dom h = {} then 0 else Suc (Max (dom h)))"

lemma alloc_ok_next_free: "alloc_ok next_free"
  unfolding alloc_ok_def next_free_def
  by (metis Max_ge Suc_n_not_le_n domIff empty_iff)

theorem adlist_trace_refinement_witness:
  "\<exists>s'. list_run next_free (Map.empty, listCreate)
      [PushTail (1::nat), PushHead 2, InsertAt (-1) 3 False, Rotate, ValueAt 0, RemoveAt (-2), Member 3]
    = Some (s', [None, None, None, None, Some 1, Some 2, Some 3])"
proof -
  have "list_repr (Map.empty, listCreate) (=) ([] :: nat list)"
    by (auto simp: list_repr_def listCreate_def value_matches_def fun_eq_iff list_ok_def)
  from adlist_trace_refinement [OF alloc_ok_next_free this,
      of "[PushTail 1, PushHead 2, InsertAt (-1) 3 False, Rotate, ValueAt 0, RemoveAt (-2), Member 3]"]
  show ?thesis by (auto simp: list_pos_def)
qed

text \<open>(C19) \<open>listDup\<close> leaves the original list alone.  When the \<open>dup\<close> method accepts every value, the copy is
  a separate well-linked list of the duplicated values; when it refuses one, the result is NULL and every
  node of the partial copy has been released, so the store is as before.\<close>

theorem listDup_correct:
  assumes "alloc_ok alloc" and "finite (dom h)" and "list_ok h l cs"
  shows "\<exists>h' r. listDup alloc h l = Some (h', r) \<and> list_ok h' l cs \<and>
    (if \<forall>c \<in> set cs. dup_value l (snd c) \<noteq> None
     then \<exists>l' ds. r = Some l' \<and> list_ok h' l' ds \<and> map snd ds = map (\<lambda>c. the (dup_value l (snd c))) cs \<and>
       fst ` set ds \<inter> fst ` set cs = {}
     else r = None \<and> h' = h)"
proof -
  let ?c = "listCreate\<lparr>dup_m := dup_m l, match_m := match_m l\<rparr>"
  have dv: "dup_value ?c = dup_value l" by (simp add: dup_value_def fun_eq_iff)
  have c0: "list_ok h ?c []" by (simp add: list_ok_def listCreate_def)
  have seg: "seg h None cs None" "head l = first_ptr cs None" "len l = length cs"
    using assms(3) by (auto simp: list_ok_def)
  have "fst ` set ([] :: (nat \<times> 'a) list) \<inter> fst ` set cs = {}" by simp
  moreover have "length cs < len l + 1" using seg(3) by simp
  ultimately have "\<exists>h' r. listDup_loop alloc (len l + 1) h ?c \<lparr>iter_next = first_ptr cs None, iter_direction = AL_START_HEAD\<rparr>
      = Some (h', r) \<and> (\<forall>x \<in> dom h - fst ` set ([] :: (nat \<times> 'a) list). h' x = h x) \<and>
    (if \<forall>c \<in> set cs. dup_value l (snd c) \<noteq> None
      then \<exists>l' ds. r = Some l' \<and> list_ok h' l' ([] @ ds) \<and> map snd ds = map (\<lambda>c. the (dup_value l (snd c))) cs \<and>
        fst ` set ds \<inter> dom h = {}
      else r = None \<and> h' = h |` (- fst ` set ([] :: (nat \<times> 'a) list)))"
    by (rule listDup_loop_ok [OF assms(1) seg(1) c0 _ assms(2), unfolded dv])
  then
  obtain h' r where
    loop: "listDup_loop alloc (len l + 1) h ?c \<lparr>iter_next = first_ptr cs None, iter_direction = AL_START_HEAD\<rparr> = Some (h', r)"
    and keep: "\<forall>x \<in> dom h - fst ` set ([] :: (nat \<times> 'a) list). h' x = h x" and
    res: "if \<forall>c \<in> set cs. dup_value l (snd c) \<noteq> None
      then \<exists>l' ds. r = Some l' \<and> list_ok h' l' ([] @ ds) \<and> map snd ds = map (\<lambda>c. the (dup_value l (snd c))) cs \<and>
        fst ` set ds \<inter> dom h = {}
      else r = None \<and> h' = h |` (- fst ` set ([] :: (nat \<times> 'a) list))"
    by blast
  have run: "listDup alloc h l = Some (h', r)"
    using loop seg(2) by (simp only: listDup_def listGetIterator_def if_P [OF refl])
  have sub: "fst ` set cs \<subseteq> dom h" using seg_node [OF seg(1)] by (auto simp: domIff)
  then have "seg h' None cs None" using seg(1) keep by (subst seg_fun_cong [where h = h]) auto
  then have "list_ok h' l cs" using assms(3) by (simp add: list_ok_def)
  moreover have "fst ` set ds \<inter> fst ` set cs = {}" if "fst ` set ds \<inter> dom h = {}" for ds :: "(nat \<times> 'a) list"
    using that sub by blast
  ultimately show ?thesis using run res
    by (cases "\<forall>c \<in> set cs. dup_value l (snd c) \<noteq> None") (simp_all add: restrict_map_def, metis)
qed

theorem listDup_correct_witness:
  "\<exists>h' r. listDup next_free [0 \<mapsto> \<lparr>prev_of = None, next_of = None, value_of = (7::nat)\<rparr>]
      (listCreate\<lparr>head := Some 0, tail := Some 0, len := 1, dup_m := Some (\<lambda>_. None)\<rparr>) = Some (h', r) \<and>
    r = None \<and> h' = [0 \<mapsto> \<lparr>prev_of = None, next_of = None, value_of = 7\<rparr>]"
  using listDup_correct [OF alloc_ok_next_free, of "[0 \<mapsto> \<lparr>prev_of = None, next_of = None, value_of = 7\<rparr>]"
      "listCreate\<lparr>head := Some 0, tail := Some 0, len := 1, dup_m := Some (\<lambda>_. None)\<rparr>" "[(0, 7)]"]
  by (auto simp: list_ok_def dup_value_def listCreate_def)

end
