(* ===== verification/Bytes.thy ===== *)
theory Bytes
  imports Prelude
begin

text \<open>
  Memory as a list of bytes: integers stored in little endian order, checked reads and writes of a block
  of bytes, and lists of blocks of one size.  The modelled machine is little endian, so the
  \<open>memrevXXifbe\<close> and \<open>intrevXXifbe\<close> macros of \<^verbatim>\<open>endianconv.h\<close> do nothing.
\<close>

section \<open>Little endian integers\<close>

definition enc_bytes :: "nat \<Rightarrow> int \<Rightarrow> u8 list" where
  "enc_bytes n v = map (\<lambda>i. word_of_int (v div 256 ^ i)) [0..<n]"

fun le_int :: "u8 list \<Rightarrow> int" where
  "le_int [] = 0"
| "le_int (b # bs) = uint b + 256 * le_int bs"

definition dec_signed :: "u8 list \<Rightarrow> int" where
  "dec_signed bs =
    (let u = le_int bs; n = 8 * length bs in if u \<ge> 2 ^ (n - 1) then u - 2 ^ n else u)"

lemma length_enc_bytes [simp]: "length (enc_bytes n v) = n"
  by (simp add: enc_bytes_def)

lemma enc_bytes_Suc: "enc_bytes (Suc n) v = word_of_int v # enc_bytes n (v div 256)"
  by (simp add: enc_bytes_def upt_conv_Cons map_Suc_upt [symmetric] div_mult2_eq' zdiv_zmult2_eq
      del: upt_Suc)

lemma enc_bytes_0 [simp]: "enc_bytes 0 v = []"
  by (simp add: enc_bytes_def)

lemma le_int_enc_bytes: "le_int (enc_bytes n v) = v mod 256 ^ n"
proof (induction n arbitrary: v)
  case (Suc n)
  have "v mod (256 * 256 ^ n) = 256 * (v div 256 mod 256 ^ n) + v mod 256"
    by (rule zmod_zmult2_eq) simp
  then show ?case by (simp add: enc_bytes_Suc Suc.IH uint_word_of_int)
qed simp

lemma le_int_bounds: "0 \<le> le_int bs \<and> le_int bs < 256 ^ length bs"
proof (induction bs)
  case (Cons b bs)
  have "uint b < 256" using uint_lt2p [of b] by simp
  then show ?case using Cons by simp
qed simp

lemma enc_bytes_le_int: "length bs = n \<Longrightarrow> enc_bytes n (le_int bs) = bs"
proof (induction bs arbitrary: n)
  case (Cons b bs)
  have "uint b < 256" using uint_lt2p [of b] by simp
  moreover have "0 \<le> uint b" by simp
  ultimately have "(uint b + 256 * le_int bs) div 256 = le_int bs" by simp
  moreover have "uint (word_of_int (uint b + 256 * le_int bs) :: u8) = (uint b + 256 * le_int bs) mod 256"
    by (simp only: uint_word_of_int) simp
  then have "word_of_int (uint b + 256 * le_int bs) = b"
    using \<open>uint b < 256\<close> by (simp only: word_uint_eq_iff) simp
  ultimately show ?case using Cons by (auto simp: enc_bytes_Suc)
qed simp

lemma dec_signed_enc_bytes:
  assumes "0 < n" "- (2 ^ (8 * n - 1)) \<le> v" "v < 2 ^ (8 * n - 1)"
  shows "dec_signed (enc_bytes n v) = v"
proof -
  have p: "(256 :: int) ^ n = 2 ^ (8 * n)" by (simp add: power_mult)
  have s: "(2 :: int) ^ (8 * n) = 2 * 2 ^ (8 * n - 1)"
    using assms(1) by (simp flip: power_Suc)
  show ?thesis
  proof (cases "v < 0")
    case True
    then have "v mod 2 ^ (8 * n) = v + 2 ^ (8 * n)"
      using assms s by (intro mod_pos_pos_trivial [of "v + 2 ^ (8 * n)" "2 ^ (8 * n)", simplified]) auto
    then show ?thesis using assms s True unfolding dec_signed_def le_int_enc_bytes p
      by (simp add: Let_def)
  next
    case False
    then have "v mod 2 ^ (8 * n) = v" using assms s by (intro mod_pos_pos_trivial) auto
    then show ?thesis using assms unfolding dec_signed_def le_int_enc_bytes p
      by (simp add: Let_def)
  qed
qed

section \<open>Blocks of bytes\<close>

definition read_bytes :: "'a list \<Rightarrow> nat \<Rightarrow> nat \<Rightarrow> 'a list option" where
  "read_bytes m a n = (if a + n \<le> length m then Some (take n (drop a m)) else None)"

definition write_bytes :: "'a list \<Rightarrow> nat \<Rightarrow> 'a list \<Rightarrow> 'a list option" where
  "write_bytes m a bs =
    (if a + length bs \<le> length m then Some (take a m @ bs @ drop (a + length bs) m) else None)"

text \<open>\<open>memmove (m + dst, m + src, n)\<close>\<close>

definition move_bytes :: "'a list \<Rightarrow> nat \<Rightarrow> nat \<Rightarrow> nat \<Rightarrow> 'a list option" where
  "move_bytes m dst src n = do { bs \<leftarrow> read_bytes m src n; write_bytes m dst bs }"

text \<open>\<open>realloc\<close>: \<open>fill\<close> is what the added bytes hold.\<close>

definition realloc_bytes :: "(nat \<Rightarrow> 'a) \<Rightarrow> 'a list \<Rightarrow> nat \<Rightarrow> 'a list" where
  "realloc_bytes fill m n = take n m @ map fill [length m..<n]"

lemma length_realloc_bytes [simp]: "length (realloc_bytes fill m n) = n"
  by (simp add: realloc_bytes_def)

lemma read_bytes_app [simp]:
  "length xs = a \<Longrightarrow> length bs = n \<Longrightarrow> read_bytes (xs @ bs @ ys) a n = Some bs"
  by (simp add: read_bytes_def)

lemma write_bytes_app:
  "length xs = a \<Longrightarrow> length old = length bs \<Longrightarrow> write_bytes (xs @ old @ ys) a bs = Some (xs @ bs @ ys)"
  by (simp add: write_bytes_def)

lemma length_write_bytes: "write_bytes m a bs = Some m' \<Longrightarrow> length m' = length m"
  by (auto simp: write_bytes_def split: if_splits)

lemma realloc_grow: "length m \<le> n \<Longrightarrow> \<exists>rest. realloc_bytes fill m n = m @ rest \<and> length rest = n - length m"
  by (simp add: realloc_bytes_def)

lemma realloc_shrink: "length m = n \<Longrightarrow> realloc_bytes fill (m @ rest) n = m"
  by (simp add: realloc_bytes_def)

section \<open>Lists of blocks\<close>

definition blocks :: "nat \<Rightarrow> int list \<Rightarrow> u8 list" where
  "blocks e vs = concat (map (enc_bytes e) vs)"

lemma blocks_simps [simp]:
  "blocks e [] = []" "blocks e (v # vs) = enc_bytes e v @ blocks e vs"
  "blocks e (vs @ ws) = blocks e vs @ blocks e ws"
  by (simp_all add: blocks_def)

lemma length_blocks [simp]: "length (blocks e vs) = length vs * e"
  by (induction vs) auto

lemma read_blocks:
  assumes "i < length vs"
  shows "read_bytes (blocks e vs @ rest) (i * e) e = Some (enc_bytes e (vs ! i))"
proof -
  have "vs = take i vs @ vs ! i # drop (Suc i) vs" using assms by (rule id_take_nth_drop)
  then have "blocks e vs @ rest = blocks e (take i vs) @ enc_bytes e (vs ! i) @ (blocks e (drop (Suc i) vs) @ rest)"
    by (metis append_assoc blocks_simps(2) blocks_simps(3))
  then show ?thesis using assms by simp
qed

end
