(* ===== verification/Set_Store.thy ===== *)
theory Set_Store
  imports Prelude
begin

text \<open>
  The interface of a finite set of elements, as the set type uses its two encodings (an intset or a hash
  table): adding reports whether the element was new, removing whether it was there.
\<close>

datatype 'a set_op = SAdd 'a | SRemove 'a | SFind 'a

fun set_op_elem :: "'a set_op \<Rightarrow> 'a" where
  "set_op_elem (SAdd a) = a"
| "set_op_elem (SRemove a) = a"
| "set_op_elem (SFind a) = a"

fun abs_set_step :: "'a set \<Rightarrow> 'a set_op \<Rightarrow> 'a set \<times> bool" where
  "abs_set_step A (SAdd a) = (insert a A, a \<notin> A)"
| "abs_set_step A (SRemove a) = (A - {a}, a \<in> A)"
| "abs_set_step A (SFind a) = (A, a \<in> A)"

fun abs_set_run :: "'a set \<Rightarrow> 'a set_op list \<Rightarrow> 'a set \<times> bool list" where
  "abs_set_run A [] = (A, [])"
| "abs_set_run A (x # xs) = (let (A, r) = abs_set_step A x; (A, rs) = abs_set_run A xs in (A, r # rs))"

record ('s, 'a) set_ops =
  s_add :: "'s \<Rightarrow> 'a \<Rightarrow> ('s \<times> bool) option"
  s_remove :: "'s \<Rightarrow> 'a \<Rightarrow> ('s \<times> bool) option"
  s_find :: "'s \<Rightarrow> 'a \<Rightarrow> ('s \<times> bool) option"

fun set_step :: "('s, 'a) set_ops \<Rightarrow> 's \<Rightarrow> 'a set_op \<Rightarrow> ('s \<times> bool) option" where
  "set_step P s (SAdd a) = s_add P s a"
| "set_step P s (SRemove a) = s_remove P s a"
| "set_step P s (SFind a) = s_find P s a"

fun set_run :: "('s, 'a) set_ops \<Rightarrow> 's \<Rightarrow> 'a set_op list \<Rightarrow> ('s \<times> bool list) option" where
  "set_run P s [] = Some (s, [])"
| "set_run P s (x # xs) = do {
     (s, r) \<leftarrow> set_step P s x; (s, rs) \<leftarrow> set_run P s xs; Some (s, r # rs) }"

text \<open>\<open>elem_ok\<close> restricts the elements a provider accepts; \<open>room n s\<close> is space for \<open>n\<close> more of them.\<close>

locale set_store =
  fixes P :: "('s, 'a) set_ops" and inv :: "'s \<Rightarrow> bool" and elems :: "'s \<Rightarrow> 'a set"
    and elem_ok :: "'a \<Rightarrow> bool" and room :: "nat \<Rightarrow> 's \<Rightarrow> bool"
  assumes add: "inv s \<Longrightarrow> elem_ok a \<Longrightarrow> room (Suc n) s \<Longrightarrow>
      \<exists>s'. s_add P s a = Some (s', a \<notin> elems s) \<and> inv s' \<and> elems s' = insert a (elems s) \<and> room n s'"
    and remove: "inv s \<Longrightarrow> elem_ok a \<Longrightarrow> room n s \<Longrightarrow>
      \<exists>s'. s_remove P s a = Some (s', a \<in> elems s) \<and> inv s' \<and> elems s' = elems s - {a} \<and> room n s'"
    and find: "inv s \<Longrightarrow> elem_ok a \<Longrightarrow> room n s \<Longrightarrow>
      \<exists>s'. s_find P s a = Some (s', a \<in> elems s) \<and> inv s' \<and> elems s' = elems s \<and> room n s'"
    and room_le: "room (Suc n) s \<Longrightarrow> room n s"
begin

lemma step_refines:
  assumes "inv s" "elem_ok (set_op_elem x)" "room (Suc n) s"
  shows "\<exists>s'. set_step P s x = Some (s', snd (abs_set_step (elems s) x)) \<and> inv s' \<and>
    elems s' = fst (abs_set_step (elems s) x) \<and> room n s'"
  using add [OF assms(1) _ assms(3)] remove [OF assms(1) _ room_le [OF assms(3)]]
    find [OF assms(1) _ room_le [OF assms(3)]] assms(2)
  by (cases x) auto

lemma run_refines:
  "inv s \<Longrightarrow> \<forall>x \<in> set xs. elem_ok (set_op_elem x) \<Longrightarrow> room (length xs) s \<Longrightarrow>
    \<exists>s'. set_run P s xs = Some (s', snd (abs_set_run (elems s) xs)) \<and> inv s' \<and>
      elems s' = fst (abs_set_run (elems s) xs)"
proof (induction xs arbitrary: s)
  case (Cons x xs)
  then obtain s1 where s1: "set_step P s x = Some (s1, snd (abs_set_step (elems s) x))" "inv s1"
      "elems s1 = fst (abs_set_step (elems s) x)" "room (length xs) s1"
    using step_refines [of s x "length xs"] by auto
  from Cons.IH [OF s1(2) _ s1(4)] Cons.prems(2) s1(1,3) show ?case
    by (auto simp: Let_def split_beta)
qed simp

end

end
