(* ===== verification/Intset.thy ===== *)
theory Intset
  imports Bytes Set_Store
begin

text \<open>
  The sorted integer array of \<^verbatim>\<open>src/redis-3.0.3/src/intset.c\<close>, at the level of its bytes: \<open>contents\<close> is
  the flexible array behind the header, as long as what was allocated for it.  The encoding is the
  size of an element in bytes.  Reads and writes outside the array are faults.
\<close>

section \<open>Data and element access\<close>

record intset =
  encoding :: nat
  ilength :: nat
  contents :: "u8 list"

abbreviation (input) INTSET_ENC_INT16 :: nat where "INTSET_ENC_INT16 \<equiv> 2"
abbreviation (input) INTSET_ENC_INT32 :: nat where "INTSET_ENC_INT32 \<equiv> 4"
abbreviation (input) INTSET_ENC_INT64 :: nat where "INTSET_ENC_INT64 \<equiv> 8"

definition intsetValueEncoding :: "int \<Rightarrow> nat" where
  "intsetValueEncoding v =
    (if v < - (2 ^ 31) \<or> v > 2 ^ 31 - 1 then INTSET_ENC_INT64
     else if v < - (2 ^ 15) \<or> v > 2 ^ 15 - 1 then INTSET_ENC_INT32
     else INTSET_ENC_INT16)"

text \<open>Any other encoding is read as 16 bit, as in the code's last branch.\<close>

definition enc_size :: "nat \<Rightarrow> nat" where
  "enc_size enc = (if enc = INTSET_ENC_INT64 then 8 else if enc = INTSET_ENC_INT32 then 4 else 2)"

definition intsetGetEncoded :: "intset \<Rightarrow> nat \<Rightarrow> nat \<Rightarrow> int option" where
  "intsetGetEncoded s pos enc =
    map_option dec_signed (read_bytes (contents s) (pos * enc_size enc) (enc_size enc))"

definition intsetGet_at :: "intset \<Rightarrow> nat \<Rightarrow> int option" where
  "intsetGet_at s pos = intsetGetEncoded s pos (encoding s)"

definition intsetSet :: "intset \<Rightarrow> nat \<Rightarrow> int \<Rightarrow> intset option" where
  "intsetSet s pos value =
    (let e = enc_size (encoding s) in
     map_option (\<lambda>c. s\<lparr>contents := c\<rparr>) (write_bytes (contents s) (pos * e) (enc_bytes e value)))"

definition intsetNew :: intset where
  "intsetNew = \<lparr>encoding = INTSET_ENC_INT16, ilength = 0, contents = []\<rparr>"

definition intsetResize :: "(nat \<Rightarrow> u8) \<Rightarrow> intset \<Rightarrow> nat \<Rightarrow> intset" where
  "intsetResize fill s len =
    s\<lparr>contents := realloc_bytes fill (contents s) (len * encoding s mod 2 ^ 32)\<rparr>"

section \<open>Search\<close>

text \<open>A 32 bit unsigned value stored in an \<open>int\<close>.\<close>

definition to_int32 :: "nat \<Rightarrow> int" where
  "to_int32 x = (if x < 2 ^ 31 then int x else int x - 2 ^ 32)"

text \<open>The binary search: \<open>mid\<close>, \<open>cur\<close> and \<open>min\<close> when the loop ends.  A position outside the array
  faults in the read.\<close>

definition mid_point :: "int \<Rightarrow> int \<Rightarrow> int" where
  "mid_point mn mx = to_int32 ((nat (mn mod 2 ^ 32) + nat (mx mod 2 ^ 32)) mod 2 ^ 32 div 2)"

function intsetSearch_loop :: "intset \<Rightarrow> int \<Rightarrow> int \<Rightarrow> int \<Rightarrow> int \<Rightarrow> int \<Rightarrow> (int \<times> int \<times> int) option" where
  "intsetSearch_loop s value mn mx mid cur =
    (if mx \<ge> mn then
       (let mid = mid_point mn mx in
        if mid < mn \<or> mid > mx then None
        else case intsetGet_at s (nat mid) of
          None \<Rightarrow> None
        | Some cur \<Rightarrow>
            if value > cur then intsetSearch_loop s value (mid + 1) mx mid cur
            else if value < cur then intsetSearch_loop s value mn (mid - 1) mid cur
            else Some (mid, cur, mn))
     else Some (mid, cur, mn))"
  by pat_completeness auto
termination by (relation "measure (\<lambda>(s, value, mn, mx, mid, cur). nat (mx - mn + 1))") auto

declare intsetSearch_loop.simps [simp del]

definition intsetSearch :: "intset \<Rightarrow> int \<Rightarrow> (bool \<times> nat) option" where
  "intsetSearch s value =
    (if ilength s = 0 then Some (False, 0)
     else do {
       last \<leftarrow> intsetGet_at s (ilength s - 1);
       if value > last then Some (False, ilength s)
       else do {
         first \<leftarrow> intsetGet_at s 0;
         if value < first then Some (False, 0)
         else do {
           (mid, cur, mn) \<leftarrow> intsetSearch_loop s value 0 (to_int32 ((ilength s - 1) mod 2 ^ 32)) (-1) (-1);
           if value = cur then Some (True, nat mid) else Some (False, nat mn)
         }
       }
     })"

section \<open>Insertion and removal\<close>

text \<open>The loop of \<open>intsetUpgradeAndAdd\<close> converts the elements from the last one down, in place.\<close>

fun upgrade_loop :: "intset \<Rightarrow> nat \<Rightarrow> nat \<Rightarrow> nat \<Rightarrow> intset option" where
  "upgrade_loop s prepend curenc 0 = Some s"
| "upgrade_loop s prepend curenc (Suc len) = do {
     v \<leftarrow> intsetGetEncoded s len curenc;
     s \<leftarrow> intsetSet s (len + prepend) v;
     upgrade_loop s prepend curenc len }"

definition intsetUpgradeAndAdd :: "(nat \<Rightarrow> u8) \<Rightarrow> intset \<Rightarrow> int \<Rightarrow> intset option" where
  "intsetUpgradeAndAdd fill s value =
    (let curenc = encoding s; newenc = intsetValueEncoding value;
         prepend = (if value < 0 then 1 else 0);
         s = intsetResize fill (s\<lparr>encoding := newenc\<rparr>) (ilength s + 1) in
     do {
       s \<leftarrow> upgrade_loop s prepend curenc (ilength s);
       s \<leftarrow> (if prepend = 1 then intsetSet s 0 value else intsetSet s (ilength s) value);
       Some (s\<lparr>ilength := (ilength s + 1) mod 2 ^ 32\<rparr>)
     })"

definition intsetMoveTail :: "intset \<Rightarrow> nat \<Rightarrow> nat \<Rightarrow> intset option" where
  "intsetMoveTail s src dst =
    (let e = enc_size (encoding s) in
     map_option (\<lambda>c. s\<lparr>contents := c\<rparr>)
       (move_bytes (contents s) (dst * e) (src * e) ((ilength s - src) * e)))"

definition intsetAdd :: "(nat \<Rightarrow> u8) \<Rightarrow> intset \<Rightarrow> int \<Rightarrow> (intset \<times> bool) option" where
  "intsetAdd fill s value =
    (if intsetValueEncoding value > encoding s then
       map_option (\<lambda>s. (s, True)) (intsetUpgradeAndAdd fill s value)
     else do {
       (found, pos) \<leftarrow> intsetSearch s value;
       if found then Some (s, False)
       else do {
         let s = intsetResize fill s (ilength s + 1);
         s \<leftarrow> (if pos < ilength s then intsetMoveTail s pos (pos + 1) else Some s);
         s \<leftarrow> intsetSet s pos value;
         Some (s\<lparr>ilength := (ilength s + 1) mod 2 ^ 32\<rparr>, True)
       }
     })"

definition intsetRemove :: "(nat \<Rightarrow> u8) \<Rightarrow> intset \<Rightarrow> int \<Rightarrow> (intset \<times> bool) option" where
  "intsetRemove fill s value =
    (if intsetValueEncoding value \<le> encoding s then do {
       (found, pos) \<leftarrow> intsetSearch s value;
       if found then do {
         let len = ilength s;
         s \<leftarrow> (if pos < len - 1 then intsetMoveTail s (pos + 1) pos else Some s);
         Some ((intsetResize fill s (len - 1))\<lparr>ilength := len - 1\<rparr>, True)
       } else Some (s, False)
     } else Some (s, False))"

definition intsetFind :: "intset \<Rightarrow> int \<Rightarrow> bool option" where
  "intsetFind s value =
    (if intsetValueEncoding value \<le> encoding s then map_option fst (intsetSearch s value) else Some False)"

text \<open>\<open>rnd\<close> is what \<open>rand()\<close> returns; an empty set is a division by zero.\<close>

definition intsetRandom :: "nat \<Rightarrow> intset \<Rightarrow> int option" where
  "intsetRandom rnd s = (if ilength s = 0 then None else intsetGet_at s (rnd mod ilength s))"

definition intsetGet :: "intset \<Rightarrow> nat \<Rightarrow> int option option" where
  "intsetGet s pos = (if pos < ilength s then map_option Some (intsetGet_at s pos) else Some None)"

definition intsetLen :: "intset \<Rightarrow> nat" where
  "intsetLen s = ilength s"

definition intsetBlobLen :: "intset \<Rightarrow> nat" where
  "intsetBlobLen s = 8 + ilength s * encoding s mod 2 ^ 32"

section \<open>The represented sequence\<close>

definition enc_range :: "nat \<Rightarrow> int \<Rightarrow> bool" where
  "enc_range e v \<longleftrightarrow> - (2 ^ (8 * e - 1)) \<le> v \<and> v < 2 ^ (8 * e - 1)"

text \<open>\<open>intset_repr s vs\<close>: strictly increasing values in the range of the encoding, stored without a gap
  and without spare space.  The lengths stay where 32 bit sizes and positions do not wrap around.\<close>

definition intset_repr :: "intset \<Rightarrow> int list \<Rightarrow> bool" where
  "intset_repr s vs \<longleftrightarrow> encoding s \<in> {2, 4, 8} \<and> ilength s = length vs \<and>
     contents s = blocks (encoding s) vs \<and> (\<forall>v \<in> set vs. enc_range (encoding s) v) \<and>
     sorted_wrt (<) vs \<and> length vs * 8 < 2 ^ 32"

lemma enc_size_id: "e \<in> {2, 4, 8} \<Longrightarrow> enc_size e = e"
  by (auto simp: enc_size_def)

lemma dec_enc: "0 < e \<Longrightarrow> enc_range e v \<Longrightarrow> dec_signed (enc_bytes e v) = v"
  by (simp add: enc_range_def dec_signed_enc_bytes)

lemma intsetGet_at_ok: "intset_repr s vs \<Longrightarrow> i < length vs \<Longrightarrow> intsetGet_at s i = Some (vs ! i)"
  using read_blocks [of i vs "encoding s" "[]"]
  by (auto simp: intset_repr_def intsetGet_at_def intsetGetEncoded_def enc_size_id dec_enc)

lemma mid_point_ok: "0 \<le> mn \<Longrightarrow> mn \<le> mx \<Longrightarrow> mx < 2 ^ 31 \<Longrightarrow> mid_point mn mx = (mn + mx) div 2"
proof -
  assume a: "0 \<le> mn" "mn \<le> mx" "mx < 2 ^ 31"
  have "nat (mn mod 2 ^ 32) = nat mn" "nat (mx mod 2 ^ 32) = nat mx" using a by simp_all
  moreover have "(nat mn + nat mx) mod 2 ^ 32 = nat (mn + mx)" using a by (simp add: nat_add_distrib)
  ultimately have "mid_point mn mx = to_int32 (nat (mn + mx) div 2)" by (simp only: mid_point_def)
  also have "nat (mn + mx) div 2 = nat ((mn + mx) div 2)" by (simp add: nat_div_distrib)
  finally show ?thesis using a by (simp add: to_int32_def)
qed

section \<open>Search\<close>

lemma sorted_nth_less: "sorted_wrt (<) (vs :: int list) \<Longrightarrow> i < length vs \<Longrightarrow> j < length vs \<Longrightarrow>
    vs ! i < vs ! j \<longleftrightarrow> i < j"
  by (metis linorder_neqE_nat order_less_asym order_less_irrefl sorted_wrt_iff_nth_less)

lemma intsetSearch_loop_ok:
  assumes repr: "intset_repr s vs" and len: "length vs < 2 ^ 31"
  shows "0 \<le> mn \<Longrightarrow> mx < int (length vs) \<Longrightarrow> mn \<le> mx + 1 \<Longrightarrow>
    (\<forall>i < nat mn. vs ! i < v) \<Longrightarrow> (\<forall>i < length vs. mx < int i \<longrightarrow> v < vs ! i) \<Longrightarrow>
    (mx < mn \<longrightarrow> cur \<noteq> v) \<Longrightarrow>
    \<exists>mid' cur' mn'. intsetSearch_loop s v mn mx mid cur = Some (mid', cur', mn') \<and>
      (if v \<in> set vs then cur' = v \<and> nat mid' < length vs \<and> vs ! nat mid' = v
       else cur' \<noteq> v \<and> nat mn' \<le> length vs \<and> (\<forall>i < nat mn'. vs ! i < v) \<and>
         (\<forall>i < length vs. nat mn' \<le> i \<longrightarrow> v < vs ! i))"
proof (induction "nat (mx - mn + 1)" arbitrary: mn mx mid cur rule: less_induct)
  case less
  have sorted: "sorted_wrt (<) vs" using repr by (simp add: intset_repr_def)
  show ?case
  proof (cases "mn \<le> mx")
    case False
    then have "mx = mn - 1" using less.prems by simp
    then have "v \<notin> set vs" using less.prems(4,5)
      by (auto simp: in_set_conv_nth) (metis less_irrefl nat_less_iff not_less of_nat_less_iff zless_nat_eq_int_zless
          add_diff_cancel diff_less_eq int_nat_eq less.prems(1) zle_diff1_eq)
    then show ?thesis using less.prems False \<open>mx = mn - 1\<close>
      by (subst intsetSearch_loop.simps) auto
  next
    case True
    define m where "m = (mn + mx) div 2"
    have m: "mn \<le> m" "m \<le> mx" using True by (auto simp: m_def)
    have mid: "mid_point mn mx = m" using mid_point_ok [of mn mx] less.prems len True by (simp add: m_def)
    have mi: "nat m < length vs" "0 \<le> m" using m less.prems by auto
    note get = intsetGet_at_ok [OF repr mi(1)]
    have lt: "vs ! i < vs ! j \<longleftrightarrow> i < j" if "i < length vs" "j < length vs" for i j
      using sorted_nth_less [OF sorted that] .
    consider "v > vs ! nat m" | "v < vs ! nat m" | "v = vs ! nat m" by linarith
    then show ?thesis
    proof cases
      case 1
      have "\<forall>i < nat (m + 1). vs ! i < v"
      proof (intro allI impI)
        fix i assume "i < nat (m + 1)"
        then have "i \<le> nat m" by linarith
        then show "vs ! i < v" using 1 lt [of i "nat m"] mi by (cases "i = nat m") auto
      qed
      moreover have "intsetSearch_loop s v mn mx mid cur = intsetSearch_loop s v (m + 1) mx m (vs ! nat m)"
        using True 1 m mid get by (subst intsetSearch_loop.simps) (simp add: Let_def)
      ultimately show ?thesis using less.hyps [of mx "m + 1" "vs ! nat m" m] less.prems m 1 by simp
    next
      case 2
      have "\<forall>i < length vs. m - 1 < int i \<longrightarrow> v < vs ! i"
      proof (intro allI impI)
        fix i assume "i < length vs" "m - 1 < int i"
        then have "nat m \<le> i" by linarith
        then show "v < vs ! i" using 2 lt [of "nat m" i] mi \<open>i < length vs\<close> by (cases "i = nat m") auto
      qed
      moreover have "intsetSearch_loop s v mn mx mid cur = intsetSearch_loop s v mn (m - 1) m (vs ! nat m)"
        using True 2 m mid get by (subst intsetSearch_loop.simps) (simp add: Let_def)
      ultimately show ?thesis using less.hyps [of "m - 1" mn "vs ! nat m" m] less.prems m 2 by simp
    next
      case 3
      then show ?thesis using True m mid get mi
        by (subst intsetSearch_loop.simps) (auto simp: Let_def)
    qed
  qed
qed

definition lower :: "int \<Rightarrow> int list \<Rightarrow> int list" where
  "lower v vs = filter (\<lambda>x. x < v) vs"

definition upper :: "int \<Rightarrow> int list \<Rightarrow> int list" where
  "upper v vs = filter (\<lambda>x. v < x) vs"

lemma sorted_split: "sorted_wrt (<) vs \<Longrightarrow> vs = lower v vs @ (if v \<in> set vs then [v] else []) @ upper v vs"
proof (induction vs)
  case (Cons x xs)
  have "v < x \<Longrightarrow> lower v xs = [] \<and> upper v xs = xs \<and> v \<notin> set xs"
    using Cons.prems by (auto simp: lower_def upper_def filter_empty_conv filter_id_conv)
  moreover have "v = x \<Longrightarrow> lower v xs = [] \<and> upper v xs = xs \<and> v \<notin> set xs"
    using Cons.prems by (auto simp: lower_def upper_def filter_empty_conv filter_id_conv)
  ultimately show ?case using Cons by (cases v x rule: linorder_cases) (auto simp: lower_def upper_def)
qed (simp add: lower_def upper_def)

lemma lower_length:
  assumes "k \<le> length vs" "\<forall>i < k. vs ! i < v" "\<forall>i < length vs. k \<le> i \<longrightarrow> \<not> vs ! i < v"
  shows "length (lower v vs) = k"
proof -
  have "lower v vs = lower v (take k vs) @ lower v (drop k vs)"
    by (simp add: lower_def flip: filter_append)
  moreover have "lower v (take k vs) = take k vs"
    using assms by (auto simp: lower_def filter_id_conv in_set_conv_nth)
  moreover have "lower v (drop k vs) = []"
    using assms by (auto simp: lower_def filter_empty_conv in_set_conv_nth)
  ultimately show ?thesis using assms(1) by simp
qed

lemma repr_len: "intset_repr s vs \<Longrightarrow> length vs < 2 ^ 31 \<and> to_int32 ((ilength s - 1) mod 2 ^ 32) = int (length vs - 1)"
  by (auto simp: intset_repr_def to_int32_def)

lemma intsetSearch_ok:
  assumes repr: "intset_repr s vs"
  shows "intsetSearch s v = Some (v \<in> set vs, length (lower v vs))"
proof (cases "vs = []")
  case True
  then show ?thesis using repr by (simp add: intsetSearch_def intset_repr_def lower_def)
next
  case False
  have sorted: "sorted_wrt (<) vs" and len: "ilength s = length vs" using repr by (auto simp: intset_repr_def)
  have lt: "vs ! i < vs ! j \<longleftrightarrow> i < j" if "i < length vs" "j < length vs" for i j
    using sorted_nth_less [OF sorted that] .
  have ends: "intsetGet_at s (length vs - 1) = Some (vs ! (length vs - 1))" "intsetGet_at s 0 = Some (vs ! 0)"
    using False intsetGet_at_ok [OF repr] by auto
  consider "v > vs ! (length vs - 1)" | "v < vs ! 0" "\<not> v > vs ! (length vs - 1)"
    | "\<not> v < vs ! 0" "\<not> v > vs ! (length vs - 1)" by linarith
  then show ?thesis
  proof cases
    case 1
    have all: "\<forall>i < length vs. vs ! i < v"
    proof (intro allI impI)
      fix i assume "i < length vs"
      then have "vs ! i \<le> vs ! (length vs - 1)" using lt [of i "length vs - 1"] False by (cases "i = length vs - 1") auto
      then show "vs ! i < v" using 1 by simp
    qed
    then have "length (lower v vs) = length vs" by (intro lower_length) auto
    moreover have "v \<notin> set vs" using all by (auto simp: in_set_conv_nth)
    ultimately show ?thesis using False 1 ends len by (simp add: intsetSearch_def)
  next
    case 2
    have all: "\<forall>i < length vs. v < vs ! i"
    proof (intro allI impI)
      fix i assume "i < length vs"
      then have "vs ! 0 \<le> vs ! i" using lt [of 0 i] False by (cases "i = 0") auto
      then show "v < vs ! i" using 2 by simp
    qed
    then have "length (lower v vs) = 0" by (intro lower_length) auto
    moreover have "v \<notin> set vs" using all by (auto simp: in_set_conv_nth)
    ultimately show ?thesis using False 2 ends len by (simp add: intsetSearch_def)
  next
    case 3
    have n: "length vs < 2 ^ 31" "to_int32 ((ilength s - 1) mod 2 ^ 32) = int (length vs - 1)"
      using repr_len [OF repr] by auto
    obtain mid cur mn where loop:
      "intsetSearch_loop s v 0 (int (length vs - 1)) (- 1) (- 1) = Some (mid, cur, mn)"
      "if v \<in> set vs then cur = v \<and> nat mid < length vs \<and> vs ! nat mid = v
       else cur \<noteq> v \<and> nat mn \<le> length vs \<and> (\<forall>i < nat mn. vs ! i < v) \<and>
         (\<forall>i < length vs. nat mn \<le> i \<longrightarrow> v < vs ! i)"
      using intsetSearch_loop_ok [OF repr n(1), of 0 "int (length vs - 1)" v "- 1" "- 1"] False
      by (auto simp: Suc_le_eq)
    have "length (lower v vs) = nat (if v \<in> set vs then mid else mn)"
    proof (cases "v \<in> set vs")
      case True
      then have mid: "nat mid < length vs" "vs ! nat mid = v" using loop(2) by auto
      have "vs ! i < v \<longleftrightarrow> i < nat mid" if "i < length vs" for i using lt [OF that mid(1)] mid(2) by simp
      then have "length (lower v vs) = nat mid" using mid(1) by (intro lower_length) auto
      then show ?thesis using True by simp
    next
      case no: False
      then have "length (lower v vs) = nat mn" using loop(2)
        by (intro lower_length) (auto simp: order_less_imp_not_less)
      then show ?thesis using no by simp
    qed
    moreover have "intsetSearch s v = (if v = cur then Some (True, nat mid) else Some (False, nat mn))"
      using False 3 ends len loop(1) n(2) by (simp add: intsetSearch_def)
    ultimately show ?thesis using loop(2) by (cases "v \<in> set vs") simp_all
  qed
qed

section \<open>Insertion and removal\<close>

lemma intsetSet_ok:
  assumes "encoding s \<in> {2, 4, 8}" "contents s = pre @ old @ post" "length pre = pos * encoding s"
    "length old = encoding s"
  shows "intsetSet s pos v = Some (s\<lparr>contents := pre @ enc_bytes (encoding s) v @ post\<rparr>)"
  using assms by (simp add: intsetSet_def enc_size_id write_bytes_app)

lemma intsetMoveTail_ok:
  assumes "encoding s \<in> {2, 4, 8}" "contents s = pre @ old @ post" "length old = (ilength s - src) * encoding s"
    "contents s = pre' @ bytes @ post'" "length pre' = src * encoding s" "length pre = dst * encoding s"
    "length bytes = (ilength s - src) * encoding s"
  shows "intsetMoveTail s src dst = Some (s\<lparr>contents := pre @ bytes @ post\<rparr>)"
proof -
  have "read_bytes (contents s) (src * encoding s) ((ilength s - src) * encoding s) = Some bytes"
    unfolding assms(4) using assms(5,7) by simp
  moreover have "write_bytes (contents s) (dst * encoding s) bytes = Some (pre @ bytes @ post)"
    unfolding assms(2) using assms(3,6,7) by (intro write_bytes_app) auto
  ultimately show ?thesis using assms(1) by (simp add: intsetMoveTail_def move_bytes_def enc_size_id)
qed

text \<open>The in-place conversion: the first \<open>k\<close> elements still have the old size, the others already
  occupy their final place; the gap between the two never closes.\<close>

lemma upgrade_loop_ok:
  assumes e: "e \<in> {2, 4, 8}" "ne \<in> {2, 4, 8}" "e \<le> ne"
  shows "k \<le> length vs \<Longrightarrow> \<forall>v \<in> set vs. enc_range e v \<Longrightarrow> encoding s = ne \<Longrightarrow>
    contents s = blocks e (take k vs) @ gap @ blocks ne (drop k vs) @ rest \<Longrightarrow>
    length gap = (k + p) * ne - k * e \<Longrightarrow>
    \<exists>gap'. upgrade_loop s p e k = Some (s\<lparr>contents := gap' @ blocks ne vs @ rest\<rparr>) \<and> length gap' = p * ne"
proof (induction k arbitrary: s gap)
  case 0
  then show ?case by (intro exI [of _ gap]) simp
next
  case (Suc k)
  have k: "k < length vs" using Suc.prems by simp
  let ?v = "vs ! k"
  have take: "take (Suc k) vs = take k vs @ [?v]" using k by (simp add: take_Suc_conv_app_nth)
  have le: "k * e \<le> (k + p) * ne" by (rule mult_le_mono) (use e(3) in simp_all)
  have le2: "Suc k * e \<le> (Suc k + p) * ne" by (rule mult_le_mono) (use e(3) in simp_all)
  have c: "contents s = blocks e (take k vs) @ enc_bytes e ?v @ gap @ blocks ne (drop (Suc k) vs) @ rest"
    using Suc.prems(4) take by simp
  have "read_bytes (contents s) (k * e) e = Some (enc_bytes e ?v)"
    unfolding c using k by (intro read_bytes_app) auto
  then have get: "intsetGetEncoded s k e = Some ?v"
    using Suc.prems(2) k e by (auto simp: intsetGetEncoded_def enc_size_id dec_enc)
  let ?mid = "enc_bytes e ?v @ gap"
  have len_mid: "length ?mid = (k + p) * ne - k * e + ne"
    using Suc.prems(5) le le2 by (simp add: algebra_simps)
  have "(k + p) * ne - k * e \<le> length ?mid" using len_mid by simp
  then obtain g old where go: "?mid = g @ old" and gl: "length g = (k + p) * ne - k * e"
      "length old = length ?mid - ((k + p) * ne - k * e)"
    by (rule split_at)
  then have gl: "length g = (k + p) * ne - k * e" "length old = ne" using len_mid by simp_all
  have c1: "contents s = (blocks e (take k vs) @ g) @ old @ (blocks ne (drop (Suc k) vs) @ rest)"
    using c go by (metis append_assoc)
  have l1: "length (blocks e (take k vs) @ g) = (k + p) * encoding s"
    using gl(1) k le Suc.prems(3) by simp
  have set: "intsetSet s (k + p) ?v =
      Some (s\<lparr>contents := (blocks e (take k vs) @ g) @ enc_bytes ne ?v @ (blocks ne (drop (Suc k) vs) @ rest)\<rparr>)"
    using intsetSet_ok [OF _ c1 l1, of ?v] e(2) gl(2) Suc.prems(3) by simp
  have drop: "drop k vs = ?v # drop (Suc k) vs" using k by (rule Cons_nth_drop_Suc [symmetric])
  have "\<exists>gap'. upgrade_loop (s\<lparr>contents := (blocks e (take k vs) @ g) @ enc_bytes ne ?v @ (blocks ne (drop (Suc k) vs) @ rest)\<rparr>) p e k =
      Some ((s\<lparr>contents := (blocks e (take k vs) @ g) @ enc_bytes ne ?v @ (blocks ne (drop (Suc k) vs) @ rest)\<rparr>)
        \<lparr>contents := gap' @ blocks ne vs @ rest\<rparr>) \<and> length gap' = p * ne"
    using Suc.prems k gl(1) drop by (intro Suc.IH [of _ g]) auto
  then show ?case using get set by simp
qed

lemma intsetValueEncoding_range:
  assumes "enc_range 8 v" "e \<in> {2, 4, 8}"
  shows "intsetValueEncoding v \<le> e \<longleftrightarrow> enc_range e v" and "intsetValueEncoding v \<in> {2, 4, 8}"
    and "enc_range (intsetValueEncoding v) v"
  using assms by (auto simp: intsetValueEncoding_def enc_range_def)

lemma enc_range_mono: "enc_range e v \<Longrightarrow> e \<le> e' \<Longrightarrow> 0 < e \<Longrightarrow> enc_range e' v"
proof -
  assume a: "enc_range e v" "e \<le> e'" "0 < e"
  have "(2::int) ^ (8 * e - 1) \<le> 2 ^ (8 * e' - 1)" using a by (intro power_increasing) auto
  then show ?thesis using a(1) unfolding enc_range_def by linarith
qed

text \<open>A value outside the range of the encoding lies below or above all elements, by its sign.\<close>

lemma outside_range:
  assumes "\<not> enc_range e v" "\<forall>x \<in> set vs. enc_range e x" "v < 0 \<or> 0 \<le> v"
  shows "\<forall>x \<in> set vs. if v < 0 then v < x else x < v"
proof -
  have "(0::int) < 2 ^ (8 * e - 1)" by simp
  then show ?thesis using assms by (force simp: enc_range_def)
qed

lemma intsetUpgradeAndAdd_ok:
  assumes repr: "intset_repr s vs" and v: "enc_range 8 v" and up: "encoding s < intsetValueEncoding v"
    and room: "(length vs + 1) * 8 < 2 ^ 32"
  shows "\<exists>s'. intsetUpgradeAndAdd fill s v = Some s' \<and> intset_repr s' (if v < 0 then v # vs else vs @ [v])"
proof -
  let ?e = "encoding s" and ?ne = "intsetValueEncoding v"
  define p where "p = (if v < 0 then 1 else 0 :: nat)"
  have enc: "?e \<in> {2, 4, 8}" "?ne \<in> {2, 4, 8}" "enc_range ?ne v"
    and s: "ilength s = length vs" "contents s = blocks ?e vs" "\<forall>x \<in> set vs. enc_range ?e x" "sorted_wrt (<) vs"
    using repr intsetValueEncoding_range [OF v, of ?e] by (auto simp: intset_repr_def)
  have "(length vs + 1) * ?ne \<le> (length vs + 1) * 8" using enc(2) by (intro mult_le_mono) auto
  then have nowrap: "(length vs + 1) * ?ne mod 2 ^ 32 = (length vs + 1) * ?ne" using room by simp
  define s1 where "s1 = intsetResize fill (s\<lparr>encoding := ?ne\<rparr>) (ilength s + 1)"
  have "length (contents s) \<le> (length vs + 1) * ?ne"
  proof -
    have "length vs * ?e \<le> (length vs + 1) * ?ne" by (rule mult_le_mono) (use up in simp_all)
    then show ?thesis by (simp add: s(2))
  qed
  then obtain new where new: "realloc_bytes fill (contents s) ((length vs + 1) * ?ne) = contents s @ new"
    "length new = (length vs + 1) * ?ne - length vs * ?e"
    using realloc_grow [of "contents s"] by (metis length_blocks s(2))
  have "intsetResize fill (s\<lparr>encoding := ?ne\<rparr>) (ilength s + 1) =
      s\<lparr>encoding := ?ne, contents := realloc_bytes fill (contents s) ((length vs + 1) * ?ne mod 2 ^ 32)\<rparr>"
    by (simp add: intsetResize_def s(1))
  then have s1: "encoding s1 = ?ne" "ilength s1 = length vs" "contents s1 = blocks ?e vs @ new"
    unfolding s1_def nowrap new(1) using s by simp_all
  define gap rest where "gap = take ((length vs + p) * ?ne - length vs * ?e) new"
    and "rest = drop ((length vs + p) * ?ne - length vs * ?e) new"
  have le: "length vs * ?e \<le> (length vs + p) * ?ne" by (rule mult_le_mono) (use up in simp_all)
  have le2: "(length vs + p) * ?ne \<le> (length vs + 1) * ?ne" by (rule mult_le_mono) (simp_all add: p_def)
  have gr: "new = gap @ rest" "length gap = (length vs + p) * ?ne - length vs * ?e"
    using new(2) le le2 by (simp_all add: gap_def rest_def)
  have rest: "length rest = (1 - p) * ?ne"
    using new(2) le le2 by (auto simp: rest_def p_def algebra_simps)
  obtain gap' where up: "upgrade_loop s1 p ?e (length vs) = Some (s1\<lparr>contents := gap' @ blocks ?ne vs @ rest\<rparr>)"
      "length gap' = p * ?ne"
    using upgrade_loop_ok [OF enc(1,2) less_imp_le [OF assms(3)], of "length vs" vs s1 gap rest p] s(3) s1 gr by auto
  let ?s2 = "s1\<lparr>contents := gap' @ blocks ?ne vs @ rest\<rparr>"
  have set: "(if p = 1 then intsetSet ?s2 0 v else intsetSet ?s2 (ilength ?s2) v) =
      Some (?s2\<lparr>contents := blocks ?ne (if v < 0 then v # vs else vs @ [v])\<rparr>)"
  proof (cases "v < 0")
    case True
    then show ?thesis using intsetSet_ok [of ?s2 "[]" gap' "blocks ?ne vs" 0 v] up(2) rest s1(1) enc(2)
      by (simp add: p_def)
  next
    case False
    then show ?thesis using intsetSet_ok [of ?s2 "blocks ?ne vs" rest "[]" "length vs" v] up(2) rest s1(1,2) enc(2)
      by (simp add: p_def)
  qed
  have len: "(length vs + 1) mod 2 ^ 32 = length vs + 1" using room by simp
  have "intsetUpgradeAndAdd fill s v =
      Some (?s2\<lparr>contents := blocks ?ne (if v < 0 then v # vs else vs @ [v]), ilength := length vs + 1\<rparr>)"
  proof -
    have "intsetUpgradeAndAdd fill s v = do {
        s \<leftarrow> upgrade_loop s1 p ?e (ilength s1);
        s \<leftarrow> (if p = 1 then intsetSet s 0 v else intsetSet s (ilength s) v);
        Some (s\<lparr>ilength := (ilength s + 1) mod 2 ^ 32\<rparr>) }"
      by (simp only: intsetUpgradeAndAdd_def Let_def s1_def p_def)
    then show ?thesis unfolding s1(2) up(1) bind.bind_lunit set using len s1(2) by simp
  qed
  moreover have "intset_repr (?s2\<lparr>contents := blocks ?ne (if v < 0 then v # vs else vs @ [v]), ilength := length vs + 1\<rparr>)
      (if v < 0 then v # vs else vs @ [v])"
  proof -
    have out: "\<forall>x \<in> set vs. if v < 0 then v < x else x < v"
      using outside_range [of ?e v vs] s(3) intsetValueEncoding_range(1) [OF v enc(1)] assms(3) by auto
    moreover have "\<forall>x \<in> set vs. enc_range ?ne x"
      using s(3) enc_range_mono assms(3) enc(1) by (metis empty_iff insert_iff less_imp_le zero_less_numeral)
    ultimately show ?thesis using enc s s1 room by (auto simp: intset_repr_def sorted_wrt_append)
  qed
  ultimately show ?thesis by blast
qed

definition int_insert :: "int \<Rightarrow> int list \<Rightarrow> int list" where
  "int_insert v vs = (if v \<in> set vs then vs else lower v vs @ v # upper v vs)"

lemma sorted_insert: "sorted_wrt (<) vs \<Longrightarrow> sorted_wrt (<) (int_insert v vs) \<and> set (int_insert v vs) = insert v (set vs)"
proof -
  assume s: "sorted_wrt (<) vs"
  have "sorted_wrt (<) (lower v vs)" "sorted_wrt (<) (upper v vs)"
    using s by (simp_all add: lower_def upper_def sorted_wrt_filter)
  then show ?thesis using s by (auto simp: int_insert_def sorted_wrt_append lower_def upper_def)
qed

lemma intsetAdd_ok:
  assumes repr: "intset_repr s vs" and v: "enc_range 8 v" and room: "(length vs + 1) * 8 < 2 ^ 32"
  shows "\<exists>s' ws. intsetAdd fill s v = Some (s', v \<notin> set vs) \<and> intset_repr s' ws \<and>
    set ws = insert v (set vs) \<and> length ws \<le> length vs + 1"
proof (cases "intsetValueEncoding v > encoding s")
  case True
  have "v \<notin> set vs"
    using True repr intsetValueEncoding_range(1) [OF v, of "encoding s"] by (auto simp: intset_repr_def)
  then show ?thesis using intsetUpgradeAndAdd_ok [OF repr v True room, of fill] True
    by (cases "v < 0") (force simp: intsetAdd_def)+
next
  case False
  have enc: "encoding s \<in> {2, 4, 8}" and s: "ilength s = length vs" "contents s = blocks (encoding s) vs"
    "sorted_wrt (<) vs" "\<forall>x \<in> set vs. enc_range (encoding s) x" using repr by (auto simp: intset_repr_def)
  let ?e = "encoding s" and ?pos = "length (lower v vs)"
  show ?thesis
  proof (cases "v \<in> set vs")
    case in_set: True
    then show ?thesis using False intsetSearch_ok [OF repr, of v] repr
      by (intro exI [of _ s] exI [of _ vs]) (auto simp: intsetAdd_def)
  next
    case out: False
    have vs: "vs = lower v vs @ upper v vs" using sorted_split [OF s(3), of v] out by simp
    have "(length vs + 1) * ?e \<le> (length vs + 1) * 8" using enc by (intro mult_le_mono) auto
    then have nowrap: "(length vs + 1) * ?e mod 2 ^ 32 = (length vs + 1) * ?e" using room by simp
    obtain new where new: "realloc_bytes fill (contents s) ((length vs + 1) * ?e) = contents s @ new"
      "length new = ?e"
      using realloc_grow [of "contents s" "(length vs + 1) * ?e" fill] by (auto simp: s(2))
    define s1 where "s1 = intsetResize fill s (ilength s + 1)"
    have s1_eq: "s1 = s\<lparr>contents := blocks ?e vs @ new\<rparr>"
      unfolding s1_def intsetResize_def s(1) nowrap new(1) by (simp add: s(2))
    have s1: "encoding s1 = ?e" "ilength s1 = length vs" using s1_eq s(1) by simp_all
    let ?up = "blocks ?e (upper v vs)"
    have bl: "blocks ?e vs = blocks ?e (lower v vs) @ ?up" using vs by (metis blocks_simps(3))
    have lens: "length vs = ?pos + length (upper v vs)" using vs by (metis length_append)
    have c1: "contents s1 = blocks ?e (lower v vs) @ ?up @ new" using s1_eq bl by simp
    have "\<exists>old. length old = ?e \<and> (if ?pos < ilength s1 then intsetMoveTail s1 ?pos (?pos + 1) else Some s1) =
        Some (s1\<lparr>contents := blocks ?e (lower v vs) @ old @ ?up\<rparr>)"
    proof (cases "?pos < ilength s1")
      case True
      have "?e \<le> length (?up @ new)" using new(2) by simp
      then obtain old post where ol: "?up @ new = old @ post" "length old = ?e" "length post = length (?up @ new) - ?e"
        by (rule split_at)
      have pl: "length post = length (upper v vs) * ?e" using ol(3) new(2) by simp
      have "contents s1 = (blocks ?e (lower v vs) @ old) @ post @ []"
        unfolding c1 ol(1) by simp
      then have "intsetMoveTail s1 ?pos (?pos + 1) =
          Some (s1\<lparr>contents := (blocks ?e (lower v vs) @ old) @ ?up @ []\<rparr>)"
        using c1 enc s1 ol(1,2) pl lens
        by (intro intsetMoveTail_ok [where pre' = "blocks ?e (lower v vs)" and post' = new and old = post]) simp_all
      then show ?thesis using True ol(2) by (intro exI [of _ old]) simp
    next
      case no: False
      then have "upper v vs = []" using lens s1(2) by simp
      then show ?thesis using no c1 new(2) by (intro exI [of _ new]) simp
    qed
    then obtain old where old: "length old = ?e"
      "(if ?pos < ilength s1 then intsetMoveTail s1 ?pos (?pos + 1) else Some s1) =
        Some (s1\<lparr>contents := blocks ?e (lower v vs) @ old @ ?up\<rparr>)" by blast
    let ?s2 = "s1\<lparr>contents := blocks ?e (lower v vs) @ old @ ?up\<rparr>"
    have set: "intsetSet ?s2 ?pos v = Some (?s2\<lparr>contents := blocks ?e (lower v vs) @ enc_bytes ?e v @ ?up\<rparr>)"
      using intsetSet_ok [of ?s2 "blocks ?e (lower v vs)" old ?up ?pos v] enc s1(1) old(1) by simp
    have len: "(length vs + 1) mod 2 ^ 32 = length vs + 1" using room by simp
    have "intsetAdd fill s v = do {
        s \<leftarrow> (if ?pos < ilength s1 then intsetMoveTail s1 ?pos (?pos + 1) else Some s1);
        s \<leftarrow> intsetSet s ?pos v;
        Some (s\<lparr>ilength := (ilength s + 1) mod 2 ^ 32\<rparr>, True) }"
      using False out by (simp add: intsetAdd_def intsetSearch_ok [OF repr] s1_def Let_def)
    then have add: "intsetAdd fill s v = Some (?s2\<lparr>contents := blocks ?e (int_insert v vs), ilength := length vs + 1\<rparr>, True)"
      unfolding old(2) bind.bind_lunit set using len s1(2) out by (simp add: int_insert_def)
    have "enc_range ?e v" using False intsetValueEncoding_range(1) [OF v enc] by simp
    then have "intset_repr (?s2\<lparr>contents := blocks ?e (int_insert v vs), ilength := length vs + 1\<rparr>) (int_insert v vs)"
      using sorted_insert [OF s(3), of v] enc s(4) s1 lens room out
      by (auto simp: intset_repr_def int_insert_def)
    moreover have "length (int_insert v vs) \<le> length vs + 1" using out lens by (simp add: int_insert_def)
    ultimately show ?thesis using add sorted_insert [OF s(3), of v] out
      by (intro exI [of _ "?s2\<lparr>contents := blocks ?e (int_insert v vs), ilength := length vs + 1\<rparr>"]
          exI [of _ "int_insert v vs"] conjI) (simp_all only: simp_thms)
  qed
qed

lemma intsetRemove_ok:
  assumes repr: "intset_repr s vs" and v: "enc_range 8 v"
  shows "\<exists>s' ws. intsetRemove fill s v = Some (s', v \<in> set vs) \<and> intset_repr s' ws \<and>
    set ws = set vs - {v} \<and> length ws \<le> length vs"
proof (cases "intsetValueEncoding v \<le> encoding s \<and> v \<in> set vs")
  case False
  have "encoding s \<in> {2, 4, 8}" "\<forall>x \<in> set vs. enc_range (encoding s) x" using repr by (auto simp: intset_repr_def)
  then have "v \<notin> set vs" using False intsetValueEncoding_range(1) [OF v] by auto
  then show ?thesis using intsetSearch_ok [OF repr, of v] repr False
    by (intro exI [of _ s] exI [of _ vs]) (auto simp: intsetRemove_def)
next
  case True
  have enc: "encoding s \<in> {2, 4, 8}" and s: "ilength s = length vs" "contents s = blocks (encoding s) vs"
    "sorted_wrt (<) vs" "\<forall>x \<in> set vs. enc_range (encoding s) x" and room: "length vs * 8 < 2 ^ 32"
    using repr by (auto simp: intset_repr_def)
  let ?e = "encoding s" and ?lo = "lower v vs" and ?hi = "upper v vs"
  have vs: "vs = ?lo @ v # ?hi" using sorted_split [OF s(3), of v] True by simp
  have lens: "length vs = Suc (length ?lo + length ?hi)" using arg_cong [OF vs, of length] by simp
  have c: "contents s = blocks ?e ?lo @ enc_bytes ?e v @ blocks ?e ?hi"
    unfolding s(2) by (subst vs) simp
  obtain rest where mv: "(if length ?lo < ilength s - 1 then intsetMoveTail s (length ?lo + 1) (length ?lo) else Some s) =
      Some (s\<lparr>contents := blocks ?e ?lo @ blocks ?e ?hi @ rest\<rparr>)"
  proof (cases "length ?lo < ilength s - 1")
    case True
    have "length ?hi * ?e \<le> length (enc_bytes ?e v @ blocks ?e ?hi)" by simp
    then obtain old post where op: "enc_bytes ?e v @ blocks ?e ?hi = old @ post" "length old = length ?hi * ?e"
      "length post = length (enc_bytes ?e v @ blocks ?e ?hi) - length ?hi * ?e"
      by (rule split_at)
    have "intsetMoveTail s (length ?lo + 1) (length ?lo) = Some (s\<lparr>contents := blocks ?e ?lo @ blocks ?e ?hi @ post\<rparr>)"
      using c op(1,2) enc s(1) lens
      by (intro intsetMoveTail_ok [where pre' = "blocks ?e ?lo @ enc_bytes ?e v" and post' = "[]" and old = old]) simp_all
    then show thesis using that True by simp
  next
    case no: False
    then have "?hi = []" using lens s(1) by simp
    then show thesis using that [of "enc_bytes ?e v"] no c by simp
  qed
  have "(length vs - 1) * ?e \<le> length vs * 8" using enc by (intro mult_le_mono) auto
  then have nowrap: "(length vs - 1) * ?e mod 2 ^ 32 = (length ?lo + length ?hi) * ?e"
    using room lens by simp
  have shrink: "realloc_bytes fill (blocks ?e ?lo @ blocks ?e ?hi @ rest) ((length ?lo + length ?hi) * ?e) =
      blocks ?e (?lo @ ?hi)"
    using realloc_shrink [of "blocks ?e ?lo @ blocks ?e ?hi" "(length ?lo + length ?hi) * ?e" fill rest]
    by (simp add: distrib_right)
  define s' where "s' = s\<lparr>contents := blocks ?e (?lo @ ?hi), ilength := length vs - 1\<rparr>"
  have "intsetRemove fill s v = do {
      s \<leftarrow> (if length ?lo < ilength s - 1 then intsetMoveTail s (length ?lo + 1) (length ?lo) else Some s);
      Some ((intsetResize fill s (length vs - 1))\<lparr>ilength := length vs - 1\<rparr>, True) }"
    using True by (simp add: intsetRemove_def intsetSearch_ok [OF repr] Let_def s(1))
  also have "\<dots> = Some ((intsetResize fill (s\<lparr>contents := blocks ?e ?lo @ blocks ?e ?hi @ rest\<rparr>) (length vs - 1))
      \<lparr>ilength := length vs - 1\<rparr>, True)"
    unfolding mv bind.bind_lunit ..
  also have "\<dots> = Some (s', True)"
  proof -
    have "intsetResize fill (s\<lparr>contents := X\<rparr>) n = s\<lparr>contents := realloc_bytes fill X (n * encoding s mod 2 ^ 32)\<rparr>"
      for X n by (simp add: intsetResize_def)
    then show ?thesis unfolding s'_def by (simp only: nowrap shrink)
  qed
  finally have rem: "intsetRemove fill s v = Some (s', True)" .
  have d: "sorted_wrt (<) (?lo @ ?hi)" "set (?lo @ ?hi) = set vs - {v}"
    using s(3) by (auto simp: sorted_wrt_append lower_def upper_def sorted_wrt_filter)
  have "intset_repr s' (?lo @ ?hi)"
    using d enc s(4) lens room by (auto simp: intset_repr_def s'_def)
  then show ?thesis using rem True d(2) lens by (intro exI [of _ s'] exI [of _ "?lo @ ?hi"]) simp
qed

section \<open>The intset as a set\<close>

definition intset_inv :: "intset \<Rightarrow> bool" where
  "intset_inv s \<longleftrightarrow> (\<exists>vs. intset_repr s vs)"

definition intset_list :: "intset \<Rightarrow> int list" where
  "intset_list s = map (\<lambda>i. the (intsetGet_at s i)) [0..<ilength s]"

definition intset_elems :: "intset \<Rightarrow> int set" where
  "intset_elems s = set (intset_list s)"

definition intset_room :: "nat \<Rightarrow> intset \<Rightarrow> bool" where
  "intset_room n s \<longleftrightarrow> (ilength s + n) * 8 < 2 ^ 32"

definition intset_ops :: "(nat \<Rightarrow> u8) \<Rightarrow> (intset, int) set_ops" where
  "intset_ops fill =
    \<lparr>s_add = intsetAdd fill, s_remove = intsetRemove fill,
     s_find = (\<lambda>s v. map_option (\<lambda>r. (s, r)) (intsetFind s v))\<rparr>"

lemma intset_list_repr: "intset_repr s vs \<Longrightarrow> intset_list s = vs"
  by (rule nth_equalityI) (auto simp: intset_list_def intsetGet_at_ok intset_repr_def)

lemma intset_inv_obtain:
  assumes "intset_inv s" obtains vs where "intset_repr s vs" "intset_elems s = set vs" "ilength s = length vs"
  using assms intset_list_repr by (fastforce simp: intset_inv_def intset_elems_def intset_repr_def)

lemma intset_reprD:
  "intset_repr s vs \<Longrightarrow> intset_inv s \<and> intset_elems s = set vs \<and> ilength s = length vs"
  using intset_list_repr by (auto simp: intset_inv_def intset_elems_def intset_repr_def)

lemma intsetFind_ok: "intset_repr s vs \<Longrightarrow> enc_range 8 v \<Longrightarrow> intsetFind s v = Some (v \<in> set vs)"
  using intsetValueEncoding_range(1) [of v "encoding s"] intsetSearch_ok [of s vs v]
  by (auto simp: intsetFind_def intset_repr_def)

interpretation iset: set_store "intset_ops fill" intset_inv intset_elems "enc_range 8" intset_room for fill
proof
  fix s :: intset and a :: int and n :: nat
  assume "intset_inv s" and a: "enc_range 8 a"
  from \<open>intset_inv s\<close> obtain vs where vs: "intset_repr s vs" "intset_elems s = set vs" "ilength s = length vs"
    by (rule intset_inv_obtain)
  {
    assume "intset_room (Suc n) s"
    then have room: "(length vs + 1) * 8 < 2 ^ 32" "(length vs + 1 + n) * 8 < 2 ^ 32"
      using vs by (simp_all add: intset_room_def)
    obtain s' ws where "intsetAdd fill s a = Some (s', a \<notin> set vs)" "intset_repr s' ws"
      "set ws = insert a (set vs)" "length ws \<le> length vs + 1"
      using intsetAdd_ok [OF vs(1) a room(1), of fill] by blast
    then show "\<exists>s'. s_add (intset_ops fill) s a = Some (s', a \<notin> intset_elems s) \<and> intset_inv s' \<and>
        intset_elems s' = insert a (intset_elems s) \<and> intset_room n s'"
      using vs room intset_reprD [of s' ws] by (intro exI [of _ s']) (simp add: intset_ops_def intset_room_def)
  }
  assume "intset_room n s"
  then have room: "(length vs + n) * 8 < 2 ^ 32" using vs by (simp add: intset_room_def)
  obtain s' ws where "intsetRemove fill s a = Some (s', a \<in> set vs)" "intset_repr s' ws"
    "set ws = set vs - {a}" "length ws \<le> length vs"
    using intsetRemove_ok [OF vs(1) a, of fill] by blast
  then show "\<exists>s'. s_remove (intset_ops fill) s a = Some (s', a \<in> intset_elems s) \<and> intset_inv s' \<and>
      intset_elems s' = intset_elems s - {a} \<and> intset_room n s'"
    using vs room intset_reprD [of s' ws] by (intro exI [of _ s']) (simp add: intset_ops_def intset_room_def)
  show "\<exists>s'. s_find (intset_ops fill) s a = Some (s', a \<in> intset_elems s) \<and> intset_inv s' \<and>
      intset_elems s' = intset_elems s \<and> intset_room n s'"
    using vs \<open>intset_room n s\<close> intsetFind_ok [OF vs(1) a]
    by (intro exI [of _ s]) (auto simp: intset_ops_def intset_inv_def)
qed (simp add: intset_room_def)

lemma intset_inv_new: "intset_inv intsetNew" "intset_elems intsetNew = {}"
proof -
  have "intset_repr intsetNew []" by (simp add: intset_repr_def intsetNew_def)
  from intset_reprD [OF this] show "intset_inv intsetNew" "intset_elems intsetNew = {}" by simp_all
qed

section \<open>Properties\<close>

text \<open>(C20) Any sequence of insertions, removals and membership tests of 64 bit integers on an intset, with the
  in-place upgrades of its encoding on the way, stays inside the allocated bytes, answers as a
  mathematical set does, and keeps the array sorted, gap-free and duplicate-free.  The set and the sequence
  together have fewer than 2^29 elements (\<open>intset_room\<close>): from there on the \<open>uint32_t\<close> size in bytes that
  \<open>intsetResize\<close> computes wraps around and the allocated array is too small.\<close>

theorem intset_trace_refinement:
  assumes "intset_inv s" and "\<forall>x \<in> set xs. enc_range 8 (set_op_elem x)" and "intset_room (length xs) s"
  shows "\<exists>s'. set_run (intset_ops fill) s xs = Some (s', snd (abs_set_run (intset_elems s) xs)) \<and>
    intset_inv s' \<and> intset_elems s' = fst (abs_set_run (intset_elems s) xs)"
  using assms by (rule iset.run_refines)

theorem intset_trace_refinement_witness:
  "\<exists>s'. set_run (intset_ops (\<lambda>_. 0)) intsetNew
      [SAdd 5, SAdd (- 70000), SAdd 5, SAdd (2 ^ 40), SRemove 5, SFind 5, SFind (- 70000)]
    = Some (s', [True, True, False, True, True, False, True])"
proof -
  let ?xs = "[SAdd 5, SAdd (- 70000), SAdd 5, SAdd (2 ^ 40), SRemove 5, SFind 5, SFind (- 70000)] :: int set_op list"
  have ok: "\<forall>x \<in> set ?xs. enc_range 8 (set_op_elem x)" by (simp add: enc_range_def)
  have room: "intset_room (length ?xs) intsetNew" by (simp add: intset_room_def intsetNew_def)
  from intset_trace_refinement [OF intset_inv_new(1) ok room, of "\<lambda>_. 0"] show ?thesis
    by (auto simp: intset_inv_new(2) Let_def)
qed

text \<open>\<open>intsetGet\<close> enumerates the elements in increasing order, refuses every position from the length
  on, and never reads outside the array.\<close>

theorem intsetGet_sorted:
  assumes "intset_inv s"
  shows "intsetGet s k = Some (if k < card (intset_elems s) then Some (sorted_list_of_set (intset_elems s) ! k) else None) \<and>
    intsetLen s = card (intset_elems s)"
proof -
  obtain vs where vs: "intset_repr s vs" "intset_elems s = set vs" "ilength s = length vs"
    using assms by (rule intset_inv_obtain)
  have "sorted_wrt (<) vs" using vs(1) by (simp add: intset_repr_def)
  then have "sorted vs" "distinct vs" by (simp_all add: strict_sorted_iff)
  then have "sorted_list_of_set (set vs) = vs" "card (set vs) = length vs"
    by (simp_all add: sorted_list_of_set.idem_if_sorted_distinct distinct_card)
  then show ?thesis
    using vs intsetGet_at_ok [OF vs(1), of k] by (simp_all add: intsetGet_def intsetLen_def)
qed

theorem intsetGet_sorted_witness: "intsetGet intsetNew 0 = Some None \<and> intsetLen intsetNew = 0"
  using intsetGet_sorted [OF intset_inv_new(1), of 0] by (simp add: intset_inv_new(2))

end
