(* ===== verification/Sds.thy ===== *)
theory Sds
  imports Bytes Util
begin

text \<open>
  The dynamic strings of \<^verbatim>\<open>src/redis-3.0.3/src/sds.c\<close> and \<^verbatim>\<open>sds.h\<close>, as header and buffer: \<open>len\<close> and
  \<open>free\<close> are 32 bit fields, and the buffer is everything that was allocated behind them.  Reads and
  writes outside the buffer, failed assertions and signed overflows are faults.  \<open>fill\<close> is what
  fresh memory holds.  Sizes of type \<open>size_t\<close> are naturals.
\<close>

section \<open>Data and operations\<close>

record sds =
  slen :: nat
  sfree :: nat
  sbuf :: string

abbreviation NUL :: char where "NUL \<equiv> CHR 0x00"

definition SDS_MAX_PREALLOC :: nat where "SDS_MAX_PREALLOC = 1024 * 1024"

definition uint32 :: "nat \<Rightarrow> nat" where "uint32 n = n mod 2 ^ 32"

text \<open>Subtraction of 32 bit unsigned fields.\<close>

definition sub32 :: "nat \<Rightarrow> nat \<Rightarrow> nat" where "sub32 a b = nat ((int a - int b) mod 2 ^ 32)"

definition set_chars :: "sds \<Rightarrow> nat \<Rightarrow> string \<Rightarrow> sds option" where
  "set_chars s i cs = map_option (\<lambda>b. s\<lparr>sbuf := b\<rparr>) (write_bytes (sbuf s) i cs)"

definition sdsnewlen :: "(nat \<Rightarrow> char) \<Rightarrow> string option \<Rightarrow> nat \<Rightarrow> sds option" where
  "sdsnewlen fill init initlen = do {
     buf \<leftarrow> (case init of
               Some t \<Rightarrow> do { t \<leftarrow> read_bytes t 0 initlen; Some (t @ [fill initlen]) }
             | None \<Rightarrow> Some (replicate (initlen + 1) NUL));
     set_chars \<lparr>slen = uint32 initlen, sfree = 0, sbuf = buf\<rparr> initlen [NUL]
   }"

definition sdsempty :: "(nat \<Rightarrow> char) \<Rightarrow> sds option" where
  "sdsempty fill = sdsnewlen fill (Some []) 0"

text \<open>The string of a buffer, up to its first NUL.\<close>

definition c_string :: "string \<Rightarrow> string" where
  "c_string b = takeWhile (\<lambda>c. c \<noteq> NUL) b"

definition sdsnew :: "(nat \<Rightarrow> char) \<Rightarrow> string option \<Rightarrow> sds option" where
  "sdsnew fill init = sdsnewlen fill init (case init of None \<Rightarrow> 0 | Some t \<Rightarrow> length (c_string t))"

definition sdsdup :: "(nat \<Rightarrow> char) \<Rightarrow> sds \<Rightarrow> sds option" where
  "sdsdup fill s = sdsnewlen fill (Some (sbuf s)) (slen s)"

definition sdsupdatelen :: "sds \<Rightarrow> sds" where
  "sdsupdatelen s =
    (let reallen = length (c_string (sbuf s)) in
     s\<lparr>sfree := uint32 (sfree s + sub32 (slen s) reallen), slen := reallen\<rparr>)"

definition sdsclear :: "sds \<Rightarrow> sds option" where
  "sdsclear s = set_chars (s\<lparr>sfree := uint32 (sfree s + slen s), slen := 0\<rparr>) 0 [NUL]"

definition sdsMakeRoomFor :: "(nat \<Rightarrow> char) \<Rightarrow> sds \<Rightarrow> nat \<Rightarrow> sds" where
  "sdsMakeRoomFor fill s addlen =
    (if sfree s \<ge> addlen then s
     else let newlen = slen s + addlen;
              newlen = (if newlen < SDS_MAX_PREALLOC then newlen * 2 else newlen + SDS_MAX_PREALLOC)
          in s\<lparr>sbuf := realloc_bytes fill (sbuf s) (newlen + 1), sfree := uint32 (newlen - slen s)\<rparr>)"

definition sdsRemoveFreeSpace :: "(nat \<Rightarrow> char) \<Rightarrow> sds \<Rightarrow> sds" where
  "sdsRemoveFreeSpace fill s = s\<lparr>sbuf := realloc_bytes fill (sbuf s) (slen s + 1), sfree := 0\<rparr>"

definition sdsAllocSize :: "sds \<Rightarrow> nat" where
  "sdsAllocSize s = 8 + slen s + sfree s + 1"

definition sdsIncrLen :: "sds \<Rightarrow> int \<Rightarrow> sds option" where
  "sdsIncrLen s incr =
    (if (if incr \<ge> 0 then sfree s \<ge> nat incr else slen s \<ge> nat (- incr)) then
       (let s = s\<lparr>slen := nat ((int (slen s) + incr) mod 2 ^ 32), sfree := nat ((int (sfree s) - incr) mod 2 ^ 32)\<rparr>
        in set_chars s (slen s) [NUL])
     else None)"

definition sdsgrowzero :: "(nat \<Rightarrow> char) \<Rightarrow> sds \<Rightarrow> nat \<Rightarrow> sds option" where
  "sdsgrowzero fill s len =
    (if len \<le> slen s then Some s
     else do {
       let curlen = slen s;
       let s = sdsMakeRoomFor fill s (len - curlen);
       s \<leftarrow> set_chars s curlen (replicate (len - curlen + 1) NUL);
       let totlen = slen s + sfree s;
       Some (s\<lparr>slen := uint32 len, sfree := sub32 totlen (uint32 len)\<rparr>)
     })"

definition sdscatlen :: "(nat \<Rightarrow> char) \<Rightarrow> sds \<Rightarrow> string \<Rightarrow> nat \<Rightarrow> sds option" where
  "sdscatlen fill s t len = do {
     let curlen = slen s;
     let s = sdsMakeRoomFor fill s len;
     t \<leftarrow> read_bytes t 0 len;
     s \<leftarrow> set_chars s curlen t;
     let s = s\<lparr>slen := uint32 (curlen + len), sfree := sub32 (sfree s) len\<rparr>;
     set_chars s (curlen + len) [NUL]
   }"

definition sdscat :: "(nat \<Rightarrow> char) \<Rightarrow> sds \<Rightarrow> string \<Rightarrow> sds option" where
  "sdscat fill s t = sdscatlen fill s t (length (c_string t))"

definition sdscatsds :: "(nat \<Rightarrow> char) \<Rightarrow> sds \<Rightarrow> sds \<Rightarrow> sds option" where
  "sdscatsds fill s t = sdscatlen fill s (sbuf t) (slen t)"

definition sdscpylen :: "(nat \<Rightarrow> char) \<Rightarrow> sds \<Rightarrow> string \<Rightarrow> nat \<Rightarrow> sds option" where
  "sdscpylen fill s t len = do {
     let s = (if sfree s + slen s < len then sdsMakeRoomFor fill s (len - slen s) else s);
     let totlen = sfree s + slen s;
     t \<leftarrow> read_bytes t 0 len;
     s \<leftarrow> set_chars s 0 t;
     s \<leftarrow> set_chars s len [NUL];
     Some (s\<lparr>slen := uint32 len, sfree := sub32 totlen (uint32 len)\<rparr>)
   }"

definition sdscpy :: "(nat \<Rightarrow> char) \<Rightarrow> sds \<Rightarrow> string \<Rightarrow> sds option" where
  "sdscpy fill s t = sdscpylen fill s t (length (c_string t))"

text \<open>The two loops of \<open>sdstrim\<close>; \<open>strchr\<close> also finds the terminator of \<open>cset\<close>, so NUL characters
  are trimmed as well.  \<open>ep\<close> is an integer because it starts at -1 for the empty string.\<close>

definition trim_char :: "string \<Rightarrow> char \<Rightarrow> bool" where
  "trim_char cset c \<longleftrightarrow> c \<in> set (c_string cset) \<or> c = NUL"

function trim_left :: "string \<Rightarrow> string \<Rightarrow> nat \<Rightarrow> nat \<Rightarrow> nat option" where
  "trim_left cset b sp n =
    (if sp < n then
       (case array_get b sp of
          None \<Rightarrow> None
        | Some c \<Rightarrow> if trim_char cset c then trim_left cset b (sp + 1) n else Some sp)
     else Some sp)"
  by pat_completeness auto
termination by (relation "measure (\<lambda>(cset, b, sp, n). n - sp)") auto

fun trim_right :: "string \<Rightarrow> string \<Rightarrow> nat \<Rightarrow> nat option" where
  "trim_right cset b 0 = Some 0"
| "trim_right cset b (Suc ep) = do {
     c \<leftarrow> array_get b (Suc ep);
     if trim_char cset c then trim_right cset b ep else Some (Suc ep) }"

declare trim_left.simps [simp del]

text \<open>The common end of \<open>sdstrim\<close> and \<open>sdsrange\<close>: keep \<open>len\<close> characters from position \<open>i\<close>.\<close>

definition keep_part :: "sds \<Rightarrow> bool \<Rightarrow> nat \<Rightarrow> nat \<Rightarrow> sds option" where
  "keep_part s move i len = do {
     b \<leftarrow> (if move then move_bytes (sbuf s) 0 i len else Some (sbuf s));
     s \<leftarrow> set_chars (s\<lparr>sbuf := b\<rparr>) len [NUL];
     Some (s\<lparr>sfree := uint32 (sfree s + sub32 (slen s) len), slen := len\<rparr>)
   }"

definition sdstrim :: "sds \<Rightarrow> string \<Rightarrow> sds option" where
  "sdstrim s cset =
    (let n = slen s in do {
       sp \<leftarrow> trim_left cset (sbuf s) 0 n;
       ep \<leftarrow> (if n = 0 then Some (-1) else map_option int (trim_right cset (sbuf s) (n - 1)));
       let len = (if int sp > ep then 0 else nat (ep - int sp) + 1);
       keep_part s (sp \<noteq> 0) sp len })"

text \<open>\<open>end - start + 1\<close> is computed in \<open>int\<close>; its overflow is a fault.\<close>

definition range_len :: "int \<Rightarrow> int \<Rightarrow> int option" where
  "range_len start stop = (if start > stop then Some 0
     else if stop - start + 1 > 2 ^ 31 - 1 then None else Some (stop - start + 1))"

definition range_bounds :: "int \<Rightarrow> int \<Rightarrow> int \<Rightarrow> (int \<times> int) option" where
  "range_bounds len start stop = do {
     let start = (if start < 0 then max 0 (len + start) else start);
     let stop = (if stop < 0 then max 0 (len + stop) else stop);
     newlen \<leftarrow> range_len start stop;
     if newlen \<noteq> 0 then
       (if start \<ge> len then Some (start, 0)
        else if stop \<ge> len then map_option (\<lambda>n. (start, n)) (range_len start (len - 1))
        else Some (start, newlen))
     else Some (0, newlen)
   }"

definition sdsrange :: "sds \<Rightarrow> int \<Rightarrow> int \<Rightarrow> sds option" where
  "sdsrange s start stop =
    (if slen s = 0 then Some s
     else do {
       (start, newlen) \<leftarrow> range_bounds (int (slen s)) start stop;
       keep_part s (start \<noteq> 0 \<and> newlen \<noteq> 0) (nat start) (nat newlen)
     })"

definition lower_char :: "char \<Rightarrow> char" where
  "lower_char c = (if CHR ''A'' \<le> c \<and> c \<le> CHR ''Z'' then char_of (of_char c + 32 :: nat) else c)"

definition upper_char :: "char \<Rightarrow> char" where
  "upper_char c = (if CHR ''a'' \<le> c \<and> c \<le> CHR ''z'' then char_of (of_char c - 32 :: nat) else c)"

fun map_chars :: "(char \<Rightarrow> char) \<Rightarrow> nat \<Rightarrow> string \<Rightarrow> string option" where
  "map_chars f 0 b = Some b"
| "map_chars f (Suc j) b = do { b \<leftarrow> map_chars f j b; c \<leftarrow> array_get b j; Some (b[j := f c]) }"

definition sdstolower :: "sds \<Rightarrow> sds option" where
  "sdstolower s = map_option (\<lambda>b. s\<lparr>sbuf := b\<rparr>) (map_chars lower_char (slen s) (sbuf s))"

definition sdstoupper :: "sds \<Rightarrow> sds option" where
  "sdstoupper s = map_option (\<lambda>b. s\<lparr>sbuf := b\<rparr>) (map_chars upper_char (slen s) (sbuf s))"

text \<open>\<open>sdsmapchars\<close>: the first position of the character in \<open>from\<close> selects its replacement.\<close>

fun map_char :: "string \<Rightarrow> string \<Rightarrow> nat \<Rightarrow> char \<Rightarrow> char option" where
  "map_char src dst 0 c = Some c"
| "map_char (f # src) (t # dst) (Suc n) c = (if c = f then Some t else map_char src dst n c)"
| "map_char _ _ (Suc n) c = None"

fun mapchars_loop :: "string \<Rightarrow> string \<Rightarrow> nat \<Rightarrow> nat \<Rightarrow> string \<Rightarrow> string option" where
  "mapchars_loop src dst setlen 0 b = Some b"
| "mapchars_loop src dst setlen (Suc j) b = do {
     b \<leftarrow> mapchars_loop src dst setlen j b; x \<leftarrow> array_get b j; c \<leftarrow> map_char src dst setlen x;
     Some (b[j := c]) }"

definition sdsmapchars :: "sds \<Rightarrow> string \<Rightarrow> string \<Rightarrow> nat \<Rightarrow> sds option" where
  "sdsmapchars s src dst setlen =
    map_option (\<lambda>b. s\<lparr>sbuf := b\<rparr>) (mapchars_loop src dst setlen (slen s) (sbuf s))"

text \<open>The sign of \<open>memcmp\<close>, on unsigned characters.\<close>

fun memcmp :: "string \<Rightarrow> string \<Rightarrow> int" where
  "memcmp (a # s) (b # t) = (if a < b then -1 else if b < a then 1 else memcmp s t)"
| "memcmp _ _ = 0"

definition sdscmp :: "sds \<Rightarrow> sds \<Rightarrow> int" where
  "sdscmp s1 s2 =
    (let minlen = min (slen s1) (slen s2); cmp = memcmp (take minlen (sbuf s1)) (take minlen (sbuf s2)) in
     if cmp = 0 then c_int (int (slen s1) - int (slen s2)) else cmp)"

section \<open>The represented string\<close>

text \<open>\<open>sds_is s t\<close>: the header describes the buffer exactly, which holds \<open>t\<close>, the terminator and the
  free space.\<close>

definition sds_is :: "sds \<Rightarrow> string \<Rightarrow> bool" where
  "sds_is s t \<longleftrightarrow> (\<exists>rest. sbuf s = t @ NUL # rest \<and> slen s = length t \<and> sfree s = length rest \<and>
     length t + length rest < 2 ^ 32)"

lemma set_chars_app:
  assumes "sbuf s = pre @ old @ post" "length pre = i" "length old = length cs"
  shows "set_chars s i cs = Some (s\<lparr>sbuf := pre @ cs @ post\<rparr>)"
  using assms by (simp add: set_chars_def write_bytes_app)

lemma sub32_small: "b \<le> a \<Longrightarrow> a < 2 ^ 32 \<Longrightarrow> sub32 a b = a - b"
  by (simp add: sub32_def nat_minus_as_int)

lemma uint32_small [simp]: "n < 2 ^ 32 \<Longrightarrow> uint32 n = n"
  by (simp add: uint32_def)

lemma read_bytes_0: "n \<le> length t \<Longrightarrow> read_bytes t 0 n = Some (take n t)"
  by (simp add: read_bytes_def)

lemma sdsMakeRoomFor_ok:
  assumes "sds_is s t" "length t + addlen + 2 ^ 20 < 2 ^ 32"
  obtains s' where "sdsMakeRoomFor fill s addlen = s'" "sds_is s' t" "addlen \<le> sfree s'"
proof (cases "sfree s \<ge> addlen")
  case True
  then show thesis using that assms(1) by (simp add: sdsMakeRoomFor_def)
next
  case False
  obtain rest where s: "sbuf s = t @ NUL # rest" "slen s = length t" "sfree s = length rest"
    using assms(1) by (auto simp: sds_is_def)
  define newlen where "newlen = (if length t + addlen < SDS_MAX_PREALLOC then (length t + addlen) * 2
    else length t + addlen + SDS_MAX_PREALLOC)"
  have n: "length t + addlen \<le> newlen" "newlen < 2 ^ 32"
    using assms(2) by (auto simp: newlen_def SDS_MAX_PREALLOC_def)
  have "length (sbuf s) \<le> newlen + 1" using s n(1) False by simp
  then obtain more where more: "realloc_bytes fill (sbuf s) (newlen + 1) = sbuf s @ more"
      "length more = newlen + 1 - length (sbuf s)"
    using realloc_grow [of "sbuf s" "newlen + 1" fill] by blast
  have eq: "sdsMakeRoomFor fill s addlen = s\<lparr>sbuf := sbuf s @ more, sfree := newlen - length t\<rparr>"
    using False s(2) n more(1) by (simp add: sdsMakeRoomFor_def Let_def flip: newlen_def)
  have "sds_is (s\<lparr>sbuf := sbuf s @ more, sfree := newlen - length t\<rparr>) t"
    using s n more(2) False by (simp add: sds_is_def)
  then show thesis using that eq n(1) by simp
qed

lemma sdscatlen_ok:
  assumes "sds_is s t" "n \<le> length x" "length t + n + 2 ^ 20 < 2 ^ 32"
  shows "\<exists>s'. sdscatlen fill s x n = Some s' \<and> sds_is s' (t @ take n x)"
proof -
  obtain s1 where s1: "sdsMakeRoomFor fill s n = s1" "sds_is s1 t" "n \<le> sfree s1"
    using assms(1,3) by (rule sdsMakeRoomFor_ok)
  have len: "slen s = length t" using assms(1) by (auto simp: sds_is_def)
  obtain rest where r: "sbuf s1 = t @ NUL # rest" "slen s1 = length t" "sfree s1 = length rest"
    "length t + length rest < 2 ^ 32" using s1(2) by (auto simp: sds_is_def)
  have "n \<le> length (NUL # rest)" using s1(3) r(3) by simp
  then obtain old post where op: "NUL # rest = old @ post" "length old = n" "length post = length (NUL # rest) - n"
    by (rule split_at)
  obtain p ps where post: "post = p # ps" "length ps = length rest - n"
    using op(3) s1(3) r(3) by (cases post) (auto simp: Suc_diff_le)
  have w1: "set_chars s1 (length t) (take n x) = Some (s1\<lparr>sbuf := t @ take n x @ post\<rparr>)"
    using set_chars_app [of s1 t old post "length t" "take n x"] r op assms(2) by simp
  let ?s2 = "s1\<lparr>sbuf := t @ take n x @ post, slen := length t + n, sfree := length rest - n\<rparr>"
  have w2: "set_chars ?s2 (length t + n) [NUL] = Some (?s2\<lparr>sbuf := t @ take n x @ NUL # ps\<rparr>)"
    using set_chars_app [of ?s2 "t @ take n x" "[p]" ps "length t + n" "[NUL]"] post assms(2) by simp
  have "sub32 (sfree s1) n = length rest - n" using s1(3) r by (simp add: sub32_small)
  moreover have "uint32 (length t + n) = length t + n" using assms(3) by simp
  ultimately have "sdscatlen fill s x n = Some (?s2\<lparr>sbuf := t @ take n x @ NUL # ps\<rparr>)"
    using w1 w2 len assms(2) by (simp add: sdscatlen_def s1(1) read_bytes_0)
  moreover have "sds_is (?s2\<lparr>sbuf := t @ take n x @ NUL # ps\<rparr>) (t @ take n x)"
    using post r s1(3) assms(2) by (simp add: sds_is_def)
  ultimately show ?thesis by blast
qed

lemma sdsnewlen_ok:
  assumes "n \<le> length x" "n < 2 ^ 32"
  shows "\<exists>s'. sdsnewlen fill (Some x) n = Some s' \<and> sds_is s' (take n x)"
  using assms by (auto simp: sdsnewlen_def read_bytes_0 sds_is_def
      set_chars_app [where pre = "take n x" and old = "[fill n]" and post = "[]"])

lemma sdsnewlen_zero:
  assumes "n < 2 ^ 32"
  shows "\<exists>s'. sdsnewlen fill None n = Some s' \<and> sds_is s' (replicate n NUL)"
proof -
  have "replicate (n + 1) NUL = replicate n NUL @ [NUL] @ []" by (simp add: replicate_append_same)
  then show ?thesis using assms
    by (auto simp: sdsnewlen_def sds_is_def
        set_chars_app [where pre = "replicate n NUL" and old = "[NUL]" and post = "[]"])
qed

lemma sds_is_string: "sds_is s t \<Longrightarrow> slen s = length t \<and> take (slen s) (sbuf s) = t"
  by (auto simp: sds_is_def)

lemma sdscpylen_ok:
  assumes "sds_is s t" "n \<le> length x" "length t + n + 2 ^ 20 < 2 ^ 32"
  shows "\<exists>s'. sdscpylen fill s x n = Some s' \<and> sds_is s' (take n x)"
proof -
  let ?s1 = "if sfree s + slen s < n then sdsMakeRoomFor fill s (n - slen s) else s"
  have "\<exists>s1. ?s1 = s1 \<and> sds_is s1 t \<and> n \<le> sfree s1 + slen s1"
  proof (cases "sfree s + slen s < n")
    case True
    have "length t + (n - slen s) + 2 ^ 20 < 2 ^ 32" using assms(3) by simp
    with assms(1) obtain s1 where "sdsMakeRoomFor fill s (n - slen s) = s1" "sds_is s1 t" "n - slen s \<le> sfree s1"
      by (rule sdsMakeRoomFor_ok)
    then show ?thesis using True sds_is_string [OF assms(1)] sds_is_string [of s1 t] by auto
  next
    case False
    then show ?thesis using assms(1) by auto
  qed
  then obtain s1 where s1: "?s1 = s1" "sds_is s1 t" "n \<le> sfree s1 + slen s1" by blast
  obtain rest where r: "sbuf s1 = t @ NUL # rest" "slen s1 = length t" "sfree s1 = length rest"
    "length t + length rest < 2 ^ 32" using s1(2) by (auto simp: sds_is_def)
  have "n \<le> length (sbuf s1)" using r s1(3) by simp
  then obtain old post where op: "sbuf s1 = old @ post" "length old = n" "length post = length (sbuf s1) - n"
    by (rule split_at)
  obtain p ps where post: "post = p # ps" "length ps = length t + length rest - n"
    using op(3) s1(3) r by (cases post) auto
  have w1: "set_chars s1 0 (take n x) = Some (s1\<lparr>sbuf := take n x @ post\<rparr>)"
    using set_chars_app [of s1 "[]" old post 0 "take n x"] op assms(2) by simp
  let ?s2 = "s1\<lparr>sbuf := take n x @ post\<rparr>"
  have w2: "set_chars ?s2 n [NUL] = Some (?s2\<lparr>sbuf := take n x @ NUL # ps\<rparr>)"
    using set_chars_app [of ?s2 "take n x" "[p]" ps n "[NUL]"] post assms(2) by simp
  have "uint32 n = n" using assms(3) by simp
  moreover have "sub32 (sfree s1 + slen s1) n = length t + length rest - n"
    using s1(3) r by (simp add: sub32_small add.commute)
  ultimately have "sdscpylen fill s x n =
      Some (?s2\<lparr>sbuf := take n x @ NUL # ps, slen := n, sfree := length t + length rest - n\<rparr>)"
    using w1 w2 assms(2) by (simp add: sdscpylen_def s1(1) read_bytes_0)
  moreover have "sds_is (?s2\<lparr>sbuf := take n x @ NUL # ps, slen := n, sfree := length t + length rest - n\<rparr>) (take n x)"
    using post r s1(3) assms(2) by (simp add: sds_is_def)
  ultimately show ?thesis by blast
qed

lemma sdsgrowzero_ok:
  assumes "sds_is s t" "n + length t + 2 ^ 20 < 2 ^ 32"
  shows "\<exists>s'. sdsgrowzero fill s n = Some s' \<and> sds_is s' (t @ replicate (n - length t) NUL)"
proof (cases "n \<le> length t")
  case True
  then show ?thesis using assms(1) by (auto simp: sdsgrowzero_def sds_is_def)
next
  case False
  have len: "slen s = length t" using assms(1) by (auto simp: sds_is_def)
  let ?k = "n - length t"
  have "length t + ?k + 2 ^ 20 < 2 ^ 32" using assms(2) by simp
  with assms(1) obtain s1 where s1: "sdsMakeRoomFor fill s ?k = s1" "sds_is s1 t" "?k \<le> sfree s1"
    by (rule sdsMakeRoomFor_ok)
  obtain rest where r: "sbuf s1 = t @ NUL # rest" "slen s1 = length t" "sfree s1 = length rest"
    "length t + length rest < 2 ^ 32" using s1(2) by (auto simp: sds_is_def)
  have "?k + 1 \<le> length (NUL # rest)" using s1(3) r(3) by simp
  then obtain old post where op: "NUL # rest = old @ post" "length old = ?k + 1" "length post = length (NUL # rest) - (?k + 1)"
    by (rule split_at)
  have "set_chars s1 (length t) (replicate (?k + 1) NUL) = Some (s1\<lparr>sbuf := t @ replicate (?k + 1) NUL @ post\<rparr>)"
    using set_chars_app [of s1 t old post "length t" "replicate (?k + 1) NUL"] r op by simp
  moreover have "replicate (?k + 1) NUL @ post = replicate ?k NUL @ NUL # post"
    by (simp add: replicate_app_Cons_same)
  moreover have "sub32 (length t + length rest) (uint32 n) = length t + length rest - n" "uint32 n = n"
    using s1(3) r assms(2) False by (simp_all add: sub32_small)
  ultimately have "sdsgrowzero fill s n = Some (s1\<lparr>sbuf := t @ replicate ?k NUL @ NUL # post, slen := n,
      sfree := length t + length rest - n\<rparr>)"
    using False len r by (simp add: sdsgrowzero_def s1(1) Let_def replicate_app_Cons_same)
  moreover have "sds_is (s1\<lparr>sbuf := t @ replicate ?k NUL @ NUL # post, slen := n, sfree := length t + length rest - n\<rparr>)
      (t @ replicate ?k NUL)"
    using op(3) r s1(3) False by (simp add: sds_is_def)
  ultimately show ?thesis by blast
qed

text \<open>Keeping the part of the string from \<open>i\<close> on that is \<open>n\<close> long, as \<open>sdstrim\<close> and \<open>sdsrange\<close> do.\<close>

lemma keep_part_ok:
  assumes "sds_is s t" "(if mv then i else 0) + n \<le> length t"
  shows "\<exists>s'. keep_part s mv i n = Some s' \<and> sds_is s' (take n (drop (if mv then i else 0) t))"
proof -
  obtain rest where s: "sbuf s = t @ NUL # rest" "slen s = length t" "sfree s = length rest"
    "length t + length rest < 2 ^ 32" using assms(1) by (auto simp: sds_is_def)
  define part where "part = take n (drop (if mv then i else 0) t)"
  have pl: "length part = n" using assms(2) by (simp add: part_def)
  have "n \<le> length (sbuf s)" using assms(2) s by simp
  then obtain old post where op: "sbuf s = old @ post" "length old = n" "length post = length (sbuf s) - n"
    by (rule split_at)
  have b: "(if mv then move_bytes (sbuf s) 0 i n else Some (sbuf s)) = Some (part @ post)"
  proof (cases mv)
    case False
    have "take n (sbuf s) = old" using op by simp
    moreover have "take n (sbuf s) = part" using False s(1) assms(2) by (simp add: part_def)
    ultimately show ?thesis using False op(1) by simp
  next
    case True
    have "read_bytes (sbuf s) i n = Some part" using assms(2) s True by (simp add: read_bytes_def part_def)
    moreover have "write_bytes (sbuf s) 0 part = Some (part @ post)"
      using write_bytes_app [of "[]" 0 old part post] op pl by simp
    ultimately show ?thesis using True by (simp add: move_bytes_def)
  qed
  obtain p ps where post: "post = p # ps" "length ps = length t + length rest - n"
    using op(3) assms(2) s by (cases post) auto
  have "set_chars (s\<lparr>sbuf := part @ post\<rparr>) n [NUL] = Some (s\<lparr>sbuf := part @ NUL # ps\<rparr>)"
    using set_chars_app [of "s\<lparr>sbuf := part @ post\<rparr>" part "[p]" ps n "[NUL]"] post pl by simp
  moreover have free: "uint32 (sfree s + sub32 (slen s) n) = length t + length rest - n"
    using s assms(2) by (simp add: sub32_small)
  ultimately have "keep_part s mv i n =
      Some (s\<lparr>sbuf := part @ NUL # ps, sfree := length t + length rest - n, slen := n\<rparr>)"
    using s(2) by (simp add: keep_part_def b)
  moreover have "sds_is (s\<lparr>sbuf := part @ NUL # ps, sfree := length t + length rest - n, slen := n\<rparr>) part"
    using s pl assms(2) post by (auto simp: sds_is_def)
  ultimately show ?thesis unfolding part_def by blast
qed

lemma trim_left_ok:
  "sp \<le> length t \<Longrightarrow> n = length t \<Longrightarrow> \<exists>k. trim_left cset (t @ r) sp n = Some (sp + k) \<and> sp + k \<le> length t \<and>
    drop (sp + k) t = dropWhile (trim_char cset) (drop sp t)"
proof (induction "length t - sp" arbitrary: sp)
  case 0
  then show ?case by (subst trim_left.simps) (auto intro: exI [of _ 0])
next
  case (Suc m)
  then have sp: "sp < length t" by simp
  then have d: "drop sp t = t ! sp # drop (Suc sp) t" by (rule Cons_nth_drop_Suc [symmetric])
  show ?case
  proof (cases "trim_char cset (t ! sp)")
    case True
    have "\<exists>k. trim_left cset (t @ r) (Suc sp) n = Some (Suc sp + k) \<and> Suc sp + k \<le> length t \<and>
        drop (Suc sp + k) t = dropWhile (trim_char cset) (drop (Suc sp) t)"
      using Suc sp by (intro Suc.hyps(1)) auto
    then obtain k where "trim_left cset (t @ r) (Suc sp) n = Some (Suc sp + k)" "Suc sp + k \<le> length t"
        "drop (Suc sp + k) t = dropWhile (trim_char cset) (drop (Suc sp) t)" by blast
    then show ?thesis using True sp d Suc.prems
      by (subst trim_left.simps) (auto simp: nth_append intro!: exI [of _ "Suc k"])
  next
    case False
    then show ?thesis using sp d Suc.prems by (subst trim_left.simps) (auto simp: nth_append intro!: exI [of _ 0])
  qed
qed

text \<open>\<open>trim_right\<close> stops at 0 whatever the first character is.\<close>

lemma trim_right_ok:
  "k < length t \<Longrightarrow> \<exists>e. trim_right cset (t @ r) k = Some e \<and> e \<le> k \<and>
    (\<forall>i. e < i \<longrightarrow> i \<le> k \<longrightarrow> trim_char cset (t ! i)) \<and> (e = 0 \<or> \<not> trim_char cset (t ! e))"
proof (induction k)
  case (Suc k)
  show ?case
  proof (cases "trim_char cset (t ! Suc k)")
    case True
    then show ?thesis using Suc by (auto simp: nth_append le_Suc_eq)
  next
    case False
    then show ?thesis using Suc.prems by (auto simp: nth_append)
  qed
qed simp

definition trim :: "(char \<Rightarrow> bool) \<Rightarrow> string \<Rightarrow> string" where
  "trim P t = rev (dropWhile P (rev (dropWhile P t)))"

lemma trim_suffix:
  assumes "\<forall>c \<in> set suf. P c" "core = [] \<or> \<not> P (last core)"
  shows "rev (dropWhile P (rev (core @ suf))) = core"
proof (cases core rule: rev_cases)
  case Nil
  then show ?thesis using assms(1) by (simp add: dropWhile_eq_Nil_conv)
next
  case (snoc ys y)
  have "dropWhile P (rev suf @ rev core) = dropWhile P (rev core)"
    by (rule dropWhile_append2) (use assms(1) in simp)
  then show ?thesis using assms(2) snoc by simp
qed

lemma sdstrim_ok:
  assumes "sds_is s t"
  shows "\<exists>s'. sdstrim s cset = Some s' \<and> sds_is s' (trim (trim_char cset) t)"
proof -
  let ?P = "trim_char cset"
  obtain rest where s: "sbuf s = t @ NUL # rest" "slen s = length t" using assms by (auto simp: sds_is_def)
  obtain sp where sp: "trim_left cset (sbuf s) 0 (length t) = Some sp" "sp \<le> length t" "drop sp t = dropWhile ?P t"
    using trim_left_ok [of 0 t "length t" cset "NUL # rest"] s(1) by auto
  obtain e0 where e0: "t \<noteq> [] \<Longrightarrow> trim_right cset (sbuf s) (length t - 1) = Some e0"
    using trim_right_ok [of "length t - 1" t cset "NUL # rest"] s(1) by (cases t) auto
  define ep where "ep = (if length t = 0 then -1 else int e0)"
  define n where "n = (if int sp > ep then 0 else nat (ep - int sp) + 1)"
  have core: "sp + n \<le> length t \<and> take n (drop sp t) = trim ?P t"
  proof (cases "dropWhile ?P t = []")
    case True
    then have "drop sp t = []" using sp(3) by simp
    then have "sp = length t" using sp(2) by simp
    moreover have "ep < int (length t)"
      using trim_right_ok [of "length t - 1" t cset "NUL # rest"] s(1) e0 unfolding ep_def by (cases t) auto
    moreover have "trim ?P t = []" unfolding trim_def by (simp only: True) simp
    ultimately show ?thesis by (simp add: n_def)
  next
    case False
    then have lt: "sp < length t" using sp by (metis drop_eq_Nil not_le)
    obtain e where e: "trim_right cset (sbuf s) (length t - 1) = Some e" "e \<le> length t - 1"
      "\<forall>i. e < i \<longrightarrow> i \<le> length t - 1 \<longrightarrow> ?P (t ! i)" "e = 0 \<or> \<not> ?P (t ! e)"
    proof -
      have "length t - 1 < length t" using lt by simp
      from trim_right_ok [OF this, of cset "NUL # rest"] show thesis using that s(1) by auto
    qed
    have first: "\<not> ?P (t ! sp)"
      using False sp lt by (metis hd_drop_conv_nth hd_dropWhile)
    have le: "sp \<le> e"
      using e(3) first lt by (metis Suc_diff_1 gr_zeroI leI le_antisym less_Suc_eq_le less_nat_zero_code not_le)
    have ep: "ep = int e" using lt e(1) e0 by (auto simp: ep_def)
    then have n: "n = Suc e - sp" using le by (simp add: n_def)
    have split: "drop sp t = take n (drop sp t) @ drop (Suc e) t"
      using le n by (metis append_take_drop_id drop_drop le_SucI le_add_diff_inverse2)
    have "last (take n (drop sp t)) = t ! e" "take n (drop sp t) \<noteq> []"
      using le n e(2) lt by (simp_all add: last_conv_nth)
    moreover have "\<not> ?P (t ! e)" using e(4) first le by auto
    moreover have "\<forall>c \<in> set (drop (Suc e) t). ?P c"
      using e(3) by (auto simp: in_set_conv_nth)
    ultimately have "rev (dropWhile ?P (rev (drop sp t))) = take n (drop sp t)"
      by (subst split, intro trim_suffix) auto
    then show ?thesis using sp(3) n e(2) le lt by (simp add: trim_def)
  qed
  have "sdstrim s cset = keep_part s (sp \<noteq> 0) sp n"
    using sp(1) e0 by (simp add: sdstrim_def Let_def s(2) n_def ep_def)
  moreover have "(if sp \<noteq> 0 then sp else 0) = sp" by simp
  ultimately show ?thesis using keep_part_ok [OF assms, of "sp \<noteq> 0" sp n] core by simp
qed

definition range_pos :: "nat \<Rightarrow> int \<Rightarrow> int" where
  "range_pos n i = (if i < 0 then max 0 (int n + i) else i)"

definition range_part :: "int \<Rightarrow> int \<Rightarrow> string \<Rightarrow> string" where
  "range_part start stop t =
    (let i = range_pos (length t) start; j = min (range_pos (length t) stop) (int (length t) - 1) in
     if i \<le> j then take (nat (j - i + 1)) (drop (nat i) t) else [])"

lemma sdsrange_ok:
  assumes "sds_is s t" "stop < 2 ^ 31 - 1" "length t < 2 ^ 31"
  shows "\<exists>s'. sdsrange s start stop = Some s' \<and> sds_is s' (range_part start stop t)"
proof (cases "length t = 0")
  case True
  then show ?thesis using assms(1) by (auto simp: sdsrange_def sds_is_def range_part_def Let_def)
next
  case False
  have len: "slen s = length t" using assms(1) by (simp add: sds_is_string)
  let ?i = "range_pos (length t) start" and ?j = "range_pos (length t) stop"
  have pos: "0 \<le> ?i" "0 \<le> ?j" "?j < 2 ^ 31 - 1" using assms(2,3) by (auto simp: range_pos_def)
  define n where "n = (if ?i > ?j \<or> ?i \<ge> int (length t) then 0 else min ?j (int (length t) - 1) - ?i + 1)"
  define i where "i = (if ?i > ?j then 0 else ?i)"
  have "range_bounds (int (length t)) start stop = do {
      newlen \<leftarrow> range_len ?i ?j;
      if newlen \<noteq> 0 then
        (if ?i \<ge> int (length t) then Some (?i, 0)
         else if ?j \<ge> int (length t) then map_option (\<lambda>n. (?i, n)) (range_len ?i (int (length t) - 1))
         else Some (?i, newlen))
      else Some (0, newlen) }"
    by (simp only: range_bounds_def range_pos_def Let_def)
  also have "\<dots> = Some (i, n)"
    using pos assms(3) by (auto simp: range_len_def n_def i_def)
  finally have b: "range_bounds (int (length t)) start stop = Some (i, n)" .
  have fit: "(if i \<noteq> 0 \<and> n \<noteq> 0 then nat i else 0) + nat n \<le> length t"
    using pos by (auto simp: n_def i_def)
  have part: "take (nat n) (drop (if i \<noteq> 0 \<and> n \<noteq> 0 then nat i else 0) t) = range_part start stop t"
    using pos by (auto simp: range_part_def Let_def n_def i_def min_def)
  show ?thesis using keep_part_ok [OF assms(1) fit] False len unfolding part
    by (simp add: sdsrange_def b)
qed

lemma map_chars_part: "k \<le> length t \<Longrightarrow> map_chars f k (t @ r) = Some (map f (take k t) @ drop k t @ r)"
proof (induction k)
  case (Suc k)
  then have "drop k t = t ! k # drop (Suc k) t" "take (Suc k) t = take k t @ [t ! k]"
    by (simp_all add: Cons_nth_drop_Suc take_Suc_conv_app_nth)
  then show ?case using Suc by (simp add: list_update_append nth_append)
qed simp

lemma map_chars_app: "map_chars f (length t) (t @ r) = Some (map f t @ r)"
  using map_chars_part [of "length t" t f r] by simp

lemma sdstolower_ok: "sds_is s t \<Longrightarrow> \<exists>s'. sdstolower s = Some s' \<and> sds_is s' (map lower_char t)"
  by (auto simp: sds_is_def sdstolower_def map_chars_app)

lemma sdstoupper_ok: "sds_is s t \<Longrightarrow> \<exists>s'. sdstoupper s = Some s' \<and> sds_is s' (map upper_char t)"
  by (auto simp: sds_is_def sdstoupper_def map_chars_app)

definition subst_char :: "string \<Rightarrow> string \<Rightarrow> char \<Rightarrow> char" where
  "subst_char src dst c = (case map_of (zip src dst) c of Some d \<Rightarrow> d | None \<Rightarrow> c)"

lemma map_char_ok: "n \<le> length src \<Longrightarrow> n \<le> length dst \<Longrightarrow>
    map_char src dst n c = Some (subst_char (take n src) (take n dst) c)"
  by (induction src dst n c rule: map_char.induct) (auto simp: subst_char_def)

lemma sdsmapchars_ok:
  assumes "sds_is s t" "n \<le> length src" "n \<le> length dst"
  shows "\<exists>s'. sdsmapchars s src dst n = Some s' \<and> sds_is s' (map (subst_char (take n src) (take n dst)) t)"
proof -
  have loop: "mapchars_loop src dst n k (t @ r) = map_chars (subst_char (take n src) (take n dst)) k (t @ r)" for k r
    using assms(2,3) by (induction k) (simp_all add: map_char_ok)
  show ?thesis using assms(1) by (auto simp: sds_is_def sdsmapchars_def loop map_chars_app)
qed

lemma sdsclear_ok: "sds_is s t \<Longrightarrow> \<exists>s'. sdsclear s = Some s' \<and> sds_is s' []"
proof -
  assume s: "sds_is s t"
  then obtain rest where r: "sbuf s = t @ NUL # rest" "slen s = length t" "sfree s = length rest"
    "length t + length rest < 2 ^ 32" by (auto simp: sds_is_def)
  obtain p ps where "t @ NUL # rest = p # ps" "length ps = length t + length rest" by (cases t) auto
  then show ?thesis using r set_chars_app [of "s\<lparr>sfree := length rest + length t, slen := 0\<rparr>" "[]" "[p]" ps 0 "[NUL]"]
    by (auto simp: sdsclear_def sds_is_def)
qed

lemma sdsRemoveFreeSpace_ok: "sds_is s t \<Longrightarrow> sds_is (sdsRemoveFreeSpace fill s) t"
  by (auto simp: sds_is_def sdsRemoveFreeSpace_def realloc_bytes_def)

definition first_diff_less :: "string \<Rightarrow> string \<Rightarrow> bool" where
  "first_diff_less s t \<longleftrightarrow> (\<exists>p x y s' t'. s = p @ x # s' \<and> t = p @ y # t' \<and> x < y)"

definition proper_prefix :: "string \<Rightarrow> string \<Rightarrow> bool" where
  "proper_prefix s t \<longleftrightarrow> (\<exists>c cs. t = s @ c # cs)"

lemma proper_prefix_simps [simp]:
  "proper_prefix [] t \<longleftrightarrow> t \<noteq> []" "\<not> proper_prefix s []"
  "proper_prefix (a # s) (b # t) \<longleftrightarrow> a = b \<and> proper_prefix s t"
  by (auto simp: proper_prefix_def neq_Nil_conv)

lemma first_diff_less_Nil [simp]: "\<not> first_diff_less [] t" "\<not> first_diff_less s []"
  by (auto simp: first_diff_less_def)

lemma first_diff_less_Cons [simp]:
  "first_diff_less (a # s) (b # t) \<longleftrightarrow> a < b \<or> a = b \<and> first_diff_less s t"
proof
  assume "first_diff_less (a # s) (b # t)"
  then obtain p x y a' b' where p: "a # s = p @ x # a'" "b # t = p @ y # b'" "x < y"
    unfolding first_diff_less_def by blast
  then show "a < b \<or> a = b \<and> first_diff_less s t"
    unfolding first_diff_less_def by (cases p) auto
next
  assume "a < b \<or> a = b \<and> first_diff_less s t"
  then show "first_diff_less (a # s) (b # t)"
  proof
    assume "a < b"
    then have "a # s = [] @ a # s \<and> b # t = [] @ b # t \<and> a < b" by simp
    then show ?thesis unfolding first_diff_less_def by blast
  next
    assume "a = b \<and> first_diff_less s t"
    then obtain p x y a' b' where "a = b" "s = p @ x # a'" "t = p @ y # b'" "x < y"
      unfolding first_diff_less_def by blast
    then have "a # s = (a # p) @ x # a' \<and> b # t = (a # p) @ y # b' \<and> x < y" by simp
    then show ?thesis unfolding first_diff_less_def by blast
  qed
qed

section \<open>Sequences of operations\<close>

datatype sds_op = Cat string | Cpy string | Grow nat | Trim string | Range int int | Lower | Upper
  | MapChars string string | Clear | Compact

fun sds_step :: "(nat \<Rightarrow> char) \<Rightarrow> sds \<Rightarrow> sds_op \<Rightarrow> sds option" where
  "sds_step fill s (Cat x) = sdscatlen fill s x (length x)"
| "sds_step fill s (Cpy x) = sdscpylen fill s x (length x)"
| "sds_step fill s (Grow n) = sdsgrowzero fill s n"
| "sds_step fill s (Trim cset) = sdstrim s cset"
| "sds_step fill s (Range i j) = sdsrange s i j"
| "sds_step fill s Lower = sdstolower s"
| "sds_step fill s Upper = sdstoupper s"
| "sds_step fill s (MapChars src dst) = sdsmapchars s src dst (length src)"
| "sds_step fill s Clear = sdsclear s"
| "sds_step fill s Compact = Some (sdsRemoveFreeSpace fill s)"

fun sds_run :: "(nat \<Rightarrow> char) \<Rightarrow> sds \<Rightarrow> sds_op list \<Rightarrow> sds option" where
  "sds_run fill s [] = Some s"
| "sds_run fill s (x # xs) = do { s \<leftarrow> sds_step fill s x; sds_run fill s xs }"

fun str_step :: "string \<Rightarrow> sds_op \<Rightarrow> string" where
  "str_step t (Cat x) = t @ x"
| "str_step t (Cpy x) = x"
| "str_step t (Grow n) = t @ replicate (n - length t) NUL"
| "str_step t (Trim cset) = trim (trim_char cset) t"
| "str_step t (Range i j) = range_part i j t"
| "str_step t Lower = map lower_char t"
| "str_step t Upper = map upper_char t"
| "str_step t (MapChars src dst) = map (subst_char src dst) t"
| "str_step t Clear = []"
| "str_step t Compact = t"

fun op_size :: "sds_op \<Rightarrow> nat" where
  "op_size (Cat x) = length x"
| "op_size (Cpy x) = length x"
| "op_size (Grow n) = n"
| "op_size _ = 0"

fun sds_op_ok :: "sds_op \<Rightarrow> bool" where
  "sds_op_ok (Range i j) \<longleftrightarrow> j < 2 ^ 31 - 1"
| "sds_op_ok (MapChars src dst) \<longleftrightarrow> length src = length dst"
| "sds_op_ok _ \<longleftrightarrow> True"

lemma trim_length: "length (trim P t) \<le> length t"
  unfolding trim_def by (metis length_dropWhile_le length_rev order_trans)

lemma range_part_length: "length (range_part i j t) \<le> length t"
  by (auto simp: range_part_def Let_def)

lemma str_step_length: "length (str_step t x) \<le> length t + op_size x"
  using trim_length [of _ t] range_part_length [of _ _ t] by (cases x) auto

lemma sds_step_ok:
  assumes "sds_is s t" "sds_op_ok x" "length t + op_size x + 2 ^ 20 < 2 ^ 31"
  shows "\<exists>s'. sds_step fill s x = Some s' \<and> sds_is s' (str_step t x)"
proof (cases x)
  case (Cat y)
  then show ?thesis using sdscatlen_ok [OF assms(1), of "length y" y fill] assms(3) by simp
next
  case (Cpy y)
  then show ?thesis using sdscpylen_ok [OF assms(1), of "length y" y fill] assms(3) by simp
next
  case (Grow n)
  then show ?thesis using sdsgrowzero_ok [OF assms(1), of n fill] assms(3) by simp
next
  case (Trim c)
  then show ?thesis using sdstrim_ok [OF assms(1)] by simp
next
  case (Range i j)
  then show ?thesis using sdsrange_ok [OF assms(1)] assms(2,3) by simp
next
  case (MapChars src dst)
  then show ?thesis using sdsmapchars_ok [OF assms(1), of "length src" src dst] assms(2) by simp
qed (use assms(1) sdstolower_ok sdstoupper_ok sdsclear_ok sdsRemoveFreeSpace_ok in auto)

section \<open>Properties\<close>

text \<open>(C21) Any sequence of appends, copies, zero extensions, trims, sub-ranges, case changes, substitutions,
  clearings and compactions of a dynamic string stays inside its allocation, keeps the header's
  length and free space exact and the string NUL terminated, and computes the string the same
  operations give on character lists; the total length has to stay below 2^31 - 2^20.\<close>

theorem sds_trace_refinement:
  assumes "sds_is s t" and "\<forall>x \<in> set xs. sds_op_ok x"
    and "length t + sum_list (map op_size xs) + 2 ^ 20 < 2 ^ 31"
  shows "\<exists>s'. sds_run fill s xs = Some s' \<and> sds_is s' (foldl str_step t xs)"
  using assms
proof (induction xs arbitrary: s t)
  case (Cons x xs)
  have "length t + op_size x + 2 ^ 20 < 2 ^ 31" using Cons.prems(3) by simp
  with Cons.prems obtain s1 where s1: "sds_step fill s x = Some s1" "sds_is s1 (str_step t x)"
    using sds_step_ok [of s t x fill] by auto
  have "length (str_step t x) + sum_list (map op_size xs) + 2 ^ 20 < 2 ^ 31"
    using Cons.prems(3) str_step_length [of t x] by simp
  from Cons.IH [OF s1(2) _ this] Cons.prems(2) s1(1) show ?case by simp
qed auto

theorem sds_trace_refinement_witness:
  "\<exists>s'. sds_run (\<lambda>_. NUL) \<lparr>slen = 0, sfree = 0, sbuf = [NUL]\<rparr>
      [Cat ''xxHello'', Trim ''x'', Cat '' World'', Range 1 (- 2), Lower] = Some s' \<and> sds_is s' ''ello worl''"
proof -
  have "sds_is \<lparr>slen = 0, sfree = 0, sbuf = [NUL]\<rparr> []" by (simp add: sds_is_def)
  from sds_trace_refinement [OF this, of "[Cat ''xxHello'', Trim ''x'', Cat '' World'', Range 1 (- 2), Lower]" "\<lambda>_. NUL"]
  have "\<exists>s'. sds_run (\<lambda>_. NUL) \<lparr>slen = 0, sfree = 0, sbuf = [NUL]\<rparr>
      [Cat ''xxHello'', Trim ''x'', Cat '' World'', Range 1 (- 2), Lower] = Some s' \<and>
      sds_is s' (foldl str_step [] [Cat ''xxHello'', Trim ''x'', Cat '' World'', Range 1 (- 2), Lower])"
    by (simp del: sds_run.simps foldl.simps)
  moreover have "foldl str_step [] [Cat ''xxHello'', Trim ''x'', Cat '' World'', Range 1 (- 2), Lower] = ''ello worl''"
    by code_simp
  ultimately show ?thesis by (simp only:)
qed

text \<open>(C22) \<open>sdscmp\<close> orders the represented strings by their first difference as unsigned characters, and a
  proper prefix before its extension, for strings whose lengths differ by less than 2^31: the result is the
  difference of the lengths narrowed to an \<open>int\<close>, so beyond that its sign is the opposite.\<close>

theorem sdscmp_spec:
  assumes "sds_is s a" and "sds_is s' b" and "\<bar>int (length a) - int (length b)\<bar> < 2 ^ 31"
  shows "(sdscmp s s' = 0 \<longleftrightarrow> a = b) \<and>
    (sdscmp s s' < 0 \<longleftrightarrow> proper_prefix a b \<or> first_diff_less a b)"
proof -
  have "c_int (int (length a) - int (length b)) = int (length a) - int (length b)"
    using assms(3) by (intro c_int_id) simp_all
  then have eq: "sdscmp s s' = (let n = min (length a) (length b); cmp = memcmp (take n a) (take n b) in
      if cmp = 0 then int (length a) - int (length b) else cmp)"
    using assms(1,2) by (auto simp: sds_is_def sdscmp_def Let_def)
  have "(let n = min (length a) (length b); cmp = memcmp (take n a) (take n b) in
      if cmp = 0 then int (length a) - int (length b) else cmp) = 0 \<longleftrightarrow> a = b" for a b
    by (induction a b rule: memcmp.induct) (auto simp: Let_def neq_Nil_conv)
  moreover have "(let n = min (length a) (length b); cmp = memcmp (take n a) (take n b) in
      if cmp = 0 then int (length a) - int (length b) else cmp) < 0 \<longleftrightarrow> proper_prefix a b \<or> first_diff_less a b" for a b
    by (induction a b rule: memcmp.induct) (auto simp: Let_def neq_Nil_conv)
  ultimately show ?thesis unfolding eq by blast
qed

theorem sdscmp_spec_witness:
  "sdscmp \<lparr>slen = 1, sfree = 0, sbuf = [CHR ''a'', NUL]\<rparr> \<lparr>slen = 1, sfree = 0, sbuf = [CHR 0xC3, NUL]\<rparr> < 0"
proof -
  have "sds_is \<lparr>slen = 1, sfree = 0, sbuf = [CHR ''a'', NUL]\<rparr> ''a''"
    "sds_is \<lparr>slen = 1, sfree = 0, sbuf = [CHR 0xC3, NUL]\<rparr> [CHR 0xC3]" by (simp_all add: sds_is_def)
  from sdscmp_spec [OF this]
  have c: "sdscmp \<lparr>slen = 1, sfree = 0, sbuf = [CHR ''a'', NUL]\<rparr> \<lparr>slen = 1, sfree = 0, sbuf = [CHR 0xC3, NUL]\<rparr> < 0 \<longleftrightarrow>
      proper_prefix ''a'' [CHR 0xC3] \<or> first_diff_less ''a'' [CHR 0xC3]" by simp
  have "CHR ''a'' < CHR 0xC3" by (simp add: less_char_def)
  then show ?thesis using c by simp
qed

end
