(* ===== verification/Sds_Text.thy ===== *)
theory Sds_Text
  imports Sds
begin

text \<open>
  \<^verbatim>\<open>src/redis-3.0.3/src/sds.c\<close>, text level: number formatting (\<open>sdsll2str\<close>, \<open>sdsull2str\<close>, \<open>sdscatfmt\<close>),
  splitting and joining (\<open>sdssplitlen\<close>, \<open>sdsjoin\<close>), the quoted representation (\<open>sdscatrepr\<close>) and the
  argument parser that reads it back (\<open>sdssplitargs\<close>).  Here a dynamic string is its character list;
  its header and buffer are those of theory \<open>Sds\<close>.
\<close>

section \<open>Numbers\<close>

text \<open>The digit loop writes the least significant digit first: buffer and end position.\<close>

function ll2str_digits :: "string \<Rightarrow> nat \<Rightarrow> nat \<Rightarrow> (string \<times> nat) option" where
  "ll2str_digits s p v =
    (case write_bytes s p [char_of (48 + v mod 10)] of
       None \<Rightarrow> None
     | Some s \<Rightarrow> if v div 10 \<noteq> 0 then ll2str_digits s (p + 1) (v div 10) else Some (s, p + 1))"
  by pat_completeness auto
termination by (relation "measure (\<lambda>(s, p, v). v)") auto

declare ll2str_digits.simps [simp del]

text \<open>The loop that reverses \<open>s[i..p]\<close> in place.\<close>

function reverse_loop :: "string \<Rightarrow> nat \<Rightarrow> nat \<Rightarrow> string" where
  "reverse_loop s i p = (if i < p then reverse_loop (s[i := s ! p, p := s ! i]) (i + 1) (p - 1) else s)"
  by pat_completeness auto
termination by (relation "measure (\<lambda>(s, i, p). p - i)") auto

declare reverse_loop.simps [simp del]

definition ll2str_finish :: "string \<Rightarrow> nat \<Rightarrow> (nat \<times> string) option" where
  "ll2str_finish s p = map_option (\<lambda>s. (p, reverse_loop s 0 (p - 1))) (write_bytes s p [NUL])"

text \<open>Negating the least 64 bit integer is undefined behaviour, a fault.\<close>

definition sdsll2str :: "string \<Rightarrow> int \<Rightarrow> (nat \<times> string) option" where
  "sdsll2str s value =
    (if value = LLONG_MIN then None
     else do {
       (s, p) \<leftarrow> ll2str_digits s 0 (nat (if value < 0 then - value else value));
       (s, p) \<leftarrow> (if value < 0 then map_option (\<lambda>s. (s, p + 1)) (write_bytes s p ''-'') else Some (s, p));
       ll2str_finish s p
     })"

definition sdsull2str :: "string \<Rightarrow> nat \<Rightarrow> (nat \<times> string) option" where
  "sdsull2str s v = do { (s, p) \<leftarrow> ll2str_digits s 0 v; ll2str_finish s p }"

definition sdsfromlonglong :: "int \<Rightarrow> string option" where
  "sdsfromlonglong value = do {
     (len, buf) \<leftarrow> sdsll2str (replicate 21 NUL) value; read_bytes buf 0 len }"

text \<open>\<open>sdscatfmt\<close> with its arguments in order; a missing argument, one of the wrong type, or a format
  that ends in \<open>%\<close> (which makes the loop step over the terminator) is a fault.\<close>

datatype fmt_arg = FmtStr string | FmtSds string | FmtInt int | FmtUint nat

fun sdscatfmt :: "string \<Rightarrow> string \<Rightarrow> fmt_arg list \<Rightarrow> string option" where
  "sdscatfmt s [] as = Some s"
| "sdscatfmt s (c # f) as =
    (if c = CHR ''%'' then
       (case f of
          [] \<Rightarrow> None
        | d # f \<Rightarrow>
            if d = CHR ''s'' then (case as of FmtStr t # as \<Rightarrow> sdscatfmt (s @ c_string t) f as | _ \<Rightarrow> None)
            else if d = CHR ''S'' then (case as of FmtSds t # as \<Rightarrow> sdscatfmt (s @ t) f as | _ \<Rightarrow> None)
            else if d = CHR ''i'' \<or> d = CHR ''I'' then
              (case as of
                 FmtInt num # as \<Rightarrow> do {
                   (l, buf) \<leftarrow> sdsll2str (replicate 21 NUL) num;
                   t \<leftarrow> read_bytes buf 0 l;
                   sdscatfmt (s @ t) f as }
               | _ \<Rightarrow> None)
            else if d = CHR ''u'' \<or> d = CHR ''U'' then
              (case as of
                 FmtUint unum # as \<Rightarrow> do {
                   (l, buf) \<leftarrow> sdsull2str (replicate 21 NUL) unum;
                   t \<leftarrow> read_bytes buf 0 l;
                   sdscatfmt (s @ t) f as }
               | _ \<Rightarrow> None)
            else sdscatfmt (s @ [d]) f as)
     else sdscatfmt (s @ [c]) f as)"

section \<open>Splitting and joining\<close>




fun sdsjoin_loop :: "string \<Rightarrow> string \<Rightarrow> string list \<Rightarrow> string" where
  "sdsjoin_loop join sep [] = join"
| "sdsjoin_loop join sep (a # argv) =
    (let join = join @ c_string a; join = (if argv \<noteq> [] then join @ c_string sep else join)
     in sdsjoin_loop join sep argv)"

definition sdsjoin :: "string list \<Rightarrow> string \<Rightarrow> string" where
  "sdsjoin argv sep = sdsjoin_loop [] sep argv"

section \<open>Quoted representation\<close>

abbreviation backslash :: char where "backslash \<equiv> CHR 0x5C"
abbreviation quote :: char where "quote \<equiv> CHR 0x22"
abbreviation apostrophe :: char where "apostrophe \<equiv> CHR 0x27"

definition isprint :: "char \<Rightarrow> bool" where
  "isprint c \<longleftrightarrow> CHR '' '' \<le> c \<and> c \<le> CHR ''~''"

definition isspace :: "char \<Rightarrow> bool" where
  "isspace c \<longleftrightarrow> c = CHR '' '' \<or> CHR 0x09 \<le> c \<and> c \<le> CHR 0x0D"

definition hex_digit :: "nat \<Rightarrow> char" where
  "hex_digit n = (if n < 10 then char_of (48 + n) else char_of (87 + n))"

definition repr_char :: "char \<Rightarrow> string" where
  "repr_char c =
    (if c = backslash \<or> c = quote then [backslash, c]
     else if c = CHR 0x0A then [backslash, CHR ''n'']
     else if c = CHR 0x0D then [backslash, CHR ''r'']
     else if c = CHR 0x09 then [backslash, CHR ''t'']
     else if c = CHR 0x07 then [backslash, CHR ''a'']
     else if c = CHR 0x08 then [backslash, CHR ''b'']
     else if isprint c then [c]
     else [backslash, CHR ''x'', hex_digit (of_char c div 16), hex_digit (of_char c mod 16)])"

definition sdscatrepr :: "string \<Rightarrow> string \<Rightarrow> string" where
  "sdscatrepr s p = s @ [quote] @ concat (map repr_char p) @ [quote]"

definition is_hex_digit :: "char \<Rightarrow> bool" where
  "is_hex_digit c \<longleftrightarrow> (CHR ''0'' \<le> c \<and> c \<le> CHR ''9'') \<or> (CHR ''a'' \<le> c \<and> c \<le> CHR ''f'') \<or>
     (CHR ''A'' \<le> c \<and> c \<le> CHR ''F'')"

definition hex_digit_to_int :: "char \<Rightarrow> nat" where
  "hex_digit_to_int c =
    (if CHR ''0'' \<le> c \<and> c \<le> CHR ''9'' then of_char c - 48
     else if CHR ''a'' \<le> c \<and> c \<le> CHR ''f'' then of_char c - 87
     else if CHR ''A'' \<le> c \<and> c \<le> CHR ''F'' then of_char c - 55
     else 0)"

section \<open>Argument parsing\<close>

definition unescape :: "char \<Rightarrow> char" where
  "unescape c =
    (if c = CHR ''n'' then CHR 0x0A else if c = CHR ''r'' then CHR 0x0D else if c = CHR ''t'' then CHR 0x09
     else if c = CHR ''b'' then CHR 0x08 else if c = CHR ''a'' then CHR 0x07 else c)"

datatype quote_mode = Plain | InQuotes | InSingle

text \<open>One round of the token loop: an error, the end of the token, a character for it, or an opening
  quote; with what is left of the line.\<close>

datatype tok_step = Bad | Done string | Emit char string | Enter quote_mode string

fun inq_step :: "string \<Rightarrow> tok_step" where
  "inq_step [] = Bad"
| "inq_step (c # p) =
    (if c = backslash \<and> 3 \<le> length p \<and> p ! 0 = CHR ''x'' \<and> is_hex_digit (p ! 1) \<and> is_hex_digit (p ! 2)
     then Emit (char_of (hex_digit_to_int (p ! 1) * 16 + hex_digit_to_int (p ! 2))) (drop 3 p)
     else if c = backslash \<and> p \<noteq> [] then Emit (unescape (hd p)) (tl p)
     else if c = quote then (if p \<noteq> [] \<and> \<not> isspace (hd p) then Bad else Done p)
     else Emit c p)"

fun insq_step :: "string \<Rightarrow> tok_step" where
  "insq_step [] = Bad"
| "insq_step (c # p) =
    (if c = backslash \<and> p \<noteq> [] \<and> hd p = apostrophe then Emit apostrophe (tl p)
     else if c = apostrophe then (if p \<noteq> [] \<and> \<not> isspace (hd p) then Bad else Done p)
     else Emit c p)"

fun plain_step :: "string \<Rightarrow> tok_step" where
  "plain_step [] = Done []"
| "plain_step (c # p) =
    (if c = CHR '' '' \<or> c = CHR 0x0A \<or> c = CHR 0x0D \<or> c = CHR 0x09 then Done p
     else if c = quote then Enter InQuotes p
     else if c = apostrophe then Enter InSingle p
     else Emit c p)"

fun read_step :: "quote_mode \<Rightarrow> string \<Rightarrow> tok_step" where
  "read_step InQuotes p = inq_step p"
| "read_step InSingle p = insq_step p"
| "read_step Plain p = plain_step p"

lemma read_step_rest:
  "read_step m p = Emit c r \<Longrightarrow> length r < length p"
  "read_step m p = Enter m' r \<Longrightarrow> length r < length p"
  "read_step m p = Done r \<Longrightarrow> length r \<le> length p - 1"
  by (cases m; cases p; auto split: if_splits)+

text \<open>The token loop: the finished token and the rest of the line, or \<open>None\<close> for \<open>goto err\<close>.\<close>

function token_loop :: "quote_mode \<Rightarrow> string \<Rightarrow> string \<Rightarrow> (string \<times> string) option" where
  "token_loop m current p =
    (case read_step m p of
       Bad \<Rightarrow> None
     | Done r \<Rightarrow> Some (current, r)
     | Emit c r \<Rightarrow> token_loop m (current @ [c]) r
     | Enter m' r \<Rightarrow> token_loop m' current r)"
  by pat_completeness auto
termination by (relation "measure (\<lambda>(m, current, p). length p)") (auto dest: read_step_rest)

declare token_loop.simps [simp del]

lemma token_loop_rest: "token_loop m cur p = Some (t, r) \<Longrightarrow> length r \<le> length p - 1"
proof (induction m cur p rule: token_loop.induct)
  case (1 m cur p)
  show ?case
  proof (cases "read_step m p")
    case (Emit c q)
    then show ?thesis using 1 read_step_rest(1) [OF Emit] by (subst (asm) (3) token_loop.simps) force
  next
    case (Enter m' q)
    then show ?thesis using 1 read_step_rest(2) [OF Enter] by (subst (asm) (3) token_loop.simps) force
  qed (use 1 in \<open>auto simp: token_loop.simps [of m cur p] dest: read_step_rest\<close>)
qed

function splitargs_loop :: "string list \<Rightarrow> string \<Rightarrow> string list option" where
  "splitargs_loop vec p =
    (let p = dropWhile isspace p in
     if p = [] then Some vec
     else case token_loop Plain [] p of
       None \<Rightarrow> None
     | Some (t, r) \<Rightarrow> splitargs_loop (vec @ [t]) r)"
  by pat_completeness auto
termination
proof (relation "measure (\<lambda>(vec, p). length p)")
  fix vec p q t r and z :: "string \<times> string"
  assume "q = dropWhile isspace p" "q \<noteq> []" "token_loop Plain [] q = Some z" "(t, r) = z"
  then have "length r \<le> length q - 1" "0 < length q" "length q \<le> length p"
    using token_loop_rest [of Plain "[]" q t r] by (auto simp: length_dropWhile_le)
  then have "length r < length p" by linarith
  then show "((vec @ [t], r), vec, p) \<in> measure (\<lambda>(vec, p). length p)" by simp
qed simp

declare splitargs_loop.simps [simp del]

definition sdssplitargs :: "string \<Rightarrow> string list option" where
  "sdssplitargs line = splitargs_loop [] (c_string line)"

section \<open>Reading back the quoted representation\<close>

lemma c_string_id: "NUL \<notin> set s \<Longrightarrow> c_string s = s"
  by (auto simp: c_string_def takeWhile_eq_all_conv)

lemma char_le_code: "c \<le> d \<longleftrightarrow> (of_char c :: nat) \<le> of_char d"
  by (simp add: less_eq_char_def)

lemma hex_digit_ok:
  assumes "n < 16"
  shows "is_hex_digit (hex_digit n)" and "hex_digit_to_int (hex_digit n) = n" and "hex_digit n \<noteq> NUL"
proof -
  have "n < 10 \<longrightarrow> (of_char (char_of (48 + n)) :: nat) = 48 + n"
    "(of_char (char_of (87 + n)) :: nat) = 87 + n" using assms by simp_all
  then show "is_hex_digit (hex_digit n)" "hex_digit_to_int (hex_digit n) = n" "hex_digit n \<noteq> NUL"
    using assms by (auto simp: hex_digit_def is_hex_digit_def hex_digit_to_int_def char_le_code char_neq_code)
qed

lemma of_char_less: "(of_char c :: nat) < 256"
  using of_char_mod_256 [of c, where 'a = nat] by (metis mod_less_divisor zero_less_numeral)

lemma char_nibbles: "of_char c div 16 < (16 :: nat)" "of_char c mod 16 < (16 :: nat)"
proof -
  have "x div 16 < 16" if "x < 256" for x :: nat using that by simp
  from this [OF of_char_less] show "of_char c div 16 < (16 :: nat)" .
qed simp

lemma read_step_repr: "read_step InQuotes (repr_char c @ rest) = Emit c rest"
proof -
  note hex = char_nibbles [of c]
  have "(of_char c div 16 * 16 + of_char c mod 16 :: nat) = of_char c" by simp
  then have "char_of (of_char c div 16 * 16 + of_char c mod 16 :: nat) = c" by (simp only: char_of_char)
  then show ?thesis using hex_digit_ok [OF hex(1)] hex_digit_ok [OF hex(2)]
    by (auto simp: repr_char_def unescape_def)
qed

lemma token_loop_repr:
  assumes "rest = [] \<or> isspace (hd rest)"
  shows "token_loop InQuotes cur (concat (map repr_char s) @ quote # rest) = Some (cur @ s, rest)"
proof (induction s arbitrary: cur)
  case Nil
  show ?case using assms by (subst token_loop.simps) auto
next
  case (Cons c s)
  have "read_step InQuotes (concat (map repr_char (c # s)) @ quote # rest) =
      Emit c (concat (map repr_char s) @ quote # rest)"
    using read_step_repr [of c "concat (map repr_char s) @ quote # rest"] by simp
  then show ?case using Cons.IH by (subst token_loop.simps) simp
qed

lemma repr_not_nul: "NUL \<notin> set (sdscatrepr [] s)"
proof -
  have hex: "NUL \<noteq> hex_digit (of_char c div 16)" "NUL \<noteq> hex_digit (of_char c mod 16)" for c
    by (metis hex_digit_ok(3) char_nibbles)+
  have "NUL \<notin> set (repr_char c)" for c
    using hex [of c] by (auto simp: repr_char_def isprint_def char_le_code simp del: of_char_eq_iff)
  then show ?thesis by (auto simp: sdscatrepr_def)
qed

definition intercalate :: "string \<Rightarrow> string list \<Rightarrow> string" where
  "intercalate sep ts = (if ts = [] then [] else hd ts @ concat (map (\<lambda>t. sep @ t) (tl ts)))"

lemma intercalate_simps [simp]:
  "intercalate sep [] = []" "intercalate sep [t] = t"
  "intercalate sep (t # u # ts) = t @ sep @ intercalate sep (u # ts)"
  by (simp_all add: intercalate_def)

lemma sdsjoin_ok:
  assumes "\<forall>t \<in> set ts. NUL \<notin> set t" "NUL \<notin> set sep"
  shows "sdsjoin ts sep = intercalate sep ts"
proof -
  have "sdsjoin_loop join sep ts = join @ intercalate sep ts" for join
    using assms
  proof (induction ts arbitrary: join)
    case (Cons t ts)
    then show ?case by (cases ts) (simp_all add: c_string_id Let_def)
  qed simp
  then show ?thesis by (simp add: sdsjoin_def)
qed

lemma splitargs_loop_repr:
  "splitargs_loop vec (intercalate '' '' (map (sdscatrepr []) ss)) = Some (vec @ ss)"
proof (induction ss arbitrary: vec)
  case Nil
  then show ?case by (subst splitargs_loop.simps) simp
next
  case (Cons s ss)
  define rest where "rest = (if ss = [] then [] else CHR '' '' # intercalate '' '' (map (sdscatrepr []) ss))"
  have line: "intercalate '' '' (map (sdscatrepr []) (s # ss)) = quote # concat (map repr_char s) @ quote # rest"
    by (cases ss) (simp_all add: rest_def sdscatrepr_def)
  have nsp: "\<not> isspace quote" by (simp add: isspace_def char_le_code)
  have "rest = [] \<or> isspace (hd rest)" by (auto simp: rest_def isspace_def)
  then have "token_loop Plain [] (quote # concat (map repr_char s) @ quote # rest) = Some (s, rest)"
    using token_loop_repr [of rest "[]" s] by (subst token_loop.simps) simp
  then have step: "splitargs_loop vec (intercalate '' '' (map (sdscatrepr []) (s # ss))) = splitargs_loop (vec @ [s]) rest"
    unfolding line using nsp by (subst splitargs_loop.simps) (simp add: Let_def)
  have "splitargs_loop (vec @ [s]) rest = splitargs_loop (vec @ [s]) (intercalate '' '' (map (sdscatrepr []) ss))"
  proof (cases "ss = []")
    case False
    have "isspace (CHR '' '')" by (simp add: isspace_def)
    then show ?thesis using False by (simp add: rest_def splitargs_loop.simps [of "vec @ [s]"])
  qed (simp add: rest_def)
  then show ?case using step Cons.IH by simp
qed

lemma sdsjoin_repr: "sdsjoin (map (sdscatrepr []) ss) '' '' = intercalate '' '' (map (sdscatrepr []) ss)"
  by (intro sdsjoin_ok) (auto simp: repr_not_nul)

lemma intercalate_set: "set (intercalate sep ts) \<subseteq> set sep \<union> (\<Union>t \<in> set ts. set t)"
  by (cases ts) (auto simp: intercalate_def)

text \<open>(C23) Quoting is undone by the argument parser: joining the \<open>sdscatrepr\<close> forms of any strings
  (binary ones included) with spaces and splitting the line with \<open>sdssplitargs\<close> gives the strings back.\<close>

theorem sdssplitargs_sdscatrepr:
  "sdssplitargs (sdsjoin (map (sdscatrepr []) ss) '' '') = Some ss"
proof -
  have "NUL \<notin> set (intercalate '' '' (map (sdscatrepr []) ss))"
    using intercalate_set [of "'' ''" "map (sdscatrepr []) ss"] repr_not_nul by auto
  then show ?thesis
    by (simp add: sdssplitargs_def sdsjoin_repr c_string_id splitargs_loop_repr)
qed

section \<open>Splitting is the inverse of joining\<close>

definition occurs_at :: "string \<Rightarrow> string \<Rightarrow> nat \<Rightarrow> bool" where
  "occurs_at sep s i \<longleftrightarrow> i + length sep \<le> length s \<and> take (length sep) (drop i s) = sep"

lemma occurs_at_append: "occurs_at sep s i \<Longrightarrow> i + length sep \<le> length s"
  by (simp add: occurs_at_def)






section \<open>Number formatting\<close>

lemma ll2str_digits_ok:
  assumes "length (dec_nat v) \<le> length ys"
  shows "ll2str_digits (us @ ys) (length us) v =
    Some (us @ rev (dec_nat v) @ drop (length (dec_nat v)) ys, length us + length (dec_nat v))"
  using assms
proof (induction v arbitrary: us ys rule: less_induct)
  case (less v)
  let ?c = "char_of (48 + v mod 10) :: char"
  obtain y zs where ys: "ys = y # zs" using less.prems by (cases ys) simp_all
  have w: "write_bytes (us @ ys) (length us) [?c] = Some ((us @ [?c]) @ zs)"
    by (simp add: ys write_bytes_def)
  show ?case
  proof (cases "v < 10")
    case True
    then have "dec_nat v = [?c]" by (simp add: dec_nat.simps [of v])
    then show ?thesis using True by (subst ll2str_digits.simps) (simp only: w, simp add: ys)
  next
    case False
    then have d: "dec_nat v = dec_nat (v div 10) @ [?c]" by (simp add: dec_nat.simps [of v])
    have "ll2str_digits ((us @ [?c]) @ zs) (length (us @ [?c])) (v div 10) =
        Some ((us @ [?c]) @ rev (dec_nat (v div 10)) @ drop (length (dec_nat (v div 10))) zs,
          length (us @ [?c]) + length (dec_nat (v div 10)))"
      by (rule less.IH) (use False less.prems in \<open>simp_all add: d ys\<close>)
    then show ?thesis using False by (subst ll2str_digits.simps) (simp only: w, simp add: d ys)
  qed
qed

lemma reverse_loop_ok:
  "reverse_loop (us @ ys @ vs) (length us) (length us + length ys - 1) = us @ rev ys @ vs"
proof (induction "length ys" arbitrary: us ys vs rule: less_induct)
  case less
  consider "ys = []" | c where "ys = [c]" | a zs b where "ys = a # zs @ [b]"
    by (metis append_butlast_last_id list.exhaust)
  then show ?case
  proof cases
    case (3 a zs b)
    have "reverse_loop ((us @ [b]) @ zs @ (a # vs)) (length (us @ [b])) (length (us @ [b]) + length zs - 1) =
        (us @ [b]) @ rev zs @ (a # vs)"
      by (rule less) (simp add: 3)
    moreover have "(us @ ys @ vs)[length us := b, length us + length zs + 1 := a] = (us @ [b]) @ zs @ (a # vs)"
      by (simp add: 3 list_update_append)
    moreover have "(us @ ys @ vs) ! (length us + length zs + 1) = b" "(us @ ys @ vs) ! length us = a"
      by (simp_all add: 3 nth_append)
    ultimately show ?thesis by (subst reverse_loop.simps) (simp add: 3)
  qed (auto simp: reverse_loop.simps [of _ "length us"])
qed

lemma ll2str_finish_ok:
  assumes "buf = ds @ y # ys"
  shows "ll2str_finish buf (length ds) = Some (length ds, rev ds @ NUL # ys)"
proof -
  have "write_bytes buf (length ds) [NUL] = Some (ds @ NUL # ys)" by (simp add: assms write_bytes_def)
  moreover have "reverse_loop (ds @ NUL # ys) 0 (length ds - 1) = rev ds @ NUL # ys"
    using reverse_loop_ok [of "[]" ds "NUL # ys"] by simp
  ultimately show ?thesis by (simp add: ll2str_finish_def)
qed

lemma sdsll2str_ok:
  assumes "v \<noteq> LLONG_MIN" "length (dec_int v) < length buf"
  shows "sdsll2str buf v = Some (length (dec_int v), dec_int v @ NUL # drop (length (dec_int v) + 1) buf)"
proof -
  define n where "n = nat (if v < 0 then - v else v)"
  define l where "l = length (dec_nat n)"
  define ds where "ds = rev (dec_nat n) @ (if v < 0 then ''-'' else [])"
  have dec: "dec_int v = rev ds" by (simp add: dec_int_def ds_def n_def)
  have len: "length ds < length buf" using assms(2) dec by simp
  have d: "ll2str_digits buf 0 n = Some (rev (dec_nat n) @ drop l buf, l)"
    using ll2str_digits_ok [of n buf "[]"] len by (auto simp: ds_def l_def)
  have "(if v < 0 then map_option (\<lambda>s. (s, l + 1)) (write_bytes (rev (dec_nat n) @ drop l buf) l ''-'')
      else Some (rev (dec_nat n) @ drop l buf, l)) = Some (ds @ drop (length ds) buf, length ds)"
    using len by (auto simp: ds_def l_def write_bytes_def)
  moreover obtain y where "drop (length ds) buf = y # drop (length ds + 1) buf"
    using len by (metis Cons_nth_drop_Suc Suc_eq_plus1)
  ultimately show ?thesis
    using assms(1) ll2str_finish_ok [of "ds @ drop (length ds) buf" ds]
    unfolding sdsll2str_def n_def [symmetric] dec by (simp add: d)
qed

text \<open>The two integer printers of the program agree: wherever negation is defined, \<open>sdsll2str\<close> in a buffer
  of \<open>SDS_LLSTR_SIZE\<close> bytes leaves the text and the length that \<open>ll2string\<close> of \<open>util.c\<close> produces, and
  stays inside the buffer.\<close>

theorem sdsll2str_ll2string:
  assumes "LLONG_MIN < v" and "v \<le> LLONG_MAX" and "21 \<le> length buf"
  shows "\<exists>n buf1. sdsll2str buf v = Some (n, buf1) \<and> n = fst (ll2string buf v) \<and>
    length buf1 = length buf \<and> take (n + 1) buf1 = take (n + 1) (snd (ll2string buf v))"
proof -
  have "length (dec_int v) < length buf" using dec_int_length [of v] assms by simp
  moreover obtain rest where "ll2string buf v = (length (dec_int v), dec_int v @ NUL # rest)"
    using calculation by (simp add: ll2string_correct)
  ultimately show ?thesis using sdsll2str_ok [of v buf] assms by auto
qed

theorem sdsll2str_ll2string_witness:
  "\<exists>n buf1. sdsll2str (replicate 21 NUL) (- 1024) = Some (n, buf1) \<and> n = fst (ll2string (replicate 21 NUL) (- 1024)) \<and>
    length buf1 = length (replicate 21 NUL) \<and> take (n + 1) buf1 = take (n + 1) (snd (ll2string (replicate 21 NUL) (- 1024)))"
  by (rule sdsll2str_ll2string) simp_all

end
