(* ===== verification/Crc.thy ===== *)
theory Crc
  imports Prelude
begin

text \<open>
  The checksums of \<^verbatim>\<open>src/redis-3.0.3/src/crc16.c\<close> (key slots of the cluster) and \<^verbatim>\<open>crc64.c\<close> (dump files),
  with the tables of the source, and their equivalence with the bit-serial shift registers that the
  tables precompute.
\<close>

section \<open>The programs\<close>

definition crc16tab :: "u16 list" where
  "crc16tab = [
    0x0000, 0x1021, 0x2042, 0x3063, 0x4084, 0x50a5, 0x60c6, 0x70e7,
    0x8108, 0x9129, 0xa14a, 0xb16b, 0xc18c, 0xd1ad, 0xe1ce, 0xf1ef,
    0x1231, 0x0210, 0x3273, 0x2252, 0x52b5, 0x4294, 0x72f7, 0x62d6,
    0x9339, 0x8318, 0xb37b, 0xa35a, 0xd3bd, 0xc39c, 0xf3ff, 0xe3de,
    0x2462, 0x3443, 0x0420, 0x1401, 0x64e6, 0x74c7, 0x44a4, 0x5485,
    0xa56a, 0xb54b, 0x8528, 0x9509, 0xe5ee, 0xf5cf, 0xc5ac, 0xd58d,
    0x3653, 0x2672, 0x1611, 0x0630, 0x76d7, 0x66f6, 0x5695, 0x46b4,
    0xb75b, 0xa77a, 0x9719, 0x8738, 0xf7df, 0xe7fe, 0xd79d, 0xc7bc,
    0x48c4, 0x58e5, 0x6886, 0x78a7, 0x0840, 0x1861, 0x2802, 0x3823,
    0xc9cc, 0xd9ed, 0xe98e, 0xf9af, 0x8948, 0x9969, 0xa90a, 0xb92b,
    0x5af5, 0x4ad4, 0x7ab7, 0x6a96, 0x1a71, 0x0a50, 0x3a33, 0x2a12,
    0xdbfd, 0xcbdc, 0xfbbf, 0xeb9e, 0x9b79, 0x8b58, 0xbb3b, 0xab1a,
    0x6ca6, 0x7c87, 0x4ce4, 0x5cc5, 0x2c22, 0x3c03, 0x0c60, 0x1c41,
    0xedae, 0xfd8f, 0xcdec, 0xddcd, 0xad2a, 0xbd0b, 0x8d68, 0x9d49,
    0x7e97, 0x6eb6, 0x5ed5, 0x4ef4, 0x3e13, 0x2e32, 0x1e51, 0x0e70,
    0xff9f, 0xefbe, 0xdfdd, 0xcffc, 0xbf1b, 0xaf3a, 0x9f59, 0x8f78,
    0x9188, 0x81a9, 0xb1ca, 0xa1eb, 0xd10c, 0xc12d, 0xf14e, 0xe16f,
    0x1080, 0x00a1, 0x30c2, 0x20e3, 0x5004, 0x4025, 0x7046, 0x6067,
    0x83b9, 0x9398, 0xa3fb, 0xb3da, 0xc33d, 0xd31c, 0xe37f, 0xf35e,
    0x02b1, 0x1290, 0x22f3, 0x32d2, 0x4235, 0x5214, 0x6277, 0x7256,
    0xb5ea, 0xa5cb, 0x95a8, 0x8589, 0xf56e, 0xe54f, 0xd52c, 0xc50d,
    0x34e2, 0x24c3, 0x14a0, 0x0481, 0x7466, 0x6447, 0x5424, 0x4405,
    0xa7db, 0xb7fa, 0x8799, 0x97b8, 0xe75f, 0xf77e, 0xc71d, 0xd73c,
    0x26d3, 0x36f2, 0x0691, 0x16b0, 0x6657, 0x7676, 0x4615, 0x5634,
    0xd94c, 0xc96d, 0xf90e, 0xe92f, 0x99c8, 0x89e9, 0xb98a, 0xa9ab,
    0x5844, 0x4865, 0x7806, 0x6827, 0x18c0, 0x08e1, 0x3882, 0x28a3,
    0xcb7d, 0xdb5c, 0xeb3f, 0xfb1e, 0x8bf9, 0x9bd8, 0xabbb, 0xbb9a,
    0x4a75, 0x5a54, 0x6a37, 0x7a16, 0x0af1, 0x1ad0, 0x2ab3, 0x3a92,
    0xfd2e, 0xed0f, 0xdd6c, 0xcd4d, 0xbdaa, 0xad8b, 0x9de8, 0x8dc9,
    0x7c26, 0x6c07, 0x5c64, 0x4c45, 0x3ca2, 0x2c83, 0x1ce0, 0x0cc1,
    0xef1f, 0xff3e, 0xcf5d, 0xdf7c, 0xaf9b, 0xbfba, 0x8fd9, 0x9ff8,
    0x6e17, 0x7e36, 0x4e55, 0x5e74, 0x2e93, 0x3eb2, 0x0ed1, 0x1ef0]"

fun crc16_loop :: "u16 \<Rightarrow> u8 list \<Rightarrow> u16 option" where
  "crc16_loop crc [] = Some crc"
| "crc16_loop crc (b # buf) = do {
     t \<leftarrow> array_get crc16tab (unat ((drop_bit 8 crc XOR ucast b) AND 0xFF));
     crc16_loop (push_bit 8 crc XOR t) buf }"

definition crc16 :: "u8 list \<Rightarrow> u16 option" where
  "crc16 buf = crc16_loop 0 buf"

definition crc64_tab :: "u64 list" where
  "crc64_tab = [
    0x0000000000000000, 0x7ad870c830358979,
    0xf5b0e190606b12f2, 0x8f689158505e9b8b,
    0xc038e5739841b68f, 0xbae095bba8743ff6,
    0x358804e3f82aa47d, 0x4f50742bc81f2d04,
    0xab28ecb46814fe75, 0xd1f09c7c5821770c,
    0x5e980d24087fec87, 0x24407dec384a65fe,
    0x6b1009c7f05548fa, 0x11c8790fc060c183,
    0x9ea0e857903e5a08, 0xe478989fa00bd371,
    0x7d08ff3b88be6f81, 0x07d08ff3b88be6f8,
    0x88b81eabe8d57d73, 0xf2606e63d8e0f40a,
    0xbd301a4810ffd90e, 0xc7e86a8020ca5077,
    0x4880fbd87094cbfc, 0x32588b1040a14285,
    0xd620138fe0aa91f4, 0xacf86347d09f188d,
    0x2390f21f80c18306, 0x594882d7b0f40a7f,
    0x1618f6fc78eb277b, 0x6cc0863448deae02,
    0xe3a8176c18803589, 0x997067a428b5bcf0,
    0xfa11fe77117cdf02, 0x80c98ebf2149567b,
    0x0fa11fe77117cdf0, 0x75796f2f41224489,
    0x3a291b04893d698d, 0x40f16bccb908e0f4,
    0xcf99fa94e9567b7f, 0xb5418a5cd963f206,
    0x513912c379682177, 0x2be1620b495da80e,
    0xa489f35319033385, 0xde51839b2936bafc,
    0x9101f7b0e12997f8, 0xebd98778d11c1e81,
    0x64b116208142850a, 0x1e6966e8b1770c73,
    0x8719014c99c2b083, 0xfdc17184a9f739fa,
    0x72a9e0dcf9a9a271, 0x08719014c99c2b08,
    0x4721e43f0183060c, 0x3df994f731b68f75,
    0xb29105af61e814fe, 0xc849756751dd9d87,
    0x2c31edf8f1d64ef6, 0x56e99d30c1e3c78f,
    0xd9810c6891bd5c04, 0xa3597ca0a188d57d,
    0xec09088b6997f879, 0x96d1784359a27100,
    0x19b9e91b09fcea8b, 0x636199d339c963f2,
    0xdf7adabd7a6e2d6f, 0xa5a2aa754a5ba416,
    0x2aca3b2d1a053f9d, 0x50124be52a30b6e4,
    0x1f423fcee22f9be0, 0x659a4f06d21a1299,
    0xeaf2de5e82448912, 0x902aae96b271006b,
    0x74523609127ad31a, 0x0e8a46c1224f5a63,
    0x81e2d7997211c1e8, 0xfb3aa75142244891,
    0xb46ad37a8a3b6595, 0xceb2a3b2ba0eecec,
    0x41da32eaea507767, 0x3b024222da65fe1e,
    0xa2722586f2d042ee, 0xd8aa554ec2e5cb97,
    0x57c2c41692bb501c, 0x2d1ab4dea28ed965,
    0x624ac0f56a91f461, 0x1892b03d5aa47d18,
    0x97fa21650afae693, 0xed2251ad3acf6fea,
    0x095ac9329ac4bc9b, 0x7382b9faaaf135e2,
    0xfcea28a2faafae69, 0x8632586aca9a2710,
    0xc9622c4102850a14, 0xb3ba5c8932b0836d,
    0x3cd2cdd162ee18e6, 0x460abd1952db919f,
    0x256b24ca6b12f26d, 0x5fb354025b277b14,
    0xd0dbc55a0b79e09f, 0xaa03b5923b4c69e6,
    0xe553c1b9f35344e2, 0x9f8bb171c366cd9b,
    0x10e3202993385610, 0x6a3b50e1a30ddf69,
    0x8e43c87e03060c18, 0xf49bb8b633338561,
    0x7bf329ee636d1eea, 0x012b592653589793,
    0x4e7b2d0d9b47ba97, 0x34a35dc5ab7233ee,
    0xbbcbcc9dfb2ca865, 0xc113bc55cb19211c,
    0x5863dbf1e3ac9dec, 0x22bbab39d3991495,
    0xadd33a6183c78f1e, 0xd70b4aa9b3f20667,
    0x985b3e827bed2b63, 0xe2834e4a4bd8a21a,
    0x6debdf121b863991, 0x1733afda2bb3b0e8,
    0xf34b37458bb86399, 0x8993478dbb8deae0,
    0x06fbd6d5ebd3716b, 0x7c23a61ddbe6f812,
    0x3373d23613f9d516, 0x49aba2fe23cc5c6f,
    0xc6c333a67392c7e4, 0xbc1b436e43a74e9d,
    0x95ac9329ac4bc9b5, 0xef74e3e19c7e40cc,
    0x601c72b9cc20db47, 0x1ac40271fc15523e,
    0x5594765a340a7f3a, 0x2f4c0692043ff643,
    0xa02497ca54616dc8, 0xdafce7026454e4b1,
    0x3e847f9dc45f37c0, 0x445c0f55f46abeb9,
    0xcb349e0da4342532, 0xb1eceec59401ac4b,
    0xfebc9aee5c1e814f, 0x8464ea266c2b0836,
    0x0b0c7b7e3c7593bd, 0x71d40bb60c401ac4,
    0xe8a46c1224f5a634, 0x927c1cda14c02f4d,
    0x1d148d82449eb4c6, 0x67ccfd4a74ab3dbf,
    0x289c8961bcb410bb, 0x5244f9a98c8199c2,
    0xdd2c68f1dcdf0249, 0xa7f41839ecea8b30,
    0x438c80a64ce15841, 0x3954f06e7cd4d138,
    0xb63c61362c8a4ab3, 0xcce411fe1cbfc3ca,
    0x83b465d5d4a0eece, 0xf96c151de49567b7,
    0x76048445b4cbfc3c, 0x0cdcf48d84fe7545,
    0x6fbd6d5ebd3716b7, 0x15651d968d029fce,
    0x9a0d8ccedd5c0445, 0xe0d5fc06ed698d3c,
    0xaf85882d2576a038, 0xd55df8e515432941,
    0x5a3569bd451db2ca, 0x20ed197575283bb3,
    0xc49581ead523e8c2, 0xbe4df122e51661bb,
    0x3125607ab548fa30, 0x4bfd10b2857d7349,
    0x04ad64994d625e4d, 0x7e7514517d57d734,
    0xf11d85092d094cbf, 0x8bc5f5c11d3cc5c6,
    0x12b5926535897936, 0x686de2ad05bcf04f,
    0xe70573f555e26bc4, 0x9ddd033d65d7e2bd,
    0xd28d7716adc8cfb9, 0xa85507de9dfd46c0,
    0x273d9686cda3dd4b, 0x5de5e64efd965432,
    0xb99d7ed15d9d8743, 0xc3450e196da80e3a,
    0x4c2d9f413df695b1, 0x36f5ef890dc31cc8,
    0x79a59ba2c5dc31cc, 0x037deb6af5e9b8b5,
    0x8c157a32a5b7233e, 0xf6cd0afa9582aa47,
    0x4ad64994d625e4da, 0x300e395ce6106da3,
    0xbf66a804b64ef628, 0xc5bed8cc867b7f51,
    0x8aeeace74e645255, 0xf036dc2f7e51db2c,
    0x7f5e4d772e0f40a7, 0x05863dbf1e3ac9de,
    0xe1fea520be311aaf, 0x9b26d5e88e0493d6,
    0x144e44b0de5a085d, 0x6e963478ee6f8124,
    0x21c640532670ac20, 0x5b1e309b16452559,
    0xd476a1c3461bbed2, 0xaeaed10b762e37ab,
    0x37deb6af5e9b8b5b, 0x4d06c6676eae0222,
    0xc26e573f3ef099a9, 0xb8b627f70ec510d0,
    0xf7e653dcc6da3dd4, 0x8d3e2314f6efb4ad,
    0x0256b24ca6b12f26, 0x788ec2849684a65f,
    0x9cf65a1b368f752e, 0xe62e2ad306bafc57,
    0x6946bb8b56e467dc, 0x139ecb4366d1eea5,
    0x5ccebf68aecec3a1, 0x2616cfa09efb4ad8,
    0xa97e5ef8cea5d153, 0xd3a62e30fe90582a,
    0xb0c7b7e3c7593bd8, 0xca1fc72bf76cb2a1,
    0x45775673a732292a, 0x3faf26bb9707a053,
    0x70ff52905f188d57, 0x0a2722586f2d042e,
    0x854fb3003f739fa5, 0xff97c3c80f4616dc,
    0x1bef5b57af4dc5ad, 0x61372b9f9f784cd4,
    0xee5fbac7cf26d75f, 0x9487ca0fff135e26,
    0xdbd7be24370c7322, 0xa10fceec0739fa5b,
    0x2e675fb4576761d0, 0x54bf2f7c6752e8a9,
    0xcdcf48d84fe75459, 0xb71738107fd2dd20,
    0x387fa9482f8c46ab, 0x42a7d9801fb9cfd2,
    0x0df7adabd7a6e2d6, 0x772fdd63e7936baf,
    0xf8474c3bb7cdf024, 0x829f3cf387f8795d,
    0x66e7a46c27f3aa2c, 0x1c3fd4a417c62355,
    0x935745fc4798b8de, 0xe98f353477ad31a7,
    0xa6df411fbfb21ca3, 0xdc0731d78f8795da,
    0x536fa08fdfd90e51, 0x29b7d047efec8728]"

fun crc64 :: "u64 \<Rightarrow> u8 list \<Rightarrow> u64 option" where
  "crc64 crc [] = Some crc"
| "crc64 crc (b # s) = do {
     t \<leftarrow> array_get crc64_tab (unat (ucast crc XOR b));
     crc64 (t XOR drop_bit 8 crc) s }"

section \<open>The shift registers\<close>

text \<open>One bit of a register that shifts towards its most significant bit, and of one that shifts towards
  its least significant bit; \<open>poly\<close> is added when a one falls out.\<close>

definition msb_step :: "'a :: len word \<Rightarrow> 'a word \<Rightarrow> 'a word" where
  "msb_step poly r = (if bit r (LENGTH('a) - 1) then push_bit 1 r XOR poly else push_bit 1 r)"

definition lsb_step :: "'a :: len word \<Rightarrow> 'a word \<Rightarrow> 'a word" where
  "lsb_step poly r = (if bit r 0 then drop_bit 1 r XOR poly else drop_bit 1 r)"

definition crc16_serial :: "u8 list \<Rightarrow> u16" where
  "crc16_serial bs = foldl (\<lambda>r b. (msb_step 0x1021 ^^ 8) (r XOR push_bit 8 (ucast b))) 0 bs"

definition crc64_serial :: "u64 \<Rightarrow> u8 list \<Rightarrow> u64" where
  "crc64_serial init bs = foldl (\<lambda>r b. (lsb_step 0x95AC9329AC4BC9B5 ^^ 8) (r XOR ucast b)) init bs"

lemma msb_step_xor: "msb_step p (x XOR y) = msb_step p x XOR msb_step p y"
  by (simp add: msb_step_def bit_xor_iff push_bit_xor ac_simps)

lemma lsb_step_xor: "lsb_step p (x XOR y) = lsb_step p x XOR lsb_step p y"
  by (simp add: lsb_step_def bit_xor_iff drop_bit_xor ac_simps)

lemma funpow_xor:
  fixes f :: "'a :: len word \<Rightarrow> 'a word"
  assumes "\<And>x y. f (x XOR y) = f x XOR f y"
  shows "(f ^^ n) (x XOR y) = (f ^^ n) x XOR (f ^^ n) (y :: 'a word)"
  by (induction n) (simp_all add: assms)

text \<open>A register whose next \<open>n\<close> outgoing bits are zero is only shifted.\<close>

lemma msb_shift: "(\<forall>i < n. \<not> bit x (LENGTH('a) - 1 - i)) \<Longrightarrow> n \<le> LENGTH('a) \<Longrightarrow>
  (msb_step p ^^ n) (x :: 'a :: len word) = push_bit n x"
proof (induction n)
  case (Suc n)
  have "\<not> bit (push_bit n x) (LENGTH('a) - 1)"
    using Suc.prems by (auto simp: bit_push_bit_iff dest: spec [of _ n])
  then show ?case using Suc by (simp add: msb_step_def)
qed simp

lemma lsb_shift: "(\<forall>i < n. \<not> bit x i) \<Longrightarrow> (lsb_step p ^^ n) (x :: 'a :: len word) = drop_bit n x"
proof (induction n)
  case (Suc n)
  have "\<not> bit (drop_bit n x) 0" using Suc.prems by (simp add: bit_drop_bit_eq)
  then show ?case using Suc by (simp add: lsb_step_def)
qed simp

text \<open>The table of a linear function, doubled bit by bit.\<close>

lemma of_nat_split: "n < 2 ^ k \<Longrightarrow> of_nat (n + 2 ^ k) = (of_nat (2 ^ k) :: 'a :: len word) XOR of_nat n"
proof -
  assume "n < 2 ^ k"
  then have "n = take_bit k n" by (simp add: take_bit_nat_eq_self)
  then have "\<not> bit n k" by (metis bit_take_bit_iff less_irrefl)
  then have "2 ^ k AND n = (0 :: nat)" by (intro bit_eqI) (auto simp: bit_and_iff bit_exp_iff)
  then have "n + 2 ^ k = 2 ^ k XOR n" using disjunctive_add_eq_xor [of "2 ^ k" n] by (simp add: add.commute)
  then show ?thesis by (simp only: of_nat_xor_eq)
qed

definition doubled :: "'a :: len word list \<Rightarrow> 'a word list" where
  "doubled vs = foldl (\<lambda>t v. t @ map (\<lambda>y. v XOR y) t) [0] vs"

lemma linear_table:
  assumes "\<And>x y :: 'a :: len word. f (x XOR y) = f x XOR f y"
  shows "map (\<lambda>i. f (of_nat i)) [0..<2 ^ k] = doubled (map (\<lambda>i. f (2 ^ i)) [0..<k])"
proof (induction k)
  case 0
  have "f (0 XOR 0) = f 0 XOR f 0" by (rule assms)
  then show ?case by (simp add: doubled_def)
next
  case (Suc k)
  have "[0..<2 ^ Suc k] = [0..<2 ^ k] @ map (\<lambda>i. i + 2 ^ k) [0..<2 ^ k]"
    using upt_add_eq_append [of 0 "2 ^ k" "2 ^ k"] by (simp add: map_add_upt mult_2)
  moreover have "map (\<lambda>i. f (of_nat (i + 2 ^ k))) [0..<2 ^ k] =
      map (\<lambda>y. f (2 ^ k) XOR y) (map (\<lambda>i. f (of_nat i)) [0..<2 ^ k])"
    by (simp add: of_nat_split assms del: of_nat_add)
  ultimately show ?case using Suc.IH by (simp add: comp_def doubled_def)
qed

lemma funpow_8: "(f ^^ 8) x = f (f (f (f (f (f (f (f x)))))))"
  by (simp add: numeral_eq_Suc)

lemma upt_8: "[0..<8] = [0, 1, 2, 3, 4, 5, 6, 7]"
  by (simp add: upt_rec)

lemma crc16tab_serial:
  "crc16tab = map (\<lambda>i. (msb_step 0x1021 ^^ 8) (push_bit 8 (of_nat i))) [0..<256]"
proof -
  let ?f = "\<lambda>x :: u16. (msb_step 0x1021 ^^ 8) (push_bit 8 x)"
  have "map (\<lambda>i. ?f (2 ^ i)) [0..<8] = [0x1021, 0x2042, 0x4084, 0x8108, 0x1231, 0x2462, 0x48C4, 0x9188]"
    by (simp add: upt_8 funpow_8 msb_step_def)
  then have "map (\<lambda>i. ?f (of_nat i)) [0..<2 ^ 8] = 
      doubled [0x1021, 0x2042, 0x4084, 0x8108, 0x1231, 0x2462, 0x48C4, 0x9188]"
    by (subst linear_table) (simp_all add: push_bit_xor funpow_xor msb_step_xor)
  also have "\<dots> = crc16tab" unfolding crc16tab_def doubled_def by simp
  finally show ?thesis by simp
qed

lemma crc64_tab_serial:
  "crc64_tab = map (\<lambda>i. (lsb_step 0x95AC9329AC4BC9B5 ^^ 8) (of_nat i)) [0..<256]"
proof -
  let ?f = "\<lambda>x :: u64. (lsb_step 0x95AC9329AC4BC9B5 ^^ 8) x"
  have "map (\<lambda>i. ?f (2 ^ i)) [0..<8] =
      [0x7AD870C830358979, 0xF5B0E190606B12F2, 0xC038E5739841B68F, 0xAB28ECB46814FE75, 0x7D08FF3B88BE6F81, 0xFA11FE77117CDF02, 0xDF7ADABD7A6E2D6F, 0x95AC9329AC4BC9B5]"
    by (simp add: upt_8 funpow_8 lsb_step_def bit_0 odd_numeral)
  then have "map (\<lambda>i. ?f (of_nat i)) [0..<2 ^ 8] = doubled
      [0x7AD870C830358979, 0xF5B0E190606B12F2, 0xC038E5739841B68F, 0xAB28ECB46814FE75, 0x7D08FF3B88BE6F81, 0xFA11FE77117CDF02, 0xDF7ADABD7A6E2D6F, 0x95AC9329AC4BC9B5]"
    by (subst linear_table) (simp_all add: funpow_xor lsb_step_xor)
  also have "\<dots> = crc64_tab" unfolding crc64_tab_def doubled_def by simp
  finally show ?thesis by simp
qed

section \<open>Equivalence\<close>

lemma tab_lookup:
  fixes b :: u8
  assumes "tab = map (\<lambda>i. f (of_nat i)) [0..<256]"
  shows "array_get tab (unat b) = Some (f (ucast b))"
proof -
  have "unat b < 256" using unsigned_less [of b, where ?'a = nat] by simp
  then show ?thesis by (simp add: assms)
qed

lemma crc16_step:
  "array_get crc16tab (unat ((drop_bit 8 r XOR ucast (b :: u8)) AND 0xFF)) =
     Some ((msb_step 0x1021 ^^ 8) (push_bit 8 (drop_bit 8 r) XOR push_bit 8 (ucast b)))"
proof -
  define i where "i = (ucast (drop_bit 8 r XOR ucast b :: u16) :: u8)"
  have m: "(0xFF :: u16) = mask 8" by (simp add: mask_eq_exp_minus_1)
  have "(drop_bit 8 r XOR ucast b) AND 0xFF = (ucast i :: u16)"
    unfolding m i_def by (rule bit_eqI) (auto simp: bit_simps)
  moreover have "push_bit 8 (ucast i :: u16) = push_bit 8 (drop_bit 8 r) XOR push_bit 8 (ucast b)"
    unfolding i_def by (rule bit_eqI) (auto simp: bit_simps)
  moreover have "unat (ucast i :: u16) = unat i"
    using unsigned_less [of i, where ?'a = nat] by (simp add: unsigned_ucast_eq take_bit_nat_eq_self)
  ultimately show ?thesis
    using tab_lookup [OF crc16tab_serial, of i] by (simp only:)
qed

lemma crc16_loop_serial:
  "crc16_loop r bs = Some (foldl (\<lambda>r b. (msb_step 0x1021 ^^ 8) (r XOR push_bit 8 (ucast b))) r bs)"
proof (induction bs arbitrary: r)
  case (Cons b bs)
  let ?lo = "take_bit 8 r"
  have r: "r = push_bit 8 (drop_bit 8 r) XOR ?lo"
    by (rule bit_eqI) (auto simp: bit_simps)
  have "(msb_step 0x1021 ^^ 8) ?lo = push_bit 8 ?lo" by (rule msb_shift) (auto simp: bit_simps)
  moreover have "push_bit 8 ?lo = push_bit 8 r" by (rule bit_eqI) (auto simp: bit_simps)
  ultimately have "push_bit 8 r XOR (msb_step 0x1021 ^^ 8) (push_bit 8 (drop_bit 8 r) XOR push_bit 8 (ucast b)) =
      (msb_step 0x1021 ^^ 8) (?lo XOR (push_bit 8 (drop_bit 8 r) XOR push_bit 8 (ucast b)))"
    by (subst (2) funpow_xor) (simp_all only: msb_step_xor)
  also have "?lo XOR (push_bit 8 (drop_bit 8 r) XOR push_bit 8 (ucast b)) = r XOR push_bit 8 (ucast b)"
    by (subst (3) r) (simp only: ac_simps)
  finally show ?case using Cons.IH by (simp add: crc16_step)
qed simp

lemma crc64_serial_eq: "crc64 r bs = Some (crc64_serial r bs)"
proof (induction bs arbitrary: r)
  case (Cons b bs)
  let ?i = "ucast r XOR b" and ?hi = "push_bit 8 (drop_bit 8 r)"
  have "array_get crc64_tab (unat ?i) = Some ((lsb_step 0x95AC9329AC4BC9B5 ^^ 8) (ucast ?i))"
    by (rule tab_lookup [OF crc64_tab_serial])
  moreover have "(lsb_step 0x95AC9329AC4BC9B5 ^^ 8) ?hi = drop_bit 8 ?hi"
    by (rule lsb_shift) (auto simp: bit_simps)
  moreover have "drop_bit 8 ?hi = drop_bit 8 r"
    by (rule bit_eqI) (auto simp: bit_simps dest: bit_imp_le_length)
  moreover have "ucast ?i XOR ?hi = r XOR ucast b" by (rule bit_eqI) (auto simp: bit_simps)
  ultimately show ?case
    using Cons.IH funpow_xor [of "lsb_step 0x95AC9329AC4BC9B5" 8 "ucast ?i" ?hi, OF lsb_step_xor]
    by (simp add: crc64_serial_def)
qed (simp add: crc64_serial_def)

text \<open>(C25) The table-driven checksums compute what the bit-serial shift registers compute: CRC-16/XMODEM
  (polynomial 1021, most significant bit first, initial value 0) for the key slots, and CRC-64 with the
  reflected Jones polynomial for dump files, from any starting value; no table access is out of bounds.\<close>

theorem crc_tables_serial:
  "crc16 bs = Some (crc16_serial bs) \<and> crc64 init bs = Some (crc64_serial init bs)"
  by (simp add: crc16_def crc16_serial_def crc16_loop_serial crc64_serial_eq)

text \<open>The check value of the header comment, for the bytes of \<open>123456789\<close>.\<close>

definition check_bytes :: "u8 list" where
  "check_bytes = [49, 50, 51, 52, 53, 54, 55, 56, 57]"

text \<open>The comment of \<^verbatim>\<open>crc64.c\<close> gives the check value \<open>e9c6d914c4b8d9ca\<close> and an initial exclusive or with all
  ones (\<open>Xor_In\<close>).  The check value is obtained from the initial value 0, as \<^verbatim>\<open>rdb.c\<close> and the test program
  start it, and not from all ones.\<close>

theorem crc64_check_value:
  "crc64 0 check_bytes = Some 0xE9C6D914C4B8D9CA \<and>
   crc64 0xFFFFFFFFFFFFFFFF check_bytes \<noteq> Some 0xE9C6D914C4B8D9CA"
  by (simp add: check_bytes_def array_get_def crc64_tab_def)

end
