(* ===== verification/Cluster.thy ===== *)
theory Cluster
  imports Crc Sds
begin

text \<open>
  The cluster state of \<^verbatim>\<open>src/redis-3.0.3/src/cluster.h\<close> and the lower half of \<^verbatim>\<open>cluster.c\<close>: nodes, the node
  table, slot bitmaps and slot ownership, failure reports, slave lists and configuration epochs.

  Nodes live in a store that maps addresses to node records, so that the pointers of the source
  (\<open>slots[j]\<close>, \<open>slaveof\<close>, \<open>slaves[j]\<close>, \<open>fr->node\<close>) are addresses and aliasing is explicit; \<open>None\<close> is a null
  pointer.  The table \<open>nodes\<close> is the list of its name-address entries in iteration order.  Flags and
  epochs keep their width.  What a function does outside the state (messages, saving the
  configuration, replication, key deletion) is appended to \<open>cs_effects\<close>.  Times are integers; the
  clock is read once per handler.
\<close>

section \<open>Data\<close>

abbreviation CLUSTER_SLOTS :: nat where "CLUSTER_SLOTS \<equiv> 16384"

definition NODE_MASTER :: u32 where "NODE_MASTER = 1"
definition NODE_SLAVE :: u32 where "NODE_SLAVE = 2"
definition NODE_PFAIL :: u32 where "NODE_PFAIL = 4"
definition NODE_FAIL :: u32 where "NODE_FAIL = 8"
definition NODE_MYSELF :: u32 where "NODE_MYSELF = 16"
definition NODE_HANDSHAKE :: u32 where "NODE_HANDSHAKE = 32"

record clusterNode =
  cn_ctime :: int
  cn_name :: string
  cn_flags :: u32
  cn_configEpoch :: u64
  cn_slots :: "u8 list"
  cn_numslots :: int
  cn_slaves :: "nat list"
  cn_slaveof :: "nat option"
  cn_ping_sent :: int
  cn_pong_received :: int
  cn_fail_time :: int
  cn_voted_time :: int
  cn_repl_offset_time :: int
  cn_repl_offset :: int
  cn_ip :: string
  cn_port :: int
  cn_link :: bool
  cn_fail_reports :: "(nat \<times> int) list"

definition has_flag :: "u32 \<Rightarrow> clusterNode \<Rightarrow> bool" where
  "has_flag f n \<longleftrightarrow> cn_flags n AND f \<noteq> 0"

definition nodeIsMaster :: "clusterNode \<Rightarrow> bool" where "nodeIsMaster n = has_flag NODE_MASTER n"
definition nodeIsSlave :: "clusterNode \<Rightarrow> bool" where "nodeIsSlave n = has_flag NODE_SLAVE n"
definition nodeTimedOut :: "clusterNode \<Rightarrow> bool" where "nodeTimedOut n = has_flag NODE_PFAIL n"
definition nodeFailed :: "clusterNode \<Rightarrow> bool" where "nodeFailed n = has_flag NODE_FAIL n"
definition nodeInHandshake :: "clusterNode \<Rightarrow> bool" where "nodeInHandshake n = has_flag NODE_HANDSHAKE n"

definition set_flag :: "u32 \<Rightarrow> clusterNode \<Rightarrow> clusterNode" where
  "set_flag f n = n\<lparr>cn_flags := cn_flags n OR f\<rparr>"

definition clear_flag :: "u32 \<Rightarrow> clusterNode \<Rightarrow> clusterNode" where
  "clear_flag f n = n\<lparr>cn_flags := cn_flags n AND NOT f\<rparr>"

text \<open>The part of a bus message header the handlers read.\<close>

record clusterMsg =
  m_currentEpoch :: u64
  m_configEpoch :: u64
  m_myslots :: "u8 list"
  m_forceack :: bool
  m_paused :: bool
  m_offset :: int

datatype pong_target = AllNodes | LocalSlaves

datatype effect =
    SendFail string
  | RequestAuth clusterMsg
  | SendAuthAck nat clusterMsg
  | BroadcastPong pong_target
  | SaveConfig
  | SetMaster string int
  | UnsetMaster
  | EmptyDb
  | DelKeysInSlot nat
  | UnpauseClients

datatype cluster_status = CLUSTER_OK | CLUSTER_FAIL

definition TODO_HANDLE_FAILOVER :: u32 where "TODO_HANDLE_FAILOVER = 1"
definition TODO_UPDATE_STATE :: u32 where "TODO_UPDATE_STATE = 2"
definition TODO_SAVE_CONFIG :: u32 where "TODO_SAVE_CONFIG = 4"
definition TODO_FSYNC_CONFIG :: u32 where "TODO_FSYNC_CONFIG = 8"

datatype failover_reason = NoReason | DataAge | WaitingDelay | Expired | WaitingVotes

record clusterState =
  cs_heap :: "nat \<Rightarrow> clusterNode"
  cs_myself :: nat
  cs_currentEpoch :: u64
  cs_state :: cluster_status
  cs_size :: int
  cs_nodes :: "(string \<times> nat) list"
  cs_black_list :: "(string \<times> int) list"
  cs_migrating_slots_to :: "nat option list"
  cs_importing_slots_from :: "nat option list"
  cs_slots :: "nat option list"
  cs_failover_auth_time :: int
  cs_failover_auth_count :: int
  cs_failover_auth_sent :: bool
  cs_failover_auth_rank :: int
  cs_failover_auth_epoch :: u64
  cs_cant_failover_reason :: failover_reason
  cs_mf_end :: int
  cs_mf_slave :: "nat option"
  cs_mf_master_offset :: int
  cs_mf_can_start :: bool
  cs_lastVoteEpoch :: u64
  cs_todo :: u32
  cs_among_minority_time :: int
  cs_first_call_time :: int
  cs_effects :: "effect list"

text \<open>\<open>cs_among_minority_time\<close> and \<open>cs_first_call_time\<close> are the static variables of \<open>clusterUpdateState\<close>.  What
  the handlers read of the rest of the server.\<close>

record env =
  ev_now :: int
  ev_unixtime :: int
  ev_node_timeout :: int
  ev_slave_validity_factor :: int
  ev_repl_ping_slave_period :: int
  ev_repl_connected :: bool
  ev_lastinteraction :: int
  ev_repl_down_since :: int
  ev_slave_offset :: int
  ev_master_offset :: int
  ev_random :: int
  ev_full_coverage :: bool
  ev_paused :: bool
  ev_keys_in_slot :: "nat \<Rightarrow> nat"
  ev_other_dbs :: "nat list"

definition node :: "clusterState \<Rightarrow> nat \<Rightarrow> clusterNode" where "node cs a = cs_heap cs a"

definition myself :: "clusterState \<Rightarrow> clusterNode" where "myself cs = node cs (cs_myself cs)"

definition upd_node :: "nat \<Rightarrow> (clusterNode \<Rightarrow> clusterNode) \<Rightarrow> clusterState \<Rightarrow> clusterState" where
  "upd_node a f cs = cs\<lparr>cs_heap := (cs_heap cs)(a := f (cs_heap cs a))\<rparr>"

definition emit :: "effect \<Rightarrow> clusterState \<Rightarrow> clusterState" where
  "emit e cs = cs\<lparr>cs_effects := cs_effects cs @ [e]\<rparr>"

definition clusterDoBeforeSleep :: "u32 \<Rightarrow> clusterState \<Rightarrow> clusterState" where
  "clusterDoBeforeSleep flags cs = cs\<lparr>cs_todo := cs_todo cs OR flags\<rparr>"

section \<open>Slot bitmaps\<close>

definition bitmapTestBit :: "u8 list \<Rightarrow> nat \<Rightarrow> bool" where
  "bitmapTestBit bitmap pos = (bitmap ! (pos div 8) AND push_bit (pos AND 7) 1 \<noteq> 0)"

definition bitmapSetBit :: "u8 list \<Rightarrow> nat \<Rightarrow> u8 list" where
  "bitmapSetBit bitmap pos = bitmap[pos div 8 := bitmap ! (pos div 8) OR push_bit (pos AND 7) 1]"

definition bitmapClearBit :: "u8 list \<Rightarrow> nat \<Rightarrow> u8 list" where
  "bitmapClearBit bitmap pos = bitmap[pos div 8 := bitmap ! (pos div 8) AND NOT (push_bit (pos AND 7) 1)]"

definition clusterNodeSetSlotBit :: "nat \<Rightarrow> nat \<Rightarrow> clusterState \<Rightarrow> bool \<times> clusterState" where
  "clusterNodeSetSlotBit n slot cs =
    (let old = bitmapTestBit (cn_slots (node cs n)) slot;
         cs = upd_node n (\<lambda>m. m\<lparr>cn_slots := bitmapSetBit (cn_slots m) slot\<rparr>) cs;
         cs = (if old then cs else upd_node n (\<lambda>m. m\<lparr>cn_numslots := cn_numslots m + 1\<rparr>) cs)
     in (old, cs))"

definition clusterNodeClearSlotBit :: "nat \<Rightarrow> nat \<Rightarrow> clusterState \<Rightarrow> bool \<times> clusterState" where
  "clusterNodeClearSlotBit n slot cs =
    (let old = bitmapTestBit (cn_slots (node cs n)) slot;
         cs = upd_node n (\<lambda>m. m\<lparr>cn_slots := bitmapClearBit (cn_slots m) slot\<rparr>) cs;
         cs = (if old then upd_node n (\<lambda>m. m\<lparr>cn_numslots := cn_numslots m - 1\<rparr>) cs else cs)
     in (old, cs))"

definition clusterNodeGetSlotBit :: "nat \<Rightarrow> nat \<Rightarrow> clusterState \<Rightarrow> bool" where
  "clusterNodeGetSlotBit n slot cs = bitmapTestBit (cn_slots (node cs n)) slot"

text \<open>\<open>True\<close> is \<open>REDIS_OK\<close>.\<close>

definition clusterAddSlot :: "nat \<Rightarrow> nat \<Rightarrow> clusterState \<Rightarrow> bool \<times> clusterState" where
  "clusterAddSlot n slot cs =
    (if cs_slots cs ! slot \<noteq> None then (False, cs)
     else let (_, cs) = clusterNodeSetSlotBit n slot cs
          in (True, cs\<lparr>cs_slots := (cs_slots cs)[slot := Some n]\<rparr>))"

text \<open>The assertion that the owner's bit was set is a fault when it fails.\<close>

definition clusterDelSlot :: "nat \<Rightarrow> clusterState \<Rightarrow> (bool \<times> clusterState) option" where
  "clusterDelSlot slot cs =
    (case cs_slots cs ! slot of
       None \<Rightarrow> Some (False, cs)
     | Some n \<Rightarrow>
         (let (old, cs) = clusterNodeClearSlotBit n slot cs in
          if old then Some (True, cs\<lparr>cs_slots := (cs_slots cs)[slot := None]\<rparr>) else None))"

definition del_slot :: "nat \<Rightarrow> clusterState \<Rightarrow> clusterState option" where
  "del_slot slot cs = map_option snd (clusterDelSlot slot cs)"

definition del_own_slot :: "nat \<Rightarrow> nat \<Rightarrow> int \<times> clusterState \<Rightarrow> (int \<times> clusterState) option" where
  "del_own_slot n j = (\<lambda>(deleted, cs). do {
     cs \<leftarrow> (if clusterNodeGetSlotBit n j cs then del_slot j cs else Some cs);
     Some (deleted + 1, cs) })"

definition clusterDelNodeSlots :: "nat \<Rightarrow> clusterState \<Rightarrow> (int \<times> clusterState) option" where
  "clusterDelNodeSlots n cs = foldM (del_own_slot n) [0..<CLUSTER_SLOTS] (0, cs)"

definition clusterCloseAllSlots :: "clusterState \<Rightarrow> clusterState" where
  "clusterCloseAllSlots cs =
    cs\<lparr>cs_migrating_slots_to := replicate CLUSTER_SLOTS None,
       cs_importing_slots_from := replicate CLUSTER_SLOTS None\<rparr>"

section \<open>Nodes\<close>

definition createClusterNode :: "env \<Rightarrow> string \<Rightarrow> u32 \<Rightarrow> clusterNode" where
  "createClusterNode ev nodename flags =
    \<lparr>cn_ctime = ev_now ev, cn_name = nodename, cn_flags = flags, cn_configEpoch = 0,
     cn_slots = replicate (CLUSTER_SLOTS div 8) 0, cn_numslots = 0, cn_slaves = [], cn_slaveof = None,
     cn_ping_sent = 0, cn_pong_received = 0, cn_fail_time = 0, cn_voted_time = 0,
     cn_repl_offset_time = 0, cn_repl_offset = 0, cn_ip = [], cn_port = 0, cn_link = False,
     cn_fail_reports = []\<rparr>"

definition clusterAddNode :: "nat \<Rightarrow> clusterState \<Rightarrow> bool \<times> clusterState" where
  "clusterAddNode n cs =
    (if cn_name (node cs n) \<in> fst ` set (cs_nodes cs) then (False, cs)
     else (True, cs\<lparr>cs_nodes := cs_nodes cs @ [(cn_name (node cs n), n)]\<rparr>))"

definition clusterLookupNode :: "string \<Rightarrow> clusterState \<Rightarrow> nat option" where
  "clusterLookupNode name cs = map_of (cs_nodes cs) name"

definition table_delete :: "string \<Rightarrow> clusterState \<Rightarrow> clusterState option" where
  "table_delete name cs =
    (if name \<in> fst ` set (cs_nodes cs)
     then Some (cs\<lparr>cs_nodes := filter (\<lambda>(k, _). k \<noteq> name) (cs_nodes cs)\<rparr>) else None)"

definition clusterRenameNode :: "nat \<Rightarrow> string \<Rightarrow> clusterState \<Rightarrow> clusterState option" where
  "clusterRenameNode n newname cs = do {
     cs \<leftarrow> table_delete (cn_name (node cs n)) cs;
     let cs = upd_node n (\<lambda>m. m\<lparr>cn_name := newname\<rparr>) cs;
     Some (snd (clusterAddNode n cs)) }"

text \<open>\<open>numslaves\<close> is the length of the list \<open>slaves\<close>.\<close>

definition clusterNodeRemoveSlave :: "nat \<Rightarrow> nat \<Rightarrow> clusterState \<Rightarrow> bool \<times> clusterState" where
  "clusterNodeRemoveSlave master slave cs =
    (if slave \<in> set (cn_slaves (node cs master))
     then (True, upd_node master (\<lambda>m. m\<lparr>cn_slaves := remove1 slave (cn_slaves m)\<rparr>) cs)
     else (False, cs))"

definition clusterNodeAddSlave :: "nat \<Rightarrow> nat \<Rightarrow> clusterState \<Rightarrow> bool \<times> clusterState" where
  "clusterNodeAddSlave master slave cs =
    (if slave \<in> set (cn_slaves (node cs master)) then (False, cs)
     else (True, upd_node master (\<lambda>m. m\<lparr>cn_slaves := cn_slaves m @ [slave]\<rparr>) cs))"

definition clusterNodeResetSlaves :: "nat \<Rightarrow> clusterState \<Rightarrow> clusterState" where
  "clusterNodeResetSlaves n cs = upd_node n (\<lambda>m. m\<lparr>cn_slaves := []\<rparr>) cs"

definition clusterCountNonFailingSlaves :: "nat \<Rightarrow> clusterState \<Rightarrow> nat" where
  "clusterCountNonFailingSlaves n cs =
    length (filter (\<lambda>s. \<not> nodeFailed (node cs s)) (cn_slaves (node cs n)))"

section \<open>Failure reports\<close>

fun report_update :: "nat \<Rightarrow> int \<Rightarrow> (nat \<times> int) list \<Rightarrow> (nat \<times> int) list option" where
  "report_update sender now [] = None"
| "report_update sender now ((n, t) # l) =
    (if n = sender then Some ((n, now) # l) else map_option (Cons (n, t)) (report_update sender now l))"

definition clusterNodeAddFailureReport :: "env \<Rightarrow> nat \<Rightarrow> nat \<Rightarrow> clusterState \<Rightarrow> bool \<times> clusterState" where
  "clusterNodeAddFailureReport ev failing sender cs =
    (case report_update sender (ev_now ev) (cn_fail_reports (node cs failing)) of
       Some l \<Rightarrow> (False, upd_node failing (\<lambda>m. m\<lparr>cn_fail_reports := l\<rparr>) cs)
     | None \<Rightarrow> (True, upd_node failing
         (\<lambda>m. m\<lparr>cn_fail_reports := cn_fail_reports m @ [(sender, ev_now ev)]\<rparr>) cs))"

definition clusterNodeCleanupFailureReports :: "env \<Rightarrow> nat \<Rightarrow> clusterState \<Rightarrow> clusterState" where
  "clusterNodeCleanupFailureReports ev n cs =
    (let maxtime = ev_node_timeout ev * 2 in
     upd_node n (\<lambda>m. m\<lparr>cn_fail_reports :=
       filter (\<lambda>(_, t). \<not> ev_now ev - t > maxtime) (cn_fail_reports m)\<rparr>) cs)"

fun report_remove :: "nat \<Rightarrow> (nat \<times> int) list \<Rightarrow> (nat \<times> int) list option" where
  "report_remove sender [] = None"
| "report_remove sender ((n, t) # l) =
    (if n = sender then Some l else map_option (Cons (n, t)) (report_remove sender l))"

definition clusterNodeDelFailureReport :: "env \<Rightarrow> nat \<Rightarrow> nat \<Rightarrow> clusterState \<Rightarrow> bool \<times> clusterState" where
  "clusterNodeDelFailureReport ev n sender cs =
    (case report_remove sender (cn_fail_reports (node cs n)) of
       None \<Rightarrow> (False, cs)
     | Some l \<Rightarrow> (True, clusterNodeCleanupFailureReports ev n
         (upd_node n (\<lambda>m. m\<lparr>cn_fail_reports := l\<rparr>) cs)))"

definition clusterNodeFailureReportsCount :: "env \<Rightarrow> nat \<Rightarrow> clusterState \<Rightarrow> int \<times> clusterState" where
  "clusterNodeFailureReportsCount ev n cs =
    (let cs = clusterNodeCleanupFailureReports ev n cs in (int (length (cn_fail_reports (node cs n))), cs))"

section \<open>Start without a configuration file\<close>

text \<open>\<open>sent\<close> stands for the indeterminate initial value of \<open>failover_auth_sent\<close>, which \<open>clusterInit\<close> does not
  set; \<open>name\<close> is the random node name, \<open>a\<close> the address of the new node.\<close>

definition clusterInit :: "env \<Rightarrow> string \<Rightarrow> nat \<Rightarrow> (nat \<Rightarrow> clusterNode) \<Rightarrow> bool \<Rightarrow> clusterState" where
  "clusterInit ev name a heap sent =
    \<lparr>cs_heap = heap(a := createClusterNode ev name (NODE_MYSELF OR NODE_MASTER)), cs_myself = a, cs_currentEpoch = 0,
     cs_state = CLUSTER_FAIL, cs_size = 1, cs_nodes = [(name, a)], cs_black_list = [],
     cs_migrating_slots_to = replicate CLUSTER_SLOTS None, cs_importing_slots_from = replicate CLUSTER_SLOTS None,
     cs_slots = replicate CLUSTER_SLOTS None, cs_failover_auth_time = 0, cs_failover_auth_count = 0,
     cs_failover_auth_sent = sent, cs_failover_auth_rank = 0, cs_failover_auth_epoch = 0,
     cs_cant_failover_reason = NoReason, cs_mf_end = 0, cs_mf_slave = None, cs_mf_master_offset = 0,
     cs_mf_can_start = False, cs_lastVoteEpoch = 0, cs_todo = 0, cs_among_minority_time = 0,
     cs_first_call_time = 0, cs_effects = [SaveConfig]\<rparr>"

end
