(* ===== verification/Cluster_Slots.thy ===== *)
theory Cluster_Slots
  imports Cluster
begin

text \<open>
  Slot ownership: the table \<open>slots\<close>, the bitmaps of the nodes and their counters describe the same
  assignment, and every operation of theory \<open>Cluster\<close> on slots preserves that.
\<close>

section \<open>Bits\<close>

lemma flag_bit [simp]:
  "has_flag NODE_MASTER n \<longleftrightarrow> bit (cn_flags n) 0" "has_flag NODE_SLAVE n \<longleftrightarrow> bit (cn_flags n) 1"
  "has_flag NODE_PFAIL n \<longleftrightarrow> bit (cn_flags n) 2" "has_flag NODE_FAIL n \<longleftrightarrow> bit (cn_flags n) 3"
  "has_flag NODE_MYSELF n \<longleftrightarrow> bit (cn_flags n) 4" "has_flag NODE_HANDSHAKE n \<longleftrightarrow> bit (cn_flags n) 5"
  using and_exp_eq_0_iff_not_bit [of "cn_flags n" 0] and_exp_eq_0_iff_not_bit [of "cn_flags n" 1]
    and_exp_eq_0_iff_not_bit [of "cn_flags n" 2] and_exp_eq_0_iff_not_bit [of "cn_flags n" 3]
    and_exp_eq_0_iff_not_bit [of "cn_flags n" 4] and_exp_eq_0_iff_not_bit [of "cn_flags n" 5]
  by (simp_all add: has_flag_def NODE_MASTER_def NODE_SLAVE_def NODE_PFAIL_def NODE_FAIL_def
      NODE_MYSELF_def NODE_HANDSHAKE_def)

lemma exp_bit: "k < 32 \<Longrightarrow> bit (2 ^ k :: u32) i \<longleftrightarrow> i = k"
  by (auto simp: bit_exp_iff)

lemma flag_const_bit [simp]:
  "bit NODE_MASTER i \<longleftrightarrow> i = 0" "bit NODE_SLAVE i \<longleftrightarrow> i = 1" "bit NODE_PFAIL i \<longleftrightarrow> i = 2"
  "bit NODE_FAIL i \<longleftrightarrow> i = 3" "bit NODE_MYSELF i \<longleftrightarrow> i = 4" "bit NODE_HANDSHAKE i \<longleftrightarrow> i = 5"
proof -
  show "bit NODE_MASTER i \<longleftrightarrow> i = 0" using exp_bit [of 0 i] by (simp add: NODE_MASTER_def)
  show "bit NODE_SLAVE i \<longleftrightarrow> i = 1" using exp_bit [of 1 i] by (simp add: NODE_SLAVE_def)
  show "bit NODE_PFAIL i \<longleftrightarrow> i = 2" using exp_bit [of 2 i] by (simp add: NODE_PFAIL_def)
  show "bit NODE_FAIL i \<longleftrightarrow> i = 3" using exp_bit [of 3 i] by (simp add: NODE_FAIL_def)
  show "bit NODE_MYSELF i \<longleftrightarrow> i = 4" using exp_bit [of 4 i] by (simp add: NODE_MYSELF_def)
  show "bit NODE_HANDSHAKE i \<longleftrightarrow> i = 5" using exp_bit [of 5 i] by (simp add: NODE_HANDSHAKE_def)
qed

lemma bit_clear_flag [simp]: "bit (cn_flags (clear_flag f n)) i \<longleftrightarrow> bit (cn_flags n) i \<and> \<not> bit f i"
  by (auto simp: clear_flag_def bit_simps dest: bit_imp_le_length)

lemma bit_set_flag [simp]: "bit (cn_flags (set_flag f n)) i \<longleftrightarrow> bit (cn_flags n) i \<or> bit f i"
  by (auto simp: set_flag_def bit_simps)

lemma and_7: "pos AND 7 = (pos mod 8 :: nat)"
  using take_bit_eq_mask [of 3 pos] take_bit_eq_mod [of 3 pos] by (simp add: mask_eq_exp_minus_1)

lemma bitmapTestBit_bit: "bitmapTestBit bm pos \<longleftrightarrow> bit (bm ! (pos div 8)) (pos mod 8)"
  using and_exp_eq_0_iff_not_bit [of "bm ! (pos div 8)" "pos mod 8"]
  by (simp add: bitmapTestBit_def and_7 push_bit_of_1)

lemma slot_index_eq: "(pos div 8 = j div 8 \<and> pos mod 8 = j mod 8) \<longleftrightarrow> pos = (j :: nat)"
  by (metis div_mult_mod_eq)

lemma bitmapTestBit_set:
  "pos < 8 * length bm \<Longrightarrow> bitmapTestBit (bitmapSetBit bm pos) j \<longleftrightarrow> j = pos \<or> bitmapTestBit bm j"
  using slot_index_eq [of pos j]
  by (auto simp: bitmapTestBit_bit bitmapSetBit_def nth_list_update bit_simps and_7 less_mult_imp_div_less)

lemma bitmapTestBit_clear:
  "pos < 8 * length bm \<Longrightarrow> bitmapTestBit (bitmapClearBit bm pos) j \<longleftrightarrow> j \<noteq> pos \<and> bitmapTestBit bm j"
  using slot_index_eq [of pos j]
  by (auto simp: bitmapTestBit_bit bitmapClearBit_def nth_list_update bit_simps and_7 less_mult_imp_div_less
      dest: bit_imp_le_length)

lemma length_bitmap [simp]:
  "length (bitmapSetBit bm pos) = length bm" "length (bitmapClearBit bm pos) = length bm"
  by (simp_all add: bitmapSetBit_def bitmapClearBit_def)

section \<open>The invariant\<close>

definition addrs :: "clusterState \<Rightarrow> nat set" where
  "addrs cs = snd ` set (cs_nodes cs)"

definition owned :: "clusterNode \<Rightarrow> nat set" where
  "owned m = {j. j < CLUSTER_SLOTS \<and> bitmapTestBit (cn_slots m) j}"

definition node_slots_wf :: "clusterState \<Rightarrow> nat \<Rightarrow> bool" where
  "node_slots_wf cs n \<longleftrightarrow> length (cn_slots (node cs n)) = CLUSTER_SLOTS div 8 \<and>
    cn_numslots (node cs n) = int (card (owned (node cs n))) \<and>
    owned (node cs n) = {j. j < CLUSTER_SLOTS \<and> cs_slots cs ! j = Some n}"

definition slots_wf :: "clusterState \<Rightarrow> bool" where
  "slots_wf cs \<longleftrightarrow> length (cs_slots cs) = CLUSTER_SLOTS \<and> (\<forall>n \<in> addrs cs. node_slots_wf cs n) \<and>
    (\<forall>j < CLUSTER_SLOTS. \<forall>n. cs_slots cs ! j = Some n \<longrightarrow> n \<in> addrs cs)"

text \<open>Two states differ in nothing but slots, and requests for later work, when their images with these
  blanked out are equal.\<close>

definition slotless :: "clusterState \<Rightarrow> clusterState" where
  "slotless cs = cs\<lparr>cs_slots := [], cs_todo := 0, cs_heap := \<lambda>n. (cs_heap cs n)\<lparr>cn_slots := [], cn_numslots := 0\<rparr>\<rparr>"

lemma slotless_fields:
  assumes "slotless cs = slotless cs'"
  shows "cs_nodes cs = cs_nodes cs'" "cs_myself cs = cs_myself cs'" "cs_currentEpoch cs = cs_currentEpoch cs'"
    "cs_importing_slots_from cs = cs_importing_slots_from cs'"
    "cn_flags (node cs n) = cn_flags (node cs' n)" "cn_configEpoch (node cs n) = cn_configEpoch (node cs' n)"
    "cn_slaveof (node cs n) = cn_slaveof (node cs' n)" "cn_slaves (node cs n) = cn_slaves (node cs' n)"
    "addrs cs = addrs cs'"
proof -
  have h: "(cs_heap cs n)\<lparr>cn_slots := [], cn_numslots := 0\<rparr> = (cs_heap cs' n)\<lparr>cn_slots := [], cn_numslots := 0\<rparr>"
    using arg_cong [OF assms, of cs_heap] by (simp add: slotless_def fun_eq_iff)
  show "cn_flags (node cs n) = cn_flags (node cs' n)" using arg_cong [OF h, of cn_flags] by (simp add: node_def)
  show "cn_configEpoch (node cs n) = cn_configEpoch (node cs' n)"
    using arg_cong [OF h, of cn_configEpoch] by (simp add: node_def)
  show "cn_slaveof (node cs n) = cn_slaveof (node cs' n)" using arg_cong [OF h, of cn_slaveof] by (simp add: node_def)
  show "cn_slaves (node cs n) = cn_slaves (node cs' n)" using arg_cong [OF h, of cn_slaves] by (simp add: node_def)
  show "cs_nodes cs = cs_nodes cs'" using arg_cong [OF assms, of cs_nodes] by (simp add: slotless_def)
  then show "addrs cs = addrs cs'" by (simp add: addrs_def)
  show "cs_myself cs = cs_myself cs'" using arg_cong [OF assms, of cs_myself] by (simp add: slotless_def)
  show "cs_currentEpoch cs = cs_currentEpoch cs'" using arg_cong [OF assms, of cs_currentEpoch] by (simp add: slotless_def)
  show "cs_importing_slots_from cs = cs_importing_slots_from cs'"
    using arg_cong [OF assms, of cs_importing_slots_from] by (simp add: slotless_def)
qed

lemma node_upd [simp]: "node (upd_node a f cs) b = (if b = a then f (node cs a) else node cs b)"
  by (simp add: node_def upd_node_def)

lemma node_slots_update [simp]: "node (cs\<lparr>cs_slots := x\<rparr>) n = node cs n"
  by (simp add: node_def)

lemma upd_node_fields [simp]:
  "cs_slots (upd_node a f cs) = cs_slots cs" "cs_nodes (upd_node a f cs) = cs_nodes cs"
  "addrs (upd_node a f cs) = addrs cs" "addrs (cs\<lparr>cs_slots := x\<rparr>) = addrs cs"
  by (simp_all add: upd_node_def addrs_def)

lemma slotless_upd:
  assumes "(f (node cs a))\<lparr>cn_slots := [], cn_numslots := 0\<rparr> = (node cs a)\<lparr>cn_slots := [], cn_numslots := 0\<rparr>"
  shows "slotless (upd_node a f cs) = slotless cs"
  using assms by (auto simp: slotless_def upd_node_def node_def fun_eq_iff)

lemma slotless_slots [simp]: "slotless (cs\<lparr>cs_slots := x\<rparr>) = slotless cs"
  by (simp add: slotless_def)

lemma do_before_sleep_fields [simp]:
  "slotless (clusterDoBeforeSleep f cs) = slotless cs" "cs_slots (clusterDoBeforeSleep f cs) = cs_slots cs"
  "node (clusterDoBeforeSleep f cs) = node cs" "addrs (clusterDoBeforeSleep f cs) = addrs cs"
  "cs_nodes (clusterDoBeforeSleep f cs) = cs_nodes cs" "cs_myself (clusterDoBeforeSleep f cs) = cs_myself cs"
  by (simp_all add: clusterDoBeforeSleep_def slotless_def node_def addrs_def fun_eq_iff)

section \<open>Assigning and releasing a slot\<close>

lemma owned_bounds: "finite (owned m)" "owned m \<subseteq> {..<CLUSTER_SLOTS}"
  by (auto simp: owned_def)

lemma owned_set:
  "length (cn_slots m) = CLUSTER_SLOTS div 8 \<Longrightarrow> j < CLUSTER_SLOTS \<Longrightarrow>
    owned (m\<lparr>cn_slots := bitmapSetBit (cn_slots m) j\<rparr>) = insert j (owned m)"
  by (auto simp: owned_def bitmapTestBit_set)

lemma owned_clear:
  "length (cn_slots m) = CLUSTER_SLOTS div 8 \<Longrightarrow> j < CLUSTER_SLOTS \<Longrightarrow>
    owned (m\<lparr>cn_slots := bitmapClearBit (cn_slots m) j\<rparr>) = owned m - {j}"
  by (auto simp: owned_def bitmapTestBit_clear)

lemma owned_numslots [simp]: "owned (m\<lparr>cn_numslots := x\<rparr>) = owned m"
  by (simp add: owned_def)

lemma slots_elsewhere:
  "x \<noteq> Some a \<Longrightarrow> xs ! j \<noteq> Some a \<Longrightarrow> {i. i < n \<and> xs[j := x] ! i = Some a} = {i. i < n \<and> xs ! i = Some a}"
  by (metis nth_list_update_neq nth_list_update_eq list_update_beyond not_le)

lemma clusterAddSlot_ok:
  assumes wf: "slots_wf cs" and j: "j < CLUSTER_SLOTS" and n: "n \<in> addrs cs" and free: "cs_slots cs ! j = None"
  shows "\<exists>cs'. clusterAddSlot n j cs = (True, cs') \<and> slots_wf cs' \<and> cs_slots cs' = (cs_slots cs)[j := Some n] \<and>
    slotless cs' = slotless cs"
proof -
  have len: "length (cs_slots cs) = CLUSTER_SLOTS" and nw: "\<And>a. a \<in> addrs cs \<Longrightarrow> node_slots_wf cs a"
    using wf by (auto simp: slots_wf_def)
  have notin: "j \<notin> owned (node cs n)" using nw [OF n] free by (simp add: node_slots_wf_def)
  then have unset: "\<not> bitmapTestBit (cn_slots (node cs n)) j" using j by (simp add: owned_def)
  define f where "f m = m\<lparr>cn_slots := bitmapSetBit (cn_slots m) j, cn_numslots := cn_numslots m + 1\<rparr>" for m :: clusterNode
  define cs' where "cs' = (upd_node n f cs)\<lparr>cs_slots := (cs_slots cs)[j := Some n]\<rparr>"
  have "upd_node n (\<lambda>m. m\<lparr>cn_numslots := cn_numslots m + 1\<rparr>)
      (upd_node n (\<lambda>m. m\<lparr>cn_slots := bitmapSetBit (cn_slots m) j\<rparr>) cs) = upd_node n f cs"
    by (simp add: upd_node_def f_def)
  then have eq: "clusterAddSlot n j cs = (True, cs')"
    using unset free by (simp add: clusterAddSlot_def clusterNodeSetSlotBit_def cs'_def Let_def)
  have "node_slots_wf cs' a" if a: "a \<in> addrs cs" for a
  proof (cases "a = n")
    case True
    have "length (cn_slots (node cs n)) = CLUSTER_SLOTS div 8" using nw [OF n] by (simp add: node_slots_wf_def)
    then have "owned (f (node cs n)) = insert j (owned (node cs n))" using j owned_set by (simp add: f_def)
    then show ?thesis using nw [OF n] True j len owned_bounds notin
      by (auto simp: node_slots_wf_def cs'_def nth_list_update f_def)
  next
    case False
    then have "{i. i < CLUSTER_SLOTS \<and> cs_slots cs' ! i = Some a} = {i. i < CLUSTER_SLOTS \<and> cs_slots cs ! i = Some a}"
      using free unfolding cs'_def by (simp add: slots_elsewhere)
    then show ?thesis using nw [OF a] False by (simp add: node_slots_wf_def cs'_def)
  qed
  moreover have "slotless cs' = slotless cs" by (simp add: cs'_def slotless_upd f_def)
  ultimately show ?thesis using eq wf n j
    by (auto simp: slots_wf_def cs'_def nth_list_update)
qed

lemma clusterDelSlot_ok:
  assumes wf: "slots_wf cs" and j: "j < CLUSTER_SLOTS"
  shows "\<exists>cs'. clusterDelSlot j cs = Some (cs_slots cs ! j \<noteq> None, cs') \<and> slots_wf cs' \<and>
    cs_slots cs' = (cs_slots cs)[j := None] \<and> slotless cs' = slotless cs"
proof (cases "cs_slots cs ! j")
  case None
  then have "(cs_slots cs)[j := None] = cs_slots cs" by (metis list_update_id)
  then show ?thesis using None wf by (simp add: clusterDelSlot_def)
next
  case (Some n)
  have len: "length (cs_slots cs) = CLUSTER_SLOTS" and nw: "\<And>a. a \<in> addrs cs \<Longrightarrow> node_slots_wf cs a"
    and n: "n \<in> addrs cs" using wf Some j by (auto simp: slots_wf_def)
  have set: "j \<in> owned (node cs n)" using nw [OF n] Some j by (simp add: node_slots_wf_def)
  define f where "f m = m\<lparr>cn_slots := bitmapClearBit (cn_slots m) j, cn_numslots := cn_numslots m - 1\<rparr>" for m :: clusterNode
  define cs' where "cs' = (upd_node n f cs)\<lparr>cs_slots := (cs_slots cs)[j := None]\<rparr>"
  have "upd_node n (\<lambda>m. m\<lparr>cn_numslots := cn_numslots m - 1\<rparr>)
      (upd_node n (\<lambda>m. m\<lparr>cn_slots := bitmapClearBit (cn_slots m) j\<rparr>) cs) = upd_node n f cs"
    by (simp add: upd_node_def f_def)
  then have eq: "clusterDelSlot j cs = Some (True, cs')"
    using set Some by (simp add: clusterDelSlot_def clusterNodeClearSlotBit_def cs'_def Let_def owned_def)
  have "node_slots_wf cs' a" if a: "a \<in> addrs cs" for a
  proof (cases "a = n")
    case True
    have "length (cn_slots (node cs n)) = CLUSTER_SLOTS div 8" using nw [OF n] by (simp add: node_slots_wf_def)
    then have "owned (f (node cs n)) = owned (node cs n) - {j}" using j owned_clear by (simp add: f_def)
    moreover have "card (owned (node cs n)) = Suc (card (owned (node cs n) - {j}))"
      using set owned_bounds by (metis card.remove)
    ultimately show ?thesis using nw [OF n] True j len
      by (auto simp: node_slots_wf_def cs'_def nth_list_update f_def)
  next
    case False
    then have "{i. i < CLUSTER_SLOTS \<and> cs_slots cs' ! i = Some a} = {i. i < CLUSTER_SLOTS \<and> cs_slots cs ! i = Some a}"
      using Some unfolding cs'_def by (simp add: slots_elsewhere)
    then show ?thesis using nw [OF a] False by (simp add: node_slots_wf_def cs'_def)
  qed
  moreover have "slotless cs' = slotless cs" by (simp add: cs'_def slotless_upd f_def)
  ultimately show ?thesis using eq wf Some j
    by (auto simp: slots_wf_def cs'_def nth_list_update split: if_splits)
qed

lemma del_slot_ok:
  assumes "slots_wf cs" and "j < CLUSTER_SLOTS"
  obtains cs' where "del_slot j cs = Some cs'" "slots_wf cs'" "cs_slots cs' = (cs_slots cs)[j := None]"
    "slotless cs' = slotless cs"
  using clusterDelSlot_ok [OF assms] by (auto simp: del_slot_def)

text \<open>What the invariant depends on.\<close>

lemma slots_wf_cong:
  assumes "cs_slots cs' = cs_slots cs" "addrs cs' = addrs cs"
    and "\<And>n. cn_slots (node cs' n) = cn_slots (node cs n)" "\<And>n. cn_numslots (node cs' n) = cn_numslots (node cs n)"
  shows "slots_wf cs' \<longleftrightarrow> slots_wf cs"
  by (simp add: slots_wf_def node_slots_wf_def owned_def assms)

lemma slots_wf_sleep [simp]: "slots_wf (clusterDoBeforeSleep f cs) \<longleftrightarrow> slots_wf cs"
  by (rule slots_wf_cong) simp_all

lemma slots_wf_numslots:
  assumes "slots_wf cs" "n \<in> addrs cs"
  shows "cn_numslots (node cs n) = int (card {j. j < CLUSTER_SLOTS \<and> cs_slots cs ! j = Some n})"
  using assms by (auto simp: slots_wf_def node_slots_wf_def)

section \<open>Loops over all slots\<close>

lemma slots_wf_bit:
  assumes "slots_wf cs" "n \<in> addrs cs" "j < CLUSTER_SLOTS"
  shows "bitmapTestBit (cn_slots (node cs n)) j \<longleftrightarrow> cs_slots cs ! j = Some n"
proof -
  have "owned (node cs n) = {j. j < CLUSTER_SLOTS \<and> cs_slots cs ! j = Some n}"
    using assms(1,2) by (simp add: slots_wf_def node_slots_wf_def)
  then have "j \<in> owned (node cs n) \<longleftrightarrow> cs_slots cs ! j = Some n" using assms(3) by simp
  then show ?thesis using assms(3) by (simp add: owned_def)
qed

lemma update_upto_Suc:
  "j < length xs \<Longrightarrow> ys = map (\<lambda>i. if i < j then f i else xs ! i) [0..<length xs] \<Longrightarrow>
    ys[j := f j] = map (\<lambda>i. if i < Suc j then f i else xs ! i) [0..<length xs]"
  by (rule nth_equalityI) (auto simp: nth_list_update less_Suc_eq)

text \<open>(C31) \<open>clusterDelNodeSlots\<close> releases exactly the slots of the node and keeps the slot table, the bitmaps
  and the counters in agreement; but its result, described as the number of deleted slots, is always the
  number of all slots, because the counter is incremented outside the test.\<close>

theorem clusterDelNodeSlots_spec:
  assumes "slots_wf cs" and "n \<in> addrs cs"
  shows "\<exists>cs'. clusterDelNodeSlots n cs = Some (int CLUSTER_SLOTS, cs') \<and> slots_wf cs' \<and>
    cs_slots cs' = map (\<lambda>s. if s = Some n then None else s) (cs_slots cs) \<and> slotless cs' = slotless cs"
proof -
  define rel where "rel i = (if cs_slots cs ! i = Some n then None else cs_slots cs ! i)" for i
  define P where "P j s \<longleftrightarrow> fst s = int j \<and> slots_wf (snd s) \<and> slotless (snd s) = slotless cs \<and>
      cs_slots (snd s) = map (\<lambda>i. if i < j then rel i else cs_slots cs ! i) [0..<length (cs_slots cs)]"
    for j and s :: "int \<times> clusterState"
  have len: "length (cs_slots cs) = CLUSTER_SLOTS" using assms(1) by (simp add: slots_wf_def)
  have "P 0 (0, cs)" using assms(1) by (simp add: P_def map_nth)
  moreover have "\<exists>s'. del_own_slot n j s = Some s' \<and> P (Suc j) s'" if j: "j < CLUSTER_SLOTS" and P: "P j s" for j s
  proof -
    obtain d c where s: "s = (d, c)" by (cases s)
    have c: "d = int j" "slots_wf c" "slotless c = slotless cs"
      "cs_slots c = map (\<lambda>i. if i < j then rel i else cs_slots cs ! i) [0..<length (cs_slots cs)]"
      using P by (simp_all add: P_def s)
    have cj: "cs_slots c ! j = cs_slots cs ! j" using c(4) j len by simp
    have step: "(cs_slots c)[j := rel j] = map (\<lambda>i. if i < Suc j then rel i else cs_slots cs ! i) [0..<length (cs_slots cs)]"
      using j len c(4) by (intro update_upto_Suc) simp_all
    have "n \<in> addrs c" using assms(2) slotless_fields(9) [OF c(3)] by simp
    then have own: "clusterNodeGetSlotBit n j c \<longleftrightarrow> cs_slots cs ! j = Some n"
      using slots_wf_bit [OF c(2) _ j] cj by (simp add: clusterNodeGetSlotBit_def)
    show ?thesis
    proof (cases "cs_slots cs ! j = Some n")
      case True
      obtain c' where "del_slot j c = Some c'" "slots_wf c'" "cs_slots c' = (cs_slots c)[j := None]"
        "slotless c' = slotless c" using c(2) j by (rule del_slot_ok)
      then show ?thesis using True own c step by (simp add: del_own_slot_def s P_def rel_def)
    next
      case False
      then have "(cs_slots c)[j := rel j] = cs_slots c" using cj by (metis rel_def list_update_id)
      then show ?thesis using False own c step by (simp add: del_own_slot_def s P_def)
    qed
  qed
  ultimately have "\<exists>s'. foldM (del_own_slot n) [0..<CLUSTER_SLOTS] (0, cs) = Some s' \<and> P CLUSTER_SLOTS s'"
    by (intro foldM_upt) simp_all
  then obtain s' where s': "foldM (del_own_slot n) [0..<CLUSTER_SLOTS] (0, cs) = Some s'" "P CLUSTER_SLOTS s'" by blast
  have "map (\<lambda>i. if i < CLUSTER_SLOTS then rel i else cs_slots cs ! i) [0..<length (cs_slots cs)] =
      map (\<lambda>s. if s = Some n then None else s) (cs_slots cs)"
    by (rule nth_equalityI) (simp_all add: rel_def len)
  then show ?thesis using s' by (cases s') (simp add: clusterDelNodeSlots_def P_def)
qed

section \<open>A node that has just started\<close>

lemma bitmap_empty: "j < CLUSTER_SLOTS \<Longrightarrow> \<not> bitmapTestBit (replicate (CLUSTER_SLOTS div 8) 0) j"
  by (simp add: bitmapTestBit_bit less_mult_imp_div_less)

lemma clusterInit_wf: "slots_wf (clusterInit ev name a heap sent)"
proof -
  have "owned (createClusterNode ev name f) = {}" for f
    using bitmap_empty by (auto simp: owned_def createClusterNode_def)
  then show ?thesis
    by (simp add: slots_wf_def node_slots_wf_def addrs_def clusterInit_def node_def)
      (simp add: createClusterNode_def)
qed

definition demo_env :: env where
  "demo_env = \<lparr>ev_now = 10000, ev_unixtime = 10, ev_node_timeout = 15000, ev_slave_validity_factor = 10,
    ev_repl_ping_slave_period = 10, ev_repl_connected = False, ev_lastinteraction = 0, ev_repl_down_since = 0,
    ev_slave_offset = 0, ev_master_offset = 0, ev_random = 7, ev_full_coverage = True, ev_paused = False, ev_keys_in_slot = (\<lambda>_. 0),
    ev_other_dbs = []\<rparr>"

definition demo_cluster :: clusterState where
  "demo_cluster = clusterInit demo_env ''a'' 1 (\<lambda>_. createClusterNode demo_env [] 0) False"

theorem clusterDelNodeSlots_spec_witness:
  "\<exists>cs cs'. cs_slots cs ! 5 = Some 1 \<and> clusterDelNodeSlots 1 cs = Some (16384, cs') \<and> cs_slots cs' ! 5 = None"
proof -
  have "slots_wf demo_cluster" unfolding demo_cluster_def by (rule clusterInit_wf)
  moreover have "1 \<in> addrs demo_cluster" "cs_slots demo_cluster ! 5 = None"
    by (simp_all add: demo_cluster_def clusterInit_def addrs_def)
  ultimately obtain cs where cs: "slots_wf cs" "cs_slots cs = (cs_slots demo_cluster)[5 := Some 1]"
    "slotless cs = slotless demo_cluster"
    using clusterAddSlot_ok [of demo_cluster 5 1] by auto
  have l: "length (cs_slots cs) = CLUSTER_SLOTS" using cs(1) by (simp add: slots_wf_def)
  have "1 \<in> addrs cs" using slotless_fields(9) [OF cs(3)] by (simp add: demo_cluster_def clusterInit_def addrs_def)
  from clusterDelNodeSlots_spec [OF cs(1) this] obtain cs' where cs': "clusterDelNodeSlots 1 cs = Some (16384, cs')"
    "cs_slots cs' = map (\<lambda>s. if s = Some 1 then None else s) (cs_slots cs)" by auto
  have 5: "cs_slots cs ! 5 = Some 1" using cs(2) l by simp
  moreover have "cs_slots cs' ! 5 = None" unfolding cs'(2) using 5 l by simp
  ultimately show ?thesis using cs'(1) by blast
qed

end
