(* ===== verification/Cluster_Config.thy ===== *)
theory Cluster_Config
  imports Cluster_Slots
begin

text \<open>
  The configuration handlers of \<^verbatim>\<open>src/redis-3.0.3/src/cluster.c\<close>: configuration epochs, the node black
  list, failure detection, role changes, slot reconfiguration, node removal, reset, and the evaluation
  of the cluster state.  A failed assertion or a null pointer dereference is a fault (\<open>None\<close>).
\<close>

section \<open>Configuration epochs\<close>

definition clusterGetMaxEpoch :: "clusterState \<Rightarrow> u64" where
  "clusterGetMaxEpoch cs =
    (let max = foldl (\<lambda>m (_, a). if cn_configEpoch (node cs a) > m then cn_configEpoch (node cs a) else m) 0 (cs_nodes cs)
     in if max < cs_currentEpoch cs then cs_currentEpoch cs else max)"

definition clusterBumpConfigEpochWithoutConsensus :: "clusterState \<Rightarrow> bool \<times> clusterState" where
  "clusterBumpConfigEpochWithoutConsensus cs =
    (let maxEpoch = clusterGetMaxEpoch cs in
     if cn_configEpoch (myself cs) = 0 \<or> cn_configEpoch (myself cs) \<noteq> maxEpoch then
       (let cs = cs\<lparr>cs_currentEpoch := cs_currentEpoch cs + 1\<rparr>;
            cs = upd_node (cs_myself cs) (\<lambda>m. m\<lparr>cn_configEpoch := cs_currentEpoch cs\<rparr>) cs
        in (True, clusterDoBeforeSleep (TODO_SAVE_CONFIG OR TODO_FSYNC_CONFIG) cs))
     else (False, cs))"

definition clusterHandleConfigEpochCollision :: "nat \<Rightarrow> clusterState \<Rightarrow> clusterState" where
  "clusterHandleConfigEpochCollision sender cs =
    (if cn_configEpoch (node cs sender) \<noteq> cn_configEpoch (myself cs) \<or> \<not> nodeIsMaster (node cs sender) \<or>
        \<not> nodeIsMaster (myself cs) then cs
     else if memcmp (cn_name (node cs sender)) (cn_name (myself cs)) \<le> 0 then cs
     else let cs = cs\<lparr>cs_currentEpoch := cs_currentEpoch cs + 1\<rparr>;
              cs = upd_node (cs_myself cs) (\<lambda>m. m\<lparr>cn_configEpoch := cs_currentEpoch cs\<rparr>) cs
          in emit SaveConfig cs)"

section \<open>The black list of forgotten nodes\<close>

definition clusterBlacklistCleanup :: "env \<Rightarrow> clusterState \<Rightarrow> clusterState" where
  "clusterBlacklistCleanup ev cs =
    cs\<lparr>cs_black_list := filter (\<lambda>(_, expire). \<not> expire < ev_unixtime ev) (cs_black_list cs)\<rparr>"

definition clusterBlacklistAddNode :: "env \<Rightarrow> nat \<Rightarrow> clusterState \<Rightarrow> clusterState" where
  "clusterBlacklistAddNode ev n cs =
    (let id = cn_name (node cs n); cs = clusterBlacklistCleanup ev cs in
     cs\<lparr>cs_black_list := (id, ev_unixtime ev + 60) # filter (\<lambda>(k, _). k \<noteq> id) (cs_black_list cs)\<rparr>)"

definition clusterBlacklistExists :: "env \<Rightarrow> string \<Rightarrow> clusterState \<Rightarrow> bool \<times> clusterState" where
  "clusterBlacklistExists ev nodeid cs =
    (let cs = clusterBlacklistCleanup ev cs in (nodeid \<in> fst ` set (cs_black_list cs), cs))"

section \<open>Failure detection\<close>

definition markNodeAsFailingIfNeeded :: "env \<Rightarrow> nat \<Rightarrow> clusterState \<Rightarrow> clusterState" where
  "markNodeAsFailingIfNeeded ev n cs =
    (let needed_quorum = cs_size cs div 2 + 1 in
     if \<not> nodeTimedOut (node cs n) then cs
     else if nodeFailed (node cs n) then cs
     else
       let (failures, cs) = clusterNodeFailureReportsCount ev n cs;
           failures = (if nodeIsMaster (myself cs) then failures + 1 else failures) in
       if failures < needed_quorum then cs
       else
         let cs = upd_node n (\<lambda>m. (set_flag NODE_FAIL (clear_flag NODE_PFAIL m))\<lparr>cn_fail_time := ev_now ev\<rparr>) cs;
             cs = (if nodeIsMaster (myself cs) then emit (SendFail (cn_name (node cs n))) cs else cs)
         in clusterDoBeforeSleep (TODO_UPDATE_STATE OR TODO_SAVE_CONFIG) cs)"

definition clearNodeFailureIfNeeded :: "env \<Rightarrow> nat \<Rightarrow> clusterState \<Rightarrow> clusterState option" where
  "clearNodeFailureIfNeeded ev n cs =
    (if \<not> nodeFailed (node cs n) then None
     else
       let undo = (\<lambda>cs. clusterDoBeforeSleep (TODO_UPDATE_STATE OR TODO_SAVE_CONFIG)
                          (upd_node n (clear_flag NODE_FAIL) cs));
           cs = (if nodeIsSlave (node cs n) \<or> cn_numslots (node cs n) = 0 then undo cs else cs);
           cs = (if nodeIsMaster (node cs n) \<and> cn_numslots (node cs n) > 0 \<and>
                    ev_now ev - cn_fail_time (node cs n) > ev_node_timeout ev * 2 then undo cs else cs)
       in Some cs)"

section \<open>Roles\<close>

definition remove_from_master :: "nat \<Rightarrow> clusterState \<Rightarrow> clusterState" where
  "remove_from_master n cs =
    (case cn_slaveof (node cs n) of None \<Rightarrow> cs | Some m \<Rightarrow> snd (clusterNodeRemoveSlave m n cs))"

definition clusterSetNodeAsMaster :: "nat \<Rightarrow> clusterState \<Rightarrow> clusterState" where
  "clusterSetNodeAsMaster n cs =
    (if nodeIsMaster (node cs n) then cs
     else
       let cs = remove_from_master n cs;
           cs = upd_node n (\<lambda>m. (set_flag NODE_MASTER (clear_flag NODE_SLAVE m))\<lparr>cn_slaveof := None\<rparr>) cs
       in clusterDoBeforeSleep (TODO_SAVE_CONFIG OR TODO_UPDATE_STATE) cs)"

definition resetManualFailover :: "env \<Rightarrow> clusterState \<Rightarrow> clusterState" where
  "resetManualFailover ev cs =
    (let cs = (if cs_mf_end cs \<noteq> 0 \<and> ev_paused ev then emit UnpauseClients cs else cs) in
     cs\<lparr>cs_mf_end := 0, cs_mf_can_start := False, cs_mf_slave := None, cs_mf_master_offset := 0\<rparr>)"

definition manualFailoverCheckTimeout :: "env \<Rightarrow> clusterState \<Rightarrow> clusterState" where
  "manualFailoverCheckTimeout ev cs =
    (if cs_mf_end cs \<noteq> 0 \<and> cs_mf_end cs < ev_now ev then resetManualFailover ev cs else cs)"

definition clusterHandleManualFailover :: "env \<Rightarrow> clusterState \<Rightarrow> clusterState" where
  "clusterHandleManualFailover ev cs =
    (if cs_mf_end cs = 0 then cs
     else if cs_mf_can_start cs then cs
     else if cs_mf_master_offset cs = 0 then cs
     else if cs_mf_master_offset cs = ev_slave_offset ev then cs\<lparr>cs_mf_can_start := True\<rparr>
     else cs)"

definition clusterSetMaster :: "env \<Rightarrow> nat \<Rightarrow> clusterState \<Rightarrow> clusterState option" where
  "clusterSetMaster ev n cs =
    (if n = cs_myself cs \<or> cn_numslots (myself cs) \<noteq> 0 then None
     else
       let me = cs_myself cs;
           cs = (if nodeIsMaster (myself cs)
                 then clusterCloseAllSlots (upd_node me (\<lambda>m. set_flag NODE_SLAVE (clear_flag NODE_MASTER m)) cs)
                 else remove_from_master me cs);
           cs = upd_node me (\<lambda>m. m\<lparr>cn_slaveof := Some n\<rparr>) cs;
           cs = snd (clusterNodeAddSlave n me cs);
           cs = emit (SetMaster (cn_ip (node cs n)) (cn_port (node cs n))) cs
       in Some (resetManualFailover ev cs))"

section \<open>Slot reconfiguration\<close>

text \<open>One round of the slot loop; the accumulator is whether \<open>newmaster\<close> was set, and the dirty slots.\<close>

definition may_take :: "nat \<Rightarrow> u64 \<Rightarrow> u8 list \<Rightarrow> clusterState \<Rightarrow> nat \<Rightarrow> bool" where
  "may_take sender senderConfigEpoch slots cs j \<longleftrightarrow>
    bitmapTestBit slots j \<and> cs_slots cs ! j \<noteq> Some sender \<and> cs_importing_slots_from cs ! j = None \<and>
    (case cs_slots cs ! j of None \<Rightarrow> True | Some a \<Rightarrow> cn_configEpoch (node cs a) < senderConfigEpoch)"

definition take_slot :: "nat \<Rightarrow> nat \<Rightarrow> clusterState \<Rightarrow> clusterState option" where
  "take_slot n j cs = do { cs \<leftarrow> del_slot j cs; Some (snd (clusterAddSlot n j cs)) }"

definition update_slot :: "env \<Rightarrow> nat \<Rightarrow> u64 \<Rightarrow> u8 list \<Rightarrow> nat option \<Rightarrow> nat \<Rightarrow>
    bool \<times> nat list \<times> clusterState \<Rightarrow> (bool \<times> nat list \<times> clusterState) option" where
  "update_slot ev sender epoch slots curmaster j = (\<lambda>(newmaster, dirty, cs).
    if may_take sender epoch slots cs j then
      let dirty = (if cs_slots cs ! j = Some (cs_myself cs) \<and> ev_keys_in_slot ev j \<noteq> 0 \<and> sender \<noteq> cs_myself cs
                   then dirty @ [j] else dirty);
          newmaster = (newmaster \<or> cs_slots cs ! j = curmaster) in
      do { cs \<leftarrow> take_slot sender j cs;
           Some (newmaster, dirty,
             clusterDoBeforeSleep (TODO_SAVE_CONFIG OR TODO_UPDATE_STATE OR TODO_FSYNC_CONFIG) cs) }
    else Some (newmaster, dirty, cs))"

definition del_keys :: "nat list \<Rightarrow> clusterState \<Rightarrow> clusterState" where
  "del_keys dirty cs = fold (\<lambda>j. emit (DelKeysInSlot j)) dirty cs"

definition update_finish :: "env \<Rightarrow> nat \<Rightarrow> nat option \<Rightarrow> bool \<times> nat list \<times> clusterState \<Rightarrow> clusterState option" where
  "update_finish ev sender curmaster = (\<lambda>(newmaster, dirty, cs).
    if newmaster then
      (case curmaster of
         None \<Rightarrow> None
       | Some m \<Rightarrow>
           if cn_numslots (node cs m) = 0 then
             map_option (clusterDoBeforeSleep (TODO_SAVE_CONFIG OR TODO_UPDATE_STATE OR TODO_FSYNC_CONFIG))
               (clusterSetMaster ev sender cs)
           else Some (del_keys dirty cs))
    else Some (del_keys dirty cs))"

definition curmaster :: "clusterState \<Rightarrow> nat option" where
  "curmaster cs = (if nodeIsMaster (myself cs) then Some (cs_myself cs) else cn_slaveof (myself cs))"

definition clusterUpdateSlotsConfigWith :: "env \<Rightarrow> nat \<Rightarrow> u64 \<Rightarrow> u8 list \<Rightarrow> clusterState \<Rightarrow> clusterState option" where
  "clusterUpdateSlotsConfigWith ev sender senderConfigEpoch slots cs =
    (if sender = cs_myself cs then Some cs
     else do {
       r \<leftarrow> foldM (update_slot ev sender senderConfigEpoch slots (curmaster cs)) [0..<CLUSTER_SLOTS] (False, [], cs);
       update_finish ev sender (curmaster cs) r })"

section \<open>Evaluation of the cluster state\<close>

definition slots_covered :: "clusterState \<Rightarrow> bool" where
  "slots_covered cs \<longleftrightarrow>
    list_all (\<lambda>s. case s of None \<Rightarrow> False | Some a \<Rightarrow> cn_flags (node cs a) AND NODE_FAIL = 0) (cs_slots cs)"

definition voting_masters :: "clusterState \<Rightarrow> nat list" where
  "voting_masters cs = filter (\<lambda>a. nodeIsMaster (node cs a) \<and> cn_numslots (node cs a) \<noteq> 0) (map snd (cs_nodes cs))"

definition reachable_masters :: "clusterState \<Rightarrow> nat list" where
  "reachable_masters cs = filter (\<lambda>a. cn_flags (node cs a) AND (NODE_FAIL OR NODE_PFAIL) = 0) (voting_masters cs)"

definition rejoin_delay :: "env \<Rightarrow> int" where
  "rejoin_delay ev =
    (let d = ev_node_timeout ev; d = (if d > 5000 then 5000 else d) in if d < 500 then 500 else d)"

definition update_state_decide :: "env \<Rightarrow> clusterState \<Rightarrow> clusterState" where
  "update_state_decide ev cs =
    (let new_state = (if ev_full_coverage ev \<and> \<not> slots_covered cs then CLUSTER_FAIL else CLUSTER_OK);
         cs = cs\<lparr>cs_size := int (length (voting_masters cs))\<rparr>;
         needed_quorum = cs_size cs div 2 + 1;
         minority = int (length (reachable_masters cs)) < needed_quorum;
         new_state = (if minority then CLUSTER_FAIL else new_state);
         cs = (if minority then cs\<lparr>cs_among_minority_time := ev_now ev\<rparr> else cs) in
     if new_state \<noteq> cs_state cs then
       if new_state = CLUSTER_OK \<and> nodeIsMaster (myself cs) \<and> ev_now ev - cs_among_minority_time cs < rejoin_delay ev
       then cs
       else cs\<lparr>cs_state := new_state\<rparr>
     else cs)"

definition clusterUpdateState :: "env \<Rightarrow> clusterState \<Rightarrow> clusterState" where
  "clusterUpdateState ev cs =
    (let cs = cs\<lparr>cs_todo := cs_todo cs AND NOT TODO_UPDATE_STATE\<rparr>;
         cs = (if cs_first_call_time cs = 0 then cs\<lparr>cs_first_call_time := ev_now ev\<rparr> else cs) in
     if nodeIsMaster (myself cs) \<and> cs_state cs = CLUSTER_FAIL \<and> ev_now ev - cs_first_call_time cs < 2000 then cs
     else update_state_decide ev cs)"

section \<open>Promotion, verification, removal and reset\<close>

definition claim_slot :: "nat \<Rightarrow> nat \<Rightarrow> nat \<Rightarrow> clusterState \<Rightarrow> clusterState option" where
  "claim_slot oldmaster me j cs = (if clusterNodeGetSlotBit oldmaster j cs then take_slot me j cs else Some cs)"

definition clusterFailoverReplaceYourMaster :: "env \<Rightarrow> clusterState \<Rightarrow> clusterState option" where
  "clusterFailoverReplaceYourMaster ev cs =
    (case cn_slaveof (myself cs) of
       None \<Rightarrow> Some cs
     | Some oldmaster \<Rightarrow>
         if nodeIsMaster (myself cs) then Some cs
         else do {
           let cs = emit UnsetMaster (clusterSetNodeAsMaster (cs_myself cs) cs);
           cs \<leftarrow> foldM (claim_slot oldmaster (cs_myself cs)) [0..<CLUSTER_SLOTS] cs;
           let cs = emit (BroadcastPong AllNodes) (emit SaveConfig (clusterUpdateState ev cs));
           Some (resetManualFailover ev cs) })"

definition verify_slot :: "env \<Rightarrow> nat \<Rightarrow> bool \<times> clusterState \<Rightarrow> bool \<times> clusterState" where
  "verify_slot ev j = (\<lambda>(update_config, cs).
    if ev_keys_in_slot ev j = 0 then (update_config, cs)
    else if cs_slots cs ! j = Some (cs_myself cs) \<or> cs_importing_slots_from cs ! j \<noteq> None then (update_config, cs)
    else if cs_slots cs ! j = None then (True, snd (clusterAddSlot (cs_myself cs) j cs))
    else (True, cs\<lparr>cs_importing_slots_from := (cs_importing_slots_from cs)[j := cs_slots cs ! j]\<rparr>))"

definition verifyClusterConfigWithData :: "env \<Rightarrow> clusterState \<Rightarrow> bool \<times> clusterState" where
  "verifyClusterConfigWithData ev cs =
    (if nodeIsSlave (myself cs) then (True, cs)
     else if list_ex (\<lambda>n. n \<noteq> 0) (ev_other_dbs ev) then (False, cs)
     else let (update_config, cs) = fold (verify_slot ev) [0..<CLUSTER_SLOTS] (False, cs)
          in (True, if update_config then emit SaveConfig cs else cs))"

definition freeClusterNode :: "nat \<Rightarrow> clusterState \<Rightarrow> clusterState option" where
  "freeClusterNode n cs =
    (let cs = (if nodeIsMaster (node cs n)
               then fold (\<lambda>s. upd_node s (\<lambda>m. m\<lparr>cn_slaveof := None\<rparr>)) (cn_slaves (node cs n)) cs else cs);
         cs = (if nodeIsSlave (node cs n) then remove_from_master n cs else cs)
     in table_delete (cn_name (node cs n)) cs)"

definition forget_slot :: "nat \<Rightarrow> nat \<Rightarrow> clusterState \<Rightarrow> clusterState option" where
  "forget_slot n j cs =
    (let cs = (if cs_importing_slots_from cs ! j = Some n
               then cs\<lparr>cs_importing_slots_from := (cs_importing_slots_from cs)[j := None]\<rparr> else cs);
         cs = (if cs_migrating_slots_to cs ! j = Some n
               then cs\<lparr>cs_migrating_slots_to := (cs_migrating_slots_to cs)[j := None]\<rparr> else cs)
     in if cs_slots cs ! j = Some n then del_slot j cs else Some cs)"

definition clusterDelNode :: "env \<Rightarrow> nat \<Rightarrow> clusterState \<Rightarrow> clusterState option" where
  "clusterDelNode ev n cs = do {
     cs \<leftarrow> foldM (forget_slot n) [0..<CLUSTER_SLOTS] cs;
     let cs = fold (\<lambda>(_, a) cs. if a = n then cs else snd (clusterNodeDelFailureReport ev a n cs)) (cs_nodes cs) cs;
     freeClusterNode n cs }"

definition clusterReset :: "env \<Rightarrow> string option \<Rightarrow> clusterState \<Rightarrow> clusterState option" where
  "clusterReset ev hard cs = do {
     let cs = (if nodeIsSlave (myself cs)
               then emit EmptyDb (emit UnsetMaster (clusterSetNodeAsMaster (cs_myself cs) cs)) else cs);
     let cs = resetManualFailover ev (clusterCloseAllSlots cs);
     cs \<leftarrow> foldM del_slot [0..<CLUSTER_SLOTS] cs;
     cs \<leftarrow> foldM (\<lambda>(_, a) cs. if a = cs_myself cs then Some cs else clusterDelNode ev a cs) (cs_nodes cs) cs;
     let cs = (case hard of
         None \<Rightarrow> cs
       | Some newname \<Rightarrow>
           (let me = cs_myself cs;
                cs = upd_node me (\<lambda>m. m\<lparr>cn_configEpoch := 0\<rparr>) (cs\<lparr>cs_currentEpoch := 0, cs_lastVoteEpoch := 0\<rparr>);
                cs = cs\<lparr>cs_nodes := filter (\<lambda>(k, _). k \<noteq> cn_name (node cs me)) (cs_nodes cs)\<rparr>;
                cs = upd_node me (\<lambda>m. m\<lparr>cn_name := newname\<rparr>) cs
            in snd (clusterAddNode me cs)));
     Some (clusterDoBeforeSleep (TODO_SAVE_CONFIG OR TODO_UPDATE_STATE OR TODO_FSYNC_CONFIG) cs) }"

section \<open>Slot reconfiguration is the pointwise rule of its comment\<close>

lemma take_slot_ok:
  assumes "slots_wf cs" "j < CLUSTER_SLOTS" "n \<in> addrs cs"
  obtains cs' where "take_slot n j cs = Some cs'" "slots_wf cs'" "cs_slots cs' = (cs_slots cs)[j := Some n]"
    "slotless cs' = slotless cs"
proof -
  have len: "length (cs_slots cs) = CLUSTER_SLOTS" using assms(1) by (simp add: slots_wf_def)
  obtain c where c: "del_slot j cs = Some c" "slots_wf c" "cs_slots c = (cs_slots cs)[j := None]"
    "slotless c = slotless cs" using assms(1,2) by (rule del_slot_ok)
  have "n \<in> addrs c" using assms(3) slotless_fields(9) [OF c(4)] by simp
  moreover have "cs_slots c ! j = None" using c(3) assms(2) len by simp
  ultimately obtain cs' where "clusterAddSlot n j c = (True, cs')" "slots_wf cs'"
    "cs_slots cs' = (cs_slots c)[j := Some n]" "slotless cs' = slotless c"
    using clusterAddSlot_ok [OF c(2) assms(2)] by blast
  then show thesis using that c by (simp add: take_slot_def)
qed

definition new_owner :: "nat \<Rightarrow> u64 \<Rightarrow> u8 list \<Rightarrow> clusterState \<Rightarrow> nat \<Rightarrow> nat option" where
  "new_owner sender epoch slots cs j = (if may_take sender epoch slots cs j then Some sender else cs_slots cs ! j)"

lemma new_owner_rule:
  "new_owner sender epoch bm cs j = (if bit (bm ! (j div 8)) (j mod 8) \<and> cs_importing_slots_from cs ! j = None \<and>
     (\<forall>a. cs_slots cs ! j = Some a \<longrightarrow> cn_configEpoch (node cs a) < epoch) then Some sender else cs_slots cs ! j)"
  by (auto simp: new_owner_def may_take_def bitmapTestBit_bit split: option.splits)

lemma may_take_cong:
  assumes "slotless c = slotless cs" "cs_slots c ! j = cs_slots cs ! j"
  shows "may_take sender e bm c j = may_take sender e bm cs j"
  using slotless_fields(4,6) [OF assms(1)] assms(2)
  by (simp add: may_take_def split: option.splits)

lemma update_loop:
  assumes "slots_wf cs" "sender \<in> addrs cs"
  shows "\<exists>cs'. foldM (update_slot ev sender e bm cm) [0..<CLUSTER_SLOTS] (False, [], cs) =
      Some (\<exists>j < CLUSTER_SLOTS. may_take sender e bm cs j \<and> cs_slots cs ! j = cm,
        filter (\<lambda>j. may_take sender e bm cs j \<and> cs_slots cs ! j = Some (cs_myself cs) \<and> ev_keys_in_slot ev j \<noteq> 0 \<and>
          sender \<noteq> cs_myself cs) [0..<CLUSTER_SLOTS], cs') \<and>
    slots_wf cs' \<and> cs_slots cs' = map (new_owner sender e bm cs) [0..<CLUSTER_SLOTS] \<and> slotless cs' = slotless cs"
proof -
  have len: "length (cs_slots cs) = CLUSTER_SLOTS" using assms(1) by (simp add: slots_wf_def)
  define new where "new = new_owner sender e bm cs"
  define hit where "hit j \<longleftrightarrow> may_take sender e bm cs j \<and> cs_slots cs ! j = cm" for j
  define dirt where "dirt j \<longleftrightarrow> may_take sender e bm cs j \<and> cs_slots cs ! j = Some (cs_myself cs) \<and>
    ev_keys_in_slot ev j \<noteq> 0 \<and> sender \<noteq> cs_myself cs" for j
  define P where "P k s \<longleftrightarrow> (\<exists>c. s = (\<exists>j < k. hit j, filter dirt [0..<k], c) \<and> slots_wf c \<and> slotless c = slotless cs \<and>
      cs_slots c = map (\<lambda>i. if i < k then new i else cs_slots cs ! i) [0..<length (cs_slots cs)])"
    for k and s :: "bool \<times> nat list \<times> clusterState"
  have "P 0 (False, [], cs)" using assms(1) by (simp add: P_def map_nth)
  moreover have "\<exists>s'. update_slot ev sender e bm cm k s = Some s' \<and> P (Suc k) s'"
    if k: "k < CLUSTER_SLOTS" and P: "P k s" for k s
  proof -
    obtain c where s: "s = (\<exists>j < k. hit j, filter dirt [0..<k], c)" and c: "slots_wf c" "slotless c = slotless cs"
      "cs_slots c = map (\<lambda>i. if i < k then new i else cs_slots cs ! i) [0..<length (cs_slots cs)]"
      using P by (auto simp: P_def)
    have ck: "cs_slots c ! k = cs_slots cs ! k" using c(3) k len by simp
    have mt: "may_take sender e bm c k = may_take sender e bm cs k" using c(2) ck by (rule may_take_cong)
    have me: "cs_myself c = cs_myself cs" using slotless_fields(2) [OF c(2)] by simp
    have step: "(cs_slots c)[k := new k] = map (\<lambda>i. if i < Suc k then new i else cs_slots cs ! i) [0..<length (cs_slots cs)]"
      using k len c(3) by (intro update_upto_Suc) simp_all
    have ex: "(\<exists>j < Suc k. hit j) \<longleftrightarrow> (\<exists>j < k. hit j) \<or> hit k" by (auto simp: less_Suc_eq)
    show ?thesis
    proof (cases "may_take sender e bm cs k")
      case True
      have "sender \<in> addrs c" using assms(2) slotless_fields(9) [OF c(2)] by simp
      with c(1) k obtain c' where c': "take_slot sender k c = Some c'" "slots_wf c'"
        "cs_slots c' = (cs_slots c)[k := Some sender]" "slotless c' = slotless c" by (rule take_slot_ok)
      have "new k = Some sender" using True by (simp add: new_def new_owner_def)
      then have "P (Suc k) (\<exists>j < Suc k. hit j, filter dirt [0..<Suc k],
          clusterDoBeforeSleep (TODO_SAVE_CONFIG OR TODO_UPDATE_STATE OR TODO_FSYNC_CONFIG) c')"
        using c' c(2) step by (simp add: P_def)
      moreover have "(if cs_slots c ! k = Some (cs_myself c) \<and> ev_keys_in_slot ev k \<noteq> 0 \<and> sender \<noteq> cs_myself c
          then filter dirt [0..<k] @ [k] else filter dirt [0..<k]) = filter dirt [0..<Suc k]"
        using True by (simp add: dirt_def ck me)
      moreover have "((\<exists>j < k. hit j) \<or> cs_slots c ! k = cm) = (\<exists>j < Suc k. hit j)"
        using True ex by (simp add: hit_def ck)
      ultimately show ?thesis using True mt c'(1) by (simp add: update_slot_def s Let_def)
    next
      case False
      then have "(cs_slots c)[k := new k] = cs_slots c" using ck by (metis new_def new_owner_def list_update_id)
      then have "P (Suc k) s" using False c step ex by (simp add: P_def s hit_def dirt_def)
      then show ?thesis using False mt by (simp add: update_slot_def s)
    qed
  qed
  ultimately have "\<exists>s'. foldM (update_slot ev sender e bm cm) [0..<CLUSTER_SLOTS] (False, [], cs) = Some s' \<and> P CLUSTER_SLOTS s'"
    by (intro foldM_upt) simp_all
  moreover have "map (\<lambda>i. if i < CLUSTER_SLOTS then new i else cs_slots cs ! i) [0..<length (cs_slots cs)] =
      map new [0..<CLUSTER_SLOTS]"
    by (simp add: len)
  ultimately show ?thesis unfolding P_def hit_def dirt_def new_def by auto
qed

text \<open>Updates that leave slots alone.\<close>

definition keeps_slots :: "clusterState \<Rightarrow> clusterState \<Rightarrow> bool" where
  "keeps_slots cs cs' \<longleftrightarrow> cs_slots cs' = cs_slots cs \<and> addrs cs' = addrs cs \<and>
    (\<forall>n. cn_slots (node cs' n) = cn_slots (node cs n) \<and> cn_numslots (node cs' n) = cn_numslots (node cs n))"

lemma keeps_slots_trans: "keeps_slots a b \<Longrightarrow> keeps_slots b c \<Longrightarrow> keeps_slots a c"
  by (simp add: keeps_slots_def)

lemma keeps_slots_wf: "keeps_slots cs cs' \<Longrightarrow> slots_wf cs' \<longleftrightarrow> slots_wf cs"
  by (intro slots_wf_cong) (simp_all add: keeps_slots_def)

lemma keeps_slots_upd:
  assumes "\<And>m. cn_slots (f m) = cn_slots m \<and> cn_numslots (f m) = cn_numslots m"
  shows "keeps_slots cs (upd_node n f cs)"
  using assms by (simp add: keeps_slots_def)

lemma keeps_slots_simps [simp]:
  "keeps_slots cs cs" "keeps_slots cs (emit e cs)" "keeps_slots cs (clusterDoBeforeSleep fl cs)"
  "keeps_slots cs (clusterCloseAllSlots cs)" "keeps_slots cs (resetManualFailover ev cs)"
  by (simp_all add: keeps_slots_def emit_def clusterDoBeforeSleep_def clusterCloseAllSlots_def addrs_def node_def
      resetManualFailover_def Let_def)

lemma keeps_slots_slaves [simp]:
  "keeps_slots cs (snd (clusterNodeAddSlave m s cs))" "keeps_slots cs (snd (clusterNodeRemoveSlave m s cs))"
  "keeps_slots cs (remove_from_master s cs)"
  by (auto simp: clusterNodeAddSlave_def clusterNodeRemoveSlave_def remove_from_master_def
      intro!: keeps_slots_upd split: option.splits)

lemma keeps_slots_del_keys [simp]: "keeps_slots cs (del_keys js cs)"
proof (induction js arbitrary: cs)
  case (Cons j js)
  have "keeps_slots cs (emit (DelKeysInSlot j) cs)" by simp
  from keeps_slots_trans [OF this Cons.IH] show ?case by (simp add: del_keys_def)
qed (simp add: del_keys_def)

lemma clusterSetMaster_ok:
  assumes "n \<noteq> cs_myself cs" "cn_numslots (myself cs) = 0"
  obtains cs' where "clusterSetMaster ev n cs = Some cs'" "keeps_slots cs cs'"
proof -
  let ?me = "cs_myself cs"
  let ?c1 = "if nodeIsMaster (myself cs)
    then clusterCloseAllSlots (upd_node ?me (\<lambda>m. set_flag NODE_SLAVE (clear_flag NODE_MASTER m)) cs)
    else remove_from_master ?me cs"
  let ?c2 = "upd_node ?me (\<lambda>m. m\<lparr>cn_slaveof := Some n\<rparr>) ?c1"
  let ?c3 = "snd (clusterNodeAddSlave n ?me ?c2)"
  let ?c4 = "emit (SetMaster (cn_ip (node ?c3 n)) (cn_port (node ?c3 n))) ?c3"
  have "keeps_slots cs (upd_node ?me (\<lambda>m. set_flag NODE_SLAVE (clear_flag NODE_MASTER m)) cs)"
    by (intro keeps_slots_upd) (simp add: set_flag_def clear_flag_def)
  from keeps_slots_trans [OF this keeps_slots_simps(4)] have s1: "keeps_slots cs ?c1" by simp
  have s2: "keeps_slots ?c1 ?c2" by (intro keeps_slots_upd) simp
  have s3: "keeps_slots ?c2 ?c3" and s4: "keeps_slots ?c3 ?c4" and s5: "keeps_slots ?c4 (resetManualFailover ev ?c4)"
    by (rule keeps_slots_slaves keeps_slots_simps)+
  have "keeps_slots cs (resetManualFailover ev ?c4)"
    by (rule keeps_slots_trans [OF s1 keeps_slots_trans [OF s2 keeps_slots_trans [OF s3 keeps_slots_trans [OF s4 s5]]]])
  moreover have "clusterSetMaster ev n cs = Some (resetManualFailover ev ?c4)"
    using assms by (simp add: clusterSetMaster_def Let_def)
  ultimately show thesis using that by blast
qed

text \<open>(C26) A configuration update from another node rebinds exactly the slots its rule names: a slot whose bit
  is set in the message (bit \<open>j mod 8\<close> of byte \<open>j div 8\<close>), that is not being imported, and that no node owns or a
  node with a smaller configuration epoch owns, belongs to the sender afterwards; every other slot keeps its
  owner.  Table, bitmaps and counters stay in agreement, and no assertion fails, provided this node knows
  its master when it is a slave, and then owns no slot itself.  An update from the node itself changes
  nothing.\<close>

theorem clusterUpdateSlotsConfigWith_spec:
  assumes wf: "slots_wf cs" and nodes: "sender \<in> addrs cs" "cs_myself cs \<in> addrs cs"
    and slave: "nodeIsMaster (myself cs) \<or> cn_slaveof (myself cs) \<noteq> None \<and> cn_numslots (myself cs) = 0"
  shows "\<exists>cs'. clusterUpdateSlotsConfigWith ev sender epoch bm cs = Some cs' \<and> slots_wf cs' \<and>
    (sender = cs_myself cs \<longrightarrow> cs' = cs) \<and>
    (sender \<noteq> cs_myself cs \<longrightarrow> (\<forall>j < CLUSTER_SLOTS. cs_slots cs' ! j =
      (if bit (bm ! (j div 8)) (j mod 8) \<and> cs_importing_slots_from cs ! j = None \<and>
          (\<forall>owner. cs_slots cs ! j = Some owner \<longrightarrow> cn_configEpoch (node cs owner) < epoch)
       then Some sender else cs_slots cs ! j)))"
proof (cases "sender = cs_myself cs")
  case True
  then show ?thesis using wf by (simp add: clusterUpdateSlotsConfigWith_def)
next
  case False
  let ?me = "cs_myself cs"
  obtain nm dirty c where loop: "foldM (update_slot ev sender epoch bm (curmaster cs)) [0..<CLUSTER_SLOTS] (False, [], cs) =
      Some (nm, dirty, c)" and c: "slots_wf c" "cs_slots c = map (new_owner sender epoch bm cs) [0..<CLUSTER_SLOTS]"
      "slotless c = slotless cs"
    using update_loop [OF wf nodes(1)] by meson
  have "curmaster cs \<noteq> None" using slave by (auto simp: curmaster_def)
  then obtain cm where cm: "curmaster cs = Some cm" by blast
  have me: "cs_myself c = ?me" "?me \<in> addrs c" using slotless_fields(2,9) [OF c(3)] nodes(2) by simp_all
  have "cn_numslots (myself c) = 0" if "cn_numslots (node c cm) = 0"
  proof (cases "nodeIsMaster (myself cs)")
    case True
    then show ?thesis using that cm me(1) by (simp add: curmaster_def myself_def)
  next
    case F: False
    have "card {j. j < CLUSTER_SLOTS \<and> cs_slots cs ! j = Some ?me} = 0"
      using F slave slots_wf_numslots [OF wf nodes(2)] by (simp add: myself_def)
    then have none: "{j. j < CLUSTER_SLOTS \<and> cs_slots cs ! j = Some ?me} = {}" by simp
    have "{j. j < CLUSTER_SLOTS \<and> cs_slots c ! j = Some ?me} \<subseteq> {j. j < CLUSTER_SLOTS \<and> cs_slots cs ! j = Some ?me}"
      using False by (auto simp: c(2) new_owner_def split: if_splits)
    then have "{j. j < CLUSTER_SLOTS \<and> cs_slots c ! j = Some ?me} = {}" unfolding none by blast
    then show ?thesis using slots_wf_numslots [OF c(1) me(2)] me(1) by (simp add: myself_def)
  qed
  then have zero: "cn_numslots (node c cm) = 0 \<Longrightarrow> cn_numslots (myself c) = 0" .
  have "\<exists>cs'. update_finish ev sender (Some cm) (nm, dirty, c) = Some cs' \<and> keeps_slots c cs'"
  proof (cases "nm \<and> cn_numslots (node c cm) = 0")
    case True
    have "sender \<noteq> cs_myself c" using False me(1) by simp
    moreover have "cn_numslots (myself c) = 0" using zero True by simp
    ultimately obtain x where x: "clusterSetMaster ev sender c = Some x" "keeps_slots c x"
      by (rule clusterSetMaster_ok)
    from keeps_slots_trans [OF x(2) keeps_slots_simps(3)] show ?thesis
      using True x(1) by (simp add: update_finish_def)
  qed (auto simp: update_finish_def)
  then obtain cs' where cs': "update_finish ev sender (Some cm) (nm, dirty, c) = Some cs'" "keeps_slots c cs'" by blast
  then have "cs_slots cs' = map (new_owner sender epoch bm cs) [0..<CLUSTER_SLOTS]" using c(2) by (simp add: keeps_slots_def)
  then have "\<forall>j < CLUSTER_SLOTS. cs_slots cs' ! j = (if bit (bm ! (j div 8)) (j mod 8) \<and>
      cs_importing_slots_from cs ! j = None \<and> (\<forall>a. cs_slots cs ! j = Some a \<longrightarrow> cn_configEpoch (node cs a) < epoch)
    then Some sender else cs_slots cs ! j)"
    by (simp add: new_owner_rule)
  then show ?thesis using False cs' c keeps_slots_wf [OF cs'(2)] loop cm
    by (simp add: clusterUpdateSlotsConfigWith_def)
qed

text \<open>A slave that does not know its master dereferences a null pointer when an update assigns it a
  free slot: the unassigned owner compares equal to the missing master, so \<open>newmaster\<close> is set and
  \<open>curmaster->numslots\<close> is read.\<close>

theorem clusterUpdateSlotsConfigWith_null:
  assumes wf: "slots_wf cs" and nodes: "sender \<in> addrs cs" "sender \<noteq> cs_myself cs"
    and orphan: "\<not> nodeIsMaster (myself cs)" "cn_slaveof (myself cs) = None"
    and slot: "j < CLUSTER_SLOTS" "bitmapTestBit bm j" "cs_slots cs ! j = None" "cs_importing_slots_from cs ! j = None"
  shows "clusterUpdateSlotsConfigWith ev sender epoch bm cs = None"
proof -
  have "curmaster cs = None" using orphan by (simp add: curmaster_def)
  moreover have "\<exists>j < CLUSTER_SLOTS. may_take sender epoch bm cs j \<and> cs_slots cs ! j = None"
    using slot by (auto simp: may_take_def)
  ultimately obtain dirty c where
    "foldM (update_slot ev sender epoch bm (curmaster cs)) [0..<CLUSTER_SLOTS] (False, [], cs) = Some (True, dirty, c)"
    using update_loop [OF wf nodes(1), of ev epoch bm None] by (simp only: simp_thms) blast
  then show ?thesis using nodes(2) \<open>curmaster cs = None\<close>
    by (simp add: clusterUpdateSlotsConfigWith_def update_finish_def)
qed

section \<open>Epochs\<close>

definition epochs_wf :: "clusterState \<Rightarrow> bool" where
  "epochs_wf cs \<longleftrightarrow> (\<forall>a \<in> addrs cs. cn_configEpoch (node cs a) \<le> cs_currentEpoch cs)"

lemma foldl_max:
  "foldl (\<lambda>m (_, a). if f a > m then f a else m) (m0 :: 'a :: linorder) xs = Max (insert m0 (f ` snd ` set xs))"
proof (induction xs arbitrary: m0)
  case (Cons x xs)
  have "foldl (\<lambda>m (_, a). if f a > m then f a else m) m0 (x # xs) = Max (insert (max m0 (f (snd x))) (f ` snd ` set xs))"
    using Cons by (auto simp: max_def split: prod.splits)
  also have "\<dots> = Max (insert m0 (f ` snd ` set (x # xs)))"
    by (cases "set xs = {}") (simp_all add: max.assoc)
  finally show ?case .
qed simp

lemma clusterGetMaxEpoch_wf:
  assumes "epochs_wf cs" shows "clusterGetMaxEpoch cs = cs_currentEpoch cs"
proof -
  define M where "M = Max (insert 0 ((\<lambda>a. cn_configEpoch (node cs a)) ` snd ` set (cs_nodes cs)))"
  have "clusterGetMaxEpoch cs = (if M < cs_currentEpoch cs then cs_currentEpoch cs else M)"
    by (simp add: clusterGetMaxEpoch_def foldl_max M_def)
  moreover have "M \<le> cs_currentEpoch cs"
    using assms by (auto simp: M_def epochs_wf_def addrs_def)
  ultimately show ?thesis by auto
qed

lemma word_Suc_le:
  assumes "x \<noteq> - 1" "(y :: u64) \<le> x" shows "y < x + 1"
proof -
  have "1 + x \<noteq> 0" using assms(1) by (metis add.right_inverse add_left_cancel)
  then have "unat (1 + x) = Suc (unat x)" by (rule unatSuc)
  then show ?thesis using assms(2) by (simp add: word_less_nat_alt word_le_nat_alt add.commute)
qed

text \<open>A node that takes the next epoch.\<close>

definition next_epoch :: "clusterState \<Rightarrow> clusterState" where
  "next_epoch cs = upd_node (cs_myself cs) (\<lambda>m. m\<lparr>cn_configEpoch := cs_currentEpoch cs + 1\<rparr>)
    (cs\<lparr>cs_currentEpoch := cs_currentEpoch cs + 1\<rparr>)"

lemma next_epoch_fields:
  "node (next_epoch cs) a = (if a = cs_myself cs then (node cs a)\<lparr>cn_configEpoch := cs_currentEpoch cs + 1\<rparr> else node cs a)"
  "cs_currentEpoch (next_epoch cs) = cs_currentEpoch cs + 1" "addrs (next_epoch cs) = addrs cs"
  "cs_myself (next_epoch cs) = cs_myself cs"
  by (simp_all add: next_epoch_def node_def upd_node_def addrs_def)

lemma next_epoch_greatest:
  assumes "epochs_wf cs" "cs_currentEpoch cs \<noteq> - 1"
  shows "epochs_wf (next_epoch cs)"
    and "a \<in> addrs cs \<Longrightarrow> cn_configEpoch (node cs a) < cn_configEpoch (myself (next_epoch cs))"
proof -
  have lt: "cn_configEpoch (node cs a) < cs_currentEpoch cs + 1" if "a \<in> addrs cs" for a
    using assms that by (intro word_Suc_le) (auto simp: epochs_wf_def)
  then show "epochs_wf (next_epoch cs)" by (auto simp: epochs_wf_def next_epoch_fields order.strict_implies_order)
  show "a \<in> addrs cs \<Longrightarrow> cn_configEpoch (node cs a) < cn_configEpoch (myself (next_epoch cs))"
    using lt by (simp add: myself_def next_epoch_fields)
qed

lemma myself_sleep [simp]: "myself (clusterDoBeforeSleep f cs) = myself cs"
  by (simp add: myself_def)

lemma emit_fields [simp]: "node (emit e cs) = node cs" "addrs (emit e cs) = addrs cs" "cs_myself (emit e cs) = cs_myself cs"
  "cs_currentEpoch (emit e cs) = cs_currentEpoch cs" "myself (emit e cs) = myself cs"
  by (simp_all add: emit_def node_def addrs_def fun_eq_iff myself_def)

lemma epochs_wf_cong [simp]:
  "epochs_wf (clusterDoBeforeSleep f cs) = epochs_wf cs" "epochs_wf (emit e cs) = epochs_wf cs"
  by (simp_all add: epochs_wf_def clusterDoBeforeSleep_def emit_def addrs_def node_def)

text \<open>(C28) Taking a configuration epoch without consensus, as long as epochs do not wrap around and no known
  node is ahead of the current epoch: either the node gets an epoch greater than that of every known
  node, or it already had the greatest one (and a non-zero one) and nothing changes; no node gets ahead
  of the current epoch.\<close>

theorem clusterBumpConfigEpoch_greatest:
  assumes "epochs_wf cs" and "cs_currentEpoch cs \<noteq> - 1" and "cs_myself cs \<in> addrs cs"
  shows "case clusterBumpConfigEpochWithoutConsensus cs of (ok, cs') \<Rightarrow>
    epochs_wf cs' \<and> 0 < cn_configEpoch (myself cs') \<and>
    (\<forall>a \<in> addrs cs. cn_configEpoch (node cs a) \<le> cn_configEpoch (myself cs')) \<and>
    (if ok then \<forall>a \<in> addrs cs. cn_configEpoch (node cs a) < cn_configEpoch (myself cs') else cs' = cs)"
proof (cases "cn_configEpoch (myself cs) = 0 \<or> cn_configEpoch (myself cs) \<noteq> cs_currentEpoch cs")
  case True
  have "clusterBumpConfigEpochWithoutConsensus cs =
      (True, clusterDoBeforeSleep (TODO_SAVE_CONFIG OR TODO_FSYNC_CONFIG) (next_epoch cs))"
    using True assms(1) by (simp add: clusterBumpConfigEpochWithoutConsensus_def clusterGetMaxEpoch_wf next_epoch_def)
  moreover have "0 < cn_configEpoch (myself (next_epoch cs))"
    using next_epoch_greatest(2) [OF assms(1,2,3)] word_gt_0 word_zero_le order_le_less_trans by blast
  ultimately show ?thesis using next_epoch_greatest [OF assms(1,2)] by (auto simp: order.strict_implies_order)
next
  case False
  then show ?thesis using assms(1)
    by (auto simp: clusterBumpConfigEpochWithoutConsensus_def clusterGetMaxEpoch_wf epochs_wf_def word_gt_0)
qed

theorem clusterBumpConfigEpoch_greatest_witness:
  "epochs_wf (snd (clusterBumpConfigEpochWithoutConsensus demo_cluster))"
proof -
  have "epochs_wf demo_cluster" "cs_currentEpoch demo_cluster \<noteq> - 1" "cs_myself demo_cluster \<in> addrs demo_cluster"
    by (simp_all add: epochs_wf_def demo_cluster_def clusterInit_def addrs_def node_def createClusterNode_def)
  from clusterBumpConfigEpoch_greatest [OF this] show ?thesis by (simp add: case_prod_beta)
qed

lemma memcmp_antisym: "memcmp s t = - memcmp t s"
  by (induction s t rule: memcmp.induct) auto

lemma memcmp_eq_0: "length s = length t \<Longrightarrow> memcmp s t = 0 \<longleftrightarrow> s = t"
  by (induction s t rule: memcmp.induct) auto

lemma memcmp_lexord: "length s = length t \<Longrightarrow> 0 < memcmp t s \<longleftrightarrow> (s, t) \<in> lexord {(x, y). x < y}"
  by (induction t s rule: memcmp.induct) auto

text \<open>(C29) Two masters with the same configuration epoch that learn of each other resolve the collision:
  the one whose name is smaller (the names compared as sequences of bytes) moves to an epoch greater than
  that of every node it knows, and the other one changes nothing.  Each of the two states is that node's own view;
  the names are of the same length and differ, and neither current epoch is about to wrap around.\<close>

theorem clusterHandleConfigEpochCollision_resolves:
  assumes "nodeIsMaster (node c1 a) \<and> nodeIsMaster (node c1 b) \<and> nodeIsMaster (node c2 a) \<and> nodeIsMaster (node c2 b)"
    and "cs_myself c1 = a" and "cs_myself c2 = b"
    and "cn_name (node c1 a) = cn_name (node c2 a)" and "cn_name (node c1 b) = cn_name (node c2 b)"
    and "cn_name (node c1 a) \<noteq> cn_name (node c1 b)" and "length (cn_name (node c1 a)) = length (cn_name (node c1 b))"
    and "cn_configEpoch (node c1 a) = cn_configEpoch (node c1 b)" and "cn_configEpoch (node c2 a) = cn_configEpoch (node c2 b)"
    and "epochs_wf c1" and "epochs_wf c2" and "cs_currentEpoch c1 \<noteq> - 1" and "cs_currentEpoch c2 \<noteq> - 1"
  shows "if (cn_name (node c1 a), cn_name (node c1 b)) \<in> lexord {(x, y). x < y}
    then clusterHandleConfigEpochCollision a c2 = c2 \<and> (\<forall>n \<in> addrs c1.
      cn_configEpoch (node c1 n) < cn_configEpoch (myself (clusterHandleConfigEpochCollision b c1)))
    else clusterHandleConfigEpochCollision b c1 = c1 \<and> (\<forall>n \<in> addrs c2.
      cn_configEpoch (node c2 n) < cn_configEpoch (myself (clusterHandleConfigEpochCollision a c2)))"
proof -
  let ?l = "memcmp (cn_name (node c1 b)) (cn_name (node c1 a))"
  have h1: "clusterHandleConfigEpochCollision b c1 = (if ?l \<le> 0 then c1 else emit SaveConfig (next_epoch c1))"
    using assms(1,2,8) by (simp add: clusterHandleConfigEpochCollision_def next_epoch_def myself_def)
  have h2: "clusterHandleConfigEpochCollision a c2 = (if - ?l \<le> 0 then c2 else emit SaveConfig (next_epoch c2))"
    using assms(1,3,4,5,9) memcmp_antisym [of "cn_name (node c1 a)"]
    by (simp add: clusterHandleConfigEpochCollision_def next_epoch_def myself_def)
  have "?l \<noteq> 0" using memcmp_eq_0 [of "cn_name (node c1 b)" "cn_name (node c1 a)"] assms(6,7) by simp
  then show ?thesis using next_epoch_greatest [OF assms(10,12)] next_epoch_greatest [OF assms(11,13)]
    by (auto simp: h1 h2 simp flip: memcmp_lexord [OF assms(7)])
qed

definition demo_pair :: "nat \<Rightarrow> clusterState" where
  "demo_pair me = demo_cluster\<lparr>cs_myself := me, cs_nodes := [(''a'', 1), (''b'', 2)],
     cs_heap := \<lambda>n. createClusterNode demo_env (if n = 1 then ''a'' else ''b'') NODE_MASTER\<rparr>"

theorem clusterHandleConfigEpochCollision_resolves_witness:
  "clusterHandleConfigEpochCollision 1 (demo_pair 2) = demo_pair 2 \<and>
   0 < cn_configEpoch (myself (clusterHandleConfigEpochCollision 2 (demo_pair 1)))"
proof -
  have n: "node (demo_pair me) n = createClusterNode demo_env (if n = 1 then ''a'' else ''b'') NODE_MASTER"
    "cs_myself (demo_pair me) = me" "cs_currentEpoch (demo_pair me) = 0" for me n
    by (simp_all add: demo_pair_def node_def demo_cluster_def clusterInit_def)
  moreover have "1 \<in> addrs (demo_pair 1)" by (simp add: addrs_def demo_pair_def)
  ultimately show ?thesis
    using clusterHandleConfigEpochCollision_resolves [of "demo_pair 1" 1 2 "demo_pair 2"]
    by (auto simp: nodeIsMaster_def createClusterNode_def epochs_wf_def)
qed

section \<open>When the cluster is up\<close>

definition quorum_reachable :: "clusterState \<Rightarrow> bool" where
  "quorum_reachable cs \<longleftrightarrow> length (voting_masters cs) < 2 * length (reachable_masters cs)"

lemma node_fun: "node cs = cs_heap cs"
  by (simp add: fun_eq_iff node_def)

lemma view_cong [simp]:
  "voting_masters (cs\<lparr>cs_size := a\<rparr>) = voting_masters cs" "reachable_masters (cs\<lparr>cs_size := a\<rparr>) = reachable_masters cs"
  "voting_masters (cs\<lparr>cs_todo := b\<rparr>) = voting_masters cs" "reachable_masters (cs\<lparr>cs_todo := b\<rparr>) = reachable_masters cs"
  "voting_masters (cs\<lparr>cs_first_call_time := a\<rparr>) = voting_masters cs"
  "reachable_masters (cs\<lparr>cs_first_call_time := a\<rparr>) = reachable_masters cs"
  "slots_covered (cs\<lparr>cs_todo := b\<rparr>) = slots_covered cs" "slots_covered (cs\<lparr>cs_first_call_time := a\<rparr>) = slots_covered cs"
  "myself (cs\<lparr>cs_todo := b\<rparr>) = myself cs" "myself (cs\<lparr>cs_first_call_time := a\<rparr>) = myself cs"
  "myself (cs\<lparr>cs_size := a\<rparr>) = myself cs"
  unfolding voting_masters_def reachable_masters_def slots_covered_def myself_def node_fun by simp_all

lemma update_state_decide_state:
  "cs_state (update_state_decide ev cs) = CLUSTER_OK \<longleftrightarrow>
    quorum_reachable cs \<and> (ev_full_coverage ev \<longrightarrow> slots_covered cs) \<and>
    (cs_state cs = CLUSTER_OK \<or> \<not> nodeIsMaster (myself cs) \<or>
      rejoin_delay ev \<le> ev_now ev - cs_among_minority_time cs)"
proof -
  have m: "int (length (reachable_masters cs)) < int (length (voting_masters cs)) div 2 + 1 \<longleftrightarrow> \<not> quorum_reachable cs"
    unfolding quorum_reachable_def by linarith
  show ?thesis
    using m by (cases "cs_state cs"; cases "quorum_reachable cs"; cases "ev_full_coverage ev"; cases "slots_covered cs")
      (simp_all add: update_state_decide_def Let_def not_less del: not_le)
qed

lemma length_filter_addrs:
  "distinct (map snd (cs_nodes cs)) \<Longrightarrow> length (filter P (map snd (cs_nodes cs))) = card {a \<in> addrs cs. P a}"
  using distinct_card [of "filter P (map snd (cs_nodes cs))"] by (simp add: addrs_def del: filter_map)

lemma flag_set: "n AND NODE_FAIL = 0 \<longleftrightarrow> \<not> bit n 3" "n AND (NODE_FAIL OR NODE_PFAIL) = 0 \<longleftrightarrow> \<not> bit n 3 \<and> \<not> bit n 2"
  for n :: u32
  using and_exp_eq_0_iff_not_bit [of n 3] and_exp_eq_0_iff_not_bit [of n 2]
  unfolding bit.conj_disj_distrib or_eq_0_iff by (simp_all add: NODE_FAIL_def NODE_PFAIL_def)

lemma masters_card:
  assumes "distinct (map snd (cs_nodes cs))"
  shows "length (voting_masters cs) = card {a \<in> addrs cs. nodeIsMaster (node cs a) \<and> cn_numslots (node cs a) \<noteq> 0}"
    "length (reachable_masters cs) = card {a \<in> addrs cs. nodeIsMaster (node cs a) \<and> cn_numslots (node cs a) \<noteq> 0 \<and>
       \<not> bit (cn_flags (node cs a)) 3 \<and> \<not> bit (cn_flags (node cs a)) 2}"
  using assms by (simp_all only: voting_masters_def reachable_masters_def filter_filter length_filter_addrs flag_set
      conj_assoc simp_thms)

lemma slots_covered_nth:
  "slots_covered cs \<longleftrightarrow> (\<forall>j < length (cs_slots cs). \<exists>a. cs_slots cs ! j = Some a \<and> \<not> bit (cn_flags (node cs a)) 3)"
  by (auto simp: slots_covered_def flag_set list_all_length split: option.splits)

text \<open>(C30) After an update the cluster state is up exactly when a majority of the masters that own slots is flagged
  neither FAIL (bit 3 of the flags) nor PFAIL (bit 2); every slot is assigned to a node without the FAIL flag, if
  full coverage is required; and, when the state was down and this node is a master, it has run for two
  seconds and has been out of the minority for the node timeout, taken between half a second and five
  seconds.  The masters are counted as sets; the node table names each node once.\<close>

theorem clusterUpdateState_spec:
  assumes "distinct (map snd (cs_nodes cs))"
  shows "cs_state (clusterUpdateState ev cs) = CLUSTER_OK \<longleftrightarrow>
    card {a \<in> addrs cs. nodeIsMaster (node cs a) \<and> cn_numslots (node cs a) \<noteq> 0} <
      2 * card {a \<in> addrs cs. nodeIsMaster (node cs a) \<and> cn_numslots (node cs a) \<noteq> 0 \<and>
        \<not> bit (cn_flags (node cs a)) 3 \<and> \<not> bit (cn_flags (node cs a)) 2} \<and>
    (ev_full_coverage ev \<longrightarrow>
      (\<forall>j < length (cs_slots cs). \<exists>a. cs_slots cs ! j = Some a \<and> \<not> bit (cn_flags (node cs a)) 3)) \<and>
    (cs_state cs = CLUSTER_OK \<or> \<not> nodeIsMaster (myself cs) \<or>
      (2000 \<le> ev_now ev - (if cs_first_call_time cs = 0 then ev_now ev else cs_first_call_time cs) \<and>
       max 500 (min 5000 (ev_node_timeout ev)) \<le> ev_now ev - cs_among_minority_time cs))"
proof -
  have "rejoin_delay ev = max 500 (min 5000 (ev_node_timeout ev))" by (simp add: rejoin_delay_def Let_def)
  then show ?thesis unfolding masters_card [OF assms, symmetric] slots_covered_nth [symmetric]
    by (cases "cs_state cs")
      (auto simp: clusterUpdateState_def Let_def update_state_decide_state quorum_reachable_def)
qed

section \<open>Promotion\<close>

lemma keeps_slots_SetNodeAsMaster [simp]: "keeps_slots cs (clusterSetNodeAsMaster n cs)"
proof -
  let ?c1 = "remove_from_master n cs"
  let ?c2 = "upd_node n (\<lambda>m. (set_flag NODE_MASTER (clear_flag NODE_SLAVE m))\<lparr>cn_slaveof := None\<rparr>) ?c1"
  have s1: "keeps_slots cs ?c1" by simp
  have s2: "keeps_slots ?c1 ?c2" by (intro keeps_slots_upd) (simp add: set_flag_def clear_flag_def)
  have s3: "keeps_slots ?c2 (clusterDoBeforeSleep (TODO_SAVE_CONFIG OR TODO_UPDATE_STATE) ?c2)" by simp
  show ?thesis using keeps_slots_trans [OF s1 keeps_slots_trans [OF s2 s3]]
    by (simp add: clusterSetNodeAsMaster_def Let_def)
qed

lemma clusterUpdateState_frame [simp]:
  "cs_slots (clusterUpdateState ev cs) = cs_slots cs" "node (clusterUpdateState ev cs) = node cs"
  "addrs (clusterUpdateState ev cs) = addrs cs" "cs_myself (clusterUpdateState ev cs) = cs_myself cs"
  by (simp_all add: clusterUpdateState_def update_state_decide_def Let_def node_fun addrs_def)

lemma resetManualFailover_frame [simp]:
  "cs_slots (resetManualFailover ev cs) = cs_slots cs" "node (resetManualFailover ev cs) = node cs"
  "addrs (resetManualFailover ev cs) = addrs cs" "cs_myself (resetManualFailover ev cs) = cs_myself cs"
  by (simp_all add: resetManualFailover_def Let_def node_fun addrs_def emit_def)

lemma emit_slots [simp]: "cs_slots (emit e cs) = cs_slots cs"
  by (simp add: emit_def)

definition heir :: "nat \<Rightarrow> nat \<Rightarrow> nat option \<Rightarrow> nat option" where
  "heir old me s = (if s = Some old then Some me else s)"

lemma claim_loop:
  assumes wf: "slots_wf cs" and n: "old \<in> addrs cs" "me \<in> addrs cs" "old \<noteq> me"
  obtains cs' where "foldM (claim_slot old me) [0..<CLUSTER_SLOTS] cs = Some cs'" "slots_wf cs'"
    "cs_slots cs' = map (heir old me) (cs_slots cs)" "slotless cs' = slotless cs"
proof -
  define new where "new i = heir old me (cs_slots cs ! i)" for i
  define P where "P j c \<longleftrightarrow> slots_wf c \<and> slotless c = slotless cs \<and>
      cs_slots c = map (\<lambda>i. if i < j then new i else cs_slots cs ! i) [0..<length (cs_slots cs)]" for j c
  have len: "length (cs_slots cs) = CLUSTER_SLOTS" using wf by (simp add: slots_wf_def)
  have "P 0 cs" using wf by (simp add: P_def map_nth)
  moreover have "\<exists>c'. claim_slot old me j c = Some c' \<and> P (Suc j) c'" if j: "j < CLUSTER_SLOTS" and P: "P j c" for j c
  proof -
    have c: "slots_wf c" "slotless c = slotless cs"
      "cs_slots c = map (\<lambda>i. if i < j then new i else cs_slots cs ! i) [0..<length (cs_slots cs)]"
      using P by (simp_all add: P_def)
    have cj: "cs_slots c ! j = cs_slots cs ! j" using c(3) j len by simp
    have step: "(cs_slots c)[j := new j] = map (\<lambda>i. if i < Suc j then new i else cs_slots cs ! i) [0..<length (cs_slots cs)]"
      using j len c(3) by (intro update_upto_Suc) simp_all
    have a: "old \<in> addrs c" "me \<in> addrs c" using n slotless_fields(9) [OF c(2)] by simp_all
    have own: "clusterNodeGetSlotBit old j c \<longleftrightarrow> cs_slots cs ! j = Some old"
      using slots_wf_bit [OF c(1) a(1) j] cj by (simp add: clusterNodeGetSlotBit_def)
    show ?thesis
    proof (cases "cs_slots cs ! j = Some old")
      case True
      obtain c' where "take_slot me j c = Some c'" "slots_wf c'" "cs_slots c' = (cs_slots c)[j := Some me]"
        "slotless c' = slotless c" using c(1) j a(2) by (rule take_slot_ok)
      then show ?thesis using True own c step by (simp add: claim_slot_def P_def new_def heir_def)
    next
      case False
      then have "(cs_slots c)[j := new j] = cs_slots c" using cj by (metis new_def heir_def list_update_id)
      then show ?thesis using False own c step by (simp add: claim_slot_def P_def)
    qed
  qed
  ultimately have "\<exists>c'. foldM (claim_slot old me) [0..<CLUSTER_SLOTS] cs = Some c' \<and> P CLUSTER_SLOTS c'"
    by (intro foldM_upt) simp_all
  then obtain c' where c': "foldM (claim_slot old me) [0..<CLUSTER_SLOTS] cs = Some c'" "P CLUSTER_SLOTS c'" by blast
  have "map (\<lambda>i. if i < CLUSTER_SLOTS then new i else cs_slots cs ! i) [0..<length (cs_slots cs)] = map (heir old me) (cs_slots cs)"
    by (rule nth_equalityI) (simp_all add: new_def len)
  then show thesis using that c' by (simp add: P_def)
qed

text \<open>(C27) A promoted slave takes over exactly the slots of its master: no assertion fails, it is a master
  afterwards, every slot of the old master is its own, every other slot keeps its owner, and table,
  bitmaps and counters agree.\<close>

theorem clusterFailoverReplaceYourMaster_spec:
  assumes wf: "slots_wf cs" and slave: "\<not> nodeIsMaster (myself cs)" "cn_slaveof (myself cs) = Some old"
    and n: "old \<in> addrs cs" "cs_myself cs \<in> addrs cs" "old \<noteq> cs_myself cs"
  shows "\<exists>cs'. clusterFailoverReplaceYourMaster ev cs = Some cs' \<and> slots_wf cs' \<and>
    nodeIsMaster (myself cs') \<and> \<not> nodeIsSlave (myself cs') \<and>
    cs_slots cs' = map (heir old (cs_myself cs)) (cs_slots cs)"
proof -
  let ?me = "cs_myself cs"
  define c0 where "c0 = emit UnsetMaster (clusterSetNodeAsMaster ?me cs)"
  have k: "keeps_slots cs c0"
    unfolding c0_def by (rule keeps_slots_trans [OF keeps_slots_SetNodeAsMaster keeps_slots_simps(2)])
  have me: "cs_myself c0 = ?me"
    by (simp add: c0_def clusterSetNodeAsMaster_def Let_def remove_from_master_def clusterNodeRemoveSlave_def
        upd_node_def clusterDoBeforeSleep_def split: option.splits)
  have fl: "bit (cn_flags (node c0 ?me)) 0" "\<not> bit (cn_flags (node c0 ?me)) 1"
    using slave(1) by (simp_all add: c0_def clusterSetNodeAsMaster_def Let_def nodeIsMaster_def myself_def)
  have "slots_wf c0" "old \<in> addrs c0" "?me \<in> addrs c0"
    using keeps_slots_wf [OF k] wf n k by (simp_all add: keeps_slots_def)
  then obtain c where c: "foldM (claim_slot old ?me) [0..<CLUSTER_SLOTS] c0 = Some c" "slots_wf c"
    "cs_slots c = map (heir old ?me) (cs_slots c0)" "slotless c = slotless c0"
    using n(3) by (rule claim_loop)
  define cs' where "cs' = resetManualFailover ev (emit (BroadcastPong AllNodes) (emit SaveConfig (clusterUpdateState ev c)))"
  have "slots_wf cs'" using c(2) slots_wf_cong [of cs' c] by (simp add: cs'_def)
  moreover have "clusterFailoverReplaceYourMaster ev cs = Some cs'"
    using slave c(1) by (simp add: clusterFailoverReplaceYourMaster_def Let_def cs'_def me flip: c0_def)
  moreover have "bit (cn_flags (myself cs')) 0" "\<not> bit (cn_flags (myself cs')) 1"
    using fl slotless_fields(2,5) [OF c(4)] me by (simp_all add: myself_def cs'_def)
  moreover have "cs_slots cs' = map (heir old ?me) (cs_slots cs)" using c(3) k by (simp add: cs'_def keeps_slots_def)
  ultimately show ?thesis by (auto simp: nodeIsMaster_def nodeIsSlave_def)
qed

text \<open>A master with slot 5 and its slave, in the view of node \<open>me\<close>.\<close>

definition duo_node :: "nat \<Rightarrow> clusterNode" where
  "duo_node a = (if a = 1
     then (createClusterNode demo_env ''a'' NODE_MASTER)\<lparr>cn_slots := bitmapSetBit (replicate (CLUSTER_SLOTS div 8) 0) 5,
       cn_numslots := 1, cn_slaves := [2], cn_link := True\<rparr>
     else (createClusterNode demo_env ''b'' NODE_SLAVE)\<lparr>cn_slaveof := Some 1, cn_link := True\<rparr>)"

definition duo :: "nat \<Rightarrow> clusterState" where
  "duo me = demo_cluster\<lparr>cs_myself := me, cs_nodes := [(''a'', 1), (''b'', 2)], cs_heap := duo_node,
     cs_slots := (replicate CLUSTER_SLOTS None)[5 := Some 1]\<rparr>"

lemma duo_fields:
  "node (duo me) = duo_node" "addrs (duo me) = {1, 2}" "cs_myself (duo me) = me" "myself (duo me) = duo_node me"
  "cs_slots (duo me) = (replicate CLUSTER_SLOTS None)[5 := Some 1]"
  by (simp_all add: duo_def node_fun addrs_def myself_def)

lemma duo_roles:
  "bit (cn_flags (duo_node 1)) i \<longleftrightarrow> i = 0" "bit (cn_flags (duo_node 2)) i \<longleftrightarrow> i = 1"
  "cn_slaveof (duo_node 1) = None" "cn_slaveof (duo_node 2) = Some 1" "cn_numslots (duo_node 1) = 1"
  by (simp_all add: duo_node_def createClusterNode_def)

lemma duo_wf: "slots_wf (duo me)"
proof -
  have e: "owned (duo_node 2) = {}"
    using bitmap_empty by (auto simp: owned_def duo_node_def createClusterNode_def)
  have "bitmapTestBit (bitmapSetBit (replicate (CLUSTER_SLOTS div 8) 0) 5) j \<longleftrightarrow> j = 5" if "j < CLUSTER_SLOTS" for j
    using bitmap_empty [OF that] bitmapTestBit_set [of 5 "replicate (CLUSTER_SLOTS div 8) 0" j] by simp
  then have o: "owned (duo_node 1) = {5}" by (auto simp: owned_def duo_node_def)
  have s: "{j. j < CLUSTER_SLOTS \<and> (replicate CLUSTER_SLOTS None)[5 := Some 1] ! j = Some a} = (if a = 1 then {5} else {})"
    for a :: nat by (auto simp: nth_list_update split: if_splits)
  show ?thesis
    using e o s by (auto simp: slots_wf_def node_slots_wf_def duo_fields duo_node_def createClusterNode_def nth_list_update
        split: if_splits)
qed

theorem clusterFailoverReplaceYourMaster_spec_witness:
  "\<exists>cs'. clusterFailoverReplaceYourMaster demo_env (duo 2) = Some cs' \<and> cs_slots cs' ! 5 = Some 2"
proof -
  have "\<exists>cs'. clusterFailoverReplaceYourMaster demo_env (duo 2) = Some cs' \<and> slots_wf cs' \<and>
      nodeIsMaster (myself cs') \<and> \<not> nodeIsSlave (myself cs') \<and>
      cs_slots cs' = map (heir 1 (cs_myself (duo 2))) (cs_slots (duo 2))"
    by (rule clusterFailoverReplaceYourMaster_spec [OF duo_wf])
      (simp_all add: duo_fields duo_roles nodeIsMaster_def)
  then obtain cs' where c: "clusterFailoverReplaceYourMaster demo_env (duo 2) = Some cs'"
    "cs_slots cs' = map (heir 1 2) ((replicate CLUSTER_SLOTS None)[5 := Some 1])" by (auto simp: duo_fields)
  have "cs_slots cs' ! 5 = Some 2" unfolding c(2) by (simp add: heir_def)
  then show ?thesis using c(1) by blast
qed

theorem clusterUpdateSlotsConfigWith_spec_witness:
  "\<exists>cs'. clusterUpdateSlotsConfigWith demo_env 2 1 (bitmapSetBit (replicate 2048 0) 5) (duo 1) = Some cs' \<and>
     cs_slots (duo 1) ! 5 = Some 1 \<and> cs_slots cs' ! 5 = Some 2"
proof -
  have "bit (bitmapSetBit (replicate 2048 0) 5 ! 0) 5"
    using bitmapTestBit_set [of 5 "replicate 2048 0" 5] by (simp add: bitmapTestBit_bit)
  moreover have "cs_importing_slots_from (duo 1) ! 5 = None" "cn_configEpoch (duo_node 1) = 0"
    by (simp_all add: duo_def demo_cluster_def clusterInit_def duo_node_def createClusterNode_def)
  ultimately show ?thesis
    using clusterUpdateSlotsConfigWith_spec [of "duo 1" 2 demo_env 1 "bitmapSetBit (replicate 2048 0) 5"] duo_wf [of 1]
    by (auto simp: duo_fields duo_roles nodeIsMaster_def simp del: One_nat_def dest!: spec [of _ 5])
qed

text \<open>A master that was down long enough ago sees a majority, itself, and comes back.\<close>

theorem clusterUpdateState_spec_witness:
  "cs_state ((duo 1)\<lparr>cs_first_call_time := 1\<rparr>) = CLUSTER_FAIL \<and>
   cs_state (clusterUpdateState (demo_env\<lparr>ev_full_coverage := False\<rparr>) ((duo 1)\<lparr>cs_first_call_time := 1\<rparr>)) = CLUSTER_OK"
proof -
  let ?cs = "(duo 1)\<lparr>cs_first_call_time := 1\<rparr>"
  have f: "node ?cs = duo_node" "addrs ?cs = {1, 2}" "myself ?cs = duo_node 1" "distinct (map snd (cs_nodes ?cs))"
    "cs_state ?cs = CLUSTER_FAIL" "cs_among_minority_time ?cs = 0" "cs_first_call_time ?cs = 1"
    by (simp_all add: duo_def node_fun addrs_def myself_def demo_cluster_def clusterInit_def)
  have m: "{a \<in> {1, 2 :: nat}. nodeIsMaster (duo_node a) \<and> cn_numslots (duo_node a) \<noteq> 0} = {1}"
    "{a \<in> {1, 2 :: nat}. nodeIsMaster (duo_node a) \<and> cn_numslots (duo_node a) \<noteq> 0 \<and>
      \<not> bit (cn_flags (duo_node a)) 3 \<and> \<not> bit (cn_flags (duo_node a)) 2} = {1}"
    by (auto simp: nodeIsMaster_def duo_roles simp del: One_nat_def)
  show ?thesis
    using clusterUpdateState_spec [OF f(4), of "demo_env\<lparr>ev_full_coverage := False\<rparr>"]
    unfolding f m by (simp add: demo_env_def f(5))
qed

end
