(* ===== verification/Cluster_Election.thy ===== *)
theory Cluster_Election
  imports Cluster_Config
begin

text \<open>
  Failover elections of \<^verbatim>\<open>src/redis-3.0.3/src/cluster.c\<close>: the vote of a master
  (\<open>clusterSendFailoverAuthIfNeeded\<close>), the election a slave runs (\<open>clusterHandleSlaveFailover\<close>), the parts of
  \<open>clusterProcessPacket\<close> that carry epochs and votes, and a system of nodes that exchange these messages.
\<close>

section \<open>Messages\<close>

definition header_master :: "clusterState \<Rightarrow> clusterNode" where
  "header_master cs = (case (nodeIsSlave (myself cs), cn_slaveof (myself cs)) of
     (True, Some m) \<Rightarrow> node cs m | _ \<Rightarrow> myself cs)"

definition clusterBuildMessageHdr :: "env \<Rightarrow> clusterState \<Rightarrow> clusterMsg" where
  "clusterBuildMessageHdr ev cs =
    \<lparr>m_currentEpoch = cs_currentEpoch cs, m_configEpoch = cn_configEpoch (header_master cs),
     m_myslots = cn_slots (header_master cs), m_forceack = False,
     m_paused = (nodeIsMaster (myself cs) \<and> cs_mf_end cs \<noteq> 0),
     m_offset = (if nodeIsSlave (myself cs) then ev_slave_offset ev else ev_master_offset ev)\<rparr>"

definition clusterRequestFailoverAuth :: "env \<Rightarrow> clusterState \<Rightarrow> clusterState" where
  "clusterRequestFailoverAuth ev cs =
    (let hdr = clusterBuildMessageHdr ev cs;
         hdr = (if cs_mf_end cs \<noteq> 0 then hdr\<lparr>m_forceack := True\<rparr> else hdr)
     in emit (RequestAuth hdr) cs)"

definition clusterSendFailoverAuth :: "env \<Rightarrow> nat \<Rightarrow> clusterState \<Rightarrow> clusterState" where
  "clusterSendFailoverAuth ev n cs =
    (if \<not> cn_link (node cs n) then cs else emit (SendAuthAck n (clusterBuildMessageHdr ev cs)) cs)"

section \<open>The vote of a master\<close>

text \<open>The loop over the claimed slots finds no slot owned with a greater configuration epoch.\<close>

definition claims_current :: "u8 list \<Rightarrow> u64 \<Rightarrow> clusterState \<Rightarrow> bool" where
  "claims_current claimed requestConfigEpoch cs \<longleftrightarrow>
    list_all (\<lambda>j. \<not> bitmapTestBit claimed j \<or>
        (case cs_slots cs ! j of None \<Rightarrow> True | Some a \<Rightarrow> cn_configEpoch (node cs a) \<le> requestConfigEpoch))
      [0..<CLUSTER_SLOTS]"

definition clusterSendFailoverAuthIfNeeded :: "env \<Rightarrow> nat \<Rightarrow> clusterMsg \<Rightarrow> clusterState \<Rightarrow> clusterState" where
  "clusterSendFailoverAuthIfNeeded ev n request cs =
    (if nodeIsSlave (myself cs) \<or> cn_numslots (myself cs) = 0 then cs
     else if m_currentEpoch request < cs_currentEpoch cs then cs
     else if cs_lastVoteEpoch cs = cs_currentEpoch cs then cs
     else if nodeIsMaster (node cs n) then cs
     else case cn_slaveof (node cs n) of
       None \<Rightarrow> cs
     | Some master \<Rightarrow>
         if \<not> nodeFailed (node cs master) \<and> \<not> m_forceack request then cs
         else if ev_now ev - cn_voted_time (node cs master) < ev_node_timeout ev * 2 then cs
         else if \<not> claims_current (m_myslots request) (m_configEpoch request) cs then cs
         else
           let cs = clusterSendFailoverAuth ev n cs;
               cs = cs\<lparr>cs_lastVoteEpoch := cs_currentEpoch cs\<rparr>
           in upd_node master (\<lambda>m. m\<lparr>cn_voted_time := ev_now ev\<rparr>) cs)"

section \<open>The election of a slave\<close>

definition clusterGetSlaveRank :: "env \<Rightarrow> clusterState \<Rightarrow> int option" where
  "clusterGetSlaveRank ev cs =
    (if \<not> nodeIsSlave (myself cs) then None
     else case cn_slaveof (myself cs) of
       None \<Rightarrow> Some 0
     | Some master \<Rightarrow> Some (int (length (filter
         (\<lambda>s. s \<noteq> cs_myself cs \<and> cn_repl_offset (node cs s) > ev_slave_offset ev) (cn_slaves (node cs master))))))"

definition clusterLogCantFailover :: "failover_reason \<Rightarrow> clusterState \<Rightarrow> clusterState" where
  "clusterLogCantFailover reason cs = cs\<lparr>cs_cant_failover_reason := reason\<rparr>"

definition failover_wanted :: "bool \<Rightarrow> clusterState \<Rightarrow> bool" where
  "failover_wanted manual cs \<longleftrightarrow> \<not> nodeIsMaster (myself cs) \<and>
    (case cn_slaveof (myself cs) of
       None \<Rightarrow> False
     | Some m \<Rightarrow> (nodeFailed (node cs m) \<or> manual) \<and> cn_numslots (node cs m) \<noteq> 0)"

definition data_too_old :: "env \<Rightarrow> bool" where
  "data_too_old ev =
    (let age = (ev_unixtime ev - (if ev_repl_connected ev then ev_lastinteraction ev else ev_repl_down_since ev)) * 1000;
         age = (if age > ev_node_timeout ev then age - ev_node_timeout ev else age)
     in ev_slave_validity_factor ev \<noteq> 0 \<and>
        age > ev_repl_ping_slave_period ev * 1000 + ev_node_timeout ev * ev_slave_validity_factor ev)"

definition schedule_election :: "env \<Rightarrow> clusterState \<Rightarrow> clusterState option" where
  "schedule_election ev cs = do {
     rank \<leftarrow> clusterGetSlaveRank ev cs;
     let cs = cs\<lparr>cs_failover_auth_time := ev_now ev + 500 + ev_random ev mod 500 + rank * 1000,
                 cs_failover_auth_count := 0, cs_failover_auth_sent := False, cs_failover_auth_rank := rank\<rparr>;
     let cs = (if cs_mf_end cs \<noteq> 0
               then cs\<lparr>cs_failover_auth_time := ev_now ev, cs_failover_auth_rank := 0\<rparr> else cs);
     Some (emit (BroadcastPong LocalSlaves) cs) }"

definition update_rank :: "env \<Rightarrow> clusterState \<Rightarrow> clusterState option" where
  "update_rank ev cs =
    (if \<not> cs_failover_auth_sent cs \<and> cs_mf_end cs = 0 then do {
       newrank \<leftarrow> clusterGetSlaveRank ev cs;
       Some (if newrank > cs_failover_auth_rank cs
             then cs\<lparr>cs_failover_auth_time := cs_failover_auth_time cs + (newrank - cs_failover_auth_rank cs) * 1000,
                     cs_failover_auth_rank := newrank\<rparr>
             else cs) }
     else Some cs)"

definition ask_votes :: "env \<Rightarrow> clusterState \<Rightarrow> clusterState" where
  "ask_votes ev cs =
    (let cs = cs\<lparr>cs_currentEpoch := cs_currentEpoch cs + 1\<rparr>;
         cs = cs\<lparr>cs_failover_auth_epoch := cs_currentEpoch cs\<rparr>;
         cs = clusterRequestFailoverAuth ev cs;
         cs = cs\<lparr>cs_failover_auth_sent := True\<rparr>
     in clusterDoBeforeSleep (TODO_SAVE_CONFIG OR TODO_UPDATE_STATE OR TODO_FSYNC_CONFIG) cs)"

definition win_election :: "env \<Rightarrow> clusterState \<Rightarrow> clusterState option" where
  "win_election ev cs =
    (let cs = (if cn_configEpoch (myself cs) < cs_failover_auth_epoch cs
               then upd_node (cs_myself cs) (\<lambda>m. m\<lparr>cn_configEpoch := cs_failover_auth_epoch cs\<rparr>) cs else cs)
     in clusterFailoverReplaceYourMaster ev cs)"

definition clusterHandleSlaveFailover :: "env \<Rightarrow> clusterState \<Rightarrow> clusterState option" where
  "clusterHandleSlaveFailover ev cs =
    (let auth_age = ev_now ev - cs_failover_auth_time cs;
         needed_quorum = cs_size cs div 2 + 1;
         manual_failover = (cs_mf_end cs \<noteq> 0 \<and> cs_mf_can_start cs);
         cs = cs\<lparr>cs_todo := cs_todo cs AND NOT TODO_HANDLE_FAILOVER\<rparr>;
         auth_timeout = ev_node_timeout ev * 2;
         auth_timeout = (if auth_timeout < 2000 then 2000 else auth_timeout);
         auth_retry_time = auth_timeout * 2 in
     if \<not> failover_wanted manual_failover cs then Some (cs\<lparr>cs_cant_failover_reason := NoReason\<rparr>)
     else if data_too_old ev \<and> \<not> manual_failover then Some (clusterLogCantFailover DataAge cs)
     else if auth_age > auth_retry_time then schedule_election ev cs
     else do {
       cs \<leftarrow> update_rank ev cs;
       if ev_now ev < cs_failover_auth_time cs then Some (clusterLogCantFailover WaitingDelay cs)
       else if auth_age > auth_timeout then Some (clusterLogCantFailover Expired cs)
       else if \<not> cs_failover_auth_sent cs then Some (ask_votes ev cs)
       else if cs_failover_auth_count cs \<ge> needed_quorum then win_election ev cs
       else Some (clusterLogCantFailover WaitingVotes cs) })"

section \<open>Packets\<close>

text \<open>What \<open>clusterProcessPacket\<close> does first with a packet of a known node that is not in handshake, and with
  a vote.\<close>

definition note_sender :: "env \<Rightarrow> nat \<Rightarrow> clusterMsg \<Rightarrow> clusterState \<Rightarrow> clusterState" where
  "note_sender ev sender hdr cs =
    (let cs = (if m_currentEpoch hdr > cs_currentEpoch cs then cs\<lparr>cs_currentEpoch := m_currentEpoch hdr\<rparr> else cs);
         cs = (if m_configEpoch hdr > cn_configEpoch (node cs sender)
               then clusterDoBeforeSleep (TODO_SAVE_CONFIG OR TODO_FSYNC_CONFIG)
                      (upd_node sender (\<lambda>m. m\<lparr>cn_configEpoch := m_configEpoch hdr\<rparr>) cs)
               else cs);
         cs = upd_node sender (\<lambda>m. m\<lparr>cn_repl_offset := m_offset hdr, cn_repl_offset_time := ev_now ev\<rparr>) cs
     in if cs_mf_end cs \<noteq> 0 \<and> nodeIsSlave (myself cs) \<and> cn_slaveof (myself cs) = Some sender \<and> m_paused hdr \<and>
           cs_mf_master_offset cs = 0
        then cs\<lparr>cs_mf_master_offset := cn_repl_offset (node cs sender)\<rparr> else cs)"

definition count_ack :: "nat \<Rightarrow> clusterMsg \<Rightarrow> clusterState \<Rightarrow> clusterState" where
  "count_ack sender hdr cs =
    (if nodeIsMaster (node cs sender) \<and> cn_numslots (node cs sender) > 0 \<and>
        m_currentEpoch hdr \<ge> cs_failover_auth_epoch cs
     then clusterDoBeforeSleep TODO_HANDLE_FAILOVER
            (cs\<lparr>cs_failover_auth_count := cs_failover_auth_count cs + 1\<rparr>)
     else cs)"

section \<open>What a handler does to the election\<close>

fun vote_of :: "effect \<Rightarrow> (nat \<times> u64) option" where
  "vote_of (SendAuthAck n h) = Some (n, m_currentEpoch h)"
| "vote_of _ = None"

fun request_of :: "effect \<Rightarrow> u64 option" where
  "request_of (RequestAuth h) = Some (m_currentEpoch h)"
| "request_of _ = None"

text \<open>The votes a node has granted, with their epochs, and the epochs it asked votes for.\<close>

definition votes :: "clusterState \<Rightarrow> (nat \<times> u64) list" where
  "votes cs = List.map_filter vote_of (cs_effects cs)"

definition asked :: "clusterState \<Rightarrow> u64 list" where
  "asked cs = List.map_filter request_of (cs_effects cs)"

record election_view =
  e_current :: u64
  e_lastVote :: u64
  e_count :: int
  e_sent :: bool
  e_epoch :: u64
  e_votes :: "(nat \<times> u64) list"
  e_asked :: "u64 list"

definition view :: "clusterState \<Rightarrow> election_view" where
  "view cs = \<lparr>e_current = cs_currentEpoch cs, e_lastVote = cs_lastVoteEpoch cs, e_count = cs_failover_auth_count cs,
    e_sent = cs_failover_auth_sent cs, e_epoch = cs_failover_auth_epoch cs, e_votes = votes cs, e_asked = asked cs\<rparr>"

lemma map_filter_snoc: "List.map_filter f (xs @ [x]) = List.map_filter f xs @ (case f x of None \<Rightarrow> [] | Some y \<Rightarrow> [y])"
  by (induction xs) (auto simp: List.map_filter_def split: option.splits)

lemma view_emit: "view (emit e cs) = (view cs)\<lparr>
    e_votes := votes cs @ (case vote_of e of None \<Rightarrow> [] | Some v \<Rightarrow> [v]),
    e_asked := asked cs @ (case request_of e of None \<Rightarrow> [] | Some v \<Rightarrow> [v])\<rparr>"
  by (simp add: view_def emit_def votes_def asked_def map_filter_snoc)

lemma view_quiet [simp]: "vote_of e = None \<Longrightarrow> request_of e = None \<Longrightarrow> view (emit e cs) = view cs"
  by (simp add: view_emit) (simp add: view_def)

lemma view_same [simp]:
  "view (upd_node a f cs) = view cs" "view (clusterDoBeforeSleep fl cs) = view cs"
  "view (clusterLogCantFailover r cs) = view cs" "view (cs\<lparr>cs_todo := w\<rparr>) = view cs"
  "view (cs\<lparr>cs_cant_failover_reason := r\<rparr>) = view cs" "view (cs\<lparr>cs_failover_auth_time := t\<rparr>) = view cs"
  "view (cs\<lparr>cs_failover_auth_rank := t\<rparr>) = view cs"
  by (simp_all add: view_def upd_node_def clusterDoBeforeSleep_def clusterLogCantFailover_def votes_def asked_def)

lemma view_slotless: assumes "slotless cs = slotless cs'" shows "view cs = view cs'"
proof -
  have "view cs = view (slotless cs)" for cs by (simp add: view_def slotless_def votes_def asked_def)
  then show ?thesis using assms by metis
qed

lemma slotless_del_slot: "del_slot j cs = Some cs' \<Longrightarrow> slotless cs' = slotless cs"
  by (auto simp: del_slot_def clusterDelSlot_def clusterNodeClearSlotBit_def Let_def slotless_upd split: option.splits if_splits)

lemma slotless_add_slot: "slotless (snd (clusterAddSlot n j cs)) = slotless cs"
  by (simp add: clusterAddSlot_def clusterNodeSetSlotBit_def Let_def slotless_upd)

lemma slotless_take_slot: "take_slot n j cs = Some cs' \<Longrightarrow> slotless cs' = slotless cs"
  by (auto simp: take_slot_def bind_eq_Some_conv slotless_add_slot dest: slotless_del_slot)

lemma slotless_claim: "foldM (claim_slot old me) js cs = Some cs' \<Longrightarrow> slotless cs' = slotless cs"
  by (rule foldM_frame) (auto simp: claim_slot_def slotless_take_slot split: if_splits)

lemma view_SetNodeAsMaster [simp]: "view (clusterSetNodeAsMaster n cs) = view cs"
  by (simp add: clusterSetNodeAsMaster_def Let_def remove_from_master_def clusterNodeRemoveSlave_def split: option.splits)

lemma view_resetManualFailover [simp]: "view (resetManualFailover ev cs) = view cs"
proof -
  have "view (c\<lparr>cs_mf_end := a, cs_mf_can_start := b, cs_mf_slave := d, cs_mf_master_offset := e\<rparr>) = view c" for c a b d e
    by (simp add: view_def votes_def asked_def)
  then show ?thesis by (simp add: resetManualFailover_def Let_def)
qed

lemma view_clusterUpdateState [simp]: "view (clusterUpdateState ev cs) = view cs"
  by (simp add: clusterUpdateState_def update_state_decide_def Let_def view_def votes_def asked_def)

lemma view_replace:
  assumes "clusterFailoverReplaceYourMaster ev cs = Some cs'" shows "view cs' = view cs"
proof -
  have "view c' = view c" if "foldM (claim_slot old me) js c = Some c'" for old me js c c'
    using that slotless_claim view_slotless by metis
  then show ?thesis using assms
    by (fastforce simp: clusterFailoverReplaceYourMaster_def bind_eq_Some_conv Let_def split: option.splits if_splits)
qed

end
