(* ===== verification/Cluster_Safety.thy ===== *)
theory Cluster_Safety
  imports Cluster_Election
begin

text \<open>
  A system of cluster nodes that run the election handlers of theory \<open>Cluster_Election\<close> and exchange their
  messages: at most one slave wins an election in any epoch, as long as votes that outlive their
  election are dropped; the program does not drop them.
\<close>

section \<open>The handlers as transitions of the election view\<close>

lemma view_sel [simp]:
  "e_current (view cs) = cs_currentEpoch cs" "e_lastVote (view cs) = cs_lastVoteEpoch cs"
  "e_count (view cs) = cs_failover_auth_count cs" "e_sent (view cs) = cs_failover_auth_sent cs"
  "e_epoch (view cs) = cs_failover_auth_epoch cs" "e_votes (view cs) = votes cs" "e_asked (view cs) = asked cs"
  by (simp_all add: view_def)

lemma view_upd [simp]:
  "view (cs\<lparr>cs_failover_auth_count := x\<rparr>) = (view cs)\<lparr>e_count := x\<rparr>"
  "view (cs\<lparr>cs_failover_auth_sent := b\<rparr>) = (view cs)\<lparr>e_sent := b\<rparr>"
  "view (cs\<lparr>cs_failover_auth_epoch := w\<rparr>) = (view cs)\<lparr>e_epoch := w\<rparr>"
  "view (cs\<lparr>cs_currentEpoch := w\<rparr>) = (view cs)\<lparr>e_current := w\<rparr>"
  "view (cs\<lparr>cs_lastVoteEpoch := w\<rparr>) = (view cs)\<lparr>e_lastVote := w\<rparr>"
  "view (cs\<lparr>cs_mf_master_offset := x\<rparr>) = view cs"
  by (simp_all add: view_def votes_def asked_def)

lemma history_upd [simp]:
  "votes (cs\<lparr>cs_failover_auth_epoch := w\<rparr>) = votes cs" "asked (cs\<lparr>cs_failover_auth_epoch := w\<rparr>) = asked cs"
  "votes (cs\<lparr>cs_currentEpoch := w\<rparr>) = votes cs" "asked (cs\<lparr>cs_currentEpoch := w\<rparr>) = asked cs"
  by (simp_all add: votes_def asked_def)

lemma myself_upd [simp]:
  "myself (cs\<lparr>cs_failover_auth_count := x\<rparr>) = myself cs" "myself (cs\<lparr>cs_failover_auth_sent := b\<rparr>) = myself cs"
  "myself (cs\<lparr>cs_failover_auth_epoch := w\<rparr>) = myself cs" "myself (cs\<lparr>cs_currentEpoch := w\<rparr>) = myself cs"
  "myself (cs\<lparr>cs_failover_auth_time := x\<rparr>) = myself cs" "myself (cs\<lparr>cs_failover_auth_rank := x\<rparr>) = myself cs"
  "myself (cs\<lparr>cs_cant_failover_reason := r\<rparr>) = myself cs"
  by (simp_all add: myself_def node_fun)

lemma view_current_id: "(view cs)\<lparr>e_current := cs_currentEpoch cs\<rparr> = view cs"
  by (simp add: view_def)

lemma view_history_id [simp]: "(view cs)\<lparr>e_asked := asked cs\<rparr> = view cs" "(view cs)\<lparr>e_votes := votes cs\<rparr> = view cs"
  by (simp_all add: view_def)

lemma view_emit_one [simp]:
  "view (emit (RequestAuth h) cs) = (view cs)\<lparr>e_asked := asked cs @ [m_currentEpoch h]\<rparr>"
  "view (emit (SendAuthAck n h) cs) = (view cs)\<lparr>e_votes := votes cs @ [(n, m_currentEpoch h)]\<rparr>"
  by (simp_all add: view_emit)

lemma hdr_epoch [simp]: "m_currentEpoch (clusterBuildMessageHdr ev cs) = cs_currentEpoch cs"
  by (simp add: clusterBuildMessageHdr_def)

lemma view_note_sender:
  "view (note_sender ev s h cs) = (view cs)\<lparr>e_current := max (cs_currentEpoch cs) (m_currentEpoch h)\<rparr>"
  by (simp add: note_sender_def Let_def max_def view_current_id)

lemma view_vote:
  defines "cs' \<equiv> \<lambda>ev n req cs. clusterSendFailoverAuthIfNeeded ev n req cs"
  shows "view (cs' ev n req cs) = view cs \<or>
    (cs_currentEpoch cs \<le> m_currentEpoch req \<and> cs_lastVoteEpoch cs \<noteq> cs_currentEpoch cs \<and>
     (view (cs' ev n req cs) = (view cs)\<lparr>e_lastVote := cs_currentEpoch cs\<rparr> \<or>
      view (cs' ev n req cs) = (view cs)\<lparr>e_lastVote := cs_currentEpoch cs, e_votes := votes cs @ [(n, cs_currentEpoch cs)]\<rparr>))"
proof -
  have s: "view (clusterSendFailoverAuth ev n cs) = view cs \<or>
      view (clusterSendFailoverAuth ev n cs) = (view cs)\<lparr>e_votes := votes cs @ [(n, cs_currentEpoch cs)]\<rparr>"
    by (simp add: clusterSendFailoverAuth_def)
  have c: "cs_currentEpoch (clusterSendFailoverAuth ev n cs) = cs_currentEpoch cs"
    by (simp add: clusterSendFailoverAuth_def)
  show ?thesis
  proof (cases "cs' ev n req cs = cs")
    case False
    obtain master where eq: "cs' ev n req cs = upd_node master (\<lambda>m. m\<lparr>cn_voted_time := ev_now ev\<rparr>)
        ((clusterSendFailoverAuth ev n cs)\<lparr>cs_lastVoteEpoch := cs_currentEpoch cs\<rparr>)"
      and "cs_currentEpoch cs \<le> m_currentEpoch req" "cs_lastVoteEpoch cs \<noteq> cs_currentEpoch cs"
      using False c by (auto simp: cs'_def clusterSendFailoverAuthIfNeeded_def Let_def split: if_splits option.splits)
    then show ?thesis using s by auto
  qed simp
qed

lemma view_count_ack:
  "view (count_ack v h cs) = view cs \<or>
    (nodeIsMaster (node cs v) \<and> cn_numslots (node cs v) > 0 \<and> cs_failover_auth_epoch cs \<le> m_currentEpoch h \<and>
     view (count_ack v h cs) = (view cs)\<lparr>e_count := cs_failover_auth_count cs + 1\<rparr>)"
  by (simp add: count_ack_def)

lemma view_schedule:
  assumes "schedule_election ev cs = Some cs'"
  shows "view cs' = (view cs)\<lparr>e_count := 0, e_sent := False\<rparr> \<and> myself cs' = myself cs"
  using assms by (auto simp: schedule_election_def bind_eq_Some_conv Let_def)

lemma view_update_rank:
  "update_rank ev cs = Some cs' \<Longrightarrow> view cs' = view cs \<and> myself cs' = myself cs \<and> cs_size cs' = cs_size cs"
  by (auto simp: update_rank_def bind_eq_Some_conv split: if_splits)

lemma view_ask:
  "view (ask_votes ev cs) = (view cs)\<lparr>e_current := cs_currentEpoch cs + 1, e_epoch := cs_currentEpoch cs + 1,
     e_sent := True, e_asked := asked cs @ [cs_currentEpoch cs + 1]\<rparr>"
  by (cases "view cs") (simp add: ask_votes_def clusterRequestFailoverAuth_def Let_def)

lemma myself_ask: "nodeIsMaster (myself (ask_votes ev cs)) = nodeIsMaster (myself cs)"
  by (simp add: ask_votes_def clusterRequestFailoverAuth_def Let_def)

definition won :: "clusterState \<Rightarrow> clusterState \<Rightarrow> bool" where
  "won cs cs' \<longleftrightarrow> \<not> nodeIsMaster (myself cs) \<and> nodeIsMaster (myself cs')"

lemma view_tick:
  assumes "clusterHandleSlaveFailover ev cs = Some cs'"
  shows "(view cs' = view cs \<and> (won cs cs' \<longrightarrow> cs_failover_auth_sent cs \<and> cs_size cs div 2 + 1 \<le> cs_failover_auth_count cs)) \<or>
    (\<not> won cs cs' \<and> view cs' = (view cs)\<lparr>e_count := 0, e_sent := False\<rparr>) \<or>
    (\<not> won cs cs' \<and> \<not> cs_failover_auth_sent cs \<and>
     view cs' = (view cs)\<lparr>e_current := cs_currentEpoch cs + 1, e_epoch := cs_currentEpoch cs + 1, e_sent := True,
       e_asked := asked cs @ [cs_currentEpoch cs + 1]\<rparr>)"
proof -
  define c0 where "c0 = cs\<lparr>cs_todo := cs_todo cs AND NOT TODO_HANDLE_FAILOVER\<rparr>"
  have c0: "view c0 = view cs" "myself c0 = myself cs" by (simp_all add: c0_def)
  define manual where "manual = (cs_mf_end cs \<noteq> 0 \<and> cs_mf_can_start cs)"
  define age where "age = ev_now ev - cs_failover_auth_time cs"
  define tmo where "tmo = (if ev_node_timeout ev * 2 < 2000 then 2000 else ev_node_timeout ev * 2)"
  have eq: "clusterHandleSlaveFailover ev cs =
     (if \<not> failover_wanted manual c0 then Some (c0\<lparr>cs_cant_failover_reason := NoReason\<rparr>)
      else if data_too_old ev \<and> \<not> manual then Some (clusterLogCantFailover DataAge c0)
      else if age > tmo * 2 then schedule_election ev c0
      else do {
        c \<leftarrow> update_rank ev c0;
        if ev_now ev < cs_failover_auth_time c then Some (clusterLogCantFailover WaitingDelay c)
        else if age > tmo then Some (clusterLogCantFailover Expired c)
        else if \<not> cs_failover_auth_sent c then Some (ask_votes ev c)
        else if cs_failover_auth_count c \<ge> cs_size cs div 2 + 1 then win_election ev c
        else Some (clusterLogCantFailover WaitingVotes c) })"
    unfolding clusterHandleSlaveFailover_def Let_def c0_def manual_def age_def tmo_def ..
  have log: "view (clusterLogCantFailover r c) = view c" "myself (clusterLogCantFailover r c) = myself c" for r c
    by (simp_all add: clusterLogCantFailover_def)
  consider "view cs' = view cs" "myself cs' = myself cs"
    | "schedule_election ev c0 = Some cs'"
    | c where "update_rank ev c0 = Some c" "\<not> cs_failover_auth_sent c" "cs' = ask_votes ev c"
    | c where "update_rank ev c0 = Some c" "cs_failover_auth_sent c" "cs_failover_auth_count c \<ge> cs_size cs div 2 + 1"
        "win_election ev c = Some cs'"
  proof (cases "failover_wanted manual c0 \<and> \<not> (data_too_old ev \<and> \<not> manual) \<and> \<not> age > tmo * 2")
    case False
    then show thesis using assms eq c0 log that(1,2) by (auto split: if_splits)
  next
    case True
    then obtain c where c: "update_rank ev c0 = Some c" and rest:
      "(if ev_now ev < cs_failover_auth_time c then Some (clusterLogCantFailover WaitingDelay c)
        else if age > tmo then Some (clusterLogCantFailover Expired c)
        else if \<not> cs_failover_auth_sent c then Some (ask_votes ev c)
        else if cs_failover_auth_count c \<ge> cs_size cs div 2 + 1 then win_election ev c
        else Some (clusterLogCantFailover WaitingVotes c)) = Some cs'"
      using assms eq by (auto simp: bind_eq_Some_conv)
    have u: "view c = view cs" "myself c = myself cs" using view_update_rank [OF c] c0 by simp_all
    show thesis
    proof (cases "\<not> ev_now ev < cs_failover_auth_time c \<and> \<not> age > tmo \<and>
        (cs_failover_auth_sent c \<longrightarrow> cs_failover_auth_count c \<ge> cs_size cs div 2 + 1)")
      case True
      then show thesis using rest that(3) [OF c] that(4) [OF c] by (cases "cs_failover_auth_sent c") simp_all
    next
      case False
      then have "\<exists>r. cs' = clusterLogCantFailover r c" using rest by (auto split: if_splits)
      then show thesis using that(1) log u by auto
    qed
  qed
  then show ?thesis
  proof cases
    case 1
    then show ?thesis by (simp add: won_def)
  next
    case 2
    then show ?thesis using view_schedule [OF 2] c0 by (simp add: won_def)
  next
    case (3 c)
    have v: "view c = view cs" "myself c = myself cs" using view_update_rank [OF 3(1)] c0 by simp_all
    have s: "cs_failover_auth_sent c = cs_failover_auth_sent cs" "cs_currentEpoch c = cs_currentEpoch cs" "asked c = asked cs"
      using arg_cong [OF v(1), of e_sent] arg_cong [OF v(1), of e_current] arg_cong [OF v(1), of e_asked] by simp_all
    have "\<not> won cs cs'" using v(2) myself_ask [of ev c] by (auto simp: won_def 3(3))
    then show ?thesis using 3(2,3) s v(1) by (simp add: view_ask)
  next
    case (4 c)
    have v: "view c = view cs" using view_update_rank [OF 4(1)] c0 by simp
    have s: "cs_failover_auth_sent c = cs_failover_auth_sent cs" "cs_failover_auth_count c = cs_failover_auth_count cs"
      using arg_cong [OF v(1), of e_sent] arg_cong [OF v(1), of e_count] by simp_all
    have "view cs' = view c" using 4(4) view_replace by (fastforce simp: win_election_def Let_def split: if_splits)
    then show ?thesis using v s 4(2,3) by simp
  qed
qed

section \<open>The system\<close>

text \<open>Every node has its own state; node addresses are the same in all of them.  \<open>sy_net\<close> holds the votes in
  flight with voter and candidate, \<open>sy_wins\<close> the elections won so far.  Vote requests stay deliverable
  for ever, in any order and any number of times; a vote is delivered at most once.  The electorate \<open>V\<close>
  is the set of masters with slots, on which a candidate's view agrees while it counts and wins.  With
  \<open>late\<close>, votes may also be delivered to a node that has not asked for votes since it reset its count.\<close>

record system =
  sy_node :: "nat \<Rightarrow> clusterState"
  sy_net :: "(nat \<times> nat \<times> clusterMsg) multiset"
  sy_wins :: "(nat \<times> u64) list"

definition view_ok :: "nat set \<Rightarrow> clusterState \<Rightarrow> bool" where
  "view_ok V cs \<longleftrightarrow> cs_size cs = int (card V) \<and>
    (\<forall>a. nodeIsMaster (node cs a) \<and> cn_numslots (node cs a) > 0 \<longrightarrow> a \<in> V)"

fun ack_of :: "nat \<Rightarrow> effect \<Rightarrow> (nat \<times> nat \<times> clusterMsg) option" where
  "ack_of v (SendAuthAck s h) = Some (v, s, h)"
| "ack_of v _ = None"

definition new_acks :: "nat \<Rightarrow> clusterState \<Rightarrow> clusterState \<Rightarrow> (nat \<times> nat \<times> clusterMsg) multiset" where
  "new_acks v c c' = mset (List.map_filter (ack_of v) (drop (length (cs_effects c)) (cs_effects c')))"

inductive sys_step :: "nat set \<Rightarrow> bool \<Rightarrow> system \<Rightarrow> system \<Rightarrow> bool" for V late where
  request: "RequestAuth h \<in> set (cs_effects (sy_node sy s)) \<Longrightarrow>
    c = note_sender ev s h (sy_node sy v) \<Longrightarrow> c' = clusterSendFailoverAuthIfNeeded ev s h c \<Longrightarrow>
    sys_step V late sy (sy\<lparr>sy_node := (sy_node sy)(v := c'), sy_net := sy_net sy + new_acks v c c'\<rparr>)"
| ack: "(v, s, h) \<in># sy_net sy \<Longrightarrow> view_ok V (sy_node sy s) \<Longrightarrow>
    late \<or> cs_failover_auth_sent (sy_node sy s) \<Longrightarrow>
    sys_step V late sy (sy\<lparr>sy_node := (sy_node sy)(s := count_ack v h (note_sender ev v h (sy_node sy s))),
      sy_net := sy_net sy - {#(v, s, h)#}\<rparr>)"
| lose: "sys_step V late sy (sy\<lparr>sy_net := sy_net sy - M\<rparr>)"
| tick: "view_ok V (sy_node sy s) \<Longrightarrow> cs_currentEpoch (sy_node sy s) \<noteq> - 1 \<Longrightarrow>
    clusterHandleSlaveFailover ev (sy_node sy s) = Some c' \<Longrightarrow>
    sys_step V late sy (sy\<lparr>sy_node := (sy_node sy)(s := c'), sy_wins := (if won (sy_node sy s) c'
      then (s, cs_failover_auth_epoch c') # sy_wins sy else sy_wins sy)\<rparr>)"
| other: "view c' = (view (sy_node sy s))\<lparr>e_current := x\<rparr> \<Longrightarrow> cs_currentEpoch (sy_node sy s) \<le> x \<Longrightarrow>
    sys_step V late sy (sy\<lparr>sy_node := (sy_node sy)(s := c')\<rparr>)"

definition sys_init :: "system \<Rightarrow> bool" where
  "sys_init sy \<longleftrightarrow> sy_net sy = {#} \<and> sy_wins sy = [] \<and>
    (\<forall>s. votes (sy_node sy s) = [] \<and> asked (sy_node sy s) = [] \<and> cs_failover_auth_count (sy_node sy s) = 0 \<and>
      cs_lastVoteEpoch (sy_node sy s) \<le> cs_currentEpoch (sy_node sy s) \<and>
      cs_failover_auth_epoch (sy_node sy s) \<le> cs_currentEpoch (sy_node sy s))"

inductive sys_reach :: "nat set \<Rightarrow> bool \<Rightarrow> system \<Rightarrow> bool" for V late where
  init: "sys_init sy \<Longrightarrow> sys_reach V late sy"
| step: "sys_reach V late sy \<Longrightarrow> sys_step V late sy sy' \<Longrightarrow> sys_reach V late sy'"

section \<open>The invariant, over the election views\<close>

definition votes_inv :: "election_view \<Rightarrow> bool" where
  "votes_inv e \<longleftrightarrow> sorted_wrt (<) (map snd (e_votes e)) \<and> (\<forall>x \<in> snd ` set (e_votes e). x \<le> e_lastVote e) \<and>
    e_lastVote e \<le> e_current e \<and> e_epoch e \<le> e_current e \<and> (\<forall>x \<in> set (e_asked e). x \<le> e_epoch e)"

text \<open>The votes in flight, reduced to voter, candidate and epoch.\<close>

definition keys :: "(nat \<times> nat \<times> clusterMsg) multiset \<Rightarrow> (nat \<times> nat \<times> u64) multiset" where
  "keys net = image_mset (\<lambda>(v, s, h). (v, s, m_currentEpoch h)) net"

definition counted :: "nat set \<Rightarrow> (nat \<Rightarrow> election_view) \<Rightarrow> (nat \<times> nat \<times> u64) multiset \<Rightarrow> nat \<Rightarrow> bool" where
  "counted V vw K s \<longleftrightarrow> (\<exists>C. C \<subseteq> V \<and> e_count (vw s) = int (card C) \<and>
    (\<forall>v \<in> C. (s, e_epoch (vw s)) \<in> set (e_votes (vw v)) \<and> (v, s, e_epoch (vw s)) \<notin># K))"

definition inv :: "nat set \<Rightarrow> (nat \<Rightarrow> election_view) \<Rightarrow> (nat \<times> nat \<times> u64) multiset \<Rightarrow> (nat \<times> u64) list \<Rightarrow> bool" where
  "inv V vw K wins \<longleftrightarrow> (\<forall>v. votes_inv (vw v)) \<and>
    (\<forall>v s e. (v, s, e) \<in># K \<longrightarrow> (s, e) \<in> set (e_votes (vw v)) \<and> count K (v, s, e) = 1) \<and>
    (\<forall>v s e. (s, e) \<in> set (e_votes (vw v)) \<longrightarrow> e \<in> set (e_asked (vw s))) \<and>
    (\<forall>s. counted V vw K s) \<and> (\<forall>s. \<not> e_sent (vw s) \<longrightarrow> e_count (vw s) = 0) \<and>
    (\<forall>s e. (s, e) \<in> set wins \<longrightarrow>
      (\<exists>C \<subseteq> V. card V div 2 + 1 \<le> card C \<and> (\<forall>v \<in> C. (s, e) \<in> set (e_votes (vw v)))))"

lemma votes_inv_distinct: "votes_inv e \<Longrightarrow> (s, x) \<in> set (e_votes e) \<Longrightarrow> (s', x) \<in> set (e_votes e) \<Longrightarrow> s = s'"
proof -
  assume i: "votes_inv e" and m: "(s, x) \<in> set (e_votes e)" "(s', x) \<in> set (e_votes e)"
  have "sorted_wrt (<) (map snd (e_votes e))" using i by (simp add: votes_inv_def)
  then have "distinct (map snd (e_votes e))" by (simp add: strict_sorted_iff)
  then show "s = s'" using m by (metis (no_types) distinct_map inj_onD snd_conv Pair_inject)
qed

text \<open>A step that only raises the current epoch of a node.\<close>

lemma inv_raise:
  assumes "inv V vw K wins" "e_current (vw s) \<le> x"
  shows "inv V (vw(s := (vw s)\<lparr>e_current := x\<rparr>)) K wins"
proof -
  have "votes_inv ((vw s)\<lparr>e_current := x\<rparr>)"
    using assms by (auto simp: inv_def votes_inv_def intro: order_trans)
  moreover have "e_votes ((vw(s := (vw s)\<lparr>e_current := x\<rparr>)) v) = e_votes (vw v)"
    "e_asked ((vw(s := (vw s)\<lparr>e_current := x\<rparr>)) v) = e_asked (vw v)"
    "e_count ((vw(s := (vw s)\<lparr>e_current := x\<rparr>)) v) = e_count (vw v)"
    "e_sent ((vw(s := (vw s)\<lparr>e_current := x\<rparr>)) v) = e_sent (vw v)"
    "e_epoch ((vw(s := (vw s)\<lparr>e_current := x\<rparr>)) v) = e_epoch (vw v)" for v by simp_all
  ultimately show ?thesis using assms(1) unfolding inv_def counted_def by (simp only: fun_upd_apply) simp
qed

lemma counted_mono: "counted V vw K s \<Longrightarrow> (\<And>x. x \<in># K' \<Longrightarrow> x \<in># K) \<Longrightarrow> counted V vw K' s"
  unfolding counted_def by (elim exE) (rule exI, blast)

lemma invD:
  assumes "inv V vw K wins"
  shows "votes_inv (vw v)" "(v, s, e) \<in># K \<Longrightarrow> (s, e) \<in> set (e_votes (vw v))"
    "(v, s, e) \<in># K \<Longrightarrow> count K (v, s, e) = 1" "(s, e) \<in> set (e_votes (vw v)) \<Longrightarrow> e \<in> set (e_asked (vw s))"
    "counted V vw K s" "\<not> e_sent (vw s) \<Longrightarrow> e_count (vw s) = 0"
    "(s, e) \<in> set wins \<Longrightarrow> \<exists>C \<subseteq> V. card V div 2 + 1 \<le> card C \<and> (\<forall>v \<in> C. (s, e) \<in> set (e_votes (vw v)))"
  using assms unfolding inv_def by simp_all

lemma invI:
  assumes "\<And>v. votes_inv (vw v)" "\<And>v s e. (v, s, e) \<in># K \<Longrightarrow> (s, e) \<in> set (e_votes (vw v)) \<and> count K (v, s, e) = 1"
    "\<And>v s e. (s, e) \<in> set (e_votes (vw v)) \<Longrightarrow> e \<in> set (e_asked (vw s))"
    "\<And>s. counted V vw K s" "\<And>s. \<not> e_sent (vw s) \<Longrightarrow> e_count (vw s) = 0"
    "\<And>s e. (s, e) \<in> set wins \<Longrightarrow>
      \<exists>C \<subseteq> V. card V div 2 + 1 \<le> card C \<and> (\<forall>v \<in> C. (s, e) \<in> set (e_votes (vw v)))"
  shows "inv V vw K wins"
  unfolding inv_def
  by (intro conjI allI impI)
    (erule assms(2) [THEN conjunct1] assms(2) [THEN conjunct2] assms(3) assms(5) assms(6) | rule assms(1,4))+

text \<open>Changes of a node's own view that keep its votes.\<close>

lemma inv_keep:
  assumes i: "inv V vw K wins" and others: "\<And>a. e_votes (vw' a) = e_votes (vw a)"
      "\<And>a. set (e_asked (vw a)) \<subseteq> set (e_asked (vw' a))"
    and new: "\<And>a. votes_inv (vw' a)" "\<And>a. counted V vw' K a" "\<And>a. \<not> e_sent (vw' a) \<Longrightarrow> e_count (vw' a) = 0"
  shows "inv V vw' K wins"
proof (rule invI)
  show "(s, e) \<in> set (e_votes (vw' v)) \<and> count K (v, s, e) = 1" if "(v, s, e) \<in># K" for v s e
    unfolding others using invD(2,3) [OF i that] by (rule conjI)
  show "e \<in> set (e_asked (vw' s))" if "(s, e) \<in> set (e_votes (vw' v))" for v s e
    using invD(4) [OF i] that others(2) unfolding others(1) by blast
  show "\<exists>C \<subseteq> V. card V div 2 + 1 \<le> card C \<and> (\<forall>a \<in> C. (b, e) \<in> set (e_votes (vw' a)))"
    if "(b, e) \<in> set wins" for b e unfolding others using invD(7) [OF i that] .
qed (fact new)+

lemma inv_lose:
  assumes i: "inv V vw K wins" shows "inv V vw (K - M) wins"
proof (rule invI)
  fix v s e assume m: "(v, s, e) \<in># K - M"
  then have k: "(v, s, e) \<in># K" by (rule in_diffD)
  have "0 < count (K - M) (v, s, e)" using m unfolding count_greater_zero_iff .
  moreover have "count (K - M) (v, s, e) \<le> 1" using invD(3) [OF i k] by simp
  ultimately show "(s, e) \<in> set (e_votes (vw v)) \<and> count (K - M) (v, s, e) = 1" using invD(2) [OF i k] by linarith
next
  show "counted V vw (K - M) s" for s using invD(5) [OF i] by (rule counted_mono) (rule in_diffD)
qed (rule invD [OF i], assumption?)+

text \<open>A vote: its epoch is new for the voter, and the candidate asked for it.\<close>

lemma inv_vote:
  assumes i: "inv V vw K wins" and new: "e_lastVote (vw v) < x" "x = e_current (vw v)" and asked: "x \<in> set (e_asked (vw s))"
  shows "inv V (vw(v := (vw v)\<lparr>e_lastVote := x, e_votes := e_votes (vw v) @ [(s, x)]\<rparr>)) (add_mset (v, s, x) K) wins"
    (is "inv V ?vw ?K wins")
proof -
  have vi: "votes_inv (vw v)" using invD(1) [OF i] .
  have fresh: "(s', x) \<notin> set (e_votes (vw v))" for s'
    using vi new(1) unfolding votes_inv_def by (metis imageI leD snd_conv)
  have notin: "(v, s', x) \<notin># K" for s' using invD(2) [OF i] fresh by blast
  have others: "e_epoch (?vw a) = e_epoch (vw a)" "e_count (?vw a) = e_count (vw a)" "e_sent (?vw a) = e_sent (vw a)"
    "e_asked (?vw a) = e_asked (vw a)" "set (e_votes (vw a)) \<subseteq> set (e_votes (?vw a))" for a by auto
  have vset: "set (e_votes (?vw a)) = (if a = v then insert (s, x) (set (e_votes (vw a))) else set (e_votes (vw a)))" for a
    by simp
  show ?thesis
  proof (rule invI)
    show "votes_inv (?vw a)" for a
    proof (cases "a = v")
      case True
      have "\<forall>y \<in> set (map snd (e_votes (vw v))). y < x"
        using vi new(1) unfolding votes_inv_def by (metis image_set order_le_less_trans)
      then show ?thesis using vi new True by (auto simp: votes_inv_def sorted_wrt_append intro: order.strict_implies_order)
    qed (use invD(1) [OF i] in simp)
  next
    fix a b e assume "(a, b, e) \<in># ?K"
    then consider "a = v" "b = s" "e = x" | "(a, b, e) \<in># K" by auto
    then show "(b, e) \<in> set (e_votes (?vw a)) \<and> count ?K (a, b, e) = 1"
    proof cases
      case 1
      then show ?thesis using notin [of s] by (simp add: not_in_iff)
    next
      case 2
      then have "(a, b, e) \<noteq> (v, s, x)" using notin by blast
      then show ?thesis using 2 invD(2,3) [OF i 2] others(5) by auto
    qed
  next
    show "(b, e) \<in> set (e_votes (?vw a)) \<Longrightarrow> e \<in> set (e_asked (?vw b))" for a b e
      using invD(4) [OF i] asked unfolding others vset by (auto split: if_splits)
  next
    show "counted V ?vw ?K b" for b
    proof -
      obtain C where C: "C \<subseteq> V" "e_count (vw b) = int (card C)"
        "\<forall>w \<in> C. (b, e_epoch (vw b)) \<in> set (e_votes (vw w)) \<and> (w, b, e_epoch (vw b)) \<notin># K"
        using invD(5) [OF i, of b] by (auto simp: counted_def)
      have "(w, b, e_epoch (vw b)) \<notin># ?K" if "w \<in> C" for w
        using C(3) that fresh by auto
      then show ?thesis unfolding counted_def others
        by (intro exI [of _ C] conjI ballI) (use C others(5) in blast)+
    qed
  next
    show "\<not> e_sent (?vw b) \<Longrightarrow> e_count (?vw b) = 0" for b using invD(6) [OF i] unfolding others .
  next
    show "\<exists>C \<subseteq> V. card V div 2 + 1 \<le> card C \<and> (\<forall>a \<in> C. (b, e) \<in> set (e_votes (?vw a)))"
      if "(b, e) \<in> set wins" for b e
      using invD(7) [OF i that] others(5) by blast
  qed
qed

text \<open>A vote is counted: it is one for the current election.\<close>

lemma inv_count:
  assumes i: "inv V vw K wins" and m: "(v, s, x) \<in># K" "e_epoch (vw s) \<le> x" "v \<in> V" and fin: "finite V"
    and sent: "e_sent (vw s)"
  shows "inv V (vw(s := (vw s)\<lparr>e_count := e_count (vw s) + 1\<rparr>)) (K - {#(v, s, x)#}) wins"
    (is "inv V ?vw ?K wins")
proof -
  have vt: "(s, x) \<in> set (e_votes (vw v))" and one: "count K (v, s, x) = 1" using invD(2,3) [OF i m(1)] .
  have "x \<le> e_epoch (vw s)" using invD(4) [OF i vt] invD(1) [OF i, of s] by (simp add: votes_inv_def)
  then have x: "x = e_epoch (vw s)" using m(2) by simp
  have gone: "(v, s, x) \<notin># ?K" using one by (simp add: not_in_iff)
  have l: "inv V vw ?K wins" using i by (rule inv_lose)
  have others: "e_epoch (?vw a) = e_epoch (vw a)" "e_votes (?vw a) = e_votes (vw a)" "e_sent (?vw a) = e_sent (vw a)"
    "e_asked (?vw a) = e_asked (vw a)" "e_lastVote (?vw a) = e_lastVote (vw a)" "e_current (?vw a) = e_current (vw a)" for a
    by auto
  show ?thesis using l
  proof (rule inv_keep)
    show "e_votes (?vw a) = e_votes (vw a)" "set (e_asked (vw a)) \<subseteq> set (e_asked (?vw a))" for a by simp_all
    show "votes_inv (?vw a)" for a using invD(1) [OF l, of a] unfolding votes_inv_def others .
  next
    show "counted V ?vw ?K b" for b
    proof (cases "b = s")
      case True
      obtain C where C: "C \<subseteq> V" "e_count (vw s) = int (card C)"
        "\<forall>w \<in> C. (s, e_epoch (vw s)) \<in> set (e_votes (vw w)) \<and> (w, s, e_epoch (vw s)) \<notin># K"
        using invD(5) [OF i, of s] by (auto simp: counted_def)
      have "v \<notin> C" using C(3) m(1) x by blast
      moreover have "finite C" using C(1) fin by (rule finite_subset)
      ultimately have "e_count (?vw s) = int (card (insert v C))" using C(2) by simp
      moreover have "\<forall>w \<in> insert v C. (s, e_epoch (vw s)) \<in> set (e_votes (vw w)) \<and> (w, s, e_epoch (vw s)) \<notin># ?K"
        using C(3) vt gone x by (auto dest: in_diffD)
      moreover have "insert v C \<subseteq> V" using C(1) m(3) by simp
      ultimately show ?thesis unfolding True counted_def others by (intro exI [of _ "insert v C"] conjI)
    next
      case False
      then show ?thesis using invD(5) [OF l, of b] unfolding counted_def others by simp
    qed
  next
    show "\<not> e_sent (?vw b) \<Longrightarrow> e_count (?vw b) = 0" for b
      using invD(6) [OF l, of b] sent by (cases "b = s") simp_all
  qed
qed

text \<open>The count is reset.\<close>

lemma inv_reset:
  assumes i: "inv V vw K wins"
  shows "inv V (vw(s := (vw s)\<lparr>e_count := 0, e_sent := False\<rparr>)) K wins" (is "inv V ?vw K wins")
proof -
  have others: "e_epoch (?vw a) = e_epoch (vw a)" "e_votes (?vw a) = e_votes (vw a)"
    "e_asked (?vw a) = e_asked (vw a)" "e_lastVote (?vw a) = e_lastVote (vw a)" "e_current (?vw a) = e_current (vw a)" for a
    by auto
  show ?thesis using i
  proof (rule inv_keep)
    show "e_votes (?vw a) = e_votes (vw a)" "set (e_asked (vw a)) \<subseteq> set (e_asked (?vw a))" for a by simp_all
    show "votes_inv (?vw a)" for a using invD(1) [OF i, of a] unfolding votes_inv_def others .
  next
    show "counted V ?vw K b" for b
    proof (cases "b = s")
      case True
      then show ?thesis unfolding counted_def by (intro exI [of _ "{}"]) simp
    next
      case False
      then show ?thesis using invD(5) [OF i, of b] unfolding counted_def others by simp
    qed
  next
    show "\<not> e_sent (?vw b) \<Longrightarrow> e_count (?vw b) = 0" for b
      using invD(6) [OF i, of b] by (cases "b = s") simp_all
  qed
qed

text \<open>Votes are asked for in the next epoch.\<close>

lemma inv_ask:
  assumes i: "inv V vw K wins" and "\<not> e_sent (vw s)" and x: "e_current (vw s) < x"
  shows "inv V (vw(s := (vw s)\<lparr>e_current := x, e_epoch := x, e_sent := True, e_asked := e_asked (vw s) @ [x]\<rparr>)) K wins"
    (is "inv V ?vw K wins")
proof -
  have zero: "e_count (vw s) = 0" using invD(6) [OF i assms(2)] .
  have others: "e_votes (?vw a) = e_votes (vw a)" "e_count (?vw a) = e_count (vw a)"
    "set (e_asked (vw a)) \<subseteq> set (e_asked (?vw a))" for a
    by auto
  have vi: "votes_inv (vw s)" using invD(1) [OF i] .
  show ?thesis using i
  proof (rule inv_keep)
    show "e_votes (?vw a) = e_votes (vw a)" "set (e_asked (vw a)) \<subseteq> set (e_asked (?vw a))" for a by auto
    show "votes_inv (?vw a)" for a
    proof (cases "a = s")
      case True
      have "e_lastVote (vw s) \<le> x" "\<forall>y \<in> set (e_asked (vw s)). y \<le> x"
        using vi x unfolding votes_inv_def by (meson order_trans order.strict_implies_order)+
      then show ?thesis using vi True by (simp add: votes_inv_def ball_Un)
    qed (use invD(1) [OF i] in simp)
  next
    show "counted V ?vw K b" for b
    proof (cases "b = s")
      case True
      then show ?thesis using zero unfolding counted_def by (intro exI [of _ "{}"]) simp
    next
      case False
      then show ?thesis using invD(5) [OF i, of b] unfolding counted_def others by simp
    qed
  next
    show "\<not> e_sent (?vw b) \<Longrightarrow> e_count (?vw b) = 0" for b
      using invD(6) [OF i, of b] by (cases "b = s") simp_all
  qed
qed

lemma inv_win:
  assumes i: "inv V vw K wins" and q: "int (card V) div 2 + 1 \<le> e_count (vw s)"
  shows "inv V vw K ((s, e_epoch (vw s)) # wins)"
proof -
  obtain C where C: "C \<subseteq> V" "e_count (vw s) = int (card C)"
    "\<forall>w \<in> C. (s, e_epoch (vw s)) \<in> set (e_votes (vw w)) \<and> (w, s, e_epoch (vw s)) \<notin># K"
    using invD(5) [OF i, of s] by (auto simp: counted_def)
  have "card V div 2 + 1 \<le> card C" using q C(2) by linarith
  then have w: "\<exists>C \<subseteq> V. card V div 2 + 1 \<le> card C \<and> (\<forall>v \<in> C. (s, e_epoch (vw s)) \<in> set (e_votes (vw v)))"
    using C by blast
  show ?thesis
  proof (rule invI)
    fix b e assume "(b, e) \<in> set ((s, e_epoch (vw s)) # wins)"
    then show "\<exists>C \<subseteq> V. card V div 2 + 1 \<le> card C \<and> (\<forall>a \<in> C. (b, e) \<in> set (e_votes (vw a)))"
      using w invD(7) [OF i] by auto
  next
    show "(v, s, e) \<in># K \<Longrightarrow> (s, e) \<in> set (e_votes (vw v)) \<and> count K (v, s, e) = 1" for v s e
      using invD(2,3) [OF i] by blast
  qed (rule invD [OF i], assumption?)+
qed

section \<open>Every step keeps the invariant\<close>

abbreviation views :: "system \<Rightarrow> nat \<Rightarrow> election_view" where
  "views sy \<equiv> \<lambda>s. view (sy_node sy s)"

definition sys_inv :: "nat set \<Rightarrow> system \<Rightarrow> bool" where
  "sys_inv V sy \<longleftrightarrow> inv V (views sy) (keys (sy_net sy)) (sy_wins sy)"

lemma views_upd: "(\<lambda>s. view (if s = a then c else sy_node sy s)) = (views sy)(a := view c)"
  by auto

lemma votes_eq: "view c' = x \<Longrightarrow> votes c' = e_votes x"
  by auto

lemma inv_raise_max:
  "inv V vw K wins \<Longrightarrow> inv V (vw(s := (vw s)\<lparr>e_current := max (e_current (vw s)) x\<rparr>)) K wins"
  by (rule inv_raise) simp_all

text \<open>A vote that could not be sent.\<close>

lemma inv_lastVote:
  assumes i: "inv V vw K wins"
  shows "inv V (vw(v := (vw v)\<lparr>e_lastVote := e_current (vw v)\<rparr>)) K wins" (is "inv V ?vw K wins")
  using i
proof (rule inv_keep)
  show "votes_inv (?vw a)" for a
    using invD(1) [OF i, of a] by (cases "a = v") (auto simp: votes_inv_def intro: order_trans)
  have same: "e_votes (?vw a) = e_votes (vw a)" "e_count (?vw a) = e_count (vw a)" "e_epoch (?vw a) = e_epoch (vw a)" for a
    by simp_all
  show "counted V ?vw K a" for a using invD(5) [OF i, of a] unfolding counted_def same .
qed (use invD(6) [OF i] in \<open>auto split: if_splits\<close>)

text \<open>The votes a handler puts on the net are those it appended to its history.\<close>

lemma new_acks_vote:
  "new_acks v c (clusterSendFailoverAuthIfNeeded ev n req c) = {#} \<and>
     votes (clusterSendFailoverAuthIfNeeded ev n req c) = votes c \<or>
   keys (new_acks v c (clusterSendFailoverAuthIfNeeded ev n req c)) = {#(v, n, cs_currentEpoch c)#} \<and>
     votes (clusterSendFailoverAuthIfNeeded ev n req c) = votes c @ [(n, cs_currentEpoch c)]"
proof -
  have "cs_effects (clusterSendFailoverAuthIfNeeded ev n req c) = cs_effects c \<or>
      cs_effects (clusterSendFailoverAuthIfNeeded ev n req c) =
        cs_effects c @ [SendAuthAck n (clusterBuildMessageHdr ev c)]"
    by (auto simp: clusterSendFailoverAuthIfNeeded_def clusterSendFailoverAuth_def emit_def upd_node_def Let_def
        split: option.splits)
  then show ?thesis
    by (auto simp: new_acks_def votes_def keys_def map_filter_snoc List.map_filter_def)
qed

lemma step_request:
  assumes i: "sys_inv V sy" and r: "RequestAuth h \<in> set (cs_effects (sy_node sy s))"
    and c: "c = note_sender ev s h (sy_node sy v)" "c' = clusterSendFailoverAuthIfNeeded ev s h c"
  shows "sys_inv V (sy\<lparr>sy_node := (sy_node sy)(v := c'), sy_net := sy_net sy + new_acks v c c'\<rparr>)"
proof -
  let ?K = "keys (sy_net sy)" and ?W = "sy_wins sy"
  have vc: "view c = (views sy v)\<lparr>e_current := max (e_current (views sy v)) (m_currentEpoch h)\<rparr>"
    by (simp add: c(1) view_note_sender)
  have i1: "inv V ((views sy)(v := view c)) ?K ?W"
    unfolding vc using i unfolding sys_inv_def by (rule inv_raise_max)
  have asked: "m_currentEpoch h \<in> set (e_asked (((views sy)(v := view c)) s))"
  proof -
    have "m_currentEpoch h \<in> set (asked (sy_node sy s))"
      using r by (force simp: asked_def List.map_filter_def)
    then show ?thesis using arg_cong [OF vc, of e_asked] by auto
  qed
  have ge: "m_currentEpoch h \<le> cs_currentEpoch c" using arg_cong [OF vc, of e_current] by simp
  have lv: "cs_lastVoteEpoch c \<le> cs_currentEpoch c"
    using invD(1) [OF i1, of v] by (simp add: votes_inv_def)
  have keys: "keys (A + B) = keys A + keys B" for A B by (simp add: keys_def)
  have "inv V ((views sy)(v := view c')) (?K + keys (new_acks v c c')) ?W"
    using view_vote [of ev s h c] new_acks_vote [of v c ev s h] unfolding c(2) [symmetric]
  proof (elim disjE conjE)
    assume "view c' = view c" "new_acks v c c' = {#}"
    then show ?thesis using i1 by (simp add: keys_def)
  next
    assume "view c' = view c" and a: "votes c' = votes c @ [(s, cs_currentEpoch c)]"
    then show ?thesis using votes_eq [of c' "view c"] by simp
  next
    assume v: "view c' = (view c)\<lparr>e_lastVote := cs_currentEpoch c\<rparr>" and n: "new_acks v c c' = {#}"
    show ?thesis using inv_lastVote [OF i1, of v] v n by (simp add: keys_def)
  next
    assume v: "view c' = (view c)\<lparr>e_lastVote := cs_currentEpoch c\<rparr>" and "votes c' = votes c @ [(s, cs_currentEpoch c)]"
    then show ?thesis using votes_eq [OF v] by simp
  next
    assume v: "view c' = (view c)\<lparr>e_lastVote := cs_currentEpoch c, e_votes := votes c @ [(s, cs_currentEpoch c)]\<rparr>"
      and "votes c' = votes c"
    then show ?thesis using votes_eq [OF v] by simp
  next
    assume req: "cs_currentEpoch c \<le> m_currentEpoch h" "cs_lastVoteEpoch c \<noteq> cs_currentEpoch c"
      and v: "view c' = (view c)\<lparr>e_lastVote := cs_currentEpoch c, e_votes := votes c @ [(s, cs_currentEpoch c)]\<rparr>"
      and k: "keys (new_acks v c c') = {#(v, s, cs_currentEpoch c)#}"
    have "e_lastVote (((views sy)(v := view c)) v) < cs_currentEpoch c" using lv req(2) by simp
    moreover have "cs_currentEpoch c = e_current (((views sy)(v := view c)) v)" by simp
    moreover have "cs_currentEpoch c \<in> set (e_asked (((views sy)(v := view c)) s))" using asked req(1) ge by simp
    ultimately have "inv V (((views sy)(v := view c))(v := (((views sy)(v := view c)) v)\<lparr>e_lastVote := cs_currentEpoch c,
        e_votes := e_votes (((views sy)(v := view c)) v) @ [(s, cs_currentEpoch c)]\<rparr>))
        (add_mset (v, s, cs_currentEpoch c) ?K) ?W"
      using i1 by (intro inv_vote)
    then show ?thesis using v k by simp
  qed
  then show ?thesis by (simp add: sys_inv_def views_upd keys)
qed

lemma note_sender_master:
  "nodeIsMaster (node (note_sender ev v h cs) a) = nodeIsMaster (node cs a)"
  "cn_numslots (node (note_sender ev v h cs) a) = cn_numslots (node cs a)"
proof -
  have n: "node (cs\<lparr>cs_currentEpoch := x\<rparr>) = node cs" "node (cs\<lparr>cs_mf_master_offset := y\<rparr>) = node cs" for cs x y
    by (simp_all add: node_fun)
  show "nodeIsMaster (node (note_sender ev v h cs) a) = nodeIsMaster (node cs a)"
    "cn_numslots (node (note_sender ev v h cs) a) = cn_numslots (node cs a)"
    by (simp_all add: note_sender_def Let_def n nodeIsMaster_def)
qed

lemma step_ack:
  assumes i: "sys_inv V sy" and fin: "finite V" and m: "(v, s, h) \<in># sy_net sy" and ok: "view_ok V (sy_node sy s)"
    and sent: "cs_failover_auth_sent (sy_node sy s)"
  shows "sys_inv V (sy\<lparr>sy_node := (sy_node sy)(s := count_ack v h (note_sender ev v h (sy_node sy s))),
      sy_net := sy_net sy - {#(v, s, h)#}\<rparr>)"
proof -
  let ?K = "keys (sy_net sy)" and ?W = "sy_wins sy"
  define c where "c = note_sender ev v h (sy_node sy s)"
  define vw where "vw = (views sy)(s := view c)"
  have vc: "view c = (views sy s)\<lparr>e_current := max (e_current (views sy s)) (m_currentEpoch h)\<rparr>"
    by (simp add: c_def view_note_sender)
  have i1: "inv V vw ?K ?W" unfolding vw_def vc using i unfolding sys_inv_def by (rule inv_raise_max)
  have k: "keys (sy_net sy - {#(v, s, h)#}) = ?K - {#(v, s, m_currentEpoch h)#}"
    using m by (simp add: keys_def image_mset_Diff)
  have upd: "(views sy)(s := x) = vw(s := x)" for x by (simp add: vw_def)
  have "inv V ((views sy)(s := view (count_ack v h c))) (?K - {#(v, s, m_currentEpoch h)#}) ?W"
    using view_count_ack [of v h c]
  proof (elim disjE conjE)
    assume "view (count_ack v h c) = view c"
    then show ?thesis using inv_lose [OF i1] by (simp add: vw_def)
  next
    assume voter: "nodeIsMaster (node c v)" "cn_numslots (node c v) > 0" and e: "cs_failover_auth_epoch c \<le> m_currentEpoch h"
      and new: "view (count_ack v h c) = (view c)\<lparr>e_count := cs_failover_auth_count c + 1\<rparr>"
    have "v \<in> V" using voter ok by (simp add: c_def note_sender_master view_ok_def)
    moreover have "(v, s, m_currentEpoch h) \<in># ?K" using m by (force simp: keys_def)
    moreover have "e_sent (vw s)" using sent arg_cong [OF vc, of e_sent] by (simp add: vw_def)
    ultimately have "inv V (vw(s := (vw s)\<lparr>e_count := e_count (vw s) + 1\<rparr>)) (?K - {#(v, s, m_currentEpoch h)#}) ?W"
      using e by (intro inv_count [OF i1] fin) (simp_all add: vw_def)
    then show ?thesis unfolding new upd by (simp add: vw_def)
  qed
  then show ?thesis by (simp add: sys_inv_def views_upd k c_def)
qed

lemma step_tick:
  assumes i: "sys_inv V sy" and ok: "view_ok V (sy_node sy s)" and top: "cs_currentEpoch (sy_node sy s) \<noteq> - 1"
    and t: "clusterHandleSlaveFailover ev (sy_node sy s) = Some c'"
  shows "sys_inv V (sy\<lparr>sy_node := (sy_node sy)(s := c'), sy_wins := (if won (sy_node sy s) c'
      then (s, cs_failover_auth_epoch c') # sy_wins sy else sy_wins sy)\<rparr>)"
proof -
  let ?K = "keys (sy_net sy)" and ?W = "sy_wins sy" and ?c = "sy_node sy s"
  have i0: "inv V (views sy) ?K ?W" using i by (simp add: sys_inv_def)
  have "inv V ((views sy)(s := view c')) ?K (if won ?c c' then (s, cs_failover_auth_epoch c') # ?W else ?W)"
    using view_tick [OF t]
  proof (elim disjE conjE)
    assume v: "view c' = view ?c"
      and w: "won ?c c' \<longrightarrow> cs_failover_auth_sent ?c \<and> cs_size ?c div 2 + 1 \<le> cs_failover_auth_count ?c"
    have same: "(views sy)(s := view c') = views sy" by (simp add: v fun_eq_iff)
    have e: "cs_failover_auth_epoch c' = e_epoch (views sy s)" using arg_cong [OF v, of e_epoch] by simp
    show ?thesis
    proof (cases "won ?c c'")
      case True
      then have "int (card V) div 2 + 1 \<le> e_count (views sy s)" using w ok by (simp add: view_ok_def)
      then show ?thesis using inv_win [OF i0] True e same by simp
    qed (simp add: same i0)
  next
    assume "\<not> won ?c c'" "view c' = (view ?c)\<lparr>e_count := 0, e_sent := False\<rparr>"
    then show ?thesis using inv_reset [OF i0, of s] by simp
  next
    assume "\<not> won ?c c'" "\<not> cs_failover_auth_sent ?c"
      "view c' = (view ?c)\<lparr>e_current := cs_currentEpoch ?c + 1, e_epoch := cs_currentEpoch ?c + 1, e_sent := True,
        e_asked := asked ?c @ [cs_currentEpoch ?c + 1]\<rparr>"
    moreover have "cs_currentEpoch ?c < cs_currentEpoch ?c + 1" using top by (intro word_Suc_le) simp_all
    ultimately show ?thesis using inv_ask [OF i0, of s "cs_currentEpoch ?c + 1"] by simp
  qed
  then show ?thesis by (simp add: sys_inv_def views_upd)
qed

lemma sys_step_inv:
  assumes "sys_step V False sy sy'" "sys_inv V sy" "finite V" shows "sys_inv V sy'"
  using assms(1)
proof (cases rule: sys_step.cases)
  case (request h s c ev v c')
  then show ?thesis using step_request [OF assms(2)] by simp
next
  case (ack v s h ev)
  then show ?thesis using step_ack [OF assms(2,3)] by simp
next
  case (lose M)
  have "sy_net sy - M = sy_net sy - (sy_net sy \<inter># M)" by (simp add: multiset_eq_iff)
  then have "keys (sy_net sy - M) = keys (sy_net sy) - keys (sy_net sy \<inter># M)"
    by (simp only: keys_def image_mset_Diff subset_mset.inf_le1)
  then show ?thesis using assms(2) lose by (simp add: sys_inv_def inv_lose)
next
  case (tick s ev c')
  then show ?thesis using step_tick [OF assms(2)] by simp
next
  case (other c' x s)
  then show ?thesis using inv_raise [of V "views sy" _ _ s x] assms(2) by (simp add: sys_inv_def views_upd)
qed

lemma sys_init_inv: "sys_init sy \<Longrightarrow> sys_inv V sy"
  unfolding sys_inv_def
  by (rule invI) (auto simp: sys_init_def votes_inv_def keys_def counted_def intro!: exI [of _ "{}"])

lemma sys_reach_inv: "sys_reach V False sy \<Longrightarrow> finite V \<Longrightarrow> sys_inv V sy"
  by (induction rule: sys_reach.induct) (auto intro: sys_init_inv sys_step_inv)

lemma quorums_meet:
  assumes "finite V" "A \<subseteq> V" "B \<subseteq> V" "card V div 2 + 1 \<le> card A" "card V div 2 + 1 \<le> card B"
  shows "A \<inter> B \<noteq> {}"
proof
  assume "A \<inter> B = {}"
  then have "card (A \<union> B) = card A + card B"
    using assms finite_subset by (intro card_Un_disjoint) blast+
  moreover have "card (A \<union> B) \<le> card V" using assms by (intro card_mono) simp_all
  ultimately show False using assms(4,5) by linarith
qed

text \<open>(C3) Election safety.  In every reachable state of the system, whatever messages are lost, delayed or
  reordered and whatever other handlers do to the current epochs, two slaves that won an election of the
  same epoch are the same, provided a vote that arrives when its candidate has reset its count and not yet
  asked again is dropped, candidates agree on the electorate, and no current epoch wraps around.\<close>

theorem one_winner_per_epoch:
  assumes "sys_reach V False sy" and "finite V"
    and "(s, e) \<in> set (sy_wins sy)" and "(s', e) \<in> set (sy_wins sy)"
  shows "s = s'"
proof -
  have i: "inv V (views sy) (keys (sy_net sy)) (sy_wins sy)"
    using sys_reach_inv [OF assms(1,2)] by (simp add: sys_inv_def)
  obtain A where A: "A \<subseteq> V" "card V div 2 + 1 \<le> card A" "\<forall>v \<in> A. (s, e) \<in> set (e_votes (views sy v))"
    using invD(7) [OF i assms(3)] by blast
  obtain B where B: "B \<subseteq> V" "card V div 2 + 1 \<le> card B" "\<forall>v \<in> B. (s', e) \<in> set (e_votes (views sy v))"
    using invD(7) [OF i assms(4)] by blast
  obtain v where "v \<in> A" "v \<in> B" using quorums_meet [OF assms(2) A(1) B(1) A(2) B(2)] by blast
  then show ?thesis using votes_inv_distinct [OF invD(1) [OF i, of v]] A(3) B(3) by blast
qed

section \<open>A manual failover that wins\<close>

text \<open>The master of theory \<open>Cluster_Config\<close>'s example is the whole electorate; its slave runs a manual failover.\<close>

declare One_nat_def [simp del]

lemma upd_node_rest [simp]:
  "cs_myself (upd_node a f cs) = cs_myself cs" "cs_currentEpoch (upd_node a f cs) = cs_currentEpoch cs"
  "cs_lastVoteEpoch (upd_node a f cs) = cs_lastVoteEpoch cs" "cs_size (upd_node a f cs) = cs_size cs"
  "cs_mf_end (upd_node a f cs) = cs_mf_end cs" "cs_mf_can_start (upd_node a f cs) = cs_mf_can_start cs"
  "cs_failover_auth_time (upd_node a f cs) = cs_failover_auth_time cs" "cs_failover_auth_sent (upd_node a f cs) = cs_failover_auth_sent cs"
  "cs_failover_auth_count (upd_node a f cs) = cs_failover_auth_count cs" "cs_failover_auth_epoch (upd_node a f cs) = cs_failover_auth_epoch cs"
  "cs_effects (upd_node a f cs) = cs_effects cs"
  by (simp_all add: upd_node_def)

definition mf_env :: env where "mf_env = demo_env\<lparr>ev_now := 100000\<rparr>"

definition mf :: "nat \<Rightarrow> clusterState" where
  "mf me = (duo me)\<lparr>cs_mf_end := 200000, cs_mf_can_start := (me = 2)\<rparr>"

definition mf_scheduled :: clusterState where
  "mf_scheduled = emit (BroadcastPong LocalSlaves) ((mf 2)\<lparr>cs_failover_auth_count := 0,
     cs_failover_auth_sent := False, cs_failover_auth_time := 100000, cs_failover_auth_rank := 0\<rparr>)"

definition mf_asking :: clusterState where "mf_asking = ask_votes mf_env mf_scheduled"

definition mf_request :: clusterMsg where
  "mf_request = (clusterBuildMessageHdr mf_env (mf_scheduled\<lparr>cs_currentEpoch := 1, cs_failover_auth_epoch := 1\<rparr>))
     \<lparr>m_forceack := True\<rparr>"

definition mf_voter :: clusterState where "mf_voter = note_sender mf_env 2 mf_request (mf 1)"

definition mf_voted :: clusterState where
  "mf_voted = clusterSendFailoverAuthIfNeeded mf_env 2 mf_request mf_voter"

definition mf_ack :: clusterMsg where "mf_ack = clusterBuildMessageHdr mf_env mf_voter"

definition mf_counted :: clusterState where
  "mf_counted = count_ack 1 mf_ack (note_sender mf_env 1 mf_ack mf_asking)"

lemma duo_consts [simp]:
  "cs_currentEpoch (duo me) = 0" "cs_lastVoteEpoch (duo me) = 0" "cs_effects (duo me) = [SaveConfig]" "cs_todo (duo me) = 0"
  "cs_size (duo me) = 1" "cs_failover_auth_time (duo me) = 0" "cs_mf_master_offset (duo me) = 0"
  "cs_failover_auth_epoch (duo me) = 0"  "cs_failover_auth_count (duo me) = 0"
  by (simp_all add: duo_def demo_cluster_def clusterInit_def)

lemma mf_fields [simp]:
  "node (mf me) = duo_node" "cs_myself (mf me) = me" "myself (mf me) = duo_node me" "cs_mf_end (mf me) = 200000"
  "cs_mf_can_start (mf me) = (me = 2)" "cs_slots (mf me) = (replicate CLUSTER_SLOTS None)[5 := Some 1]"
  "cs_currentEpoch (mf me) = 0" "cs_lastVoteEpoch (mf me) = 0" "cs_effects (mf me) = [SaveConfig]" "cs_todo (mf me) = 0"
  "cs_size (mf me) = 1" "cs_failover_auth_time (mf me) = 0" "cs_mf_master_offset (mf me) = 0"
  "cs_failover_auth_epoch (mf me) = 0"  "cs_failover_auth_count (mf me) = 0"
  using duo_fields [of me] by (simp_all add: mf_def node_fun myself_def)

lemma mf_env_fields [simp]:
  "ev_now mf_env = 100000" "ev_node_timeout mf_env = 15000" "ev_random mf_env = 7" "ev_slave_offset mf_env = 0"
  by (simp_all add: mf_env_def demo_env_def)

lemma mf_roles:
  "nodeIsMaster (duo_node 1)" "\<not> nodeIsSlave (duo_node 1)" "\<not> nodeIsMaster (duo_node 2)" "nodeIsSlave (duo_node 2)"
  "cn_link (duo_node a)" "cn_configEpoch (duo_node a) = 0" "cn_voted_time (duo_node a) = 0" "cn_slaves (duo_node 1) = [2]"
  using duo_roles by (simp_all add: nodeIsMaster_def nodeIsSlave_def) (simp_all add: duo_node_def createClusterNode_def)

lemma mf_todo [simp]: "(mf me)\<lparr>cs_todo := 0\<rparr> = mf me"
  by (simp add: mf_def duo_def demo_cluster_def clusterInit_def)

lemma mf_tick1: "clusterHandleSlaveFailover mf_env (mf 2) = Some mf_scheduled"
proof -
  have w: "failover_wanted True (mf 2)" using mf_roles duo_roles by (simp add: failover_wanted_def)
  have r: "clusterGetSlaveRank mf_env (mf 2) = Some 0" using mf_roles duo_roles by (simp add: clusterGetSlaveRank_def)
  show ?thesis
    by (simp add: clusterHandleSlaveFailover_def w schedule_election_def r Let_def mf_scheduled_def)
qed

lemma mf_scheduled_fields [simp]:
  "node mf_scheduled = duo_node" "cs_myself mf_scheduled = 2" "myself mf_scheduled = duo_node 2" "cs_mf_end mf_scheduled = 200000"
  "cs_mf_can_start mf_scheduled" "cs_currentEpoch mf_scheduled = 0" "cs_todo mf_scheduled = 0" "cs_size mf_scheduled = 1"
  "cs_failover_auth_time mf_scheduled = 100000" "\<not> cs_failover_auth_sent mf_scheduled" "cs_failover_auth_count mf_scheduled = 0"
  "mf_scheduled\<lparr>cs_todo := 0\<rparr> = mf_scheduled" "slots_wf mf_scheduled" "addrs mf_scheduled = {1, 2}"
proof -
  show n: "node mf_scheduled = duo_node" "cs_myself mf_scheduled = 2" "cs_mf_end mf_scheduled = 200000"
    "cs_mf_can_start mf_scheduled" "cs_currentEpoch mf_scheduled = 0" "cs_todo mf_scheduled = 0" "cs_size mf_scheduled = 1"
    "cs_failover_auth_time mf_scheduled = 100000" "\<not> cs_failover_auth_sent mf_scheduled" "cs_failover_auth_count mf_scheduled = 0"
    using mf_fields [of 2] duo_fields [of 2] by (simp_all add: mf_scheduled_def emit_def node_fun)
  show "myself mf_scheduled = duo_node 2" by (simp add: myself_def n)
  have "mf 2\<lparr>cs_todo := 0\<rparr> = mf 2" by simp
  then show "mf_scheduled\<lparr>cs_todo := 0\<rparr> = mf_scheduled" by (simp add: mf_scheduled_def emit_def)
  show "addrs mf_scheduled = {1, 2}" using duo_fields(2) [of 2] by (simp add: mf_scheduled_def emit_def addrs_def mf_def)
  then show "slots_wf mf_scheduled"
    using slots_wf_cong [of mf_scheduled "duo 2"] duo_wf [of 2] duo_fields [of 2] n(1)
    by (simp add: mf_scheduled_def emit_def mf_def)
qed

lemma mf_tick2: "clusterHandleSlaveFailover mf_env mf_scheduled = Some mf_asking"
proof -
  have w: "failover_wanted True mf_scheduled" using mf_roles duo_roles by (simp add: failover_wanted_def)
  show ?thesis by (simp add: clusterHandleSlaveFailover_def w update_rank_def Let_def mf_asking_def)
qed

lemma mf_asking_eq: "mf_asking = clusterDoBeforeSleep (TODO_SAVE_CONFIG OR TODO_UPDATE_STATE OR TODO_FSYNC_CONFIG)
    ((emit (RequestAuth mf_request) (mf_scheduled\<lparr>cs_currentEpoch := 1, cs_failover_auth_epoch := 1\<rparr>))
      \<lparr>cs_failover_auth_sent := True\<rparr>)"
  by (simp add: mf_asking_def ask_votes_def clusterRequestFailoverAuth_def mf_request_def Let_def)

lemma mf_request_fields [simp]: "m_currentEpoch mf_request = 1" "m_forceack mf_request"
  "m_configEpoch mf_request = 0"
proof -
  have "myself (mf_scheduled\<lparr>cs_currentEpoch := 1, cs_failover_auth_epoch := 1\<rparr>) = duo_node 2"
    "node (mf_scheduled\<lparr>cs_currentEpoch := 1, cs_failover_auth_epoch := 1\<rparr>) = duo_node"
    by (simp_all add: myself_def node_fun [symmetric]) (simp_all add: node_fun flip: mf_scheduled_fields(1))
  then show "m_currentEpoch mf_request = 1" "m_forceack mf_request" "m_configEpoch mf_request = 0"
    using mf_roles duo_roles
    by (simp_all add: mf_request_def) (simp add: clusterBuildMessageHdr_def header_master_def)
qed

lemma mf_node_epoch: "node ((mf a)\<lparr>cs_currentEpoch := x\<rparr>) = duo_node"
  using mf_fields(1) [of a] by (simp add: node_fun)

lemma mf_voter_eq:
  "mf_voter = upd_node 2 (\<lambda>m. m\<lparr>cn_repl_offset := m_offset mf_request, cn_repl_offset_time := 100000\<rparr>)
    ((mf 1)\<lparr>cs_currentEpoch := 1\<rparr>)" (is "_ = ?c")
proof -
  have "\<not> nodeIsSlave (myself ?c)" using mf_roles by (simp add: myself_def mf_node_epoch)
  then show ?thesis
    unfolding mf_voter_def note_sender_def Let_def mf_request_fields mf_env_fields
    using mf_roles by (simp add: mf_node_epoch)
qed

lemma mf_voter_fields [simp]:
  "node mf_voter 1 = duo_node 1" "cs_myself mf_voter = 1" "myself mf_voter = duo_node 1" "cs_currentEpoch mf_voter = 1"
  "cs_lastVoteEpoch mf_voter = 0" "cs_slots mf_voter = (replicate CLUSTER_SLOTS None)[5 := Some 1]"
  "cn_flags (node mf_voter 2) = cn_flags (duo_node 2)" "cn_slaveof (node mf_voter 2) = Some 1" "cn_link (node mf_voter 2)"
proof -
  show "node mf_voter 1 = duo_node 1" "cn_flags (node mf_voter 2) = cn_flags (duo_node 2)"
    "cn_slaveof (node mf_voter 2) = Some 1" "cn_link (node mf_voter 2)"
    using mf_roles duo_roles by (simp_all add: mf_voter_eq mf_node_epoch)
  show "cs_myself mf_voter = 1" "cs_currentEpoch mf_voter = 1" "cs_lastVoteEpoch mf_voter = 0"
    "cs_slots mf_voter = (replicate CLUSTER_SLOTS None)[5 := Some 1]" by (simp_all add: mf_voter_eq)
  then show "myself mf_voter = duo_node 1" by (simp add: myself_def mf_voter_eq mf_node_epoch)
qed

lemma mf_claims: "claims_current bm 0 mf_voter"
  by (auto simp: claims_current_def list_all_iff nth_list_update mf_roles split: option.splits)

lemma mf_vote: "new_acks 1 mf_voter mf_voted = {#(1, 2, mf_ack)#}"
proof -
  have m: "\<not> nodeIsMaster (node mf_voter 2)" using duo_roles(2) by (simp add: nodeIsMaster_def)
  have "mf_voted = upd_node 1 (\<lambda>m. m\<lparr>cn_voted_time := 100000\<rparr>)
      ((emit (SendAuthAck 2 mf_ack) mf_voter)\<lparr>cs_lastVoteEpoch := 1\<rparr>)"
    using mf_roles duo_roles mf_claims m
    by (simp add: mf_voted_def clusterSendFailoverAuthIfNeeded_def clusterSendFailoverAuth_def mf_ack_def Let_def)
  then have "cs_effects mf_voted = cs_effects mf_voter @ [SendAuthAck 2 mf_ack]" by (rule ssubst) (simp add: emit_def)
  then show ?thesis by (simp add: new_acks_def List.map_filter_def)
qed

lemma mf_asking_fields [simp]:
  "node mf_asking = duo_node" "cs_currentEpoch mf_asking = 1" "cs_failover_auth_sent mf_asking" "cs_size mf_asking = 1"
  "cs_failover_auth_count mf_asking = 0" "cs_failover_auth_epoch mf_asking = 1" "cs_failover_auth_time mf_asking = 100000"
  "cs_mf_end mf_asking = 200000" "cs_mf_can_start mf_asking" "cs_myself mf_asking = 2" "slots_wf mf_asking"
  "addrs mf_asking = {1, 2}"
proof -
  show n: "node mf_asking = duo_node" "addrs mf_asking = {1, 2}"
    using mf_scheduled_fields(1,14) by (simp_all add: mf_asking_eq emit_def node_fun addrs_def clusterDoBeforeSleep_def)
  show "cs_currentEpoch mf_asking = 1" "cs_failover_auth_sent mf_asking" "cs_size mf_asking = 1"
    "cs_failover_auth_count mf_asking = 0" "cs_failover_auth_epoch mf_asking = 1" "cs_failover_auth_time mf_asking = 100000"
    "cs_mf_end mf_asking = 200000" "cs_mf_can_start mf_asking" "cs_myself mf_asking = 2"
    by (simp_all add: mf_asking_eq clusterDoBeforeSleep_def emit_def)
  show "slots_wf mf_asking" using slots_wf_cong [of mf_asking mf_scheduled] n by (simp add: mf_asking_eq)
qed

lemma mf_ack_epoch [simp]: "m_currentEpoch mf_ack = 1" "m_configEpoch mf_ack = 0"
  using mf_roles by (simp_all add: mf_ack_def) (simp add: clusterBuildMessageHdr_def header_master_def)

lemma mf_counted_fields [simp]:
  "cs_failover_auth_count mf_counted = 1" "cs_size mf_counted = 1" "cs_failover_auth_sent mf_counted"
  "cs_failover_auth_time mf_counted = 100000" "cs_mf_end mf_counted \<noteq> 0" "cs_mf_can_start mf_counted"
  "cs_currentEpoch mf_counted = 1" "cs_failover_auth_epoch mf_counted = 1" "cs_myself mf_counted = 2"
  "keeps_slots mf_asking mf_counted"
  "cn_flags (node mf_counted a) = cn_flags (duo_node a)" "cn_slaveof (node mf_counted a) = cn_slaveof (duo_node a)"
  "cn_numslots (node mf_counted a) = cn_numslots (duo_node a)"
proof -
  let ?c = "upd_node 1 (\<lambda>m. m\<lparr>cn_repl_offset := m_offset mf_ack, cn_repl_offset_time := 100000\<rparr>) mf_asking"
  have s: "note_sender mf_env 1 mf_ack mf_asking = ?c \<or> note_sender mf_env 1 mf_ack mf_asking =
      ?c\<lparr>cs_mf_master_offset := cn_repl_offset (node ?c 1)\<rparr>"
    using mf_roles by (simp add: note_sender_def Let_def)
  moreover have "?c = ?c\<lparr>cs_mf_master_offset := cs_mf_master_offset ?c\<rparr>" by simp
  ultimately obtain y where s: "note_sender mf_env 1 mf_ack mf_asking = ?c\<lparr>cs_mf_master_offset := y\<rparr>" by metis
  have n: "node (cs\<lparr>cs_mf_master_offset := y\<rparr>) = node cs" for cs by (simp add: node_fun)
  have "nodeIsMaster ((duo_node 1)\<lparr>cn_repl_offset := x, cn_repl_offset_time := y\<rparr>)" for x y
    using mf_roles(1) by (simp add: nodeIsMaster_def)
  then have c: "mf_counted = clusterDoBeforeSleep TODO_HANDLE_FAILOVER
      (?c\<lparr>cs_mf_master_offset := y, cs_failover_auth_count := 1\<rparr>)"
    unfolding mf_counted_def s count_ack_def using duo_roles(5) by (simp add: n)
  show "cs_failover_auth_count mf_counted = 1" "cs_size mf_counted = 1" "cs_failover_auth_sent mf_counted"
    "cs_failover_auth_time mf_counted = 100000" "cs_mf_end mf_counted \<noteq> 0" "cs_mf_can_start mf_counted"
    "cs_currentEpoch mf_counted = 1" "cs_failover_auth_epoch mf_counted = 1" "cs_myself mf_counted = 2"
    unfolding c by (simp_all add: clusterDoBeforeSleep_def)
  have h: "cs_heap mf_counted = cs_heap ?c" "cs_slots mf_counted = cs_slots mf_asking" "cs_nodes mf_counted = cs_nodes mf_asking"
    unfolding c by (simp_all add: clusterDoBeforeSleep_def)
  then have n: "node mf_counted a = node ?c a" for a by (simp add: node_fun)
  show "cn_flags (node mf_counted a) = cn_flags (duo_node a)" "cn_slaveof (node mf_counted a) = cn_slaveof (duo_node a)"
    "cn_numslots (node mf_counted a) = cn_numslots (duo_node a)"
    by (simp_all add: n)
  show "keeps_slots mf_asking mf_counted" using h n by (simp add: keeps_slots_def addrs_def)
qed

lemma mf_tick3: "\<exists>cs'. clusterHandleSlaveFailover mf_env mf_counted = Some cs' \<and> won mf_counted cs' \<and> cs_failover_auth_epoch cs' = 1"
proof -
  define c where "c = mf_counted\<lparr>cs_todo := cs_todo mf_counted AND NOT TODO_HANDLE_FAILOVER\<rparr>"
  define c1 where "c1 = (if cn_configEpoch (myself c) < cs_failover_auth_epoch c
    then upd_node (cs_myself c) (\<lambda>m. m\<lparr>cn_configEpoch := cs_failover_auth_epoch c\<rparr>) c else c)"
  have n: "node c = node mf_counted" "cs_myself c = 2" "cs_slots c = cs_slots mf_counted" "cs_nodes c = cs_nodes mf_counted"
    by (simp_all add: c_def node_fun)
  have w: "failover_wanted True c" using duo_roles mf_roles
    by (simp add: failover_wanted_def myself_def n nodeIsMaster_def)
  have k: "keeps_slots mf_asking c1"
    using mf_counted_fields(10) by (simp add: c1_def n keeps_slots_def addrs_def)
  have m: "cs_myself c1 = 2" "cn_flags (node c1 2) = cn_flags (duo_node 2)" "cn_slaveof (node c1 2) = Some 1"
    using duo_roles(4) by (simp_all add: c1_def n)
  have "\<exists>cs'. clusterFailoverReplaceYourMaster mf_env c1 = Some cs' \<and> slots_wf cs' \<and>
      nodeIsMaster (myself cs') \<and> \<not> nodeIsSlave (myself cs') \<and> cs_slots cs' = map (heir 1 (cs_myself c1)) (cs_slots c1)"
    using keeps_slots_wf [OF k] k duo_roles m
    by (intro clusterFailoverReplaceYourMaster_spec) (auto simp: myself_def nodeIsMaster_def keeps_slots_def)
  then obtain cs' where cs': "clusterFailoverReplaceYourMaster mf_env c1 = Some cs'" "nodeIsMaster (myself cs')" by blast
  have t: "clusterHandleSlaveFailover mf_env mf_counted = Some cs'"
    using cs'(1) w by (simp add: clusterHandleSlaveFailover_def Let_def update_rank_def win_election_def flip: c_def c1_def)
      (simp add: c_def win_election_def Let_def flip: c1_def)
  moreover have "won mf_counted cs'" using cs'(2) duo_roles(2) by (simp add: won_def nodeIsMaster_def myself_def)
  moreover have "view cs' = view c1" using view_replace [OF cs'(1)] .
  then have "e_epoch (view cs') = e_epoch (view c1)" by simp
  then have "cs_failover_auth_epoch cs' = 1" by (simp add: c1_def c_def)
  ultimately show ?thesis by blast
qed

lemma duo_view: "nodeIsMaster (duo_node a) \<Longrightarrow> a = 1"
  by (rule ccontr) (simp add: duo_node_def nodeIsMaster_def has_flag_def createClusterNode_def NODE_MASTER_def NODE_SLAVE_def)

lemma mf_view_ok: "cs_size cs = 1 \<Longrightarrow> (\<And>a. cn_flags (node cs a) = cn_flags (duo_node a)) \<Longrightarrow> view_ok {1} cs"
  using duo_view by (auto simp: view_ok_def nodeIsMaster_def has_flag_def)

lemma not_won: "myself c' = duo_node 2 \<Longrightarrow> \<not> won c c'"
  using mf_roles by (simp add: won_def)

lemma mf_init: "sys_init \<lparr>sy_node = mf, sy_net = {#}, sy_wins = []\<rparr>"
  by (simp add: sys_init_def votes_def asked_def List.map_filter_def)

lemma mf_run: "\<exists>sy. sys_reach {1} False sy \<and> (2, 1) \<in> set (sy_wins sy)"
proof -
  let ?s0 = "\<lparr>sy_node = mf, sy_net = {#}, sy_wins = []\<rparr> :: system"
  let ?s1 = "?s0\<lparr>sy_node := mf(2 := mf_scheduled)\<rparr>" and ?s2 = "?s0\<lparr>sy_node := mf(2 := mf_asking)\<rparr>"
  let ?s3 = "?s2\<lparr>sy_node := (mf(2 := mf_asking))(1 := mf_voted), sy_net := {#(1, 2, mf_ack)#}\<rparr>"
  let ?s4 = "?s0\<lparr>sy_node := (mf(1 := mf_voted))(2 := mf_counted)\<rparr>"
  obtain cs' where cs': "clusterHandleSlaveFailover mf_env mf_counted = Some cs'" "won mf_counted cs'"
    "cs_failover_auth_epoch cs' = 1" using mf_tick3 by blast
  let ?s5 = "?s4\<lparr>sy_node := (mf(1 := mf_voted))(2 := cs'), sy_wins := [(2, 1)]\<rparr>"
  have 1: "sys_step {1} False ?s0 ?s1"
    using sys_step.tick [of "{1}" ?s0 2 mf_env mf_scheduled False] mf_tick1 mf_view_ok [of "mf 2"] not_won [of mf_scheduled] by simp
  have "myself mf_asking = duo_node 2" by (simp add: myself_def)
  then have 2: "sys_step {1} False ?s1 ?s2"
    using sys_step.tick [of "{1}" ?s1 2 mf_env mf_asking False] mf_tick2 mf_view_ok [of mf_scheduled] not_won [of mf_asking] by simp
  have "RequestAuth mf_request \<in> set (cs_effects mf_asking)"
    by (simp add: mf_asking_eq clusterDoBeforeSleep_def emit_def)
  then have 3: "sys_step {1} False ?s2 ?s3"
    using sys_step.request [of mf_request ?s2 2 mf_voter mf_env 1 mf_voted "{1}" False] mf_vote
    by (simp add: mf_voter_def mf_voted_def)
  have 4: "sys_step {1} False ?s3 ?s4"
    using sys_step.ack [of 1 2 mf_ack ?s3 "{1}" False mf_env] mf_view_ok [of mf_asking]
    by (simp add: mf_counted_def fun_upd_twist)
  have 5: "sys_step {1} False ?s4 ?s5"
    using sys_step.tick [of "{1}" ?s4 2 mf_env cs' False] cs' mf_view_ok [of mf_counted] by simp
  have "sys_reach {1} False ?s5"
    by (rule sys_reach.step [OF sys_reach.step [OF sys_reach.step [OF sys_reach.step [OF sys_reach.step
      [OF sys_reach.init [OF mf_init] 1] 2] 3] 4] 5])
  then show ?thesis by (intro exI [of _ ?s5]) simp
qed

theorem one_winner_per_epoch_witness:
  "\<exists>sy. sys_reach {1} False sy \<and> {s. (s, 1) \<in> set (sy_wins sy)} = {2}"
proof -
  obtain sy where sy: "sys_reach {1} False sy" "(2, 1) \<in> set (sy_wins sy)" using mf_run by blast
  have "s \<in> {2}" if "(s, 1) \<in> set (sy_wins sy)" for s
    using one_winner_per_epoch [OF sy(1) _ that sy(2)] by simp
  then have "{s. (s, 1) \<in> set (sy_wins sy)} = {2}" using sy(2) by blast
  then show ?thesis using sy(1) by (intro exI [of _ sy] conjI)
qed

section \<open>A vote of an earlier election\<close>

text \<open>(C32) A slave that has reset its vote count for a new election but not yet asked for votes still accepts
  votes of its previous election, and they count for the new one: the count is reset when the election
  is scheduled, not when the votes are asked.\<close>

theorem stale_vote_counts:
  assumes "nodeIsMaster (node cs v)" and "cn_numslots (node cs v) > 0"
    and "m_currentEpoch h = cs_failover_auth_epoch cs" and "cs_failover_auth_epoch cs \<le> cs_currentEpoch cs"
    and "cs_currentEpoch cs \<noteq> - 1"
  shows "cs_failover_auth_count (ask_votes ev (count_ack v h cs)) = cs_failover_auth_count cs + 1 \<and>
    m_currentEpoch h < cs_failover_auth_epoch (ask_votes ev (count_ack v h cs))"
proof -
  have "cs_currentEpoch cs < cs_currentEpoch cs + 1" using assms(5) by (intro word_Suc_le) simp_all
  then show ?thesis
    using assms(1-4) by (simp add: count_ack_def ask_votes_def clusterRequestFailoverAuth_def clusterDoBeforeSleep_def emit_def
        Let_def)
qed

theorem stale_vote_counts_witness:
  "cs_failover_auth_count (ask_votes mf_env (count_ack 1 (mf_ack\<lparr>m_currentEpoch := 0\<rparr>) mf_scheduled)) = 1 \<and>
   0 < cs_failover_auth_epoch (ask_votes mf_env (count_ack 1 (mf_ack\<lparr>m_currentEpoch := 0\<rparr>) mf_scheduled))"
proof -
  have "cs_failover_auth_epoch mf_scheduled = 0" by (simp add: mf_scheduled_def emit_def)
  then show ?thesis
    using stale_vote_counts [of mf_scheduled 1 "mf_ack\<lparr>m_currentEpoch := 0\<rparr>" mf_env] mf_roles duo_roles by simp
qed

declare One_nat_def [simp]

end
