(* ===== verification/Command_Keys.thy ===== *)
theory Command_Keys
  imports Prelude
begin

text \<open>
  Which arguments of a command are keys: \<^verbatim>\<open>db.c\<close> 987 to 1142 of \<^verbatim>\<open>src/redis-3.0.3/src\<close>.  Arguments are byte
  strings; a helper returns argument positions.  \<open>None\<close> is an out-of-bounds access, a failed assertion or
  an allocation of a negative size, which \<open>zmalloc\<close> answers by aborting the server.
\<close>

section \<open>What the helpers use of the C library\<close>

text \<open>\<open>cstr\<close> is the C string at the start of a buffer.\<close>

definition cstr :: "u8 list \<Rightarrow> u8 list" where
  "cstr s = takeWhile (\<lambda>b. b \<noteq> 0) s"

definition c_tolower :: "u8 \<Rightarrow> u8" where
  "c_tolower b = (if 65 \<le> b \<and> b \<le> 90 then b + 32 else b)"

definition strcasecmp_eq :: "u8 list \<Rightarrow> u8 list \<Rightarrow> bool" where
  "strcasecmp_eq a b \<longleftrightarrow> map c_tolower (cstr a) = map c_tolower (cstr b)"

definition c_isspace :: "u8 \<Rightarrow> bool" where
  "c_isspace b \<longleftrightarrow> b = 32 \<or> (9 \<le> b \<and> b \<le> 13)"

definition c_isdigit :: "u8 \<Rightarrow> bool" where
  "c_isdigit b \<longleftrightarrow> 48 \<le> b \<and> b \<le> 57"

definition decimal :: "u8 list \<Rightarrow> int" where
  "decimal ds = foldl (\<lambda>v d. v * 10 + (uint d - 48)) 0 ds"

text \<open>\<open>atoi\<close> is \<open>strtol\<close>, which saturates at the bounds of a long, cut to an int.\<close>

definition strtol10 :: "u8 list \<Rightarrow> int" where
  "strtol10 s =
    (let s = dropWhile c_isspace (cstr s);
         neg = (s \<noteq> [] \<and> hd s = 45);
         s = (if s \<noteq> [] \<and> (hd s = 45 \<or> hd s = 43) then tl s else s);
         v = decimal (takeWhile c_isdigit s)
     in if neg then max (- (2 ^ 63)) (- v) else min (2 ^ 63 - 1) v)"

definition atoi :: "u8 list \<Rightarrow> int" where
  "atoi s = sint (word_of_int (strtol10 s) :: 32 word)"

section \<open>Commands\<close>

datatype getkeys_proc = ZunionInterGetKeys | EvalGetKeys | SortGetKeys

record redisCommand =
  cmd_exec :: bool
  cmd_readonly :: bool
  cmd_asking :: bool
  cmd_getkeys_proc :: "getkeys_proc option"
  cmd_firstkey :: int
  cmd_lastkey :: int
  cmd_keystep :: int

text \<open>The loop over the table's positions; a step of zero would write past the array.\<close>

function table_positions :: "int \<Rightarrow> int \<Rightarrow> int \<Rightarrow> int \<Rightarrow> int list option" where
  "table_positions argc lastp step j =
    (if j > lastp then Some []
     else if j \<ge> argc \<or> step \<le> 0 then None
     else map_option ((#) j) (table_positions argc lastp step (j + step)))"
  by auto
termination by (relation "measure (\<lambda>(argc, lastp, step, j). nat (lastp - j + 1))") auto

declare table_positions.simps [simp del]

definition getKeysUsingCommandTable :: "redisCommand \<Rightarrow> int \<Rightarrow> int list option" where
  "getKeysUsingCommandTable cmd argc =
    (if cmd_firstkey cmd = 0 then Some []
     else
       let lastp = cmd_lastkey cmd;
           lastp = (if lastp < 0 then argc + lastp else lastp)
       in if lastp - cmd_firstkey cmd + 1 < 0 then None
          else table_positions argc lastp (cmd_keystep cmd) (cmd_firstkey cmd))"

definition zunionInterGetKeys :: "u8 list list \<Rightarrow> int list option" where
  "zunionInterGetKeys argv = do {
     a \<leftarrow> array_get argv 2;
     let num = atoi a;
     if num > int (length argv) - 3 then Some []
     else if num < 0 then None
     else Some (map (\<lambda>i. 3 + int i) [0..<nat num] @ [1]) }"

definition evalGetKeys :: "u8 list list \<Rightarrow> int list option" where
  "evalGetKeys argv = do {
     a \<leftarrow> array_get argv 2;
     let num = atoi a;
     if num > int (length argv) - 3 then Some []
     else if num < 0 then None
     else Some (map (\<lambda>i. 3 + int i) [0..<nat num]) }"

text \<open>The options of SORT with arguments, \<^verbatim>\<open>limit\<close>, \<^verbatim>\<open>get\<close> and \<^verbatim>\<open>by\<close>, and \<^verbatim>\<open>store\<close>.\<close>

definition sort_skiplist :: "(u8 list \<times> nat) list" where
  "sort_skiplist = [([108, 105, 109, 105, 116], 2), ([103, 101, 116], 1), ([98, 121], 1)]"

definition store_name :: "u8 list" where "store_name = [115, 116, 111, 114, 101]"

text \<open>One round of the outer loop: how many further arguments are skipped, and whether this is a STORE option
  with an argument.  The table is tested in order, and \<^verbatim>\<open>store\<close> against every row.\<close>

fun sort_option :: "(u8 list \<times> nat) list \<Rightarrow> u8 list \<Rightarrow> bool \<Rightarrow> nat \<times> bool" where
  "sort_option [] a hasnext = (0, False)"
| "sort_option ((name, skip) # rows) a hasnext =
    (if strcasecmp_eq a name then (skip, False)
     else if strcasecmp_eq a store_name \<and> hasnext then (0, True)
     else sort_option rows a hasnext)"

function sort_loop :: "u8 list list \<Rightarrow> nat \<Rightarrow> int option \<Rightarrow> int option" where
  "sort_loop argv i store =
    (if i < length argv then
       let (skip, found) = sort_option sort_skiplist (argv ! i) (i + 1 < length argv)
       in sort_loop argv (i + skip + 1) (if found then Some (int i + 1) else store)
     else store)"
  by auto
termination by (relation "measure (\<lambda>(argv, i, store). length argv - i)") auto

declare sort_loop.simps [simp del]

definition sortGetKeys :: "u8 list list \<Rightarrow> int list option" where
  "sortGetKeys argv =
    Some (1 # (case sort_loop argv 2 None of None \<Rightarrow> [] | Some k \<Rightarrow> [k]))"

definition getKeysFromCommand :: "redisCommand \<Rightarrow> u8 list list \<Rightarrow> int list option" where
  "getKeysFromCommand cmd argv =
    (case cmd_getkeys_proc cmd of
       Some ZunionInterGetKeys \<Rightarrow> zunionInterGetKeys argv
     | Some EvalGetKeys \<Rightarrow> evalGetKeys argv
     | Some SortGetKeys \<Rightarrow> sortGetKeys argv
     | None \<Rightarrow> getKeysUsingCommandTable cmd (int (length argv)))"

section \<open>The positions are arguments of the command\<close>

lemma table_positions_bounds:
  assumes "table_positions argc lastp step j = Some ks" and "k \<in> set ks"
  shows "j \<le> k \<and> k \<le> lastp \<and> k < argc"
  using assms
proof (induction argc lastp step j arbitrary: ks rule: table_positions.induct)
  case (1 argc lastp step j)
  show ?case
  proof (cases "j > lastp")
    case False
    then obtain ks' where ks: "ks = j # ks'" "table_positions argc lastp step (j + step) = Some ks'" "j < argc" "0 < step"
      using "1.prems"(1) table_positions.simps [of argc lastp step j] by (auto split: if_splits)
    show ?thesis
    proof (cases "k = j")
      case False
      then have "k \<in> set ks'" using "1.prems"(2) ks(1) by simp
      then show ?thesis using "1.IH" [of ks'] ks False \<open>\<not> j > lastp\<close> by force
    qed (use ks \<open>\<not> j > lastp\<close> in simp)
  qed (use 1 table_positions.simps [of argc lastp step j] in simp)
qed

lemma table_positions_total:
  "0 < step \<Longrightarrow> lastp < argc \<Longrightarrow> \<exists>ks. table_positions argc lastp step j = Some ks"
proof (induction argc lastp step j rule: table_positions.induct)
  case (1 argc lastp step j)
  show ?case
  proof (cases "j > lastp")
    case False
    then obtain ks where "table_positions argc lastp step (j + step) = Some ks" using 1 by force
    then show ?thesis using False 1 by (subst table_positions.simps) simp
  qed (subst table_positions.simps, simp)
qed

lemma sort_loop_bounds:
  "sort_loop argv i store = Some k \<Longrightarrow> store = Some k \<or> (int i < k \<and> k < int (length argv))"
proof (induction argv i store rule: sort_loop.induct)
  case (1 argv i store)
  show ?case
  proof (cases "i < length argv")
    case True
    obtain skip found where o: "sort_option sort_skiplist (argv ! i) (i + 1 < length argv) = (skip, found)"
      by (cases "sort_option sort_skiplist (argv ! i) (i + 1 < length argv)")
    have f: "found \<longrightarrow> i + 1 < length argv"
      using o by (auto simp: sort_skiplist_def split: if_splits)
    have "sort_loop argv (i + skip + 1) (if found then Some (int i + 1) else store) = Some k"
      using "1.prems" True o by (subst (asm) sort_loop.simps) simp
    then have "(if found then Some (int i + 1) else store) = Some k \<or> (int (i + skip + 1) < k \<and> k < int (length argv))"
      using "1.IH" [OF True o [symmetric] refl] by simp
    then show ?thesis using f by (auto split: if_splits)
  next
    case False
    then show ?thesis using "1.prems" by (subst (asm) sort_loop.simps) simp
  qed
qed

text \<open>(C36) Every key position a command yields is a position of its argument vector: the table walk, the
  counted forms of ZUNIONSTORE and EVAL and the option scan of SORT never name an argument that is not
  there, whatever the arguments are.  (The first key position of the table is not negative, and SORT has
  its key argument: both hold of the command table.)\<close>

theorem getKeysFromCommand_in_range:
  assumes "getKeysFromCommand cmd argv = Some ks" and "k \<in> set ks"
    and "0 \<le> cmd_firstkey cmd" and "2 \<le> length argv"
  shows "0 < k \<and> k < int (length argv)"
proof (cases "cmd_getkeys_proc cmd")
  case None
  then have "cmd_firstkey cmd \<noteq> 0" and
    "\<exists>lastp. table_positions (int (length argv)) lastp (cmd_keystep cmd) (cmd_firstkey cmd) = Some ks"
    using assms(1,2) by (auto simp: getKeysFromCommand_def getKeysUsingCommandTable_def Let_def split: if_splits)
  then show ?thesis using table_positions_bounds assms(2,3) by force
next
  case (Some p)
  show ?thesis
  proof (cases p)
    case SortGetKeys
    then have "k = 1 \<or> sort_loop argv 2 None = Some k"
      using assms(1,2) Some by (auto simp: getKeysFromCommand_def sortGetKeys_def split: option.splits)
    then show ?thesis using sort_loop_bounds [of argv 2 None k] assms(4) by auto
  qed (use assms Some in \<open>auto simp: getKeysFromCommand_def zunionInterGetKeys_def evalGetKeys_def array_get_def Let_def
      split: if_splits\<close>)
qed

text \<open>A SORT command with a skipped GET pattern named like an option, and two STORE options: the last counts.\<close>

definition sort_command :: redisCommand where
  "sort_command = \<lparr>cmd_exec = False, cmd_readonly = False, cmd_asking = False, cmd_getkeys_proc = Some SortGetKeys,
     cmd_firstkey = 1, cmd_lastkey = 1, cmd_keystep = 1\<rparr>"

definition sort_argv :: "u8 list list" where
  "sort_argv = [[115, 111, 114, 116], [107], [71, 69, 84], [115, 116, 111, 114, 101],
     [83, 84, 79, 82, 69], [97], [115, 116, 111, 114, 101], [98]]"

lemma sort_argv_keys: "getKeysFromCommand sort_command sort_argv = Some [1, 7]"
  by (simp add: getKeysFromCommand_def sort_command_def sortGetKeys_def sort_argv_def sort_loop.simps sort_skiplist_def
      strcasecmp_eq_def cstr_def c_tolower_def store_name_def)

theorem getKeysFromCommand_in_range_witness: "0 < (7 :: int) \<and> 7 < int (length sort_argv)"
  using getKeysFromCommand_in_range [OF sort_argv_keys, of 7] by (simp add: sort_command_def sort_argv_def)

section \<open>A negative number of keys\<close>

definition eval_command :: redisCommand where
  "eval_command = sort_command\<lparr>cmd_getkeys_proc := Some EvalGetKeys, cmd_firstkey := 0, cmd_lastkey := 0, cmd_keystep := 0\<rparr>"

definition zunion_command :: redisCommand where
  "zunion_command = eval_command\<lparr>cmd_getkeys_proc := Some ZunionInterGetKeys\<rparr>"

text \<open>The decimal text of an integer, as a client sends it.\<close>

fun dec_digits :: "nat \<Rightarrow> u8 list" where
  "dec_digits n = (if n < 10 then [of_nat (48 + n)] else dec_digits (n div 10) @ [of_nat (48 + n mod 10)])"

declare dec_digits.simps [simp del]

definition dec_arg :: "int \<Rightarrow> u8 list" where
  "dec_arg n = (if n < 0 then 45 # dec_digits (nat (- n)) else dec_digits (nat n))"

lemma digit_byte:
  assumes "d < 10"
  shows "c_isdigit (of_nat (48 + d))" "uint (of_nat (48 + d) :: u8) - 48 = int d"
proof -
  have "d \<in> {0, 1, 2, 3, 4, 5, 6, 7, 8, 9}" using assms by auto
  then show "c_isdigit (of_nat (48 + d))" "uint (of_nat (48 + d) :: u8) - 48 = int d"
    by (auto simp: c_isdigit_def)
qed

lemma dec_digits_ok: "decimal (dec_digits n) = int n \<and> dec_digits n \<noteq> [] \<and> (\<forall>b \<in> set (dec_digits n). c_isdigit b)"
proof (induction n rule: dec_digits.induct)
  case (1 n)
  show ?case
  proof (cases "n < 10")
    case True
    then show ?thesis using digit_byte [OF True] by (subst (1 2 3) dec_digits.simps) (simp add: decimal_def)
  next
    case False
    have d: "n mod 10 < 10" by simp
    have "int n = int (n div 10 * 10 + n mod 10)" by (simp only: div_mult_mod_eq)
    then have "int n = int (n div 10) * 10 + int (n mod 10)" by (simp only: of_nat_add of_nat_mult of_nat_numeral)
    then show ?thesis using False "1.IH" digit_byte [OF d]
      by (subst (1 2 3) dec_digits.simps) (simp add: decimal_def)
  qed
qed

lemma digit_facts: "c_isdigit b \<Longrightarrow> b \<noteq> 0 \<and> b \<noteq> 45 \<and> b \<noteq> 43 \<and> \<not> c_isspace b"
  by (auto simp: c_isdigit_def c_isspace_def word_le_nat_alt)

text \<open>\<open>atoi\<close> reads it back.\<close>

lemma atoi_dec_arg:
  assumes "- (2 ^ 31) \<le> n" "n < 2 ^ 31"
  shows "atoi (dec_arg n) = n"
proof -
  have digits: "cstr (pre @ dec_digits k) = pre @ dec_digits k" if "\<forall>b \<in> set pre. b \<noteq> 0" for pre k
    unfolding cstr_def using that dec_digits_ok [of k] digit_facts by (auto simp: takeWhile_eq_all_conv)
  have tw: "takeWhile c_isdigit (dec_digits k) = dec_digits k" for k
    using dec_digits_ok [of k] by (auto simp: takeWhile_eq_all_conv)
  have "strtol10 (dec_arg n) = n"
  proof (cases "n < 0")
    case True
    then have "strtol10 (dec_arg n) = max (- (2 ^ 63)) (- decimal (takeWhile c_isdigit (dec_digits (nat (- n)))))"
      using digits [of "[45]" "nat (- n)"] by (simp add: strtol10_def dec_arg_def c_isspace_def)
    then have "strtol10 (dec_arg n) = max (- (2 ^ 63)) (- decimal (dec_digits (nat (- n))))" by (simp only: tw)
    then show ?thesis using True assms dec_digits_ok [of "nat (- n)"] by simp
  next
    case False
    obtain b bs where b: "dec_digits (nat n) = b # bs" "c_isdigit b"
      using dec_digits_ok [of "nat n"] by (cases "dec_digits (nat n)") auto
    have "strtol10 (dec_arg n) = min (2 ^ 63 - 1) (decimal (takeWhile c_isdigit (dec_digits (nat n))))"
      using False digits [of "[]" "nat n"] b digit_facts [OF b(2)] by (simp add: strtol10_def dec_arg_def)
    then have "strtol10 (dec_arg n) = min (2 ^ 63 - 1) (decimal (dec_digits (nat n)))" by (simp only: tw)
    then show ?thesis using False assms dec_digits_ok [of "nat n"] by simp
  qed
  then show ?thesis using assms by (simp add: atoi_def signed_of_int signed_take_bit_int_eq_self)
qed

text \<open>(C37) The counted forms check the number of keys against the arguments from above only.  For every command
  that counts its keys, and every decimal number of keys of type \<open>int\<close>: a negative one is an allocation
  of a negative size or the write \<open>keys[-1]\<close>, so that asking for the keys of such a command, as every
  request of a cluster node does, is a fault; one from zero up to the remaining arguments is answered
  with the positions from 3 on (and 1, the destination, for ZUNIONSTORE); a larger one with no position.\<close>

theorem getKeysFromCommand_negative:
  assumes "cmd_getkeys_proc cmd = Some p" and "p = EvalGetKeys \<or> p = ZunionInterGetKeys"
    and "- (2 ^ 31) \<le> n" and "n < 2 ^ 31"
  shows "getKeysFromCommand cmd (a # b # dec_arg n # rest) =
    (if n < 0 then None
     else if n > int (length rest) then Some []
     else Some ([3..n + 2] @ (if p = ZunionInterGetKeys then [1] else [])))"
proof -
  have "map (\<lambda>i. 3 + int i) [0..<nat n] = [3..n + 2]" if "0 \<le> n"
    using that by (intro nth_equalityI) simp_all
  then show ?thesis using assms(1,2) atoi_dec_arg [OF assms(3,4)]
    by (auto simp: getKeysFromCommand_def evalGetKeys_def zunionInterGetKeys_def Let_def)
qed

theorem getKeysFromCommand_negative_witness:
  "getKeysFromCommand eval_command [[101], [115], dec_arg (- 1)] = None \<and>
   getKeysFromCommand zunion_command [[122], [100], dec_arg (- 1), [107]] = None \<and>
   getKeysFromCommand zunion_command [[122], [100], dec_arg 1, [107]] = Some [3, 1]"
  using getKeysFromCommand_negative [of eval_command EvalGetKeys "- 1" "[101]" "[115]" "[]"]
    getKeysFromCommand_negative [of zunion_command ZunionInterGetKeys "- 1" "[122]" "[100]" "[[107]]"]
    getKeysFromCommand_negative [of zunion_command ZunionInterGetKeys 1 "[122]" "[100]" "[[107]]"]
  by (simp add: eval_command_def zunion_command_def)

end
