(* ===== verification/Cluster_Redirect.thy ===== *)
theory Cluster_Redirect
  imports Cluster_Config Command_Keys
begin

text \<open>
  Routing of client requests in \<^verbatim>\<open>src/redis-3.0.3/src/cluster.c\<close>: the slot of a key, \<open>getNodeByQuery\<close> and the
  redirection of blocked clients.  The database is a predicate, the keys this node holds.
\<close>

section \<open>Hash slots\<close>

fun find_byte :: "u8 \<Rightarrow> u8 list \<Rightarrow> nat \<Rightarrow> nat" where
  "find_byte b [] i = i"
| "find_byte b (x # xs) i = (if x = b then i else find_byte b xs (i + 1))"

definition slot_of :: "u8 list \<Rightarrow> nat option" where
  "slot_of bs = map_option (\<lambda>c. unat (c AND 0x3FFF)) (crc16 bs)"

definition keyHashSlot :: "u8 list \<Rightarrow> nat option" where
  "keyHashSlot key =
    (let s = find_byte 123 key 0 in
     if s = length key then slot_of key
     else
       let e = find_byte 125 (drop (s + 1) key) (s + 1) in
       if e = length key \<or> e = s + 1 then slot_of key
       else slot_of (take (e - s - 1) (drop (s + 1) key)))"

section \<open>Clients and requests\<close>

datatype redir = REDIR_NONE | REDIR_CROSS_SLOT | REDIR_UNSTABLE | REDIR_ASK | REDIR_MOVED | REDIR_DOWN_STATE
  | REDIR_DOWN_UNBOUND

record client =
  c_multi :: bool
  c_asking :: bool
  c_readonly :: bool
  c_mstate :: "(redisCommand \<times> u8 list list) list"

text \<open>The local variables of \<open>getNodeByQuery\<close>.\<close>

record query =
  q_n :: "nat option"
  q_firstkey :: "u8 list option"
  q_multiple_keys :: bool
  q_slot :: nat
  q_migrating_slot :: bool
  q_importing_slot :: bool
  q_missing_keys :: nat

definition query_init :: query where
  "query_init = \<lparr>q_n = None, q_firstkey = None, q_multiple_keys = False, q_slot = 0, q_migrating_slot = False,
     q_importing_slot = False, q_missing_keys = 0\<rparr>"

text \<open>The first key decides the slot and its node; \<open>Inl\<close> is an early return with its error code.\<close>

definition first_key :: "clusterState \<Rightarrow> u8 list \<Rightarrow> nat \<Rightarrow> query \<Rightarrow> redir + query" where
  "first_key cs thiskey thisslot q =
    (let q = q\<lparr>q_firstkey := Some thiskey, q_slot := thisslot, q_n := cs_slots cs ! thisslot\<rparr> in
     if q_n q = None then Inl REDIR_DOWN_UNBOUND
     else if q_n q = Some (cs_myself cs) \<and> cs_migrating_slots_to cs ! thisslot \<noteq> None then Inr (q\<lparr>q_migrating_slot := True\<rparr>)
     else if cs_importing_slots_from cs ! thisslot \<noteq> None then Inr (q\<lparr>q_importing_slot := True\<rparr>)
     else Inr q)"

definition other_key :: "u8 list \<Rightarrow> nat \<Rightarrow> u8 list \<Rightarrow> query \<Rightarrow> redir + query" where
  "other_key thiskey thisslot firstkey q =
    (if firstkey \<noteq> thiskey then
       if q_slot q \<noteq> thisslot then Inl REDIR_CROSS_SLOT else Inr (q\<lparr>q_multiple_keys := True\<rparr>)
     else Inr q)"

definition note_missing :: "(u8 list \<Rightarrow> bool) \<Rightarrow> u8 list \<Rightarrow> query \<Rightarrow> query" where
  "note_missing held thiskey q =
    (if (q_migrating_slot q \<or> q_importing_slot q) \<and> \<not> held thiskey then q\<lparr>q_missing_keys := q_missing_keys q + 1\<rparr> else q)"

definition query_key :: "(u8 list \<Rightarrow> bool) \<Rightarrow> clusterState \<Rightarrow> u8 list \<Rightarrow> query \<Rightarrow> (redir + query) option" where
  "query_key held cs thiskey q = do {
     thisslot \<leftarrow> keyHashSlot thiskey;
     Some (case (case q_firstkey q of None \<Rightarrow> first_key cs thiskey thisslot q
                 | Some firstkey \<Rightarrow> other_key thiskey thisslot firstkey q) of
             Inl e \<Rightarrow> Inl e
           | Inr q \<Rightarrow> Inr (note_missing held thiskey q)) }"

fun query_keys :: "(u8 list \<Rightarrow> bool) \<Rightarrow> clusterState \<Rightarrow> u8 list list \<Rightarrow> int list \<Rightarrow> query \<Rightarrow> (redir + query) option" where
  "query_keys held cs argv [] q = Some (Inr q)"
| "query_keys held cs argv (i # is) q =
    (if i < 0 then None
     else do {
       k \<leftarrow> array_get argv (nat i);
       r \<leftarrow> query_key held cs k q;
       (case r of Inl e \<Rightarrow> Some (Inl e) | Inr q \<Rightarrow> query_keys held cs argv is q) })"

fun query_cmds :: "(u8 list \<Rightarrow> bool) \<Rightarrow> clusterState \<Rightarrow> (redisCommand \<times> u8 list list) list \<Rightarrow> query \<Rightarrow> (redir + query) option" where
  "query_cmds held cs [] q = Some (Inr q)"
| "query_cmds held cs ((mcmd, margv) # ms) q = do {
     is \<leftarrow> getKeysFromCommand mcmd margv;
     r \<leftarrow> query_keys held cs margv is q;
     (case r of Inl e \<Rightarrow> Some (Inl e) | Inr q \<Rightarrow> query_cmds held cs ms q) }"

text \<open>The decision after the loops, from the node of the slot.\<close>

definition query_decide :: "clusterState \<Rightarrow> client \<Rightarrow> redisCommand \<Rightarrow> query \<Rightarrow> nat \<Rightarrow> nat option \<times> redir" where
  "query_decide cs c cmd q n =
    (if q_migrating_slot q \<and> q_missing_keys q \<noteq> 0 then (cs_migrating_slots_to cs ! q_slot q, REDIR_ASK)
     else if q_importing_slot q \<and> (c_asking c \<or> cmd_asking cmd) then
       if q_multiple_keys q \<and> q_missing_keys q \<noteq> 0 then (None, REDIR_UNSTABLE) else (Some (cs_myself cs), REDIR_NONE)
     else if c_readonly c \<and> cmd_readonly cmd \<and> nodeIsSlave (myself cs) \<and> cn_slaveof (myself cs) = Some n
       then (Some (cs_myself cs), REDIR_NONE)
     else (Some n, if n \<noteq> cs_myself cs then REDIR_MOVED else REDIR_NONE))"

text \<open>The result is the node, the error code and the slot when it was set.\<close>

definition getNodeByQuery :: "(u8 list \<Rightarrow> bool) \<Rightarrow> clusterState \<Rightarrow> client \<Rightarrow> redisCommand \<Rightarrow> u8 list list \<Rightarrow>
    (nat option \<times> redir \<times> nat option) option" where
  "getNodeByQuery held cs c cmd argv =
    (if cmd_exec cmd \<and> \<not> c_multi c then Some (Some (cs_myself cs), REDIR_NONE, None)
     else do {
       r \<leftarrow> query_cmds held cs (if cmd_exec cmd then c_mstate c else [(cmd, argv)]) query_init;
       Some (case r of
         Inl e \<Rightarrow> (None, e, None)
       | Inr q \<Rightarrow>
           (case q_n q of
              None \<Rightarrow> (Some (cs_myself cs), REDIR_NONE, None)
            | Some n \<Rightarrow> (let (m, e) = query_decide cs c cmd q n in (m, e, Some (q_slot q))))) })"

text \<open>The check of a blocked client, over the keys it waits for in the order of the iterator.\<close>

fun blocked_keys :: "clusterState \<Rightarrow> u8 list list \<Rightarrow> (nat option \<times> nat \<times> redir) option option" where
  "blocked_keys cs [] = Some None"
| "blocked_keys cs (key # ks) = do {
     slot \<leftarrow> keyHashSlot key;
     let n = cs_slots cs ! slot;
     if n \<noteq> Some (cs_myself cs) \<and> cs_importing_slots_from cs ! slot = None
     then Some (Some (if n = None then (None, 0, REDIR_DOWN_UNBOUND) else (n, slot, REDIR_MOVED)))
     else blocked_keys cs ks }"

text \<open>\<open>Some (Some (n, slot, code))\<close> redirects the client with these arguments and unblocks it.\<close>

definition clusterRedirectBlockedClientIfNeeded ::
    "clusterState \<Rightarrow> bool \<Rightarrow> u8 list list \<Rightarrow> (nat option \<times> nat \<times> redir) option option" where
  "clusterRedirectBlockedClientIfNeeded cs blocked_on_list keys =
    (if blocked_on_list then
       if cs_state cs = CLUSTER_FAIL then Some (Some (None, 0, REDIR_DOWN_STATE)) else blocked_keys cs keys
     else Some None)"

section \<open>The slot of a key\<close>

definition hash_tag :: "u8 list \<Rightarrow> u8 list" where
  "hash_tag key =
    (let rest = tl (dropWhile (\<lambda>b. b \<noteq> 123) key); tag = takeWhile (\<lambda>b. b \<noteq> 125) rest
     in if 123 \<in> set key \<and> 125 \<in> set rest \<and> tag \<noteq> [] then tag else key)"

definition key_slot :: "u8 list \<Rightarrow> nat" where
  "key_slot key = unat (crc16_serial (hash_tag key) AND 0x3FFF)"

lemma find_byte_takeWhile: "find_byte b xs i = i + length (takeWhile (\<lambda>x. x \<noteq> b) xs)"
  by (induction xs arbitrary: i) auto

lemma takeWhile_full: "length (takeWhile P xs) = length xs \<longleftrightarrow> (\<forall>x \<in> set xs. P x)"
  by (induction xs) auto

lemma drop_takeWhile: "drop (Suc (length (takeWhile P xs))) xs = tl (dropWhile P xs)"
  by (induction xs) (auto simp: drop_Suc tl_drop)

lemma slot_of_serial: "slot_of bs = Some (unat (crc16_serial bs AND 0x3FFF))"
  by (simp add: slot_of_def crc16_def crc16_loop_serial crc16_serial_def)

lemma key_slot_less: "key_slot key < CLUSTER_SLOTS"
proof -
  have "crc16_serial (hash_tag key) AND 0x3FFF \<le> (0x3FFF :: u16)" by (rule word_and_le1)
  then show ?thesis by (simp add: key_slot_def word_le_nat_alt)
qed

text \<open>(C35) The slot of a key is the CRC-16 of its hash tag, the non-empty text between the first opening brace
  and the first closing brace after it, or of the whole key when it has none; it is a slot of the table,
  and no read leaves the key.\<close>

theorem keyHashSlot_spec: "keyHashSlot key = Some (key_slot key) \<and> key_slot key < CLUSTER_SLOTS"
proof -
  let ?s = "length (takeWhile (\<lambda>b. b \<noteq> 123) key)" and ?rest = "tl (dropWhile (\<lambda>b. b \<noteq> 123) key)"
  let ?tag = "takeWhile (\<lambda>b. b \<noteq> 125) ?rest"
  have s: "find_byte 123 key 0 = ?s" by (simp add: find_byte_takeWhile)
  have full: "?s = length key \<longleftrightarrow> 123 \<notin> set key" by (auto simp: takeWhile_full)
  have rest: "drop (?s + 1) key = ?rest" by (simp add: drop_takeWhile)
  have e: "find_byte 125 ?rest (?s + 1) = ?s + 1 + length ?tag" by (simp add: find_byte_takeWhile)
  have tag: "take (?s + 1 + length ?tag - ?s - 1) ?rest = ?tag"
    by (simp add: takeWhile_eq_take [symmetric])
  have "?s + 1 + length ?tag = length key \<longleftrightarrow> 125 \<notin> set ?rest" if "123 \<in> set key"
  proof -
    have "?s < length key" using full that length_takeWhile_le [of "\<lambda>b. b \<noteq> 123" key] by linarith
    then have "length key = ?s + 1 + length ?rest" using arg_cong [OF rest, of length] by simp
    then have "?s + 1 + length ?tag = length key \<longleftrightarrow> length ?tag = length ?rest" by linarith
    then show ?thesis using takeWhile_full [of "\<lambda>b. b \<noteq> 125" ?rest] by blast
  qed
  then have "keyHashSlot key = slot_of (hash_tag key)"
    unfolding keyHashSlot_def hash_tag_def Let_def s rest e tag full by (auto simp: full)
  then show ?thesis using key_slot_less by (simp add: slot_of_serial key_slot_def)
qed

section \<open>Routing\<close>

text \<open>The keys of a request, in order, and the loop over them.\<close>

fun request_keys :: "(redisCommand \<times> u8 list list) list \<Rightarrow> u8 list list option" where
  "request_keys [] = Some []"
| "request_keys ((mcmd, margv) # ms) = do {
     is \<leftarrow> getKeysFromCommand mcmd margv;
     ks \<leftarrow> those (map (\<lambda>i. if i < 0 then None else array_get margv (nat i)) is);
     ks' \<leftarrow> request_keys ms;
     Some (ks @ ks') }"

fun query_list :: "(u8 list \<Rightarrow> bool) \<Rightarrow> clusterState \<Rightarrow> u8 list list \<Rightarrow> query \<Rightarrow> (redir + query) option" where
  "query_list held cs [] q = Some (Inr q)"
| "query_list held cs (k # ks) q = do {
     r \<leftarrow> query_key held cs k q;
     (case r of Inl e \<Rightarrow> Some (Inl e) | Inr q \<Rightarrow> query_list held cs ks q) }"

lemma query_list_append:
  "query_list held cs (ks @ ks') q = do {
     r \<leftarrow> query_list held cs ks q;
     (case r of Inl e \<Rightarrow> Some (Inl e) | Inr q \<Rightarrow> query_list held cs ks' q) }"
  by (induction ks arbitrary: q) (auto split: sum.splits bind_splits)

lemma query_keys_list:
  "those (map (\<lambda>i. if i < 0 then None else array_get argv (nat i)) is) = Some ks \<Longrightarrow>
   query_keys held cs argv is q = query_list held cs ks q"
proof (induction "is" arbitrary: ks q)
  case (Cons i "is")
  then obtain k ks' where k: "0 \<le> i" "array_get argv (nat i) = Some k" "ks = k # ks'"
    "those (map (\<lambda>i. if i < 0 then None else array_get argv (nat i)) is) = Some ks'"
    by (auto split: if_splits option.splits)
  have "query_keys held cs argv is = query_list held cs ks'" by (rule ext) (rule Cons.IH [OF k(4)])
  then show ?case using k by simp
qed simp

lemma query_cmds_list: "request_keys ms = Some ks \<Longrightarrow> query_cmds held cs ms q = query_list held cs ks q"
proof (induction ms arbitrary: ks q)
  case (Cons m ms)
  obtain mcmd margv where m: "m = (mcmd, margv)" by (cases m)
  obtain "is" ks1 ks2 where k: "getKeysFromCommand mcmd margv = Some is"
    "those (map (\<lambda>i. if i < 0 then None else array_get margv (nat i)) is) = Some ks1" "request_keys ms = Some ks2"
    "ks = ks1 @ ks2"
    using Cons.prems m by (auto simp: bind_eq_Some_conv)
  have "query_cmds held cs ms = query_list held cs ks2" by (rule ext) (rule Cons.IH [OF k(3)])
  then show ?case using k(1,4) m by (simp add: query_keys_list [OF k(2)] query_list_append)
qed simp

text \<open>What the loop computes, key by key, once the first key is known.\<close>

definition after_keys :: "(u8 list \<Rightarrow> bool) \<Rightarrow> u8 list \<Rightarrow> u8 list list \<Rightarrow> query \<Rightarrow> query" where
  "after_keys held f ks q = q\<lparr>q_multiple_keys := (q_multiple_keys q \<or> (\<exists>k \<in> set ks. k \<noteq> f)),
     q_missing_keys := q_missing_keys q +
       (if q_migrating_slot q \<or> q_importing_slot q then length (filter (\<lambda>k. \<not> held k) ks) else 0)\<rparr>"

lemma query_list_rest:
  assumes "q_firstkey q = Some f" and "q_slot q = key_slot f"
  shows "query_list held cs ks q =
    Some (if \<exists>k \<in> set ks. key_slot k \<noteq> q_slot q then Inl REDIR_CROSS_SLOT else Inr (after_keys held f ks q))"
  using assms
proof (induction ks arbitrary: q)
  case Nil
  then show ?case by (simp add: after_keys_def)
next
  case (Cons k ks)
  show ?case
  proof (cases "key_slot k = q_slot q")
    case True
    define q1 where "q1 = note_missing held k (if f \<noteq> k then q\<lparr>q_multiple_keys := True\<rparr> else q)"
    have "query_key held cs k q = Some (Inr q1)"
      using Cons.prems True by (simp add: query_key_def keyHashSlot_spec other_key_def q1_def)
    moreover have "q_firstkey q1 = Some f" "q_slot q1 = q_slot q"
      using Cons.prems by (simp_all add: q1_def note_missing_def)
    moreover have "after_keys held f ks q1 = after_keys held f (k # ks) q"
      by (auto simp: after_keys_def q1_def note_missing_def)
    ultimately show ?thesis using Cons.IH [of q1] Cons.prems True by simp
  next
    case False
    then have "f \<noteq> k" using Cons.prems by auto
    then show ?thesis using False Cons.prems by (simp add: query_key_def keyHashSlot_spec other_key_def)
  qed
qed

text \<open>The route of a request, stated over its keys: the owner of the slot of the first key, and what is known
  of all keys at once.\<close>

definition route :: "(u8 list \<Rightarrow> bool) \<Rightarrow> clusterState \<Rightarrow> bool \<Rightarrow> bool \<Rightarrow> u8 list list \<Rightarrow> nat option \<times> redir \<times> nat option" where
  "route held cs asking reading ks =
    (let me = cs_myself cs; s = key_slot (hd ks); missing = (\<exists>k \<in> set ks. \<not> held k);
         migrating = (cs_slots cs ! s = Some me \<and> cs_migrating_slots_to cs ! s \<noteq> None);
         importing = (\<not> migrating \<and> cs_importing_slots_from cs ! s \<noteq> None) in
     if ks = [] then (Some me, REDIR_NONE, None)
     else case cs_slots cs ! s of
       None \<Rightarrow> (None, REDIR_DOWN_UNBOUND, None)
     | Some n \<Rightarrow>
         if \<exists>k \<in> set ks. key_slot k \<noteq> s then (None, REDIR_CROSS_SLOT, None)
         else if migrating \<and> missing then (cs_migrating_slots_to cs ! s, REDIR_ASK, Some s)
         else if importing \<and> asking \<and> (\<exists>k \<in> set ks. k \<noteq> hd ks) \<and> missing then (None, REDIR_UNSTABLE, Some s)
         else if importing \<and> asking \<or> n = me \<or> reading \<and> nodeIsSlave (myself cs) \<and> cn_slaveof (myself cs) = Some n
         then (Some me, REDIR_NONE, Some s)
         else (Some n, REDIR_MOVED, Some s))"

text \<open>(C34) The single pass over a request, which may be a whole transaction, finds the route of the set of its
  keys: the error of an unserved slot first, then keys of different slots, then redirections by the state of
  the slot.  In particular a request is served here only when the slot is ours and stable or every key is
  held, or it is being imported and the client asks, or a replica reads for its master.\<close>

theorem getNodeByQuery_route:
  assumes "request_keys (if cmd_exec cmd then c_mstate c else [(cmd, argv)]) = Some ks" and "cmd_exec cmd \<longrightarrow> c_multi c"
  shows "getNodeByQuery held cs c cmd argv =
    Some (route held cs (c_asking c \<or> cmd_asking cmd) (c_readonly c \<and> cmd_readonly cmd) ks)"
proof (cases ks)
  case Nil
  then show ?thesis
    using assms by (simp add: getNodeByQuery_def query_cmds_list [OF assms(1)] query_init_def route_def)
next
  case (Cons k ks')
  note q = query_cmds_list [OF assms(1), of held cs query_init]
  let ?s = "key_slot k"
  show ?thesis
  proof (cases "cs_slots cs ! ?s")
    case None
    then have "query_list held cs ks query_init = Some (Inl REDIR_DOWN_UNBOUND)"
      using Cons by (simp add: query_key_def keyHashSlot_spec first_key_def query_init_def)
    then show ?thesis using assms(2) Cons None by (auto simp: getNodeByQuery_def q route_def Let_def)
  next
    case (Some n)
    define mg where "mg = (n = cs_myself cs \<and> cs_migrating_slots_to cs ! ?s \<noteq> None)"
    define im where "im = (\<not> mg \<and> cs_importing_slots_from cs ! ?s \<noteq> None)"
    define q0 where "q0 = \<lparr>q_n = Some n, q_firstkey = Some k, q_multiple_keys = False, q_slot = ?s, q_migrating_slot = mg,
      q_importing_slot = im, q_missing_keys = 0\<rparr>"
    have "query_key held cs k query_init = Some (Inr (note_missing held k q0))"
      using Some by (auto simp: query_key_def keyHashSlot_spec first_key_def query_init_def Let_def q0_def mg_def im_def)
    moreover have "after_keys held k ks' (note_missing held k q0) = after_keys held k ks q0"
      by (simp add: after_keys_def note_missing_def Cons)
    ultimately have l: "query_list held cs ks query_init =
        Some (if \<exists>k \<in> set ks. key_slot k \<noteq> ?s then Inl REDIR_CROSS_SLOT else Inr (after_keys held k ks q0))"
      using query_list_rest [of "note_missing held k q0" k held cs ks'] Cons by (simp add: note_missing_def q0_def)
    have missing: "length (filter (\<lambda>k. \<not> held k) ks) = 0 \<longleftrightarrow> \<not> (\<exists>k \<in> set ks. \<not> held k)"
      by (simp add: filter_empty_conv)
    show ?thesis
    proof (cases "\<exists>k \<in> set ks. key_slot k \<noteq> ?s")
      case True
      then show ?thesis using assms(2) Cons Some l by (auto simp: getNodeByQuery_def q route_def Let_def)
    next
      case False
      then have r: "getNodeByQuery held cs c cmd argv = Some
          (let (m, e) = query_decide cs c cmd (after_keys held k ks q0) n in (m, e, Some ?s))"
        using assms(2) l by (auto simp: getNodeByQuery_def q after_keys_def q0_def Let_def split: prod.splits)
      define miss where "miss = (\<exists>k \<in> set ks. \<not> held k)"
      define mult where "mult = (\<exists>k' \<in> set ks. k' \<noteq> k)"
      define q1 where "q1 = after_keys held k ks q0"
      have q1: "q_migrating_slot q1 = mg" "q_importing_slot q1 = im" "q_multiple_keys q1 = mult" "q_slot q1 = ?s"
        "q_missing_keys q1 \<noteq> 0 \<longleftrightarrow> (mg \<or> im) \<and> miss"
        using missing by (auto simp: q1_def after_keys_def q0_def mult_def miss_def)
      have hd: "hd ks = k" "ks \<noteq> []" using Cons by simp_all
      have mg: "(cs_slots cs ! ?s = Some (cs_myself cs) \<and> cs_migrating_slots_to cs ! ?s \<noteq> None) = mg" using Some by (simp add: mg_def)
      have route: "route held cs asking reading ks =
        (if mg \<and> miss then (cs_migrating_slots_to cs ! ?s, REDIR_ASK, Some ?s)
         else if im \<and> asking \<and> mult \<and> miss then (None, REDIR_UNSTABLE, Some ?s)
         else if im \<and> asking \<or> n = cs_myself cs \<or> reading \<and> nodeIsSlave (myself cs) \<and> cn_slaveof (myself cs) = Some n
         then (Some (cs_myself cs), REDIR_NONE, Some ?s) else (Some n, REDIR_MOVED, Some ?s))" for asking reading
        unfolding route_def Let_def hd mg im_def [symmetric] miss_def [symmetric] mult_def [symmetric]
        using False hd(2) by (simp only: Some if_False option.case refl)
      show ?thesis
        unfolding r q1_def [symmetric] query_decide_def route q1 by auto
    qed
  qed
qed

definition world :: "bool \<Rightarrow> nat \<Rightarrow> clusterState" where
  "world migrating a = demo_cluster\<lparr>cs_myself := a, cs_slots := replicate CLUSTER_SLOTS (Some 1),
     cs_migrating_slots_to := replicate CLUSTER_SLOTS (if migrating \<and> a = 1 then Some 2 else None),
     cs_importing_slots_from := replicate CLUSTER_SLOTS (if migrating \<and> a = 2 then Some 1 else None)\<rparr>"

definition get_command :: redisCommand where
  "get_command = \<lparr>cmd_exec = False, cmd_readonly = True, cmd_asking = False, cmd_getkeys_proc = None,
     cmd_firstkey = 1, cmd_lastkey = 1, cmd_keystep = 1\<rparr>"

definition get_argv :: "u8 list list" where "get_argv = [[103, 101, 116], [107]]"

definition plain_client :: client where
  "plain_client = \<lparr>c_multi = False, c_asking = False, c_readonly = False, c_mstate = []\<rparr>"

lemma get_keys: "request_keys [(get_command, get_argv)] = Some [[107]]"
  by (simp add: get_command_def get_argv_def getKeysFromCommand_def getKeysUsingCommandTable_def table_positions.simps
      array_get_def)

lemma world_fields [simp]:
  "cs_myself (world m a) = a" "cs_slots (world m a) ! key_slot k = Some 1"
  "cs_migrating_slots_to (world m a) ! key_slot k = (if m \<and> a = 1 then Some 2 else None)"
  "cs_importing_slots_from (world m a) ! key_slot k = (if m \<and> a = 2 then Some 1 else None)"
  using key_slot_less [of k] by (simp_all add: world_def)

theorem getNodeByQuery_route_witness:
  "getNodeByQuery (\<lambda>k. False) (world True 1) plain_client get_command get_argv =
    Some (Some 2, REDIR_ASK, Some (key_slot [107]))"
  using getNodeByQuery_route [of get_command plain_client get_argv "[[107]]" "\<lambda>k. False" "world True 1"] get_keys
  by (simp add: get_command_def plain_client_def route_def Let_def)

section \<open>Following redirections\<close>

text \<open>A client that follows redirections: after an ASK it announces itself with ASKING, after a MOVED not.\<close>

fun follow :: "nat \<Rightarrow> (nat \<Rightarrow> u8 list \<Rightarrow> bool) \<Rightarrow> (nat \<Rightarrow> clusterState) \<Rightarrow> client \<Rightarrow> redisCommand \<Rightarrow> u8 list list \<Rightarrow>
    bool \<Rightarrow> nat \<Rightarrow> nat option" where
  "follow 0 held w c cmd argv asking a = None"
| "follow (Suc steps) held w c cmd argv asking a =
    (case getNodeByQuery (held a) (w a) (c\<lparr>c_asking := asking\<rparr>) cmd argv of
       Some (Some n, REDIR_NONE, _) \<Rightarrow> Some a
     | Some (Some n, REDIR_MOVED, _) \<Rightarrow> follow steps held w c cmd argv False n
     | Some (Some n, REDIR_ASK, _) \<Rightarrow> follow steps held w c cmd argv True n
     | _ \<Rightarrow> None)"

text \<open>(C33) Redirections lead to a server.  When the nodes agree on the owner of the slot of a request, and a slot
  that its owner migrates is being imported by the target, then a client that starts at any node is served after
  at most two redirections: by the owner when it still holds every key, and otherwise by the target of
  the migration (which must hold every key when the request names different keys).  The request is a single
  command with keys of one slot, neither \<open>EXEC\<close> nor \<open>ASKING\<close> or a command with that flag, of a client that
  has not sent \<open>READONLY\<close>.\<close>

theorem redirections_lead_to_server:
  assumes "request_keys [(cmd, argv)] = Some (k # ks)" and "\<not> cmd_exec cmd" and "\<not> cmd_asking cmd" and "\<not> c_readonly c"
    and "\<forall>k' \<in> set ks. key_slot k' = key_slot k"
    and "\<forall>a. cs_myself (w a) = a \<and> cs_slots (w a) ! key_slot k = Some own"
    and "cs_migrating_slots_to (w own) ! key_slot k = to" and "to \<noteq> Some own"
    and "\<forall>b. to = Some b \<longrightarrow> cs_importing_slots_from (w b) ! key_slot k \<noteq> None \<and>
      ((\<forall>k' \<in> set ks. k' = k) \<or> (\<forall>k' \<in> set (k # ks). held b k'))"
  shows "follow 3 held w c cmd argv False a =
    Some (case to of None \<Rightarrow> own | Some b \<Rightarrow> if \<forall>k' \<in> set (k # ks). held own k' then own else b)"
proof -
  let ?target = "case to of None \<Rightarrow> own | Some b \<Rightarrow> if \<forall>k' \<in> set (k # ks). held own k' then own else b"
  have r: "getNodeByQuery h (w x) (c\<lparr>c_asking := asking\<rparr>) cmd argv = Some (route h (w x) asking False (k # ks))" for h x asking
    using getNodeByQuery_route [of cmd "c\<lparr>c_asking := asking\<rparr>" argv "k # ks" h "w x"] assms(1-4) by simp
  note fields = assms(6) [rule_format, THEN conjunct1] assms(6) [rule_format, THEN conjunct2]
  have importer: "follow (Suc n) held w c cmd argv True b = Some b" if "to = Some b" for b n
    using assms(5,8,9) that by (auto simp: r route_def fields Let_def)
  have owner: "follow (Suc (Suc n)) held w c cmd argv False own = Some ?target" for n
  proof (cases to)
    case None
    then show ?thesis using assms(5,7) by (auto simp: r route_def fields Let_def)
  next
    case (Some b)
    then have "route (held own) (w own) False False (k # ks) =
      (if \<forall>k' \<in> set (k # ks). held own k' then (Some own, REDIR_NONE, Some (key_slot k)) else (Some b, REDIR_ASK, Some (key_slot k)))"
      using assms(5,7) by (auto simp: route_def fields Let_def)
    then show ?thesis using importer [OF Some, of n] Some by (simp only: follow.simps(2) [of "Suc n"] r) auto
  qed
  have three: "(3 :: nat) = Suc (Suc (Suc 0))" by simp
  show ?thesis
  proof (cases "a = own")
    case True
    then show ?thesis using owner [of "Suc 0"] by (simp only: three)
  next
    case False
    then have "route (held a) (w a) False False (k # ks) = (Some own, REDIR_MOVED, Some (key_slot k))"
      using assms(5) by (auto simp: route_def fields Let_def)
    then show ?thesis using owner [of 0] by (simp only: three follow.simps(2) [of "Suc (Suc 0)"] r) simp
  qed
qed

theorem redirections_lead_to_server_witness:
  "follow 3 (\<lambda>a k. a = 2) (world True) plain_client get_command get_argv False 5 = Some 2"
  using redirections_lead_to_server [OF get_keys, of plain_client "world True" 1 "Some 2" "\<lambda>a k. a = 2" 5]
  by (simp add: get_command_def plain_client_def)

section \<open>Blocked clients\<close>

definition handled_here :: "clusterState \<Rightarrow> u8 list \<Rightarrow> bool" where
  "handled_here cs k \<longleftrightarrow>
    cs_slots cs ! key_slot k = Some (cs_myself cs) \<or> cs_importing_slots_from cs ! key_slot k \<noteq> None"

text \<open>A client blocked on lists stays blocked exactly when the cluster is up and every key it waits for is in
  a slot that this node owns or imports; otherwise it is redirected by the first key that is not.\<close>

theorem clusterRedirectBlockedClientIfNeeded_spec:
  "clusterRedirectBlockedClientIfNeeded cs True keys = Some None \<longleftrightarrow>
    cs_state cs = CLUSTER_OK \<and> list_all (handled_here cs) keys"
proof -
  have "blocked_keys cs keys = Some None \<longleftrightarrow> list_all (handled_here cs) keys"
    by (induction keys) (auto simp: keyHashSlot_spec Let_def handled_here_def)
  then show ?thesis by (cases "cs_state cs") (simp_all add: clusterRedirectBlockedClientIfNeeded_def)
qed

end
