(* ===== verification/Skiplist.thy ===== *)
theory Skiplist
  imports Prelude
begin

text \<open>
  The skip list of sorted sets, \<^verbatim>\<open>t_zset.c\<close> of \<^verbatim>\<open>src/redis-3.0.3/src\<close>, over an explicit store of nodes.  A score
  is an element of a linear order: a double other than NaN under \<open><\<close> and \<open>==\<close>, the only operations the code
  applies to it; an object is a string under \<open>compareStringObjects\<close>.  Spans are of
  type \<open>unsigned int\<close> and so are the ranks of the insertion; the ranks of the queries and the length are of
  type \<open>unsigned long\<close>: every value stored is reduced to its width.  \<open>None\<close> is the dereference of NULL or of a freed node, or an access
  outside the levels of a node.
\<close>

section \<open>Data\<close>

record 'o zrange =
  zr_min :: 'o
  zr_max :: 'o
  zr_minex :: bool
  zr_maxex :: bool

record ('s, 'o) zskiplistNode =
  zn_obj :: "'o option"
  zn_score :: 's
  zn_backward :: "nat option"
  zn_level :: "(nat option \<times> int) list"

type_synonym ('s, 'o) zheap = "nat \<Rightarrow> ('s, 'o) zskiplistNode option"

record zskiplist =
  zsl_header :: nat
  zsl_tail :: "nat option"
  zsl_length :: int
  zsl_level :: nat

abbreviation (input) ZSKIPLIST_MAXLEVEL :: nat where "ZSKIPLIST_MAXLEVEL \<equiv> 32"

definition zslCreateNode :: "nat \<Rightarrow> 's \<Rightarrow> 'o option \<Rightarrow> ('s, 'o) zskiplistNode" where
  "zslCreateNode level score obj =
    \<lparr>zn_obj = obj, zn_score = score, zn_backward = None, zn_level = replicate level (None, 0)\<rparr>"

text \<open>\<open>a\<close> is the address of the header; \<open>zero\<close> its score.\<close>

definition zslCreate :: "nat \<Rightarrow> 's \<Rightarrow> ('s, 'o) zheap \<Rightarrow> ('s, 'o) zheap \<times> zskiplist" where
  "zslCreate a zero h =
    (h(a \<mapsto> zslCreateNode ZSKIPLIST_MAXLEVEL zero None),
     \<lparr>zsl_header = a, zsl_tail = None, zsl_length = 0, zsl_level = 1\<rparr>)"

text \<open>The values of \<open>random()\<close> are an argument; the loop may draw any number of them.  The constant
  \<open>ZSKIPLIST_P * 0xFFFF\<close> is 16383.75.\<close>

fun randomLevel_loop :: "nat list \<Rightarrow> nat \<Rightarrow> nat option" where
  "randomLevel_loop [] level = None"
| "randomLevel_loop (r # rs) level =
    (if r AND 0xFFFF \<le> 16383 then randomLevel_loop rs (level + 1) else Some level)"

definition zslRandomLevel :: "nat list \<Rightarrow> nat option" where
  "zslRandomLevel rs = do {
     level \<leftarrow> randomLevel_loop rs 1;
     Some (if level < ZSKIPLIST_MAXLEVEL then level else ZSKIPLIST_MAXLEVEL) }"

section \<open>Walking down the levels\<close>

text \<open>The loop of one level: follow the links while the next node, with the rank it would have, satisfies the
  condition; \<open>w\<close> is the width of the rank.\<close>

partial_function (option) search_level ::
    "(int \<Rightarrow> int) \<Rightarrow> ('s, 'o) zheap \<Rightarrow> (('s, 'o) zskiplistNode \<Rightarrow> int \<Rightarrow> bool) \<Rightarrow> nat \<Rightarrow> nat \<Rightarrow> int \<Rightarrow> (nat \<times> int) option" where
  "search_level w h P i x r = do {
     n \<leftarrow> h x;
     (f, span) \<leftarrow> array_get (zn_level n) i;
     (case f of
        None \<Rightarrow> Some (x, r)
      | Some y \<Rightarrow> do {
          m \<leftarrow> h y;
          if P m (w (r + span)) then search_level w h P i y (w (r + span)) else Some (x, r) }) }"

text \<open>All levels from \<open>i - 1\<close> to 0; the result lists, by level, the \<open>update\<close> node and its rank.\<close>

fun search :: "(int \<Rightarrow> int) \<Rightarrow> ('s, 'o) zheap \<Rightarrow> (('s, 'o) zskiplistNode \<Rightarrow> int \<Rightarrow> bool) \<Rightarrow> nat \<Rightarrow> nat \<Rightarrow> int \<Rightarrow> (nat \<times> int) list \<Rightarrow>
    (nat \<times> int) list option" where
  "search w h P 0 x r ups = Some ups"
| "search w h P (Suc i) x r ups = do {
     (x, r) \<leftarrow> search_level w h P i x r;
     search w h P i x r ((x, r) # ups) }"

definition zsl_search :: "(int \<Rightarrow> int) \<Rightarrow> ('s, 'o) zheap \<Rightarrow> zskiplist \<Rightarrow> (('s, 'o) zskiplistNode \<Rightarrow> int \<Rightarrow> bool) \<Rightarrow> (nat \<times> int) list option" where
  "zsl_search w h zsl P = search w h P (zsl_level zsl) (zsl_header zsl) 0 []"

definition node_before :: "'s :: linorder \<Rightarrow> 'o :: linorder \<Rightarrow> ('s, 'o) zskiplistNode \<Rightarrow> bool" where
  "node_before score obj n \<longleftrightarrow>
    zn_score n < score \<or> zn_score n = score \<and> (case zn_obj n of None \<Rightarrow> False | Some b \<Rightarrow> b < obj)"

definition node_upto :: "'s :: linorder \<Rightarrow> 'o :: linorder \<Rightarrow> ('s, 'o) zskiplistNode \<Rightarrow> bool" where
  "node_upto score obj n \<longleftrightarrow>
    zn_score n < score \<or> zn_score n = score \<and> (case zn_obj n of None \<Rightarrow> False | Some b \<Rightarrow> b \<le> obj)"

section \<open>Insertion\<close>

definition get_link :: "('s, 'o) zheap \<Rightarrow> nat \<Rightarrow> nat \<Rightarrow> (nat option \<times> int) option" where
  "get_link h a i = do { n \<leftarrow> h a; array_get (zn_level n) i }"

definition set_link :: "nat \<Rightarrow> nat \<Rightarrow> nat option \<times> int \<Rightarrow> ('s, 'o) zheap \<Rightarrow> ('s, 'o) zheap option" where
  "set_link a i l h = do {
     n \<leftarrow> h a;
     if i < length (zn_level n) then Some (h(a \<mapsto> n\<lparr>zn_level := (zn_level n)[i := l]\<rparr>)) else None }"

definition set_backward :: "nat \<Rightarrow> nat option \<Rightarrow> ('s, 'o) zheap \<Rightarrow> ('s, 'o) zheap option" where
  "set_backward a b h = do { n \<leftarrow> h a; Some (h(a \<mapsto> n\<lparr>zn_backward := b\<rparr>)) }"

text \<open>Levels above the current one are entered from the header.\<close>

definition raise_level :: "nat \<Rightarrow> (nat \<times> int) list \<Rightarrow> ('s, 'o) zheap \<Rightarrow> zskiplist \<Rightarrow>
    ((nat \<times> int) list \<times> ('s, 'o) zheap \<times> zskiplist) option" where
  "raise_level level ups h zsl =
    (if level > zsl_level zsl then do {
       h \<leftarrow> foldM (\<lambda>i h. do {
              (f, span) \<leftarrow> get_link h (zsl_header zsl) i;
              set_link (zsl_header zsl) i (f, c_uint (zsl_length zsl)) h }) [zsl_level zsl..<level] h;
       Some (ups @ replicate (level - zsl_level zsl) (zsl_header zsl, 0), h, zsl\<lparr>zsl_level := level\<rparr>) }
     else Some (ups, h, zsl))"

definition splice_level :: "(nat \<times> int) list \<Rightarrow> nat \<Rightarrow> nat \<Rightarrow> ('s, 'o) zheap \<Rightarrow> ('s, 'o) zheap option" where
  "splice_level ups x i h = do {
     (u, rank) \<leftarrow> array_get ups i;
     (u0, rank0) \<leftarrow> array_get ups 0;
     (f, span) \<leftarrow> get_link h u i;
     h \<leftarrow> set_link x i (f, c_uint (span - (rank0 - rank))) h;
     set_link u i (Some x, c_uint ((rank0 - rank) + 1)) h }"

definition widen_level :: "(nat \<times> int) list \<Rightarrow> nat \<Rightarrow> ('s, 'o) zheap \<Rightarrow> ('s, 'o) zheap option" where
  "widen_level ups i h = do {
     (u, rank) \<leftarrow> array_get ups i;
     (f, span) \<leftarrow> get_link h u i;
     set_link u i (f, c_uint (span + 1)) h }"

definition link_back :: "nat \<Rightarrow> nat \<Rightarrow> ('s, 'o) zheap \<Rightarrow> zskiplist \<Rightarrow> (('s, 'o) zheap \<times> zskiplist) option" where
  "link_back u x h zsl = do {
     h \<leftarrow> set_backward x (if u = zsl_header zsl then None else Some u) h;
     (f, span) \<leftarrow> get_link h x 0;
     (case f of
        Some y \<Rightarrow> do { h \<leftarrow> set_backward y (Some x) h; Some (h, zsl) }
      | None \<Rightarrow> Some (h, zsl\<lparr>zsl_tail := Some x\<rparr>)) }"

text \<open>\<open>x\<close> is the address of the new node and \<open>rs\<close> the random numbers.\<close>

definition zslInsert :: "nat \<Rightarrow> nat list \<Rightarrow> ('s :: linorder, 'o :: linorder) zheap \<Rightarrow> zskiplist \<Rightarrow> 's \<Rightarrow> 'o \<Rightarrow>
    (('s, 'o) zheap \<times> zskiplist) option" where
  "zslInsert x rs h zsl score obj = do {
     ups \<leftarrow> zsl_search c_uint h zsl (\<lambda>n r. node_before score obj n);
     level \<leftarrow> zslRandomLevel rs;
     (ups, h, zsl) \<leftarrow> raise_level level ups h zsl;
     let h = h(x \<mapsto> zslCreateNode level score (Some obj));
     h \<leftarrow> foldM (splice_level ups x) [0..<level] h;
     h \<leftarrow> foldM (widen_level ups) [level..<zsl_level zsl] h;
     (u0, r0) \<leftarrow> array_get ups 0;
     (h, zsl) \<leftarrow> link_back u0 x h zsl;
     Some (h, zsl\<lparr>zsl_length := c_ulong (zsl_length zsl + 1)\<rparr>) }"

section \<open>Deletion\<close>

definition unsplice_level :: "(nat \<times> int) list \<Rightarrow> nat \<Rightarrow> nat \<Rightarrow> ('s, 'o) zheap \<Rightarrow> ('s, 'o) zheap option" where
  "unsplice_level ups x i h = do {
     (u, rank) \<leftarrow> array_get ups i;
     (f, span) \<leftarrow> get_link h u i;
     if f = Some x then do {
       (fx, spanx) \<leftarrow> get_link h x i;
       set_link u i (fx, c_uint (span + (spanx - 1))) h }
     else set_link u i (f, c_uint (span - 1)) h }"

definition unlink_back :: "nat \<Rightarrow> ('s, 'o) zheap \<Rightarrow> zskiplist \<Rightarrow> (('s, 'o) zheap \<times> zskiplist) option" where
  "unlink_back x h zsl = do {
     n \<leftarrow> h x;
     (f, span) \<leftarrow> array_get (zn_level n) 0;
     (case f of
        Some y \<Rightarrow> do { h \<leftarrow> set_backward y (zn_backward n) h; Some (h, zsl) }
      | None \<Rightarrow> Some (h, zsl\<lparr>zsl_tail := zn_backward n\<rparr>)) }"

fun shrink_level :: "('s, 'o) zheap \<Rightarrow> nat \<Rightarrow> nat \<Rightarrow> nat option" where
  "shrink_level h header 0 = Some 0"
| "shrink_level h header (Suc 0) = Some 1"
| "shrink_level h header (Suc (Suc l)) = do {
     (f, span) \<leftarrow> get_link h header (Suc l);
     if f = None then shrink_level h header (Suc l) else Some (Suc (Suc l)) }"

definition zslDeleteNode :: "('s, 'o) zheap \<Rightarrow> zskiplist \<Rightarrow> nat \<Rightarrow> (nat \<times> int) list \<Rightarrow> (('s, 'o) zheap \<times> zskiplist) option" where
  "zslDeleteNode h zsl x ups = do {
     h \<leftarrow> foldM (unsplice_level ups x) [0..<zsl_level zsl] h;
     (h, zsl) \<leftarrow> unlink_back x h zsl;
     level \<leftarrow> shrink_level h (zsl_header zsl) (zsl_level zsl);
     Some (h, zsl\<lparr>zsl_level := level, zsl_length := c_ulong (zsl_length zsl - 1)\<rparr>) }"

definition zslFreeNode :: "nat \<Rightarrow> ('s, 'o) zheap \<Rightarrow> ('s, 'o) zheap" where
  "zslFreeNode x h = h(x := None)"

text \<open>The node after the last \<open>update\<close> node of level 0.\<close>

definition next_of_search :: "('s, 'o) zheap \<Rightarrow> (nat \<times> int) list \<Rightarrow> nat option option" where
  "next_of_search h ups = do {
     (u0, r0) \<leftarrow> array_get ups 0;
     (f, span) \<leftarrow> get_link h u0 0;
     Some f }"

definition zslDelete :: "('s :: linorder, 'o :: linorder) zheap \<Rightarrow> zskiplist \<Rightarrow> 's \<Rightarrow> 'o \<Rightarrow> (bool \<times> ('s, 'o) zheap \<times> zskiplist) option" where
  "zslDelete h zsl score obj = do {
     ups \<leftarrow> zsl_search c_ulong h zsl (\<lambda>n r. node_before score obj n);
     f \<leftarrow> next_of_search h ups;
     (case f of
        None \<Rightarrow> Some (False, h, zsl)
      | Some x \<Rightarrow> do {
          n \<leftarrow> h x;
          if score = zn_score n \<and> zn_obj n = Some obj then do {
            (h, zsl) \<leftarrow> zslDeleteNode h zsl x ups;
            Some (True, zslFreeNode x h, zsl) }
          else Some (False, h, zsl) }) }"

text \<open>The common tail of the range deletions: delete nodes while the condition, which may depend on the rank,
  holds; the removed objects are those handed to \<open>dictDelete\<close>.\<close>

partial_function (option) delete_while ::
    "(('s, 'o) zskiplistNode \<Rightarrow> int \<Rightarrow> bool) \<Rightarrow> (nat \<times> int) list \<Rightarrow> nat option \<Rightarrow> int \<Rightarrow> 'o option list \<Rightarrow>
     ('s, 'o) zheap \<Rightarrow> zskiplist \<Rightarrow> ('o option list \<times> ('s, 'o) zheap \<times> zskiplist) option" where
  "delete_while P ups x r removed h zsl =
    (case x of
       None \<Rightarrow> Some (removed, h, zsl)
     | Some a \<Rightarrow> do {
         n \<leftarrow> h a;
         if P n r then do {
           (nxt, span) \<leftarrow> array_get (zn_level n) 0;
           (h, zsl) \<leftarrow> zslDeleteNode h zsl a ups;
           delete_while P ups nxt (c_ulong (r + 1)) (removed @ [zn_obj n]) (zslFreeNode a h) zsl }
         else Some (removed, h, zsl) })"

definition zslValueGteMin :: "'s :: linorder \<Rightarrow> 's zrange \<Rightarrow> bool" where
  "zslValueGteMin v spec = (if zr_minex spec then v > zr_min spec else v \<ge> zr_min spec)"

definition zslValueLteMax :: "'s :: linorder \<Rightarrow> 's zrange \<Rightarrow> bool" where
  "zslValueLteMax v spec = (if zr_maxex spec then v < zr_max spec else v \<le> zr_max spec)"

definition zslDeleteRangeByScore :: "('s :: linorder, 'o) zheap \<Rightarrow> zskiplist \<Rightarrow> 's zrange \<Rightarrow>
    ('o option list \<times> ('s, 'o) zheap \<times> zskiplist) option" where
  "zslDeleteRangeByScore h zsl rng = do {
     ups \<leftarrow> zsl_search c_ulong h zsl
       (\<lambda>n r. if zr_minex rng then zn_score n \<le> zr_min rng else zn_score n < zr_min rng);
     x \<leftarrow> next_of_search h ups;
     delete_while (\<lambda>n r. if zr_maxex rng then zn_score n < zr_max rng else zn_score n \<le> zr_max rng) ups x 0 [] h zsl }"

definition zslDeleteRangeByRank :: "('s, 'o) zheap \<Rightarrow> zskiplist \<Rightarrow> int \<Rightarrow> int \<Rightarrow> ('o option list \<times> ('s, 'o) zheap \<times> zskiplist) option" where
  "zslDeleteRangeByRank h zsl start end = (let start = c_uint start; end = c_uint end in do {
     ups \<leftarrow> zsl_search c_ulong h zsl (\<lambda>n r. r < start);
     (u0, traversed) \<leftarrow> array_get ups 0;
     x \<leftarrow> next_of_search h ups;
     delete_while (\<lambda>n r. r \<le> end) ups x (c_ulong (traversed + 1)) [] h zsl })"

section \<open>Queries\<close>

fun getRank_levels :: "('s :: linorder, 'o :: linorder) zheap \<Rightarrow> 's \<Rightarrow> 'o \<Rightarrow> nat \<Rightarrow> nat \<Rightarrow> int \<Rightarrow> int option" where
  "getRank_levels h score obj 0 x r = Some 0"
| "getRank_levels h score obj (Suc i) x r = do {
     (x, r) \<leftarrow> search_level c_ulong h (\<lambda>n _. node_upto score obj n) i x r;
     n \<leftarrow> h x;
     if zn_obj n = Some obj then Some r else getRank_levels h score obj i x r }"

definition zslGetRank :: "('s :: linorder, 'o :: linorder) zheap \<Rightarrow> zskiplist \<Rightarrow> 's \<Rightarrow> 'o \<Rightarrow> int option" where
  "zslGetRank h zsl score obj = getRank_levels h score obj (zsl_level zsl) (zsl_header zsl) 0"

fun byRank_levels :: "('s, 'o) zheap \<Rightarrow> int \<Rightarrow> nat \<Rightarrow> nat \<Rightarrow> int \<Rightarrow> nat option option" where
  "byRank_levels h rank 0 x traversed = Some None"
| "byRank_levels h rank (Suc i) x traversed = do {
     (x, traversed) \<leftarrow> search_level c_ulong h (\<lambda>_ t. t \<le> rank) i x traversed;
     if traversed = rank then Some (Some x) else byRank_levels h rank i x traversed }"

definition zslGetElementByRank :: "('s, 'o) zheap \<Rightarrow> zskiplist \<Rightarrow> int \<Rightarrow> nat option option" where
  "zslGetElementByRank h zsl rank = byRank_levels h (c_ulong rank) (zsl_level zsl) (zsl_header zsl) 0"

definition zslIsInRange :: "('s :: linorder, 'o) zheap \<Rightarrow> zskiplist \<Rightarrow> 's zrange \<Rightarrow> bool option" where
  "zslIsInRange h zsl rng =
    (if zr_min rng > zr_max rng \<or> zr_min rng = zr_max rng \<and> (zr_minex rng \<or> zr_maxex rng) then Some False
     else case zsl_tail zsl of
       None \<Rightarrow> Some False
     | Some t \<Rightarrow> do {
         n \<leftarrow> h t;
         if \<not> zslValueGteMin (zn_score n) rng then Some False
         else do {
           (f, span) \<leftarrow> get_link h (zsl_header zsl) 0;
           (case f of
              None \<Rightarrow> Some False
            | Some y \<Rightarrow> do { m \<leftarrow> h y; Some (zslValueLteMax (zn_score m) rng) }) } })"

definition zslFirstInRange :: "('s :: linorder, 'o) zheap \<Rightarrow> zskiplist \<Rightarrow> 's zrange \<Rightarrow> nat option option" where
  "zslFirstInRange h zsl rng = do {
     inr \<leftarrow> zslIsInRange h zsl rng;
     if \<not> inr then Some None
     else do {
       ups \<leftarrow> zsl_search c_ulong h zsl (\<lambda>n _. \<not> zslValueGteMin (zn_score n) rng);
       f \<leftarrow> next_of_search h ups;
       x \<leftarrow> f;
       n \<leftarrow> h x;
       Some (if zslValueLteMax (zn_score n) rng then Some x else None) } }"

text \<open>Here the search result itself is the node; it may only be the header when no score is small enough.\<close>

definition zslLastInRange :: "('s :: linorder, 'o) zheap \<Rightarrow> zskiplist \<Rightarrow> 's zrange \<Rightarrow> nat option option" where
  "zslLastInRange h zsl rng = do {
     inr \<leftarrow> zslIsInRange h zsl rng;
     if \<not> inr then Some None
     else do {
       ups \<leftarrow> zsl_search c_ulong h zsl (\<lambda>n _. zslValueLteMax (zn_score n) rng);
       (x, r) \<leftarrow> array_get ups 0;
       n \<leftarrow> h x;
       Some (if zslValueGteMin (zn_score n) rng then Some x else None) } }"

end
