(* ===== verification/Skiplist_Correct.thy ===== *)
theory Skiplist_Correct
  imports Skiplist "HOL-Library.Product_Lexorder"
begin

text \<open>
  The skip list of theory \<open>Skiplist\<close> is a sorted sequence: the links of every level lead to the next node
  that has the level, the spans are the distances, and so the operations are the operations on a
  strictly sorted list, ranks included.
\<close>

section \<open>The invariant\<close>

definition height :: "('s, 'o) zheap \<Rightarrow> nat \<Rightarrow> nat" where
  "height h a = (case h a of None \<Rightarrow> 0 | Some n \<Rightarrow> length (zn_level n))"

text \<open>The next node of a level in the rest of the list, and its distance; past the end, the distance to the end.\<close>

fun next_at :: "(nat \<Rightarrow> nat) \<Rightarrow> nat \<Rightarrow> nat list \<Rightarrow> nat option \<times> int" where
  "next_at H i [] = (None, 0)"
| "next_at H i (a # as) = (if i < H a then (Some a, 1) else apsnd (\<lambda>s. s + 1) (next_at H i as))"

definition links_ok :: "('s, 'o) zheap \<Rightarrow> nat \<Rightarrow> nat \<Rightarrow> nat list \<Rightarrow> bool" where
  "links_ok h hdr L xs \<longleftrightarrow> (\<forall>p i. p \<le> length xs \<longrightarrow> i < L \<longrightarrow> i < height h ((hdr # xs) ! p) \<longrightarrow>
    get_link h ((hdr # xs) ! p) i = Some (next_at (height h) i (drop p xs)))"

definition back_ok :: "('s, 'o) zheap \<Rightarrow> nat list \<Rightarrow> bool" where
  "back_ok h xs \<longleftrightarrow> (\<forall>p < length xs. map_option zn_backward (h (xs ! p)) = Some (if p = 0 then None else Some (xs ! (p - 1))))"

text \<open>What set_link and set_backward keep of a heap.\<close>

definition skel :: "('s, 'o) zheap \<Rightarrow> nat \<Rightarrow> ('o option \<times> 's \<times> nat) option" where
  "skel h a = map_option (\<lambda>n. (zn_obj n, zn_score n, length (zn_level n))) (h a)"

definition backs :: "('s, 'o) zheap \<Rightarrow> nat \<Rightarrow> nat option option" where
  "backs h a = map_option zn_backward (h a)"

definition nodes_ok :: "('s, 'o) zheap \<Rightarrow> nat \<Rightarrow> nat \<Rightarrow> nat list \<Rightarrow> bool" where
  "nodes_ok h hdr L xs \<longleftrightarrow> distinct (hdr # xs) \<and> (\<exists>s. skel h hdr = Some (None, s, ZSKIPLIST_MAXLEVEL)) \<and>
    (\<forall>a \<in> set xs. \<exists>b s l. skel h a = Some (Some b, s, l) \<and> 1 \<le> l \<and> l \<le> L)"

definition zsl_wf :: "('s, 'o) zheap \<Rightarrow> zskiplist \<Rightarrow> nat list \<Rightarrow> bool" where
  "zsl_wf h zsl xs \<longleftrightarrow>
    (let hdr = zsl_header zsl; L = zsl_level zsl in
     1 \<le> L \<and> L \<le> ZSKIPLIST_MAXLEVEL \<and> zsl_length zsl = int (length xs) \<and> length xs < 2 ^ 32 \<and>
     zsl_tail zsl = (if xs = [] then None else Some (last xs)) \<and>
     nodes_ok h hdr L xs \<and> links_ok h hdr L xs \<and> back_ok h xs \<and>
     (\<forall>i. L \<le> i \<longrightarrow> i < ZSKIPLIST_MAXLEVEL \<longrightarrow> map_option fst (get_link h hdr i) = Some None))"

text \<open>The element of a node, and the contents.\<close>

definition elem :: "('s, 'o) zheap \<Rightarrow> nat \<Rightarrow> 's \<times> 'o" where
  "elem h a = (case h a of Some n \<Rightarrow> (zn_score n, the (zn_obj n)) | None \<Rightarrow> undefined)"

section \<open>Links\<close>

lemma height_skel: "height h a = (case skel h a of None \<Rightarrow> 0 | Some (_, _, l) \<Rightarrow> l)"
  by (simp add: height_def skel_def split: option.splits)

lemma skel_height: "skel h' = skel h \<Longrightarrow> height h' = height h"
  by (simp add: fun_eq_iff height_skel)

lemma skel_elem: "skel h' a = skel h a \<Longrightarrow> elem h' a = elem h a"
  by (auto simp: skel_def elem_def split: option.splits)

lemma nodes_ok_cong: "nodes_ok h hdr L xs \<Longrightarrow> skel h' = skel h \<Longrightarrow> L \<le> L' \<Longrightarrow> nodes_ok h' hdr L' xs"
  by (simp add: nodes_ok_def) (meson dual_order.trans)

lemma get_link_height: "(\<exists>l. get_link h a i = Some l) \<longleftrightarrow> i < height h a"
  by (auto simp: get_link_def height_def array_get_def split: option.splits bind_splits)

lemma set_link_spec:
  assumes "i < height h a"
  shows "\<exists>h'. set_link a i l h = Some h' \<and> skel h' = skel h \<and> backs h' = backs h \<and>
    get_link h' = (\<lambda>b j. if b = a \<and> j = i then Some l else get_link h b j)"
proof -
  obtain n where n: "h a = Some n" "i < length (zn_level n)" using assms by (auto simp: height_def split: option.splits)
  then show ?thesis
    by (intro exI [of _ "h(a \<mapsto> n\<lparr>zn_level := (zn_level n)[i := l]\<rparr>)"])
      (auto simp: set_link_def skel_def backs_def get_link_def fun_eq_iff array_get_def nth_list_update)
qed

lemma set_backward_spec:
  assumes "h a \<noteq> None"
  shows "\<exists>h'. set_backward a b h = Some h' \<and> skel h' = skel h \<and> backs h' = (backs h)(a := Some b) \<and> get_link h' = get_link h"
proof -
  obtain n where "h a = Some n" using assms by blast
  then show ?thesis
    by (intro exI [of _ "h(a \<mapsto> n\<lparr>zn_backward := b\<rparr>)"])
      (auto simp: set_backward_def skel_def backs_def get_link_def fun_eq_iff)
qed

section \<open>The next node of a level\<close>

lemma next_at_append:
  "next_at H i (ys @ zs) = (if \<exists>y \<in> set ys. i < H y then next_at H i ys
    else apsnd (\<lambda>s. s + int (length ys)) (next_at H i zs))"
  by (induction ys) (auto simp: apsnd_def map_prod_def split: prod.splits)

lemma next_at_cong: "(\<And>y. y \<in> set ys \<Longrightarrow> H y = H' y) \<Longrightarrow> next_at H i ys = next_at H' i ys"
  by (induction ys) auto

lemma next_at_none: "fst (next_at H i ys) = None \<longleftrightarrow> (\<forall>y \<in> set ys. H y \<le> i)"
  by (induction ys) (auto simp: apsnd_def map_prod_def split: prod.splits)

lemma next_at_low: "\<forall>y \<in> set ys. H y \<le> i \<Longrightarrow> next_at H i ys = (None, int (length ys))"
  by (induction ys) auto

lemma next_at_bounds: "0 \<le> snd (next_at H i ys)" "snd (next_at H i ys) \<le> int (length ys)"
  by (induction ys) auto

text \<open>In terms of positions \<open>p\<close> of the list with the header in front.\<close>

lemma next_at_cases:
  assumes "p \<le> length xs"
  obtains (none) "next_at H i (drop p xs) = (None, int (length xs - p))"
      "\<And>q. p < q \<Longrightarrow> q \<le> length xs \<Longrightarrow> H ((hdr # xs) ! q) \<le> i"
    | (some) q where "p < q" "q \<le> length xs" "next_at H i (drop p xs) = (Some ((hdr # xs) ! q), int q - int p)"
      "i < H ((hdr # xs) ! q)" "\<And>q'. p < q' \<Longrightarrow> q' < q \<Longrightarrow> H ((hdr # xs) ! q') \<le> i"
  using assms
proof (induction "length xs - p" arbitrary: p thesis)
  case 0
  then show ?case by simp
next
  case (Suc m)
  then have p: "p < length xs" by simp
  then have d: "drop p xs = xs ! p # drop (Suc p) xs" by (simp add: Cons_nth_drop_Suc)
  show ?case
  proof (cases "i < H (xs ! p)")
    case True
    then show ?thesis using Suc.prems(2) [of "Suc p"] p d by simp
  next
    case False
    show ?thesis
    proof (rule Suc.hyps(1) [of "Suc p"])
      assume n: "next_at H i (drop (Suc p) xs) = (None, int (length xs - Suc p))"
        and l: "\<And>q. Suc p < q \<Longrightarrow> q \<le> length xs \<Longrightarrow> H ((hdr # xs) ! q) \<le> i"
      have "H ((hdr # xs) ! q) \<le> i" if "p < q" "q \<le> length xs" for q
        using l [of q] that False by (cases "q = Suc p") auto
      then show ?thesis using Suc.prems(1) n d False p by (auto simp: of_nat_diff)
    next
      fix q
      assume q: "Suc p < q" "q \<le> length xs" "next_at H i (drop (Suc p) xs) = (Some ((hdr # xs) ! q), int q - int (Suc p))"
        "i < H ((hdr # xs) ! q)" and l: "\<And>q'. Suc p < q' \<Longrightarrow> q' < q \<Longrightarrow> H ((hdr # xs) ! q') \<le> i"
      have "H ((hdr # xs) ! q') \<le> i" if "p < q'" "q' < q" for q'
        using l [of q'] that False by (cases "q' = Suc p") auto
      then show ?thesis using Suc.prems(2) [of q] q d False by auto
    qed (use Suc.hyps(2) p in auto)
  qed
qed

text \<open>The last position not after \<open>k\<close> that has level \<open>i\<close>.\<close>

primrec stop_at :: "(nat \<Rightarrow> nat) \<Rightarrow> nat \<Rightarrow> nat \<Rightarrow> nat" where
  "stop_at H i 0 = 0"
| "stop_at H i (Suc k) = (if i < H (Suc k) then Suc k else stop_at H i k)"

lemma stop_at_le: "stop_at H i k \<le> k"
  by (induction k) (auto simp: le_SucI)

lemma stop_at_height: "i < H 0 \<Longrightarrow> i < H (stop_at H i k)"
  by (induction k) auto

lemma stop_at_between: "stop_at H i k < q \<Longrightarrow> q \<le> k \<Longrightarrow> H q \<le> i"
  by (induction k) (auto simp: le_Suc_eq split: if_splits)

lemma stop_at_unique: "i < H p \<Longrightarrow> p \<le> k \<Longrightarrow> (\<And>q. p < q \<Longrightarrow> q \<le> k \<Longrightarrow> H q \<le> i) \<Longrightarrow> stop_at H i k = p"
proof (induction k)
  case (Suc k)
  show ?case
  proof (cases "p = Suc k")
    case False
    then have "p \<le> k" "H (Suc k) \<le> i" using Suc.prems(2,3) by auto
    then show ?thesis using Suc.IH Suc.prems(1,3) by (simp add: not_less)
  qed (use Suc.prems(1) in simp)
qed simp

lemma stop_at_high: "(\<And>q. 0 < q \<Longrightarrow> q \<le> k \<Longrightarrow> H q \<le> i) \<Longrightarrow> stop_at H i k = 0"
proof (induction k)
  case (Suc k)
  have "H (Suc k) \<le> i" by (rule Suc.prems) simp_all
  then show ?case using Suc by (simp add: not_less)
qed simp

lemma stop_at_cong: "(\<And>q. 0 < q \<Longrightarrow> q \<le> k \<Longrightarrow> H q = H' q) \<Longrightarrow> stop_at H i k = stop_at H' i k"
  by (induction k) auto

section \<open>Searching\<close>

lemma zsl_wfD:
  assumes "zsl_wf h zsl xs"
  shows "nodes_ok h (zsl_header zsl) (zsl_level zsl) xs" "links_ok h (zsl_header zsl) (zsl_level zsl) xs" "back_ok h xs"
    "1 \<le> zsl_level zsl" "zsl_level zsl \<le> ZSKIPLIST_MAXLEVEL" "zsl_length zsl = int (length xs)"
    "zsl_tail zsl = (if xs = [] then None else Some (last xs))"
    "zsl_level zsl \<le> i \<Longrightarrow> i < ZSKIPLIST_MAXLEVEL \<Longrightarrow> map_option fst (get_link h (zsl_header zsl) i) = Some None"
    "length xs < 2 ^ 32"
  using assms by (simp_all add: zsl_wf_def Let_def)

text \<open>The positions, and the level of the node at each.\<close>

definition hts :: "('s, 'o) zheap \<Rightarrow> nat \<Rightarrow> nat list \<Rightarrow> nat \<Rightarrow> nat" where
  "hts h hdr xs p = height h ((hdr # xs) ! p)"

lemma hts_0 [simp]: "hts h hdr xs 0 = height h hdr"
  by (simp add: hts_def)

lemma nodes_okD:
  assumes "nodes_ok h hdr L xs"
  shows "distinct (hdr # xs)" "height h hdr = ZSKIPLIST_MAXLEVEL"
    "a \<in> set xs \<Longrightarrow> 1 \<le> height h a" "a \<in> set xs \<Longrightarrow> height h a \<le> L"
    "a \<in> set xs \<Longrightarrow> \<exists>n b. h a = Some n \<and> zn_obj n = Some b" "map_option zn_obj (h hdr) = Some None"
  using assms by (auto simp: nodes_ok_def height_skel dest!: bspec) (auto simp: skel_def)

lemma hts_pos:
  assumes "nodes_ok h hdr L xs" and "0 < p" and "p \<le> length xs"
  shows "1 \<le> hts h hdr xs p" "hts h hdr xs p \<le> L"
proof -
  have "xs ! (p - 1) \<in> set xs" using assms(2,3) by simp
  then show "1 \<le> hts h hdr xs p" "hts h hdr xs p \<le> L"
    using nodes_okD(3,4) [OF assms(1)] assms(2) by (simp_all add: hts_def nth_Cons')
qed

lemma node_at:
  assumes "nodes_ok h hdr L xs" and "p \<le> length xs"
  obtains n where "h ((hdr # xs) ! p) = Some n"
proof (cases "p = 0")
  case True
  then show ?thesis using nodes_okD(6) [OF assms(1)] that by auto
next
  case False
  then have "xs ! (p - 1) \<in> set xs" using assms(2) by simp
  then show ?thesis using nodes_okD(5) [OF assms(1)] that False by (auto simp: nth_Cons')
qed

text \<open>The condition of a search holds exactly for the first \<open>k\<close> nodes; the second argument is the position.\<close>

definition holds_upto :: "('s, 'o) zheap \<Rightarrow> nat list \<Rightarrow> (('s, 'o) zskiplistNode \<Rightarrow> int \<Rightarrow> bool) \<Rightarrow> nat \<Rightarrow> bool" where
  "holds_upto h xs P k \<longleftrightarrow> k \<le> length xs \<and>
    (\<forall>q n. q < length xs \<longrightarrow> h (xs ! q) = Some n \<longrightarrow> (P n (int q + 1) \<longleftrightarrow> q < k))"

abbreviation at :: "nat \<Rightarrow> nat list \<Rightarrow> nat \<Rightarrow> nat" where "at hdr xs p \<equiv> (hdr # xs) ! p"

text \<open>A width that holds every rank of a list of fewer than 2^32 nodes.\<close>

definition wide :: "(int \<Rightarrow> int) \<Rightarrow> bool" where
  "wide w \<longleftrightarrow> (\<forall>v. 0 \<le> v \<longrightarrow> v < 2 ^ 32 \<longrightarrow> w v = v)"

lemma wide_c [simp]: "wide c_uint" "wide c_ulong"
  by (simp_all add: wide_def)

lemma search_level_stop:
  assumes nok: "nodes_ok h hdr L xs" and lok: "links_ok h hdr L xs" and P: "holds_upto h xs P k"
    and "p \<le> k" and "i < L" and "i < hts h hdr xs p" and wide: "wide w" and short: "length xs < 2 ^ 32"
  shows "search_level w h P i (at hdr xs p) (int p) =
    Some (at hdr xs (stop_at (hts h hdr xs) i k), int (stop_at (hts h hdr xs) i k))"
  using assms(4,6)
proof (induction "k - p" arbitrary: p rule: less_induct)
  case less
  have k: "k \<le> length xs" using P by (simp add: holds_upto_def)
  obtain n where n: "h (at hdr xs p) = Some n" using node_at [OF nok, of p] less.prems(1) k by auto
  have "get_link h (at hdr xs p) i = Some (next_at (height h) i (drop p xs))"
    using lok less.prems k assms(5) by (simp add: links_ok_def hts_def)
  then have l: "array_get (zn_level n) i = Some (next_at (height h) i (drop p xs))" using n by (simp add: get_link_def)
  have "p \<le> length xs" using less.prems(1) k by simp
  then show ?case
  proof (cases rule: next_at_cases [where H = "height h" and i = i and hdr = hdr])
    case none
    then have "stop_at (hts h hdr xs) i k = p"
      using less.prems k by (intro stop_at_unique) (simp_all add: hts_def)
    then show ?thesis by (subst search_level.simps) (simp add: n l none)
  next
    case (some q)
    obtain m where m: "h (at hdr xs q) = Some m" using node_at [OF nok some(2)] by blast
    have hm: "h (xs ! (q - Suc 0)) = Some m" "q - 1 < length xs" using m some(1,2) by (auto simp: nth_Cons')
    have wq: "w (int q) = int q" using wide short some(2) by (simp add: wide_def)
    from hm have Pq: "P m (int q) \<longleftrightarrow> q \<le> k" using P some(1) unfolding holds_upto_def by force
    show ?thesis
    proof (cases "q \<le> k")
      case True
      have "search_level w h P i (at hdr xs q) (int q) =
          Some (at hdr xs (stop_at (hts h hdr xs) i k), int (stop_at (hts h hdr xs) i k))"
        using True some(1,4) by (intro less.hyps) (simp_all add: hts_def)
      then show ?thesis using True Pq by (subst search_level.simps) (simp add: n l some(3) m hm(1) wq)
    next
      case False
      then have "stop_at (hts h hdr xs) i k = p"
        using less.prems some(5) by (intro stop_at_unique) (simp_all add: hts_def)
      then show ?thesis using False Pq by (subst search_level.simps) (simp add: n l some(3) m hm(1) wq)
    qed
  qed
qed

definition ups_of :: "('s, 'o) zheap \<Rightarrow> nat \<Rightarrow> nat list \<Rightarrow> nat \<Rightarrow> nat \<Rightarrow> nat \<times> int" where
  "ups_of h hdr xs k i = (at hdr xs (stop_at (hts h hdr xs) i k), int (stop_at (hts h hdr xs) i k))"

lemma search_ups:
  assumes "nodes_ok h hdr L xs" and "links_ok h hdr L xs" and "holds_upto h xs P k" and "L \<le> ZSKIPLIST_MAXLEVEL"
    and "p \<le> k" and "i \<le> L" and "i \<le> hts h hdr xs p"
    and wide: "wide w" and short: "length xs < 2 ^ 32"
  shows "search w h P i (at hdr xs p) (int p) ups = Some (map (ups_of h hdr xs k) [0..<i] @ ups)"
  using assms(5-7)
proof (induction i arbitrary: p ups)
  case (Suc i)
  let ?q = "stop_at (hts h hdr xs) i k"
  have "search_level w h P i (at hdr xs p) (int p) = Some (at hdr xs ?q, int ?q)"
    by (rule search_level_stop [OF assms(1-3)]) (use Suc.prems wide short in simp_all)
  moreover have "i < hts h hdr xs ?q"
    using stop_at_height [of i "hts h hdr xs"] nodes_okD(2) [OF assms(1)] Suc.prems(2) assms(4) by simp
  then have "search w h P i (at hdr xs ?q) (int ?q) ((at hdr xs ?q, int ?q) # ups) =
      Some (map (ups_of h hdr xs k) [0..<i] @ (at hdr xs ?q, int ?q) # ups)"
    using Suc.prems stop_at_le by (intro Suc.IH) simp_all
  ultimately show ?case by (simp add: ups_of_def)
qed simp

lemma zsl_search_ups:
  assumes "zsl_wf h zsl xs" and "holds_upto h xs P k" and "wide w"
  shows "zsl_search w h zsl P = Some (map (ups_of h (zsl_header zsl) xs k) [0..<zsl_level zsl])"
  using search_ups [OF zsl_wfD(1,2) [OF assms(1)] assms(2) zsl_wfD(5) [OF assms(1)], where p = 0 and i = "zsl_level zsl" and w = w and ups = "[]"]
    zsl_wfD(4,5,9) [OF assms(1)] nodes_okD(2) [OF zsl_wfD(1) [OF assms(1)]] assms(3)
  by (simp add: zsl_search_def)

lemma stop_at_0:
  assumes "nodes_ok h hdr L xs" and "k \<le> length xs"
  shows "stop_at (hts h hdr xs) 0 k = k"
proof (cases k)
  case (Suc k')
  then show ?thesis using hts_pos(1) [OF assms(1), of k] assms(2) by simp
qed simp

lemma link_0:
  assumes "zsl_wf h zsl xs" and "p \<le> length xs"
  shows "get_link h (at (zsl_header zsl) xs p) 0 =
    Some (if p < length xs then (Some (xs ! p), 1) else (None, 0))"
proof -
  note w = zsl_wfD [OF assms(1)]
  have pos: "0 < hts h (zsl_header zsl) xs p"
    using hts_pos(1) [OF w(1), of p] nodes_okD(2) [OF w(1)] assms(2) by (cases "p = 0") auto
  then have "get_link h (at (zsl_header zsl) xs p) 0 = Some (next_at (height h) 0 (drop p xs))"
    using w(2,4) assms(2) by (simp add: links_ok_def hts_def)
  moreover have "next_at (height h) 0 (drop p xs) = (Some (xs ! p), 1)" if "p < length xs"
    using that nodes_okD(3) [OF w(1), of "xs ! p"] by (simp add: Cons_nth_drop_Suc [symmetric])
  ultimately show ?thesis using assms(2) by auto
qed

lemma next_of_search_ups:
  assumes "zsl_wf h zsl xs" and "k \<le> length xs" and "ups \<noteq> []" and "ups ! 0 = ups_of h (zsl_header zsl) xs k 0"
  shows "next_of_search h ups = Some (if k < length xs then Some (xs ! k) else None)"
  using link_0 [OF assms(1,2)] assms(3,4) stop_at_0 [OF zsl_wfD(1) [OF assms(1)] assms(2)]
  by (simp add: next_of_search_def ups_of_def)

section \<open>Insertion\<close>

text \<open>A loop that sets one link per level; \<open>g\<close> gives the node and the new link.\<close>

lemma foldM_links:
  assumes "a \<le> b"
    and "\<And>i s. a \<le> i \<Longrightarrow> i < b \<Longrightarrow> skel s = skel h \<Longrightarrow> backs s = backs h \<Longrightarrow> (\<forall>c j. i \<le> j \<longrightarrow> get_link s c j = get_link h c j) \<Longrightarrow>
      \<exists>s'. f i s = Some s' \<and> skel s' = skel h \<and> backs s' = backs h \<and>
        (\<forall>c j. get_link s' c j = (if j = i then new i c else get_link s c j))"
  shows "\<exists>h'. foldM f [a..<b] h = Some h' \<and> skel h' = skel h \<and> backs h' = backs h \<and>
    (\<forall>c j. get_link h' c j = (if a \<le> j \<and> j < b then new j c else get_link h c j))"
proof -
  let ?P = "\<lambda>i s. skel s = skel h \<and> backs s = backs h \<and>
    (\<forall>c j. get_link s c j = (if a \<le> j \<and> j < i then new j c else get_link h c j))"
  have init: "?P a h" by auto
  have "\<exists>h'. foldM f [a..<b] h = Some h' \<and> ?P b h'"
  proof (rule foldM_upt [where P = ?P, OF init assms(1)])
    fix i s
    assume i: "a \<le> i" "i < b" and P: "?P i s"
    then obtain s' where s': "f i s = Some s'" "skel s' = skel h" "backs s' = backs h"
      "\<forall>c j. get_link s' c j = (if j = i then new i c else get_link s c j)"
      using assms(2) [OF i, of s] by auto
    have "get_link s' c j = (if a \<le> j \<and> j < Suc i then new j c else get_link h c j)" for c j
      using P s'(4) i(1) by (auto simp: less_Suc_eq)
    then show "\<exists>s'. f i s = Some s' \<and> ?P (Suc i) s'" using s'(1-3) by auto
  qed
  then show ?thesis by simp
qed

lemma raise_level_spec:
  assumes wf: "zsl_wf h zsl xs" and k: "k \<le> length xs" and l: "level \<le> ZSKIPLIST_MAXLEVEL"
  shows "\<exists>h' zsl'. raise_level level (map (ups_of h (zsl_header zsl) xs k) [0..<zsl_level zsl]) h zsl =
      Some (map (ups_of h' (zsl_header zsl) xs k) [0..<zsl_level zsl'], h', zsl') \<and>
    zsl_wf h' zsl' xs \<and> skel h' = skel h \<and> backs h' = backs h \<and> zsl_level zsl' = max level (zsl_level zsl) \<and>
    zsl_header zsl' = zsl_header zsl"
proof (cases "level > zsl_level zsl")
  case False
  then show ?thesis using wf by (auto simp: raise_level_def max_def)
next
  case True
  let ?hdr = "zsl_header zsl" and ?L = "zsl_level zsl" and ?n = "int (length xs)"
  note w = zsl_wfD [OF wf] and nk = nodes_okD [OF zsl_wfD(1) [OF wf]]
  have wl: "c_uint (zsl_length zsl) = ?n" using w(6,9) by simp
  let ?f = "\<lambda>i h. do { (f, span) \<leftarrow> get_link h ?hdr i; set_link ?hdr i (f, c_uint (zsl_length zsl)) h }"
  have high: "\<exists>s. get_link h ?hdr i = Some (None, s)" if "?L \<le> i" "i < level" for i
    using w(8) [of i] that l by (cases "get_link h ?hdr i") auto
  have "\<exists>h'. foldM ?f [?L..<level] h = Some h' \<and> skel h' = skel h \<and> backs h' = backs h \<and>
    (\<forall>c j. get_link h' c j = (if ?L \<le> j \<and> j < level then (if c = ?hdr then Some (None, ?n) else get_link h c j) else get_link h c j))"
  proof (rule foldM_links)
    fix i s
    assume i: "?L \<le> i" "i < level" and s: "skel s = skel h" "backs s = backs h"
      "\<forall>c j. i \<le> j \<longrightarrow> get_link s c j = get_link h c j"
    obtain sp where sp: "get_link s ?hdr i = Some (None, sp)" using high [OF i] s(3) by auto
    have "i < height s ?hdr" using nk(2) skel_height [OF s(1)] i l by simp
    then obtain s' where s': "set_link ?hdr i (None, zsl_length zsl) s = Some s'" "skel s' = skel s" "backs s' = backs s"
      "get_link s' = (\<lambda>b j. if b = ?hdr \<and> j = i then Some (None, zsl_length zsl) else get_link s b j)"
      using set_link_spec by blast
    then show "\<exists>s'. ?f i s = Some s' \<and> skel s' = skel h \<and> backs s' = backs h \<and>
        (\<forall>c j. get_link s' c j = (if j = i then (if c = ?hdr then Some (None, ?n) else get_link h c i) else get_link s c j))"
      using s sp w(6) wl by auto
  qed (use True in simp)
  then obtain h' where h': "foldM ?f [?L..<level] h = Some h'" "skel h' = skel h" "backs h' = backs h"
    and lk0: "\<forall>c j. get_link h' c j = (if ?L \<le> j \<and> j < level then (if c = ?hdr then Some (None, ?n) else get_link h c j) else get_link h c j)"
    by blast
  have lk: "get_link h' c j = (if ?L \<le> j \<and> j < level \<and> c = ?hdr then Some (None, ?n) else get_link h c j)" for c j
    using lk0 by simp
  define zsl' where "zsl' = zsl\<lparr>zsl_level := level\<rparr>"
  have H: "height h' = height h" by (rule skel_height [OF h'(2)])
  have nodes: "nodes_ok h' ?hdr level xs" by (rule nodes_ok_cong [OF w(1) h'(2)]) (use True in simp)
  have low: "hts h ?hdr xs q \<le> i" if "0 < q" "q \<le> length xs" "?L \<le> i" for q i
    using hts_pos(2) [OF w(1) that(1,2)] that(3) by simp
  have "links_ok h' ?hdr level xs"
    unfolding links_ok_def H
  proof (intro allI impI)
    fix p i
    assume p: "p \<le> length xs" "i < level" "i < height h (at ?hdr xs p)"
    show "get_link h' (at ?hdr xs p) i = Some (next_at (height h) i (drop p xs))"
    proof (cases "i < ?L")
      case True
      then show ?thesis using w(2) p by (simp add: lk links_ok_def)
    next
      case False
      have "p = 0" using p(3) low [of p i] p(1) False by (cases "p = 0") (auto simp: hts_def)
      moreover have "next_at (height h) i xs = (None, ?n)"
        using nk(4) False by (intro next_at_low) (meson dual_order.trans not_le_imp_less order.asym)
      ultimately show ?thesis using p(2) False by (simp add: lk)
    qed
  qed
  moreover have "back_ok h' xs" using w(3) h'(3) by (simp add: back_ok_def backs_def fun_eq_iff)
  moreover have "map_option fst (get_link h' ?hdr i) = Some None" if "level \<le> i" "i < ZSKIPLIST_MAXLEVEL" for i
    using w(8) [of i] that True by (simp add: lk)
  ultimately have wf': "zsl_wf h' zsl' xs"
    using nodes w(4-7,9) True l by (simp add: zsl_wf_def zsl'_def)
  have "hts h' ?hdr xs = hts h ?hdr xs" by (simp add: hts_def fun_eq_iff H)
  then have ups: "ups_of h' ?hdr xs k i = ups_of h ?hdr xs k i" for i by (simp add: ups_of_def)
  have "ups_of h ?hdr xs k i = (?hdr, 0)" if "?L \<le> i" for i
    using stop_at_high [of k "hts h ?hdr xs" i] low k that by (simp add: ups_of_def)
  then have "map (ups_of h' ?hdr xs k) [0..<level] = map (ups_of h ?hdr xs k) [0..<?L] @ replicate (level - ?L) (?hdr, 0)"
    using True by (intro nth_equalityI) (auto simp: nth_append ups)
  then have "raise_level level (map (ups_of h ?hdr xs k) [0..<?L]) h zsl = Some (map (ups_of h' ?hdr xs k) [0..<level], h', zsl')"
    using True h'(1) by (simp add: raise_level_def zsl'_def)
  then show ?thesis using wf' h'(2,3) True by (auto simp: zsl'_def)
qed

text \<open>The link a search leaves at level \<open>i\<close>.\<close>

definition cut_link :: "('s, 'o) zheap \<Rightarrow> nat \<Rightarrow> nat list \<Rightarrow> nat \<Rightarrow> nat \<Rightarrow> nat option \<times> int" where
  "cut_link h hdr xs k i = next_at (height h) i (drop (stop_at (hts h hdr xs) i k) xs)"

lemma cut_link_eq:
  assumes "zsl_wf h zsl xs" and "k \<le> length xs" and "i < zsl_level zsl"
  defines "u \<equiv> fst (ups_of h (zsl_header zsl) xs k i)" and "r \<equiv> stop_at (hts h (zsl_header zsl) xs) i k"
  shows "get_link h u i = Some (cut_link h (zsl_header zsl) xs k i)" and "i < height h u"
    and "cut_link h (zsl_header zsl) xs k i = apsnd (\<lambda>s. s + int (k - r)) (next_at (height h) i (drop k xs))"
proof -
  note w = zsl_wfD [OF assms(1)]
  have r: "r \<le> k" using stop_at_le by (simp add: r_def)
  have "i < hts h (zsl_header zsl) xs r"
    unfolding r_def using stop_at_height nodes_okD(2) [OF w(1)] w(5) assms(3) by simp
  then show h: "i < height h u" by (simp add: u_def ups_of_def r_def hts_def)
  then show "get_link h u i = Some (cut_link h (zsl_header zsl) xs k i)"
    using w(2) r assms(2,3) by (simp add: links_ok_def u_def r_def ups_of_def cut_link_def)
  have d: "drop r xs = take (k - r) (drop r xs) @ drop k xs"
    using r by (metis append_take_drop_id drop_drop le_add_diff_inverse2)
  have "height h y \<le> i" if y: "y \<in> set (take (k - r) (drop r xs))" for y
  proof -
    obtain q where q: "q < k - r" "y = drop r xs ! q" using y by (auto simp: in_set_conv_nth)
    then have "y = at (zsl_header zsl) xs (Suc (r + q))" using assms(2) r by simp
    moreover have "hts h (zsl_header zsl) xs (Suc (r + q)) \<le> i"
      by (rule stop_at_between [where k = k]) (use q(1) in \<open>simp_all add: r_def\<close>)
    ultimately show ?thesis by (simp add: hts_def)
  qed
  then have "\<not> (\<exists>y \<in> set (take (k - r) (drop r xs)). i < height h y)" by (meson not_le)
  then have "next_at (height h) i (take (k - r) (drop r xs) @ drop k xs) =
      apsnd (\<lambda>s. s + int (length (take (k - r) (drop r xs)))) (next_at (height h) i (drop k xs))"
    by (simp only: next_at_append if_False)
  moreover have "length (take (k - r) (drop r xs)) = k - r" using assms(2) by simp
  ultimately show "cut_link h (zsl_header zsl) xs k i = apsnd (\<lambda>s. s + int (k - r)) (next_at (height h) i (drop k xs))"
    using d by (simp add: cut_link_def flip: r_def)
qed

text \<open>The links after the two loops of the insertion.\<close>

lemma splice_links:
  fixes h :: "('s, 'o) zheap" and score :: 's and obj :: 'o
  assumes wf: "zsl_wf h zsl xs" and k: "k \<le> length xs" and x: "h x = None" and level: "level \<le> zsl_level zsl"
    and short: "Suc (length xs) < 2 ^ 32"
  defines "hdr \<equiv> zsl_header zsl" and "ups \<equiv> map (ups_of h (zsl_header zsl) xs k) [0..<zsl_level zsl]"
  defines "h0 \<equiv> h(x \<mapsto> zslCreateNode level score (Some obj))"
  shows "\<exists>h1 h2. foldM (splice_level ups x) [0..<level] h0 = Some h1 \<and>
    foldM (widen_level ups) [level..<zsl_level zsl] h1 = Some h2 \<and> skel h2 = skel h0 \<and> backs h2 = backs h0 \<and>
    (\<forall>c i. get_link h2 c i =
      (if i < zsl_level zsl \<and> c = fst (ups_of h hdr xs k i)
       then Some (if i < level then (Some x, int (k - stop_at (hts h hdr xs) i k) + 1)
                  else apsnd (\<lambda>s. s + 1) (cut_link h hdr xs k i))
       else if c = x \<and> i < level then Some (next_at (height h) i (drop k xs)) else get_link h c i))"
proof -
  note w = zsl_wfD [OF wf]
  let ?u = "\<lambda>i. fst (ups_of h hdr xs k i)" and ?r = "\<lambda>i. stop_at (hts h hdr xs) i k"
  note cut = cut_link_eq [OF wf k, folded hdr_def]
  have ux: "?u i \<noteq> x" for i
  proof -
    have "?r i \<le> length xs" using stop_at_le k order_trans by blast
    then obtain n where "h (at hdr xs (?r i)) = Some n" using node_at [OF w(1)] unfolding hdr_def by blast
    then show ?thesis using x by (auto simp: ups_of_def)
  qed
  have H0: "height h0 c = (if c = x then level else height h c)" for c
    by (simp add: h0_def height_def zslCreateNode_def)
  have l0: "get_link h0 c i = (if c = x then (if i < level then Some (None, 0) else None) else get_link h c i)" for c i
    by (simp add: h0_def get_link_def zslCreateNode_def array_get_def)
  have ups: "array_get ups i = Some (?u i, int (?r i))" if "i < zsl_level zsl" for i
    using that by (simp add: ups_def ups_of_def hdr_def)
  have r0: "?r 0 = k" unfolding hdr_def by (rule stop_at_0 [OF w(1) k])
  have "\<exists>h1. foldM (splice_level ups x) [0..<level] h0 = Some h1 \<and> skel h1 = skel h0 \<and> backs h1 = backs h0 \<and>
    (\<forall>c i. get_link h1 c i = (if 0 \<le> i \<and> i < level
       then (if c = ?u i then Some (Some x, int (k - ?r i) + 1)
             else if c = x then Some (next_at (height h) i (drop k xs)) else get_link h0 c i) else get_link h0 c i))"
  proof (rule foldM_links)
    fix i s
    assume i: "i < level" and s: "skel s = skel h0" "backs s = backs h0" "\<forall>c j. i \<le> j \<longrightarrow> get_link s c j = get_link h0 c j"
    have iL: "i < zsl_level zsl" using i level by simp
    have hs: "height s c = (if c = x then level else height h c)" for c using skel_height [OF s(1)] H0 by simp
    obtain f sp where cl: "cut_link h hdr xs k i = (f, sp)" by fastforce
    have g: "get_link s (?u i) i = Some (f, sp)" using s(3) l0 ux [of i] cut(1) [OF iL] cl by simp
    have nx: "(f, sp - int (k - ?r i)) = next_at (height h) i (drop k xs)"
      using cut(3) [OF iL] cl by (simp add: prod_eq_iff)
    have wx: "c_uint (sp - int (k - ?r i)) = sp - int (k - ?r i)"
      using nx next_at_bounds [of "height h" i "drop k xs"] short by (simp add: prod_eq_iff)
    have wu: "c_uint (int (k - ?r i) + 1) = int (k - ?r i) + 1" using k short by simp
    have "i < height s x" using hs i by simp
    then obtain s1 where s1: "set_link x i (f, sp - int (k - ?r i)) s = Some s1" "skel s1 = skel s" "backs s1 = backs s"
      "get_link s1 = (\<lambda>b j. if b = x \<and> j = i then Some (f, sp - int (k - ?r i)) else get_link s b j)"
      using set_link_spec [of i s x] by blast
    have "i < height s1 (?u i)" using skel_height [OF s1(2)] hs ux [of i] cut(2) [OF iL] by simp
    then obtain s2 where s2: "set_link (?u i) i (Some x, int (k - ?r i) + 1) s1 = Some s2" "skel s2 = skel s1" "backs s2 = backs s1"
      "get_link s2 = (\<lambda>b j. if b = ?u i \<and> j = i then Some (Some x, int (k - ?r i) + 1) else get_link s1 b j)"
      using set_link_spec [of i s1 "?u i"] by blast
    have "?r i \<le> k" by (rule stop_at_le)
    then have "splice_level ups x i s = Some s2"
      using ups [OF iL] ups [of 0] iL r0 g s1(1) s2(1) wx wu by (simp add: splice_level_def of_nat_diff)
    then show "\<exists>s'. splice_level ups x i s = Some s' \<and> skel s' = skel h0 \<and> backs s' = backs h0 \<and>
        (\<forall>c j. get_link s' c j = (if j = i then (if c = ?u i then Some (Some x, int (k - ?r i) + 1)
             else if c = x then Some (next_at (height h) i (drop k xs)) else get_link h0 c i) else get_link s c j))"
      using s s1 s2 nx ux [of i] by (intro exI [of _ s2]) auto
  qed simp
  then obtain h1 where h1: "foldM (splice_level ups x) [0..<level] h0 = Some h1" "skel h1 = skel h0" "backs h1 = backs h0"
    and l1: "\<And>c i. get_link h1 c i = (if i < level
       then (if c = ?u i then Some (Some x, int (k - ?r i) + 1)
             else if c = x then Some (next_at (height h) i (drop k xs)) else get_link h0 c i) else get_link h0 c i)"
    by (auto simp only: le0 simp_thms)
  have "\<exists>h2. foldM (widen_level ups) [level..<zsl_level zsl] h1 = Some h2 \<and> skel h2 = skel h1 \<and> backs h2 = backs h1 \<and>
    (\<forall>c i. get_link h2 c i = (if level \<le> i \<and> i < zsl_level zsl
       then (if c = ?u i then Some (apsnd (\<lambda>s. s + 1) (cut_link h hdr xs k i)) else get_link h1 c i) else get_link h1 c i))"
  proof (rule foldM_links)
    fix i s
    assume i: "level \<le> i" "i < zsl_level zsl" and s: "skel s = skel h1" "backs s = backs h1"
      "\<forall>c j. i \<le> j \<longrightarrow> get_link s c j = get_link h1 c j"
    obtain f sp where cl: "cut_link h hdr xs k i = (f, sp)" by fastforce
    have g: "get_link s (?u i) i = Some (f, sp)" using s(3) l1 l0 ux [of i] cut(1) [OF i(2)] cl i(1) by simp
    have "i < height s (?u i)" using skel_height [OF s(1)] skel_height [OF h1(2)] H0 ux [of i] cut(2) [OF i(2)] by simp
    then obtain s1 where s1: "set_link (?u i) i (f, sp + 1) s = Some s1" "skel s1 = skel s" "backs s1 = backs s"
      "get_link s1 = (\<lambda>b j. if b = ?u i \<and> j = i then Some (f, sp + 1) else get_link s b j)"
      using set_link_spec [of i s "?u i"] by blast
    have "0 \<le> sp" "sp \<le> int (length xs)"
      using cl next_at_bounds [of "height h" i "drop (?r i) xs"] by (auto simp: cut_link_def)
    then have "c_uint (sp + 1) = sp + 1" using short by simp
    then have "widen_level ups i s = Some s1" using ups [OF i(2)] g s1(1) by (simp add: widen_level_def)
    then show "\<exists>s'. widen_level ups i s = Some s' \<and> skel s' = skel h1 \<and> backs s' = backs h1 \<and>
        (\<forall>c j. get_link s' c j = (if j = i then (if c = ?u i then Some (apsnd (\<lambda>s. s + 1) (cut_link h hdr xs k i)) else get_link h1 c i)
          else get_link s c j))"
      using s s1 cl by (intro exI [of _ s1]) auto
  qed (use level in simp)
  then obtain h2 where h2: "foldM (widen_level ups) [level..<zsl_level zsl] h1 = Some h2" "skel h2 = skel h1" "backs h2 = backs h1"
    and l2: "\<And>c i. get_link h2 c i = (if level \<le> i \<and> i < zsl_level zsl
       then (if c = ?u i then Some (apsnd (\<lambda>s. s + 1) (cut_link h hdr xs k i)) else get_link h1 c i) else get_link h1 c i)"
    by blast
  have xn: "get_link h x i = None" for i using x by (simp add: get_link_def)
  have "get_link h2 c i =
      (if i < zsl_level zsl \<and> c = ?u i
       then Some (if i < level then (Some x, int (k - ?r i) + 1) else apsnd (\<lambda>s. s + 1) (cut_link h hdr xs k i))
       else if c = x \<and> i < level then Some (next_at (height h) i (drop k xs)) else get_link h c i)" for c i
    using level xn ux [of i] by (auto simp: l2 l1 l0)
  then show ?thesis using h1 h2 by auto
qed

lemma at_insert:
  assumes "k \<le> length xs" and "p \<le> Suc (length xs)"
  shows "at hdr (take k xs @ x # drop k xs) p = (if p \<le> k then at hdr xs p else if p = Suc k then x else at hdr xs (p - 1))"
    and "drop p (take k xs @ x # drop k xs) =
      (if p \<le> k then take (k - p) (drop p xs) @ x # drop k xs else drop (p - 1) xs)"
  using assms by (auto simp: nth_append nth_Cons' min_def drop_Cons' take_drop numeral_2_eq_2)

lemma at_inj:
  assumes "distinct (hdr # xs)" and "p \<le> length xs" and "q \<le> length xs"
  shows "at hdr xs p = at hdr xs q \<longleftrightarrow> p = q"
  using nth_eq_iff_index_eq [OF assms(1), of p q] assms(2,3) by simp

lemma level_before_stop:
  assumes "p \<le> k" and "k \<le> length xs" and "i < hts h hdr xs p" and "i < height h hdr"
  shows "(\<exists>y \<in> set (take (k - p) (drop p xs)). i < height h y) \<longleftrightarrow> p \<noteq> stop_at (hts h hdr xs) i k"
    (is "_ \<longleftrightarrow> p \<noteq> ?r")
proof
  have pl: "p \<le> length xs" using assms(1,2) by simp
  assume "\<exists>y \<in> set (take (k - p) (drop p xs)). i < height h y"
  then obtain q where q: "q < k - p" "i < height h (xs ! (p + q))" using pl assms(2) by (auto simp: in_set_conv_nth)
  have "Suc (p + q) \<le> k" using q(1) by linarith
  then show "p \<noteq> ?r" using q(2) stop_at_between [of "hts h hdr xs" i k "Suc (p + q)"] by (auto simp: hts_def)
next
  have rk: "?r \<le> k" by (rule stop_at_le)
  assume "p \<noteq> ?r"
  then have "\<not> ?r < p" using stop_at_between [of "hts h hdr xs" i k p] assms(1,3) by force
  then have pr: "p < ?r" using \<open>p \<noteq> ?r\<close> by simp
  have "i < hts h hdr xs ?r" using stop_at_height assms(4) by simp
  then have "i < height h (xs ! (?r - 1))" using pr by (simp add: hts_def nth_Cons')
  moreover have "take (k - p) (drop p xs) ! (?r - 1 - p) = xs ! (?r - 1)" "?r - 1 - p < length (take (k - p) (drop p xs))"
    using pr rk assms(2) by simp_all
  ultimately show "\<exists>y \<in> set (take (k - p) (drop p xs)). i < height h y" by (metis nth_mem)
qed

lemma insert_links:
  assumes wf: "zsl_wf h zsl xs" and k: "k \<le> length xs" and x: "h x = None" and level: "level \<le> zsl_level zsl"
  defines "hdr \<equiv> zsl_header zsl"
  assumes H: "height h2 = (height h)(x := level)"
    and lk: "\<And>c i. get_link h2 c i =
      (if i < zsl_level zsl \<and> c = fst (ups_of h hdr xs k i)
       then Some (if i < level then (Some x, int (k - stop_at (hts h hdr xs) i k) + 1)
                  else apsnd (\<lambda>s. s + 1) (cut_link h hdr xs k i))
       else if c = x \<and> i < level then Some (next_at (height h) i (drop k xs)) else get_link h c i)"
  shows "links_ok h2 hdr (zsl_level zsl) (take k xs @ x # drop k xs)"
  unfolding links_ok_def
proof (intro allI impI)
  fix p i
  let ?xs' = "take k xs @ x # drop k xs" and ?r = "stop_at (hts h hdr xs) i k"
  assume p: "p \<le> length ?xs'" and i: "i < zsl_level zsl" and hi: "i < height h2 (at hdr ?xs' p)"
  note w = zsl_wfD [OF wf, folded hdr_def] and nk = nodes_okD [OF zsl_wfD(1) [OF wf], folded hdr_def]
  have hx: "height h x = 0" using x by (simp add: height_def)
  then have xn: "x \<notin> set (hdr # xs)" using nk(2,3) by force
  have nx: "next_at (height h2) i ys = next_at (height h) i ys" if "x \<notin> set ys" for ys
    using that by (intro next_at_cong) (auto simp: H)
  have xt: "x \<notin> set (take (k - q) (drop q xs))" "x \<notin> set (drop q xs)" for q
    using xn by (auto dest: in_set_takeD in_set_dropD)
  have rk: "?r \<le> k" by (rule stop_at_le)
  have p': "p \<le> Suc (length xs)" using p k by simp
  note at' = at_insert(1) [OF k p', of hdr x] at_insert(2) [OF k p', of x]
  have old: "get_link h (at hdr xs q) i = Some (next_at (height h) i (drop q xs))"
    if "q \<le> length xs" "i < height h (at hdr xs q)" for q using w(2) that i by (simp add: links_ok_def)
  have u: "fst (ups_of h hdr xs k i) = at hdr xs ?r" by (simp add: ups_of_def)
  have ueq: "at hdr xs q = at hdr xs ?r \<longleftrightarrow> q = ?r" if "q \<le> length xs" for q
    using at_inj [OF nk(1) that, of ?r] rk k by simp
  have neq: "at hdr xs q \<noteq> x" if "q \<le> length xs" for q using xn that by (auto simp: nth_Cons')
  consider (before) "p \<le> k" | (new) "p = Suc k" | (after) "Suc k < p" by linarith
  then show "get_link h2 (at hdr ?xs' p) i = Some (next_at (height h2) i (drop p ?xs'))"
  proof cases
    case before
    let ?ys = "take (k - p) (drop p xs)"
    have pl: "p \<le> length xs" using before k by simp
    have hp: "i < hts h hdr xs p" using hi before neq [OF pl] by (simp add: at' H hts_def)
    have d: "drop p xs = ?ys @ drop k xs"
      using before by (metis append_take_drop_id drop_drop le_add_diff_inverse2)
    have high: "(\<exists>y \<in> set ?ys. i < height h y) \<longleftrightarrow> p \<noteq> ?r"
      by (rule level_before_stop) (use before k hp nk(2) i w(5) in simp_all)
    have nxt: "next_at (height h2) i (drop p ?xs') = next_at (height h2) i (?ys @ x # drop k xs)"
      unfolding at'(2) using before by simp
    show ?thesis
    proof (cases "p = ?r")
      case True
      have l: "length ?ys = k - ?r" using True pl k by simp
      have "\<not> (\<exists>y \<in> set ?ys. i < height h2 y)" using high True xt(1) [of p] by (auto simp: H)
      then have n2: "next_at (height h2) i (drop p ?xs') = apsnd (\<lambda>s. s + int (k - ?r)) (next_at (height h2) i (x # drop k xs))"
        unfolding nxt next_at_append l by simp
      have cut: "cut_link h hdr xs k i = apsnd (\<lambda>s. s + int (k - ?r)) (next_at (height h) i (drop k xs))"
        using cut_link_eq(3) [OF wf k i] by (simp add: hdr_def)
      have ap: "at hdr ?xs' p = at hdr xs ?r" using at'(1) before True by simp
      show ?thesis
        unfolding n2 ap using i u nx [OF xt(2) [of k]]
        by (simp add: lk cut H apsnd_compose comp_def add.commute add.left_commute)
    next
      case False
      then have "\<exists>y \<in> set ?ys. i < height h y" using high by simp
      moreover then have "\<exists>y \<in> set ?ys. i < height h2 y" using xt(1) [of p] by (auto simp: H)
      ultimately have "next_at (height h2) i (drop p ?xs') = next_at (height h) i (drop p xs)"
        unfolding nxt by (subst d) (simp only: next_at_append if_True nx [OF xt(1)])
      then show ?thesis
        using before False u ueq [OF pl] neq [OF pl] old [OF pl] hp by (simp add: at' lk hts_def)
    qed
  next
    case new
    then have ap: "at hdr ?xs' p = x" and dp: "drop p ?xs' = drop k xs" unfolding at' by simp_all
    then have "i < level" using hi by (simp add: H)
    moreover have "x \<noteq> at hdr xs ?r" using neq [of ?r] rk k by simp
    ultimately show ?thesis unfolding ap dp using u nx [OF xt(2) [of k]] by (simp add: lk)
  next
    case after
    then have ap: "at hdr ?xs' p = at hdr xs (p - 1)" and dp: "drop p ?xs' = drop (p - 1) xs" unfolding at' by simp_all
    have q: "p - 1 \<le> length xs" "p - 1 \<noteq> ?r" using p' rk after by auto
    moreover have "i < height h (at hdr xs (p - 1))" using hi neq [OF q(1)] by (simp add: ap H)
    ultimately show ?thesis
      unfolding ap dp using u ueq [OF q(1)] neq [OF q(1)] old [OF q(1)] nx [OF xt(2)] by (simp add: lk)
  qed
qed

lemma randomLevel_bounds: "zslRandomLevel rs = Some level \<Longrightarrow> 1 \<le> level \<and> level \<le> ZSKIPLIST_MAXLEVEL"
proof -
  have "randomLevel_loop rs l = Some level \<Longrightarrow> l \<le> level" for l level
    by (induction rs l rule: randomLevel_loop.induct) (auto split: if_splits)
  then show "zslRandomLevel rs = Some level \<Longrightarrow> 1 \<le> level \<and> level \<le> ZSKIPLIST_MAXLEVEL"
    by (auto simp: zslRandomLevel_def bind_eq_Some_conv split: if_splits)
qed

lemma back_ok_backs: "back_ok h xs \<longleftrightarrow> (\<forall>p < length xs. backs h (xs ! p) = Some (if p = 0 then None else Some (xs ! (p - 1))))"
  by (simp add: back_ok_def backs_def)

lemma next_at_0:
  assumes "nodes_ok h hdr L xs"
  shows "next_at (height h) 0 (drop k xs) = (if k < length xs then (Some (xs ! k), 1) else (None, 0))"
proof (cases "k < length xs")
  case True
  then show ?thesis using nodes_okD(3) [OF assms, of "xs ! k"] by (simp add: Cons_nth_drop_Suc [symmetric])
qed simp

lemma link_back_spec:
  assumes nok: "nodes_ok h hdr L xs" and b: "back_ok h xs" and k: "k \<le> length xs" and x: "h x = None"
    and skel: "skel h2 = (skel h)(x := Some e)" and backs: "\<And>a. a \<noteq> x \<Longrightarrow> backs h2 a = backs h a"
    and lx: "get_link h2 x 0 = Some (next_at (height h) 0 (drop k xs))" and hdr: "zsl_header zsl = hdr"
    and tail: "zsl_tail zsl = (if xs = [] then None else Some (last xs))"
  defines "xs' \<equiv> take k xs @ x # drop k xs"
  shows "\<exists>h3. link_back (at hdr xs k) x h2 zsl = Some (h3, zsl\<lparr>zsl_tail := Some (last xs')\<rparr>) \<and>
    skel h3 = skel h2 \<and> get_link h3 = get_link h2 \<and> back_ok h3 xs'"
proof -
  note nk = nodes_okD [OF nok]
  have xn: "x \<notin> set (hdr # xs)" using nk(5,6) x by force
  have ax: "xs ! q \<noteq> x" if "q < length xs" for q using xn that by (metis list.set_intros(2) nth_mem)
  have kh: "at hdr xs k = hdr \<longleftrightarrow> k = 0" using at_inj [OF nk(1), of k 0] k by simp
  let ?b = "if k = 0 then None else Some (xs ! (k - 1))"
  have "h2 x \<noteq> None" using fun_cong [OF skel, of x] by (auto simp: skel_def)
  then obtain h3 where h3: "set_backward x ?b h2 = Some h3" "skel h3 = skel h2" "backs h3 = (backs h2)(x := Some ?b)"
    "get_link h3 = get_link h2" using set_backward_spec [of h2 x ?b] by blast
  have sb: "(if at hdr xs k = zsl_header zsl then None else Some (at hdr xs k)) = ?b" using kh hdr k by (auto simp: nth_Cons')
  have nx: "get_link h3 x 0 = Some (if k < length xs then (Some (xs ! k), 1) else (None, 0))"
    using h3(4) lx next_at_0 [OF nok, of k] by simp
  have old: "backs h (xs ! p) = Some (if p = 0 then None else Some (xs ! (p - 1)))" if "p < length xs" for p
    using b that by (simp add: back_ok_backs)
  have nth': "xs' ! p = (if p < k then xs ! p else if p = k then x else xs ! (p - 1))" if "p \<le> length xs" for p
    using that k by (auto simp: xs'_def nth_append nth_Cons' min_def)
  have len: "length xs' = Suc (length xs)" using k by (simp add: xs'_def)
  have last: "last xs' = (if k < length xs then last xs else x)"
    using k by (auto simp: xs'_def)
  show ?thesis
  proof (cases "k < length xs")
    case False
    then have "k = length xs" using k by simp
    then have "back_ok h3 xs'"
      unfolding back_ok_backs len using h3(3) backs old ax by (auto simp: nth' less_Suc_eq)
    moreover have "link_back (at hdr xs k) x h2 zsl = Some (h3, zsl\<lparr>zsl_tail := Some (last xs')\<rparr>)"
      unfolding link_back_def sb using False h3(1) nx last by simp
    ultimately show ?thesis using h3 by blast
  next
    case True
    have "\<exists>n b. h (xs ! k) = Some n \<and> zn_obj n = Some b" using nk(5) True by simp
    then have "skel h3 (xs ! k) \<noteq> None" using h3(2) skel ax [OF True] by (auto simp: skel_def)
    then have "h3 (xs ! k) \<noteq> None" by (simp add: skel_def)
    then obtain h4 where h4: "set_backward (xs ! k) (Some x) h3 = Some h4" "skel h4 = skel h3"
      "backs h4 = (backs h3)(xs ! k := Some (Some x))" "get_link h4 = get_link h3"
      using set_backward_spec [of h3 "xs ! k"] by blast
    have d: "xs ! p = xs ! k \<longleftrightarrow> p = k" if "p < length xs" for p
      using nk(1) that True by (simp add: nth_eq_iff_index_eq)
    have "back_ok h4 xs'"
      unfolding back_ok_backs len
    proof (intro allI impI)
      fix p assume p: "p < Suc (length xs)"
      consider "p < k" | "p = k" | "p = Suc k" | "Suc k < p" by linarith
      then show "backs h4 (xs' ! p) = Some (if p = 0 then None else Some (xs' ! (p - 1)))"
      proof cases
        case 1
        then show ?thesis using p d [of p] ax [of p] old [of p] backs True by (auto simp: nth' h4(3) h3(3))
      next
        case 2
        then show ?thesis using p ax [of k] True by (auto simp: nth' h4(3) h3(3))
      next
        case 3
        then show ?thesis using p True by (auto simp: nth' h4(3))
      next
        case 4
        then have q: "p - 1 < length xs" "p - 1 \<noteq> k" "0 < p - 1" using p by auto
        then have "backs h4 (xs ! (p - 1)) = backs h (xs ! (p - 1))"
          using d [OF q(1)] ax [OF q(1)] backs by (simp add: h4(3) h3(3))
        then show ?thesis using 4 p old [OF q(1)] q(2,3) by (simp add: nth')
      qed
    qed
    moreover have "zsl_tail zsl = Some (last xs')" using tail last True by auto
    then have "zsl\<lparr>zsl_tail := Some (last xs')\<rparr> = zsl" by simp
    then have "link_back (at hdr xs k) x h2 zsl = Some (h4, zsl\<lparr>zsl_tail := Some (last xs')\<rparr>)"
      unfolding link_back_def sb using True h3(1) h4(1) nx by simp
    ultimately show ?thesis using h3 h4 by auto
  qed
qed

lemma zslInsert_wf:
  assumes wf: "zsl_wf h zsl xs" and P: "holds_upto h xs (\<lambda>n r. node_before score obj n) k" and x: "h x = None"
    and rs: "zslRandomLevel rs = Some level" and short: "Suc (length xs) < 2 ^ 32"
  shows "\<exists>h' zsl'. zslInsert x rs h zsl score obj = Some (h', zsl') \<and> zsl_wf h' zsl' (take k xs @ x # drop k xs) \<and>
    (\<forall>a. a \<noteq> x \<longrightarrow> skel h' a = skel h a) \<and> elem h' x = (score, obj) \<and> h' x \<noteq> None \<and> zsl_header zsl' = zsl_header zsl"
proof -
  let ?hdr = "zsl_header zsl" and ?xs' = "take k xs @ x # drop k xs"
  have k: "k \<le> length xs" using P by (simp add: holds_upto_def)
  note l = randomLevel_bounds [OF rs]
  obtain h1 zsl1 where h1: "raise_level level (map (ups_of h ?hdr xs k) [0..<zsl_level zsl]) h zsl =
      Some (map (ups_of h1 ?hdr xs k) [0..<zsl_level zsl1], h1, zsl1)" "zsl_wf h1 zsl1 xs" "skel h1 = skel h" "backs h1 = backs h"
    and z1: "zsl_level zsl1 = max level (zsl_level zsl)" "zsl_header zsl1 = ?hdr"
    using raise_level_spec [OF wf k, of level] l by blast
  note w1 = zsl_wfD [OF h1(2), unfolded z1(2)]
  have x1: "h1 x = None" using fun_cong [OF h1(3), of x] x by (simp add: skel_def)
  have ll: "level \<le> zsl_level zsl1" using z1(1) by simp
  let ?ups = "map (ups_of h1 ?hdr xs k) [0..<zsl_level zsl1]" and ?h = "h1(x \<mapsto> zslCreateNode level score (Some obj))"
  obtain h2 h3 where h2: "foldM (splice_level ?ups x) [0..<level] ?h = Some h2"
    and h3: "foldM (widen_level ?ups) [level..<zsl_level zsl1] h2 = Some h3" "skel h3 = skel ?h" "backs h3 = backs ?h"
    and lk: "\<And>c i. get_link h3 c i =
      (if i < zsl_level zsl1 \<and> c = fst (ups_of h1 ?hdr xs k i)
       then Some (if i < level then (Some x, int (k - stop_at (hts h1 ?hdr xs) i k) + 1)
                  else apsnd (\<lambda>s. s + 1) (cut_link h1 ?hdr xs k i))
       else if c = x \<and> i < level then Some (next_at (height h1) i (drop k xs)) else get_link h1 c i)"
    using splice_links [OF h1(2) k x1 ll short, of score obj] unfolding z1(2) by blast
  have sk: "skel ?h = (skel h1)(x := Some (Some obj, score, level))"
    by (simp add: skel_def fun_eq_iff zslCreateNode_def)
  have H: "height h3 = (height h1)(x := level)"
    by (simp add: fun_eq_iff height_skel h3(2) sk)
  have links: "links_ok h3 ?hdr (zsl_level zsl1) ?xs'"
    using insert_links [OF h1(2) k x1 ll H] lk unfolding z1(2) by blast
  have xn: "x \<notin> set (?hdr # xs)" using nodes_okD(5,6) [OF w1(1)] x1 by force
  have ux: "fst (ups_of h1 ?hdr xs k 0) \<noteq> x"
    using xn stop_at_0 [OF w1(1) k] k by (auto simp: ups_of_def nth_Cons')
  have lx: "get_link h3 x 0 = Some (next_at (height h1) 0 (drop k xs))" using l ux by (auto simp: lk)
  have bk: "backs h3 a = backs h1 a" if "a \<noteq> x" for a using that by (simp add: h3(3) backs_def)
  have sk3: "skel h3 = (skel h1)(x := Some (Some obj, score, level))" by (simp only: h3(2) sk)
  obtain h4 where h4: "link_back (at ?hdr xs k) x h3 zsl1 = Some (h4, zsl1\<lparr>zsl_tail := Some (last ?xs')\<rparr>)"
    "skel h4 = skel h3" "get_link h4 = get_link h3" "back_ok h4 ?xs'"
    using link_back_spec [OF w1(1,3) k x1 sk3 bk lx z1(2) w1(7)] by blast
  define zsl' where "zsl' = zsl1\<lparr>zsl_tail := Some (last ?xs'), zsl_length := c_ulong (zsl_length zsl1 + 1)\<rparr>"
  have u0: "array_get ?ups 0 = Some (at ?hdr xs k, int k)"
    using w1(4) stop_at_0 [OF w1(1) k] by (simp add: ups_of_def)
  have search: "zsl_search c_uint h zsl (\<lambda>n r. node_before score obj n) = Some (map (ups_of h ?hdr xs k) [0..<zsl_level zsl])"
    by (rule zsl_search_ups [OF wf P]) simp
  have ins: "zslInsert x rs h zsl score obj = Some (h4, zsl')"
    unfolding zslInsert_def search rs using h1(1) h2 h3(1) u0 h4(1) by (simp add: zsl'_def)
  have nodes: "nodes_ok h4 ?hdr (zsl_level zsl1) ?xs'"
  proof -
    have "set ?xs' = insert x (set xs)" by (metis Un_insert_right append_take_drop_id list.simps(15) set_append)
    moreover have "distinct (?hdr # ?xs')"
      using nodes_okD(1) [OF w1(1)] xn set_take_disj_set_drop_if_distinct [of xs k k]
      by (auto dest: in_set_takeD in_set_dropD)
    moreover have "skel h4 = (skel h1)(x := Some (Some obj, score, level))" by (simp only: h4(2) sk3)
    ultimately show ?thesis using w1(1) xn l ll by (auto simp: nodes_ok_def)
  qed
  have "map_option fst (get_link h4 ?hdr i) = Some None" if "zsl_level zsl1 \<le> i" "i < ZSKIPLIST_MAXLEVEL" for i
    using w1(8) [OF that] that xn by (auto simp: h4(3) lk)
  moreover have "links_ok h4 ?hdr (zsl_level zsl1) ?xs'"
    using links skel_height [OF h4(2)] h4(3) by (simp add: links_ok_def)
  ultimately have "zsl_wf h4 zsl' ?xs'"
    using nodes h4(4) w1(4-6) k short by (simp add: zsl_wf_def zsl'_def z1(2) min_def)
  moreover have sk4: "skel h4 a = (if a = x then Some (Some obj, score, level) else skel h a)" for a
    by (simp add: h4(2) sk3 h1(3))
  moreover obtain n where "h4 x = Some n" "zn_obj n = Some obj" "zn_score n = score"
    using sk4 [of x] by (auto simp: skel_def)
  then have "elem h4 x = (score, obj)" "h4 x \<noteq> None" by (simp_all add: elem_def)
  ultimately show ?thesis using ins by (auto simp: zsl'_def z1(2))
qed

end
