(* ===== verification/Skiplist_Delete.thy ===== *)
theory Skiplist_Delete
  imports Skiplist_Correct
begin

text \<open>Deletion of a node of the skip list keeps the invariant, and the search result stays valid.\<close>

section \<open>Unlinking\<close>

lemma next_at_mem: "fst (next_at H i ys) = Some y \<Longrightarrow> y \<in> set ys"
  by (induction ys) (auto split: if_splits)

lemma unsplice_links:
  assumes wf: "zsl_wf h zsl xs" and k: "k < length xs"
    and ups: "\<And>i. i < zsl_level zsl \<Longrightarrow> array_get ups i = Some (ups_of h (zsl_header zsl) xs k i)"
  defines "hdr \<equiv> zsl_header zsl" and "x \<equiv> xs ! k"
  shows "\<exists>h1. foldM (unsplice_level ups x) [0..<zsl_level zsl] h = Some h1 \<and> skel h1 = skel h \<and> backs h1 = backs h \<and>
    (\<forall>c i. get_link h1 c i = (if i < zsl_level zsl \<and> c = fst (ups_of h hdr xs k i)
       then Some (apsnd (\<lambda>s. s + int (k - stop_at (hts h hdr xs) i k)) (next_at (height h) i (drop (Suc k) xs)))
       else get_link h c i))"
proof -
  note w = zsl_wfD [OF wf, folded hdr_def] and nk = nodes_okD [OF zsl_wfD(1) [OF wf], folded hdr_def]
  let ?u = "\<lambda>i. fst (ups_of h hdr xs k i)" and ?r = "\<lambda>i. stop_at (hts h hdr xs) i k"
  let ?new = "\<lambda>i. apsnd (\<lambda>s. s + int (k - ?r i)) (next_at (height h) i (drop (Suc k) xs))"
  have k': "k \<le> length xs" using k by simp
  note cut = cut_link_eq [OF wf k', folded hdr_def]
  have d: "drop k xs = x # drop (Suc k) xs" using k by (simp add: Cons_nth_drop_Suc x_def)
  have "distinct (drop k xs)" using nk(1) by (simp add: distinct_drop)
  then have xn: "x \<notin> set (drop (Suc k) xs)" unfolding d by simp
  have "\<exists>h1. foldM (unsplice_level ups x) [0..<zsl_level zsl] h = Some h1 \<and> skel h1 = skel h \<and> backs h1 = backs h \<and>
    (\<forall>c i. get_link h1 c i = (if 0 \<le> i \<and> i < zsl_level zsl then (if c = ?u i then Some (?new i) else get_link h c i)
       else get_link h c i))"
  proof (rule foldM_links)
    fix i s
    assume i: "i < zsl_level zsl" and s: "skel s = skel h" "backs s = backs h" "\<forall>c j. i \<le> j \<longrightarrow> get_link s c j = get_link h c j"
    obtain f sp where cl: "cut_link h hdr xs k i = (f, sp)" by fastforce
    have g: "get_link s (?u i) i = Some (f, sp)" using s(3) cut(1) [OF i] cl by simp
    have fs: "(f, sp) = apsnd (\<lambda>s. s + int (k - ?r i)) (next_at (height h) i (x # drop (Suc k) xs))"
      using cut(3) [OF i] cl d by simp
    have "i < height s (?u i)" using skel_height [OF s(1)] cut(2) [OF i] by simp
    then obtain s1 where s1: "set_link (?u i) i (?new i) s = Some s1" "skel s1 = skel s" "backs s1 = backs s"
      "get_link s1 = (\<lambda>b j. if b = ?u i \<and> j = i then Some (?new i) else get_link s b j)"
      using set_link_spec [of i s "?u i"] by blast
    have wn: "c_uint (snd (?new i)) = snd (?new i)"
      using next_at_bounds [of "height h" i "drop (Suc k) xs"] w(9) k by (simp add: split_beta)
    obtain u ru where uu: "ups_of h hdr xs k i = (u, ru)" by fastforce
    have u: "array_get ups i = Some (u, ru)" using ups [OF i] uu by (simp add: hdr_def)
    have "unsplice_level ups x i s = Some s1"
    proof (cases "i < height h x")
      case True
      obtain fx sx where nx: "next_at (height h) i (drop (Suc k) xs) = (fx, sx)" by fastforce
      have "get_link h (at hdr xs (Suc k)) i = Some (fx, sx)"
        using w(2) [unfolded links_ok_def, rule_format, of "Suc k" i] k i True nx by (simp add: x_def)
      then have "get_link s x i = Some (fx, sx)" using s(3) by (simp add: x_def)
      moreover have "f = Some x" "sp = int (k - ?r i) + 1" using fs True by simp_all
      ultimately show ?thesis using s1(1) u g nx uu wn by (simp add: unsplice_level_def algebra_simps)
    next
      case False
      then have "(f, sp) = apsnd (\<lambda>s. s + int (k - ?r i)) (apsnd (\<lambda>s. s + 1) (next_at (height h) i (drop (Suc k) xs)))"
        using fs by simp
      then have "f = fst (next_at (height h) i (drop (Suc k) xs))" "(f, sp - 1) = ?new i"
        by (simp_all add: apsnd_def map_prod_def split: prod.splits)
      moreover have "f \<noteq> Some x" using next_at_mem xn calculation(1) by metis
      moreover have "c_uint (sp - 1) = sp - 1" using wn calculation(2) by (metis snd_conv)
      ultimately show ?thesis using s1(1) u g uu by (simp add: unsplice_level_def)
    qed
    then show "\<exists>s'. unsplice_level ups x i s = Some s' \<and> skel s' = skel h \<and> backs s' = backs h \<and>
        (\<forall>c j. get_link s' c j = (if j = i then (if c = ?u i then Some (?new i) else get_link h c i) else get_link s c j))"
      using s s1 by (intro exI [of _ s1]) auto
  qed simp
  then show ?thesis by (auto simp only: le0 simp_thms if_splits)
qed

lemma at_delete:
  assumes "k < length xs" and "p < length xs"
  shows "at hdr (take k xs @ drop (Suc k) xs) p = (if p \<le> k then at hdr xs p else at hdr xs (Suc p))"
    and "drop p (take k xs @ drop (Suc k) xs) =
      (if p \<le> k then take (k - p) (drop p xs) @ drop (Suc k) xs else drop (Suc p) xs)"
  using assms by (auto simp: nth_append nth_Cons' min_def take_drop)

lemma delete_links:
  assumes wf: "zsl_wf h zsl xs" and k: "k < length xs"
  defines "hdr \<equiv> zsl_header zsl"
  assumes H: "\<And>a. a \<noteq> xs ! k \<Longrightarrow> height h2 a = height h a"
    and lk: "\<And>c i. c \<noteq> xs ! k \<Longrightarrow> get_link h2 c i = (if i < zsl_level zsl \<and> c = fst (ups_of h hdr xs k i)
       then Some (apsnd (\<lambda>s. s + int (k - stop_at (hts h hdr xs) i k)) (next_at (height h) i (drop (Suc k) xs)))
       else get_link h c i)"
  shows "links_ok h2 hdr (zsl_level zsl) (take k xs @ drop (Suc k) xs)"
  unfolding links_ok_def
proof (intro allI impI)
  fix p i
  let ?xs' = "take k xs @ drop (Suc k) xs" and ?r = "stop_at (hts h hdr xs) i k"
  assume p: "p \<le> length ?xs'" and i: "i < zsl_level zsl" and hi: "i < height h2 (at hdr ?xs' p)"
  note w = zsl_wfD [OF wf, folded hdr_def] and nk = nodes_okD [OF zsl_wfD(1) [OF wf], folded hdr_def]
  have k': "k \<le> length xs" using k by simp
  have rk: "?r \<le> k" by (rule stop_at_le)
  have p': "p < length xs" using p k by simp
  note at' = at_delete(1) [OF k p', of hdr] at_delete(2) [OF k p']
  have old: "get_link h (at hdr xs q) i = Some (next_at (height h) i (drop q xs))"
    if "q \<le> length xs" "i < height h (at hdr xs q)" for q using w(2) that i by (simp add: links_ok_def)
  have u: "fst (ups_of h hdr xs k i) = at hdr xs ?r" by (simp add: ups_of_def)
  have ueq: "at hdr xs q = at hdr xs ?r \<longleftrightarrow> q = ?r" if "q \<le> length xs" for q
    using at_inj [OF nk(1) that, of ?r] rk k by simp
  have xk: "xs ! k = at hdr xs (Suc k)" by simp
  have neq: "at hdr xs q \<noteq> xs ! k" if "q \<le> length xs" "q \<noteq> Suc k" for q
    unfolding xk using at_inj [OF nk(1) that(1), of "Suc k"] that(2) k by simp
  have nx: "next_at (height h2) i ys = next_at (height h) i ys" if "xs ! k \<notin> set ys" for ys
    using that H by (intro next_at_cong) metis
  have dk: "drop k xs = xs ! k # drop (Suc k) xs" using k by (simp add: Cons_nth_drop_Suc)
  have xd: "xs ! k \<notin> set (drop q xs)" if "k < q" for q
    using nk(1) that k by (auto simp: in_set_conv_nth nth_eq_iff_index_eq)
  have xt: "xs ! k \<notin> set (take (k - q) (drop q xs))" for q
    using nk(1) k by (auto simp: in_set_conv_nth nth_eq_iff_index_eq)
  show "get_link h2 (at hdr ?xs' p) i = Some (next_at (height h2) i (drop p ?xs'))"
  proof (cases "p \<le> k")
    case True
    let ?ys = "take (k - p) (drop p xs)"
    have ap: "at hdr ?xs' p = at hdr xs p" and dp: "drop p ?xs' = ?ys @ drop (Suc k) xs" unfolding at' using True by simp_all
    have np: "at hdr xs p \<noteq> xs ! k" using neq [of p] True k by simp
    have hp: "i < hts h hdr xs p" using hi H [OF np] by (simp add: ap hts_def)
    have high: "(\<exists>y \<in> set ?ys. i < height h y) \<longleftrightarrow> p \<noteq> ?r"
      by (rule level_before_stop) (use True k hp nk(2) i w(5) in simp_all)
    have Hy: "height h2 y = height h y" if "y \<in> set ?ys" for y using H xt [of p] that by metis
    show ?thesis
    proof (cases "p = ?r")
      case eq: True
      have l: "length ?ys = k - ?r" using eq True k by simp
      have "\<not> (\<exists>y \<in> set ?ys. i < height h2 y)" using high eq Hy by simp
      then have n2: "next_at (height h2) i (drop p ?xs') = apsnd (\<lambda>s. s + int (k - ?r)) (next_at (height h2) i (drop (Suc k) xs))"
        unfolding dp next_at_append l by simp
      show ?thesis
        unfolding n2 ap using i u eq np nx [OF xd [of "Suc k"]] lk [OF np, of i] by simp
    next
      case False
      have d: "drop p xs = ?ys @ drop k xs"
        using True by (metis append_take_drop_id drop_drop le_add_diff_inverse2)
      have "\<exists>y \<in> set ?ys. i < height h y" using high False by simp
      moreover then have "\<exists>y \<in> set ?ys. i < height h2 y" using Hy by auto
      ultimately have "next_at (height h2) i (drop p ?xs') = next_at (height h) i (drop p xs)"
        unfolding dp by (subst d) (simp only: next_at_append if_True nx [OF xt])
      then show ?thesis
        unfolding ap using False u ueq [of p] old [of p] p' hp lk [OF np, of i] by (simp add: hts_def)
    qed
  next
    case False
    then have ap: "at hdr ?xs' p = at hdr xs (Suc p)" and dp: "drop p ?xs' = drop (Suc p) xs" unfolding at' by simp_all
    have q: "Suc p \<le> length xs" "Suc p \<noteq> ?r" using p' rk False by auto
    have np: "at hdr xs (Suc p) \<noteq> xs ! k" using neq [OF q(1)] False by simp
    have "i < height h (at hdr xs (Suc p))" using hi H [OF np] by (simp only: ap)
    then show ?thesis
      unfolding ap dp using u ueq [OF q(1)] q(2) old [OF q(1)] nx [OF xd [of "Suc p"]] False lk [OF np, of i] by simp
  qed
qed

section \<open>Deletion of a node\<close>

lemma shrink_level_spec:
  assumes "1 \<le> L" and "\<And>i. i < L \<Longrightarrow> get_link h hdr i \<noteq> None"
  shows "\<exists>l. shrink_level h hdr L = Some l \<and> 1 \<le> l \<and> l \<le> L \<and>
    (\<forall>i. l \<le> i \<longrightarrow> i < L \<longrightarrow> map_option fst (get_link h hdr i) = Some None)"
  using assms
proof (induction h hdr L rule: shrink_level.induct)
  case (3 h hdr l)
  obtain f sp where g: "get_link h hdr (Suc l) = Some (f, sp)" using "3.prems"(2) [of "Suc l"] by auto
  show ?case
  proof (cases f)
    case None
    obtain m where m: "shrink_level h hdr (Suc l) = Some m" "1 \<le> m" "m \<le> Suc l"
      "\<And>i. m \<le> i \<Longrightarrow> i < Suc l \<Longrightarrow> map_option fst (get_link h hdr i) = Some None"
      using "3.IH" [OF g refl None] "3.prems"(2) by auto
    then have "map_option fst (get_link h hdr i) = Some None" if "m \<le> i" "i < Suc (Suc l)" for i
      using that g None by (cases "i = Suc l") auto
    then show ?thesis using m g None by auto
  qed (use g in auto)
qed auto

lemma unlink_back_spec:
  assumes nok: "nodes_ok h hdr L xs" and b: "back_ok h xs" and k: "k < length xs"
    and skel: "skel h1 = skel h" and backs: "backs h1 = backs h"
    and lx: "get_link h1 (xs ! k) 0 = Some (next_at (height h) 0 (drop (Suc k) xs))"
    and tail: "zsl_tail zsl = (if xs = [] then None else Some (last xs))"
  defines "xs' \<equiv> take k xs @ drop (Suc k) xs"
  shows "\<exists>h2. unlink_back (xs ! k) h1 zsl = Some (h2, zsl\<lparr>zsl_tail := (if xs' = [] then None else Some (last xs'))\<rparr>) \<and>
    skel h2 = skel h \<and> get_link h2 = get_link h1 \<and> (\<forall>p < length xs'. backs h2 (xs' ! p) = Some (if p = 0 then None else Some (xs' ! (p - 1))))"
proof -
  note nk = nodes_okD [OF nok]
  have d: "xs ! p = xs ! q \<longleftrightarrow> p = q" if "p < length xs" "q < length xs" for p q
    using nk(1) that by (simp add: nth_eq_iff_index_eq)
  have ex: "h1 (xs ! p) \<noteq> None" if "p < length xs" for p
  proof -
    have "skel h (xs ! p) \<noteq> None" using nk(5) [of "xs ! p"] that by (auto simp: skel_def)
    then show ?thesis by (simp add: skel [symmetric]) (simp add: skel_def)
  qed
  obtain n where n: "h1 (xs ! k) = Some n" using ex [OF k] by blast
  have old: "backs h1 (xs ! p) = Some (if p = 0 then None else Some (xs ! (p - 1)))" if "p < length xs" for p
    using b that by (simp add: back_ok_backs backs)
  have bn: "zn_backward n = (if k = 0 then None else Some (xs ! (k - 1)))"
    using old [OF k] n by (simp add: backs_def)
  have nx: "array_get (zn_level n) 0 = Some (if Suc k < length xs then (Some (xs ! Suc k), 1) else (None, 0))"
    using lx n next_at_0 [OF nok, of "Suc k"] by (simp add: get_link_def)
  have len: "length xs' = length xs - 1" using k by (simp add: xs'_def)
  have nth': "xs' ! p = (if p < k then xs ! p else xs ! Suc p)" if "p < length xs - 1" for p
    using that k by (auto simp: xs'_def nth_append min_def)
  show ?thesis
  proof (cases "Suc k < length xs")
    case False
    then have "k = length xs - 1" using k by simp
    then have xk: "k = length xs'" using len by simp
    have "zn_backward n = (if xs' = [] then None else Some (last xs'))"
    proof (cases "k = 0")
      case False
      then have ne: "xs' \<noteq> []" and kl: "k - 1 < length xs - 1" using xk len by auto
      moreover have "last xs' = xs' ! (k - 1)" unfolding xk by (rule last_conv_nth [OF ne])
      ultimately show ?thesis using bn False nth' [of "k - 1"] by simp
    qed (use bn xk in simp)
    moreover have "\<forall>p < length xs'. backs h1 (xs' ! p) = Some (if p = 0 then None else Some (xs' ! (p - 1)))"
      using old xk len by (auto simp: nth')
    ultimately show ?thesis
      using False n nx skel by (intro exI [of _ h1]) (simp add: unlink_back_def)
  next
    case True
    obtain h2 where h2: "set_backward (xs ! Suc k) (zn_backward n) h1 = Some h2" "skel h2 = skel h1"
      "backs h2 = (backs h1)(xs ! Suc k := Some (zn_backward n))" "get_link h2 = get_link h1"
      using set_backward_spec [of h1 "xs ! Suc k"] ex [OF True] by blast
    have "drop (Suc k) xs \<noteq> []" using True by simp
    then have "xs' \<noteq> []" "last xs' = last xs" unfolding xs'_def by simp_all
    then have "zsl_tail zsl = (if xs' = [] then None else Some (last xs'))" using tail True by auto
    then have "zsl\<lparr>zsl_tail := (if xs' = [] then None else Some (last xs'))\<rparr> = zsl" by (cases zsl) simp
    then have "unlink_back (xs ! k) h1 zsl = Some (h2, zsl\<lparr>zsl_tail := (if xs' = [] then None else Some (last xs'))\<rparr>)"
      using n nx True h2(1) by (simp add: unlink_back_def)
    moreover have "backs h2 (xs' ! p) = Some (if p = 0 then None else Some (xs' ! (p - 1)))" if p: "p < length xs'" for p
    proof -
      have p': "p < length xs - 1" "p < length xs" "Suc p < length xs" using p len by auto
      consider "p < k" | "p = k" | "k < p" by linarith
      then show ?thesis
      proof cases
        case 1
        then show ?thesis using p' d [of p "Suc k"] True old [of p] by (auto simp: nth' h2(3))
      next
        case 2
        then show ?thesis using p' bn by (auto simp: nth' h2(3))
      next
        case 3
        have e: "Suc (p - 1) = p" "\<not> p - Suc 0 < k" using 3 by auto
        show ?thesis using 3 p' d [of "Suc p" "Suc k"] old [of "Suc p"] e by (simp add: nth' h2(3))
      qed
    qed
    ultimately show ?thesis using h2 skel by (intro exI [of _ h2]) simp
  qed
qed

lemma zslDeleteNode_wf:
  assumes wf: "zsl_wf h zsl xs" and k: "k < length xs"
    and ups: "\<And>i. i < zsl_level zsl \<Longrightarrow> array_get ups i = Some (ups_of h (zsl_header zsl) xs k i)"
  defines "xs' \<equiv> take k xs @ drop (Suc k) xs"
  shows "\<exists>h' zsl'. zslDeleteNode h zsl (xs ! k) ups = Some (h', zsl') \<and> zsl_wf (zslFreeNode (xs ! k) h') zsl' xs' \<and>
    (\<forall>a. a \<noteq> xs ! k \<longrightarrow> skel (zslFreeNode (xs ! k) h') a = skel h a) \<and> zsl_header zsl' = zsl_header zsl \<and>
    zsl_level zsl' \<le> zsl_level zsl"
proof -
  let ?hdr = "zsl_header zsl" and ?x = "xs ! k" and ?L = "zsl_level zsl"
  note w = zsl_wfD [OF wf] and nk = nodes_okD [OF zsl_wfD(1) [OF wf]]
  obtain h1 where h1: "foldM (unsplice_level ups ?x) [0..<?L] h = Some h1" "skel h1 = skel h" "backs h1 = backs h"
    and lk1: "\<And>c i. get_link h1 c i = (if i < ?L \<and> c = fst (ups_of h ?hdr xs k i)
       then Some (apsnd (\<lambda>s. s + int (k - stop_at (hts h ?hdr xs) i k)) (next_at (height h) i (drop (Suc k) xs)))
       else get_link h c i)"
    using unsplice_links [OF wf k ups] by blast
  have k': "k \<le> length xs" using k by simp
  have u0: "fst (ups_of h ?hdr xs k 0) = at ?hdr xs k" using stop_at_0 [OF w(1) k'] by (simp add: ups_of_def)
  have nk0: "at ?hdr xs (Suc k) \<noteq> at ?hdr xs k" using at_inj [OF nk(1), of "Suc k" k] k by simp
  have "get_link h (at ?hdr xs (Suc k)) 0 = Some (if Suc k < length xs then (Some (xs ! Suc k), 1) else (None, 0))"
    using link_0 [OF wf, of "Suc k"] k by simp
  then have lx: "get_link h1 ?x 0 = Some (next_at (height h) 0 (drop (Suc k) xs))"
    using lk1 [of ?x 0] u0 nk0 next_at_0 [OF w(1), of "Suc k"] by simp
  obtain h2 where h2: "unlink_back ?x h1 zsl = Some (h2, zsl\<lparr>zsl_tail := (if xs' = [] then None else Some (last xs'))\<rparr>)"
    "skel h2 = skel h" "get_link h2 = get_link h1"
    "\<And>p. p < length xs' \<Longrightarrow> backs h2 (xs' ! p) = Some (if p = 0 then None else Some (xs' ! (p - 1)))"
    using unlink_back_spec [OF w(1,3) k h1(2,3) lx w(7)] unfolding xs'_def by blast
  have "get_link h2 ?hdr i \<noteq> None" if "i < ?L" for i
    using get_link_height [of h2 ?hdr i] skel_height [OF h2(2)] nk(2) w(5) that by (cases "get_link h2 ?hdr i") auto
  then obtain l where l: "shrink_level h2 ?hdr ?L = Some l" "1 \<le> l" "l \<le> ?L"
    "\<And>i. l \<le> i \<Longrightarrow> i < ?L \<Longrightarrow> map_option fst (get_link h2 ?hdr i) = Some None"
    using shrink_level_spec [OF w(4)] by blast
  define zsl' where "zsl' = zsl\<lparr>zsl_tail := (if xs' = [] then None else Some (last xs')), zsl_level := l,
    zsl_length := c_ulong (zsl_length zsl - 1)\<rparr>"
  define h' where "h' = zslFreeNode ?x h2"
  have del: "zslDeleteNode h zsl ?x ups = Some (h2, zsl')"
    unfolding zslDeleteNode_def using h1(1) h2(1) l(1) by (simp add: zsl'_def)
  have sk: "skel h' a = skel h a" if "a \<noteq> ?x" for a
    using that fun_cong [OF h2(2), of a] by (simp add: h'_def zslFreeNode_def skel_def)
  have lk: "get_link h' a i = get_link h2 a i" if "a \<noteq> ?x" for a i using that by (simp add: h'_def zslFreeNode_def get_link_def)
  have bk: "backs h' a = backs h2 a" if "a \<noteq> ?x" for a using that by (simp add: h'_def zslFreeNode_def backs_def)
  have H: "height h' a = height h a" if "a \<noteq> ?x" for a using sk [OF that] by (simp add: height_skel)
  have x': "set xs' \<subseteq> set xs" "distinct (?hdr # xs')" "?x \<notin> set (?hdr # xs')"
  proof -
    have xs: "xs = take k xs @ ?x # drop (Suc k) xs" using k by (simp add: id_take_nth_drop)
    have "distinct (?hdr # take k xs @ ?x # drop (Suc k) xs)" using nk(1) xs by simp
    then show "distinct (?hdr # xs')" "?x \<notin> set (?hdr # xs')" by (auto simp: xs'_def)
    show "set xs' \<subseteq> set xs" by (auto simp: xs'_def dest: in_set_takeD in_set_dropD)
  qed
  have links: "links_ok h' ?hdr ?L xs'"
    unfolding xs'_def by (rule delete_links [OF wf k]) (simp_all add: H lk h2(3) lk1)
  have hn: "?hdr \<noteq> ?x" using x'(3) by simp
  have high: "map_option fst (get_link h' ?hdr i) = Some None" if "l \<le> i" "i < ZSKIPLIST_MAXLEVEL" for i
  proof (cases "i < ?L")
    case True
    then show ?thesis using l(4) [of i] that lk [OF hn] by simp
  next
    case False
    then show ?thesis using w(8) [of i] that lk [OF hn] h2(3) by (simp add: lk1)
  qed
  have le: "height h' a \<le> l" if a: "a \<in> set xs'" for a
  proof (cases "l < ?L")
    case False
    then have "l = ?L" using l(3) by simp
    moreover have "a \<noteq> ?x" using x'(3) a by auto
    ultimately show ?thesis using nk(4) [of a] x'(1) a by (auto simp: H)
  next
    case True
    have "get_link h' ?hdr l = Some (next_at (height h') l xs')"
      using links [unfolded links_ok_def, rule_format, of 0 l] True w(5) nk(2) H [OF hn] by simp
    then have "fst (next_at (height h') l xs') = None" using high [of l] True w(5) by simp
    then show ?thesis using a next_at_none by blast
  qed
  have "\<exists>b s m. skel h' a = Some (Some b, s, m) \<and> 1 \<le> m \<and> m \<le> l" if a: "a \<in> set xs'" for a
  proof -
    obtain b s m where m: "skel h a = Some (Some b, s, m)" "1 \<le> m" using w(1) a x'(1) unfolding nodes_ok_def by blast
    have "a \<noteq> ?x" using x'(3) a by auto
    then have "skel h' a = Some (Some b, s, m)" using m(1) by (simp add: sk)
    moreover have "height h' a \<le> l" by (rule le [OF a])
    ultimately show ?thesis using m(2) by (simp add: height_skel)
  qed
  moreover have "\<exists>s. skel h' ?hdr = Some (None, s, ZSKIPLIST_MAXLEVEL)" using w(1) sk [OF hn] by (simp add: nodes_ok_def)
  ultimately have "nodes_ok h' ?hdr l xs'" using x'(2) by (simp add: nodes_ok_def)
  moreover have "back_ok h' xs'" unfolding back_ok_backs
  proof (intro allI impI)
    fix p assume p: "p < length xs'"
    then have "xs' ! p \<noteq> ?x" using x'(3) by (metis list.set_intros(2) nth_mem)
    then show "backs h' (xs' ! p) = Some (if p = 0 then None else Some (xs' ! (p - 1)))" using h2(4) [OF p] by (simp add: bk)
  qed
  moreover have "links_ok h' ?hdr l xs'" using links l(3) by (auto simp: links_ok_def)
  moreover have "0 < length xs" using k by (rule le_less_trans [OF le0])
  then have "c_ulong (int (length xs) - 1) = int (length xs) - 1" using w(9) by (intro c_ulong_id) simp_all
  then have "c_ulong (zsl_length zsl - 1) = int (length xs')" "length xs' < 2 ^ 32" using w(6,9) k by (simp_all add: xs'_def)
  ultimately have "zsl_wf h' zsl' xs'"
    using high l w(5) by (auto simp: zsl_wf_def zsl'_def)
  then show ?thesis using del sk l(3) by (auto simp: h'_def zsl'_def)
qed

end
