(* ===== verification/Skiplist_Refine.thy ===== *)
theory Skiplist_Refine
  imports Skiplist_Delete
begin

text \<open>The operations of the skip list against a strictly sorted list of scores and objects.\<close>

section \<open>The specification\<close>

type_synonym ('s, 'o) zset = "('s \<times> 'o) list"

definition in_range :: "'s :: linorder zrange \<Rightarrow> 's \<times> 'o \<Rightarrow> bool" where
  "in_range rng e \<longleftrightarrow> zslValueGteMin (fst e) rng \<and> zslValueLteMax (fst e) rng"

datatype ('s, 'o) zop =
    ZInsert nat "nat list" 's 'o
  | ZDelete 's 'o
  | ZRank 's 'o
  | ZByRank int
  | ZFirst "'s zrange"
  | ZLast "'s zrange"
  | ZDelByScore "'s zrange"
  | ZDelByRank int int

datatype ('s, 'o) zanswer = Done | Found bool | Rank int | Element "('s \<times> 'o) option" | Removed "'o option list"

fun zset_step :: "('s :: linorder, 'o :: linorder) zset \<Rightarrow> ('s, 'o) zop \<Rightarrow> ('s, 'o) zset \<times> ('s, 'o) zanswer" where
  "zset_step zs (ZInsert x rs s b) = (takeWhile (\<lambda>e. e < (s, b)) zs @ (s, b) # dropWhile (\<lambda>e. e < (s, b)) zs, Done)"
| "zset_step zs (ZDelete s b) = (filter (\<lambda>e. e \<noteq> (s, b)) zs, Found ((s, b) \<in> set zs))"
| "zset_step zs (ZRank s b) =
    (zs, Rank (if (s, b) \<in> set zs then int (length (filter (\<lambda>e. e < (s, b)) zs)) + 1 else 0))"
| "zset_step zs (ZByRank r) = (zs, Element (if 1 \<le> r \<and> r \<le> int (length zs) then Some (zs ! (nat r - 1)) else None))"
| "zset_step zs (ZFirst rng) = (zs, Element (find (in_range rng) zs))"
| "zset_step zs (ZLast rng) = (zs, Element (find (in_range rng) (rev zs)))"
| "zset_step zs (ZDelByScore rng) =
    (filter (\<lambda>e. \<not> in_range rng e) zs, Removed (map (Some \<circ> snd) (filter (in_range rng) zs)))"
| "zset_step zs (ZDelByRank a b) =
    (take (nat (a - 1)) zs @ drop (max (nat (a - 1)) (nat b)) zs,
     Removed (map (Some \<circ> snd) (drop (nat (a - 1)) (take (nat b) zs))))"

text \<open>The same operations of the code; addresses are answered as the element they hold.\<close>

type_synonym ('s, 'o) zstate = "('s, 'o) zheap \<times> zskiplist"

definition answer_at :: "('s, 'o) zheap \<Rightarrow> nat option \<Rightarrow> ('s, 'o) zanswer" where
  "answer_at h x = Element (map_option (elem h) x)"

fun zsl_step :: "('s :: linorder, 'o :: linorder) zstate \<Rightarrow> ('s, 'o) zop \<Rightarrow> (('s, 'o) zstate \<times> ('s, 'o) zanswer) option" where
  "zsl_step (h, zsl) (ZInsert x rs s b) = map_option (\<lambda>st. (st, Done)) (zslInsert x rs h zsl s b)"
| "zsl_step (h, zsl) (ZDelete s b) = map_option (\<lambda>(f, st). (st, Found f)) (zslDelete h zsl s b)"
| "zsl_step (h, zsl) (ZRank s b) = map_option (\<lambda>r. ((h, zsl), Rank r)) (zslGetRank h zsl s b)"
| "zsl_step (h, zsl) (ZByRank r) = map_option (\<lambda>x. ((h, zsl), answer_at h x)) (zslGetElementByRank h zsl r)"
| "zsl_step (h, zsl) (ZFirst rng) = map_option (\<lambda>x. ((h, zsl), answer_at h x)) (zslFirstInRange h zsl rng)"
| "zsl_step (h, zsl) (ZLast rng) = map_option (\<lambda>x. ((h, zsl), answer_at h x)) (zslLastInRange h zsl rng)"
| "zsl_step (h, zsl) (ZDelByScore rng) = map_option (\<lambda>(rm, st). (st, Removed rm)) (zslDeleteRangeByScore h zsl rng)"
| "zsl_step (h, zsl) (ZDelByRank a b) = map_option (\<lambda>(rm, st). (st, Removed rm)) (zslDeleteRangeByRank h zsl a b)"

text \<open>What a caller guarantees: a new node is allocated at an unused address and the random numbers end the
  level loop, an element is not inserted twice, the list stays shorter than 2^32, a rank is asked for the
  score the object has, an element is fetched by a rank other than 0, and ranks are within their types.\<close>

fun admissible :: "('s, 'o) zheap \<Rightarrow> ('s, 'o) zset \<Rightarrow> ('s, 'o) zop \<Rightarrow> bool" where
  "admissible h zs (ZInsert x rs s b) \<longleftrightarrow> h x = None \<and> zslRandomLevel rs \<noteq> None \<and> (s, b) \<notin> set zs \<and>
     Suc (length zs) < 2 ^ 32"
| "admissible h zs (ZRank s b) \<longleftrightarrow> (\<forall>e \<in> set zs. snd e = b \<longrightarrow> fst e = s)"
| "admissible h zs (ZByRank r) \<longleftrightarrow> 0 < r \<and> r < 2 ^ 64"
| "admissible h zs (ZDelByRank a b) \<longleftrightarrow> 0 \<le> a \<and> a < 2 ^ 32 \<and> 0 \<le> b \<and> b < 2 ^ 32"
| "admissible h zs _ \<longleftrightarrow> True"

definition zrep :: "('s :: linorder, 'o :: linorder) zheap \<Rightarrow> zskiplist \<Rightarrow> ('s, 'o) zset \<Rightarrow> bool" where
  "zrep h zsl zs \<longleftrightarrow> (\<exists>xs. zsl_wf h zsl xs \<and> map (elem h) xs = zs \<and> sorted_wrt (<) zs)"

section \<open>Conditions on elements\<close>

lemma elem_node:
  assumes "zsl_wf h zsl xs" and "q < length xs"
  obtains n b where "h (xs ! q) = Some n" "zn_obj n = Some b" "elem h (xs ! q) = (zn_score n, b)"
proof -
  obtain n b where "h (xs ! q) = Some n" "zn_obj n = Some b"
    using nodes_okD(5) [OF zsl_wfD(1) [OF assms(1)] nth_mem [OF assms(2)]] by blast
  then show ?thesis using that by (simp add: elem_def)
qed

lemma takeWhile_prefix:
  assumes "\<And>p q. p \<le> q \<Longrightarrow> q < length zs \<Longrightarrow> Q (zs ! q) \<Longrightarrow> Q (zs ! p)" and "q < length zs"
  shows "Q (zs ! q) \<longleftrightarrow> q < length (takeWhile Q zs)"
proof
  assume "q < length (takeWhile Q zs)"
  then show "Q (zs ! q)" by (metis nth_mem set_takeWhileD takeWhile_nth)
next
  assume q: "Q (zs ! q)"
  show "q < length (takeWhile Q zs)"
  proof (rule ccontr)
    assume "\<not> q < length (takeWhile Q zs)"
    then have "length (takeWhile Q zs) \<le> q" by simp
    then have "Q (zs ! length (takeWhile Q zs))" using assms(1) [OF _ assms(2) q] by blast
    moreover have "length (takeWhile Q zs) < length zs" using \<open>\<not> q < length (takeWhile Q zs)\<close> assms(2) by simp
    ultimately show False using nth_length_takeWhile by blast
  qed
qed

lemma holds_upto_elem:
  assumes wf: "zsl_wf h zsl xs" and zs: "map (elem h) xs = zs"
    and P: "\<And>q n b. q < length xs \<Longrightarrow> zn_obj n = Some b \<Longrightarrow> P n (int q + 1) \<longleftrightarrow> Q (zn_score n, b)"
    and mono: "\<And>p q. p \<le> q \<Longrightarrow> q < length zs \<Longrightarrow> Q (zs ! q) \<Longrightarrow> Q (zs ! p)"
  shows "holds_upto h xs P (length (takeWhile Q zs))"
  unfolding holds_upto_def
proof (intro conjI allI impI)
  have len: "length zs = length xs" using zs by auto
  show "length (takeWhile Q zs) \<le> length xs" using length_takeWhile_le [of Q zs] len by simp
  fix q n
  assume q: "q < length xs" "h (xs ! q) = Some n"
  obtain m b where "h (xs ! q) = Some m" "zn_obj m = Some b" "elem h (xs ! q) = (zn_score m, b)" by (rule elem_node [OF wf q(1)])
  moreover have "zs ! q = elem h (xs ! q)" using zs q(1) by auto
  ultimately have "P n (int q + 1) \<longleftrightarrow> Q (zs ! q)" using P [OF q(1)] q(2) by simp
  moreover have "Q (zs ! q) \<longleftrightarrow> q < length (takeWhile Q zs)"
  proof (rule takeWhile_prefix)
    show "Q (zs ! p')" if "p' \<le> q'" "q' < length zs" "Q (zs ! q')" for p' q' by (rule mono [OF that])
  qed (use q(1) len in simp)
  ultimately show "P n (int q + 1) \<longleftrightarrow> q < length (takeWhile Q zs)" by simp
qed

lemma sorted_lessD: "sorted_wrt (<) zs \<Longrightarrow> p < q \<Longrightarrow> q < length zs \<Longrightarrow> zs ! p < (zs ! q :: 'a :: order)"
  by (simp add: sorted_wrt_iff_nth_less)

lemma sorted_leD: "sorted_wrt (<) zs \<Longrightarrow> p \<le> q \<Longrightarrow> q < length zs \<Longrightarrow> zs ! p \<le> (zs ! q :: 'a :: order)"
  using sorted_lessD [of zs p q] by (cases "p = q") auto

lemma fst_le: "e \<le> e' \<Longrightarrow> fst e \<le> fst (e' :: 's :: linorder \<times> 'o :: linorder)"
  by (cases e; cases e') auto

lemma before_upto:
  assumes wf: "zsl_wf h zsl xs" and zs: "map (elem h) xs = zs" and sorted: "sorted_wrt (<) zs"
  shows "holds_upto h xs (\<lambda>n r. node_before s b n) (length (takeWhile (\<lambda>e. e < (s, b)) zs))"
proof (rule holds_upto_elem [OF wf zs])
  show "zs ! p < (s, b)" if "p \<le> q" "q < length zs" "zs ! q < (s, b)" for p q
    using sorted_leD [OF sorted that(1,2)] that(3) by (rule le_less_trans)
qed (auto simp: node_before_def)

lemma before_split:
  fixes x :: "'a :: linorder"
  assumes "sorted_wrt (<) zs"
  defines "k \<equiv> length (takeWhile (\<lambda>e. e < x) zs)"
  shows "takeWhile (\<lambda>e. e < x) zs = take k zs" "dropWhile (\<lambda>e. e < x) zs = drop k zs"
    "x \<in> set zs \<longleftrightarrow> k < length zs \<and> zs ! k = x" "k \<le> length zs"
    "\<And>q. q < length zs \<Longrightarrow> zs ! q < x \<longleftrightarrow> q < k"
proof -
  show "takeWhile (\<lambda>e. e < x) zs = take k zs" unfolding k_def by (rule takeWhile_eq_take)
  show "dropWhile (\<lambda>e. e < x) zs = drop k zs" unfolding k_def by (rule dropWhile_eq_drop)
  show "k \<le> length zs" by (simp add: k_def length_takeWhile_le)
  show pre: "zs ! q < x \<longleftrightarrow> q < k" if "q < length zs" for q
    unfolding k_def
  proof (rule takeWhile_prefix)
    show "zs ! p' < x" if "p' \<le> q'" "q' < length zs" "zs ! q' < x" for p' q'
      using sorted_leD [OF assms(1) that(1,2)] that(3) by (rule le_less_trans)
  qed (rule that)
  show "x \<in> set zs \<longleftrightarrow> k < length zs \<and> zs ! k = x"
  proof
    assume "x \<in> set zs"
    then obtain j where j: "j < length zs" "zs ! j = x" by (auto simp: in_set_conv_nth)
    then have "\<not> j < k" using pre [OF j(1)] by simp
    moreover have "\<not> k < j" using sorted_lessD [OF assms(1), of k j] pre [of k] j by auto
    ultimately have "k = j" by linarith
    then show "k < length zs \<and> zs ! k = x" using j by simp
  qed (auto intro: nth_mem)
qed

lemma filter_at:
  assumes "distinct zs" and "k < length zs"
  shows "filter (\<lambda>e. e \<noteq> zs ! k) zs = take k zs @ drop (Suc k) zs"
proof -
  have zs: "zs = take k zs @ zs ! k # drop (Suc k) zs" by (rule id_take_nth_drop [OF assms(2)])
  have "distinct (take k zs @ zs ! k # drop (Suc k) zs)" using assms(1) zs by simp
  then have "zs ! k \<notin> set (take k zs)" "zs ! k \<notin> set (drop (Suc k) zs)" by auto
  then have "filter (\<lambda>e. e \<noteq> zs ! k) (take k zs) = take k zs"
    "filter (\<lambda>e. e \<noteq> zs ! k) (drop (Suc k) zs) = drop (Suc k) zs"
    by (intro filter_True; blast)+
  then have "filter (\<lambda>e. e \<noteq> zs ! k) (take k zs @ zs ! k # drop (Suc k) zs) = take k zs @ drop (Suc k) zs" by simp
  then show ?thesis using zs by simp
qed

lemma nth_notin_delete: "distinct xs \<Longrightarrow> k < length xs \<Longrightarrow> xs ! k \<notin> set (take k xs @ drop (Suc k) xs)"
  by (metis (mono_tags, lifting) filter_at filter_set mem_Collect_eq set_filter)

lemma strict_distinct: "sorted_wrt (<) zs \<Longrightarrow> distinct (zs :: 'a :: order list)"
  by (induction zs) auto

lemma map_elem_keep:
  assumes "\<And>a. a \<in> set xs \<Longrightarrow> skel h' a = skel h a"
  shows "map (elem h') xs = map (elem h) xs"
  using assms skel_elem by (intro map_cong) blast+

text \<open>Insertion.\<close>

lemma step_insert:
  assumes "zrep h zsl zs" and "admissible h zs (ZInsert x rs s b)"
  shows "\<exists>h' zsl'. zslInsert x rs h zsl s b = Some (h', zsl') \<and> zrep h' zsl' (fst (zset_step zs (ZInsert x rs s b)))"
proof -
  obtain xs where wf: "zsl_wf h zsl xs" and zs: "map (elem h) xs = zs" and sorted: "sorted_wrt (<) zs"
    using assms(1) unfolding zrep_def by blast
  define k where "k = length (takeWhile (\<lambda>e. e < (s, b)) zs)"
  note sp = before_split [OF sorted, where x = "(s, b)", folded k_def]
  obtain level where level: "zslRandomLevel rs = Some level" and x: "h x = None" and new: "(s, b) \<notin> set zs"
    and short: "Suc (length zs) < 2 ^ 32"
    using assms(2) by auto
  have short': "Suc (length xs) < 2 ^ 32" using short zs by auto
  obtain h' zsl' where i: "zslInsert x rs h zsl s b = Some (h', zsl')" "zsl_wf h' zsl' (take k xs @ x # drop k xs)"
    and sk: "\<And>a. a \<noteq> x \<Longrightarrow> skel h' a = skel h a" and ex: "elem h' x = (s, b)"
    using zslInsert_wf [OF wf before_upto [OF wf zs sorted, of s b, folded k_def] x level short'] by blast
  have "x \<notin> set xs" using nodes_okD(5) [OF zsl_wfD(1) [OF wf], of x] x by auto
  then have "map (elem h') xs = zs" using map_elem_keep [of xs h' h] sk zs by metis
  then have m: "map (elem h') (take k xs @ x # drop k xs) = take k zs @ (s, b) # drop k zs"
    using ex by (simp add: take_map [symmetric] drop_map [symmetric])
  have "sorted_wrt (<) (take k zs @ (s, b) # drop k zs)"
  proof -
    have lt: "e < (s, b)" if "e \<in> set (take k zs)" for e
      using that sp(4,5) by (auto simp: in_set_conv_nth)
    have gt: "(s, b) < e" if e: "e \<in> set (drop k zs)" for e
    proof -
      obtain q where q: "q < length zs - k" "e = zs ! (k + q)" using e sp(4) by (auto simp: in_set_conv_nth)
      then have "\<not> e < (s, b)" using sp(5) [of "k + q"] by simp
      moreover have "e \<noteq> (s, b)" using new e by (auto dest: in_set_dropD)
      ultimately show ?thesis by (simp add: not_less_iff_gr_or_eq)
    qed
    have "sorted_wrt (<) (take k zs @ drop k zs)" using sorted by simp
    then show ?thesis unfolding sorted_wrt_append using lt gt less_trans by auto
  qed
  then have "zrep h' zsl' (take k zs @ (s, b) # drop k zs)" using i(2) m unfolding zrep_def by blast
  then show ?thesis using i(1) sp(1,2) by simp
qed

text \<open>Deletion of one element.\<close>

lemma ups_map: "i < L \<Longrightarrow> array_get (map f [0..<L]) i = Some (f i)"
  by simp

lemma sorted_delete: "sorted_wrt (<) zs \<Longrightarrow> sorted_wrt (<) (filter P zs)"
  by (rule sorted_wrt_filter)

lemma step_delete:
  assumes "zrep h zsl zs"
  shows "\<exists>h' zsl'. zslDelete h zsl s b = Some ((s, b) \<in> set zs, h', zsl') \<and> zrep h' zsl' (filter (\<lambda>e. e \<noteq> (s, b)) zs)"
proof -
  obtain xs where wf: "zsl_wf h zsl xs" and zs: "map (elem h) xs = zs" and sorted: "sorted_wrt (<) zs"
    using assms(1) unfolding zrep_def by blast
  have len: "length zs = length xs" using zs by auto
  define k where "k = length (takeWhile (\<lambda>e. e < (s, b)) zs)"
  note sp = before_split [OF sorted, where x = "(s, b)", folded k_def]
  let ?ups = "map (ups_of h (zsl_header zsl) xs k) [0..<zsl_level zsl]"
  have search: "zsl_search c_ulong h zsl (\<lambda>n r. node_before s b n) = Some ?ups"
    by (rule zsl_search_ups [OF wf before_upto [OF wf zs sorted, of s b, folded k_def]]) simp
  have nxt: "next_of_search h ?ups = Some (if k < length xs then Some (xs ! k) else None)"
    using zsl_wfD(4) [OF wf] sp(4) len by (intro next_of_search_ups [OF wf]) simp_all
  show ?thesis
  proof (cases "(s, b) \<in> set zs")
    case False
    then have "filter (\<lambda>e. e \<noteq> (s, b)) zs = zs" by (auto simp: filter_id_conv)
    moreover have "zslDelete h zsl s b = Some (False, h, zsl)"
    proof (cases "k < length xs")
      case True
      obtain n c where n: "h (xs ! k) = Some n" "zn_obj n = Some c" "elem h (xs ! k) = (zn_score n, c)" by (rule elem_node [OF wf True])
      then have "\<not> (s = zn_score n \<and> zn_obj n = Some b)" using False True zs sp(3) len by auto
      then show ?thesis unfolding zslDelete_def search using nxt True n by auto
    qed (unfold zslDelete_def search, use nxt in simp)
    ultimately show ?thesis using assms False by auto
  next
    case True
    then have k: "k < length xs" "zs ! k = (s, b)" using sp(3) len by auto
    obtain n c where n: "h (xs ! k) = Some n" "zn_obj n = Some c" "elem h (xs ! k) = (zn_score n, c)" by (rule elem_node [OF wf k(1)])
    then have e: "s = zn_score n \<and> zn_obj n = Some b" using k zs by auto
    obtain h' zsl' where d: "zslDeleteNode h zsl (xs ! k) ?ups = Some (h', zsl')"
      "zsl_wf (zslFreeNode (xs ! k) h') zsl' (take k xs @ drop (Suc k) xs)"
      and sk: "\<And>a. a \<noteq> xs ! k \<Longrightarrow> skel (zslFreeNode (xs ! k) h') a = skel h a"
      using zslDeleteNode_wf [OF wf k(1) ups_map] by blast
    let ?xs' = "take k xs @ drop (Suc k) xs"
    have "xs ! k \<notin> set ?xs'"
      using nth_notin_delete [OF _ k(1)] nodes_okD(1) [OF zsl_wfD(1) [OF wf]] by simp
    then have "map (elem (zslFreeNode (xs ! k) h')) ?xs' = map (elem h) ?xs'" using map_elem_keep sk by metis
    also have "\<dots> = take k zs @ drop (Suc k) zs" using zs by (auto simp: take_map drop_map)
    also have "\<dots> = filter (\<lambda>e. e \<noteq> (s, b)) zs" using filter_at [OF strict_distinct [OF sorted], of k] k len by simp
    finally have "zrep (zslFreeNode (xs ! k) h') zsl' (filter (\<lambda>e. e \<noteq> (s, b)) zs)"
      using d(2) sorted_delete [OF sorted] unfolding zrep_def by blast
    moreover have "zslDelete h zsl s b = Some (True, zslFreeNode (xs ! k) h', zsl')"
      unfolding zslDelete_def search using nxt k(1) n e d(1) by simp
    ultimately show ?thesis using True by auto
  qed
qed

text \<open>Deletion of a stretch.\<close>

lemma ups_of_cong:
  assumes "\<And>p. p \<le> k \<Longrightarrow> at hdr xs' p = at hdr xs p" and "\<And>p. p \<le> k \<Longrightarrow> height h' (at hdr xs p) = height h (at hdr xs p)"
  shows "ups_of h' hdr xs' k i = ups_of h hdr xs k i"
proof -
  have "stop_at (hts h' hdr xs') i k = stop_at (hts h hdr xs) i k"
    using assms by (intro stop_at_cong) (simp only: hts_def)
  then show ?thesis using assms(1) stop_at_le by (simp add: ups_of_def)
qed

lemma delete_while_spec:
  assumes "zsl_wf h zsl xs" and "k \<le> length xs" and "m \<le> length xs - k"
    and "\<And>i. i < zsl_level zsl \<Longrightarrow> array_get ups i = Some (ups_of h (zsl_header zsl) xs k i)"
    and "\<And>j. j < length xs - k \<Longrightarrow> j \<le> m \<Longrightarrow> Q (fst (elem h (xs ! (k + j)))) (r + int j) \<longleftrightarrow> j < m"
    and "0 \<le> r" and "r + int m < 2 ^ 64"
  shows "\<exists>h' zsl'. delete_while (\<lambda>n. Q (zn_score n)) ups (if k < length xs then Some (xs ! k) else None) r rm h zsl =
      Some (rm @ map (\<lambda>a. Some (snd (elem h a))) (take m (drop k xs)), h', zsl') \<and>
    zsl_wf h' zsl' (take k xs @ drop (k + m) xs) \<and> (\<forall>a. a \<notin> set (take m (drop k xs)) \<longrightarrow> skel h' a = skel h a)"
  using assms
proof (induction m arbitrary: h zsl xs r rm)
  case 0
  show ?case
  proof (cases "k < length xs")
    case True
    obtain n b where n: "h (xs ! k) = Some n" "elem h (xs ! k) = (zn_score n, b)" by (rule elem_node [OF "0.prems"(1) True])
    have "\<not> Q (zn_score n) r" using "0.prems"(5) [of 0] True n by simp
    then show ?thesis using n True "0.prems"(1) by (subst delete_while.simps) simp
  qed (use "0.prems"(1) in \<open>subst delete_while.simps, simp\<close>)
next
  case (Suc m)
  note wf = Suc.prems(1) and w = zsl_wfD [OF Suc.prems(1)]
  let ?hdr = "zsl_header zsl" and ?xs' = "take k xs @ drop (Suc k) xs"
  have k: "k < length xs" using Suc.prems(3) by simp
  obtain n b where n: "h (xs ! k) = Some n" "zn_obj n = Some b" "elem h (xs ! k) = (zn_score n, b)" by (rule elem_node [OF wf k])
  have P: "Q (zn_score n) r" using Suc.prems(5) [of 0] k n by simp
  obtain h1 zsl1 where d: "zslDeleteNode h zsl (xs ! k) ups = Some (h1, zsl1)"
    and wf1: "zsl_wf (zslFreeNode (xs ! k) h1) zsl1 ?xs'"
    and sk1: "\<And>a. a \<noteq> xs ! k \<Longrightarrow> skel (zslFreeNode (xs ! k) h1) a = skel h a"
    and z1: "zsl_header zsl1 = ?hdr" "zsl_level zsl1 \<le> zsl_level zsl"
    using zslDeleteNode_wf [OF wf k Suc.prems(4)] by blast
  let ?h1 = "zslFreeNode (xs ! k) h1"
  have dist: "distinct (?hdr # xs)" by (rule nodes_okD(1) [OF w(1)])
  have len: "length ?xs' = length xs - 1" using k by simp
  have at': "at ?hdr ?xs' p = at ?hdr xs p" if "p \<le> k" for p using at_delete(1) [OF k, of p] that k by simp
  have hat: "at ?hdr xs p \<noteq> xs ! k" if "p \<le> k" for p
    using at_inj [OF dist, of p "Suc k"] that k by simp
  have ups1: "array_get ups i = Some (ups_of ?h1 (zsl_header zsl1) ?xs' k i)" if "i < zsl_level zsl1" for i
  proof -
    have "height ?h1 (at ?hdr xs p) = height h (at ?hdr xs p)" if "p \<le> k" for p
      using sk1 [OF hat [OF that]] by (simp only: height_skel)
    then have "ups_of ?h1 ?hdr ?xs' k i = ups_of h ?hdr xs k i" by (intro ups_of_cong at')
    then show ?thesis using Suc.prems(4) [of i] that z1 by simp
  qed
  have nth': "?xs' ! (k + j) = xs ! Suc (k + j)" if "j < length xs - 1 - k" for j
    using that k by (simp add: nth_append min_def)
  have el: "elem ?h1 a = elem h a" if "a \<noteq> xs ! k" for a using skel_elem [OF sk1 [OF that]] .
  have nQ: "Q (fst (elem ?h1 (?xs' ! (k + j)))) (r + 1 + int j) \<longleftrightarrow> j < m" if j: "j < length ?xs' - k" "j \<le> m" for j
  proof -
    have q: "Suc (k + j) < length xs" using j len by simp
    then have "xs ! Suc (k + j) \<noteq> xs ! k" using dist k by (simp add: nth_eq_iff_index_eq)
    then have "fst (elem ?h1 (?xs' ! (k + j))) = fst (elem h (xs ! (k + Suc j)))" using el nth' [of j] q by simp
    then show ?thesis using Suc.prems(5) [of "Suc j"] q j(2) by (simp add: ac_simps)
  qed
  have kl: "k \<le> length ?xs'" and ml: "m \<le> length ?xs' - k" using k Suc.prems(3) len by auto
  have r1: "c_ulong (r + 1) = r + 1" "0 \<le> r + 1" "r + 1 + int m < 2 ^ 64" using Suc.prems(6,7) by simp_all
  obtain h' zsl' where r: "delete_while (\<lambda>n. Q (zn_score n)) ups (if k < length ?xs' then Some (?xs' ! k) else None) (r + 1)
        (rm @ [zn_obj n]) ?h1 zsl1 =
      Some ((rm @ [zn_obj n]) @ map (\<lambda>a. Some (snd (elem ?h1 a))) (take m (drop k ?xs')), h', zsl')"
    and wf': "zsl_wf h' zsl' (take k ?xs' @ drop (k + m) ?xs')"
    and sk': "\<And>a. a \<notin> set (take m (drop k ?xs')) \<Longrightarrow> skel h' a = skel ?h1 a"
    using Suc.IH [OF wf1 kl ml ups1 nQ r1(2,3), of "rm @ [zn_obj n]"] by blast
  have dk: "drop k xs = xs ! k # drop (Suc k) xs" using k by (simp add: Cons_nth_drop_Suc)
  have dk': "drop k ?xs' = drop (Suc k) xs" "take k ?xs' = take k xs" "drop (k + m) ?xs' = drop (k + Suc m) xs"
    using k by (simp_all add: ac_simps)
  have link: "get_link h (xs ! k) 0 = Some (if Suc k < length xs then (Some (xs ! Suc k), 1) else (None, 0))"
    using link_0 [OF wf, of "Suc k"] k by simp
  then have l0: "array_get (zn_level n) 0 = Some (if Suc k < length xs then (Some (xs ! Suc k), 1) else (None, 0))"
    using n(1) by (simp add: get_link_def)
  have nx: "(if k < length ?xs' then Some (?xs' ! k) else None) = (if Suc k < length xs then Some (xs ! Suc k) else None)"
    using nth' [of 0] len k by auto
  have "delete_while (\<lambda>n. Q (zn_score n)) ups (if k < length xs then Some (xs ! k) else None) r rm h zsl =
      delete_while (\<lambda>n. Q (zn_score n)) ups (if Suc k < length xs then Some (xs ! Suc k) else None) (r + 1)
        (rm @ [zn_obj n]) ?h1 zsl1"
    using k n(1) P l0 d r1(1) by (subst delete_while.simps) simp
  then have res: "delete_while (\<lambda>n. Q (zn_score n)) ups (if k < length xs then Some (xs ! k) else None) r rm h zsl =
      Some ((rm @ [zn_obj n]) @ map (\<lambda>a. Some (snd (elem ?h1 a))) (take m (drop (Suc k) xs)), h', zsl')"
    using r unfolding nx dk' by simp
  have "xs ! k \<notin> set (drop (Suc k) xs)" using nth_notin_delete [OF _ k] dist by simp
  then have "map (\<lambda>a. Some (snd (elem ?h1 a))) (take m (drop (Suc k) xs)) = map (\<lambda>a. Some (snd (elem h a))) (take m (drop (Suc k) xs))"
    using el by (intro map_cong refl) (metis in_set_takeD)
  moreover have "skel h' a = skel h a" if "a \<notin> set (take (Suc m) (drop k xs))" for a
    using that sk' [of a] sk1 [of a] unfolding dk' dk by simp
  ultimately show ?case using res wf' n unfolding dk' by (simp add: dk)
qed

lemma step_stretch:
  assumes wf: "zsl_wf h zsl xs" and zs: "map (elem h) xs = zs" and sorted: "sorted_wrt (<) zs"
    and hu: "holds_upto h xs P k" and m: "m \<le> length zs - k"
    and Q: "\<And>j. j < length zs - k \<Longrightarrow> j \<le> m \<Longrightarrow> Q (fst (zs ! (k + j))) (r + int j) \<longleftrightarrow> j < m"
    and r: "0 \<le> r" "r + int m < 2 ^ 64"
  shows "\<exists>ups h' zsl'. zsl_search c_ulong h zsl P = Some ups \<and> array_get ups 0 = Some (at (zsl_header zsl) xs k, int k) \<and>
    next_of_search h ups = Some (if k < length xs then Some (xs ! k) else None) \<and>
    delete_while (\<lambda>n. Q (zn_score n)) ups (if k < length xs then Some (xs ! k) else None) r [] h zsl =
      Some (map (Some \<circ> snd) (take m (drop k zs)), h', zsl') \<and>
    zrep h' zsl' (take k zs @ drop (k + m) zs)"
proof -
  have len: "length zs = length xs" using zs by auto
  have k: "k \<le> length xs" using hu by (simp add: holds_upto_def)
  let ?ups = "map (ups_of h (zsl_header zsl) xs k) [0..<zsl_level zsl]"
  note w = zsl_wfD [OF wf]
  have zq: "elem h (xs ! q) = zs ! q" if "q < length xs" for q using zs that by auto
  have Q': "Q (fst (elem h (xs ! (k + j)))) (r + int j) \<longleftrightarrow> j < m" if "j < length xs - k" "j \<le> m" for j
    using Q [of j] that zq [of "k + j"] len by simp
  have ml: "m \<le> length xs - k" using m len by simp
  obtain h' zsl' where d: "delete_while (\<lambda>n. Q (zn_score n)) ?ups (if k < length xs then Some (xs ! k) else None) r [] h zsl =
      Some ([] @ map (\<lambda>a. Some (snd (elem h a))) (take m (drop k xs)), h', zsl')"
    "zsl_wf h' zsl' (take k xs @ drop (k + m) xs)"
    and sk: "\<And>a. a \<notin> set (take m (drop k xs)) \<Longrightarrow> skel h' a = skel h a"
    using delete_while_spec [OF wf k ml ups_map Q' r, where rm = "[]"] by blast
  have rm: "map (\<lambda>a. Some (snd (elem h a))) (take m (drop k xs)) = map (Some \<circ> snd) (take m (drop k zs))"
    using zs by (auto simp: take_map drop_map)
  have parts: "xs = take k xs @ take m (drop k xs) @ drop (k + m) xs"
    by (metis append_take_drop_id drop_drop add.commute)
  have "distinct xs" using nodes_okD(1) [OF w(1)] by simp
  then have "distinct (take k xs @ take m (drop k xs) @ drop (k + m) xs)" using parts by simp
  then have "a \<notin> set (take m (drop k xs))" if "a \<in> set (take k xs @ drop (k + m) xs)" for a using that by auto
  then have "map (elem h') (take k xs @ drop (k + m) xs) = map (elem h) (take k xs @ drop (k + m) xs)"
    using sk by (intro map_elem_keep) blast
  also have "\<dots> = take k zs @ drop (k + m) zs" using zs by (auto simp: take_map drop_map)
  finally have m1: "map (elem h') (take k xs @ drop (k + m) xs) = take k zs @ drop (k + m) zs" .
  have "zs = take k zs @ take m (drop k zs) @ drop (k + m) zs"
    by (metis append_take_drop_id drop_drop add.commute)
  then have "sorted_wrt (<) (take k zs @ take m (drop k zs) @ drop (k + m) zs)" using sorted by simp
  then have "sorted_wrt (<) (take k zs @ drop (k + m) zs)" by (simp add: sorted_wrt_append)
  then have "zrep h' zsl' (take k zs @ drop (k + m) zs)" using d(2) m1 unfolding zrep_def by blast
  moreover have "zsl_search c_ulong h zsl P = Some ?ups" by (rule zsl_search_ups [OF wf hu]) simp
  moreover have "next_of_search h ?ups = Some (if k < length xs then Some (xs ! k) else None)"
    using w(4) k by (intro next_of_search_ups [OF wf]) simp_all
  moreover have "array_get ?ups 0 = Some (at (zsl_header zsl) xs k, int k)"
    using w(4) stop_at_0 [OF w(1) k] by (simp add: ups_of_def)
  ultimately show ?thesis using d(1) rm by (intro exI [of _ ?ups] exI [of _ h'] exI [of _ zsl']) simp
qed

lemma gte_mono: "e \<le> e' \<Longrightarrow> zslValueGteMin (fst e) rng \<Longrightarrow> zslValueGteMin (fst (e' :: 's :: linorder \<times> 'o :: linorder)) rng"
  using fst_le [of e e'] by (auto simp: zslValueGteMin_def split: if_splits)

lemma lte_mono: "e \<le> e' \<Longrightarrow> zslValueLteMax (fst e') rng \<Longrightarrow> zslValueLteMax (fst (e :: 's :: linorder \<times> 'o :: linorder)) rng"
  using fst_le [of e e'] by (auto simp: zslValueLteMax_def split: if_splits)

text \<open>The elements in a range of scores are a stretch of the list.\<close>

lemma range_stretch:
  fixes zs :: "('s :: linorder \<times> 'o :: linorder) list" and rng :: "'s zrange"
  assumes "sorted_wrt (<) zs"
  defines "k \<equiv> length (takeWhile (\<lambda>e. \<not> zslValueGteMin (fst e) rng) zs)"
  defines "m \<equiv> length (takeWhile (\<lambda>e. zslValueLteMax (fst e) rng) (drop k zs))"
  shows "\<And>q. q < length zs \<Longrightarrow> zslValueGteMin (fst (zs ! q)) rng \<longleftrightarrow> k \<le> q" and "k \<le> length zs" and "m \<le> length zs - k"
    and "\<And>j. j < length zs - k \<Longrightarrow> zslValueLteMax (fst (zs ! (k + j))) rng \<longleftrightarrow> j < m"
    and "filter (in_range rng) zs = take m (drop k zs)"
    and "filter (\<lambda>e. \<not> in_range rng e) zs = take k zs @ drop (k + m) zs"
proof -
  have pre: "\<not> zslValueGteMin (fst (zs ! q)) rng \<longleftrightarrow> q < k" if "q < length zs" for q
    unfolding k_def
  proof (rule takeWhile_prefix)
    show "\<not> zslValueGteMin (fst (zs ! p')) rng" if "p' \<le> q'" "q' < length zs" "\<not> zslValueGteMin (fst (zs ! q')) rng" for p' q'
      using gte_mono [OF sorted_leD [OF assms(1) that(1,2)]] that(3) by blast
  qed (rule that)
  then show gte: "zslValueGteMin (fst (zs ! q)) rng \<longleftrightarrow> k \<le> q" if "q < length zs" for q using that by (metis not_le)
  show k: "k \<le> length zs" by (simp add: k_def length_takeWhile_le)
  show m: "m \<le> length zs - k" using length_takeWhile_le [of _ "drop k zs"] by (simp add: m_def)
  show lte: "zslValueLteMax (fst (zs ! (k + j))) rng \<longleftrightarrow> j < m" if j: "j < length zs - k" for j
  proof -
    have "zslValueLteMax (fst (drop k zs ! j)) rng \<longleftrightarrow> j < m"
      unfolding m_def
    proof (rule takeWhile_prefix)
      fix p' q' assume "p' \<le> q'" "q' < length (drop k zs)" "zslValueLteMax (fst (drop k zs ! q')) rng"
      then show "zslValueLteMax (fst (drop k zs ! p')) rng"
        using lte_mono [OF sorted_leD [OF assms(1), of "k + p'" "k + q'"]] k by simp
    qed (use j in simp)
    then show ?thesis using j k by simp
  qed
  have parts: "zs = take k zs @ take m (drop k zs) @ drop (k + m) zs"
    by (metis append_take_drop_id drop_drop add.commute)
  have A: "\<not> in_range rng e" if e: "e \<in> set (take k zs)" for e
  proof -
    obtain q where "q < k" "e = zs ! q" using e k by (auto simp: in_set_conv_nth)
    then show ?thesis using pre [of q] k by (simp add: in_range_def)
  qed
  have B: "in_range rng e" if e: "e \<in> set (take m (drop k zs))" for e
  proof -
    obtain q where "q < m" "e = zs ! (k + q)" using e k m by (auto simp: in_set_conv_nth)
    then show ?thesis using gte [of "k + q"] lte [of q] k m by (simp add: in_range_def)
  qed
  have C: "\<not> in_range rng e" if e: "e \<in> set (drop (k + m) zs)" for e
  proof -
    obtain q where q: "q < length zs - (k + m)" "e = zs ! (k + m + q)" using e by (auto simp: in_set_conv_nth)
    then have "\<not> zslValueLteMax (fst (zs ! (k + (m + q)))) rng" using lte [of "m + q"] by simp
    then show ?thesis using q(2) by (simp add: in_range_def add.assoc)
  qed
  show "filter (in_range rng) zs = take m (drop k zs)"
    by (subst parts) (simp add: filter_empty_conv filter_id_conv A B C)
  show "filter (\<lambda>e. \<not> in_range rng e) zs = take k zs @ drop (k + m) zs"
    by (subst parts) (simp add: filter_empty_conv filter_id_conv A B C)
qed

lemma min_holds:
  fixes zs :: "('s :: linorder \<times> 'o :: linorder) list"
  assumes wf: "zsl_wf h zsl xs" and zs: "map (elem h) xs = zs" and sorted: "sorted_wrt (<) zs"
  shows "holds_upto h xs (\<lambda>n r. \<not> zslValueGteMin (zn_score n) rng) (length (takeWhile (\<lambda>e. \<not> zslValueGteMin (fst e) rng) zs))"
proof (rule holds_upto_elem [OF wf zs])
  show "\<not> zslValueGteMin (fst (zs ! p)) rng" if "p \<le> q" "q < length zs" "\<not> zslValueGteMin (fst (zs ! q)) rng" for p q
    using gte_mono [OF sorted_leD [OF sorted that(1,2)]] that(3) by blast
qed simp

lemma step_del_score:
  assumes "zrep h zsl zs"
  shows "\<exists>h' zsl'. zslDeleteRangeByScore h zsl rng = Some (map (Some \<circ> snd) (filter (in_range rng) zs), h', zsl') \<and>
    zrep h' zsl' (filter (\<lambda>e. \<not> in_range rng e) zs)"
proof -
  obtain xs where wf: "zsl_wf h zsl xs" and zs: "map (elem h) xs = zs" and sorted: "sorted_wrt (<) zs"
    using assms(1) unfolding zrep_def by blast
  note rs = range_stretch [OF sorted, where rng = rng]
  have "length zs < 2 ^ 32" using zsl_wfD(9) [OF wf] zs by auto
  then have b: "0 + int m < 2 ^ 64" if "m \<le> length zs - k" for m k using that by simp
  have pred: "(\<lambda>n r. if zr_minex rng then zn_score n \<le> zr_min rng else zn_score n < zr_min rng) =
      (\<lambda>(n :: ('a, 'b) zskiplistNode) (r :: int). \<not> zslValueGteMin (zn_score n) rng)"
    by (auto simp: zslValueGteMin_def fun_eq_iff)
  have pred2: "(\<lambda>n r. if zr_maxex rng then zn_score n < zr_max rng else zn_score n \<le> zr_max rng) =
      (\<lambda>(n :: ('a, 'b) zskiplistNode). (\<lambda>s (r :: int). zslValueLteMax s rng) (zn_score n))"
    by (simp add: zslValueLteMax_def fun_eq_iff)
  show ?thesis
    using step_stretch [OF wf zs sorted min_holds [OF wf zs sorted, of rng] rs(3), where Q = "\<lambda>s r. zslValueLteMax s rng" and r = 0, OF rs(4) order_refl b [OF rs(3)]]
    unfolding zslDeleteRangeByScore_def pred pred2 rs(5,6) by auto
qed

lemma step_del_rank:
  assumes "zrep h zsl zs" and "0 \<le> a \<and> a < 2 ^ 32 \<and> 0 \<le> b \<and> b < 2 ^ 32"
  shows "\<exists>h' zsl'. zslDeleteRangeByRank h zsl a b =
      Some (map (Some \<circ> snd) (drop (nat (a - 1)) (take (nat b) zs)), h', zsl') \<and>
    zrep h' zsl' (take (nat (a - 1)) zs @ drop (max (nat (a - 1)) (nat b)) zs)"
proof -
  obtain xs where wf: "zsl_wf h zsl xs" and zs: "map (elem h) xs = zs" and sorted: "sorted_wrt (<) zs"
    using assms(1) unfolding zrep_def by blast
  have len: "length zs = length xs" using zs by auto
  define k where "k = min (nat (a - 1)) (length zs)"
  define m where "m = min (nat b) (length zs) - k"
  have hu: "holds_upto h xs (\<lambda>n r. r < a) k" using len by (auto simp: holds_upto_def k_def)
  have m: "m \<le> length zs - k" by (simp add: m_def)
  have Q: "(\<lambda>s r. r \<le> b) (fst (zs ! (k + j))) (int k + 1 + int j) \<longleftrightarrow> j < m" if "j < length zs - k" "j \<le> m" for j
    using that by (auto simp: m_def)
  have short: "length zs < 2 ^ 32" using zsl_wfD(9) [OF wf] len by simp
  have r0: "0 \<le> int k + 1" "int k + 1 + int m < 2 ^ 64" using short by (simp_all add: k_def m_def)
  have wa: "c_uint a = a" "c_uint b = b" "c_ulong (int k + 1) = int k + 1" using assms(2) short by (simp_all add: k_def)
  have "take m (drop k zs) = drop (nat (a - 1)) (take (nat b) zs)"
    by (cases "nat (a - 1) \<le> length zs") (auto simp: k_def m_def drop_take min_def)
  moreover have "take k zs @ drop (k + m) zs = take (nat (a - 1)) zs @ drop (max (nat (a - 1)) (nat b)) zs"
    by (auto simp: k_def m_def max_def min_def)
  ultimately show ?thesis
    using step_stretch [OF wf zs sorted hu m, where Q = "\<lambda>s r. r \<le> b" and r = "int k + 1", OF Q r0]
    unfolding zslDeleteRangeByRank_def wa(1,2) Let_def by (auto simp: wa(3))
qed

text \<open>Ranks.\<close>

lemma upto_holds:
  fixes zs :: "('s :: linorder \<times> 'o :: linorder) list"
  assumes wf: "zsl_wf h zsl xs" and zs: "map (elem h) xs = zs" and sorted: "sorted_wrt (<) zs"
  shows "holds_upto h xs (\<lambda>n r. node_upto s b n) (length (takeWhile (\<lambda>e. e \<le> (s, b)) zs))"
proof (rule holds_upto_elem [OF wf zs])
  show "zs ! p \<le> (s, b)" if "p \<le> q" "q < length zs" "zs ! q \<le> (s, b)" for p q
    using sorted_leD [OF sorted that(1,2)] that(3) by (rule order_trans)
qed (auto simp: node_upto_def)

lemma step_rank:
  assumes "zrep h zsl zs" and "admissible h zs (ZRank s b)"
  shows "zslGetRank h zsl s b = Some (if (s, b) \<in> set zs then int (length (filter (\<lambda>e. e < (s, b)) zs)) + 1 else 0)"
proof -
  obtain xs where wf: "zsl_wf h zsl xs" and zs: "map (elem h) xs = zs" and sorted: "sorted_wrt (<) zs"
    using assms(1) unfolding zrep_def by blast
  note w = zsl_wfD [OF wf]
  let ?hdr = "zsl_header zsl"
  have len: "length zs = length xs" using zs by auto
  define k where "k = length (takeWhile (\<lambda>e. e \<le> (s, b)) zs)"
  have hu: "holds_upto h xs (\<lambda>n r. node_upto s b n) k" unfolding k_def by (rule upto_holds [OF wf zs sorted])
  have pre: "zs ! q \<le> (s, b) \<longleftrightarrow> q < k" if "q < length zs" for q
    unfolding k_def
  proof (rule takeWhile_prefix)
    show "zs ! p' \<le> (s, b)" if "p' \<le> q'" "q' < length zs" "zs ! q' \<le> (s, b)" for p' q'
      using sorted_leD [OF sorted that(1,2)] that(3) by (rule order_trans)
  qed (rule that)
  have k: "k \<le> length xs" using hu by (simp add: holds_upto_def)
  have at_k: "zs ! q = (s, b) \<longleftrightarrow> Suc q = k \<and> (s, b) \<in> set zs" if q: "q < k" for q
  proof
    assume e: "zs ! q = (s, b)"
    have "\<not> Suc q < k"
    proof
      assume "Suc q < k"
      then have "zs ! Suc q \<le> (s, b)" "zs ! q < zs ! Suc q" using pre [of "Suc q"] sorted_lessD [OF sorted, of q "Suc q"] k len by auto
      then show False using e by simp
    qed
    then show "Suc q = k \<and> (s, b) \<in> set zs" using q e k len nth_mem [of q zs] by simp
  next
    assume a: "Suc q = k \<and> (s, b) \<in> set zs"
    then obtain j where j: "j < length zs" "zs ! j = (s, b)" by (auto simp: in_set_conv_nth)
    then have "j < k" using pre [OF j(1)] by simp
    moreover have "\<not> j < q" using sorted_lessD [OF sorted, of j q] pre [of q] q j k len by auto
    ultimately have "j = q" using a by linarith
    then show "zs ! q = (s, b)" using j by simp
  qed
  have found: "zn_obj n = Some b \<longleftrightarrow> 0 < p \<and> p = k \<and> (s, b) \<in> set zs" if n: "h (at ?hdr xs p) = Some n" and p: "p \<le> k" for n p
  proof (cases p)
    case 0
    then show ?thesis using n nodes_okD(6) [OF w(1)] by auto
  next
    case (Suc q)
    then have q: "q < length xs" "q < k" using p k by auto
    obtain m c where m: "h (xs ! q) = Some m" "zn_obj m = Some c" "elem h (xs ! q) = (zn_score m, c)" by (rule elem_node [OF wf q(1)])
    have zq: "zs ! q = (zn_score n, c)" "zn_obj n = Some c" using m n Suc zs q by auto
    have "zs ! q \<in> set zs" using q len by simp
    then have "c = b \<longleftrightarrow> zs ! q = (s, b)" using assms(2) zq(1) by auto
    then show ?thesis using at_k [OF q(2)] zq(2) Suc by auto
  qed
  have main: "getRank_levels h s b i (at ?hdr xs p) (int p) =
      Some (if i > 0 \<and> (s, b) \<in> set zs then int k else 0)" if "i \<le> zsl_level zsl" "p \<le> k" "i \<le> hts h ?hdr xs p" for i p
    using that
  proof (induction i arbitrary: p)
    case (Suc i)
    let ?q = "stop_at (hts h ?hdr xs) i k"
    have q: "?q \<le> k" by (rule stop_at_le)
    have s: "search_level c_ulong h (\<lambda>n _. node_upto s b n) i (at ?hdr xs p) (int p) = Some (at ?hdr xs ?q, int ?q)"
      by (rule search_level_stop [OF w(1,2) hu]) (use Suc.prems w(9) in simp_all)
    obtain n where n: "h (at ?hdr xs ?q) = Some n" using node_at [OF w(1), of ?q] q k by auto
    have h: "i < hts h ?hdr xs ?q"
      using stop_at_height [of i "hts h ?hdr xs"] nodes_okD(2) [OF w(1)] Suc.prems(1) w(5) by simp
    note f = found [OF n q]
    show ?case
    proof (cases "zn_obj n = Some b")
      case True
      then show ?thesis using f s n by simp
    next
      case False
      have "getRank_levels h s b i (at ?hdr xs ?q) (int ?q) = Some (if i > 0 \<and> (s, b) \<in> set zs then int k else 0)"
        using h q Suc.prems(1) by (intro Suc.IH) simp_all
      moreover have "i > 0 \<or> (s, b) \<notin> set zs"
      proof (rule ccontr)
        assume c: "\<not> (i > 0 \<or> (s, b) \<notin> set zs)"
        then obtain j where j: "j < length zs" "zs ! j = (s, b)" by (auto simp: in_set_conv_nth)
        then have "0 < k" using pre [OF j(1)] by simp
        then show False using False f c stop_at_0 [OF w(1) k] by simp
      qed
      ultimately show ?thesis using s n False by auto
    qed
  qed simp
  have "zslGetRank h zsl s b = Some (if (s, b) \<in> set zs then int k else 0)"
    using main [of "zsl_level zsl" 0] w(4,5) nodes_okD(2) [OF w(1)] by (simp add: zslGetRank_def)
  moreover have "int k = int (length (filter (\<lambda>e. e < (s, b)) zs)) + 1" if mem: "(s, b) \<in> set zs"
  proof -
    obtain j where j: "j < length zs" "zs ! j = (s, b)" using mem by (auto simp: in_set_conv_nth)
    have "Suc j = k" using at_k [of j] pre [OF j(1)] j by simp
    moreover have "filter (\<lambda>e. e < (s, b)) zs = take j zs"
    proof -
      have lt: "e < (s, b)" if e: "e \<in> set (take j zs)" for e
      proof -
        obtain q where "q < j" "e = zs ! q" using e by (auto simp: in_set_conv_nth)
        then show ?thesis using sorted_lessD [OF sorted, of q j] j by simp
      qed
      have "\<not> e < (s, b)" if e: "e \<in> set (drop j zs)" for e
      proof -
        obtain q where "q < length zs - j" "e = zs ! (j + q)" using e by (auto simp: in_set_conv_nth)
        then have "zs ! j \<le> e" using sorted_leD [OF sorted, of j "j + q"] by simp
        then show ?thesis using j by simp
      qed
      then have "filter (\<lambda>e. e < (s, b)) (take j zs @ drop j zs) = take j zs"
        unfolding filter_append using lt by (simp add: filter_empty_conv filter_id_conv)
      then show ?thesis by simp
    qed
    ultimately show ?thesis using j by simp
  qed
  ultimately show ?thesis by auto
qed

lemma step_by_rank:
  assumes "zrep h zsl zs" and r: "0 < r \<and> r < 2 ^ 64"
  shows "\<exists>x. zslGetElementByRank h zsl r = Some x \<and>
    map_option (elem h) x = (if 1 \<le> r \<and> r \<le> int (length zs) then Some (zs ! (nat r - 1)) else None)"
proof -
  obtain xs where wf: "zsl_wf h zsl xs" and zs: "map (elem h) xs = zs" and sorted: "sorted_wrt (<) zs"
    using assms(1) unfolding zrep_def by blast
  note w = zsl_wfD [OF wf]
  let ?hdr = "zsl_header zsl"
  define k where "k = min (nat r) (length xs)"
  have hu: "holds_upto h xs (\<lambda>n t. t \<le> r) k" by (auto simp: holds_upto_def k_def)
  have k: "k \<le> length xs" by (simp add: k_def)
  let ?res = "if int k = r then Some (at ?hdr xs k) else None"
  have main: "byRank_levels h r i (at ?hdr xs p) (int p) = Some (if i > 0 then ?res else None)"
    if "i \<le> zsl_level zsl" "p \<le> k" "i \<le> hts h ?hdr xs p" for i p
    using that
  proof (induction i arbitrary: p)
    case (Suc i)
    let ?q = "stop_at (hts h ?hdr xs) i k"
    have q: "?q \<le> k" by (rule stop_at_le)
    have s: "search_level c_ulong h (\<lambda>_ t. t \<le> r) i (at ?hdr xs p) (int p) = Some (at ?hdr xs ?q, int ?q)"
      by (rule search_level_stop [OF w(1,2) hu]) (use Suc.prems w(9) in simp_all)
    have h: "i < hts h ?hdr xs ?q"
      using stop_at_height [of i "hts h ?hdr xs"] nodes_okD(2) [OF w(1)] Suc.prems(1) w(5) by simp
    show ?case
    proof (cases "int ?q = r")
      case True
      have "k \<le> nat r" by (simp add: k_def)
      then have "?q = k" using q True by linarith
      then show ?thesis using True s by simp
    next
      case False
      have "byRank_levels h r i (at ?hdr xs ?q) (int ?q) = Some (if i > 0 then ?res else None)"
        using h q Suc.prems(1) by (intro Suc.IH) simp_all
      moreover have "i > 0 \<or> int k \<noteq> r" using False stop_at_0 [OF w(1) k] by (cases i) auto
      ultimately show ?thesis using s False by auto
    qed
  qed simp
  have "zslGetElementByRank h zsl r = Some ?res"
    using main [of "zsl_level zsl" 0] w(4,5) nodes_okD(2) [OF w(1)] r by (simp add: zslGetElementByRank_def)
  moreover have "map_option (elem h) ?res = (if 1 \<le> r \<and> r \<le> int (length zs) then Some (zs ! (nat r - 1)) else None)"
  proof (cases "int k = r")
    case True
    then have "0 < k" "k = nat r" using r by auto
    then show ?thesis using True k zs by (auto simp: nth_Cons')
  next
    case False
    then show ?thesis using zs r by (auto simp: k_def)
  qed
  ultimately show ?thesis by blast
qed

text \<open>First and last in a range.\<close>

lemma find_first:
  assumes "k < length zs" and "\<And>q. q < k \<Longrightarrow> \<not> P (zs ! q)" and "\<not> P (zs ! k) \<Longrightarrow> (\<And>q. k \<le> q \<Longrightarrow> q < length zs \<Longrightarrow> \<not> P (zs ! q))"
  shows "find P zs = (if P (zs ! k) then Some (zs ! k) else None)"
proof (cases "P (zs ! k)")
  case True
  then show ?thesis using assms(1,2) by (auto simp: find_Some_iff)
next
  case False
  have "\<not> P e" if "e \<in> set zs" for e
    using that assms(2) assms(3) [OF False] by (metis in_set_conv_nth not_le)
  then show ?thesis using False by (simp add: find_None_iff)
qed

lemma find_none_range: "\<forall>e \<in> set zs. \<not> in_range rng e \<Longrightarrow> find (in_range rng) zs = None"
  by (auto simp: find_None_iff)

lemma in_range_spec:
  fixes zs :: "('s :: linorder \<times> 'o :: linorder) list"
  assumes wf: "zsl_wf h zsl xs" and zs: "map (elem h) xs = zs" and sorted: "sorted_wrt (<) zs"
  shows "\<exists>r. zslIsInRange h zsl rng = Some r \<and>
    (if r then zs \<noteq> [] \<and> zslValueGteMin (fst (last zs)) rng \<and> zslValueLteMax (fst (hd zs)) rng
     else \<forall>e \<in> set zs. \<not> in_range rng e)"
proof (cases "zr_min rng > zr_max rng \<or> zr_min rng = zr_max rng \<and> (zr_minex rng \<or> zr_maxex rng)")
  case True
  then have "\<not> in_range rng e" for e :: "'s \<times> 'o"
    by (auto simp: in_range_def zslValueGteMin_def zslValueLteMax_def)
  then show ?thesis using True by (auto simp: zslIsInRange_def)
next
  case False
  note w = zsl_wfD [OF wf]
  show ?thesis
  proof (cases "xs = []")
    case True
    then have "zslIsInRange h zsl rng = Some False" using False w(7) by (auto simp: zslIsInRange_def)
    moreover have "zs = []" using True zs by simp
    ultimately show ?thesis by (intro exI [of _ False]) simp
  next
    case ne: False
    then have zne: "zs \<noteq> []" using zs by auto
    have l0: "0 < length xs" "length xs - 1 < length xs" using ne by auto
    obtain n b where n: "h (xs ! (length xs - 1)) = Some n" "elem h (xs ! (length xs - 1)) = (zn_score n, b)" by (rule elem_node [OF wf l0(2)])
    obtain m c where m: "h (xs ! 0) = Some m" "elem h (xs ! 0) = (zn_score m, c)" by (rule elem_node [OF wf l0(1)])
    have last: "h (last xs) = Some n" "fst (last zs) = zn_score n" using n ne zs by (auto simp: last_conv_nth)
    have first: "fst (hd zs) = zn_score m" using m ne zs by (auto simp: hd_conv_nth)
    have link: "get_link h (zsl_header zsl) 0 = Some (Some (xs ! 0), 1)" using link_0 [OF wf, of 0] ne by simp
    have le: "hd zs \<le> e" "e \<le> last zs" if e: "e \<in> set zs" for e
    proof -
      obtain q where q: "q < length zs" "e = zs ! q" using e by (auto simp: in_set_conv_nth)
      then show "hd zs \<le> e" "e \<le> last zs"
        using sorted_leD [OF sorted, of 0 q] sorted_leD [OF sorted, of q "length zs - 1"] zne
        by (simp_all add: hd_conv_nth last_conv_nth)
    qed
    show ?thesis
    proof (cases "zslValueGteMin (zn_score n) rng")
      case noLast: False
      then have "\<not> in_range rng e" if "e \<in> set zs" for e using gte_mono [OF le(2) [OF that]] last(2) by (auto simp: in_range_def)
      moreover have "zslIsInRange h zsl rng = Some False" using False w(7) ne last(1) noLast by (auto simp: zslIsInRange_def)
      ultimately show ?thesis by (intro exI [of _ False]) simp
    next
      case True
      show ?thesis
      proof (cases "zslValueLteMax (zn_score m) rng")
        case noFirst: False
        then have "\<not> in_range rng e" if "e \<in> set zs" for e using lte_mono [OF le(1) [OF that]] first by (auto simp: in_range_def)
    moreover have "zslIsInRange h zsl rng = Some False"
          using False w(7) ne last(1) True noFirst link m(1) by (auto simp: zslIsInRange_def)
        ultimately show ?thesis by (intro exI [of _ False]) simp
      next
        case ok: True
        then have "zslIsInRange h zsl rng = Some True" using False w(7) ne last(1) True link m(1) by (auto simp: zslIsInRange_def)
        then show ?thesis using zne last(2) first ok True by (intro exI [of _ True]) simp
      qed
    qed
  qed
qed

lemma step_first:
  assumes "zrep h zsl zs"
  shows "\<exists>x. zslFirstInRange h zsl rng = Some x \<and> map_option (elem h) x = find (in_range rng) zs"
proof -
  obtain xs where wf: "zsl_wf h zsl xs" and zs: "map (elem h) xs = zs" and sorted: "sorted_wrt (<) zs"
    using assms(1) unfolding zrep_def by blast
  have len: "length zs = length xs" using zs by auto
  obtain r where r: "zslIsInRange h zsl rng = Some r"
    "if r then zs \<noteq> [] \<and> zslValueGteMin (fst (last zs)) rng \<and> zslValueLteMax (fst (hd zs)) rng
     else \<forall>e \<in> set zs. \<not> in_range rng e" using in_range_spec [OF wf zs sorted] by blast
  show ?thesis
  proof (cases r)
    case False
    then show ?thesis using r find_none_range [of zs rng] by (simp add: zslFirstInRange_def)
  next
    case True
    note rs = range_stretch [OF sorted, where rng = rng]
    define k where "k = length (takeWhile (\<lambda>e. \<not> zslValueGteMin (fst e) rng) zs)"
    have nonempty: "zs \<noteq> []" and bound: "zslValueGteMin (fst (last zs)) rng" using r(2) True by simp_all
    have zne: "zslValueGteMin (fst (zs ! (length zs - 1))) rng" using bound by (simp add: last_conv_nth [OF nonempty])
    then have k: "k < length xs" using rs(1) [of "length zs - 1"] len nonempty unfolding k_def by (cases zs) auto
    have hu: "holds_upto h xs (\<lambda>n r. \<not> zslValueGteMin (zn_score n) rng) k" unfolding k_def by (rule min_holds [OF wf zs sorted])
    let ?ups = "map (ups_of h (zsl_header zsl) xs k) [0..<zsl_level zsl]"
    have search: "zsl_search c_ulong h zsl (\<lambda>n _. \<not> zslValueGteMin (zn_score n) rng) = Some ?ups" by (rule zsl_search_ups [OF wf hu]) simp
    have nxt: "next_of_search h ?ups = Some (Some (xs ! k))"
      using next_of_search_ups [OF wf, of k ?ups] zsl_wfD(4) [OF wf] k by simp
    obtain n b where n: "h (xs ! k) = Some n" "elem h (xs ! k) = (zn_score n, b)" by (rule elem_node [OF wf k])
    have zk: "zs ! k = (zn_score n, b)" using n(2) zs k by auto
    have g: "zslValueGteMin (fst (zs ! q)) rng \<longleftrightarrow> k \<le> q" if "q < length zs" for q using rs(1) [OF that] by (simp add: k_def)
    have res: "zslFirstInRange h zsl rng = Some (if zslValueLteMax (zn_score n) rng then Some (xs ! k) else None)"
      unfolding zslFirstInRange_def search using r(1) True nxt n(1) by simp
    have "find (in_range rng) zs = (if in_range rng (zs ! k) then Some (zs ! k) else None)"
    proof (rule find_first)
      show "k < length zs" using k len by simp
      show "\<not> in_range rng (zs ! q)" if "q < k" for q using g [of q] that k len by (simp add: in_range_def)
      show "\<not> in_range rng (zs ! q)" if no: "\<not> in_range rng (zs ! k)" and q: "k \<le> q" "q < length zs" for q
      proof -
        have "zslValueGteMin (fst (zs ! k)) rng" using g [of k] k len by simp
        then have "\<not> zslValueLteMax (fst (zs ! k)) rng" using no by (simp add: in_range_def)
        then show ?thesis using lte_mono [OF sorted_leD [OF sorted q]] by (auto simp: in_range_def)
      qed
    qed
    moreover have "in_range rng (zs ! k) \<longleftrightarrow> zslValueLteMax (zn_score n) rng"
      using g [of k] k len zk by (simp add: in_range_def)
    ultimately show ?thesis using res zk n(2) by auto
  qed
qed

lemma step_last:
  assumes "zrep h zsl zs"
  shows "\<exists>x. zslLastInRange h zsl rng = Some x \<and> map_option (elem h) x = find (in_range rng) (rev zs)"
proof -
  obtain xs where wf: "zsl_wf h zsl xs" and zs: "map (elem h) xs = zs" and sorted: "sorted_wrt (<) zs"
    using assms(1) unfolding zrep_def by blast
  have len: "length zs = length xs" using zs by auto
  note w = zsl_wfD [OF wf]
  obtain r where r: "zslIsInRange h zsl rng = Some r"
    "if r then zs \<noteq> [] \<and> zslValueGteMin (fst (last zs)) rng \<and> zslValueLteMax (fst (hd zs)) rng
     else \<forall>e \<in> set zs. \<not> in_range rng e" using in_range_spec [OF wf zs sorted] by blast
  show ?thesis
  proof (cases r)
    case False
    then show ?thesis using r find_none_range [of "rev zs" rng] by (simp add: zslLastInRange_def)
  next
    case True
    define k where "k = length (takeWhile (\<lambda>e. zslValueLteMax (fst e) rng) zs)"
    have pre: "zslValueLteMax (fst (zs ! q)) rng \<longleftrightarrow> q < k" if "q < length zs" for q
      unfolding k_def
    proof (rule takeWhile_prefix)
      show "zslValueLteMax (fst (zs ! p')) rng" if "p' \<le> q'" "q' < length zs" "zslValueLteMax (fst (zs ! q')) rng" for p' q'
        using lte_mono [OF sorted_leD [OF sorted that(1,2)]] that(3) by blast
    qed (rule that)
    have hu: "holds_upto h xs (\<lambda>n r. zslValueLteMax (zn_score n) rng) k"
      unfolding k_def
    proof (rule holds_upto_elem [OF wf zs])
      show "zslValueLteMax (fst (zs ! p')) rng" if "p' \<le> q'" "q' < length zs" "zslValueLteMax (fst (zs ! q')) rng" for p' q'
        using lte_mono [OF sorted_leD [OF sorted that(1,2)]] that(3) by blast
    qed simp
    have kl: "k \<le> length xs" using hu by (simp add: holds_upto_def)
    have nonempty: "zs \<noteq> []" and bound: "zslValueLteMax (fst (hd zs)) rng" using r(2) True by simp_all
    have zne: "zslValueLteMax (fst (zs ! 0)) rng" using bound by (simp add: hd_conv_nth [OF nonempty])
    then have k: "0 < k" "k - 1 < length xs" using pre [of 0] kl nonempty by auto
    let ?ups = "map (ups_of h (zsl_header zsl) xs k) [0..<zsl_level zsl]"
    have search: "zsl_search c_ulong h zsl (\<lambda>n _. zslValueLteMax (zn_score n) rng) = Some ?ups" by (rule zsl_search_ups [OF wf hu]) simp
    have u0: "array_get ?ups 0 = Some (xs ! (k - 1), int k)"
      using w(4) stop_at_0 [OF w(1) kl] k by (simp add: ups_of_def nth_Cons')
    obtain n b where n: "h (xs ! (k - 1)) = Some n" "elem h (xs ! (k - 1)) = (zn_score n, b)" by (rule elem_node [OF wf k(2)])
    have zk: "zs ! (k - 1) = (zn_score n, b)" using n(2) zs k by auto
    have res: "zslLastInRange h zsl rng = Some (if zslValueGteMin (zn_score n) rng then Some (xs ! (k - 1)) else None)"
      unfolding zslLastInRange_def search using r(1) True u0 n(1) by simp
    let ?j = "length zs - k"
    have j: "?j < length (rev zs)" "rev zs ! ?j = zs ! (k - 1)" using k kl len by (auto simp: rev_nth)
    have "find (in_range rng) (rev zs) = (if in_range rng (rev zs ! ?j) then Some (rev zs ! ?j) else None)"
    proof (rule find_first)
      show "?j < length (rev zs)" by (rule j)
      show "\<not> in_range rng (rev zs ! q)" if q: "q < ?j" for q
      proof -
        have "\<not> length zs - Suc q < k" "length zs - Suc q < length zs" using q by auto
        then show ?thesis using pre [of "length zs - Suc q"] q by (simp add: rev_nth in_range_def)
      qed
      show "\<not> in_range rng (rev zs ! q)" if no: "\<not> in_range rng (rev zs ! ?j)" and q: "?j \<le> q" "q < length (rev zs)" for q
      proof -
        have "zslValueLteMax (fst (zs ! (k - 1))) rng" using pre [of "k - 1"] k len by simp
        then have "\<not> zslValueGteMin (fst (zs ! (k - 1))) rng" using no j(2) by (simp add: in_range_def)
        moreover have "zs ! (length zs - Suc q) \<le> zs ! (k - 1)" using q k len by (intro sorted_leD [OF sorted]) auto
        ultimately have "\<not> zslValueGteMin (fst (zs ! (length zs - Suc q))) rng" using gte_mono by blast
        then show ?thesis using q by (simp add: rev_nth in_range_def)
      qed
    qed
    moreover have "in_range rng (zs ! (k - 1)) \<longleftrightarrow> zslValueGteMin (zn_score n) rng"
      using pre [of "k - 1"] k len zk by (auto simp: in_range_def)
    ultimately show ?thesis using res zk n(2) j(2) by auto
  qed
qed

section \<open>Simulation\<close>

lemma zsl_step_refines:
  assumes rep: "zrep h zsl zs" and ok: "admissible h zs p"
  shows "\<exists>h' zsl'. zsl_step (h, zsl) p = Some ((h', zsl'), snd (zset_step zs p)) \<and> zrep h' zsl' (fst (zset_step zs p))"
proof (cases p)
  case (ZInsert x rs s b)
  then show ?thesis using step_insert [OF rep ok [unfolded ZInsert]] by auto
next
  case (ZDelete s b)
  then show ?thesis using step_delete [OF rep, of s b] by auto
next
  case (ZRank s b)
  then show ?thesis using step_rank [OF rep ok [unfolded ZRank]] rep by auto
next
  case (ZByRank r)
  have "0 < r \<and> r < 2 ^ 64" using ok ZByRank by simp
  then obtain x where x: "zslGetElementByRank h zsl r = Some x"
    "map_option (elem h) x = (if 1 \<le> r \<and> r \<le> int (length zs) then Some (zs ! (nat r - 1)) else None)"
    using step_by_rank [OF rep, of r] by blast
  show ?thesis unfolding ZByRank zsl_step.simps zset_step.simps x(1) answer_at_def option.map x(2) by (simp add: rep)
next
  case (ZFirst rng)
  obtain x where x: "zslFirstInRange h zsl rng = Some x" "map_option (elem h) x = find (in_range rng) zs"
    using step_first [OF rep] by blast
  show ?thesis unfolding ZFirst zsl_step.simps zset_step.simps x(1) answer_at_def option.map x(2) by (simp add: rep)
next
  case (ZLast rng)
  obtain x where x: "zslLastInRange h zsl rng = Some x" "map_option (elem h) x = find (in_range rng) (rev zs)"
    using step_last [OF rep] by blast
  show ?thesis unfolding ZLast zsl_step.simps zset_step.simps x(1) answer_at_def option.map x(2) by (simp add: rep)
next
  case (ZDelByScore rng)
  then show ?thesis using step_del_score [OF rep, of rng] by auto
next
  case (ZDelByRank a b)
  then show ?thesis using step_del_rank [OF rep, of a b] ok by auto
qed

text \<open>Runs of operations, with the answers given.\<close>

fun zset_run :: "('s :: linorder, 'o :: linorder) zset \<Rightarrow> ('s, 'o) zop list \<Rightarrow> ('s, 'o) zset \<times> ('s, 'o) zanswer list" where
  "zset_run zs [] = (zs, [])"
| "zset_run zs (p # ps) = (case zset_step zs p of (zs', a) \<Rightarrow> (case zset_run zs' ps of (zs'', as) \<Rightarrow> (zs'', a # as)))"

fun zsl_run :: "('s :: linorder, 'o :: linorder) zstate \<Rightarrow> ('s, 'o) zop list \<Rightarrow> (('s, 'o) zstate \<times> ('s, 'o) zanswer list) option" where
  "zsl_run st [] = Some (st, [])"
| "zsl_run st (p # ps) = do { (st, a) \<leftarrow> zsl_step st p; (st, as) \<leftarrow> zsl_run st ps; Some (st, a # as) }"

fun admissible_run :: "('s :: linorder, 'o :: linorder) zstate \<Rightarrow> ('s, 'o) zset \<Rightarrow> ('s, 'o) zop list \<Rightarrow> bool" where
  "admissible_run st zs [] \<longleftrightarrow> True"
| "admissible_run st zs (p # ps) \<longleftrightarrow> admissible (fst st) zs p \<and>
    (case zsl_step st p of None \<Rightarrow> True | Some (st', a) \<Rightarrow> admissible_run st' (fst (zset_step zs p)) ps)"

lemma zsl_run_refines:
  assumes "zrep h zsl zs" and "admissible_run (h, zsl) zs ps"
  shows "\<exists>h' zsl'. zsl_run (h, zsl) ps = Some ((h', zsl'), snd (zset_run zs ps)) \<and> zrep h' zsl' (fst (zset_run zs ps))"
  using assms
proof (induction ps arbitrary: h zsl zs)
  case (Cons p ps)
  have "admissible h zs p" using Cons.prems(2) by simp
  then obtain h1 zsl1 where s: "zsl_step (h, zsl) p = Some ((h1, zsl1), snd (zset_step zs p))" "zrep h1 zsl1 (fst (zset_step zs p))"
    using zsl_step_refines [OF Cons.prems(1)] by blast
  have "admissible_run (h1, zsl1) (fst (zset_step zs p)) ps" using Cons.prems(2) s(1) by simp
  from Cons.IH [OF s(2) this] obtain h2 zsl2 where
    r: "zsl_run (h1, zsl1) ps = Some ((h2, zsl2), snd (zset_run (fst (zset_step zs p)) ps))"
      "zrep h2 zsl2 (fst (zset_run (fst (zset_step zs p)) ps))" by blast
  show ?case using s(1) r by (simp add: case_prod_unfold)
qed simp

lemma zrep_create:
  fixes zero :: "'s :: linorder" and h :: "('s, 'o :: linorder) zheap"
  assumes "zslCreate a zero h = (h', zsl')"
  shows "zrep h' zsl' []"
proof -
  have "h' a = Some (zslCreateNode ZSKIPLIST_MAXLEVEL zero None)" "zsl_header zsl' = a" "zsl_tail zsl' = None"
    "zsl_length zsl' = 0" "zsl_level zsl' = 1"
    using assms by (auto simp: zslCreate_def)
  moreover from this have "zsl_wf h' zsl' []"
    by (simp add: zsl_wf_def nodes_ok_def skel_def links_ok_def back_ok_def zslCreateNode_def get_link_def array_get_def hts_def height_def)
  ultimately show ?thesis by (simp add: zrep_def)
qed

text \<open>(C7) Every run of insertions, deletions, rank and range queries and range deletions of the skip list, from the list
  \<^verbatim>\<open>zslCreate\<close> makes, completes without an invalid access, answers as a sorted list of (score, object) pairs
  does, and leaves a well-formed skip list (links, spans, back pointers, tail, length and level) that holds exactly
  the elements of that list.  The run is one its callers make: a new node gets an unused address, the random
  numbers drawn for its level end the loop, and an element is not inserted while it is in the list; the list stays shorter than 2^32, the width of a span; a rank is asked
  for with the score the object has in the list (or for an absent object); an element is fetched by a rank between 1
  and 2^64 - 1, and the bounds of a deletion by rank are of type \<open>unsigned int\<close>.
\<close>

theorem zsl_refines_sorted_list:
  fixes h :: "('s :: linorder, 'o :: linorder) zheap"
  assumes "zslCreate a zero h = (h0, zsl0)" and "admissible_run (h0, zsl0) [] ps"
  shows "\<exists>h' zsl'. zsl_run (h0, zsl0) ps = Some ((h', zsl'), snd (zset_run [] ps)) \<and> zrep h' zsl' (fst (zset_run [] ps))"
  by (rule zsl_run_refines [OF zrep_create [OF assms(1)] assms(2)])

theorem zsl_refines_sorted_list_witness:
  "\<exists>h' zsl'. zsl_run (zslCreate 0 (0 :: int) Map.empty) [ZInsert 1 [0, 20000] 5 (7 :: nat), ZInsert 2 [20000] 3 9, ZRank 5 7, ZByRank 1] =
    Some ((h', zsl'), [Done, Done, Rank 2, Element (Some (3, 9))]) \<and> zrep h' zsl' [(3, 9), (5, 7)]"
proof -
  let ?ps = "[ZInsert 1 [0, 20000] 5 (7 :: nat), ZInsert 2 [20000] 3 9, ZRank 5 7, ZByRank 1]"
  obtain h0 zsl0 where c: "zslCreate 0 (0 :: int) (Map.empty :: (int, nat) zheap) = (h0, zsl0)"
    by (cases "zslCreate 0 (0 :: int) (Map.empty :: (int, nat) zheap)")
  have "admissible_run (zslCreate 0 (0 :: int) (Map.empty :: (int, nat) zheap)) [] ?ps"
    by (simp add: zslCreate_def zslCreateNode_def zslInsert_def zsl_search_def search_level.simps array_get_def zslRandomLevel_def
        raise_level_def splice_level_def widen_level_def link_back_def get_link_def set_link_def set_backward_def
        node_before_def zslGetRank_def node_upto_def zslGetElementByRank_def)
  then have "admissible_run (h0, zsl0) [] ?ps" by (simp only: c)
  from zsl_refines_sorted_list [OF c this] show ?thesis by (simp add: c)
qed

end
