(* ===== verification/Rio.thy ===== *)
theory Rio
  imports Crc Bytes
begin

text \<open>
  The stream of \<^verbatim>\<open>src/redis-3.0.3/src/rio.c\<close> and \<^verbatim>\<open>rio.h\<close> over a buffer: chunked writes and reads, the running
  checksum and the count of processed bytes.  The buffer is the content of a dynamic string, whose operations
  are those of theory \<open>Sds\<close>; its 32 bit length is not tracked here, so the contents stay below 2^32 bytes
  (the bound on the strings of theory \<open>Dump\<close> keeps them there).  A failed write or read is \<open>False\<close> or \<open>None\<close>; no caller uses the
  stream after a failure.
\<close>

section \<open>Operations\<close>

record rio =
  io_ptr :: "u8 list"
  io_pos :: nat
  io_update :: bool
  io_cksum :: u64
  io_processed :: nat
  io_chunk :: nat

definition rioInitWithBuffer :: "u8 list \<Rightarrow> rio" where
  "rioInitWithBuffer s = \<lparr>io_ptr = s, io_pos = 0, io_update = False, io_cksum = 0, io_processed = 0, io_chunk = 0\<rparr>"

definition rioBufferWrite :: "rio \<Rightarrow> u8 list \<Rightarrow> bool \<times> rio" where
  "rioBufferWrite r buf = (True, r\<lparr>io_ptr := io_ptr r @ buf, io_pos := io_pos r + length buf\<rparr>)"

definition rioBufferRead :: "rio \<Rightarrow> nat \<Rightarrow> (u8 list \<times> rio) option" where
  "rioBufferRead r len =
    (if length (io_ptr r) - io_pos r < len then None
     else Some (take len (drop (io_pos r) (io_ptr r)), r\<lparr>io_pos := io_pos r + len\<rparr>))"

text \<open>\<open>crc64\<close> never faults (\<open>crc64_serial_eq\<close>).\<close>

definition rioGenericUpdateChecksum :: "rio \<Rightarrow> u8 list \<Rightarrow> rio" where
  "rioGenericUpdateChecksum r buf = r\<lparr>io_cksum := the (crc64 (io_cksum r) buf)\<rparr>"

definition rio_chunk :: "rio \<Rightarrow> nat \<Rightarrow> nat" where
  "rio_chunk r len = (if io_chunk r \<noteq> 0 \<and> io_chunk r < len then io_chunk r else len)"

function rioWrite :: "rio \<Rightarrow> u8 list \<Rightarrow> bool \<times> rio" where
  "rioWrite r buf =
    (if buf = [] then (True, r)
     else
       let n = rio_chunk r (length buf);
           r = (if io_update r then rioGenericUpdateChecksum r (take n buf) else r)
       in case rioBufferWrite r (take n buf) of
            (ok, r) \<Rightarrow> if \<not> ok then (False, r)
              else rioWrite (r\<lparr>io_processed := io_processed r + n\<rparr>) (drop n buf))"
  by pat_completeness auto
termination by (relation "measure (\<lambda>(r, buf). length buf)") (auto simp: rio_chunk_def)

declare rioWrite.simps [simp del]

function rioRead :: "rio \<Rightarrow> nat \<Rightarrow> (u8 list \<times> rio) option" where
  "rioRead r len =
    (if len = 0 then Some ([], r)
     else
       let n = rio_chunk r len in
       case rioBufferRead r n of
         None \<Rightarrow> None
       | Some (buf, r) \<Rightarrow>
           let r = (if io_update r then rioGenericUpdateChecksum r buf else r) in
           (case rioRead (r\<lparr>io_processed := io_processed r + n\<rparr>) (len - n) of
              None \<Rightarrow> None
            | Some (rest, r) \<Rightarrow> Some (buf @ rest, r)))"
  by pat_completeness auto
termination by (relation "measure (\<lambda>(r, len). len)") (auto simp: rio_chunk_def)

declare rioRead.simps [simp del]

section \<open>Chunks do not matter\<close>

definition io_sum :: "rio \<Rightarrow> u8 list \<Rightarrow> u64" where
  "io_sum r bs = (if io_update r then crc64_serial (io_cksum r) bs else io_cksum r)"

definition io_append :: "u8 list \<Rightarrow> rio \<Rightarrow> rio" where
  "io_append bs r = r\<lparr>io_ptr := io_ptr r @ bs, io_pos := io_pos r + length bs, io_cksum := io_sum r bs,
    io_processed := io_processed r + length bs\<rparr>"

definition io_skip :: "u8 list \<Rightarrow> rio \<Rightarrow> rio" where
  "io_skip bs r = r\<lparr>io_pos := io_pos r + length bs, io_cksum := io_sum r bs, io_processed := io_processed r + length bs\<rparr>"

lemma io_append_append [simp]: "io_append b (io_append a r) = io_append (a @ b) r"
  by (simp add: io_append_def io_sum_def crc64_serial_def)

lemma io_append_Nil [simp]: "io_append [] r = r"
  by (simp add: io_append_def io_sum_def crc64_serial_def)

lemma io_skip_skip [simp]: "io_skip b (io_skip a r) = io_skip (a @ b) r"
  by (simp add: io_skip_def io_sum_def crc64_serial_def)

lemma io_skip_Nil [simp]: "io_skip [] r = r"
  by (simp add: io_skip_def io_sum_def crc64_serial_def)

lemma io_append_fields [simp]: "io_ptr (io_append bs r) = io_ptr r @ bs"
  by (simp add: io_append_def)

lemma rioWrite_ok [simp]: "rioWrite r buf = (True, io_append buf r)"
proof (induction r buf rule: rioWrite.induct)
  case (1 r buf)
  show ?case
  proof (cases "buf = []")
    case True
    then show ?thesis by (simp add: rioWrite.simps)
  next
    case False
    define n where "n = rio_chunk r (length buf)"
    have n: "n \<le> length buf" by (simp add: n_def rio_chunk_def)
    define r1 where "r1 = (if io_update r then rioGenericUpdateChecksum r (take n buf) else r)"
    define r2 where "r2 = snd (rioBufferWrite r1 (take n buf))"
    have io: "r2\<lparr>io_processed := io_processed r2 + n\<rparr> = io_append (take n buf) r"
      using n by (simp add: r1_def r2_def rioBufferWrite_def rioGenericUpdateChecksum_def io_append_def io_sum_def crc64_serial_eq)
    have bw: "rioBufferWrite r1 (take n buf) = (True, r2)" by (simp add: r2_def rioBufferWrite_def)
    have "rioWrite (io_append (take n buf) r) (drop n buf) = (True, io_append (drop n buf) (io_append (take n buf) r))"
      using "1.IH" [OF False n_def r1_def bw [symmetric]] by (simp only: io not_not)
    then have "rioWrite (io_append (take n buf) r) (drop n buf) = (True, io_append buf r)" by simp
    then show ?thesis
      using False bw io by (subst rioWrite.simps) (simp add: n_def [symmetric] r1_def [symmetric] Let_def)
  qed
qed

text \<open>\<open>io_rest r\<close> is what is left to read.\<close>

definition io_rest :: "rio \<Rightarrow> u8 list" where
  "io_rest r = drop (io_pos r) (io_ptr r)"

lemma io_rest_skip [simp]: "io_rest r = bs @ cs \<Longrightarrow> io_rest (io_skip bs r) = cs"
proof -
  assume "io_rest r = bs @ cs"
  then have "drop (length bs) (drop (io_pos r) (io_ptr r)) = cs" by (simp add: io_rest_def)
  then show ?thesis by (simp add: io_rest_def io_skip_def add.commute)
qed

lemma io_rest_init [simp]: "io_rest (rioInitWithBuffer s) = s"
  by (simp add: io_rest_def rioInitWithBuffer_def)

lemma rioRead_ok:
  "io_rest r = bs @ cs \<Longrightarrow> length bs = n \<Longrightarrow> rioRead r n = Some (bs, io_skip bs r)"
proof (induction r n arbitrary: bs rule: rioRead.induct)
  case (1 r len)
  show ?case
  proof (cases "len = 0")
    case True
    then show ?thesis using "1.prems" by (simp add: rioRead.simps)
  next
    case False
    define n where "n = rio_chunk r len"
    have n: "n \<le> len" by (simp add: n_def rio_chunk_def)
    define xs ys where "xs = take n bs" and "ys = drop n bs"
    have bs: "bs = xs @ ys" "length xs = n" "length ys = len - n" using "1.prems"(2) n by (auto simp: xs_def ys_def)
    define r1 where "r1 = r\<lparr>io_pos := io_pos r + n\<rparr>"
    have lr: "length (io_ptr r) - io_pos r = length (bs @ cs)" using "1.prems"(1) unfolding io_rest_def by (metis length_drop)
    have "take n (drop (io_pos r) (io_ptr r)) = xs" using "1.prems"(1) bs by (simp add: io_rest_def)
    then have rd: "rioBufferRead r n = Some (xs, r1)" using lr bs n by (simp add: rioBufferRead_def r1_def)
    let ?r = "if io_update r1 then rioGenericUpdateChecksum r1 xs else r1"
    have io: "?r\<lparr>io_processed := io_processed ?r + n\<rparr> = io_skip xs r"
      using bs(2) by (simp add: r1_def rioGenericUpdateChecksum_def io_skip_def io_sum_def crc64_serial_eq)
    have rest: "io_rest (io_skip xs r) = ys @ cs" using "1.prems"(1) bs by simp
    have "rioRead (io_skip xs r) (len - n) = Some (ys, io_skip ys (io_skip xs r))"
      using "1.IH" [OF False n_def rd refl refl, unfolded io, OF rest bs(3)] by (simp only: io)
    then show ?thesis
      using False rd io bs(1) by (subst rioRead.simps) (simp add: n_def [symmetric] Let_def del: io_skip_skip, simp)
  qed
qed

lemma rioRead_short:
  "length (io_rest r) < n \<Longrightarrow> rioRead r n = None"
proof (induction r n rule: rioRead.induct)
  case (1 r len)
  define n where "n = rio_chunk r len"
  have n: "n \<le> len" by (simp add: n_def rio_chunk_def)
  show ?case
  proof (cases "rioBufferRead r n")
    case None
    then show ?thesis using "1.prems" by (subst rioRead.simps) (simp add: n_def [symmetric] Let_def)
  next
    case (Some p)
    obtain buf r1 where p: "p = (buf, r1)" by (cases p)
    let ?r = "if io_update r1 then rioGenericUpdateChecksum r1 buf else r1"
    have "length (io_rest (?r\<lparr>io_processed := io_processed ?r + n\<rparr>)) < len - n"
      using Some p "1.prems" n
      by (auto simp: io_rest_def rioBufferRead_def rioGenericUpdateChecksum_def split: if_splits)
    moreover have "len \<noteq> 0" using "1.prems" by simp
    ultimately have "rioRead (?r\<lparr>io_processed := io_processed ?r + n\<rparr>) (len - n) = None"
      using "1.IH" [OF _ n_def Some p [symmetric] refl] by blast
    then show ?thesis using Some p "1.prems" by (subst rioRead.simps) (simp add: n_def [symmetric] Let_def)
  qed
qed

end
