(* ===== verification/Lzf.thy ===== *)
theory Lzf
  imports Bytes
begin

text \<open>
  The compressor of the dump format: \<^verbatim>\<open>lzf_c.c\<close>, \<^verbatim>\<open>lzf_d.c\<close> and \<^verbatim>\<open>lzfP.h\<close> of \<^verbatim>\<open>src/redis-3.0.3/src\<close>, with the
  settings of \<^verbatim>\<open>lzfP.h\<close> (\<open>HLOG\<close> 16, \<open>VERY_FAST\<close>, no \<open>INIT_HTAB\<close>, \<open>CHECK_INPUT\<close>).  Input and output are lists of bytes, positions
  are offsets; \<open>None\<close> is an access outside one of them.  The hash table is not initialised by the code: its
  entries are arbitrary 64 bit addresses, and \<open>base\<close> is the address of the input.
\<close>

section \<open>Decompression\<close>

text \<open>The bytewise copy of a back reference, which may read what it has just written.\<close>

fun copy_ref :: "nat \<Rightarrow> 'a list \<Rightarrow> nat \<Rightarrow> nat \<Rightarrow> 'a list option" where
  "copy_ref 0 out ref op = Some out"
| "copy_ref (Suc n) out ref op = do {
     b \<leftarrow> array_get out ref;
     out \<leftarrow> write_bytes out op [b];
     copy_ref n out (ref + 1) (op + 1) }"

text \<open>The end of the branch of a back reference of \<open>len + 2\<close> bytes; \<open>Inl\<close> is the return of 0, \<open>Inr\<close> the new
  positions and output.\<close>

definition lzf_back :: "u8 list \<Rightarrow> nat \<Rightarrow> nat \<Rightarrow> u8 list \<Rightarrow> nat \<Rightarrow> int \<Rightarrow> (unit + nat \<times> nat \<times> u8 list) option" where
  "lzf_back data ip op out len ref = do {
     b \<leftarrow> array_get data ip;
     let ref = ref - int (unat b); ip = ip + 1 in
     if op + len + 2 > length out then Some (Inl ())
     else if ref < 0 then Some (Inl ())
     else do {
       out \<leftarrow> copy_ref (len + 2) out (nat ref) op;
       Some (Inr (ip, op + len + 2, out)) } }"

definition lzf_literals :: "u8 list \<Rightarrow> nat \<Rightarrow> nat \<Rightarrow> u8 list \<Rightarrow> nat \<Rightarrow> (unit + nat \<times> nat \<times> u8 list) option" where
  "lzf_literals data ip op out ctrl =
    (if op + ctrl > length out then Some (Inl ())
     else if ip + ctrl > length data then Some (Inl ())
     else do {
       bs \<leftarrow> read_bytes data ip ctrl;
       out \<leftarrow> write_bytes out op bs;
       Some (Inr (ip + ctrl, op + ctrl, out)) })"

text \<open>One round of the loop.\<close>

definition lzf_item :: "u8 list \<Rightarrow> nat \<Rightarrow> nat \<Rightarrow> u8 list \<Rightarrow> (unit + nat \<times> nat \<times> u8 list) option" where
  "lzf_item data ip op out = do {
     c \<leftarrow> array_get data ip;
     let ctrl = unat c; ip = ip + 1 in
     if ctrl < 32 then lzf_literals data ip op out (ctrl + 1)
     else
       let len = drop_bit 5 ctrl; ref = int op - int (push_bit 8 (ctrl AND 0x1f)) - 1 in
       if ip \<ge> length data then Some (Inl ())
       else if len = 7 then do {
         b \<leftarrow> array_get data ip;
         if ip + 1 \<ge> length data then Some (Inl ())
         else lzf_back data (ip + 1) op out (len + unat b) ref }
       else lzf_back data ip op out len ref }"

lemma lzf_literals_moves: "lzf_literals data ip op out n = Some (Inr (ip', op', out')) \<Longrightarrow> ip' = ip + n"
  by (auto simp: lzf_literals_def split: Option.bind_splits if_splits)

lemma lzf_back_moves: "lzf_back data ip op out len ref = Some (Inr (ip', op', out')) \<Longrightarrow> ip' = ip + 1"
  by (auto simp: lzf_back_def Let_def split: Option.bind_splits if_splits)

lemma lzf_item_moves:
  "lzf_item data ip op out = Some (Inr (ip', op', out')) \<Longrightarrow> ip < ip' \<and> ip < length data"
  by (auto simp: lzf_item_def array_get_def Let_def split: Option.bind_splits if_splits
      dest!: lzf_literals_moves lzf_back_moves)

text \<open>\<open>do ... while (ip < in_end)\<close>; the result is the number of bytes produced and the output.\<close>

function lzf_items :: "u8 list \<Rightarrow> nat \<Rightarrow> nat \<Rightarrow> u8 list \<Rightarrow> (nat \<times> u8 list) option" where
  "lzf_items data ip op out =
    (case lzf_item data ip op out of
       None \<Rightarrow> None
     | Some (Inl _) \<Rightarrow> Some (0, out)
     | Some (Inr (ip', op', out')) \<Rightarrow> if ip' < length data then lzf_items data ip' op' out' else Some (op', out'))"
  by pat_completeness auto
termination by (relation "measure (\<lambda>(data, ip, _). length data - ip)") (auto dest: lzf_item_moves)

declare lzf_items.simps [simp del]

definition lzf_decompress :: "u8 list \<Rightarrow> u8 list \<Rightarrow> (nat \<times> u8 list) option" where
  "lzf_decompress data out = lzf_items data 0 0 out"

section \<open>Compression\<close>

definition FRST :: "u8 list \<Rightarrow> nat \<Rightarrow> u32 option" where
  "FRST s p = do { a \<leftarrow> array_get s p; b \<leftarrow> array_get s (p + 1); Some (push_bit 8 (ucast a) OR ucast b) }"

definition NEXT :: "u8 list \<Rightarrow> u32 \<Rightarrow> nat \<Rightarrow> u32 option" where
  "NEXT s v p = do { c \<leftarrow> array_get s (p + 2); Some (push_bit 8 v OR ucast c) }"

definition IDX :: "u32 \<Rightarrow> nat" where
  "IDX h = unat ((drop_bit 8 h - h * 5) AND 0xFFFF)"

record lzf_state =
  lz_ip :: nat
  lz_op :: nat
  lz_lit :: nat
  lz_hval :: u32
  lz_htab :: "nat \<Rightarrow> u64"
  lz_out :: "u8 list"

definition lz_off :: "u64 \<Rightarrow> nat \<Rightarrow> u64 \<Rightarrow> u64" where
  "lz_off base ip ref = base + of_nat ip - ref - 1"

definition lz_test :: "u64 \<Rightarrow> u8 list \<Rightarrow> nat \<Rightarrow> u64 \<Rightarrow> bool option" where
  "lz_test base s ip ref =
    (if lz_off base ip ref < 8192 \<and> ip + 4 < length s \<and> base < ref then
       let r = unat (ref - base) in do {
       r0 \<leftarrow> array_get s r; r1 \<leftarrow> array_get s (r + 1);
       i0 \<leftarrow> array_get s ip; i1 \<leftarrow> array_get s (ip + 1);
       if r0 = i0 \<and> r1 = i1 then do {
         r2 \<leftarrow> array_get s (r + 2); i2 \<leftarrow> array_get s (ip + 2);
         Some (r2 = i2) }
       else Some False }
     else Some False)"

text \<open>The comparisons written out \<open>n\<close> times; the flag tells that one of them failed.\<close>

fun lz_unrolled :: "u8 list \<Rightarrow> nat \<Rightarrow> nat \<Rightarrow> nat \<Rightarrow> nat \<Rightarrow> (bool \<times> nat) option" where
  "lz_unrolled s r ip 0 len = Some (False, len)"
| "lz_unrolled s r ip (Suc n) len =
    (let len = len + 1 in do {
     a \<leftarrow> array_get s (r + len); b \<leftarrow> array_get s (ip + len);
     if a \<noteq> b then Some (True, len) else lz_unrolled s r ip n len })"

function lz_rest :: "u8 list \<Rightarrow> nat \<Rightarrow> nat \<Rightarrow> nat \<Rightarrow> nat \<Rightarrow> nat option" where
  "lz_rest s r ip maxlen len =
    (let len = len + 1 in
     if len < maxlen then
       (case (array_get s (r + len), array_get s (ip + len)) of
          (Some a, Some b) \<Rightarrow> if a = b then lz_rest s r ip maxlen len else Some len
        | _ \<Rightarrow> None)
     else Some len)"
  by pat_completeness auto
termination by (relation "measure (\<lambda>(s, r, ip, maxlen, len). maxlen - len)") auto

declare lz_rest.simps [simp del]

abbreviation (input) MAX_LIT :: nat where "MAX_LIT \<equiv> 32"
abbreviation (input) MAX_REF :: nat where "MAX_REF \<equiv> 264"

definition lz_match_len :: "u8 list \<Rightarrow> nat \<Rightarrow> nat \<Rightarrow> nat option" where
  "lz_match_len s r ip =
    (let maxlen = length s - ip - 2; maxlen = (if maxlen > MAX_REF then MAX_REF else maxlen) in do {
     (stop, len) \<leftarrow> (if maxlen > 16 then lz_unrolled s r ip 16 2 else Some (False, 2));
     if stop then Some len else lz_rest s r ip maxlen len })"

definition lz_stop_run :: "nat \<Rightarrow> nat \<Rightarrow> u8 list \<Rightarrow> u8 list option" where
  "lz_stop_run op lit out = (if op < lit + 1 then None else write_bytes out (op - lit - 1) [word_of_int (int lit - 1)])"

definition lz_put_ref :: "nat \<Rightarrow> u64 \<Rightarrow> nat \<Rightarrow> u8 list \<Rightarrow> (nat \<times> u8 list) option" where
  "lz_put_ref len off op out = do {
     (op, out) \<leftarrow>
       (if len < 7 then do {
          out \<leftarrow> write_bytes out op [ucast (drop_bit 8 off + push_bit 5 (of_nat len))];
          Some (op + 1, out) }
        else do {
          out \<leftarrow> write_bytes out op [ucast (drop_bit 8 off + push_bit 5 7)];
          out \<leftarrow> write_bytes out (op + 1) [of_nat (len - 7)];
          Some (op + 2, out) });
     out \<leftarrow> write_bytes out op [ucast off];
     Some (op + 1, out) }"

text \<open>The branch of a match: \<open>Inl\<close> is the return of 0; the flag tells that the loop goes on.\<close>

definition lz_found :: "u64 \<Rightarrow> u8 list \<Rightarrow> nat \<Rightarrow> u64 \<Rightarrow> lzf_state \<Rightarrow> (unit + bool \<times> lzf_state) option" where
  "lz_found base s out_len ref st =
    (let ip = lz_ip st; off = lz_off base ip ref; lit = lz_lit st; op = lz_op st in do {
     out \<leftarrow> lz_stop_run op lit (lz_out st);
     let op = (if lit = 0 then op - 1 else op) in
     if op + 3 + 1 \<ge> out_len then Some (Inl ())
     else do {
       len \<leftarrow> lz_match_len s (unat (ref - base)) ip;
       let len = len - 2; ip = ip + 1 in do {
       (op, out) \<leftarrow> lz_put_ref len off op out;
       let ip = ip + len + 1;
           st = st\<lparr>lz_ip := ip, lz_op := op + 1, lz_lit := 0, lz_out := out\<rparr> in
       if ip + 2 \<ge> length s then Some (Inr (False, st))
       else do {
         hval \<leftarrow> FRST s (ip - 2);
         hval \<leftarrow> NEXT s hval (ip - 2);
         let htab = (lz_htab st)(IDX hval := base + of_nat (ip - 2)) in do {
         hval \<leftarrow> NEXT s hval (ip - 1);
         let htab = htab(IDX hval := base + of_nat (ip - 1)) in
         Some (Inr (True, st\<lparr>lz_hval := hval, lz_htab := htab\<rparr>)) } } } } })"

text \<open>One literal byte, with the end of a run of 32.\<close>

definition lz_literal :: "u8 list \<Rightarrow> lzf_state \<Rightarrow> lzf_state option" where
  "lz_literal s st = do {
     b \<leftarrow> array_get s (lz_ip st);
     out \<leftarrow> write_bytes (lz_out st) (lz_op st) [b];
     let lit = lz_lit st + 1; op = lz_op st + 1; ip = lz_ip st + 1 in
     if lit = MAX_LIT then do {
       out \<leftarrow> lz_stop_run op lit out;
       Some (st\<lparr>lz_ip := ip, lz_op := op + 1, lz_lit := 0, lz_out := out\<rparr>) }
     else Some (st\<lparr>lz_ip := ip, lz_op := op, lz_lit := lit, lz_out := out\<rparr>) }"

definition lz_round :: "u64 \<Rightarrow> u8 list \<Rightarrow> nat \<Rightarrow> lzf_state \<Rightarrow> (unit + bool \<times> lzf_state) option" where
  "lz_round base s out_len st = do {
     hval \<leftarrow> NEXT s (lz_hval st) (lz_ip st);
     let ref = lz_htab st (IDX hval);
         st = st\<lparr>lz_hval := hval, lz_htab := (lz_htab st)(IDX hval := base + of_nat (lz_ip st))\<rparr> in do {
     found \<leftarrow> lz_test base s (lz_ip st) ref;
     if found then lz_found base s out_len ref st
     else if lz_op st \<ge> out_len then Some (Inl ())
     else do { st \<leftarrow> lz_literal s st; Some (Inr (True, st)) } } }"

lemma lz_literal_ip: "lz_literal s st = Some st' \<Longrightarrow> lz_ip st' = lz_ip st + 1"
  by (auto simp: lz_literal_def Let_def split: Option.bind_splits if_splits)

lemma lz_round_ip: "lz_round base s out_len st = Some (Inr (go, st')) \<Longrightarrow> lz_ip st < lz_ip st'"
  by (auto simp: lz_round_def lz_found_def Let_def dest!: lz_literal_ip split: Option.bind_splits if_splits)

function lz_loop :: "u64 \<Rightarrow> u8 list \<Rightarrow> nat \<Rightarrow> lzf_state \<Rightarrow> (unit + lzf_state) option" where
  "lz_loop base s out_len st =
    (if lz_ip st + 2 < length s then
       (case lz_round base s out_len st of
          None \<Rightarrow> None
        | Some (Inl _) \<Rightarrow> Some (Inl ())
        | Some (Inr (go, st')) \<Rightarrow> if go then lz_loop base s out_len st' else Some (Inr st'))
     else Some (Inr st))"
  by pat_completeness auto
termination by (relation "measure (\<lambda>(base, s, out_len, st). length s - lz_ip st)") (auto dest: lz_round_ip)

declare lz_loop.simps [simp del]

function lz_tail :: "u8 list \<Rightarrow> lzf_state \<Rightarrow> lzf_state option" where
  "lz_tail s st =
    (if lz_ip st < length s then (case lz_literal s st of None \<Rightarrow> None | Some st' \<Rightarrow> lz_tail s st') else Some st)"
  by pat_completeness auto
termination by (relation "measure (\<lambda>(s, st). length s - lz_ip st)") (auto dest: lz_literal_ip)

declare lz_tail.simps [simp del]

text \<open>\<open>htab\<close> is what the uninitialised table holds; the result is the return value with the output, which a
  failed compression leaves in an unspecified state, so that it is not returned.\<close>

definition lzf_compress :: "u64 \<Rightarrow> (nat \<Rightarrow> u64) \<Rightarrow> u8 list \<Rightarrow> nat \<Rightarrow> u8 list \<Rightarrow> (nat \<times> u8 list) option" where
  "lzf_compress base htab s out_len out =
    (if s = [] \<or> out_len = 0 then Some (0, out)
     else do {
       hval \<leftarrow> FRST s 0;
       left \<leftarrow> lz_loop base s out_len
         \<lparr>lz_ip = 0, lz_op = 1, lz_lit = 0, lz_hval = hval, lz_htab = htab, lz_out = out\<rparr>;
       (case left of
          Inl _ \<Rightarrow> Some (0, [])
        | Inr st \<Rightarrow>
            if lz_op st + 3 > out_len then Some (0, [])
            else do {
              st \<leftarrow> lz_tail s st;
              out \<leftarrow> lz_stop_run (lz_op st) (lz_lit st) (lz_out st);
              Some (if lz_lit st = 0 then lz_op st - 1 else lz_op st, out) }) })"

end
