(* ===== verification/Lzf_Format.thy ===== *)
theory Lzf_Format
  imports Lzf "HOL-Library.Sublist"
begin

text \<open>The compressed format as a sequence of tokens, and the decompressor against it.\<close>

section \<open>Tokens\<close>

text \<open>A run of literal bytes, or \<open>n\<close> bytes from \<open>d\<close> bytes back.\<close>

datatype token = Lit "u8 list" | Ref nat nat

definition next_token :: "u8 \<Rightarrow> u8 list \<Rightarrow> (token \<times> u8 list) option" where
  "next_token c cs =
    (let k = unat c in
     if k < 32 then (if k + 1 \<le> length cs then Some (Lit (take (k + 1) cs), drop (k + 1) cs) else None)
     else if k div 32 = 7 then
       (case cs of l # f # cs' \<Rightarrow> Some (Ref (unat l + 9) (k mod 32 * 256 + unat f + 1), cs') | _ \<Rightarrow> None)
     else (case cs of f # cs' \<Rightarrow> Some (Ref (k div 32 + 2) (k mod 32 * 256 + unat f + 1), cs') | [] \<Rightarrow> None))"

fun token_len :: "token \<Rightarrow> nat" where
  "token_len (Lit bs) = length bs"
| "token_len (Ref n d) = n"

fun extend :: "nat \<Rightarrow> nat \<Rightarrow> 'a list \<Rightarrow> 'a list" where
  "extend 0 d acc = acc"
| "extend (Suc n) d acc = extend n d (acc @ [acc ! (length acc - d)])"

fun produce :: "token \<Rightarrow> u8 list \<Rightarrow> u8 list option" where
  "produce (Lit bs) acc = Some (acc @ bs)"
| "produce (Ref n d) acc = (if d \<le> length acc then Some (extend n d acc) else None)"

lemma next_token_shorter: "next_token c cs = Some (t, cs') \<Longrightarrow> length cs' \<le> length cs"
  by (auto simp: next_token_def Let_def split: if_splits list.splits)

text \<open>What a compressed text stands for, after \<open>acc\<close>.\<close>

function unlzf :: "u8 list \<Rightarrow> u8 list \<Rightarrow> u8 list option" where
  "unlzf acc [] = Some acc"
| "unlzf acc (c # cs) =
    (case next_token c cs of
       None \<Rightarrow> None
     | Some (t, cs') \<Rightarrow> (case produce t acc of None \<Rightarrow> None | Some acc' \<Rightarrow> unlzf acc' cs'))"
  by pat_completeness auto
termination by (relation "measure (\<lambda>(acc, cs). length cs)") (auto dest: next_token_shorter)

declare unlzf.simps(2) [simp del]

lemma length_extend [simp]: "length (extend n d acc) = length acc + n"
  by (induction n d acc rule: extend.induct) auto

lemma length_produce: "produce t acc = Some acc' \<Longrightarrow> length acc' = length acc + token_len t"
  by (cases t) (auto split: if_splits)

lemma unlzf_grows: "unlzf acc cs = Some r \<Longrightarrow> length acc \<le> length r"
proof (induction acc cs rule: unlzf.induct)
  case (2 acc c cs)
  from "2.prems" obtain t cs' acc' where t: "next_token c cs = Some (t, cs')" "produce t acc = Some acc'" "unlzf acc' cs' = Some r"
    by (auto simp: unlzf.simps(2) split: option.splits)
  then show ?case using "2.IH" [OF t(1) refl t(2,3)] length_produce [OF t(2)] by simp
qed simp

text \<open>Texts that parse completely can be followed by more.\<close>

lemma next_token_append: "next_token c cs = Some (t, cs') \<Longrightarrow> next_token c (cs @ ds) = Some (t, cs' @ ds)"
  by (auto simp: next_token_def Let_def split: if_splits list.splits)

lemma unlzf_append: "unlzf acc cs = Some r \<Longrightarrow> unlzf acc (cs @ ds) = unlzf r ds"
proof (induction acc cs rule: unlzf.induct)
  case (2 acc c cs)
  from "2.prems" obtain t cs' acc' where t: "next_token c cs = Some (t, cs')" "produce t acc = Some acc'" "unlzf acc' cs' = Some r"
    by (auto simp: unlzf.simps(2) split: option.splits)
  then show ?case using "2.IH" [OF t(1) refl t(2,3)] by (simp add: unlzf.simps(2) next_token_append)
qed simp

section \<open>The decompressor\<close>

lemma copy_ref_extend:
  assumes "0 < d" "d \<le> length acc" "n \<le> length rest"
  shows "copy_ref n (acc @ rest) (length acc - d) (length acc) = Some (extend n d acc @ drop n rest)"
  using assms
proof (induction n arbitrary: acc rest)
  case (Suc n)
  obtain x xs where rest: "rest = x # xs" using Suc.prems(3) by (cases rest) auto
  have "length acc - d < length acc" using Suc.prems by auto
  then have b: "array_get (acc @ rest) (length acc - d) = Some (acc ! (length acc - d))"
    by (simp add: array_get_def nth_append)
  have w: "write_bytes (acc @ rest) (length acc) [acc ! (length acc - d)] = Some ((acc @ [acc ! (length acc - d)]) @ xs)"
    by (simp add: write_bytes_def rest)
  have "copy_ref n ((acc @ [acc ! (length acc - d)]) @ xs) (Suc (length acc) - d) (Suc (length acc)) =
      Some (extend n d (acc @ [acc ! (length acc - d)]) @ drop n xs)"
    using Suc.IH [of "acc @ [acc ! (length acc - d)]" xs] Suc.prems rest by simp
  moreover have "Suc (length acc - d) = Suc (length acc) - d" using Suc.prems(2) by simp
  ultimately show ?case using b w rest by simp
qed simp

lemma ctrl_bits: "drop_bit 5 (k :: nat) = k div 32" "(k AND 31 :: nat) = k mod 32" "push_bit 8 (k :: nat) = k * 256"
  using take_bit_eq_mask [of 5 k] by (simp_all add: drop_bit_eq_div push_bit_eq_mult take_bit_eq_mod mask_eq_exp_minus_1)

lemma drop_Cons_get: "drop i xs = x # ys \<Longrightarrow> i < length xs \<and> array_get xs i = Some x \<and> drop (Suc i) xs = ys"
  by (metis Cons_nth_drop_Suc array_get_in drop_all list.discI list.inject not_le)

lemma lzf_literals_token:
  assumes "drop ip data = cs" and "ip \<le> length data"
  shows "lzf_literals data ip (length acc) (acc @ rest) n = Some
    (if n \<le> length rest \<and> n \<le> length cs then Inr (ip + n, length acc + n, acc @ take n cs @ drop n rest) else Inl ())"
  using assms by (auto simp: lzf_literals_def read_bytes_def write_bytes_def)

lemma lzf_back_token:
  assumes "drop ip data = f # fs"
  shows "lzf_back data ip (length acc) (acc @ rest) len (int (length acc) - int k - 1) = Some
    (if len + 2 \<le> length rest \<and> k + unat f + 1 \<le> length acc
     then Inr (ip + 1, length acc + len + 2, extend (len + 2) (k + unat f + 1) acc @ drop (len + 2) rest) else Inl ())"
proof -
  let ?d = "k + unat f + 1"
  have "nat (int (length acc) - int k - 1 - int (unat f)) = length acc - ?d" by linarith
  moreover have "int (length acc) - int k - 1 - int (unat f) < 0 \<longleftrightarrow> \<not> ?d \<le> length acc" by linarith
  ultimately show ?thesis
    using copy_ref_extend [of ?d acc "len + 2" rest] drop_Cons_get [OF assms]
    by (simp add: lzf_back_def Let_def del: copy_ref.simps extend.simps of_nat_unat)
qed

lemma lzf_item_token:
  assumes "drop ip data = c # cs"
  shows "lzf_item data ip (length acc) (acc @ rest) = Some
    (case next_token c cs of
       None \<Rightarrow> Inl ()
     | Some (t, cs') \<Rightarrow>
        if token_len t \<le> length rest then
          (case produce t acc of None \<Rightarrow> Inl ()
           | Some acc' \<Rightarrow> Inr (length data - length cs', length acc + token_len t, acc' @ drop (token_len t) rest))
        else Inl ())"
proof -
  have c: "array_get data ip = Some c" and cs: "drop (Suc ip) data = cs" and "ip < length data"
    using drop_Cons_get [OF assms] by auto
  then have len: "length data = Suc ip + length cs" by auto
  consider "unat c < 32" | "32 \<le> unat c" "unat c div 32 \<noteq> 7" | "unat c div 32 = 7" by linarith
  then show ?thesis
  proof cases
    case 1
    then show ?thesis using c len lzf_literals_token [OF cs, of acc rest] by (simp add: lzf_item_def next_token_def Let_def)
  next
    case 2
    show ?thesis
    proof (cases cs)
      case Nil
      then show ?thesis using 2 c len by (simp add: lzf_item_def next_token_def Let_def ctrl_bits)
    next
      case (Cons f fs)
      show ?thesis
        using 2 c len Cons lzf_back_token [OF cs [unfolded Cons], where k = "unat c mod 32 * 256"]
        by (simp add: lzf_item_def next_token_def Let_def ctrl_bits)
    qed
  next
    case 3
    then have ge: "\<not> unat c < 32" by auto
    show ?thesis
    proof (cases cs)
      case Nil
      then show ?thesis using 3 ge c len by (simp add: lzf_item_def next_token_def Let_def ctrl_bits)
    next
      case l: (Cons l ls)
      note gl = drop_Cons_get [OF cs [unfolded l]]
      show ?thesis
      proof (cases ls)
        case Nil
        then show ?thesis using 3 ge c len l gl by (simp add: lzf_item_def next_token_def Let_def ctrl_bits)
      next
        case (Cons f fs)
        have "drop (Suc (Suc ip)) data = f # fs" using gl Cons by simp
        from lzf_back_token [OF this, where k = "unat c mod 32 * 256"]
        show ?thesis
          using 3 ge c len l gl Cons by (simp add: lzf_item_def next_token_def Let_def ctrl_bits add.commute)
      qed
    qed
  qed
qed

text \<open>The whole loop: its answer for the text \<open>u\<close> stands for, when the output has room for \<open>room\<close> bytes.\<close>

definition lzf_answer :: "nat \<Rightarrow> u8 list option \<Rightarrow> (nat \<times> u8 list) option \<Rightarrow> bool" where
  "lzf_answer room u res \<longleftrightarrow> (\<exists>n out. res = Some (n, out) \<and> length out = room \<and>
    (case u of
       None \<Rightarrow> n = 0
     | Some r \<Rightarrow> if length r \<le> room then n = length r \<and> take n out = r else n = 0))"

lemma lzf_answer_zero: "(\<And>r. u = Some r \<Longrightarrow> room < length r) \<Longrightarrow> length out = room \<Longrightarrow> lzf_answer room u (Some (0, out))"
  by (auto simp: lzf_answer_def split: option.splits)

lemma lzf_answer_None: "length out = room \<Longrightarrow> lzf_answer room None (Some (0, out))"
  by (simp add: lzf_answer_def)

lemma lzf_items_unlzf:
  assumes "drop ip data = cs" and "cs \<noteq> []"
  shows "lzf_answer (length acc + length rest) (unlzf acc cs) (lzf_items data ip (length acc) (acc @ rest))"
  using assms
proof (induction acc cs arbitrary: ip rest rule: unlzf.induct)
  case (2 acc c cs)
  have len: "length data = Suc ip + length cs"
    using drop_Cons_get [OF "2.prems"(1)] by auto
  note item = lzf_item_token [OF "2.prems"(1), of acc rest]
  note loop = lzf_items.simps [of data ip "length acc" "acc @ rest"]
  show ?case
  proof (cases "next_token c cs")
    case None
    then show ?thesis using loop item by (simp add: unlzf.simps(2) lzf_answer_None)
  next
    case (Some p)
    obtain t cs' where p: "p = (t, cs')" by (cases p)
    note tok = Some [unfolded p]
    show ?thesis
    proof (cases "produce t acc")
      case None
      then show ?thesis using loop item tok by (simp add: unlzf.simps(2) lzf_answer_None)
    next
      case acc': (Some acc')
      note la = length_produce [OF acc']
      have u: "unlzf acc (c # cs) = unlzf acc' cs'" using tok acc' by (simp add: unlzf.simps(2))
      show ?thesis
      proof (cases "token_len t \<le> length rest")
        case False
        then show ?thesis
          using loop item tok acc' la unlzf_grows [of acc' cs'] by (auto simp: u intro!: lzf_answer_zero)
      next
        case fits: True
        let ?ip = "length data - length cs'"
        have ip: "drop ?ip data = cs'"
        proof -
          have "suffix cs' cs" using tok
            by (auto simp: next_token_def Let_def suffix_drop suffix_def split: if_splits list.splits)
              (metis append_take_drop_id)
          then obtain xs where "cs = xs @ cs'" by (auto simp: suffix_def)
          moreover have "data = take ip data @ c # cs" using "2.prems"(1) append_take_drop_id [of ip data] by simp
          ultimately have "data = (take ip data @ c # xs) @ cs'" by simp
          then show ?thesis by (metis append_eq_conv_conj diff_add_inverse2 length_append)
        qed
        have sh: "length cs' \<le> length cs" by (rule next_token_shorter [OF tok])
        show ?thesis
        proof (cases "cs' = []")
          case True
          then show ?thesis using loop item tok acc' la fits u len by (simp add: lzf_answer_def)
        next
          case False
          have "lzf_answer (length acc' + length (drop (token_len t) rest)) (unlzf acc' cs')
              (lzf_items data ?ip (length acc') (acc' @ drop (token_len t) rest))"
            using tok acc' ip False by (intro "2.IH") simp_all
          then show ?thesis using loop item tok acc' la fits u len False sh by simp
        qed
      qed
    qed
  qed
qed simp

lemma lzf_decompress_answer:
  "data \<noteq> [] \<Longrightarrow> lzf_answer (length out) (unlzf [] data) (lzf_decompress data out)"
  using lzf_items_unlzf [of 0 data data "[]" out] by (simp add: lzf_decompress_def)

end
