(* ===== verification/Lzf_Compress.thy ===== *)
theory Lzf_Compress
  imports Lzf_Format
begin

text \<open>The compressor writes a text that stands for its input, inside its buffer and one byte more.\<close>

section \<open>Writing tokens\<close>

lemma write_one: "write_bytes m i [b] = (if i < length m then Some (m[i := b]) else None)"
  by (simp add: write_bytes_def upd_conv_take_nth_drop)

lemma unlzf_literals:
  assumes "0 < length bs" "length bs \<le> 32"
  shows "unlzf acc (word_of_int (int (length bs) - 1) # bs) = Some (acc @ bs)"
proof -
  have "word_of_int (int (length bs) - 1) = (of_nat (length bs - 1) :: u8)"
  proof -
    have "int (length bs) - 1 = int (length bs - 1)" using assms(1) by linarith
    then show ?thesis by (simp only: of_int_of_nat_eq)
  qed
  then have "unat (word_of_int (int (length bs) - 1) :: u8) = length bs - 1"
    using assms(2) by (simp add: unat_of_nat)
  moreover have "length bs - 1 < 32" "length bs - 1 + 1 = length bs" using assms by arith+
  ultimately show ?thesis by (simp add: unlzf.simps(2) next_token_def Let_def)
qed

definition ref_bytes :: "nat \<Rightarrow> u64 \<Rightarrow> u8 list" where
  "ref_bytes len off =
    (if len < 7 then [ucast (drop_bit 8 off + push_bit 5 (of_nat len))]
     else [ucast (drop_bit 8 off + push_bit 5 7), of_nat (len - 7)]) @ [ucast off]"

lemma unat_ucast_of_nat: "n < 256 \<Longrightarrow> unat (ucast (of_nat n :: u64) :: u8) = n"
  by (simp add: unsigned_ucast_eq unat_of_nat take_bit_nat_eq_self)

lemma unat_ctrl:
  assumes "off < (8192 :: u64)" "len < 8"
  shows "unat (ucast (drop_bit 8 off + push_bit 5 (of_nat len)) :: u8) = unat off div 256 + 32 * len"
proof -
  have o: "unat off < 8192" using assms(1) by (simp add: word_less_nat_alt)
  have u: "unat (drop_bit 8 off) = unat off div 256" by (simp add: unat_drop_bit_div)
  have "drop_bit 8 off = of_nat (unat (drop_bit 8 off))" by simp
  then have "drop_bit 8 off = of_nat (unat off div 256)" by (simp only: u)
  moreover have "push_bit 5 (of_nat len) = (of_nat (32 * len) :: u64)" by (simp add: push_bit_eq_mult mult.commute)
  ultimately have "drop_bit 8 off + push_bit 5 (of_nat len) = of_nat (unat off div 256 + 32 * len)" by simp
  moreover have "unat off div 256 + 32 * len < 256" using o assms(2) by linarith
  ultimately show ?thesis using unat_ucast_of_nat by presburger
qed

lemma unlzf_ref:
  assumes "off < (8192 :: u64)" "1 \<le> len" "len \<le> 262" "unat off < length acc"
  shows "unlzf acc (ref_bytes len off) = Some (extend (len + 2) (unat off + 1) acc)"
proof -
  have o: "unat off < 8192" using assms(1) by (simp add: word_less_nat_alt)
  have f: "unat (ucast off :: u8) = unat off mod 256" by (simp add: unsigned_ucast_eq take_bit_eq_mod)
  show ?thesis
  proof (cases "len < 7")
    case True
    let ?k = "unat off div 256 + 32 * len"
    have c: "unat (ucast (drop_bit 8 off + push_bit 5 (of_nat len)) :: u8) = ?k" using True by (intro unat_ctrl assms(1)) simp
    have "\<not> ?k < 32" "?k div 32 = len" "?k mod 32 = unat off div 256" using o assms(2) by auto
    then show ?thesis using True f assms(4)
      by (simp add: ref_bytes_def unlzf.simps(2) next_token_def Let_def c)
  next
    case False
    let ?k = "unat off div 256 + 32 * 7"
    have "push_bit 5 (of_nat 7) = (push_bit 5 7 :: u64)" by simp
    then have c: "unat (ucast (drop_bit 8 off + push_bit 5 7) :: u8) = ?k" using unat_ctrl [OF assms(1), of 7] by simp
    have "unat off div 256 < 32" using o by linarith
    then have "\<not> ?k < 32" "?k div 32 = 7" "?k mod 32 = unat off div 256"
      using mod_mult_self2 [of "unat off div 256" 32 7] by auto
    moreover have "unat (of_nat (len - 7) :: u8) = len - 7" using assms(3) by (simp add: unat_of_nat)
    ultimately have "next_token (ucast (drop_bit 8 off + push_bit 5 7)) [of_nat (len - 7), ucast off] =
        Some (Ref (len - 7 + 9) (unat off div 256 * 256 + unat off mod 256 + 1), [])"
      unfolding next_token_def Let_def c by (simp add: f)
    moreover have "len - 7 + 9 = len + 2" "unat off div 256 * 256 + unat off mod 256 + 1 = unat off + 1" using False by simp_all
    ultimately have "next_token (ucast (drop_bit 8 off + push_bit 5 7)) [of_nat (len - 7), ucast off] =
        Some (Ref (len + 2) (unat off + 1), [])" by (simp only:)
    moreover have "ref_bytes len off = ucast (drop_bit 8 off + push_bit 5 7) # [of_nat (len - 7), ucast off]"
      unfolding ref_bytes_def using False by (simp only: if_False append.simps)
    ultimately show ?thesis using assms(4) by (simp only: unlzf.simps option.case prod.case produce.simps) simp
  qed
qed

section \<open>Matching\<close>

lemma extend_match:
  assumes "d \<le> ip" "0 < d" "ip + n \<le> length s" "\<And>k. k < n \<Longrightarrow> s ! (ip - d + k) = s ! (ip + k)"
  shows "extend n d (take ip s) = take (ip + n) s"
  using assms
proof (induction n arbitrary: ip)
  case (Suc n)
  have "take ip s ! (ip - d) = s ! ip" using Suc.prems(4) [of 0] Suc.prems(1-3) by simp
  then have "take ip s @ [take ip s ! (length (take ip s) - d)] = take (Suc ip) s"
    using Suc.prems(3) by (simp add: take_Suc_conv_app_nth)
  moreover have "extend n d (take (Suc ip) s) = take (Suc ip + n) s"
  proof (rule Suc.IH)
    show "s ! (Suc ip - d + k) = s ! (Suc ip + k)" if "k < n" for k
      using Suc.prems(4) [of "Suc k"] Suc.prems(1) that by (simp add: Suc_diff_le)
  qed (use Suc.prems in auto)
  ultimately show ?case by simp
qed simp

abbreviation (input) agree :: "'a list \<Rightarrow> nat \<Rightarrow> nat \<Rightarrow> nat \<Rightarrow> bool" where
  "agree s r ip len \<equiv> \<forall>k < len. s ! (r + k) = s ! (ip + k)"

lemma lz_unrolled_agree:
  assumes "r < ip" "ip + len + n < length s" "agree s r ip (len + 1)"
  shows "\<exists>stop len'. lz_unrolled s r ip n len = Some (stop, len') \<and> len \<le> len' \<and> len' \<le> len + n \<and>
    agree s r ip (if stop then len' else len' + 1) \<and> (stop \<longrightarrow> len < len') \<and> (\<not> stop \<longrightarrow> len' = len + n)"
  using assms
proof (induction n arbitrary: len)
  case (Suc n)
  have g: "array_get s (r + (len + 1)) = Some (s ! (r + (len + 1)))" "array_get s (ip + (len + 1)) = Some (s ! (ip + (len + 1)))"
    using Suc.prems by simp_all
  show ?case
  proof (cases "s ! (r + (len + 1)) = s ! (ip + (len + 1))")
    case False
    then show ?thesis using g Suc.prems(3) by (intro exI [of _ True] exI [of _ "len + 1"]) (simp add: Let_def)
  next
    case True
    then have "agree s r ip (Suc len + 1)" using Suc.prems(3) by (auto simp: less_Suc_eq)
    from Suc.IH [OF Suc.prems(1) _ this] Suc.prems(2) obtain stop len' where
      "lz_unrolled s r ip n (Suc len) = Some (stop, len')" "Suc len \<le> len'" "len' \<le> Suc len + n"
      "agree s r ip (if stop then len' else len' + 1)" "stop \<longrightarrow> Suc len < len'" "\<not> stop \<longrightarrow> len' = Suc len + n" by auto
    then show ?thesis using g True by (auto simp: Let_def)
  qed
next
  case 0
  then show ?case by (intro exI [of _ False]) simp
qed

lemma lz_rest_agree:
  assumes "r < ip" "ip + maxlen \<le> length s" "ip + len + 1 \<le> length s" "agree s r ip (len + 1)"
  shows "\<exists>len'. lz_rest s r ip maxlen len = Some len' \<and> len < len' \<and> (len' \<le> maxlen \<or> len' = len + 1) \<and> agree s r ip len'"
  using assms
proof (induction s r ip maxlen len rule: lz_rest.induct)
  case (1 s r ip maxlen len)
  show ?case
  proof (cases "len + 1 < maxlen")
    case False
    then show ?thesis using "1.prems" by (subst lz_rest.simps) auto
  next
    case lt: True
    have g: "array_get s (r + (len + 1)) = Some (s ! (r + (len + 1)))" "array_get s (ip + (len + 1)) = Some (s ! (ip + (len + 1)))"
      using "1.prems" lt by simp_all
    show ?thesis
    proof (cases "s ! (r + (len + 1)) = s ! (ip + (len + 1))")
      case False
      then show ?thesis using "1.prems" g lt by (subst lz_rest.simps) (auto simp: Let_def)
    next
      case True
      then have "agree s r ip (len + 1 + 1)" using "1.prems"(4) by (auto simp: less_Suc_eq)
      then obtain len' where "lz_rest s r ip maxlen (len + 1) = Some len'" "len + 1 < len'"
          "len' \<le> maxlen \<or> len' = len + 1 + 1" "agree s r ip len'"
        using "1.IH" [OF refl lt refl g True] "1.prems"(1,2) lt by auto
      then show ?thesis using g True lt by (subst lz_rest.simps) (auto simp: Let_def)
    qed
  qed
qed

lemma lz_match_len_agree:
  assumes "r < ip" "ip + 4 < length s" "agree s r ip 3"
  shows "\<exists>len. lz_match_len s r ip = Some len \<and> 3 \<le> len \<and> len \<le> 264 \<and> ip + len \<le> length s \<and> agree s r ip len"
proof -
  define m where "m = (if length s - ip - 2 > 264 then 264 else length s - ip - 2)"
  have m: "ip + m + 2 \<le> length s" "3 \<le> m" "m \<le> 264" using assms(2) by (auto simp: m_def)
  have e: "lz_match_len s r ip = do {
     (stop, len) \<leftarrow> (if m > 16 then lz_unrolled s r ip 16 2 else Some (False, 2));
     if stop then Some len else lz_rest s r ip m len }"
    unfolding lz_match_len_def Let_def m_def by (rule refl)
  show ?thesis
  proof (cases "m > 16")
    case False
    have "\<exists>len'. lz_rest s r ip m 2 = Some len' \<and> 2 < len' \<and> (len' \<le> m \<or> len' = 2 + 1) \<and> agree s r ip len'"
      using assms m by (intro lz_rest_agree) auto
    then show ?thesis using e False m by auto
  next
    case True
    obtain stop len where u: "lz_unrolled s r ip 16 2 = Some (stop, len)" "2 \<le> len" "len \<le> 2 + 16"
        "agree s r ip (if stop then len else len + 1)" "stop \<longrightarrow> 2 < len" "\<not> stop \<longrightarrow> len = 2 + 16"
      using lz_unrolled_agree [of r ip 2 16 s] assms m True by auto
    show ?thesis
    proof (cases stop)
      case True
      then show ?thesis using e u m \<open>m > 16\<close> by (auto intro: exI [of _ len])
    next
      case False
      have "\<exists>len'. lz_rest s r ip m len = Some len' \<and> len < len' \<and> (len' \<le> m \<or> len' = len + 1) \<and> agree s r ip len'"
        using assms m u False True by (intro lz_rest_agree) auto
      then obtain len' where "lz_rest s r ip m len = Some len'" "len < len'" "len' \<le> m \<or> len' = len + 1" "agree s r ip len'" by blast
      then show ?thesis using e u m False True by (auto intro!: exI [of _ len'])
    qed
  qed
qed

section \<open>The state between tokens\<close>

text \<open>The output is a complete text \<open>enc\<close> for the input consumed before the current run, the byte reserved for
  the header of the run, and the literals of the run.\<close>

definition lz_rep :: "u8 list \<Rightarrow> lzf_state \<Rightarrow> u8 list \<Rightarrow> u8 \<Rightarrow> u8 list \<Rightarrow> u8 list \<Rightarrow> u8 list \<Rightarrow> bool" where
  "lz_rep s st enc h lits rest acc \<longleftrightarrow>
    lz_out st = enc @ h # lits @ rest \<and> lz_lit st = length lits \<and> lz_op st = length enc + 1 + length lits \<and>
    unlzf [] enc = Some acc \<and> take (lz_ip st) s = acc @ lits \<and> lz_ip st \<le> length s \<and> length lits < MAX_LIT"

definition lz_inv :: "u8 list \<Rightarrow> nat \<Rightarrow> nat \<Rightarrow> lzf_state \<Rightarrow> bool" where
  "lz_inv s out_len cap st \<longleftrightarrow>
    (\<exists>enc h lits rest acc. lz_rep s st enc h lits rest acc) \<and> length (lz_out st) = cap \<and> out_len < cap \<and>
    (lz_op st \<le> out_len \<or> lz_op st = out_len + 1 \<and> lz_lit st = 0)"

text \<open>The output is at most one byte longer for every 32 bytes of input, so that a buffer of \<open>ample\<close> size is never
  exhausted.\<close>

definition lz_tight :: "lzf_state \<Rightarrow> bool" where
  "lz_tight st \<longleftrightarrow> 32 * (int (lz_op st) - 1 - int (lz_ip st)) \<le> int (lz_ip st) - int (lz_lit st)"

definition ample :: "u8 list \<Rightarrow> nat \<Rightarrow> bool" where
  "ample s out_len \<longleftrightarrow> length s + length s div 32 + 4 \<le> out_len"

lemma lz_tight_room:
  assumes "lz_tight st" "ample s out_len" "lz_ip st \<le> length s"
  shows "lz_op st + 3 \<le> out_len" "lz_ip st + 4 < length s \<Longrightarrow> lz_op st + 4 < out_len"
proof -
  let ?e = "int (lz_op st) - 1 - int (lz_ip st)"
  have "32 * ?e \<le> int (length s)" using assms(1,3) unfolding lz_tight_def by linarith
  then have "32 * ?e div 32 \<le> int (length s) div 32" by (rule zdiv_mono1) simp
  then have "?e \<le> int (length s div 32)" by (simp add: zdiv_int)
  then show "lz_op st + 3 \<le> out_len" "lz_ip st + 4 < length s \<Longrightarrow> lz_op st + 4 < out_len"
    using assms(2,3) unfolding ample_def by linarith+
qed

lemma lz_invE:
  assumes "lz_inv s out_len cap st"
  obtains enc h lits rest acc where "lz_out st = enc @ h # lits @ rest" "lz_lit st = length lits"
    "lz_op st = length enc + 1 + length lits" "unlzf [] enc = Some acc" "take (lz_ip st) s = acc @ lits"
    "lz_ip st \<le> length s" "length lits < MAX_LIT" "length (lz_out st) = cap" "out_len < cap"
    "lz_op st \<le> out_len \<or> lz_op st = out_len + 1 \<and> lz_lit st = 0"
  using assms unfolding lz_inv_def lz_rep_def by blast

lemma lz_invI:
  assumes "lz_out st = enc @ h # lits @ rest" "lz_lit st = length lits" "lz_op st = length enc + 1 + length lits"
    "unlzf [] enc = Some acc" "take (lz_ip st) s = acc @ lits" "lz_ip st \<le> length s" "length lits < MAX_LIT"
    "length (lz_out st) = cap" "out_len < cap" "lz_op st \<le> out_len \<or> lz_op st = out_len + 1 \<and> lz_lit st = 0"
  shows "lz_inv s out_len cap st"
  using assms unfolding lz_inv_def lz_rep_def by blast

lemma lz_stop_run_ok:
  assumes "out = enc @ h # lits @ rest" "lit = length lits" "op = length enc + 1 + length lits"
  shows "lz_stop_run op lit out = Some (enc @ word_of_int (int lit - 1) # lits @ rest)"
  using assms by (simp add: lz_stop_run_def write_one list_update_append)

lemma lz_literal_ok:
  assumes inv: "lz_inv s out_len cap st" and ip: "lz_ip st < length s" and op: "lz_op st < out_len"
  shows "\<exists>st'. lz_literal s st = Some st' \<and> lz_inv s out_len cap st' \<and> lz_ip st' = lz_ip st + 1 \<and>
    (if lz_lit st + 1 = MAX_LIT then lz_op st' = lz_op st + 2 \<and> lz_lit st' = 0
     else lz_op st' = lz_op st + 1 \<and> lz_lit st' = lz_lit st + 1)"
proof -
  obtain enc h lits rest acc where r: "lz_out st = enc @ h # lits @ rest" "lz_lit st = length lits"
    "lz_op st = length enc + 1 + length lits" "unlzf [] enc = Some acc" "take (lz_ip st) s = acc @ lits"
    "lz_ip st \<le> length s" "length lits < MAX_LIT" "length (lz_out st) = cap" "out_len < cap"
    using lz_invE [OF inv] by metis
  let ?b = "s ! lz_ip st"
  have "2 \<le> length rest" using r(1,3,8,9) op by simp
  then obtain x y rest' where rest: "rest = x # y # rest'" by (cases rest rule: list.exhaust [case_product list.exhaust]) (auto simp: Suc_le_eq neq_Nil_conv)
  have w: "write_bytes (lz_out st) (lz_op st) [?b] = Some (enc @ h # (lits @ [?b]) @ y # rest')"
    by (simp add: write_one r(1,3) rest list_update_append)
  have t: "take (lz_ip st + 1) s = acc @ (lits @ [?b])" using r(5) ip by (simp add: take_Suc_conv_app_nth)
  show ?thesis
  proof (cases "lz_lit st + 1 = MAX_LIT")
    case False
    define st' where "st' = st\<lparr>lz_ip := lz_ip st + 1, lz_op := lz_op st + 1, lz_lit := lz_lit st + 1,
      lz_out := enc @ h # (lits @ [?b]) @ y # rest'\<rparr>"
    have "lz_literal s st = Some st'" using ip w False by (simp add: lz_literal_def Let_def st'_def)
    moreover have "lz_inv s out_len cap st'"
      by (rule lz_invI [where enc = enc and h = h and lits = "lits @ [?b]" and rest = "y # rest'" and acc = acc])
        (use r ip op t rest False in \<open>auto simp: st'_def\<close>)
    ultimately show ?thesis using False by (simp add: st'_def)
  next
    case True
    let ?c = "word_of_int (int (length (lits @ [?b])) - 1) :: u8"
    have stop: "lz_stop_run (lz_op st + 1) (lz_lit st + 1) (enc @ h # (lits @ [?b]) @ y # rest') =
        Some (enc @ ?c # (lits @ [?b]) @ y # rest')"
      using lz_stop_run_ok [of _ enc h "lits @ [?b]" "y # rest'"] r(2,3) by simp
    define st' where "st' = st\<lparr>lz_ip := lz_ip st + 1, lz_op := lz_op st + 2, lz_lit := 0,
      lz_out := enc @ ?c # (lits @ [?b]) @ y # rest'\<rparr>"
    have "lz_literal s st = Some st'" using ip w True stop by (simp add: lz_literal_def Let_def st'_def)
    moreover have "unlzf [] (enc @ ?c # (lits @ [?b])) = Some (acc @ lits @ [?b])"
      using unlzf_append [OF r(4)] unlzf_literals [of "lits @ [?b]" acc] True r(2) by simp
    then have "lz_inv s out_len cap st'"
      by (intro lz_invI [where enc = "enc @ ?c # (lits @ [?b])" and h = y and lits = "[]" and rest = rest' and acc = "acc @ lits @ [?b]"])
        (use r ip op t rest True in \<open>auto simp: st'_def\<close>)
    ultimately show ?thesis using True by (simp add: st'_def)
  qed
qed

text \<open>The end of a run, with the header taken back when the run is empty.\<close>

lemma lz_close:
  assumes "lz_inv s out_len cap st"
  shows "\<exists>enc rest. lz_stop_run (lz_op st) (lz_lit st) (lz_out st) = Some (enc @ rest) \<and>
    length enc = (if lz_lit st = 0 then lz_op st - 1 else lz_op st) \<and> length (enc @ rest) = cap \<and>
    unlzf [] enc = Some (take (lz_ip st) s)"
proof -
  obtain enc h lits rest acc where r: "lz_out st = enc @ h # lits @ rest" "lz_lit st = length lits"
    "lz_op st = length enc + 1 + length lits" "unlzf [] enc = Some acc" "take (lz_ip st) s = acc @ lits"
    "length lits < MAX_LIT" "length (lz_out st) = cap"
    using lz_invE [OF assms] by metis
  let ?c = "word_of_int (int (length lits) - 1) :: u8"
  have stop: "lz_stop_run (lz_op st) (lz_lit st) (lz_out st) = Some (enc @ ?c # lits @ rest)"
    using lz_stop_run_ok [OF r(1-3)] r(2) by simp
  show ?thesis
  proof (cases "lits = []")
    case True
    then show ?thesis using stop r by (intro exI [of _ enc] exI [of _ "?c # rest"]) simp
  next
    case False
    then have "unlzf [] (enc @ ?c # lits) = Some (acc @ lits)"
      using unlzf_append [OF r(4)] unlzf_literals [of lits acc] r(6) by simp
    then show ?thesis using stop r False by (intro exI [of _ "enc @ ?c # lits"] exI [of _ rest]) simp
  qed
qed

section \<open>A match\<close>

text \<open>The input lies above the first 8192 addresses and does not wrap around the address space.\<close>

definition placed :: "u64 \<Rightarrow> u8 list \<Rightarrow> bool" where
  "placed base s \<longleftrightarrow> 8192 \<le> unat base \<and> unat base + length s < 2 ^ 64"

lemma lz_off_position:
  assumes "placed base s" "ip < length s" "lz_off base ip ref < 8192" "base < ref"
  shows "unat (ref - base) + 1 + unat (lz_off base ip ref) = ip \<and> 0 < unat (ref - base)"
proof -
  let ?x = "base + of_nat ip :: u64" and ?y = "lz_off base ip ref + 1"
  have b: "8192 \<le> unat base" "unat base + ip < 2 ^ 64" using assms(1,2) by (auto simp: placed_def)
  have ipw: "unat (of_nat ip :: u64) = ip" using b by (simp add: unat_of_nat)
  have x: "unat ?x = unat base + ip" using unat_add_lem [of base "of_nat ip"] b ipw by simp
  have o: "unat (lz_off base ip ref) < 8192" using assms(3) by (simp add: word_less_nat_alt)
  then have y: "unat ?y = unat (lz_off base ip ref) + 1" using unat_add_lem [of "lz_off base ip ref" 1] by simp
  have ref: "ref = ?x - ?y" by (simp add: lz_off_def algebra_simps)
  have "?y \<le> ?x" using x y o b by (simp add: word_le_nat_alt)
  then have "unat (?x - ?y) = unat base + ip - (unat (lz_off base ip ref) + 1)" by (simp only: unat_sub x y)
  then have r: "unat ref = unat base + ip - (unat (lz_off base ip ref) + 1)" by (simp only: ref [symmetric])
  have lt: "unat base < unat ref" using assms(4) by (simp add: word_less_nat_alt)
  then have "unat (ref - base) = unat ref - unat base" using assms(4) by (intro unat_sub) simp
  then show ?thesis using r lt o b by linarith
qed

lemma lz_test_ok:
  assumes "placed base s" "ip + 2 < length s"
  shows "\<exists>found. lz_test base s ip ref = Some found \<and>
    (found \<longrightarrow> (let r = unat (ref - base) in lz_off base ip ref < 8192 \<and> ip + 4 < length s \<and>
      r + 1 + unat (lz_off base ip ref) = ip \<and> agree s r ip 3))"
proof (cases "lz_off base ip ref < 8192 \<and> ip + 4 < length s \<and> base < ref")
  case True
  have p: "unat (ref - base) + 1 + unat (lz_off base ip ref) = ip"
    using lz_off_position [OF assms(1) _ _ , of ip ref] True by simp
  define r where "r = unat (ref - base)"
  have "r < ip" using p by (simp add: r_def)
  then have "lz_test base s ip ref = Some (s ! r = s ! ip \<and> s ! (r + 1) = s ! (ip + 1) \<and> s ! (r + 2) = s ! (ip + 2))"
    using True by (auto simp: lz_test_def r_def [symmetric] Let_def)
  moreover have "agree s r ip 3" if "s ! r = s ! ip" "s ! (r + 1) = s ! (ip + 1)" "s ! (r + 2) = s ! (ip + 2)"
    using that by (auto simp: numeral_3_eq_3 less_Suc_eq)
  ultimately show ?thesis using True p by (auto simp: Let_def r_def [symmetric])
next
  case False
  then show ?thesis by (auto simp: lz_test_def)
qed

lemma lz_put_ref_ok:
  assumes "out = enc @ rest" "op = length enc" "3 < length rest" "len \<le> 262"
  shows "\<exists>h rest'. lz_put_ref len off op out = Some (op + length (ref_bytes len off), enc @ ref_bytes len off @ h # rest') \<and>
    length (enc @ ref_bytes len off @ h # rest') = length out"
proof -
  have "Suc (Suc (Suc (Suc 0))) \<le> length rest" using assms(3) by simp
  then obtain a b c d rest' where rest: "rest = a # b # c # d # rest'" by (auto simp: Suc_le_length_iff)
  show ?thesis
    using assms by (cases "len < 7") (simp_all add: rest lz_put_ref_def write_one list_update_append ref_bytes_def)
qed

lemma lz_found_ok:
  assumes inv: "lz_inv s out_len cap st" and ip: "lz_ip st + 4 < length s"
    and off: "lz_off base (lz_ip st) ref < 8192" "unat (ref - base) + 1 + unat (lz_off base (lz_ip st) ref) = lz_ip st"
    and ag: "agree s (unat (ref - base)) (lz_ip st) 3"
  shows "\<exists>res. lz_found base s out_len ref st = Some res \<and> (isl res \<longrightarrow> out_len \<le> lz_op st + 4) \<and>
    (\<forall>go st'. res = Inr (go, st') \<longrightarrow>
    lz_inv s out_len cap st' \<and> (\<not> go \<longrightarrow> length s \<le> lz_ip st' + 2) \<and> (lz_tight st \<longrightarrow> lz_tight st'))"
proof -
  let ?ip = "lz_ip st" and ?r = "unat (ref - base)" and ?o = "lz_off base (lz_ip st) ref"
  obtain enc rest where close: "lz_stop_run (lz_op st) (lz_lit st) (lz_out st) = Some (enc @ rest)"
    "length enc = (if lz_lit st = 0 then lz_op st - 1 else lz_op st)" "length (enc @ rest) = cap"
    "unlzf [] enc = Some (take ?ip s)" using lz_close [OF inv] by blast
  have cap: "out_len < cap" using inv by (simp add: lz_inv_def)
  define op where "op = (if lz_lit st = 0 then lz_op st - 1 else lz_op st)"
  have op: "op = length enc" using close(2) by (simp add: op_def)
  show ?thesis
  proof (cases "op + 3 + 1 \<ge> out_len")
    case True
    moreover have "op \<le> lz_op st" by (simp add: op_def)
    ultimately show ?thesis using close(1) by (simp add: lz_found_def Let_def op_def [symmetric])
  next
    case room: False
    obtain len where len: "lz_match_len s ?r ?ip = Some len" "3 \<le> len" "len \<le> 264" "?ip + len \<le> length s" "agree s ?r ?ip len"
      using lz_match_len_agree [OF _ ip ag] off(2) by auto
    let ?bs = "ref_bytes (len - 2) ?o"
    have lr: "3 < length rest" and l2: "len - 2 \<le> 262" using close(3) room len(3) cap op by simp_all
    obtain h rest' where put: "lz_put_ref (len - 2) ?o op (enc @ rest) = Some (op + length ?bs, enc @ ?bs @ h # rest')"
      "length (enc @ ?bs @ h # rest') = cap"
      using lz_put_ref_ok [OF refl op lr l2, of ?o] close(3) by metis
    have lb: "length ?bs \<le> 3" by (simp add: ref_bytes_def)
    have "unlzf (take ?ip s) ?bs = Some (extend (len - 2 + 2) (unat ?o + 1) (take ?ip s))"
      using off len ip by (intro unlzf_ref) auto
    also have "extend (len - 2 + 2) (unat ?o + 1) (take ?ip s) = take (?ip + len) s"
    proof -
      have "?ip - (unat ?o + 1) = ?r" using off(2) by linarith
      then have "extend len (unat ?o + 1) (take ?ip s) = take (?ip + len) s"
        using len(4,5) off(2) by (intro extend_match) auto
      moreover have "len - 2 + 2 = len" using len(2) by simp
      ultimately show ?thesis by (simp only:)
    qed
    finally have dec: "unlzf [] (enc @ ?bs) = Some (take (?ip + len) s)" using unlzf_append [OF close(4)] by simp
    define st1 where "st1 = st\<lparr>lz_ip := ?ip + len, lz_op := op + length ?bs + 1, lz_lit := 0, lz_out := enc @ ?bs @ h # rest'\<rparr>"
    have inv1: "lz_inv s out_len cap (st1\<lparr>lz_hval := hv, lz_htab := ht\<rparr>)" for hv ht
      by (rule lz_invI [where enc = "enc @ ?bs" and h = h and lits = "[]" and rest = rest' and acc = "take (?ip + len) s"])
        (use put(2) dec len(4) room cap op lb in \<open>auto simp: st1_def\<close>)
    have inv1': "lz_inv s out_len cap st1"
      using inv1 [where hv = "lz_hval st1" and ht = "lz_htab st1"] by simp
    have tight: "lz_tight (st1\<lparr>lz_hval := hv, lz_htab := ht\<rparr>)" if "lz_tight st" for hv ht
    proof -
      have "length ?bs + 1 \<le> len" using len(2) by (auto simp: ref_bytes_def)
      moreover have "op \<le> lz_op st" by (simp add: op_def)
      ultimately show ?thesis using that unfolding lz_tight_def by (simp add: st1_def)
    qed
    have tight': "lz_tight st1" if "lz_tight st"
      using tight [OF that, where hv = "lz_hval st1" and ht = "lz_htab st1"] by simp
    have ips: "2 \<le> len" "Suc (?ip + len - 2) = ?ip + len - Suc 0" "Suc (?ip + len - Suc 0) = ?ip + len" using len(2) by simp_all
    have found: "lz_found base s out_len ref st =
      (if ?ip + len + 2 \<ge> length s then Some (Inr (False, st1))
       else do {
         hval \<leftarrow> FRST s (?ip + len - 2);
         hval \<leftarrow> NEXT s hval (?ip + len - 2);
         let htab = (lz_htab st1)(IDX hval := base + of_nat (?ip + len - 2)) in do {
         hval \<leftarrow> NEXT s hval (?ip + len - 1);
         let htab = htab(IDX hval := base + of_nat (?ip + len - 1)) in
         Some (Inr (True, st1\<lparr>lz_hval := hval, lz_htab := htab\<rparr>)) } })"
      unfolding lz_found_def Let_def close(1) using room put(1) len(1)
      by (simp add: op_def [symmetric] ips st1_def del: of_nat_Suc of_nat_add)
    show ?thesis
    proof (cases "?ip + len + 2 \<ge> length s")
      case True
      then show ?thesis using found inv1' tight' by (simp add: st1_def)
    next
      case False
      obtain v0 where v0: "FRST s (?ip + len - 2) = Some v0" using False len(2) by (simp add: FRST_def)
      obtain v1 where v1: "NEXT s v0 (?ip + len - 2) = Some v1" using False len(2) by (simp add: NEXT_def)
      obtain v2 where v2: "NEXT s v1 (?ip + len - 1) = Some v2" using False len(2) by (simp add: NEXT_def)
      show ?thesis using found False v0 v1 v2 inv1 tight by (simp add: Let_def)
    qed
  qed
qed

section \<open>The loops\<close>

lemma lz_inv_hash: "lz_inv s out_len cap (st\<lparr>lz_hval := v, lz_htab := t\<rparr>) \<longleftrightarrow> lz_inv s out_len cap st"
  by (simp add: lz_inv_def lz_rep_def)

lemma lz_round_ok:
  assumes p: "placed base s" and inv: "lz_inv s out_len cap st" and ip: "lz_ip st + 2 < length s"
  shows "\<exists>res. lz_round base s out_len st = Some res \<and> (lz_tight st \<longrightarrow> ample s out_len \<longrightarrow> \<not> isl res) \<and>
    (\<forall>go st'. res = Inr (go, st') \<longrightarrow>
    lz_inv s out_len cap st' \<and> (\<not> go \<longrightarrow> length s \<le> lz_ip st' + 2) \<and> (lz_tight st \<longrightarrow> lz_tight st'))"
proof -
  obtain hval where hval: "NEXT s (lz_hval st) (lz_ip st) = Some hval" using ip by (simp add: NEXT_def)
  let ?ref = "lz_htab st (IDX hval)"
  define st1 where "st1 = st\<lparr>lz_hval := hval, lz_htab := (lz_htab st)(IDX hval := base + of_nat (lz_ip st))\<rparr>"
  have inv1: "lz_inv s out_len cap st1" and ip1: "lz_ip st1 = lz_ip st" using inv by (simp_all add: st1_def lz_inv_hash)
  have tight1: "lz_tight st1 \<longleftrightarrow> lz_tight st" by (simp add: st1_def lz_tight_def)
  obtain found where t: "lz_test base s (lz_ip st) ?ref = Some found"
    "found \<longrightarrow> (let r = unat (?ref - base) in lz_off base (lz_ip st) ?ref < 8192 \<and> lz_ip st + 4 < length s \<and>
      r + 1 + unat (lz_off base (lz_ip st) ?ref) = lz_ip st \<and> agree s r (lz_ip st) 3)"
    using lz_test_ok [OF p ip] by blast
  have round: "lz_round base s out_len st =
    (if found then lz_found base s out_len ?ref st1
     else if lz_op st1 \<ge> out_len then Some (Inl ())
     else do { st \<leftarrow> lz_literal s st1; Some (Inr (True, st)) })"
    using t(1) ip1 by (simp add: lz_round_def hval Let_def st1_def [symmetric])
  show ?thesis
  proof (cases found)
    case True
    have "\<exists>res. lz_found base s out_len ?ref st1 = Some res \<and> (isl res \<longrightarrow> out_len \<le> lz_op st1 + 4) \<and>
        (\<forall>go st'. res = Inr (go, st') \<longrightarrow>
        lz_inv s out_len cap st' \<and> (\<not> go \<longrightarrow> length s \<le> lz_ip st' + 2) \<and> (lz_tight st1 \<longrightarrow> lz_tight st'))"
      using t(2) True by (intro lz_found_ok [OF inv1]) (simp_all add: ip1 Let_def)
    moreover have "lz_tight st \<longrightarrow> ample s out_len \<longrightarrow> \<not> out_len \<le> lz_op st1 + 4"
      using lz_tight_room(2) [of st1 s out_len] tight1 ip1 ip t(2) True by (simp add: Let_def not_le)
    ultimately show ?thesis using round True tight1 by auto
  next
    case False
    show ?thesis
    proof (cases "lz_op st1 \<ge> out_len")
      case True
      moreover have "\<not> lz_tight st \<or> \<not> ample s out_len"
        using lz_tight_room(1) [of st1 s out_len] tight1 ip1 ip True by auto
      ultimately show ?thesis using round False by auto
    next
      case room: False
      have "\<exists>st'. lz_literal s st1 = Some st' \<and> lz_inv s out_len cap st' \<and> lz_ip st' = lz_ip st1 + 1 \<and>
        (if lz_lit st1 + 1 = MAX_LIT then lz_op st' = lz_op st1 + 2 \<and> lz_lit st' = 0
         else lz_op st' = lz_op st1 + 1 \<and> lz_lit st' = lz_lit st1 + 1)"
        using ip ip1 room by (intro lz_literal_ok [OF inv1]) simp_all
      then obtain st' where l: "lz_literal s st1 = Some st'" "lz_inv s out_len cap st'" "lz_ip st' = lz_ip st1 + 1"
        "if lz_lit st1 + 1 = MAX_LIT then lz_op st' = lz_op st1 + 2 \<and> lz_lit st' = 0
         else lz_op st' = lz_op st1 + 1 \<and> lz_lit st' = lz_lit st1 + 1" by blast
      have "lz_tight st1 \<longrightarrow> lz_tight st'" using l(3,4) unfolding lz_tight_def by (auto split: if_splits)
      then show ?thesis using round False room l(1,2) tight1 by simp
    qed
  qed
qed

lemma lz_loop_ok:
  assumes "placed base s" "lz_inv s out_len cap st"
  shows "\<exists>res. lz_loop base s out_len st = Some res \<and> (lz_tight st \<longrightarrow> ample s out_len \<longrightarrow> \<not> isl res) \<and>
    (\<forall>st'. res = Inr st' \<longrightarrow> lz_inv s out_len cap st' \<and> length s \<le> lz_ip st' + 2 \<and> (lz_tight st \<longrightarrow> lz_tight st'))"
  using assms
proof (induction base s out_len st rule: lz_loop.induct)
  case (1 base s out_len st)
  show ?case
  proof (cases "lz_ip st + 2 < length s")
    case False
    then show ?thesis using "1.prems" by (subst lz_loop.simps) simp
  next
    case True
    obtain res where r: "lz_round base s out_len st = Some res" "\<And>go st'. res = Inr (go, st') \<Longrightarrow>
      lz_inv s out_len cap st' \<and> (\<not> go \<longrightarrow> length s \<le> lz_ip st' + 2) \<and> (lz_tight st \<longrightarrow> lz_tight st')"
      and ne: "lz_tight st \<longrightarrow> ample s out_len \<longrightarrow> \<not> isl res"
      using lz_round_ok [OF "1.prems" True] by blast
    show ?thesis
    proof (cases res)
      case (Inl u)
      then show ?thesis using r(1) True ne by (subst lz_loop.simps) simp
    next
      case (Inr q)
      obtain go st' where q: "q = (go, st')" by (cases q)
      note inv' = r(2) [OF Inr [unfolded q]]
      show ?thesis
      proof (cases go)
        case False
        then show ?thesis using r(1) True Inr q inv' by (subst lz_loop.simps) simp
      next
        case go: True
        have "\<exists>res. lz_loop base s out_len st' = Some res \<and> (lz_tight st' \<longrightarrow> ample s out_len \<longrightarrow> \<not> isl res) \<and>
            (\<forall>st''. res = Inr st'' \<longrightarrow> lz_inv s out_len cap st'' \<and> length s \<le> lz_ip st'' + 2 \<and> (lz_tight st' \<longrightarrow> lz_tight st''))"
          using "1.IH" [OF True r(1) Inr q [symmetric] go "1.prems"(1)] inv' q by simp
        then obtain res' where l: "lz_loop base s out_len st' = Some res'" "lz_tight st' \<longrightarrow> ample s out_len \<longrightarrow> \<not> isl res'"
            "\<forall>st''. res' = Inr st'' \<longrightarrow> lz_inv s out_len cap st'' \<and> length s \<le> lz_ip st'' + 2 \<and> (lz_tight st' \<longrightarrow> lz_tight st'')"
          by blast
        have "lz_loop base s out_len st = Some res'" using r(1) True Inr q go l(1) by (subst lz_loop.simps) simp
        then show ?thesis using l(2,3) inv' by blast
      qed
    qed
  qed
qed

lemma lz_tail_ok:
  assumes "lz_inv s out_len cap st" "length s = lz_ip st + n" "n \<le> 2"
    and "lz_op st + n + (if MAX_LIT \<le> lz_lit st + n then 1 else 0) \<le> out_len"
  shows "\<exists>st'. lz_tail s st = Some st' \<and> lz_inv s out_len cap st' \<and> lz_ip st' = length s \<and> lz_op st' \<le> out_len"
  using assms
proof (induction n arbitrary: st)
  case 0
  then show ?case by (subst lz_tail.simps) simp
next
  case (Suc n)
  have "lz_ip st < length s" "lz_op st < out_len" using Suc.prems(2,4) by auto
  from lz_literal_ok [OF Suc.prems(1) this] obtain st' where l: "lz_literal s st = Some st'" "lz_inv s out_len cap st'"
    "lz_ip st' = lz_ip st + 1" and op: "if lz_lit st + 1 = MAX_LIT then lz_op st' = lz_op st + 2 \<and> lz_lit st' = 0
     else lz_op st' = lz_op st + 1 \<and> lz_lit st' = lz_lit st + 1" by blast
  have "\<exists>st''. lz_tail s st' = Some st'' \<and> lz_inv s out_len cap st'' \<and> lz_ip st'' = length s \<and> lz_op st'' \<le> out_len"
    using Suc.prems(2-4) l op by (intro Suc.IH) (auto split: if_splits)
  then show ?case using l \<open>lz_ip st < length s\<close> by (subst lz_tail.simps) simp
qed

text \<open>The buffer has one byte more than the length the compressor is told, as \<^verbatim>\<open>rdb.c\<close> allocates it.\<close>

lemma lzf_compress_ok:
  assumes "placed base s" and "2 \<le> length s" and "out_len < length out"
  shows "\<exists>n out'. lzf_compress base htab s out_len out = Some (n, out') \<and> n \<le> out_len \<and>
    (n \<noteq> 0 \<longrightarrow> length out' = length out \<and> unlzf [] (take n out') = Some s) \<and> (ample s out_len \<longrightarrow> n \<noteq> 0)"
proof (cases "out_len = 0")
  case True
  then show ?thesis by (simp add: lzf_compress_def ample_def)
next
  case False
  have "s \<noteq> []" using assms(2) by auto
  have "0 < length s" "Suc 0 < length s" using assms(2) by auto
  then obtain hval where hval: "FRST s 0 = Some hval" by (simp add: FRST_def)
  let ?st = "\<lparr>lz_ip = 0, lz_op = 1, lz_lit = 0, lz_hval = hval, lz_htab = htab, lz_out = out\<rparr>"
  obtain h rest where out: "out = h # rest" using assms(3) by (cases out) auto
  have "lz_inv s out_len (length out) ?st"
    by (rule lz_invI [where enc = "[]" and h = h and lits = "[]" and rest = rest and acc = "[]"])
      (use out assms(3) False in auto)
  from lz_loop_ok [OF assms(1) this] obtain res where res: "lz_loop base s out_len ?st = Some res"
    "\<And>st'. res = Inr st' \<Longrightarrow> lz_inv s out_len (length out) st' \<and> length s \<le> lz_ip st' + 2 \<and> (lz_tight ?st \<longrightarrow> lz_tight st')"
    and ne: "lz_tight ?st \<longrightarrow> ample s out_len \<longrightarrow> \<not> isl res" by blast
  have tight0: "lz_tight ?st" by (simp add: lz_tight_def)
  show ?thesis
  proof (cases res)
    case (Inl u)
    then show ?thesis using res(1) hval \<open>s \<noteq> []\<close> ne tight0 by (simp add: lzf_compress_def)
  next
    case (Inr st)
    note inv = res(2) [OF Inr]
    show ?thesis
    proof (cases "lz_op st + 3 > out_len")
      case True
      moreover have "\<not> ample s out_len"
        using lz_tight_room(1) [of st s out_len] inv tight0 True unfolding lz_inv_def lz_rep_def by fastforce
      ultimately show ?thesis using res(1) hval Inr \<open>s \<noteq> []\<close> by (simp add: lzf_compress_def)
    next
      case room: False
      have lit: "lz_lit st < MAX_LIT" "lz_ip st \<le> length s" using inv unfolding lz_inv_def lz_rep_def by auto
      have "\<exists>st'. lz_tail s st = Some st' \<and> lz_inv s out_len (length out) st' \<and> lz_ip st' = length s \<and> lz_op st' \<le> out_len"
        using inv room lit by (intro lz_tail_ok [where n = "length s - lz_ip st"]) auto
      then obtain st' where t: "lz_tail s st = Some st'" "lz_inv s out_len (length out) st'" "lz_ip st' = length s"
        "lz_op st' \<le> out_len" by blast
      obtain enc rest' where c: "lz_stop_run (lz_op st') (lz_lit st') (lz_out st') = Some (enc @ rest')"
        "length enc = (if lz_lit st' = 0 then lz_op st' - 1 else lz_op st')" "length (enc @ rest') = length out"
        "unlzf [] enc = Some (take (lz_ip st') s)" using lz_close [OF t(2)] by blast
      have "lzf_compress base htab s out_len out = Some (length enc, enc @ rest')"
        using res(1) hval Inr \<open>s \<noteq> []\<close> False room t(1) c(1,2) by (simp add: lzf_compress_def)
      moreover have "length enc \<le> out_len" using c(2) t(4) by (auto split: if_splits)
      moreover have "enc \<noteq> []" using c(4) t(3) \<open>s \<noteq> []\<close> by auto
      ultimately show ?thesis using c(3,4) t(3) by simp
    qed
  qed
qed

section \<open>Properties\<close>

text \<open>(C9) The decompressor never reads or writes outside its buffers, on any input that is not empty, and returns
  the length of the text the input stands for, leaving that text in the output, or 0 when the input is malformed or
  the text is too long for the output.\<close>

theorem lzf_decompress_spec:
  assumes "data \<noteq> []"
  shows "\<exists>n out'. lzf_decompress data out = Some (n, out') \<and> length out' = length out \<and>
    (case unlzf [] data of
       None \<Rightarrow> n = 0
     | Some r \<Rightarrow> if length r \<le> length out then n = length r \<and> take n out' = r else n = 0)"
  using lzf_decompress_answer [OF assms] unfolding lzf_answer_def by blast

theorem lzf_decompress_spec_witness:
  "\<exists>n out'. lzf_decompress [0, 97, 0x20, 0] [0, 0, 0, 0] = Some (n, out') \<and> n = 4 \<and> out' = [97, 97, 97, 97]"
proof -
  have "unlzf [] [0, 97, 0x20, 0] = Some [97, 97, 97, 97]"
    by (simp add: unlzf.simps(2) next_token_def Let_def numeral_3_eq_3)
  then show ?thesis using lzf_decompress_spec [of "[0, 97, 0x20, 0]" "[0, 0, 0, 0]"] by auto
qed

text \<open>(C8) Whatever the uninitialised hash table holds, the compressor stays inside an output buffer of one byte more
  than the length it is given; it writes a text of at most that length from which the decompressor restores the
  input, or reports failure, which it does not when it may use one byte more for every 32 bytes of input, and 4.
  The input has at least two bytes and lies inside the 64 bit address space.\<close>

theorem lzf_roundtrip:
  assumes "placed base s" and "2 \<le> length s" and "out_len < length out"
  shows "\<exists>n out'. lzf_compress base htab s out_len out = Some (n, out') \<and> n \<le> out_len \<and>
    (n = 0 \<or> lzf_decompress (take n out') (replicate (length s) 0) = Some (length s, s)) \<and>
    (length s + length s div 32 + 4 \<le> out_len \<longrightarrow> n \<noteq> 0)"
proof -
  obtain n out' where c: "lzf_compress base htab s out_len out = Some (n, out')" "n \<le> out_len"
    "n \<noteq> 0 \<longrightarrow> length out' = length out \<and> unlzf [] (take n out') = Some s" "ample s out_len \<longrightarrow> n \<noteq> 0"
    using lzf_compress_ok [OF assms] by blast
  have "n = 0 \<or> lzf_decompress (take n out') (replicate (length s) 0) = Some (length s, s)"
  proof (rule disjCI)
    assume n: "\<not> lzf_decompress (take n out') (replicate (length s) 0) = Some (length s, s)"
    show "n = 0"
    proof (rule ccontr)
      assume "n \<noteq> 0"
      then have u: "unlzf [] (take n out') = Some s" and "take n out' \<noteq> []" using c(2,3) assms(3) by auto
      then obtain m res where "lzf_decompress (take n out') (replicate (length s) 0) = Some (m, res)"
        "length res = length s" "m = length s" "take m res = s"
        using lzf_decompress_answer [of "take n out'" "replicate (length s) 0"] by (auto simp: lzf_answer_def)
      then show False using n by simp
    qed
  qed
  then show ?thesis using c(1,2,4) by (intro exI [of _ n] exI [of _ out']) (simp add: ample_def)
qed

theorem lzf_roundtrip_witness:
  "\<exists>n out'. lzf_compress 8192 (\<lambda>_. 0xFFFF) (replicate 30 97) 34 (replicate 35 0) = Some (n, out') \<and> n \<le> 34 \<and>
    lzf_decompress (take n out') (replicate 30 0) = Some (30, replicate 30 97)"
  using lzf_roundtrip [of 8192 "replicate 30 97" 34 "replicate 35 0" "\<lambda>_. 0xFFFF"] by (simp add: placed_def) blast

end
