(* ===== verification/Rdb.thy ===== *)
theory Rdb
  imports Rio Lzf_Compress Sds_Text
begin

text \<open>
  String objects in the dump format: \<^verbatim>\<open>rdb.c\<close> of \<^verbatim>\<open>src/redis-3.0.3/src\<close>, lines 43 to 375, \<open>tryObjectEncoding\<close> of \<^verbatim>\<open>object.c\<close>,
  and the payload of DUMP and RESTORE in \<^verbatim>\<open>cluster.c\<close>.  A save returns the number of bytes written, of type
  \<open>int\<close>, or -1; every such count is narrowed where the code stores or returns it.  A load
  returns NULL, aborts (\<open>redisPanic\<close>), or returns a value.  The machine is little endian.
\<close>

section \<open>Lengths and integers\<close>

datatype 'a loaded = Null | Panic | Got 'a rio

abbreviation (input) REDIS_RDB_LENERR :: nat where "REDIS_RDB_LENERR \<equiv> 2 ^ 32 - 1"
abbreviation (input) REDIS_RDB_6BITLEN :: nat where "REDIS_RDB_6BITLEN \<equiv> 0"
abbreviation (input) REDIS_RDB_14BITLEN :: nat where "REDIS_RDB_14BITLEN \<equiv> 1"
abbreviation (input) REDIS_RDB_32BITLEN :: nat where "REDIS_RDB_32BITLEN \<equiv> 2"
abbreviation (input) REDIS_RDB_ENCVAL :: nat where "REDIS_RDB_ENCVAL \<equiv> 3"
abbreviation (input) REDIS_RDB_ENC_INT8 :: nat where "REDIS_RDB_ENC_INT8 \<equiv> 0"
abbreviation (input) REDIS_RDB_ENC_INT16 :: nat where "REDIS_RDB_ENC_INT16 \<equiv> 1"
abbreviation (input) REDIS_RDB_ENC_INT32 :: nat where "REDIS_RDB_ENC_INT32 \<equiv> 2"
abbreviation (input) REDIS_RDB_ENC_LZF :: nat where "REDIS_RDB_ENC_LZF \<equiv> 3"

definition rdbWriteRaw :: "rio \<Rightarrow> u8 list \<Rightarrow> int \<times> rio" where
  "rdbWriteRaw rdb p = (case rioWrite rdb p of (ok, rdb) \<Rightarrow> if \<not> ok then (-1, rdb) else (c_int (int (length p)), rdb))"

definition rdbSaveType :: "rio \<Rightarrow> u8 \<Rightarrow> int \<times> rio" where
  "rdbSaveType rdb type = rdbWriteRaw rdb [type]"

definition rdbLoadType :: "rio \<Rightarrow> (u8 \<times> rio) option" where
  "rdbLoadType rdb = (case rioRead rdb 1 of None \<Rightarrow> None | Some (buf, rdb) \<Rightarrow> Some (hd buf, rdb))"

text \<open>The length is a \<open>uint32_t\<close>.\<close>

definition rdbSaveLen :: "rio \<Rightarrow> nat \<Rightarrow> int \<times> rio" where
  "rdbSaveLen rdb len = (let len = len mod 2 ^ 32 in
    (if len < 64 then
       (case rdbWriteRaw rdb [of_nat ((len AND 0xFF) OR push_bit 6 REDIS_RDB_6BITLEN)] of
          (n, rdb) \<Rightarrow> if n = -1 then (-1, rdb) else (1, rdb))
     else if len < 16384 then
       (case rdbWriteRaw rdb [of_nat ((drop_bit 8 len AND 0xFF) OR push_bit 6 REDIS_RDB_14BITLEN), of_nat (len AND 0xFF)] of
          (n, rdb) \<Rightarrow> if n = -1 then (-1, rdb) else (2, rdb))
     else
       (case rdbWriteRaw rdb [of_nat (push_bit 6 REDIS_RDB_32BITLEN)] of
          (n, rdb) \<Rightarrow> if n = -1 then (-1, rdb)
            else (case rdbWriteRaw rdb (rev (enc_bytes 4 (int len))) of
              (n, rdb) \<Rightarrow> if n = -1 then (-1, rdb) else (5, rdb)))))"

text \<open>The length (or the encoding type) with the flag \<open>isencoded\<close>; an error is the value \<open>REDIS_RDB_LENERR\<close>.\<close>

definition rdbLoadLen :: "rio \<Rightarrow> nat \<times> bool \<times> rio" where
  "rdbLoadLen rdb =
    (case rioRead rdb 1 of
       None \<Rightarrow> (REDIS_RDB_LENERR, False, rdb)
     | Some (buf, rdb) \<Rightarrow>
         let b = unat (hd buf); type = drop_bit 6 (b AND 0xC0) in
         if type = REDIS_RDB_ENCVAL then (b AND 0x3F, True, rdb)
         else if type = REDIS_RDB_6BITLEN then (b AND 0x3F, False, rdb)
         else if type = REDIS_RDB_14BITLEN then
           (case rioRead rdb 1 of
              None \<Rightarrow> (REDIS_RDB_LENERR, False, rdb)
            | Some (buf, rdb) \<Rightarrow> (push_bit 8 (b AND 0x3F) OR unat (hd buf), False, rdb))
         else
           (case rioRead rdb 4 of
              None \<Rightarrow> (REDIS_RDB_LENERR, False, rdb)
            | Some (buf, rdb) \<Rightarrow> (nat (le_int (rev buf)), False, rdb)))"

definition enc_header :: "nat \<Rightarrow> u8" where
  "enc_header t = of_nat (push_bit 6 REDIS_RDB_ENCVAL OR t)"

definition rdbEncodeInteger :: "int \<Rightarrow> u8 list" where
  "rdbEncodeInteger value =
    (if value \<ge> - (2 ^ 7) \<and> value \<le> 2 ^ 7 - 1 then enc_header REDIS_RDB_ENC_INT8 # enc_bytes 1 value
     else if value \<ge> - (2 ^ 15) \<and> value \<le> 2 ^ 15 - 1 then enc_header REDIS_RDB_ENC_INT16 # enc_bytes 2 value
     else if value \<ge> - (2 ^ 31) \<and> value \<le> 2 ^ 31 - 1 then enc_header REDIS_RDB_ENC_INT32 # enc_bytes 4 value
     else [])"

section \<open>String objects\<close>

datatype strobj = EncInt int | EncRaw "u8 list" | EncEmbstr "u8 list"

definition to_bytes :: "string \<Rightarrow> u8 list" where
  "to_bytes s = map (\<lambda>c. of_nat (of_char c)) s"

definition to_chars :: "u8 list \<Rightarrow> string" where
  "to_chars bs = map (\<lambda>b. char_of (unat b)) bs"

definition createStringObjectFromLongLong :: "int \<Rightarrow> strobj" where
  "createStringObjectFromLongLong value = EncInt value"

abbreviation (input) EMBSTR_LIMIT :: nat where "EMBSTR_LIMIT \<equiv> 39"

definition createStringObject :: "u8 list \<Rightarrow> strobj" where
  "createStringObject s = (if length s \<le> EMBSTR_LIMIT then EncEmbstr s else EncRaw s)"

text \<open>\<open>strtoll (s, &endptr, 10)\<close>: the value and what follows it; out of range values saturate.\<close>

definition c_isspace :: "u8 \<Rightarrow> bool" where
  "c_isspace b \<longleftrightarrow> b = 32 \<or> 9 \<le> b \<and> b \<le> 13"

definition c_isdigit :: "u8 \<Rightarrow> bool" where
  "c_isdigit b \<longleftrightarrow> 48 \<le> b \<and> b \<le> 57"

definition strtoll :: "u8 list \<Rightarrow> int \<times> u8 list" where
  "strtoll s =
    (let t = dropWhile c_isspace s;
         neg = (t \<noteq> [] \<and> hd t = 45);
         t = (if t \<noteq> [] \<and> (hd t = 45 \<or> hd t = 43) then tl t else t);
         ds = takeWhile c_isdigit t;
         v = foldl (\<lambda>v b. v * 10 + (int (unat b) - 48)) 0 ds;
         v = (if neg then - v else v)
     in if ds = [] then (0, s)
        else (if v > LLONG_MAX then LLONG_MAX else if v < LLONG_MIN then LLONG_MIN else v, dropWhile c_isdigit t))"

text \<open>\<open>s\<close> is terminated by a zero byte, which \<open>strtoll\<close> and \<open>strlen\<close> stop at.\<close>

definition rdbTryIntegerEncoding :: "u8 list \<Rightarrow> u8 list" where
  "rdbTryIntegerEncoding s =
    (let (value, endptr) = strtoll (takeWhile (\<lambda>b. b \<noteq> 0) s) in
     if endptr \<noteq> [] then []
     else
       let buf = to_bytes (snd (ll2string (replicate 32 NUL) value));
           str = takeWhile (\<lambda>b. b \<noteq> 0) buf in
       if length str \<noteq> length s \<or> take (length s) buf \<noteq> s then []
       else rdbEncodeInteger value)"

definition rdbLoadIntegerObject :: "rio \<Rightarrow> nat \<Rightarrow> bool \<Rightarrow> strobj loaded" where
  "rdbLoadIntegerObject rdb enctype encode =
    (let size = (if enctype = REDIS_RDB_ENC_INT8 then 1 else if enctype = REDIS_RDB_ENC_INT16 then 2 else 4) in
     if enctype > REDIS_RDB_ENC_INT32 then Panic
     else case rioRead rdb size of
       None \<Rightarrow> Null
     | Some (enc, rdb) \<Rightarrow>
         let val = dec_signed enc in
         if encode then Got (createStringObjectFromLongLong val) rdb
         else (case sdsfromlonglong val of None \<Rightarrow> Panic | Some s \<Rightarrow> Got (EncRaw (to_bytes s)) rdb))"

text \<open>The compressor's environment: the address of its input and what its table holds before the call.\<close>

type_synonym lzf_env = "u64 \<times> (nat \<Rightarrow> u64)"

text \<open>\<open>None\<close> is an access outside a buffer.\<close>

definition rdbSaveLzfStringObject :: "lzf_env \<Rightarrow> rio \<Rightarrow> u8 list \<Rightarrow> (int \<times> rio) option" where
  "rdbSaveLzfStringObject ev rdb s =
    (if length s \<le> 4 then Some (0, rdb)
     else
       let outlen = length s - 4; out = replicate (outlen + 1) 0 in do {
       (comprlen, out) \<leftarrow> lzf_compress (fst ev) (snd ev) s outlen out;
       Some
         (if comprlen = 0 then (0, rdb)
          else case rdbWriteRaw rdb [of_nat (push_bit 6 REDIS_RDB_ENCVAL OR REDIS_RDB_ENC_LZF)] of
            (n, rdb) \<Rightarrow> if n = -1 then (-1, rdb)
              else let nwritten = n in case rdbSaveLen rdb comprlen of
                (n, rdb) \<Rightarrow> if n = -1 then (-1, rdb)
                  else let nwritten = c_int (nwritten + n) in case rdbSaveLen rdb (length s) of
                    (n, rdb) \<Rightarrow> if n = -1 then (-1, rdb)
                      else let nwritten = c_int (nwritten + n) in case rdbWriteRaw rdb (take comprlen out) of
                        (n, rdb) \<Rightarrow> if n = -1 then (-1, rdb) else (c_int (nwritten + n), rdb)) })"

definition rdbLoadLzfStringObject :: "rio \<Rightarrow> strobj loaded" where
  "rdbLoadLzfStringObject rdb =
    (case rdbLoadLen rdb of (clen, _, rdb) \<Rightarrow>
     if clen = REDIS_RDB_LENERR then Null
     else case rdbLoadLen rdb of (len, _, rdb) \<Rightarrow>
     if len = REDIS_RDB_LENERR then Null
     else case rioRead rdb clen of
       None \<Rightarrow> Null
     | Some (c, rdb) \<Rightarrow>
         (case lzf_decompress c (replicate len 0) of
            None \<Rightarrow> Panic
          | Some (n, val) \<Rightarrow> if n = 0 then Null else Got (EncRaw val) rdb))"

text \<open>\<open>compression\<close> is \<open>server.rdb_compression\<close>.\<close>

definition rdbSaveRawString :: "bool \<Rightarrow> lzf_env \<Rightarrow> rio \<Rightarrow> u8 list \<Rightarrow> (int \<times> rio) option" where
  "rdbSaveRawString compression ev rdb s =
    (let enc = (if length s \<le> 11 then rdbTryIntegerEncoding s else []) in
     if enc \<noteq> [] then
       (case rdbWriteRaw rdb enc of (n, rdb) \<Rightarrow> Some (if n = -1 then -1 else int (length enc), rdb))
     else do {
       (n, rdb) \<leftarrow> (if compression \<and> length s > 20 then rdbSaveLzfStringObject ev rdb s else Some (0, rdb));
       Some
         (if n = -1 then (-1, rdb)
          else if n > 0 then (n, rdb)
          else case rdbSaveLen rdb (length s) of
            (n, rdb) \<Rightarrow> if n = -1 then (-1, rdb)
              else if length s > 0 then
                (case rdbWriteRaw rdb s of (m, rdb) \<Rightarrow> if m = -1 then (-1, rdb) else (c_int (n + int (length s)), rdb))
              else (n, rdb)) })"

definition rdbSaveLongLongAsStringObject :: "rio \<Rightarrow> int \<Rightarrow> int \<times> rio" where
  "rdbSaveLongLongAsStringObject rdb value =
    (let enc = rdbEncodeInteger value in
     if enc \<noteq> [] then rdbWriteRaw rdb enc
     else case ll2string (replicate 32 NUL) value of (enclen, buf) \<Rightarrow>
       (case rdbSaveLen rdb enclen of
          (n, rdb) \<Rightarrow> if n = -1 then (-1, rdb)
            else (case rdbWriteRaw rdb (to_bytes (take enclen buf)) of
              (m, rdb) \<Rightarrow> if m = -1 then (-1, rdb) else (c_int (n + m), rdb))))"

definition rdbSaveStringObject :: "bool \<Rightarrow> lzf_env \<Rightarrow> rio \<Rightarrow> strobj \<Rightarrow> (int \<times> rio) option" where
  "rdbSaveStringObject compression ev rdb obj =
    (case obj of
       EncInt value \<Rightarrow> Some (rdbSaveLongLongAsStringObject rdb value)
     | EncRaw s \<Rightarrow> rdbSaveRawString compression ev rdb s
     | EncEmbstr s \<Rightarrow> rdbSaveRawString compression ev rdb s)"

definition rdbGenericLoadStringObject :: "rio \<Rightarrow> bool \<Rightarrow> strobj loaded" where
  "rdbGenericLoadStringObject rdb encode =
    (case rdbLoadLen rdb of (len, isencoded, rdb) \<Rightarrow>
     if isencoded then
       (if len = REDIS_RDB_ENC_INT8 \<or> len = REDIS_RDB_ENC_INT16 \<or> len = REDIS_RDB_ENC_INT32
        then rdbLoadIntegerObject rdb len encode
        else if len = REDIS_RDB_ENC_LZF then rdbLoadLzfStringObject rdb
        else Panic)
     else if len = REDIS_RDB_LENERR then Null
     else if len = 0 then Got (if encode then createStringObject [] else EncRaw []) rdb
     else case rioRead rdb len of
       None \<Rightarrow> Null
     | Some (s, rdb) \<Rightarrow> Got (if encode then createStringObject s else EncRaw s) rdb)"

definition rdbLoadStringObject :: "rio \<Rightarrow> strobj loaded" where
  "rdbLoadStringObject rdb = rdbGenericLoadStringObject rdb False"

definition rdbLoadEncodedStringObject :: "rio \<Rightarrow> strobj loaded" where
  "rdbLoadEncodedStringObject rdb = rdbGenericLoadStringObject rdb True"

text \<open>For an object with one reference; a shared integer is the integer it holds.\<close>

definition tryObjectEncoding :: "strobj \<Rightarrow> strobj" where
  "tryObjectEncoding obj =
    (case obj of
       EncInt v \<Rightarrow> obj
     | EncRaw s \<Rightarrow>
        (case (if length s \<le> 21 then string2l (to_chars s) else None) of
           Some value \<Rightarrow> EncInt value
         | None \<Rightarrow> if length s \<le> EMBSTR_LIMIT then EncEmbstr s else EncRaw s)
     | EncEmbstr s \<Rightarrow>
        (case (if length s \<le> 21 then string2l (to_chars s) else None) of
           Some value \<Rightarrow> EncInt value
         | None \<Rightarrow> EncEmbstr s))"

end
