(* ===== verification/Rdb_Correct.thy ===== *)
theory Rdb_Correct
  imports Rdb
begin

text \<open>Every string object is loaded back from what saving it writes.\<close>

section \<open>Headers\<close>

lemma nat_masks:
  "(n AND 0xFF :: nat) = n mod 256" "(n AND 0x3F :: nat) = n mod 64"
  using take_bit_eq_mask [of 8 n] take_bit_eq_mask [of 6 n] by (simp_all add: take_bit_eq_mod mask_eq_exp_minus_1)

lemma nat_top_bits: "n < 256 \<Longrightarrow> drop_bit 6 (n AND 0xC0 :: nat) = n div 64"
proof -
  assume n: "n < 256"
  have "drop_bit 6 (n AND 0xC0) = drop_bit 6 n AND drop_bit 6 0xC0" by (rule drop_bit_and)
  also have "\<dots> = (n div 64) AND 3" by (simp add: drop_bit_eq_div)
  also have "\<dots> = n div 64 mod 4" using take_bit_eq_mask [of 2 "n div 64"] by (simp add: take_bit_eq_mod mask_eq_exp_minus_1)
  also have "\<dots> = n div 64" using n by simp
  finally show ?thesis .
qed

lemma or_push_bit: "a < 2 ^ k \<Longrightarrow> push_bit k b OR a = b * 2 ^ k + (a :: nat)"
proof -
  assume "a < 2 ^ k"
  then have "take_bit k a = a" by (simp add: take_bit_nat_eq_self)
  moreover have "push_bit k b AND take_bit k a = 0" by (rule bit_eqI) (auto simp: bit_and_iff bit_push_bit_iff bit_take_bit_iff)
  ultimately have "push_bit k b + a = push_bit k b OR a" by (simp add: disjunctive_add_eq_or)
  then show ?thesis by (simp add: push_bit_eq_mult)
qed

definition len_bytes :: "nat \<Rightarrow> u8 list" where
  "len_bytes len =
    (if len < 64 then [of_nat len]
     else if len < 16384 then [of_nat (64 + len div 256), of_nat (len mod 256)]
     else of_nat 128 # rev (enc_bytes 4 (int len)))"

lemma len_bytes_le: "length (len_bytes len) \<le> 5"
  by (simp add: len_bytes_def)

lemma rdbWriteRaw_ok [simp]: "length p < 2 ^ 31 \<Longrightarrow> rdbWriteRaw rdb p = (int (length p), io_append p rdb)"
  by (simp add: rdbWriteRaw_def)

lemma rdbSaveLen_ok [simp]: "len < 2 ^ 32 \<Longrightarrow> rdbSaveLen rdb len = (int (length (len_bytes len)), io_append (len_bytes len) rdb)"
proof -
  have "(len AND 0xFF) OR push_bit 6 0 = len" if "len < 64" using that by (simp add: nat_masks)
  moreover have "(drop_bit 8 len AND 0xFF) OR push_bit 6 1 = 64 + len div 256" if "len < 16384"
  proof -
    have "len div 256 < 2 ^ 6" using that by (simp add: less_mult_imp_div_less)
    then have "push_bit 6 1 OR len div 256 = 1 * 2 ^ 6 + len div 256" by (rule or_push_bit)
    then show ?thesis using \<open>len div 256 < 2 ^ 6\<close> by (simp add: nat_masks drop_bit_eq_div or.commute)
  qed
  moreover assume "len < 2 ^ 32"
  ultimately show ?thesis by (simp add: rdbSaveLen_def len_bytes_def nat_masks Let_def)
qed

lemma unat_of_nat_u8 [simp]: "n < 256 \<Longrightarrow> unat (of_nat n :: u8) = n"
  by (simp add: unat_of_nat)

lemma rdbLoadLen_ok:
  assumes "io_rest r = len_bytes len @ cs" "len < 2 ^ 32"
  shows "rdbLoadLen r = (len, False, io_skip (len_bytes len) r)"
proof -
  consider "len < 64" | "64 \<le> len" "len < 16384" | "16384 \<le> len" by linarith
  then show ?thesis
  proof cases
    case 1
    then have "rioRead r 1 = Some ([of_nat len], io_skip [of_nat len] r)"
      using assms(1) by (intro rioRead_ok [where cs = cs]) (simp_all add: len_bytes_def)
    then show ?thesis using 1 nat_top_bits [of len] by (simp add: rdbLoadLen_def Let_def nat_masks len_bytes_def)
  next
    case 2
    let ?a = "of_nat (64 + len div 256) :: u8" and ?b = "of_nat (len mod 256) :: u8"
    have bs: "len_bytes len = [?a] @ [?b]" using 2 by (simp add: len_bytes_def)
    have a: "unat ?a = 64 + len div 256" using 2 by (intro unat_of_nat_u8) (simp add: less_mult_imp_div_less)
    have ra: "rioRead r 1 = Some ([?a], io_skip [?a] r)"
      using assms(1) bs by (intro rioRead_ok [where cs = "?b # cs"]) simp_all
    have "io_rest (io_skip [?a] r) = [?b] @ cs" using assms(1) bs by simp
    then have rb: "rioRead (io_skip [?a] r) 1 = Some ([?b], io_skip ([?a] @ [?b]) r)" by (subst rioRead_ok) simp_all
    have "len div 256 < 64" using 2 by (simp add: less_mult_imp_div_less)
    then have d: "(64 + len div 256) div 64 = 1" "(64 + len div 256) mod 64 = len div 256" by simp_all
    have "push_bit 8 (len div 256) OR len mod 256 = len" using or_push_bit [of "len mod 256" 8 "len div 256"] by simp
    moreover have "drop_bit 6 (64 + len div 256 AND 0xC0) = 1" using nat_top_bits [of "64 + len div 256"] d(1) \<open>len div 256 < 64\<close> by simp
    moreover have "(64 + len div 256 AND 0x3F) = len div 256" using nat_masks(2) d(2) by simp
    moreover have "unat ?b = len mod 256" by (intro unat_of_nat_u8) simp
    ultimately show ?thesis unfolding rdbLoadLen_def ra Let_def bs using rb by (simp add: a del: of_nat_add)
  next
    case 3
    let ?bs = "rev (enc_bytes 4 (int len))"
    have bs: "len_bytes len = [of_nat 128] @ ?bs" using 3 by (simp add: len_bytes_def)
    have ra: "rioRead r 1 = Some ([of_nat 128], io_skip [of_nat 128] r)"
      using assms(1) bs by (intro rioRead_ok [where cs = "?bs @ cs"]) simp_all
    have "io_rest (io_skip [of_nat 128] r) = ?bs @ cs" using assms(1) bs by simp
    then have rb: "rioRead (io_skip [of_nat 128] r) 4 = Some (?bs, io_skip ([of_nat 128] @ ?bs) r)" by (subst rioRead_ok) simp_all
    have "nat (le_int (rev ?bs)) = len" using assms(2) by (simp add: le_int_enc_bytes)
    moreover have "drop_bit 6 (128 AND 0xC0 :: nat) = 2" using nat_top_bits [of 128] by simp
    moreover have "unat (of_nat 128 :: u8) = 128" by (intro unat_of_nat_u8) simp
    ultimately show ?thesis unfolding rdbLoadLen_def ra Let_def bs using rb by simp
  qed
qed

lemma rdbLoadLen_header:
  assumes "io_rest r = enc_header t # cs" "t < 64"
  shows "rdbLoadLen r = (t, True, io_skip [enc_header t] r)"
proof -
  have e: "enc_header t = of_nat (192 + t)" using or_push_bit [of t 6 3] assms(2) by (simp add: enc_header_def)
  have u: "unat (enc_header t) = 192 + t" unfolding e using assms(2) by (intro unat_of_nat_u8) simp
  have "rioRead r 1 = Some ([enc_header t], io_skip [enc_header t] r)"
    using assms(1) by (intro rioRead_ok [where cs = cs]) simp_all
  moreover have "drop_bit 6 (192 + t AND 0xC0) = 3" using nat_top_bits [of "192 + t"] assms(2) by simp
  moreover have "(192 + t AND 0x3F) = t" using nat_masks(2) [of "192 + t"] assms(2) by (simp add: mod_add_left_eq [of 192, symmetric])
  ultimately show ?thesis by (simp add: rdbLoadLen_def Let_def u)
qed

section \<open>Strings\<close>

text \<open>The string an object stands for.\<close>

fun obj_bytes :: "strobj \<Rightarrow> u8 list" where
  "obj_bytes (EncInt v) = to_bytes (dec_int v)"
| "obj_bytes (EncRaw s) = s"
| "obj_bytes (EncEmbstr s) = s"

lemma obj_bytes_create [simp]: "obj_bytes (createStringObject s) = s"
  by (simp add: createStringObject_def)

definition loads :: "u8 list \<Rightarrow> u8 list \<Rightarrow> bool" where
  "loads bs s \<longleftrightarrow> (\<forall>r cs encode. io_rest r = bs @ cs \<longrightarrow>
    (\<exists>ob. rdbGenericLoadStringObject r encode = Got ob (io_skip bs r) \<and> obj_bytes ob = s))"

lemma rdbEncodeInteger_cases:
  assumes "rdbEncodeInteger v \<noteq> []"
  obtains t n where "t < 3" "rdbEncodeInteger v = enc_header t # enc_bytes n v" "n = (if t = 0 then 1 else if t = 1 then 2 else 4)"
    "- (2 ^ (8 * n - 1)) \<le> v" "v < 2 ^ (8 * n - 1)" "0 < n"
proof -
  consider "v \<ge> - (2 ^ 7) \<and> v \<le> 2 ^ 7 - 1" | "\<not> (v \<ge> - (2 ^ 7) \<and> v \<le> 2 ^ 7 - 1)" "v \<ge> - (2 ^ 15) \<and> v \<le> 2 ^ 15 - 1"
    | "\<not> (v \<ge> - (2 ^ 7) \<and> v \<le> 2 ^ 7 - 1)" "\<not> (v \<ge> - (2 ^ 15) \<and> v \<le> 2 ^ 15 - 1)" "v \<ge> - (2 ^ 31) \<and> v \<le> 2 ^ 31 - 1"
    using assms unfolding rdbEncodeInteger_def by (auto split: if_splits)
  then show ?thesis
  proof cases
    case 1
    then show ?thesis by (intro that [of 0 1]) (simp_all add: rdbEncodeInteger_def)
  next
    case 2
    then show ?thesis by (intro that [of 1 2]) (simp_all only: rdbEncodeInteger_def if_True if_False, simp_all)
  next
    case 3
    then show ?thesis by (intro that [of 2 4]) (simp_all only: rdbEncodeInteger_def if_True if_False, simp_all)
  qed
qed

lemma to_bytes_dec: "LLONG_MIN < v \<Longrightarrow> v \<le> LLONG_MAX \<Longrightarrow> sdsfromlonglong v = Some (dec_int v)"
  using sdsll2str_ok [of v "replicate 21 NUL"] dec_int_length [of v]
  by (simp add: sdsfromlonglong_def read_bytes_def)

lemma loads_integer:
  assumes "rdbEncodeInteger v \<noteq> []"
  shows "loads (rdbEncodeInteger v) (to_bytes (dec_int v))"
  unfolding loads_def
proof (intro allI impI)
  fix r cs encode
  obtain t n where e: "t < 3" "rdbEncodeInteger v = enc_header t # enc_bytes n v" "n = (if t = 0 then 1 else if t = 1 then 2 else 4)"
    "- (2 ^ (8 * n - 1)) \<le> v" "v < 2 ^ (8 * n - 1)" "0 < n" using rdbEncodeInteger_cases [OF assms] .
  assume rest: "io_rest r = rdbEncodeInteger v @ cs"
  then have r: "io_rest r = enc_header t # enc_bytes n v @ cs" by (simp add: e(2))
  have len: "rdbLoadLen r = (t, True, io_skip [enc_header t] r)" using r e(1) by (intro rdbLoadLen_header) simp_all
  have "io_rest (io_skip [enc_header t] r) = enc_bytes n v @ cs" using r by (intro io_rest_skip) simp
  then have rd: "rioRead (io_skip [enc_header t] r) n = Some (enc_bytes n v, io_skip (rdbEncodeInteger v) r)"
    by (subst rioRead_ok) (simp_all add: e(2))
  have val: "dec_signed (enc_bytes n v) = v" by (rule dec_signed_enc_bytes [OF e(6,4,5)])
  have "LLONG_MIN < v" "v \<le> LLONG_MAX" using e(3-5) by (auto split: if_splits)
  note dec = to_bytes_dec [OF this]
  have "rdbGenericLoadStringObject r encode = rdbLoadIntegerObject (io_skip [enc_header t] r) t encode"
    using e(1) len by (auto simp: rdbGenericLoadStringObject_def)
  also have "\<dots> = Got (if encode then EncInt v else EncRaw (to_bytes (dec_int v))) (io_skip (rdbEncodeInteger v) r)"
    using e(1) rd val dec
    by (simp add: rdbLoadIntegerObject_def Let_def e(3) [symmetric] createStringObjectFromLongLong_def del: One_nat_def)
  finally show "\<exists>ob. rdbGenericLoadStringObject r encode = Got ob (io_skip (rdbEncodeInteger v) r) \<and>
      obj_bytes ob = to_bytes (dec_int v)" by (simp split: if_splits)
qed

lemma loads_verbatim:
  assumes "length s < 2 ^ 32 - 1"
  shows "loads (len_bytes (length s) @ s) s"
  unfolding loads_def
proof (intro allI impI)
  fix r cs encode
  assume rest: "io_rest r = (len_bytes (length s) @ s) @ cs"
  then have len: "rdbLoadLen r = (length s, False, io_skip (len_bytes (length s)) r)"
    using assms by (intro rdbLoadLen_ok [where cs = "s @ cs"]) simp_all
  have "io_rest (io_skip (len_bytes (length s)) r) = s @ cs" using rest by (intro io_rest_skip) simp
  then have "rioRead (io_skip (len_bytes (length s)) r) (length s) = Some (s, io_skip (len_bytes (length s) @ s) r)"
    by (subst rioRead_ok) simp_all
  then show "\<exists>ob. rdbGenericLoadStringObject r encode = Got ob (io_skip (len_bytes (length s) @ s) r) \<and> obj_bytes ob = s"
    using assms len by (simp add: rdbGenericLoadStringObject_def)
qed

text \<open>The compressed form.\<close>

definition lzf_env_ok :: "lzf_env \<Rightarrow> u8 list \<Rightarrow> bool" where
  "lzf_env_ok ev s \<longleftrightarrow> placed (fst ev) s"

lemma loads_lzf:
  assumes c: "unlzf [] c = Some s" and len: "c \<noteq> []" "length c < 2 ^ 32 - 1" "0 < length s" "length s < 2 ^ 32 - 1"
  shows "loads (enc_header 3 # len_bytes (length c) @ len_bytes (length s) @ c) s" (is "loads ?bs s")
  unfolding loads_def
proof (intro allI impI)
  fix r cs encode
  let ?a = "[enc_header 3]" and ?b = "len_bytes (length c)" and ?d = "len_bytes (length s)"
  assume rest: "io_rest r = ?bs @ cs"
  have h: "rdbLoadLen r = (3, True, io_skip ?a r)" using rest by (intro rdbLoadLen_header) simp_all
  have r1: "io_rest (io_skip ?a r) = ?b @ ?d @ c @ cs" using rest by (intro io_rest_skip) simp
  have l1: "rdbLoadLen (io_skip ?a r) = (length c, False, io_skip (?a @ ?b) r)" using rdbLoadLen_ok [OF r1] len by simp
  have r2: "io_rest (io_skip (?a @ ?b) r) = ?d @ c @ cs" using rest by (intro io_rest_skip) simp
  have l2: "rdbLoadLen (io_skip (?a @ ?b) r) = (length s, False, io_skip (?a @ ?b @ ?d) r)" using rdbLoadLen_ok [OF r2] len by simp
  have r3: "io_rest (io_skip (?a @ ?b @ ?d) r) = c @ cs" using rest by (intro io_rest_skip) simp
  have l3: "rioRead (io_skip (?a @ ?b @ ?d) r) (length c) = Some (c, io_skip ?bs r)" using rioRead_ok [OF r3 refl] by simp
  obtain n out where d: "lzf_decompress c (replicate (length s) 0) = Some (n, out)" "length out = length s" "n = length s" "take n out = s"
    using lzf_decompress_answer [OF len(1), of "replicate (length s) 0"] c by (auto simp: lzf_answer_def)
  then have out: "out = s" by simp
  have "rdbGenericLoadStringObject r encode = rdbLoadLzfStringObject (io_skip ?a r)"
    using h by (simp add: rdbGenericLoadStringObject_def)
  also have "\<dots> = Got (EncRaw s) (io_skip ?bs r)"
    using l1 l2 l3 d(1,3) out len by (simp add: rdbLoadLzfStringObject_def)
  finally show "\<exists>ob. rdbGenericLoadStringObject r encode = Got ob (io_skip ?bs r) \<and> obj_bytes ob = s" by simp
qed

section \<open>Saving\<close>

lemma strtoll_fits: "LLONG_MIN \<le> fst (strtoll s) \<and> fst (strtoll s) \<le> LLONG_MAX"
  by (simp add: strtoll_def Let_def)

lemma to_byte_code: "(of_nat (of_char c) :: u8) = 0 \<longleftrightarrow> c = NUL"
proof
  assume z: "(of_nat (of_char c) :: u8) = 0"
  have "(of_char c :: nat) < 256" by (rule of_char_less)
  then have "(of_char c :: nat) = 0" using z unat_of_nat_u8 [of "of_char c"] by simp
  then have "(of_char c :: nat) = of_char NUL" by simp
  then show "c = NUL" by (simp only: of_char_eq_iff)
qed simp

lemma dec_int_no_nul: "b \<in> set (to_bytes (dec_int v)) \<Longrightarrow> b \<noteq> 0"
  using dec_nat_digits [of NUL "nat v"] dec_nat_digits [of NUL "nat (- v)"]
  by (auto simp: to_bytes_def dec_int_def to_byte_code is_digit_code split: if_splits)

lemma rdbTryIntegerEncoding_ok:
  assumes "rdbTryIntegerEncoding s \<noteq> []"
  shows "\<exists>v. s = to_bytes (dec_int v) \<and> rdbTryIntegerEncoding s = rdbEncodeInteger v"
proof -
  obtain v endptr where v: "strtoll (takeWhile (\<lambda>b. b \<noteq> 0) s) = (v, endptr)" by (cases "strtoll (takeWhile (\<lambda>b. b \<noteq> 0) s)")
  have fits: "LLONG_MIN \<le> v" "v \<le> LLONG_MAX" using strtoll_fits [of "takeWhile (\<lambda>b. b \<noteq> 0) s"] v by simp_all
  have buf: "snd (ll2string (replicate 32 NUL) v) = dec_int v @ NUL # replicate (31 - length (dec_int v)) NUL"
    using dec_int_length [OF fits] by (simp add: ll2string_correct drop_replicate)
  let ?d = "to_bytes (dec_int v)"
  have bytes: "to_bytes (snd (ll2string (replicate 32 NUL) v)) = ?d @ 0 # to_bytes (replicate (31 - length (dec_int v)) NUL)"
    by (simp add: buf to_bytes_def)
  have "takeWhile (\<lambda>b. b \<noteq> 0) (to_bytes (snd (ll2string (replicate 32 NUL) v))) = ?d"
  proof -
    have "takeWhile (\<lambda>b. b \<noteq> 0) ?d = ?d" using dec_int_no_nul by (auto simp: takeWhile_eq_all_conv)
    then show ?thesis unfolding bytes by (subst takeWhile_tail) simp_all
  qed
  then have "length ?d = length s" "take (length s) (?d @ 0 # to_bytes (replicate (31 - length (dec_int v)) NUL)) = s"
      "rdbTryIntegerEncoding s = rdbEncodeInteger v"
    using assms v bytes by (auto simp: rdbTryIntegerEncoding_def Let_def split: if_splits)
  then show ?thesis by (intro exI [of _ v]) simp
qed

text \<open>The strings whose dump, headers included, has a length of type \<open>int\<close>.\<close>

abbreviation (input) DUMP_MAX :: nat where "DUMP_MAX \<equiv> 2 ^ 31 - 16"

text \<open>A save appends bytes that load as the string, and returns their number.\<close>

definition saved :: "rio \<Rightarrow> u8 list \<Rightarrow> (int \<times> rio) option \<Rightarrow> bool" where
  "saved r s res \<longleftrightarrow> (\<exists>bs. res = Some (int (length bs), io_append bs r) \<and> bs \<noteq> [] \<and> loads bs s)"

lemma savedI: "loads bs s \<Longrightarrow> bs \<noteq> [] \<Longrightarrow> saved r s (Some (int (length bs), io_append bs r))"
  unfolding saved_def by blast

lemma len_bytes_nonempty [simp]: "len_bytes n \<noteq> []"
  by (simp add: len_bytes_def)

lemma rdbSaveLzfStringObject_ok:
  assumes "lzf_env_ok ev s" "length s < DUMP_MAX"
  shows "rdbSaveLzfStringObject ev r s = Some (0, r) \<or> saved r s (rdbSaveLzfStringObject ev r s)"
proof (cases "length s \<le> 4")
  case True
  then show ?thesis by (simp add: rdbSaveLzfStringObject_def)
next
  case False
  let ?o = "length s - 4"
  obtain n out where c: "lzf_compress (fst ev) (snd ev) s ?o (replicate (?o + 1) 0) = Some (n, out)" "n \<le> ?o"
    "n \<noteq> 0 \<longrightarrow> length out = length (replicate (?o + 1) (0 :: u8)) \<and> unlzf [] (take n out) = Some s"
    using lzf_compress_ok [of "fst ev" s ?o "replicate (?o + 1) 0" "snd ev"] assms(1) False by (auto simp: lzf_env_ok_def)
  show ?thesis
  proof (cases "n = 0")
    case True
    then show ?thesis using c False by (simp add: rdbSaveLzfStringObject_def Let_def)
  next
    case n: False
    let ?c = "take n out"
    have lc: "length ?c = n" using c n by simp
    let ?bs = "enc_header 3 # len_bytes n @ len_bytes (length s) @ ?c"
    have "rdbSaveLzfStringObject ev r s = Some (int (length ?bs), io_append ?bs r)"
    proof -
      have b: "length ?c < 2 ^ 31" "length (len_bytes n) \<le> 5" "length (len_bytes (length s)) \<le> 5"
        "Suc (length (len_bytes n) + (length (len_bytes (length s)) + n)) < 2 ^ 31"
        using lc c(2) assms(2) len_bytes_le [of n] len_bytes_le [of "length s"] by simp_all
      have w: "c_int (1 + int (length (len_bytes n))) = int (Suc (length (len_bytes n)))"
        "c_int (1 + int (length (len_bytes n)) + int (length (len_bytes (length s)))) =
          int (Suc (length (len_bytes n)) + length (len_bytes (length s)))"
        "c_int (1 + int (length (len_bytes n)) + int (length (len_bytes (length s))) + int n) =
          int (Suc (length (len_bytes n)) + length (len_bytes (length s)) + n)"
        using b by (simp_all add: c_int_id)
      show ?thesis
        using c False n lc b w assms(2) by (simp add: rdbSaveLzfStringObject_def Let_def enc_header_def ac_simps)
    qed
    moreover have "?c \<noteq> []" using lc n by (cases ?c) auto
    then have "loads (enc_header 3 # len_bytes (length ?c) @ len_bytes (length s) @ ?c) s"
      using c n lc assms(2) False by (intro loads_lzf) (auto simp: not_le)
    then have "loads ?bs s" by (simp only: lc)
    ultimately show ?thesis by (metis list.discI savedI)
  qed
qed

lemma rdbEncodeInteger_length: "length (rdbEncodeInteger v) \<le> 5"
  by (simp add: rdbEncodeInteger_def)

lemma rdbWriteRaw_integer [simp]:
  "rdbWriteRaw r (rdbEncodeInteger v) = (int (length (rdbEncodeInteger v)), io_append (rdbEncodeInteger v) r)"
  using rdbEncodeInteger_length [of v] by simp

lemma rdbSaveRawString_ok:
  assumes "lzf_env_ok ev s" "length s < DUMP_MAX"
  shows "saved r s (rdbSaveRawString compression ev r s)"
proof -
  define enc where "enc = (if length s \<le> 11 then rdbTryIntegerEncoding s else [])"
  define lzf where "lzf = (if compression \<and> length s > 20 then rdbSaveLzfStringObject ev r s else Some (0, r))"
  have e: "rdbSaveRawString compression ev r s =
    (if enc \<noteq> [] then Some (int (length enc), io_append enc r)
     else do {
       (n, rdb) \<leftarrow> lzf;
       Some
         (if n = -1 then (-1, rdb)
          else if n > 0 then (n, rdb)
          else (int (length (len_bytes (length s) @ s)), io_append (len_bytes (length s) @ s) rdb)) })"
  proof -
    have "length (rdbEncodeInteger v) < 2 ^ 31" for v using rdbEncodeInteger_length [of v] by simp
    then have "length (rdbTryIntegerEncoding s) < 2 ^ 31" by (simp add: rdbTryIntegerEncoding_def Let_def split_beta)
    moreover have "length (len_bytes (length s)) + length s < 2 ^ 31" "length s < 2 ^ 31" "length s < 2 ^ 32"
      using len_bytes_le [of "length s"] assms(2) by simp_all
    ultimately show ?thesis
      by (auto simp: rdbSaveRawString_def enc_def lzf_def Let_def split: Option.bind_split intro!: Option.bind_cong)
  qed
  show ?thesis
  proof (cases "enc \<noteq> []")
    case True
    then obtain v where "s = to_bytes (dec_int v)" "enc = rdbEncodeInteger v"
      using rdbTryIntegerEncoding_ok [of s] by (auto simp: enc_def split: if_splits)
    then show ?thesis using e True loads_integer [of v] savedI by simp
  next
    case False
    have "lzf = Some (0, r) \<or> saved r s lzf" using rdbSaveLzfStringObject_ok [OF assms] by (simp add: lzf_def)
    then show ?thesis
    proof
      assume "lzf = Some (0, r)"
      then have "rdbSaveRawString compression ev r s =
          Some (int (length (len_bytes (length s) @ s)), io_append (len_bytes (length s) @ s) r)" using e False by simp
      moreover have "length s < 2 ^ 32 - 1" using assms(2) by simp
      ultimately show ?thesis using savedI [OF loads_verbatim, of s r] by simp
    next
      assume l: "saved r s lzf"
      then obtain bs where "lzf = Some (int (length bs), io_append bs r)" "bs \<noteq> []" unfolding saved_def by blast
      then show ?thesis using e False l by simp
    qed
  qed
qed

text \<open>An object whose string the format can hold: a 64 bit integer, or a string shorter than \<open>DUMP_MAX\<close>.\<close>

fun strobj_ok :: "lzf_env \<Rightarrow> strobj \<Rightarrow> bool" where
  "strobj_ok ev (EncInt v) \<longleftrightarrow> LLONG_MIN \<le> v \<and> v \<le> LLONG_MAX"
| "strobj_ok ev (EncRaw s) \<longleftrightarrow> lzf_env_ok ev s \<and> length s < DUMP_MAX"
| "strobj_ok ev (EncEmbstr s) \<longleftrightarrow> lzf_env_ok ev s \<and> length s < DUMP_MAX"

lemma rdbSaveLongLongAsStringObject_ok:
  assumes "LLONG_MIN \<le> v" "v \<le> LLONG_MAX"
  shows "saved r (to_bytes (dec_int v)) (Some (rdbSaveLongLongAsStringObject r v))"
proof (cases "rdbEncodeInteger v = []")
  case False
  then show ?thesis using savedI [OF loads_integer [OF False] False, of r]
    by (simp add: rdbSaveLongLongAsStringObject_def Let_def)
next
  case True
  let ?d = "to_bytes (dec_int v)"
  have l: "length (dec_int v) \<le> 20" by (rule dec_int_length [OF assms])
  have ld: "length ?d = length (dec_int v)" by (simp add: to_bytes_def)
  have "rdbSaveLongLongAsStringObject r v = (int (length (len_bytes (length ?d) @ ?d)), io_append (len_bytes (length ?d) @ ?d) r)"
    using True l ld len_bytes_le [of "length (dec_int v)"]
    by (simp add: rdbSaveLongLongAsStringObject_def ll2string_correct Let_def)
  moreover have "length ?d < 2 ^ 32 - 1" using l ld by simp
  ultimately show ?thesis using savedI [OF loads_verbatim, of ?d r] by simp
qed

lemma rdbSaveStringObject_ok:
  assumes "strobj_ok ev ob"
  shows "saved r (obj_bytes ob) (rdbSaveStringObject compression ev r ob)"
  using assms rdbSaveLongLongAsStringObject_ok rdbSaveRawString_ok
  by (cases ob) (simp_all add: rdbSaveStringObject_def)

lemma to_bytes_to_chars [simp]: "to_bytes (to_chars bs) = bs"
proof (induction bs)
  case (Cons b bs)
  have "unat b < 256" using unsigned_less [of b, where ?'a = nat] by simp
  then have "(of_nat (of_char (char_of (unat b))) :: u8) = b" by simp
  then show ?case using Cons by (simp add: to_bytes_def to_chars_def)
qed (simp add: to_bytes_def to_chars_def)

lemma tryObjectEncoding_bytes [simp]: "obj_bytes (tryObjectEncoding ob) = obj_bytes ob"
proof -
  have "to_bytes (dec_int v) = s" if "string2l (to_chars s) = Some v" for s v
  proof -
    have "string2ll (to_chars s) = Some v" using that by (auto simp: string2l_def split: option.splits if_splits)
    then have "to_chars s = dec_int v" by (simp add: string2ll_iff)
    then show ?thesis using to_bytes_to_chars [of s] by simp
  qed
  then show ?thesis by (auto simp: tryObjectEncoding_def split: strobj.splits option.splits if_splits)
qed

end
