(* ===== verification/Dump.thy ===== *)
theory Dump
  imports Rdb_Correct
begin

text \<open>The payload of DUMP and RESTORE: \<^verbatim>\<open>cluster.c\<close> of \<^verbatim>\<open>src/redis-3.0.3/src\<close>, lines 4311 to 4428, for string objects.\<close>

section \<open>Operations\<close>

abbreviation (input) REDIS_RDB_VERSION :: nat where "REDIS_RDB_VERSION \<equiv> 6"
abbreviation (input) REDIS_RDB_TYPE_STRING :: u8 where "REDIS_RDB_TYPE_STRING \<equiv> 0"

definition rdbIsObjectType :: "u8 \<Rightarrow> bool" where
  "rdbIsObjectType t \<longleftrightarrow> (t \<ge> 0 \<and> t \<le> 4) \<or> (t \<ge> 9 \<and> t \<le> 13)"

definition rdbLoadObjectType :: "rio \<Rightarrow> (u8 \<times> rio) option" where
  "rdbLoadObjectType rdb =
    (case rdbLoadType rdb of None \<Rightarrow> None | Some (type, rdb) \<Rightarrow> if \<not> rdbIsObjectType type then None else Some (type, rdb))"

text \<open>The branch of \<open>rdbLoadObject\<close> for strings.\<close>

definition rdbLoadObject_string :: "rio \<Rightarrow> strobj loaded" where
  "rdbLoadObject_string rdb =
    (case rdbLoadEncodedStringObject rdb of Got ob rdb \<Rightarrow> Got (tryObjectEncoding ob) rdb | r \<Rightarrow> r)"

text \<open>\<open>None\<close> is a failed assertion or an access outside a buffer.\<close>

definition createDumpPayload :: "bool \<Rightarrow> lzf_env \<Rightarrow> strobj \<Rightarrow> u8 list option" where
  "createDumpPayload compression ev ob = do {
     let payload = rioInitWithBuffer [];
     let (n, payload) = rdbSaveType payload REDIS_RDB_TYPE_STRING;
     if n = 0 then None else do {
     (n, payload) \<leftarrow> rdbSaveStringObject compression ev payload ob;
     if n = 0 then None else do {
     let p = io_ptr payload @ [of_nat (REDIS_RDB_VERSION AND 0xFF), of_nat (drop_bit 8 REDIS_RDB_VERSION AND 0xFF)];
     crc \<leftarrow> crc64 0 p;
     Some (p @ enc_bytes 8 (uint crc)) } } }"

definition verifyDumpPayload :: "u8 list \<Rightarrow> bool option" where
  "verifyDumpPayload p =
    (if length p < 10 then Some False
     else
       let footer = drop (length p - 10) p;
           rdbver = push_bit 8 (unat (footer ! 1)) OR unat (footer ! 0) in
       if rdbver \<noteq> REDIS_RDB_VERSION then Some False
       else do {
         crc \<leftarrow> crc64 0 (take (length p - 8) p);
         Some (enc_bytes 8 (uint crc) = take 8 (drop 2 footer)) })"

text \<open>The part of \<open>restoreCommand\<close> that turns the payload into an object.\<close>

datatype restored = WrongChecksum | BadFormat | Aborted | Value strobj | OtherType u8

definition restore_value :: "u8 list \<Rightarrow> restored option" where
  "restore_value p = do {
     ok \<leftarrow> verifyDumpPayload p;
     Some
       (if \<not> ok then WrongChecksum
        else case rdbLoadObjectType (rioInitWithBuffer p) of
          None \<Rightarrow> BadFormat
        | Some (type, payload) \<Rightarrow>
            if type = REDIS_RDB_TYPE_STRING then
              (case rdbLoadObject_string payload of Null \<Rightarrow> BadFormat | Panic \<Rightarrow> Aborted | Got ob _ \<Rightarrow> Value ob)
            else OtherType type) }"

section \<open>The checksum detects a changed byte\<close>

lemma xor_left_cancel: "a XOR b = a XOR c \<Longrightarrow> b = (c :: 'a :: len word)"
proof -
  assume "a XOR b = a XOR c"
  then have "a XOR (a XOR b) = a XOR (a XOR c)" by (simp only:)
  then show "b = c" by (simp only: xor.assoc [symmetric] xor_self_eq xor.left_neutral)
qed

lemma ucast_u8_inj: "(ucast b :: u64) = ucast (c :: u8) \<Longrightarrow> b = c"
proof -
  assume "(ucast b :: u64) = ucast c"
  then have "unat (ucast b :: u64) = unat (ucast c :: u64)" by (simp only:)
  moreover have "unat (ucast x :: u64) = unat x" for x :: u8
    using unsigned_less [of x, where ?'a = nat] by (simp add: unsigned_ucast_eq take_bit_nat_eq_self)
  ultimately show "b = c" by (simp only: word_unat_eq_iff)
qed

lemma lsb_step_inj:
  assumes p: "bit p (LENGTH('a) - 1)" and eq: "lsb_step p x = lsb_step p (y :: 'a :: len word)"
  shows "x = y"
proof -
  have top: "\<not> bit (drop_bit 1 z) (LENGTH('a) - 1)" for z :: "'a word"
    using bit_imp_le_length [of z "LENGTH('a)"] by (auto simp: bit_drop_bit_eq)
  have "bit (lsb_step p z) (LENGTH('a) - 1) \<longleftrightarrow> bit z 0" for z
    using p top [of z] by (auto simp: lsb_step_def bit_xor_iff)
  then have b0: "bit x 0 \<longleftrightarrow> bit y 0" using eq by metis
  then have "p XOR drop_bit 1 x = p XOR drop_bit 1 y \<or> drop_bit 1 x = drop_bit 1 y"
    using eq by (auto simp: lsb_step_def xor.commute split: if_splits)
  then have d: "drop_bit 1 x = drop_bit 1 y" using xor_left_cancel by blast
  show ?thesis
  proof (rule bit_eqI)
    fix n show "bit x n = bit y n"
      using b0 arg_cong [OF d, of "\<lambda>z. bit z (n - 1)"] by (cases n) (simp_all add: bit_drop_bit_eq)
  qed
qed

lemma lsb_pow_inj:
  assumes "bit p (LENGTH('a) - 1)"
  shows "(lsb_step p ^^ n) x = (lsb_step p ^^ n) (y :: 'a :: len word) \<Longrightarrow> x = y"
  by (induction n arbitrary: x y) (auto simp: funpow_Suc_right simp del: funpow.simps dest: lsb_step_inj [OF assms])

lemma crc64_step_inj:
  "(lsb_step (0x95AC9329AC4BC9B5 :: u64) ^^ 8) x = (lsb_step 0x95AC9329AC4BC9B5 ^^ 8) y \<Longrightarrow> x = y"
  by (erule lsb_pow_inj [rotated]) simp

lemma crc64_serial_inj: "crc64_serial r bs = crc64_serial r' bs \<Longrightarrow> r = r'"
proof (induction bs arbitrary: r r')
  case (Cons b bs)
  then have "(lsb_step (0x95AC9329AC4BC9B5 :: u64) ^^ 8) (r XOR ucast b) = (lsb_step 0x95AC9329AC4BC9B5 ^^ 8) (r' XOR ucast b)"
    by (simp add: crc64_serial_def)
  then have "r XOR ucast b = r' XOR ucast b" by (rule crc64_step_inj)
  then have "ucast b XOR r = ucast b XOR r'" by (simp only: xor.commute)
  then show ?case by (rule xor_left_cancel)
qed (simp add: crc64_serial_def)

lemma crc64_serial_append: "crc64_serial r (xs @ ys) = crc64_serial (crc64_serial r xs) ys"
  by (simp add: crc64_serial_def)

lemma crc64_serial_Cons:
  "crc64_serial r (b # bs) = crc64_serial ((lsb_step 0x95AC9329AC4BC9B5 ^^ 8) (r XOR ucast b)) bs"
  by (simp only: crc64_serial_def foldl.simps)

lemma crc64_detects:
  assumes "i < length bs" "b \<noteq> bs ! i"
  shows "crc64_serial r (bs[i := b]) \<noteq> crc64_serial r bs"
proof
  let ?r = "crc64_serial r (take i bs)"
  assume eq: "crc64_serial r (bs[i := b]) = crc64_serial r bs"
  have bs: "bs = take i bs @ bs ! i # drop (Suc i) bs" using assms(1) by (rule id_take_nth_drop)
  have upd: "bs[i := b] = take i bs @ b # drop (Suc i) bs" using assms(1) by (rule upd_conv_take_nth_drop)
  have "crc64_serial r (bs[i := b]) = crc64_serial ?r (b # drop (Suc i) bs)" unfolding upd by (rule crc64_serial_append)
  moreover have "crc64_serial r bs = crc64_serial ?r (bs ! i # drop (Suc i) bs)"
    using arg_cong [OF bs, of "crc64_serial r"] crc64_serial_append [of r "take i bs" "bs ! i # drop (Suc i) bs"] by (rule trans)
  ultimately have "crc64_serial ((lsb_step 0x95AC9329AC4BC9B5 ^^ 8) (?r XOR ucast b)) (drop (Suc i) bs) =
      crc64_serial ((lsb_step 0x95AC9329AC4BC9B5 ^^ 8) (?r XOR ucast (bs ! i))) (drop (Suc i) bs)"
    using eq by (simp only: crc64_serial_Cons)
  then have "?r XOR ucast b = ?r XOR ucast (bs ! i)" by (rule crc64_step_inj [OF crc64_serial_inj])
  then have "(ucast b :: u64) = ucast (bs ! i)" by (rule xor_left_cancel)
  then have "b = bs ! i" by (rule ucast_u8_inj)
  then show False using assms(2) by simp
qed

section \<open>Payloads\<close>

text \<open>The footer of a payload.\<close>

lemma verify_split:
  assumes "length foot = 2" "length c = 8"
  shows "verifyDumpPayload (body @ foot @ c) =
    Some (push_bit 8 (unat (foot ! 1)) OR unat (foot ! 0) = 6 \<and> enc_bytes 8 (uint (crc64_serial 0 (body @ foot))) = c)"
  using assms by (simp add: verifyDumpPayload_def Let_def crc64_serial_eq nth_append)

lemma payload_split:
  assumes "10 \<le> length p"
  obtains body foot c where "p = body @ foot @ c" "length foot = 2" "length c = 8"
proof
  let ?n = "length p - 10"
  show "p = take ?n p @ take 2 (drop ?n p) @ drop (?n + 2) p"
    by (metis append.assoc append_take_drop_id drop_drop add.commute)
qed (use assms in auto)

lemma enc_bytes_inj:
  assumes "enc_bytes 8 (uint x) = enc_bytes 8 (uint (y :: u64))"
  shows "x = y"
proof -
  have "uint x mod 256 ^ 8 = uint y mod 256 ^ 8" using arg_cong [OF assms, of le_int] by (simp only: le_int_enc_bytes)
  moreover have "uint z mod 256 ^ 8 = uint z" for z :: u64 using uint_lt2p [of z] by (intro mod_pos_pos_trivial) simp_all
  ultimately show ?thesis by (simp only: word_uint_eq_iff)
qed

text \<open>(C11) A payload that RESTORE accepts is rejected after a change of any single byte, in the data, in the
  version or in the checksum itself.\<close>

theorem verifyDumpPayload_detects:
  assumes "verifyDumpPayload p = Some True" and "i < length p" and "b \<noteq> p ! i"
  shows "verifyDumpPayload (p[i := b]) = Some False"
proof -
  have "10 \<le> length p" using assms(1) by (auto simp: verifyDumpPayload_def split: if_splits)
  then obtain body foot c where p: "p = body @ foot @ c" and len: "length foot = 2" "length c = 8" using payload_split by blast
  let ?d = "body @ foot" and ?e = "\<lambda>d. enc_bytes 8 (uint (crc64_serial 0 d))"
  have ok: "?e ?d = c" using assms(1) verify_split [OF len, of body] unfolding p by simp
  show ?thesis
  proof (cases "i < length ?d")
    case True
    have "crc64_serial 0 (?d[i := b]) \<noteq> crc64_serial 0 ?d"
    proof (rule crc64_detects [OF True])
      have "p ! i = ?d ! i" using True p nth_append [of ?d c i] by simp
      then show "b \<noteq> ?d ! i" using assms(3) by simp
    qed
    then have bad: "?e (?d[i := b]) \<noteq> c" using ok enc_bytes_inj [of "crc64_serial 0 (?d[i := b])" "crc64_serial 0 ?d"] by metis
    define body' foot' where "body' = take (length body) (?d[i := b])" and "foot' = drop (length body) (?d[i := b])"
    have split: "?d[i := b] = body' @ foot'" "length foot' = 2" using len by (auto simp: body'_def foot'_def)
    have "p = ?d @ c" by (simp add: p)
    then have "p[i := b] = ?d[i := b] @ c" by (simp only: list_update_append1 [OF True])
    then have "p[i := b] = body' @ foot' @ c" using split(1) by simp
    then show ?thesis using verify_split [OF split(2) len(2), of body'] bad split(1) by simp
  next
    case False
    have "p = ?d @ c" by (simp add: p)
    have "p[i := b] = ?d @ c[i - length ?d := b]" using \<open>p = ?d @ c\<close> list_update_append [of ?d c i b] False by (simp only: if_False)
    then have "p[i := b] = body @ foot @ c[i - length ?d := b]" by (simp only: append_assoc)
    moreover have "c[i - length ?d := b] \<noteq> c"
    proof
      assume eq: "c[i - length ?d := b] = c"
      have "i - length ?d < length c" using assms(2) False p by simp
      then have "c ! (i - length ?d) = b" using eq nth_list_update_eq [of "i - length ?d" c b] by simp
      moreover have "(?d @ c) ! i = c ! (i - length ?d)" using nth_append [of ?d c i] False by (simp only: if_False)
      ultimately show False using assms(3) \<open>p = ?d @ c\<close> by simp
    qed
    ultimately show ?thesis using verify_split [OF len(1), of "c[i - length ?d := b]" body] len(2) ok by simp
  qed
qed

theorem verifyDumpPayload_detects_witness:
  "verifyDumpPayload (([0, 0xC0, 1] @ [6, 0] @ enc_bytes 8 (uint (crc64_serial 0 ([0, 0xC0, 1] @ [6, 0]))))[2 := 3]) = Some False"
proof (rule verifyDumpPayload_detects)
  show "verifyDumpPayload ([0, 0xC0, 1] @ [6, 0] @ enc_bytes 8 (uint (crc64_serial 0 ([0, 0xC0, 1] @ [6, 0])))) = Some True"
    by (subst verify_split) simp_all
qed simp_all

text \<open>(C10) RESTORE accepts what DUMP makes of a string object, whatever its encoding, and whether or not the
  compressor is used, and gets an object with the same string.  The object is a 64 bit integer, or a string
  shorter than 2^31 - 16 bytes that lies above the first 8192 addresses: from that length on the counts of type \<open>int\<close> the
  save functions return, and the 32 bit lengths, overflow.\<close>

theorem dump_restore_string:
  assumes "strobj_ok ev ob"
  shows "\<exists>p ob'. createDumpPayload compression ev ob = Some p \<and> restore_value p = Some (Value ob') \<and>
    obj_bytes ob' = obj_bytes ob"
proof -
  let ?r = "io_append [0] (rioInitWithBuffer [])" and ?v = "[6, 0] :: u8 list"
  obtain bs where s: "rdbSaveStringObject compression ev ?r ob = Some (int (length bs), io_append bs ?r)" "bs \<noteq> []"
    "loads bs (obj_bytes ob)" using rdbSaveStringObject_ok [OF assms] unfolding saved_def by blast
  let ?d = "(0 # bs) @ ?v"
  let ?c = "enc_bytes 8 (uint (crc64_serial 0 ?d))"
  define p where "p = (0 # bs) @ ?v @ ?c"
  have "createDumpPayload compression ev ob = Some p"
    using s(1,2) by (simp add: createDumpPayload_def rdbSaveType_def crc64_serial_eq rioInitWithBuffer_def p_def)
  moreover have ok: "verifyDumpPayload p = Some True"
    using verify_split [of ?v ?c "0 # bs"] by (simp add: p_def)
  moreover have rd: "rioRead (rioInitWithBuffer p) 1 = Some ([0], io_skip [0] (rioInitWithBuffer p))"
    by (rule rioRead_ok [where cs = "bs @ ?v @ ?c"]) (simp_all add: p_def)
  moreover have "io_rest (io_skip [0] (rioInitWithBuffer p)) = bs @ ?v @ ?c"
    by (rule io_rest_skip) (simp add: p_def)
  then obtain ob' where "rdbGenericLoadStringObject (io_skip [0] (rioInitWithBuffer p)) True =
      Got ob' (io_skip bs (io_skip [0] (rioInitWithBuffer p)))" "obj_bytes ob' = obj_bytes ob"
    using s(3) unfolding loads_def by blast
  ultimately show ?thesis
    by (intro exI [of _ p] exI [of _ "tryObjectEncoding ob'"])
      (simp add: restore_value_def rdbLoadObjectType_def rdbLoadType_def rdbIsObjectType_def rdbLoadObject_string_def
        rdbLoadEncodedStringObject_def)
qed

theorem dump_restore_string_witness:
  "\<exists>p ob'. createDumpPayload True (8192, \<lambda>_. 0) (EncRaw (replicate 30 97)) = Some p \<and>
    restore_value p = Some (Value ob') \<and> obj_bytes ob' = replicate 30 97"
  using dump_restore_string [of "(8192, \<lambda>_. 0)" "EncRaw (replicate 30 97)" True] by (simp add: lzf_env_ok_def placed_def)

end
