(* ===== verification/Dict_Rehash.thy ===== *)
theory Dict_Rehash
  imports Dict_Laws
begin

text \<open>
  The incremental rehashing of \<^verbatim>\<open>src/redis-3.0.3/src/dict.c\<close> comes to an end: every call of \<open>dictRehash\<close>
  either finishes or moves \<open>rehashidx\<close> forward.
\<close>

lemma rehash_skip_forward: "rehash_skip table i ev = Some (i', ev', b) \<Longrightarrow> i \<le> i' \<and> (b \<longrightarrow> i < i')"
proof (induction table i ev rule: rehash_skip.induct)
  case (1 table i ev)
  from 1(2) have "length table > i" by (subst (asm) rehash_skip.simps) (auto split: if_splits)
  with 1(2) consider "table ! i = []" "ev - 1 \<noteq> 0" "rehash_skip table (i + 1) (ev - 1) = Some (i', ev', b)"
    | "i' = i + 1" | "i' = i" "\<not> b"
    by (subst (asm) rehash_skip.simps) (auto split: if_splits)
  then show ?case using 1(1) \<open>length table > i\<close> by cases auto
qed

text \<open>Forward by \<open>m\<close> buckets at least, in a table of the same size.\<close>

definition advanced :: "int \<Rightarrow> ('k, 'v) dict \<Rightarrow> ('k, 'v) dict \<Rightarrow> bool" where
  "advanced m d d' \<longleftrightarrow> rehashidx d + m \<le> rehashidx d' \<and> ht_size (ht0 d') = ht_size (ht0 d)"

lemma dictRehash_loop_forward:
  assumes "dictRehash_loop d n ev = Some (d', b)"
  shows "advanced (if n = 0 \<or> ht_used (ht0 d) = 0 then 0 else 1) d d'"
  using assms
proof (induction n arbitrary: d ev)
  case 0
  then show ?case by (simp add: advanced_def)
next
  case (Suc n)
  show ?case
  proof (cases "ht_used (ht0 d) = 0")
    case True
    then show ?thesis using Suc.prems by (simp add: advanced_def)
  next
    case False
    then have idx: "0 \<le> rehashidx d" using Suc.prems by (auto split: if_splits)
    obtain i ev' c where sk: "rehash_skip (ht_table (ht0 d)) (nat (rehashidx d)) ev = Some (i, ev', c)"
      using Suc.prems False by (auto split: if_splits option.splits)
    show ?thesis
    proof (cases c)
      case True
      then have "d' = d\<lparr>rehashidx := int i\<rparr>" using Suc.prems False sk by (auto split: if_splits)
      moreover have "nat (rehashidx d) < i" using rehash_skip_forward [OF sk] True by simp
      ultimately show ?thesis using False idx by (auto simp: advanced_def)
    next
      case c: False
      obtain h0 h1 where rb: "rehash_bucket (dtype d) (ht_table (ht0 d) ! i) (ht0 d) (ht1 d) = Some (h0, h1)"
        using Suc.prems False sk c by (auto split: if_splits option.splits)
      define d1 where "d1 = d\<lparr>ht0 := h0\<lparr>ht_table := (ht_table h0)[i := []]\<rparr>, ht1 := h1, rehashidx := int i + 1\<rparr>"
      have l: "dictRehash_loop d1 n ev' = Some (d', b)" using Suc.prems False sk c rb by (simp add: d1_def split: if_splits)
      have "nat (rehashidx d) \<le> i" using rehash_skip_forward [OF sk] by simp
      then have "advanced 1 d d1" using rehash_bucket_sizes [OF rb] idx by (simp add: advanced_def d1_def)
      then show ?thesis using Suc.IH [OF l] False by (auto simp: advanced_def split: if_splits)
    qed
  qed
qed

text \<open>A call that leaves work to do.\<close>

lemma dictRehash_forward:
  assumes inv: "dict_inv d" and "dictRehash d n = Some (d', True)" and "0 < n" 
  shows "advanced 1 d d' \<and> rehashidx d' < int (ht_size (ht0 d'))"
proof -
  have re: "dictIsRehashing d" using assms(2) by (simp add: dictRehash_def split: if_splits)
  obtain b where l: "dictRehash_loop d n (int n * 10) = Some (d', b)" "b \<or> ht_used (ht0 d') \<noteq> 0"
    using assms(2) re by (auto simp: dictRehash_def split: option.splits bool.splits if_splits)
  from dictRehash_loop_correct [OF inv re, of n "int n * 10"]
  have like: "dict_inv d'" "dictIsRehashing d'" and u': "ht_used (ht0 d') \<noteq> 0"
    using l by (auto dest: dict_like_inv)
  have u: "ht_used (ht0 d) \<noteq> 0"
  proof
    assume z: "ht_used (ht0 d) = 0"
    then have "dictRehash_loop d n (int n * 10) = Some (d, False)" using assms(3) by (cases n) simp_all
    then show False using l(1) u' z by simp
  qed
  obtain j where "nat (rehashidx d') \<le> j" "j < length (ht_table (ht0 d'))"
    using rehash_nonempty_left [OF like u'] by blast
  moreover have "length (ht_table (ht0 d')) = ht_size (ht0 d')" using like(1) by (simp add: dict_inv_def ht_wf_def)
  ultimately show ?thesis using dictRehash_loop_forward [OF l(1)] u assms(3) by simp
qed

text \<open>\<open>k\<close> calls, as the timer or the operations on the table make them.\<close>

fun rehash_calls :: "nat \<Rightarrow> nat \<Rightarrow> ('k, 'v) dict \<Rightarrow> ('k, 'v) dict option" where
  "rehash_calls n 0 d = Some d"
| "rehash_calls n (Suc k) d = (case dictRehash d n of None \<Rightarrow> None | Some (d, more_work) \<Rightarrow> rehash_calls n k d)"

lemma rehash_calls_correct:
  assumes "dict_inv d" and "0 < n \<and> int n * 10 \<le> INT_MAX" and "dictIsRehashing d \<Longrightarrow> int (ht_size (ht0 d)) - rehashidx d \<le> int k"
    and "dictIsRehashing d \<Longrightarrow> 0 < k"
  shows "\<exists>d'. rehash_calls n k d = Some d' \<and> \<not> dictIsRehashing d' \<and> dict_like d d'"
  using assms
proof (induction k arbitrary: d)
  case 0
  then show ?case by auto
next
  case (Suc k)
  obtain d1 b where d1: "dictRehash d n = Some (d1, b)" "dict_like d d1" "b \<longleftrightarrow> dictIsRehashing d1"
    using dictRehash_correct [OF Suc.prems(1), of n] Suc.prems(2) by blast
  have "int (ht_size (ht0 d1)) - rehashidx d1 \<le> int k \<and> 0 < k" if re: "dictIsRehashing d1"
  proof -
    have "dictRehash d n = Some (d1, True)" using d1(1,3) re by simp
    then have f: "advanced 1 d d1" "rehashidx d1 < int (ht_size (ht0 d1))"
      using dictRehash_forward [OF Suc.prems(1) _ conjunct1 [OF Suc.prems(2)]] by blast+
    have "dictIsRehashing d" using \<open>dictRehash d n = Some (d1, True)\<close> by (simp add: dictRehash_def split: if_splits)
    then show ?thesis using f Suc.prems(3) by (simp add: advanced_def)
  qed
  then obtain d2 where "rehash_calls n k d1 = Some d2" "\<not> dictIsRehashing d2" "dict_like d1 d2"
    using Suc.IH [OF dict_like_inv [OF d1(2)] Suc.prems(2)] by blast
  then show ?case using d1(1) dict_like_trans [OF d1(2)] by auto
qed

text \<open>Lookups of the keys \<open>ks\<close> in a row.\<close>

fun find_all :: "'k list \<Rightarrow> ('k, 'v) dict \<Rightarrow> ('k, 'v) dict option" where
  "find_all [] d = Some d"
| "find_all (k # ks) d = (case dictFind d k of None \<Rightarrow> None | Some (d, he) \<Rightarrow> find_all ks d)"

lemma dictFind_step:
  assumes inv: "dict_inv d" and it: "iterators d = 0"
  shows "\<exists>d' he b. dictFind d k = Some (d', he) \<and> dictRehash d 1 = Some (d', b) \<and> dict_like d d'"
proof (cases "dictIsRehashing d")
  case False
  then have "dictRehash d 1 = Some (d, False)" by (simp add: dictRehash_def)
  moreover obtain he where "dictFind d k = Some (d, he)"
  proof (cases rule: dictFind_correct [OF inv, of k])
    case (1 d' p)
    then show thesis using False by (intro that [of "Some p"]) (auto simp: dictFind_def split: if_splits Option.bind_splits)
  next
    case (2 d')
    then show thesis using False by (intro that [of None]) (auto simp: dictFind_def split: if_splits Option.bind_splits)
  qed
  ultimately show ?thesis using inv by (intro exI conjI) (auto intro: dict_like_refl)
next
  case True
  have "int 1 * 10 \<le> INT_MAX" by simp
  from dictRehash_correct [OF inv this] obtain d1 b where d1: "dictRehash d 1 = Some (d1, b)" "dict_like d d1" by blast
  then have "dictRehashStep d = Some d1" using it by (simp add: dictRehashStep_def)
  moreover have "0 < ht_size (ht0 d)" using inv True by (simp add: dict_inv_def rehash_wf_def)
  moreover obtain d' he where "dictFind d k = Some (d', he)" using dictFind_correct [OF inv, of k] by metis
  ultimately have "dictFind d k = Some (d1, he)"
    using True by (auto simp: dictFind_def split: Option.bind_splits)
  then show ?thesis using d1 by blast
qed

lemma find_all_rehash_calls:
  "dict_inv d \<Longrightarrow> iterators d = 0 \<Longrightarrow> find_all ks d = rehash_calls 1 (length ks) d"
proof (induction ks arbitrary: d)
  case (Cons k ks)
  obtain d' he b where s: "dictFind d k = Some (d', he)" "dictRehash d 1 = Some (d', b)" "dict_like d d'"
    using dictFind_step [OF Cons.prems] by blast
  have "find_all ks d' = rehash_calls 1 (length ks) d'"
    using s(3) Cons.prems(2) by (intro Cons.IH) (simp_all add: dict_like_def)
  then show ?case using s(1,2) by simp
qed simp

lemma rehash_calls_finish:
  assumes "dict_inv d" and "0 < n \<and> int n * 10 \<le> INT_MAX" and "ht_size (ht0 d) \<le> k"
  shows "\<exists>d'. rehash_calls n k d = Some d' \<and> \<not> dictIsRehashing d' \<and> dict_inv d' \<and> dict_map d' = dict_map d"
proof -
  have "0 \<le> rehashidx d \<and> 0 < ht_size (ht0 d)" if "dictIsRehashing d"
    using assms(1) that by (simp add: dict_inv_def rehash_wf_def)
  then obtain d' where "rehash_calls n k d = Some d'" "\<not> dictIsRehashing d'" "dict_like d d'"
    using rehash_calls_correct [OF assms(1,2), of k] assms(3) by force
  then show ?thesis using dict_like_inv dict_like_map [OF assms(1)] by blast
qed

text \<open>(C13)
  Incremental rehashing terminates: on a well-formed table in any stage of it, no more calls of \<open>dictRehash\<close>
  than the old table has buckets, with any step count \<open>n\<close> for which \<open>n*10\<close> is an \<open>int\<close>, each moving at least
  one bucket or skipping the empty ones its bound allows, bring it to its end, with the same entries and the
  table still well formed.  As every lookup makes such a call with \<open>n = 1\<close> when no iterator is running, so do
  as many lookups of any keys, found or not.
\<close>

theorem dictRehash_terminates:
  assumes "dict_inv d" and "0 < n" and "int n * 10 \<le> INT_MAX"
  shows "(\<exists>d'. rehash_calls n (ht_size (ht0 d)) d = Some d' \<and> \<not> dictIsRehashing d' \<and> dict_inv d' \<and>
      dict_map d' = dict_map d) \<and>
    (iterators d = 0 \<longrightarrow> ht_size (ht0 d) \<le> length ks \<longrightarrow>
      (\<exists>d'. find_all ks d = Some d' \<and> \<not> dictIsRehashing d' \<and> dict_inv d' \<and> dict_map d' = dict_map d))"
  using rehash_calls_finish [OF assms(1), of n "ht_size (ht0 d)"] rehash_calls_finish [OF assms(1), of 1 "length ks"]
    find_all_rehash_calls [OF assms(1), of ks] assms(2,3) by simp

text \<open>A table of two keys at the start of the growth from 4 to 8 buckets.\<close>

definition rehash_demo :: "(nat, nat) dict" where
  "rehash_demo = \<lparr>dtype = demo_type,
    ht0 = \<lparr>ht_table = [[], [(1, 10)], [], [(3, 30)]], ht_size = 4, ht_sizemask = 3, ht_used = 2\<rparr>,
    ht1 = \<lparr>ht_table = replicate 8 [], ht_size = 8, ht_sizemask = 7, ht_used = 0\<rparr>, rehashidx = 0, iterators = 0\<rparr>"

lemma all_less_4: "(\<forall>i < 4. P i) \<longleftrightarrow> P 0 \<and> P 1 \<and> P 2 \<and> P (3 :: nat)"
  by (simp add: numeral_eq_Suc All_less_Suc ac_simps)

lemma rehash_demo_inv: "dict_inv rehash_demo"
proof -
  have "dictHashKey demo_type 1 AND 3 = 1" "dictHashKey demo_type 3 AND 3 = 3"
    by (simp_all add: dictHashKey_def demo_type_def)
  then show ?thesis
    by (simp add: dict_inv_def rehash_demo_def dictIsRehashing_def rehash_wf_def ht_wf_def ht_entries_def
        dict_entries_def bucket_ok_def all_less_4)
qed

lemma rehash_demo_state:
  "dictIsRehashing rehash_demo \<and> iterators rehash_demo = 0 \<and> ht_size (ht0 rehash_demo) = 4 \<and>
    dict_map rehash_demo 3 = Some 30"
  by (simp add: rehash_demo_def dictIsRehashing_def dict_map_def dict_entries_def ht_entries_def)

theorem dictRehash_terminates_witness:
  "dictIsRehashing rehash_demo \<and>
    (\<exists>d'. rehash_calls 1 4 rehash_demo = Some d' \<and> \<not> dictIsRehashing d' \<and> dict_map d' 3 = Some 30) \<and>
    (\<exists>d'. find_all [7, 7, 1, 9] rehash_demo = Some d' \<and> \<not> dictIsRehashing d' \<and> dict_map d' 3 = Some 30)"
  using dictRehash_terminates [OF rehash_demo_inv, of 1 "[7, 7, 1, 9]"] rehash_demo_state
  by auto

end
