(* ===== verification/Watch.thy ===== *)
theory Watch
  imports Prelude "HOL-Library.AList"
begin

text \<open>
  The state of the server as transactions see it, and the bookkeeping of WATCH in
  \<^verbatim>\<open>src/redis-3.0.3/src/multi.c\<close>: every database maps a key to the clients that watch it, and
  every client lists the keys it watches, so that a client can be found from a modified key and the
  entries of a client can be removed when it leaves.

  A client is a number, a pointer to its structure; \<^verbatim>\<open>server.clients\<close> is the list \<open>sv_clients\<close> and the
  structures are \<open>sv_client\<close>.  A pointer to a database is its index.  The hash tables of a database are
  association lists (theory \<open>Dict_Laws\<close> shows that the table of \<^verbatim>\<open>dict.c\<close> is a finite map).  Values are
  strings or opaque objects of the other types.
\<close>

datatype 'v robj = StringObj 'v | OtherObj 'v

datatype set_option = OptNX | OptXX | OptEX "int option" | OptPX "int option" | OptOther

text \<open>
  The commands, with the arguments the program parses: a number is \<^const>\<open>None\<close> where the argument is not
  a decimal number of 64 bits; \<open>MSET\<close> has its pairs and the argument left over by an odd count.
\<close>

datatype ('k, 'v) command =
    GET 'k | SET 'k 'v "set_option list" | SETNX 'k 'v | SETEX 'k "int option" 'v | PSETEX 'k "int option" 'v
  | GETSET 'k 'v | MGET "'k list" | MSET "('k \<times> 'v) list" "'k option" | MSETNX "('k \<times> 'v) list" "'k option"
  | DEL "'k list" | EXISTS "'k list" | FLUSHDB | FLUSHALL | SELECT "int option"
  | RENAME 'k 'k | RENAMENX 'k 'k | MOVE 'k "int option"
  | EXPIRE 'k "int option" | EXPIREAT 'k "int option" | PEXPIRE 'k "int option" | PEXPIREAT 'k "int option"
  | TTL 'k | PTTL 'k | PERSIST 'k | DBSIZE | UNWATCH

text \<open>What a client sends; \<open>BadRequest\<close> is an unknown command or a wrong number of arguments.\<close>

datatype ('k, 'v) request = Cmd "('k, 'v) command" | MULTI | EXEC | DISCARD | WATCH "'k list" | BadRequest

datatype 'v reply =
    ReplyOk | ReplyQueued | ReplyInt int | ReplyNull | ReplyBulk 'v | ReplyMultiLen nat | ReplyNullMulti
  | ReplyError string

record ('k, 'v) redisDb =
  db_dict :: "('k \<times> 'v robj) list"
  db_expires :: "('k \<times> int) list"
  db_watched_keys :: "('k \<times> nat list) list"

record ('k, 'v) redisClient =
  cl_db :: nat
  cl_multi :: bool
  cl_dirty_cas :: bool
  cl_dirty_exec :: bool
  cl_mstate :: "('k, 'v) command list"
  cl_watched_keys :: "(nat \<times> 'k) list"
  cl_cmd :: "('k, 'v) request"
  cl_reply :: "'v reply list"

record ('k, 'v) redisServer =
  sv_dbnum :: nat
  sv_db :: "nat \<Rightarrow> ('k, 'v) redisDb"
  sv_clients :: "nat list"
  sv_client :: "nat \<Rightarrow> ('k, 'v) redisClient"
  sv_dirty :: int
  sv_masterhost :: bool
  sv_saveparams :: bool
  sv_mstime :: "nat \<Rightarrow> int"
  sv_slaveseldb :: int
  sv_stream :: "('k, 'v) request list"

definition upd_db :: "nat \<Rightarrow> (('k, 'v) redisDb \<Rightarrow> ('k, 'v) redisDb) \<Rightarrow> ('k, 'v) redisServer \<Rightarrow> ('k, 'v) redisServer" where
  "upd_db d f s = s\<lparr>sv_db := (sv_db s)(d := f (sv_db s d))\<rparr>"

definition upd_client :: "nat \<Rightarrow> (('k, 'v) redisClient \<Rightarrow> ('k, 'v) redisClient) \<Rightarrow> ('k, 'v) redisServer \<Rightarrow> ('k, 'v) redisServer" where
  "upd_client c f s = s\<lparr>sv_client := (sv_client s)(c := f (sv_client s c))\<rparr>"

definition addReply :: "nat \<Rightarrow> 'v reply \<Rightarrow> ('k, 'v) redisServer \<Rightarrow> ('k, 'v) redisServer" where
  "addReply c r = upd_client c (\<lambda>cl. cl\<lparr>cl_reply := cl_reply cl @ [r]\<rparr>)"

text \<open>What the tables of a database say about a key.\<close>

definition ks :: "('k, 'v) redisServer \<Rightarrow> nat \<Rightarrow> 'k \<Rightarrow> 'v robj option" where
  "ks s d k = map_of (db_dict (sv_db s d)) k"

definition exps :: "('k, 'v) redisServer \<Rightarrow> nat \<Rightarrow> 'k \<Rightarrow> int option" where
  "exps s d k = map_of (db_expires (sv_db s d)) k"

definition watchers :: "('k, 'v) redisServer \<Rightarrow> nat \<Rightarrow> 'k \<Rightarrow> nat list" where
  "watchers s d k = (case map_of (db_watched_keys (sv_db s d)) k of None \<Rightarrow> [] | Some cs \<Rightarrow> cs)"

definition dirty_cas :: "('k, 'v) redisServer \<Rightarrow> nat \<Rightarrow> bool" where
  "dirty_cas s x = cl_dirty_cas (sv_client s x)"

definition watched :: "('k, 'v) redisServer \<Rightarrow> nat \<Rightarrow> (nat \<times> 'k) list" where
  "watched s x = cl_watched_keys (sv_client s x)"

lemmas view_defs = ks_def exps_def watchers_def dirty_cas_def watched_def

subsection \<open>Watching and unwatching\<close>

definition watchForKey :: "nat \<Rightarrow> 'k \<Rightarrow> ('k, 'v) redisServer \<Rightarrow> ('k, 'v) redisServer" where
  "watchForKey c k s =
    (let d = cl_db (sv_client s c) in
     if (d, k) \<in> set (cl_watched_keys (sv_client s c)) then s
     else
       let clients = (case map_of (db_watched_keys (sv_db s d)) k of None \<Rightarrow> [] | Some cs \<Rightarrow> cs);
           s = upd_db d (\<lambda>b. b\<lparr>db_watched_keys := AList.update k (clients @ [c]) (db_watched_keys b)\<rparr>) s
       in upd_client c (\<lambda>cl. cl\<lparr>cl_watched_keys := cl_watched_keys cl @ [(d, k)]\<rparr>) s)"

fun unwatch_loop :: "nat \<Rightarrow> (nat \<times> 'k) list \<Rightarrow> ('k, 'v) redisServer \<Rightarrow> ('k, 'v) redisServer option" where
  "unwatch_loop c [] s = Some s"
| "unwatch_loop c ((d, k) # wks) s =
    (case map_of (db_watched_keys (sv_db s d)) k of
       None \<Rightarrow> None
     | Some clients \<Rightarrow>
         if c \<notin> set clients then None
         else
           let clients' = remove1 c clients;
               s = upd_db d (\<lambda>b. b\<lparr>db_watched_keys :=
                     if clients' = [] then AList.delete k (db_watched_keys b)
                     else AList.update k clients' (db_watched_keys b)\<rparr>) s;
               s = upd_client c (\<lambda>cl. cl\<lparr>cl_watched_keys := tl (cl_watched_keys cl)\<rparr>) s
           in unwatch_loop c wks s)"

definition unwatchAllKeys :: "nat \<Rightarrow> ('k, 'v) redisServer \<Rightarrow> ('k, 'v) redisServer option" where
  "unwatchAllKeys c s = unwatch_loop c (cl_watched_keys (sv_client s c)) s"

definition unwatchCommand :: "nat \<Rightarrow> ('k, 'v) redisServer \<Rightarrow> ('k, 'v) redisServer option" where
  "unwatchCommand c s = do {
     s \<leftarrow> unwatchAllKeys c s;
     Some (addReply c ReplyOk (upd_client c (\<lambda>cl. cl\<lparr>cl_dirty_cas := False\<rparr>) s)) }"

definition watchCommand :: "nat \<Rightarrow> 'k list \<Rightarrow> ('k, 'v) redisServer \<Rightarrow> ('k, 'v) redisServer" where
  "watchCommand c keys s =
    (if cl_multi (sv_client s c) then addReply c (ReplyError ''WATCH inside MULTI is not allowed'') s
     else addReply c ReplyOk (fold (watchForKey c) keys s))"

subsection \<open>Touching\<close>

definition set_dirty_cas :: "nat \<Rightarrow> ('k, 'v) redisServer \<Rightarrow> ('k, 'v) redisServer" where
  "set_dirty_cas x = upd_client x (\<lambda>cl. cl\<lparr>cl_dirty_cas := True\<rparr>)"

definition touchWatchedKey :: "nat \<Rightarrow> 'k \<Rightarrow> ('k, 'v) redisServer \<Rightarrow> ('k, 'v) redisServer" where
  "touchWatchedKey d k s =
    (if db_watched_keys (sv_db s d) = [] then s
     else case map_of (db_watched_keys (sv_db s d)) k of
       None \<Rightarrow> s
     | Some clients \<Rightarrow> fold set_dirty_cas clients s)"

text \<open>\<open>dbid\<close> is \<open>-1\<close> when all databases are flushed.\<close>

definition flush_key :: "int \<Rightarrow> nat \<Rightarrow> nat \<times> 'k \<Rightarrow> ('k, 'v) redisServer \<Rightarrow> ('k, 'v) redisServer" where
  "flush_key dbid x wk s =
    (if (dbid = -1 \<or> int (fst wk) = dbid) \<and> map_of (db_dict (sv_db s (fst wk))) (snd wk) \<noteq> None
     then set_dirty_cas x s else s)"

definition touchWatchedKeysOnFlush :: "int \<Rightarrow> ('k, 'v) redisServer \<Rightarrow> ('k, 'v) redisServer" where
  "touchWatchedKeysOnFlush dbid s =
    fold (\<lambda>x s. fold (flush_key dbid x) (cl_watched_keys (sv_client s x)) s) (sv_clients s) s"

subsection \<open>Projections\<close>

text \<open>
  Every operation is described by what it does to the views of the state; an operation that leaves a
  view alone has an equation that says so.
\<close>

lemma upd_db_fields [simp]:
  "sv_dbnum (upd_db d f s) = sv_dbnum s" "sv_clients (upd_db d f s) = sv_clients s"
  "sv_client (upd_db d f s) = sv_client s" "sv_dirty (upd_db d f s) = sv_dirty s"
  "sv_masterhost (upd_db d f s) = sv_masterhost s" "sv_saveparams (upd_db d f s) = sv_saveparams s"
  "sv_mstime (upd_db d f s) = sv_mstime s" "sv_slaveseldb (upd_db d f s) = sv_slaveseldb s"
  "sv_stream (upd_db d f s) = sv_stream s" "sv_db (upd_db d f s) = (sv_db s)(d := f (sv_db s d))"
  by (simp_all add: upd_db_def)

lemma upd_client_fields [simp]:
  "sv_dbnum (upd_client c f s) = sv_dbnum s" "sv_clients (upd_client c f s) = sv_clients s"
  "sv_db (upd_client c f s) = sv_db s" "sv_dirty (upd_client c f s) = sv_dirty s"
  "sv_masterhost (upd_client c f s) = sv_masterhost s" "sv_saveparams (upd_client c f s) = sv_saveparams s"
  "sv_mstime (upd_client c f s) = sv_mstime s" "sv_slaveseldb (upd_client c f s) = sv_slaveseldb s"
  "sv_stream (upd_client c f s) = sv_stream s"
  "sv_client (upd_client c f s) = (sv_client s)(c := f (sv_client s c))"
  by (simp_all add: upd_client_def)

lemma upd_client_views [simp]:
  "ks (upd_client c f s) = ks s" "exps (upd_client c f s) = exps s" "watchers (upd_client c f s) = watchers s"
  by (simp_all add: fun_eq_iff view_defs)

lemma upd_db_views [simp]: "dirty_cas (upd_db d f s) = dirty_cas s" "watched (upd_db d f s) = watched s"
  by (simp_all add: fun_eq_iff view_defs)

lemma fold_set_dirty_cas:
  "fold set_dirty_cas cs s =
    s\<lparr>sv_client := (\<lambda>x. if x \<in> set cs then (sv_client s x)\<lparr>cl_dirty_cas := True\<rparr> else sv_client s x)\<rparr>"
  by (induction cs arbitrary: s) (auto simp: set_dirty_cas_def upd_client_def fun_eq_iff)

text \<open>Marking a set of clients.\<close>

definition marked :: "nat set \<Rightarrow> ('k, 'v) redisServer \<Rightarrow> ('k, 'v) redisServer" where
  "marked A s = s\<lparr>sv_client := (\<lambda>x. if x \<in> A then (sv_client s x)\<lparr>cl_dirty_cas := True\<rparr> else sv_client s x)\<rparr>"

lemma marked_fields [simp]:
  "sv_dbnum (marked A s) = sv_dbnum s" "sv_clients (marked A s) = sv_clients s"
  "sv_db (marked A s) = sv_db s" "sv_dirty (marked A s) = sv_dirty s"
  "sv_masterhost (marked A s) = sv_masterhost s" "sv_saveparams (marked A s) = sv_saveparams s"
  "sv_mstime (marked A s) = sv_mstime s" "sv_slaveseldb (marked A s) = sv_slaveseldb s"
  "sv_stream (marked A s) = sv_stream s"
  "cl_db (sv_client (marked A s) x) = cl_db (sv_client s x)"
  "cl_multi (sv_client (marked A s) x) = cl_multi (sv_client s x)"
  "cl_dirty_exec (sv_client (marked A s) x) = cl_dirty_exec (sv_client s x)"
  "cl_mstate (sv_client (marked A s) x) = cl_mstate (sv_client s x)"
  "cl_watched_keys (sv_client (marked A s) x) = cl_watched_keys (sv_client s x)"
  "cl_cmd (sv_client (marked A s) x) = cl_cmd (sv_client s x)"
  "cl_reply (sv_client (marked A s) x) = cl_reply (sv_client s x)"
  "cl_dirty_cas (sv_client (marked A s) x) = (cl_dirty_cas (sv_client s x) \<or> x \<in> A)"
  by (simp_all add: marked_def)

lemma marked_views [simp]:
  "ks (marked A s) = ks s" "exps (marked A s) = exps s" "watchers (marked A s) = watchers s"
  "watched (marked A s) = watched s" "dirty_cas (marked A s) x = (dirty_cas s x \<or> x \<in> A)"
  by (simp_all add: fun_eq_iff view_defs)

lemma marked_marked: "marked A (marked B s) = marked (A \<union> B) s"
  by (simp add: marked_def fun_eq_iff)

lemma marked_empty [simp]: "marked {} s = s"
  by (simp add: marked_def)

lemma touchWatchedKey_marked: "touchWatchedKey d k s = marked (set (watchers s d k)) s"
  by (auto simp: touchWatchedKey_def fold_set_dirty_cas marked_def watchers_def split: option.splits)

text \<open>The key \<open>wk\<close> is removed by the flush.\<close>

definition flushed :: "int \<Rightarrow> ('k, 'v) redisServer \<Rightarrow> nat \<times> 'k \<Rightarrow> bool" where
  "flushed dbid s wk \<longleftrightarrow> (dbid = -1 \<or> int (fst wk) = dbid) \<and> ks s (fst wk) (snd wk) \<noteq> None"

lemma flushed_marked [simp]: "flushed dbid (marked A s) = flushed dbid s"
  by (simp add: flushed_def fun_eq_iff)

lemma flush_key_marked: "flush_key dbid x wk s = (if flushed dbid s wk then marked {x} s else s)"
  by (simp add: flush_key_def flushed_def ks_def set_dirty_cas_def upd_client_def marked_def fun_eq_iff)

lemma flush_client_marked:
  "fold (flush_key dbid x) wks s = marked (if \<exists>wk \<in> set wks. flushed dbid s wk then {x} else {}) s"
proof (induction wks arbitrary: s)
  case (Cons wk wks)
  have "fold (flush_key dbid x) (wk # wks) s =
      marked (if \<exists>w \<in> set wks. flushed dbid s w then {x} else {}) (if flushed dbid s wk then marked {x} s else s)"
    using Cons.IH by (simp add: flush_key_marked [of _ _ wk])
  then show ?case by (auto simp: marked_marked)
qed simp

lemma touchWatchedKeysOnFlush_marked:
  "touchWatchedKeysOnFlush dbid s =
    marked {x \<in> set (sv_clients s). \<exists>wk \<in> set (watched s x). flushed dbid s wk} s"
proof -
  have "fold (\<lambda>x s. fold (flush_key dbid x) (cl_watched_keys (sv_client s x)) s) xs s =
      marked {x \<in> set xs. \<exists>wk \<in> set (watched s x). flushed dbid s wk} s" for xs s
  proof (induction xs arbitrary: s)
    case (Cons x xs)
    let ?A = "if \<exists>wk \<in> set (watched s x). flushed dbid s wk then {x} else {}"
    have "fold (\<lambda>x s. fold (flush_key dbid x) (cl_watched_keys (sv_client s x)) s) (x # xs) s =
        marked {y \<in> set xs. \<exists>wk \<in> set (watched s y). flushed dbid s wk} (marked ?A s)"
      using Cons.IH by (simp add: flush_client_marked [of _ x "watched s x", unfolded watched_def] watched_def)
    moreover have "{y \<in> set xs. \<exists>wk \<in> set (watched s y). flushed dbid s wk} \<union> ?A =
        {y \<in> set (x # xs). \<exists>wk \<in> set (watched s y). flushed dbid s wk}" by auto
    ultimately show ?case by (simp only: marked_marked)
  qed simp
  then show ?thesis by (simp add: touchWatchedKeysOnFlush_def)
qed

end
