(* ===== verification/Keyspace.thy ===== *)
theory Keyspace
  imports Watch
begin

text \<open>
  The keyspace of \<^verbatim>\<open>src/redis-3.0.3/src/db.c\<close>: lookups that remove expired keys, additions, overwrites,
  deletions, times to live, and the feed of the replication stream (\<^verbatim>\<open>replication.c\<close>).

  The clock is the sequence of the values the calls of \<^verbatim>\<open>mstime()\<close> return.  Failed assertions are
  \<^const>\<open>None\<close>.  The server is not loading a dump, runs outside cluster mode and scripts, without the append
  only file; access times, statistics, keyspace notifications and the wake-up of clients blocked on lists
  are left out.  The products and sums of \<open>long long\<close> times wrap around.
\<close>

definition ll :: "int \<Rightarrow> int" where
  "ll x = signed_take_bit 63 x"

definition mstime :: "('k, 'v) redisServer \<Rightarrow> int \<times> ('k, 'v) redisServer" where
  "mstime s = (sv_mstime s 0, s\<lparr>sv_mstime := (\<lambda>n. sv_mstime s (Suc n))\<rparr>)"

text \<open>The command \<open>r\<close> for database \<open>d\<close> goes to the slaves, behind a \<open>SELECT\<close> where the database changes.
  The server has slaves or a backlog, so that the code does not return at once, and the stream is what the
  backlog and a slave in sync with it receive; slaves that wait for their first dump, the encoding of the
  arguments and the clients that \<open>MONITOR\<close> are left out.\<close>

definition replicationFeedSlaves :: "nat \<Rightarrow> ('k, 'v) request \<Rightarrow> ('k, 'v) redisServer \<Rightarrow> ('k, 'v) redisServer" where
  "replicationFeedSlaves d r s =
    s\<lparr>sv_stream := sv_stream s @ (if sv_slaveseldb s \<noteq> int d then [Cmd (SELECT (Some (int d)))] else []) @ [r],
      sv_slaveseldb := int d\<rparr>"

definition propagateExpire :: "nat \<Rightarrow> 'k \<Rightarrow> ('k, 'v) redisServer \<Rightarrow> ('k, 'v) redisServer" where
  "propagateExpire d k s = replicationFeedSlaves d (Cmd (DEL [k])) s"

definition dbDelete :: "nat \<Rightarrow> 'k \<Rightarrow> ('k, 'v) redisServer \<Rightarrow> ('k, 'v) redisServer \<times> bool" where
  "dbDelete d k s =
    (let s = upd_db d (\<lambda>b. b\<lparr>db_expires := AList.delete k (db_expires b)\<rparr>) s in
     if map_of (db_dict (sv_db s d)) k \<noteq> None
     then (upd_db d (\<lambda>b. b\<lparr>db_dict := AList.delete k (db_dict b)\<rparr>) s, True) else (s, False))"

definition getExpire :: "nat \<Rightarrow> 'k \<Rightarrow> ('k, 'v) redisServer \<Rightarrow> int option" where
  "getExpire d k s =
    (case map_of (db_expires (sv_db s d)) k of
       None \<Rightarrow> Some (-1)
     | Some w \<Rightarrow> if map_of (db_dict (sv_db s d)) k \<noteq> None then Some w else None)"

definition setExpire :: "nat \<Rightarrow> 'k \<Rightarrow> int \<Rightarrow> ('k, 'v) redisServer \<Rightarrow> ('k, 'v) redisServer option" where
  "setExpire d k w s =
    (if map_of (db_dict (sv_db s d)) k \<noteq> None
     then Some (upd_db d (\<lambda>b. b\<lparr>db_expires := AList.update k w (db_expires b)\<rparr>) s) else None)"

definition removeExpire :: "nat \<Rightarrow> 'k \<Rightarrow> ('k, 'v) redisServer \<Rightarrow> (('k, 'v) redisServer \<times> bool) option" where
  "removeExpire d k s =
    (if map_of (db_dict (sv_db s d)) k \<noteq> None
     then Some (upd_db d (\<lambda>b. b\<lparr>db_expires := AList.delete k (db_expires b)\<rparr>) s,
       map_of (db_expires (sv_db s d)) k \<noteq> None)
     else None)"

definition expireIfNeeded :: "nat \<Rightarrow> 'k \<Rightarrow> ('k, 'v) redisServer \<Rightarrow> (('k, 'v) redisServer \<times> bool) option" where
  "expireIfNeeded d k s = do {
     w \<leftarrow> getExpire d k s;
     if w < 0 then Some (s, False)
     else let (now, s) = mstime s in
       if sv_masterhost s then Some (s, w < now)
       else if now \<le> w then Some (s, False)
       else Some (dbDelete d k (propagateExpire d k s)) }"

definition lookupKey :: "nat \<Rightarrow> 'k \<Rightarrow> ('k, 'v) redisServer \<Rightarrow> 'v robj option" where
  "lookupKey d k s = map_of (db_dict (sv_db s d)) k"

definition lookupKeyRead :: "nat \<Rightarrow> 'k \<Rightarrow> ('k, 'v) redisServer \<Rightarrow> (('k, 'v) redisServer \<times> 'v robj option) option" where
  "lookupKeyRead d k s = do {
     (s, e) \<leftarrow> expireIfNeeded d k s;
     Some (s, lookupKey d k s) }"

definition lookupKeyWrite :: "nat \<Rightarrow> 'k \<Rightarrow> ('k, 'v) redisServer \<Rightarrow> (('k, 'v) redisServer \<times> 'v robj option) option" where
  "lookupKeyWrite d k s = do {
     (s, e) \<leftarrow> expireIfNeeded d k s;
     Some (s, lookupKey d k s) }"

definition dbAdd :: "nat \<Rightarrow> 'k \<Rightarrow> 'v robj \<Rightarrow> ('k, 'v) redisServer \<Rightarrow> ('k, 'v) redisServer option" where
  "dbAdd d k v s =
    (if map_of (db_dict (sv_db s d)) k \<noteq> None then None
     else Some (upd_db d (\<lambda>b. b\<lparr>db_dict := AList.update k v (db_dict b)\<rparr>) s))"

definition dbOverwrite :: "nat \<Rightarrow> 'k \<Rightarrow> 'v robj \<Rightarrow> ('k, 'v) redisServer \<Rightarrow> ('k, 'v) redisServer option" where
  "dbOverwrite d k v s =
    (if map_of (db_dict (sv_db s d)) k = None then None
     else Some (upd_db d (\<lambda>b. b\<lparr>db_dict := AList.update k v (db_dict b)\<rparr>) s))"

definition signalModifiedKey :: "nat \<Rightarrow> 'k \<Rightarrow> ('k, 'v) redisServer \<Rightarrow> ('k, 'v) redisServer" where
  "signalModifiedKey d k = touchWatchedKey d k"

definition signalFlushedDb :: "int \<Rightarrow> ('k, 'v) redisServer \<Rightarrow> ('k, 'v) redisServer" where
  "signalFlushedDb dbid = touchWatchedKeysOnFlush dbid"

definition setKey :: "nat \<Rightarrow> 'k \<Rightarrow> 'v robj \<Rightarrow> ('k, 'v) redisServer \<Rightarrow> ('k, 'v) redisServer option" where
  "setKey d k v s = do {
     (s, x) \<leftarrow> lookupKeyWrite d k s;
     s \<leftarrow> (if x = None then dbAdd d k v s else dbOverwrite d k v s);
     (s, e) \<leftarrow> removeExpire d k s;
     Some (signalModifiedKey d k s) }"

definition dbExists :: "nat \<Rightarrow> 'k \<Rightarrow> ('k, 'v) redisServer \<Rightarrow> bool" where
  "dbExists d k s = (map_of (db_dict (sv_db s d)) k \<noteq> None)"

fun emptyDb_loop :: "nat list \<Rightarrow> int \<Rightarrow> ('k, 'v) redisServer \<Rightarrow> ('k, 'v) redisServer \<times> int" where
  "emptyDb_loop [] removed s = (s, removed)"
| "emptyDb_loop (j # js) removed s =
    emptyDb_loop js (removed + int (length (db_dict (sv_db s j))))
      (upd_db j (\<lambda>b. b\<lparr>db_dict := [], db_expires := []\<rparr>) s)"

definition emptyDb :: "('k, 'v) redisServer \<Rightarrow> ('k, 'v) redisServer \<times> int" where
  "emptyDb s = emptyDb_loop [0..<sv_dbnum s] 0 s"

definition selectDb :: "nat \<Rightarrow> int \<Rightarrow> ('k, 'v) redisServer \<Rightarrow> ('k, 'v) redisServer \<times> bool" where
  "selectDb c i s =
    (if i < 0 \<or> int (sv_dbnum s) \<le> i then (s, False)
     else (upd_client c (\<lambda>cl. cl\<lparr>cl_db := nat i\<rparr>) s, True))"

text \<open>The background expiry of one key, on a master.\<close>

definition activeExpireCycleTryExpire :: "nat \<Rightarrow> 'k \<Rightarrow> int \<Rightarrow> ('k, 'v) redisServer \<Rightarrow> ('k, 'v) redisServer" where
  "activeExpireCycleTryExpire d k now s =
    (case map_of (db_expires (sv_db s d)) k of
       None \<Rightarrow> s
     | Some t \<Rightarrow> if t < now then fst (dbDelete d k (propagateExpire d k s)) else s)"

end
