(* ===== verification/Key_Commands.thy ===== *)
theory Key_Commands
  imports Keyspace "HOL-Library.Signed_Division"
begin

text \<open>
  The commands on the keyspace: \<^verbatim>\<open>db.c\<close> and \<^verbatim>\<open>t_string.c\<close> of \<^verbatim>\<open>src/redis-3.0.3/src\<close>.  A value is encoded by
  \<open>tryObjectEncoding\<close> (theory \<open>Rdb\<close>) without a change of the string it stands for.
\<close>

definition incr_dirty :: "int \<Rightarrow> ('k, 'v) redisServer \<Rightarrow> ('k, 'v) redisServer" where
  "incr_dirty n s = s\<lparr>sv_dirty := sv_dirty s + n\<rparr>"

definition not_int :: "'v reply" where
  "not_int = ReplyError ''value is not an integer or out of range''"

subsection \<open>Strings\<close>

text \<open>The options of \<open>SET\<close>: the flags and the time to live, or a syntax error.\<close>

record set_args =
  sa_nx :: bool
  sa_xx :: bool
  sa_expire :: "int option option"
  sa_seconds :: bool

fun set_options :: "set_option list \<Rightarrow> set_args \<Rightarrow> set_args option" where
  "set_options [] a = Some a"
| "set_options (OptNX # os) a = set_options os (a\<lparr>sa_nx := True\<rparr>)"
| "set_options (OptXX # os) a = set_options os (a\<lparr>sa_xx := True\<rparr>)"
| "set_options (OptEX n # os) a = set_options os (a\<lparr>sa_expire := Some n, sa_seconds := True\<rparr>)"
| "set_options (OptPX n # os) a = set_options os (a\<lparr>sa_expire := Some n, sa_seconds := False\<rparr>)"
| "set_options (OptOther # os) a = None"

definition set_store :: "nat \<Rightarrow> nat \<Rightarrow> int option \<Rightarrow> 'k \<Rightarrow> 'v \<Rightarrow> 'v reply \<Rightarrow>
    ('k, 'v) redisServer \<Rightarrow> ('k, 'v) redisServer option" where
  "set_store c d milliseconds k v ok_reply s = do {
     s \<leftarrow> setKey d k (StringObj v) s;
     let s = incr_dirty 1 s;
     s \<leftarrow> (case milliseconds of None \<Rightarrow> Some s
       | Some ms \<Rightarrow> let (now, s) = mstime s in setExpire d k (ll (now + ms)) s);
     Some (addReply c ok_reply s) }"

definition set_checked :: "nat \<Rightarrow> set_args \<Rightarrow> int option \<Rightarrow> 'k \<Rightarrow> 'v \<Rightarrow> 'v reply \<Rightarrow> 'v reply \<Rightarrow>
    ('k, 'v) redisServer \<Rightarrow> ('k, 'v) redisServer option" where
  "set_checked c a milliseconds k v ok_reply abort_reply s = do {
     let d = cl_db (sv_client s c);
     (s, abort) \<leftarrow> (if sa_nx a then do { (s, x) \<leftarrow> lookupKeyWrite d k s; Some (s, x \<noteq> None) } else Some (s, False));
     (s, abort) \<leftarrow> (if \<not> abort \<and> sa_xx a then do { (s, x) \<leftarrow> lookupKeyWrite d k s; Some (s, x = None) }
       else Some (s, abort));
     if abort then Some (addReply c abort_reply s)
     else set_store c d milliseconds k v ok_reply s }"

definition setGenericCommand :: "nat \<Rightarrow> set_args \<Rightarrow> 'k \<Rightarrow> 'v \<Rightarrow> 'v reply \<Rightarrow> 'v reply \<Rightarrow>
    ('k, 'v) redisServer \<Rightarrow> ('k, 'v) redisServer option" where
  "setGenericCommand c a k v ok_reply abort_reply s =
    (case sa_expire a of
       None \<Rightarrow> set_checked c a None k v ok_reply abort_reply s
     | Some None \<Rightarrow> Some (addReply c not_int s)
     | Some (Some n) \<Rightarrow>
         if n \<le> 0 then Some (addReply c (ReplyError ''invalid expire time'') s)
         else set_checked c a (Some (if sa_seconds a then ll (n * 1000) else n)) k v ok_reply abort_reply s)"

definition no_flags :: set_args where
  "no_flags = \<lparr>sa_nx = False, sa_xx = False, sa_expire = None, sa_seconds = True\<rparr>"

definition setCommand :: "nat \<Rightarrow> 'k \<Rightarrow> 'v \<Rightarrow> set_option list \<Rightarrow> ('k, 'v) redisServer \<Rightarrow> ('k, 'v) redisServer option" where
  "setCommand c k v opts s =
    (case set_options opts no_flags of
       None \<Rightarrow> Some (addReply c (ReplyError ''syntax error'') s)
     | Some a \<Rightarrow> setGenericCommand c a k v ReplyOk ReplyNull s)"

definition setnxCommand :: "nat \<Rightarrow> 'k \<Rightarrow> 'v \<Rightarrow> ('k, 'v) redisServer \<Rightarrow> ('k, 'v) redisServer option" where
  "setnxCommand c k v s = setGenericCommand c (no_flags\<lparr>sa_nx := True\<rparr>) k v (ReplyInt 1) (ReplyInt 0) s"

definition setexCommand :: "nat \<Rightarrow> 'k \<Rightarrow> int option \<Rightarrow> 'v \<Rightarrow> ('k, 'v) redisServer \<Rightarrow> ('k, 'v) redisServer option" where
  "setexCommand c k n v s =
    setGenericCommand c (no_flags\<lparr>sa_expire := Some n, sa_seconds := True\<rparr>) k v ReplyOk ReplyNull s"

definition psetexCommand :: "nat \<Rightarrow> 'k \<Rightarrow> int option \<Rightarrow> 'v \<Rightarrow> ('k, 'v) redisServer \<Rightarrow> ('k, 'v) redisServer option" where
  "psetexCommand c k n v s =
    setGenericCommand c (no_flags\<lparr>sa_expire := Some n, sa_seconds := False\<rparr>) k v ReplyOk ReplyNull s"

text \<open>\<open>getGenericCommand\<close> says whether the value had the right type.\<close>

definition getGenericCommand :: "nat \<Rightarrow> 'k \<Rightarrow> ('k, 'v) redisServer \<Rightarrow> (('k, 'v) redisServer \<times> bool) option" where
  "getGenericCommand c k s = do {
     (s, x) \<leftarrow> lookupKeyRead (cl_db (sv_client s c)) k s;
     case x of
       None \<Rightarrow> Some (addReply c ReplyNull s, True)
     | Some (OtherObj v) \<Rightarrow> Some (addReply c (ReplyError ''wrong kind of value'') s, False)
     | Some (StringObj v) \<Rightarrow> Some (addReply c (ReplyBulk v) s, True) }"

definition getCommand :: "nat \<Rightarrow> 'k \<Rightarrow> ('k, 'v) redisServer \<Rightarrow> ('k, 'v) redisServer option" where
  "getCommand c k s = map_option fst (getGenericCommand c k s)"

definition getsetCommand :: "nat \<Rightarrow> 'k \<Rightarrow> 'v \<Rightarrow> ('k, 'v) redisServer \<Rightarrow> ('k, 'v) redisServer option" where
  "getsetCommand c k v s = do {
     (s, ok) \<leftarrow> getGenericCommand c k s;
     if \<not> ok then Some s
     else do {
       s \<leftarrow> setKey (cl_db (sv_client s c)) k (StringObj v) s;
       Some (incr_dirty 1 s) } }"

fun mget_loop :: "nat \<Rightarrow> 'k list \<Rightarrow> ('k, 'v) redisServer \<Rightarrow> ('k, 'v) redisServer option" where
  "mget_loop c [] s = Some s"
| "mget_loop c (k # keys) s = do {
     (s, x) \<leftarrow> lookupKeyRead (cl_db (sv_client s c)) k s;
     mget_loop c keys (addReply c (case x of Some (StringObj v) \<Rightarrow> ReplyBulk v | _ \<Rightarrow> ReplyNull) s) }"

definition mgetCommand :: "nat \<Rightarrow> 'k list \<Rightarrow> ('k, 'v) redisServer \<Rightarrow> ('k, 'v) redisServer option" where
  "mgetCommand c keys s = mget_loop c keys (addReply c (ReplyMultiLen (length keys)) s)"

fun mset_busy :: "nat \<Rightarrow> ('k \<times> 'v) list \<Rightarrow> nat \<Rightarrow> ('k, 'v) redisServer \<Rightarrow> (('k, 'v) redisServer \<times> nat) option" where
  "mset_busy d [] busykeys s = Some (s, busykeys)"
| "mset_busy d ((k, v) # kvs) busykeys s = do {
     (s, x) \<leftarrow> lookupKeyWrite d k s;
     mset_busy d kvs (if x \<noteq> None then Suc busykeys else busykeys) s }"

fun mset_loop :: "nat \<Rightarrow> ('k \<times> 'v) list \<Rightarrow> ('k, 'v) redisServer \<Rightarrow> ('k, 'v) redisServer option" where
  "mset_loop d [] s = Some s"
| "mset_loop d ((k, v) # kvs) s = do {
     s \<leftarrow> setKey d k (StringObj v) s;
     mset_loop d kvs s }"

definition msetGenericCommand :: "nat \<Rightarrow> bool \<Rightarrow> ('k \<times> 'v) list \<Rightarrow> 'k option \<Rightarrow> ('k, 'v) redisServer \<Rightarrow>
    ('k, 'v) redisServer option" where
  "msetGenericCommand c nx kvs odd_arg s =
    (if odd_arg \<noteq> None then Some (addReply c (ReplyError ''wrong number of arguments for MSET'') s)
     else do {
       let d = cl_db (sv_client s c);
       (s, busykeys) \<leftarrow> (if nx then mset_busy d kvs 0 s else Some (s, 0));
       if busykeys \<noteq> 0 then Some (addReply c (ReplyInt 0) s)
       else do {
         s \<leftarrow> mset_loop d kvs s;
         Some (addReply c (if nx then ReplyInt 1 else ReplyOk) (incr_dirty (int (length kvs)) s)) } })"

subsection \<open>Keys\<close>

definition flushdbCommand :: "nat \<Rightarrow> ('k, 'v) redisServer \<Rightarrow> ('k, 'v) redisServer" where
  "flushdbCommand c s =
    (let d = cl_db (sv_client s c);
         s = incr_dirty (int (length (db_dict (sv_db s d)))) s;
         s = signalFlushedDb (int d) s;
         s = upd_db d (\<lambda>b. b\<lparr>db_dict := [], db_expires := []\<rparr>) s
     in addReply c ReplyOk s)"

text \<open>The change counter, a \<open>long long\<close>, passes through an \<open>int\<close> when a dump is written.\<close>

definition flushallCommand :: "nat \<Rightarrow> ('k, 'v) redisServer \<Rightarrow> ('k, 'v) redisServer" where
  "flushallCommand c s =
    (let s = signalFlushedDb (-1) s;
         (s, removed) = emptyDb s;
         s = incr_dirty removed s;
         s = addReply c ReplyOk s;
         s = (if sv_saveparams s then s\<lparr>sv_dirty := c_int (sv_dirty s)\<rparr> else s)
     in incr_dirty 1 s)"

fun del_loop :: "nat \<Rightarrow> 'k list \<Rightarrow> int \<Rightarrow> ('k, 'v) redisServer \<Rightarrow> (('k, 'v) redisServer \<times> int) option" where
  "del_loop d [] deleted s = Some (s, deleted)"
| "del_loop d (k # keys) deleted s = do {
     (s, e) \<leftarrow> expireIfNeeded d k s;
     (case dbDelete d k s of (s, present) \<Rightarrow>
       if present then del_loop d keys (deleted + 1) (incr_dirty 1 (signalModifiedKey d k s))
       else del_loop d keys deleted s) }"

definition delCommand :: "nat \<Rightarrow> 'k list \<Rightarrow> ('k, 'v) redisServer \<Rightarrow> ('k, 'v) redisServer option" where
  "delCommand c keys s = do {
     (s, deleted) \<leftarrow> del_loop (cl_db (sv_client s c)) keys 0 s;
     Some (addReply c (ReplyInt deleted) s) }"

fun exists_loop :: "nat \<Rightarrow> 'k list \<Rightarrow> int \<Rightarrow> ('k, 'v) redisServer \<Rightarrow> (('k, 'v) redisServer \<times> int) option" where
  "exists_loop d [] n s = Some (s, n)"
| "exists_loop d (k # keys) n s = do {
     (s, e) \<leftarrow> expireIfNeeded d k s;
     exists_loop d keys (if dbExists d k s then n + 1 else n) s }"

definition existsCommand :: "nat \<Rightarrow> 'k list \<Rightarrow> ('k, 'v) redisServer \<Rightarrow> ('k, 'v) redisServer option" where
  "existsCommand c keys s = do {
     (s, n) \<leftarrow> exists_loop (cl_db (sv_client s c)) keys 0 s;
     Some (addReply c (ReplyInt n) s) }"

definition selectCommand :: "nat \<Rightarrow> int option \<Rightarrow> ('k, 'v) redisServer \<Rightarrow> ('k, 'v) redisServer" where
  "selectCommand c i s =
    (case i of
       None \<Rightarrow> addReply c (ReplyError ''invalid DB index'') s
     | Some i \<Rightarrow>
         (case selectDb c (c_int i) s of (s, ok) \<Rightarrow>
           addReply c (if ok then ReplyOk else ReplyError ''invalid DB index'') s))"

definition renameGenericCommand :: "nat \<Rightarrow> bool \<Rightarrow> 'k \<Rightarrow> 'k \<Rightarrow> ('k, 'v) redisServer \<Rightarrow> ('k, 'v) redisServer option" where
  "renameGenericCommand c nx k k' s =
    (if k = k' then Some (addReply c (ReplyError ''source and destination objects are the same'') s)
     else do {
       let d = cl_db (sv_client s c);
       (s, x) \<leftarrow> lookupKeyWrite d k s;
       (case x of
          None \<Rightarrow> Some (addReply c (ReplyError ''no such key'') s)
        | Some v \<Rightarrow> do {
            expire \<leftarrow> getExpire d k s;
            (s, y) \<leftarrow> lookupKeyWrite d k' s;
            if y \<noteq> None \<and> nx then Some (addReply c (ReplyInt 0) s)
            else do {
              let s = (if y \<noteq> None then fst (dbDelete d k' s) else s);
              s \<leftarrow> dbAdd d k' v s;
              s \<leftarrow> (if expire \<noteq> -1 then setExpire d k' expire s else Some s);
              let s = fst (dbDelete d k s);
              let s = signalModifiedKey d k s;
              let s = signalModifiedKey d k' s;
              Some (addReply c (if nx then ReplyInt 1 else ReplyOk) (incr_dirty 1 s)) } }) })"

definition moveCommand :: "nat \<Rightarrow> 'k \<Rightarrow> int option \<Rightarrow> ('k, 'v) redisServer \<Rightarrow> ('k, 'v) redisServer option" where
  "moveCommand c k dbid s =
    (let src = cl_db (sv_client s c) in
     case dbid of
       None \<Rightarrow> Some (addReply c (ReplyError ''index out of range'') s)
     | Some i \<Rightarrow>
         if i < - (2 ^ 31) \<or> 2 ^ 31 - 1 < i then Some (addReply c (ReplyError ''index out of range'') s)
         else case selectDb c i s of (s, ok) \<Rightarrow>
           if \<not> ok then Some (addReply c (ReplyError ''index out of range'') s)
           else
             let dst = cl_db (sv_client s c);
                 s = fst (selectDb c (int src) s)
             in if src = dst then Some (addReply c (ReplyError ''source and destination objects are the same'') s)
             else do {
               (s, x) \<leftarrow> lookupKeyWrite (cl_db (sv_client s c)) k s;
               (case x of
                  None \<Rightarrow> Some (addReply c (ReplyInt 0) s)
                | Some v \<Rightarrow> do {
                    (s, y) \<leftarrow> lookupKeyWrite dst k s;
                    if y \<noteq> None then Some (addReply c (ReplyInt 0) s)
                    else do {
                      s \<leftarrow> dbAdd dst k v s;
                      let s = fst (dbDelete src k s);
                      Some (addReply c (ReplyInt 1) (incr_dirty 1 s)) } }) })"

subsection \<open>Times to live\<close>

definition expireGenericCommand :: "nat \<Rightarrow> 'k \<Rightarrow> int option \<Rightarrow> int \<Rightarrow> bool \<Rightarrow> ('k, 'v) redisServer \<Rightarrow>
    ('k, 'v) redisServer option" where
  "expireGenericCommand c k param basetime seconds s =
    (let d = cl_db (sv_client s c) in
     case param of
       None \<Rightarrow> Some (addReply c not_int s)
     | Some w \<Rightarrow> do {
         let w = ll ((if seconds then ll (w * 1000) else w) + basetime);
         (s, x) \<leftarrow> lookupKeyRead d k s;
         if x = None then Some (addReply c (ReplyInt 0) s)
         else
           (case mstime s of (now, s) \<Rightarrow>
             if w \<le> now \<and> \<not> sv_masterhost s then
               (case dbDelete d k s of (s, present) \<Rightarrow>
                 if \<not> present then None
                 else
                   let s = incr_dirty 1 s;
                       s = upd_client c (\<lambda>cl. cl\<lparr>cl_cmd := Cmd (DEL [k])\<rparr>) s
                   in Some (addReply c (ReplyInt 1) (signalModifiedKey d k s)))
             else do {
               s \<leftarrow> setExpire d k w s;
               let s = addReply c (ReplyInt 1) s;
               Some (incr_dirty 1 (signalModifiedKey d k s)) }) })"

definition expireCommand :: "nat \<Rightarrow> 'k \<Rightarrow> int option \<Rightarrow> ('k, 'v) redisServer \<Rightarrow> ('k, 'v) redisServer option" where
  "expireCommand c k w s = (case mstime s of (now, s) \<Rightarrow> expireGenericCommand c k w now True s)"

definition expireatCommand :: "nat \<Rightarrow> 'k \<Rightarrow> int option \<Rightarrow> ('k, 'v) redisServer \<Rightarrow> ('k, 'v) redisServer option" where
  "expireatCommand c k w s = expireGenericCommand c k w 0 True s"

definition pexpireCommand :: "nat \<Rightarrow> 'k \<Rightarrow> int option \<Rightarrow> ('k, 'v) redisServer \<Rightarrow> ('k, 'v) redisServer option" where
  "pexpireCommand c k w s = (case mstime s of (now, s) \<Rightarrow> expireGenericCommand c k w now False s)"

definition pexpireatCommand :: "nat \<Rightarrow> 'k \<Rightarrow> int option \<Rightarrow> ('k, 'v) redisServer \<Rightarrow> ('k, 'v) redisServer option" where
  "pexpireatCommand c k w s = expireGenericCommand c k w 0 False s"

definition ttlGenericCommand :: "nat \<Rightarrow> 'k \<Rightarrow> bool \<Rightarrow> ('k, 'v) redisServer \<Rightarrow> ('k, 'v) redisServer option" where
  "ttlGenericCommand c k output_ms s = do {
     let d = cl_db (sv_client s c);
     (s, x) \<leftarrow> lookupKeyRead d k s;
     if x = None then Some (addReply c (ReplyInt (-2)) s)
     else do {
       expire \<leftarrow> getExpire d k s;
       let (ttl, s) = (if expire \<noteq> -1 then (case mstime s of (now, s) \<Rightarrow> (max 0 (ll (expire - now)), s)) else (-1, s));
       Some (addReply c (ReplyInt (if ttl = -1 then -1 else if output_ms then ttl else ll (ttl + 500) sdiv 1000)) s) } }"

definition persistCommand :: "nat \<Rightarrow> 'k \<Rightarrow> ('k, 'v) redisServer \<Rightarrow> ('k, 'v) redisServer option" where
  "persistCommand c k s =
    (let d = cl_db (sv_client s c) in
     if map_of (db_dict (sv_db s d)) k = None then Some (addReply c (ReplyInt 0) s)
     else do {
       (s, removed) \<leftarrow> removeExpire d k s;
       if removed then Some (incr_dirty 1 (addReply c (ReplyInt 1) s))
       else Some (addReply c (ReplyInt 0) s) })"

definition dbsizeCommand :: "nat \<Rightarrow> ('k, 'v) redisServer \<Rightarrow> ('k, 'v) redisServer" where
  "dbsizeCommand c s = addReply c (ReplyInt (int (length (db_dict (sv_db s (cl_db (sv_client s c))))))) s"

text \<open>The command table.\<close>

fun command_proc :: "nat \<Rightarrow> ('k, 'v) command \<Rightarrow> ('k, 'v) redisServer \<Rightarrow> ('k, 'v) redisServer option" where
  "command_proc c (GET k) s = getCommand c k s"
| "command_proc c (SET k v opts) s = setCommand c k v opts s"
| "command_proc c (SETNX k v) s = setnxCommand c k v s"
| "command_proc c (SETEX k n v) s = setexCommand c k n v s"
| "command_proc c (PSETEX k n v) s = psetexCommand c k n v s"
| "command_proc c (GETSET k v) s = getsetCommand c k v s"
| "command_proc c (MGET keys) s = mgetCommand c keys s"
| "command_proc c (MSET kvs odd_arg) s = msetGenericCommand c False kvs odd_arg s"
| "command_proc c (MSETNX kvs odd_arg) s = msetGenericCommand c True kvs odd_arg s"
| "command_proc c (DEL keys) s = delCommand c keys s"
| "command_proc c (EXISTS keys) s = existsCommand c keys s"
| "command_proc c FLUSHDB s = Some (flushdbCommand c s)"
| "command_proc c FLUSHALL s = Some (flushallCommand c s)"
| "command_proc c (SELECT i) s = Some (selectCommand c i s)"
| "command_proc c (RENAME k k') s = renameGenericCommand c False k k' s"
| "command_proc c (RENAMENX k k') s = renameGenericCommand c True k k' s"
| "command_proc c (MOVE k i) s = moveCommand c k i s"
| "command_proc c (EXPIRE k w) s = expireCommand c k w s"
| "command_proc c (EXPIREAT k w) s = expireatCommand c k w s"
| "command_proc c (PEXPIRE k w) s = pexpireCommand c k w s"
| "command_proc c (PEXPIREAT k w) s = pexpireatCommand c k w s"
| "command_proc c (TTL k) s = ttlGenericCommand c k False s"
| "command_proc c (PTTL k) s = ttlGenericCommand c k True s"
| "command_proc c (PERSIST k) s = persistCommand c k s"
| "command_proc c DBSIZE s = Some (dbsizeCommand c s)"
| "command_proc c UNWATCH s = unwatchCommand c s"

end
