(* ===== verification/Keyspace_Correct.thy ===== *)
theory Keyspace_Correct
  imports Key_Commands
begin

text \<open>
  What the operations of the keyspace do to the views of the state: the values, the times to live, the
  clients to be notified and the replication stream.
\<close>

subsection \<open>Views\<close>

definition feed1 :: "nat \<times> ('k, 'v) request \<Rightarrow> int \<times> ('k, 'v) request list \<Rightarrow> int \<times> ('k, 'v) request list" where
  "feed1 e st = (int (fst e),
    snd st @ (if fst st \<noteq> int (fst e) then [Cmd (SELECT (Some (int (fst e))))] else []) @ [snd e])"

definition feedst :: "('k, 'v) redisServer \<Rightarrow> int \<times> ('k, 'v) request list" where
  "feedst s = (sv_slaveseldb s, sv_stream s)"

lemma upd_db_view [simp]:
  "ks (upd_db d f s) = (ks s)(d := map_of (db_dict (f (sv_db s d))))"
  "exps (upd_db d f s) = (exps s)(d := map_of (db_expires (f (sv_db s d))))"
  "feedst (upd_db d f s) = feedst s"
  by (simp_all add: view_defs feedst_def fun_eq_iff)

lemma upd_db_watchers [simp]:
  "(\<And>b. db_watched_keys (f b) = db_watched_keys b) \<Longrightarrow> watchers (upd_db d f s) = watchers s"
  by (simp add: view_defs fun_eq_iff)

lemma feedst_upd_client [simp]: "feedst (upd_client c f s) = feedst s"
  by (simp add: feedst_def)

lemma feedst_marked [simp]: "feedst (marked A s) = feedst s"
  by (simp add: feedst_def)

lemma replication_fields [simp]:
  "sv_dbnum (replicationFeedSlaves d r s) = sv_dbnum s" "sv_clients (replicationFeedSlaves d r s) = sv_clients s"
  "sv_client (replicationFeedSlaves d r s) = sv_client s" "sv_dirty (replicationFeedSlaves d r s) = sv_dirty s"
  "sv_db (replicationFeedSlaves d r s) = sv_db s"
  "sv_masterhost (replicationFeedSlaves d r s) = sv_masterhost s"
  "sv_saveparams (replicationFeedSlaves d r s) = sv_saveparams s"
  "ks (replicationFeedSlaves d r s) = ks s" "exps (replicationFeedSlaves d r s) = exps s"
  "watchers (replicationFeedSlaves d r s) = watchers s" "dirty_cas (replicationFeedSlaves d r s) = dirty_cas s"
  "watched (replicationFeedSlaves d r s) = watched s"
  "feedst (replicationFeedSlaves d r s) = feed1 (d, r) (feedst s)"
  by (simp_all add: replicationFeedSlaves_def view_defs feedst_def feed1_def fun_eq_iff)

lemma incr_dirty_fields [simp]:
  "sv_dbnum (incr_dirty n s) = sv_dbnum s" "sv_clients (incr_dirty n s) = sv_clients s"
  "sv_client (incr_dirty n s) = sv_client s" "sv_dirty (incr_dirty n s) = sv_dirty s + n"
  "sv_db (incr_dirty n s) = sv_db s" "sv_masterhost (incr_dirty n s) = sv_masterhost s"
  "sv_saveparams (incr_dirty n s) = sv_saveparams s"
  "ks (incr_dirty n s) = ks s" "exps (incr_dirty n s) = exps s" "watchers (incr_dirty n s) = watchers s"
  "dirty_cas (incr_dirty n s) = dirty_cas s" "watched (incr_dirty n s) = watched s"
  "feedst (incr_dirty n s) = feedst s"
  by (simp_all add: incr_dirty_def view_defs feedst_def fun_eq_iff)

lemma mstime_fields [simp]:
  "sv_dbnum (snd (mstime s)) = sv_dbnum s" "sv_clients (snd (mstime s)) = sv_clients s"
  "sv_client (snd (mstime s)) = sv_client s" "sv_dirty (snd (mstime s)) = sv_dirty s"
  "sv_db (snd (mstime s)) = sv_db s" "sv_masterhost (snd (mstime s)) = sv_masterhost s"
  "sv_saveparams (snd (mstime s)) = sv_saveparams s"
  "ks (snd (mstime s)) = ks s" "exps (snd (mstime s)) = exps s" "watchers (snd (mstime s)) = watchers s"
  "dirty_cas (snd (mstime s)) = dirty_cas s" "watched (snd (mstime s)) = watched s"
  "feedst (snd (mstime s)) = feedst s"
  by (simp_all add: mstime_def view_defs feedst_def fun_eq_iff)

lemma addReply_fields [simp]:
  "sv_dbnum (addReply c r s) = sv_dbnum s" "sv_clients (addReply c r s) = sv_clients s"
  "sv_db (addReply c r s) = sv_db s" "sv_dirty (addReply c r s) = sv_dirty s"
  "sv_masterhost (addReply c r s) = sv_masterhost s" "sv_saveparams (addReply c r s) = sv_saveparams s"
  "cl_db (sv_client (addReply c r s) x) = cl_db (sv_client s x)"
  "cl_multi (sv_client (addReply c r s) x) = cl_multi (sv_client s x)"
  "cl_dirty_exec (sv_client (addReply c r s) x) = cl_dirty_exec (sv_client s x)"
  "cl_mstate (sv_client (addReply c r s) x) = cl_mstate (sv_client s x)"
  "cl_cmd (sv_client (addReply c r s) x) = cl_cmd (sv_client s x)"
  "cl_watched_keys (sv_client (addReply c r s) x) = cl_watched_keys (sv_client s x)"
  "cl_dirty_cas (sv_client (addReply c r s) x) = cl_dirty_cas (sv_client s x)"
  "ks (addReply c r s) = ks s" "exps (addReply c r s) = exps s" "watchers (addReply c r s) = watchers s"
  "dirty_cas (addReply c r s) = dirty_cas s" "watched (addReply c r s) = watched s"
  "feedst (addReply c r s) = feedst s"
  by (simp_all add: addReply_def view_defs feedst_def fun_eq_iff)

lemma fold_views [simp]:
  "map_of (db_dict (sv_db s d)) = ks s d" "map_of (db_expires (sv_db s d)) = exps s d"
  by (simp_all add: ks_def exps_def fun_eq_iff)

lemma dbDelete_fields [simp]:
  "sv_dbnum (fst (dbDelete d k s)) = sv_dbnum s" "sv_clients (fst (dbDelete d k s)) = sv_clients s"
  "sv_client (fst (dbDelete d k s)) = sv_client s" "sv_dirty (fst (dbDelete d k s)) = sv_dirty s"
  "sv_masterhost (fst (dbDelete d k s)) = sv_masterhost s"
  "sv_saveparams (fst (dbDelete d k s)) = sv_saveparams s"
  "dirty_cas (fst (dbDelete d k s)) = dirty_cas s" "watched (fst (dbDelete d k s)) = watched s"
  "watchers (fst (dbDelete d k s)) = watchers s" "feedst (fst (dbDelete d k s)) = feedst s"
  "snd (dbDelete d k s) = (ks s d k \<noteq> None)"
  by (simp_all add: dbDelete_def Let_def)

lemma dbDelete_views [simp]:
  "ks (fst (dbDelete d k s)) = (ks s)(d := (ks s d)(k := None))"
  "exps (fst (dbDelete d k s)) = (exps s)(d := (exps s d)(k := None))"
  by (auto simp: dbDelete_def Let_def delete_conv' fun_eq_iff)

subsection \<open>Well-formed databases\<close>

definition db_ok :: "('k, 'v) redisServer \<Rightarrow> bool" where
  "db_ok s \<longleftrightarrow> (\<forall>d k. exps s d k \<noteq> None \<longrightarrow> ks s d k \<noteq> None) \<and>
    (\<forall>d. distinct (map fst (db_dict (sv_db s d)))) \<and> (\<forall>d k. ks s d k \<noteq> None \<longrightarrow> d < sv_dbnum s)"

lemma db_ok_bound: "db_ok s \<Longrightarrow> ks s d k \<noteq> None \<Longrightarrow> d < sv_dbnum s"
  unfolding db_ok_def by blast

lemma db_ok_exps: "db_ok s \<Longrightarrow> ks s d k = None \<Longrightarrow> exps s d k = None"
  unfolding db_ok_def by blast

lemma db_ok_cong: "sv_db s' = sv_db s \<Longrightarrow> sv_dbnum s' = sv_dbnum s \<Longrightarrow> db_ok s' = db_ok s"
  by (simp add: db_ok_def ks_def exps_def del: fold_views)

lemma db_ok_simps [simp]:
  "db_ok (upd_client c f s) = db_ok s" "db_ok (marked A s) = db_ok s"
  "db_ok (replicationFeedSlaves d r s) = db_ok s" "db_ok (incr_dirty n s) = db_ok s"
  "db_ok (snd (mstime s)) = db_ok s" "db_ok (addReply c q s) = db_ok s"
  by (rule db_ok_cong; simp)+

lemma db_okI:
  assumes "\<And>d k w. exps s d k = Some w \<Longrightarrow> ks s d k \<noteq> None" and "\<And>d. distinct (map fst (db_dict (sv_db s d)))"
    and "\<And>d k v. ks s d k = Some v \<Longrightarrow> d < sv_dbnum s"
  shows "db_ok s"
  using assms unfolding db_ok_def by blast

lemma db_okD:
  assumes "db_ok s"
  shows "exps s d k = Some w \<Longrightarrow> ks s d k \<noteq> None" "distinct (map fst (db_dict (sv_db s d)))"
    "ks s d k = Some v \<Longrightarrow> d < sv_dbnum s"
  using assms unfolding db_ok_def by blast+

lemma db_ok_dbDelete [simp]:
  assumes "db_ok s"
  shows "db_ok (fst (dbDelete d k s))"
proof (rule db_okI)
  show "distinct (map fst (db_dict (sv_db (fst (dbDelete d k s)) d')))" for d'
    using db_okD(2) [OF assms] by (simp add: dbDelete_def Let_def distinct_delete)
qed (use db_okD(1,3) [OF assms] in \<open>auto split: if_splits\<close>)

subsection \<open>Removing expired keys\<close>

definition dels :: "(nat \<times> 'k) list \<Rightarrow> (nat \<Rightarrow> 'k \<Rightarrow> 'a option) \<Rightarrow> nat \<Rightarrow> 'k \<Rightarrow> 'a option" where
  "dels ds K d k = (if (d, k) \<in> set ds then None else K d k)"

definition feed_dels :: "(nat \<times> 'k) list \<Rightarrow> int \<times> ('k, 'v) request list \<Rightarrow> int \<times> ('k, 'v) request list" where
  "feed_dels ds st = fold feed1 (map (\<lambda>(d, k). (d, Cmd (DEL [k]))) ds) st"

lemma dels_Nil [simp]: "dels [] K = K"
  by (simp add: dels_def fun_eq_iff)

lemma dels_append: "dels (ds @ ds') K = dels ds' (dels ds K)"
  by (auto simp: dels_def fun_eq_iff)

lemma feed_dels_Nil [simp]: "feed_dels [] st = st"
  by (simp add: feed_dels_def)

lemma feed_dels_append: "feed_dels (ds @ ds') st = feed_dels ds' (feed_dels ds st)"
  by (simp add: feed_dels_def)

text \<open>
  From \<open>s\<close> to \<open>s'\<close> nothing has happened but the removal of the keys \<open>ds\<close>, which had a time to live, with
  its announcement to the slaves; a slave removes none.
\<close>

definition expiry :: "('k, 'v) redisServer \<Rightarrow> (nat \<times> 'k) list \<Rightarrow> ('k, 'v) redisServer \<Rightarrow> bool" where
  "expiry s ds s' \<longleftrightarrow> db_ok s' \<and> ks s' = dels ds (ks s) \<and> exps s' = dels ds (exps s) \<and> watchers s' = watchers s \<and>
    feedst s' = feed_dels ds (feedst s) \<and> sv_client s' = sv_client s \<and> sv_clients s' = sv_clients s \<and>
    sv_dbnum s' = sv_dbnum s \<and> sv_dirty s' = sv_dirty s \<and> sv_masterhost s' = sv_masterhost s \<and>
    sv_saveparams s' = sv_saveparams s \<and> (sv_masterhost s \<longrightarrow> ds = []) \<and>
    (\<forall>d k. (d, k) \<in> set ds \<longrightarrow> exps s d k \<noteq> None \<and> d < sv_dbnum s)"

lemma expiryD:
  assumes "expiry s ds s'"
  shows "db_ok s'" "ks s' = dels ds (ks s)" "exps s' = dels ds (exps s)" "watchers s' = watchers s"
    "feedst s' = feed_dels ds (feedst s)" "sv_client s' = sv_client s" "sv_clients s' = sv_clients s"
    "sv_dbnum s' = sv_dbnum s" "sv_dirty s' = sv_dirty s" "sv_masterhost s' = sv_masterhost s"
    "sv_saveparams s' = sv_saveparams s" "sv_masterhost s \<Longrightarrow> ds = []"
    "(d, k) \<in> set ds \<Longrightarrow> exps s d k \<noteq> None" "watched s' = watched s" "dirty_cas s' = dirty_cas s"
    "(d, k) \<in> set ds \<Longrightarrow> d < sv_dbnum s"
  using assms by (auto simp: expiry_def watched_def dirty_cas_def fun_eq_iff)

lemma expiry_refl: "db_ok s \<Longrightarrow> expiry s [] s"
  by (simp add: expiry_def)

lemma expiry_trans:
  assumes "expiry s ds s1" and "expiry s1 ds' s2" shows "expiry s (ds @ ds') s2"
proof -
  have "exps s d k \<noteq> None \<and> d < sv_dbnum s" if "(d, k) \<in> set ds'" for d k
    using expiryD(13,16) [OF assms(2) that] expiryD(3,8) [OF assms(1)] by (auto simp: dels_def split: if_splits)
  then show ?thesis
    using assms by (auto simp: expiry_def dels_append feed_dels_append)
qed

lemma expiry_clock: "db_ok s \<Longrightarrow> expiry s [] (snd (mstime s))"
  by (simp add: expiry_def)

lemma expiry_key:
  assumes "db_ok s" and "exps s d k \<noteq> None" and "\<not> sv_masterhost s"
  shows "expiry s [(d, k)] (fst (dbDelete d k (propagateExpire d k s)))"
  using assms db_okD(1) [OF assms(1), of d k] db_okD(3) [OF assms(1), of d k]
  by (auto simp: expiry_def propagateExpire_def dels_def feed_dels_def fun_eq_iff)

lemma getExpire_ok: "db_ok s \<Longrightarrow> getExpire d k s = Some (case exps s d k of None \<Rightarrow> -1 | Some w \<Rightarrow> w)"
  using db_ok_exps [of s d k] by (auto simp: getExpire_def split: option.splits)

lemma expireIfNeeded_ok:
  assumes "db_ok s"
  shows "\<exists>s' e ds. expireIfNeeded d k s = Some (s', e) \<and> expiry s ds s' \<and> set ds \<subseteq> {(d, k)}"
proof (cases "exps s d k")
  case None
  then show ?thesis using assms expiry_refl [OF assms] by (auto simp: expireIfNeeded_def getExpire_ok)
next
  case (Some w)
  let ?s1 = "snd (mstime s)"
  have 1: "expiry s [] ?s1" using expiry_clock [OF assms] .
  have m: "mstime s = (sv_mstime s 0, ?s1)" by (simp add: mstime_def)
  consider "w < 0" | "0 \<le> w" "sv_masterhost s \<or> sv_mstime s 0 \<le> w"
    | "0 \<le> w" "\<not> sv_masterhost s" "\<not> sv_mstime s 0 \<le> w" by linarith
  then show ?thesis
  proof cases
    case 1
    then show ?thesis using assms Some expiry_refl [OF assms] by (auto simp: expireIfNeeded_def getExpire_ok)
  next
    case 2
    then have "\<exists>e. expireIfNeeded d k s = Some (?s1, e)"
      using assms Some by (subst expireIfNeeded_def, subst m) (auto simp: getExpire_ok Let_def)
    then show ?thesis using 1 by (metis empty_iff list.set(1) subsetI)
  next
    case 3
    let ?s2 = "dbDelete d k (propagateExpire d k ?s1)"
    have "expireIfNeeded d k s = Some ?s2"
      using assms Some 3 by (subst expireIfNeeded_def, subst m) (simp add: getExpire_ok Let_def)
    then have "expireIfNeeded d k s = Some (fst ?s2, snd ?s2)" by (simp only: prod.collapse)
    moreover have "expiry s [(d, k)] (fst ?s2)"
      using expiry_trans [OF 1 expiry_key [of ?s1 d k]] assms Some 3 by simp
    ultimately show ?thesis by auto
  qed
qed

lemma lookupKeyWrite_ok:
  assumes "db_ok s"
  obtains s' ds where "lookupKeyWrite d k s = Some (s', ks s' d k)" and "expiry s ds s'" and "set ds \<subseteq> {(d, k)}"
proof -
  obtain s' e ds where "expireIfNeeded d k s = Some (s', e)" "expiry s ds s'" "set ds \<subseteq> {(d, k)}"
    using expireIfNeeded_ok [OF assms, of d k] by blast
  then show ?thesis using that by (simp add: lookupKeyWrite_def lookupKey_def)
qed

lemma lookupKeyRead_eq: "lookupKeyRead = lookupKeyWrite"
  by (simp add: lookupKeyRead_def lookupKeyWrite_def fun_eq_iff)

end
