(* ===== verification/Key_Refine.thy ===== *)
theory Key_Refine
  imports Keyspace_Correct
begin

text \<open>
  Every command against a reading of it as a function on the values of the keyspace, together with what
  its callers rely on: the change counter tells when something was changed, the clients that watch a
  changed key are marked, and the fields of the transactions are left alone.
\<close>

subsection \<open>Outcomes\<close>

text \<open>
  From \<open>s\<close> to \<open>s'\<close> the expired keys \<open>ds\<close> are removed, then the values change by \<open>f\<close>, the counter of changes
  grows by \<open>n\<close> and the current command of the client \<open>c\<close> becomes \<open>r\<close>.  When \<open>b\<close> holds, a client that
  watches a key and is not marked sees no change of it but its expiry.
\<close>

definition unnoticed :: "('k, 'v) redisServer \<Rightarrow> (nat \<times> 'k) list \<Rightarrow> ('k, 'v) redisServer \<Rightarrow> bool" where
  "unnoticed s ds s' \<longleftrightarrow> (\<forall>d k x. x \<in> set (watchers s d k) \<longrightarrow> \<not> dirty_cas s' x \<longrightarrow>
    ks s' d k = dels ds (ks s) d k \<and> (exps s' d k = None \<or> exps s' d k = exps s d k) \<and>
    ((d, k) \<in> set ds \<longrightarrow> exps s d k \<noteq> None))"

definition frame :: "nat \<Rightarrow> ('k, 'v) redisServer \<Rightarrow> ('k, 'v) redisServer \<Rightarrow> bool" where
  "frame c s s' \<longleftrightarrow> sv_clients s' = sv_clients s \<and> sv_dbnum s' = sv_dbnum s \<and>
    sv_masterhost s' = sv_masterhost s \<and> sv_saveparams s' = sv_saveparams s \<and>
    watchers s' = watchers s \<and> watched s' = watched s \<and>
    (\<forall>x. cl_multi (sv_client s' x) = cl_multi (sv_client s x) \<and>
      cl_dirty_exec (sv_client s' x) = cl_dirty_exec (sv_client s x) \<and>
      cl_mstate (sv_client s' x) = cl_mstate (sv_client s x) \<and>
      (x \<noteq> c \<longrightarrow> cl_cmd (sv_client s' x) = cl_cmd (sv_client s x)) \<and>
      (dirty_cas s x \<longrightarrow> dirty_cas s' x) \<and>
      (dirty_cas s' x \<longrightarrow> dirty_cas s x \<or> watched s x \<noteq> [] \<or> (\<exists>d k. x \<in> set (watchers s d k))))"

definition outcome :: "bool \<Rightarrow> nat \<Rightarrow> ('k, 'v) redisServer \<Rightarrow> (nat \<times> 'k) list \<Rightarrow>
    ((nat \<Rightarrow> 'k \<Rightarrow> 'v robj option) \<Rightarrow> nat \<Rightarrow> 'k \<Rightarrow> 'v robj option) \<Rightarrow> ('k, 'v) request \<Rightarrow> int \<Rightarrow>
    ('k, 'v) redisServer \<Rightarrow> bool" where
  "outcome b c s ds f r n s' \<longleftrightarrow> db_ok s' \<and> frame c s s' \<and>
    (\<forall>x. cl_db (sv_client s' x) = cl_db (sv_client s x)) \<and>
    ks s' = f (dels ds (ks s)) \<and> feedst s' = feed_dels ds (feedst s) \<and> (sv_masterhost s \<longrightarrow> ds = []) \<and>
    (\<forall>d k. (d, k) \<in> set ds \<longrightarrow> d < sv_dbnum s \<and> exps s d k \<noteq> None) \<and> sv_dirty s' = sv_dirty s + n \<and> cl_cmd (sv_client s' c) = r \<and> (b \<longrightarrow> unnoticed s ds s')"

lemma frame_refl: "frame c s s"
  by (simp add: frame_def)

lemma frame_trans: "frame c s s1 \<Longrightarrow> frame c s1 s2 \<Longrightarrow> frame c s s2"
  unfolding frame_def by (intro conjI allI impI; (elim conjE)?; (simp; metis)?)

lemma frame_marked:
  assumes "frame c s s'" and "\<And>x. x \<in> A \<Longrightarrow> watched s x \<noteq> [] \<or> (\<exists>d k. x \<in> set (watchers s d k))"
  shows "frame c s (marked A s')"
  unfolding frame_def
proof (intro conjI allI impI)
  fix x
  assume "dirty_cas (marked A s') x"
  then show "dirty_cas s x \<or> watched s x \<noteq> [] \<or> (\<exists>d k. x \<in> set (watchers s d k))"
    using assms(2) [of x] assms(1) by (auto simp: frame_def)
qed (use assms(1) in \<open>simp_all add: frame_def\<close>)

lemma expiry_frame: "expiry s ds s' \<Longrightarrow> frame c s s'"
  by (simp add: expiry_def frame_def watched_def dirty_cas_def fun_eq_iff)

lemma expiry_unnoticed: "expiry s ds s' \<Longrightarrow> unnoticed s ds s'"
  by (simp add: unnoticed_def expiry_def dels_def)

lemma unnoticed_trans:
  assumes "unnoticed s ds s1" and "unnoticed s1 ds' s2" and "frame c s s1" and "frame c s1 s2"
  shows "unnoticed s (ds @ ds') s2"
  unfolding unnoticed_def
proof (intro allI impI)
  fix d k x
  assume x: "x \<in> set (watchers s d k)" and n: "\<not> dirty_cas s2 x"
  have n1: "\<not> dirty_cas s1 x" using n assms(4) by (auto simp: frame_def)
  have x1: "x \<in> set (watchers s1 d k)" using x assms(3) by (simp add: frame_def)
  have 1: "ks s1 d k = dels ds (ks s) d k" "exps s1 d k = None \<or> exps s1 d k = exps s d k"
      "(d, k) \<in> set ds \<longrightarrow> exps s d k \<noteq> None"
    using assms(1) x n1 by (auto simp: unnoticed_def)
  have 2: "ks s2 d k = dels ds' (ks s1) d k" "exps s2 d k = None \<or> exps s2 d k = exps s1 d k"
      "(d, k) \<in> set ds' \<longrightarrow> exps s1 d k \<noteq> None"
    using assms(2) x1 n by (auto simp: unnoticed_def)
  have "ks s2 d k = dels (ds @ ds') (ks s) d k" using 1(1) 2(1) by (simp add: dels_def)
  moreover have "exps s2 d k = None \<or> exps s2 d k = exps s d k" using 1(2) 2(2) by auto
  moreover have "(d, k) \<in> set (ds @ ds') \<longrightarrow> exps s d k \<noteq> None" using 1(2,3) 2(3) by auto
  ultimately show "ks s2 d k = dels (ds @ ds') (ks s) d k \<and> (exps s2 d k = None \<or> exps s2 d k = exps s d k) \<and>
      ((d, k) \<in> set (ds @ ds') \<longrightarrow> exps s d k \<noteq> None)" by blast
qed

lemma outcomeD:
  assumes "outcome b c s ds f r n s'"
  shows "db_ok s'" "frame c s s'" "cl_db (sv_client s' x) = cl_db (sv_client s x)"
    "ks s' = f (dels ds (ks s))" "feedst s' = feed_dels ds (feedst s)" "sv_masterhost s \<Longrightarrow> ds = []"
    "sv_dirty s' = sv_dirty s + n" "cl_cmd (sv_client s' c) = r" "b \<Longrightarrow> unnoticed s ds s'"
    "watchers s' = watchers s" "(d, k) \<in> set ds \<Longrightarrow> d < sv_dbnum s" "sv_dbnum s' = sv_dbnum s"
    "(d, k) \<in> set ds \<Longrightarrow> exps s d k \<noteq> None"
  using assms by (auto simp: outcome_def frame_def)

lemma outcome_refl: "db_ok s \<Longrightarrow> outcome b c s [] (\<lambda>K. K) (cl_cmd (sv_client s c)) 0 s"
  by (simp add: outcome_def frame_def unnoticed_def)

lemma outcome_expiry: "expiry s ds s' \<Longrightarrow> outcome b c s ds (\<lambda>K. K) (cl_cmd (sv_client s c)) 0 s'"
  using expiry_frame [of s ds s' c] expiry_unnoticed [of s ds s'] by (simp add: outcome_def expiry_def)

lemma outcome_seq:
  assumes "outcome b c s ds f r1 n s1" and "outcome b c s1 ds' g r m s2"
    and "\<And>d k. (d, k) \<in> set ds' \<Longrightarrow> exps s1 d k \<noteq> None \<Longrightarrow> exps s d k \<noteq> None"
    and "dels ds' (f (dels ds (ks s))) = f (dels (ds @ ds') (ks s))" and "h (dels (ds @ ds') (ks s)) = g (f (dels (ds @ ds') (ks s)))"
  shows "outcome b c s (ds @ ds') h r (n + m) s2"
proof -
  have fr: "frame c s s1" "frame c s1 s2" using assms(1,2) by (simp_all add: outcome_def)
  then have m: "sv_masterhost s1 = sv_masterhost s" "sv_dbnum s1 = sv_dbnum s" by (simp_all add: frame_def)
  have "d < sv_dbnum s \<and> exps s d k \<noteq> None" if "(d, k) \<in> set (ds @ ds')" for d k
  proof (cases "(d, k) \<in> set ds")
    case True
    then show ?thesis using assms(1) unfolding outcome_def by blast
  next
    case False
    then have "(d, k) \<in> set ds'" "d < sv_dbnum s1 \<and> exps s1 d k \<noteq> None" using that assms(2) unfolding outcome_def by auto
    then show ?thesis using assms(3) m(2) by simp
  qed
  then show ?thesis
    using assms(1,2,4,5) frame_trans [OF fr] unnoticed_trans [OF _ _ fr] m
    unfolding outcome_def by (auto simp: feed_dels_append)
qed

lemma expiry_exps: "expiry s ds s1 \<Longrightarrow> exps s1 d k \<noteq> None \<Longrightarrow> exps s d k \<noteq> None"
  using expiryD(3) [of s ds s1] by (simp add: dels_def split: if_splits)

lemma outcome_after_expiry:
  assumes "expiry s ds s1" and "outcome b c s1 ds' g r m s2"
  shows "outcome b c s (ds @ ds') g r m s2"
  by (rule outcome_seq [OF outcome_expiry [OF assms(1)] assms(2), simplified])
    (use expiry_exps [OF assms(1)] in \<open>auto simp: dels_append\<close>)

lemma outcome_after_expiry0:
  assumes "expiry s ds s1" and "outcome b c s1 [] g r m s2"
  shows "outcome b c s ds g r m s2"
  using outcome_after_expiry [OF assms] by simp

lemma frame_simps [simp]:
  "frame c s (addReply x q s') = frame c s s'" "frame c s (incr_dirty m s') = frame c s s'"
  "frame c s (snd (mstime s')) = frame c s s'" "frame c (snd (mstime s)) s' = frame c s s'"
  by (simp_all add: frame_def)

lemma unnoticed_simps [simp]:
  "unnoticed s ds (addReply x q s') = unnoticed s ds s'" "unnoticed s ds (incr_dirty m s') = unnoticed s ds s'"
  "unnoticed s ds (snd (mstime s')) = unnoticed s ds s'" "unnoticed (snd (mstime s)) ds s' = unnoticed s ds s'"
  by (simp_all add: unnoticed_def)

lemma outcome_addReply: "outcome b c s ds f r n s' \<Longrightarrow> outcome b c s ds f r n (addReply x q s')"
  by (simp add: outcome_def)

lemma outcome_incr_dirty: "outcome b c s ds f r n s' \<Longrightarrow> outcome b c s ds f r (n + m) (incr_dirty m s')"
  by (simp add: outcome_def)

lemma outcome_clock: "outcome b c s ds f r n s' \<Longrightarrow> outcome b c s ds f r n (snd (mstime s'))"
  by (simp add: outcome_def)

lemma outcome_from_clock: "outcome b c (snd (mstime s)) ds f r n s' \<Longrightarrow> outcome b c s ds f r n s'"
  by (simp add: outcome_def)

lemma outcome_cong:
  assumes "outcome b c s ds f r n s'" and "g (dels ds (ks s)) = f (dels ds (ks s))" and "n = m"
  shows "outcome b c s ds g r m s'"
  using assms by (simp add: outcome_def)

lemma outcome_weaken: "outcome True c s ds f r n s' \<Longrightarrow> outcome b c s ds f r n s'"
  by (simp add: outcome_def)

subsection \<open>Setting and deleting a key\<close>

definition kput :: "nat \<Rightarrow> 'k \<Rightarrow> 'a option \<Rightarrow> (nat \<Rightarrow> 'k \<Rightarrow> 'a option) \<Rightarrow> nat \<Rightarrow> 'k \<Rightarrow> 'a option" where
  "kput d k v K = K(d := (K d)(k := v))"

lemma kput_apply: "kput d k v K d' k' = (if d' = d \<and> k' = k then v else K d' k')"
  by (simp add: kput_def)

lemma dels_kput: "(d, k) \<notin> set ds \<Longrightarrow> dels ds (kput d k v K) = kput d k v (dels ds K)"
  by (auto simp: dels_def fun_eq_iff kput_apply)

lemma dels_kput_None: "dels ds (kput d k None K) = kput d k None (dels ds K)"
  by (auto simp: dels_def fun_eq_iff kput_apply)

text \<open>The table of values gets \<open>v\<close> for \<open>k\<close>, that of times to live loses \<open>k\<close>, and the watchers are marked.\<close>

lemma put_outcome:
  assumes "db_ok s" and "d < sv_dbnum s"
  shows "outcome True c s [] (kput d k (Some v)) (cl_cmd (sv_client s c)) 0
    (marked (set (watchers s d k)) (upd_db d (\<lambda>b. b\<lparr>db_expires := AList.delete k (db_expires b)\<rparr>)
      (upd_db d (\<lambda>b. b\<lparr>db_dict := AList.update k v (db_dict b)\<rparr>) s)))" (is "outcome _ _ _ _ _ _ _ (marked _ ?s')")
proof -
  have k: "ks ?s' = kput d k (Some v) (ks s)" by (auto simp: update_conv' fun_eq_iff kput_apply)
  have e: "exps ?s' = (exps s)(d := (exps s d)(k := None))" by (simp add: delete_conv')
  have "exps ?s' d' k' \<noteq> None \<longrightarrow> ks ?s' d' k' \<noteq> None" for d' k'
    unfolding k e using db_ok_exps [OF assms(1), of d' k'] by (cases "ks s d' k'") (auto simp: kput_apply)
  moreover have "ks ?s' d' k' \<noteq> None \<longrightarrow> d' < sv_dbnum ?s'" for d' k'
    unfolding k using db_ok_bound [OF assms(1), of d' k'] assms(2) by (auto simp: kput_apply)
  ultimately have "db_ok ?s'" using assms(1) unfolding db_ok_def by (simp add: distinct_update)
  then show ?thesis
    by (auto simp: outcome_def frame_def unnoticed_def update_conv' delete_conv' kput_def)
qed

lemma setKey_outcome:
  assumes "db_ok s" and "d < sv_dbnum s"
  obtains s' ds where "setKey d k v s = Some s'" and "set ds \<subseteq> {(d, k)}"
    and "outcome True c s ds (kput d k (Some v)) (cl_cmd (sv_client s c)) 0 s'"
    and "exps s' = (exps s)(d := (exps s d)(k := None))" and "\<And>x. x \<in> set (watchers s d k) \<Longrightarrow> dirty_cas s' x"
    and "\<And>j k'. (j, k') \<in> set ds \<Longrightarrow> exps s j k' \<noteq> None"
proof -
  obtain s1 ds where 1: "lookupKeyWrite d k s = Some (s1, ks s1 d k)" "expiry s ds s1" "set ds \<subseteq> {(d, k)}"
    using lookupKeyWrite_ok [OF assms(1)] .
  note e = expiryD [OF 1(2)]
  let ?s2 = "upd_db d (\<lambda>b. b\<lparr>db_dict := AList.update k v (db_dict b)\<rparr>) s1"
  let ?s3 = "marked (set (watchers s1 d k)) (upd_db d (\<lambda>b. b\<lparr>db_expires := AList.delete k (db_expires b)\<rparr>) ?s2)"
  have "setKey d k v s = Some ?s3"
    by (simp add: setKey_def 1(1) dbAdd_def dbOverwrite_def removeExpire_def signalModifiedKey_def
        touchWatchedKey_marked update_conv')
  moreover have "outcome True c s ds (kput d k (Some v)) (cl_cmd (sv_client s c)) 0 ?s3"
    using outcome_after_expiry0 [OF 1(2) put_outcome [OF e(1)]] e(6,8) assms(2) by simp
  moreover have "exps ?s3 = (exps s)(d := (exps s d)(k := None))"
    using e(3) 1(3) by (auto simp: delete_conv' dels_def fun_eq_iff)
  moreover have "dirty_cas ?s3 x" if "x \<in> set (watchers s d k)" for x using that e(4) by simp
  ultimately show ?thesis using that 1(3) e(13) by blast
qed

lemma delete_outcome:
  assumes "db_ok s"
  shows "outcome True c s [] (kput d k None) (cl_cmd (sv_client s c)) 0
    (marked (set (watchers s d k)) (fst (dbDelete d k s)))"
  using assms by (auto simp: outcome_def frame_def unnoticed_def kput_def)

lemma setExpire_outcome:
  assumes "db_ok s" and "ks s d k \<noteq> None" and "\<And>x. x \<in> set (watchers s d k) \<Longrightarrow> dirty_cas s x"
  obtains s' where "setExpire d k w s = Some s'" and "outcome True c s [] (\<lambda>K. K) (cl_cmd (sv_client s c)) 0 s'"
proof -
  let ?s' = "upd_db d (\<lambda>b. b\<lparr>db_expires := AList.update k w (db_expires b)\<rparr>) s"
  have k: "ks ?s' = ks s" by simp
  have e: "exps ?s' = (exps s)(d := (exps s d)(k := Some w))" by (simp add: update_conv')
  have "exps ?s' d' k' \<noteq> None \<longrightarrow> ks ?s' d' k' \<noteq> None" for d' k'
    unfolding k e using db_ok_exps [OF assms(1), of d' k'] assms(2) by (cases "ks s d' k'") auto
  then have "db_ok ?s'" using assms(1) unfolding db_ok_def by simp
  then have "outcome True c s [] (\<lambda>K. K) (cl_cmd (sv_client s c)) 0 ?s'"
    using k e assms(3) by (auto simp: outcome_def frame_def unnoticed_def)
  moreover have "setExpire d k w s = Some ?s'" using assms(2) by (simp add: setExpire_def)
  ultimately show ?thesis using that by blast
qed

end
