(* ===== verification/Key_Spec.thy ===== *)
theory Key_Spec
  imports Key_Refine
begin

text \<open>What the commands do to the values of the keyspace, and that the code does it.\<close>

subsection \<open>The commands as functions on the values\<close>

definition bad_expire :: "set_args \<Rightarrow> bool" where
  "bad_expire a = (case sa_expire a of None \<Rightarrow> False | Some None \<Rightarrow> True | Some (Some n) \<Rightarrow> n \<le> 0)"

definition kset :: "nat \<Rightarrow> set_args \<Rightarrow> 'k \<Rightarrow> 'v \<Rightarrow> (nat \<Rightarrow> 'k \<Rightarrow> 'v robj option) \<Rightarrow> nat \<Rightarrow> 'k \<Rightarrow> 'v robj option" where
  "kset d a k v K =
    (if bad_expire a \<or> sa_nx a \<and> K d k \<noteq> None \<or> sa_xx a \<and> K d k = None then K else kput d k (Some (StringObj v)) K)"

definition kmset :: "nat \<Rightarrow> ('k \<times> 'v) list \<Rightarrow> (nat \<Rightarrow> 'k \<Rightarrow> 'v robj option) \<Rightarrow> nat \<Rightarrow> 'k \<Rightarrow> 'v robj option" where
  "kmset d kvs = fold (\<lambda>(k, v). kput d k (Some (StringObj v))) kvs"

definition krename :: "nat \<Rightarrow> bool \<Rightarrow> 'k \<Rightarrow> 'k \<Rightarrow> (nat \<Rightarrow> 'k \<Rightarrow> 'a option) \<Rightarrow> nat \<Rightarrow> 'k \<Rightarrow> 'a option" where
  "krename d nx k k' K =
    (if k = k' \<or> K d k = None \<or> nx \<and> K d k' \<noteq> None then K else kput d k None (kput d k' (K d k) K))"

definition kmove :: "nat \<Rightarrow> nat \<Rightarrow> 'k \<Rightarrow> int option \<Rightarrow> (nat \<Rightarrow> 'k \<Rightarrow> 'a option) \<Rightarrow> nat \<Rightarrow> 'k \<Rightarrow> 'a option" where
  "kmove N d k i K =
    (case i of
       None \<Rightarrow> K
     | Some i \<Rightarrow>
         if i < 0 \<or> int N \<le> i \<or> 2 ^ 31 \<le> i \<or> nat i = d \<or> K d k = None \<or> K (nat i) k \<noteq> None then K
         else kput d k None (kput (nat i) k (K d k) K))"

fun kapply :: "nat \<Rightarrow> nat \<Rightarrow> ('k, 'v) command \<Rightarrow> (nat \<Rightarrow> 'k \<Rightarrow> 'v robj option) \<Rightarrow> nat \<Rightarrow> 'k \<Rightarrow> 'v robj option" where
  "kapply N d (SET k v opts) K = (case set_options opts no_flags of None \<Rightarrow> K | Some a \<Rightarrow> kset d a k v K)"
| "kapply N d (SETNX k v) K = kset d (no_flags\<lparr>sa_nx := True\<rparr>) k v K"
| "kapply N d (SETEX k n v) K = kset d (no_flags\<lparr>sa_expire := Some n, sa_seconds := True\<rparr>) k v K"
| "kapply N d (PSETEX k n v) K = kset d (no_flags\<lparr>sa_expire := Some n, sa_seconds := False\<rparr>) k v K"
| "kapply N d (GETSET k v) K =
    (case K d k of Some (OtherObj x) \<Rightarrow> K | _ \<Rightarrow> kput d k (Some (StringObj v)) K)"
| "kapply N d (MSET kvs odd_arg) K = (if odd_arg \<noteq> None then K else kmset d kvs K)"
| "kapply N d (MSETNX kvs odd_arg) K =
    (if odd_arg \<noteq> None \<or> (\<exists>(k, v) \<in> set kvs. K d k \<noteq> None) then K else kmset d kvs K)"
| "kapply N d (DEL keys) K = fold (\<lambda>k. kput d k None) keys K"
| "kapply N d FLUSHDB K = K(d := (\<lambda>k. None))"
| "kapply N d FLUSHALL K = (\<lambda>j. if j < N then (\<lambda>k. None) else K j)"
| "kapply N d (RENAME k k') K = krename d False k k' K"
| "kapply N d (RENAMENX k k') K = krename d True k k' K"
| "kapply N d (MOVE k i) K = kmove N d k i K"
| "kapply N d _ K = K"

text \<open>
  A command does \<open>f\<close> to what remains after the removal of expired keys, and the counter of changes tells
  when that changed something.
\<close>

definition performs :: "bool \<Rightarrow> nat \<Rightarrow> ('k, 'v) redisServer \<Rightarrow>
    ((nat \<Rightarrow> 'k \<Rightarrow> 'v robj option) \<Rightarrow> nat \<Rightarrow> 'k \<Rightarrow> 'v robj option) \<Rightarrow> ('k, 'v) request \<Rightarrow>
    ('k, 'v) redisServer option \<Rightarrow> bool" where
  "performs b c s f r res \<longleftrightarrow> (\<exists>s' ds n. res = Some s' \<and> outcome b c s ds f r n s' \<and>
    (n = 0 \<and> f (dels ds (ks s)) = dels ds (ks s) \<or> 0 < n))"

lemma performs_expiry:
  assumes "expiry s ds s'" and "f (dels ds (ks s)) = dels ds (ks s)"
  shows "performs b c s f (cl_cmd (sv_client s c)) (Some s')"
  using outcome_cong [OF outcome_expiry [OF assms(1)] _ refl, of f b c] assms(2) by (auto simp: performs_def)

lemma performs_nothing: "db_ok s \<Longrightarrow> f (ks s) = ks s \<Longrightarrow> performs b c s f (cl_cmd (sv_client s c)) (Some s)"
  using performs_expiry [OF expiry_refl] by simp

lemma performs_addReply: "performs b c s f r (Some s') \<Longrightarrow> performs b c s f r (Some (addReply x q s'))"
  unfolding performs_def using outcome_addReply by fastforce

lemma performs_changed: "outcome b c s ds f r n s' \<Longrightarrow> 0 < n \<Longrightarrow> performs b c s f r (Some s')"
  by (auto simp: performs_def)

lemma performs_weaken: "performs True c s f r res \<Longrightarrow> performs b c s f r res"
  unfolding performs_def using outcome_weaken by blast

subsection \<open>Strings\<close>

lemma set_store_outcome:
  assumes "db_ok s" and "d < sv_dbnum s"
  obtains s' ds where "set_store c d ms k v q s = Some s'" and "set ds \<subseteq> {(d, k)}"
    and "outcome True c s ds (kput d k (Some (StringObj v))) (cl_cmd (sv_client s c)) 1 s'"
proof -
  obtain s2 ds where 2: "setKey d k (StringObj v) s = Some s2" "set ds \<subseteq> {(d, k)}"
      "outcome True c s ds (kput d k (Some (StringObj v))) (cl_cmd (sv_client s c)) 0 s2"
      "\<And>x. x \<in> set (watchers s d k) \<Longrightarrow> dirty_cas s2 x"
    using setKey_outcome [OF assms] by metis
  let ?s3 = "incr_dirty 1 s2"
  have o3: "outcome True c s ds (kput d k (Some (StringObj v))) (cl_cmd (sv_client s c)) 1 ?s3"
    using outcome_incr_dirty [OF 2(3), of 1] by simp
  have p: "set_store c d ms k v q s = (case ms of None \<Rightarrow> Some (addReply c q ?s3)
      | Some ms \<Rightarrow> map_option (addReply c q) (setExpire d k (ll (fst (mstime ?s3) + ms)) (snd (mstime ?s3))))"
    using 2(1) by (auto simp: set_store_def split: option.splits prod.splits)
      (auto simp: map_option_case split: option.splits)
  show ?thesis
  proof (cases ms)
    case None
    then show ?thesis using that p 2(2) outcome_addReply [OF o3, of c q] by simp
  next
    case (Some m)
    let ?s4 = "snd (mstime ?s3)"
    have o4: "outcome True c s ds (kput d k (Some (StringObj v))) (cl_cmd (sv_client s c)) 1 ?s4"
      using outcome_clock [OF o3] .
    have "ks ?s4 d k \<noteq> None" using outcomeD(4) [OF o4] by (simp add: kput_apply)
    moreover have "dirty_cas ?s4 x" if "x \<in> set (watchers ?s4 d k)" for x
      using that 2(4) outcomeD(10) [OF o4] by simp
    ultimately obtain s5 where 5: "setExpire d k (ll (fst (mstime ?s3) + m)) ?s4 = Some s5"
        "outcome True c ?s4 [] (\<lambda>K. K) (cl_cmd (sv_client ?s4 c)) 0 s5"
      using setExpire_outcome [OF outcomeD(1) [OF o4]] by metis
    have "outcome True c s ds (kput d k (Some (StringObj v))) (cl_cmd (sv_client s c)) 1 s5"
      using outcome_seq [OF o4 5(2), of "kput d k (Some (StringObj v))"] outcomeD(8) [OF o4] by simp
    then show ?thesis using that p Some 5(1) 2(2) outcome_addReply by (metis option.simps(5,9))
  qed
qed

lemma set_checked_outcome:
  assumes "db_ok s" and "\<not> sa_xx a" and "\<not> bad_expire a" and "cl_db (sv_client s c) < sv_dbnum s"
  shows "\<exists>s' ds n. set_checked c a ms k v q q' s = Some s' \<and>
    outcome True c s ds (kset (cl_db (sv_client s c)) a k v) (cl_cmd (sv_client s c)) n s' \<and>
    (n = 0 \<and> kset (cl_db (sv_client s c)) a k v (dels ds (ks s)) = dels ds (ks s) \<or> n = 1)"
proof -
  define d where "d = cl_db (sv_client s c)"
  have "\<exists>s1 ds. (if sa_nx a then lookupKeyWrite d k s else Some (s, None)) =
      Some (s1, if sa_nx a then ks s1 d k else None) \<and> expiry s ds s1"
    using lookupKeyWrite_ok [OF assms(1), of d k] expiry_refl [OF assms(1)] by (metis (full_types))
  then obtain s1 ds where 1: "(if sa_nx a then lookupKeyWrite d k s else Some (s, None)) =
      Some (s1, if sa_nx a then ks s1 d k else None)" and e: "expiry s ds s1" by blast
  note eD = expiryD [OF e]
  show ?thesis
  proof (cases "sa_nx a \<and> ks s1 d k \<noteq> None")
    case True
    then have "set_checked c a ms k v q q' s = Some (addReply c q' s1)"
      using 1 by (auto simp: set_checked_def d_def [symmetric])
    moreover have "kset d a k v (dels ds (ks s)) = dels ds (ks s)"
      using True eD(2) by (auto simp: kset_def)
    moreover from this have "outcome True c s ds (kset d a k v) (cl_cmd (sv_client s c)) 0 (addReply c q' s1)"
      by (intro outcome_cong [OF outcome_addReply [OF outcome_expiry [OF e]]]) simp_all
    ultimately show ?thesis unfolding d_def [symmetric] by blast
  next
    case False
    have "d < sv_dbnum s1" using eD(8) assms(4) by (simp add: d_def)
    then obtain s2 ds' where 2: "set_store c d ms k v q s1 = Some s2" "set ds' \<subseteq> {(d, k)}"
        "outcome True c s1 ds' (kput d k (Some (StringObj v))) (cl_cmd (sv_client s1 c)) 1 s2"
      using set_store_outcome [OF eD(1)] by metis
    have o2: "outcome True c s (ds @ ds') (kput d k (Some (StringObj v))) (cl_cmd (sv_client s c)) 1 s2"
      using outcome_after_expiry [OF e 2(3)] eD(6) by simp
    have k: "kset d a k v (dels (ds @ ds') (ks s)) = kput d k (Some (StringObj v)) (dels (ds @ ds') (ks s))"
      using False assms(2,3) eD(2) by (auto simp: kset_def dels_append dels_def)
    have "set_checked c a ms k v q q' s = Some s2"
      using 1 2(1) False assms(2) by (auto simp: set_checked_def d_def [symmetric])
    moreover have "outcome True c s (ds @ ds') (kset d a k v) (cl_cmd (sv_client s c)) 1 s2"
      by (rule outcome_cong [OF o2 _ refl]) (rule k)
    ultimately show ?thesis unfolding d_def [symmetric] by blast
  qed
qed

text \<open>With \<open>XX\<close> the command still runs to its end.\<close>

lemma lookup_if_ok:
  assumes "db_ok s"
  shows "\<exists>s' b ds. (if p then do { (s, x) \<leftarrow> lookupKeyWrite d k s; Some (s, Q x) } else Some (s, b0)) = Some (s', b) \<and>
    expiry s ds s'"
proof (cases p)
  case True
  obtain s' ds where "lookupKeyWrite d k s = Some (s', ks s' d k)" "expiry s ds s'"
    using lookupKeyWrite_ok [OF assms] by metis
  then show ?thesis using True by auto
next
  case False
  then show ?thesis using expiry_refl [OF assms] by auto
qed

lemma set_checked_total:
  assumes "db_ok s" and "cl_db (sv_client s c) < sv_dbnum s"
  shows "\<exists>s' ds f n. set_checked c a ms k v q q' s = Some s' \<and> outcome True c s ds f (cl_cmd (sv_client s c)) n s'"
proof -
  define d where "d = cl_db (sv_client s c)"
  obtain s1 ds b where 1: "(if sa_nx a then do { (s, x) \<leftarrow> lookupKeyWrite d k s; Some (s, x \<noteq> None) } else Some (s, False)) =
      Some (s1, b)" "expiry s ds s1"
    using lookup_if_ok [OF assms(1), of "sa_nx a" d k "\<lambda>x. x \<noteq> None" False] by blast
  obtain s2 ds' b' where 2: "(if \<not> b \<and> sa_xx a then do { (s, x) \<leftarrow> lookupKeyWrite d k s1; Some (s, x = None) } else Some (s1, b)) =
      Some (s2, b')" "expiry s1 ds' s2"
    using lookup_if_ok [OF expiryD(1) [OF 1(2)], of "\<not> b \<and> sa_xx a" d k "\<lambda>x. x = None" b] by blast
  have e: "expiry s (ds @ ds') s2" using expiry_trans [OF 1(2) 2(2)] .
  have r: "set_checked c a ms k v q q' s =
      (if b' then Some (addReply c q' s2) else set_store c d ms k v q s2)"
    unfolding set_checked_def d_def [symmetric] Let_def 1(1) by (simp only: bind.bind_lunit prod.case 2(1))
  show ?thesis
  proof (cases b')
    case True
    then have "set_checked c a ms k v q q' s = Some (addReply c q' s2)" using r by simp
    moreover have "outcome True c s (ds @ ds') (\<lambda>K. K) (cl_cmd (sv_client s c)) 0 (addReply c q' s2)"
      using outcome_addReply [OF outcome_expiry [OF e]] .
    ultimately show ?thesis by blast
  next
    case False
    have "d < sv_dbnum s2" using expiryD(8) [OF e] assms(2) by (simp add: d_def)
    then obtain s3 ds'' where "set_store c d ms k v q s2 = Some s3"
        "outcome True c s2 ds'' (kput d k (Some (StringObj v))) (cl_cmd (sv_client s2 c)) 1 s3"
      using set_store_outcome [OF expiryD(1) [OF e]] by metis
    then show ?thesis using r False outcome_after_expiry [OF e] expiryD(6) [OF e] by metis
  qed
qed

lemma set_checked_performs:
  assumes "db_ok s" and "\<not> sa_xx a" and "\<not> bad_expire a" and "cl_db (sv_client s c) < sv_dbnum s"
  shows "performs True c s (kset (cl_db (sv_client s c)) a k v) (cl_cmd (sv_client s c)) (set_checked c a ms k v q q' s)"
proof -
  obtain s' ds n where "set_checked c a ms k v q q' s = Some s'"
      "outcome True c s ds (kset (cl_db (sv_client s c)) a k v) (cl_cmd (sv_client s c)) n s'"
      "n = 0 \<and> kset (cl_db (sv_client s c)) a k v (dels ds (ks s)) = dels ds (ks s) \<or> n = 1"
    using set_checked_outcome [OF assms] by blast
  then show ?thesis unfolding performs_def using zero_less_one by blast
qed

lemma setGeneric_performs:
  assumes "db_ok s" and "\<not> sa_xx a" and "cl_db (sv_client s c) < sv_dbnum s"
  shows "performs True c s (kset (cl_db (sv_client s c)) a k v) (cl_cmd (sv_client s c)) (setGenericCommand c a k v q q' s)"
proof (cases "bad_expire a")
  case True
  then have "kset (cl_db (sv_client s c)) a k v (ks s) = ks s" by (simp add: kset_def)
  then show ?thesis
    using True assms(1) performs_addReply [OF performs_nothing [OF assms(1)]]
    by (auto simp: setGenericCommand_def bad_expire_def split: option.splits)
next
  case False
  then show ?thesis
    using set_checked_performs [OF assms(1,2) False assms(3)]
    by (auto simp: setGenericCommand_def bad_expire_def split: option.splits)
qed

lemma set_options_xx: "set_options opts a = Some a' \<Longrightarrow> OptXX \<notin> set opts \<Longrightarrow> \<not> sa_xx a \<Longrightarrow> \<not> sa_xx a'"
  by (induction opts a rule: set_options.induct) auto

lemma setCommand_performs:
  assumes "db_ok s" and "OptXX \<notin> set opts" and "cl_db (sv_client s c) < sv_dbnum s"
  shows "performs True c s (kapply N (cl_db (sv_client s c)) (SET k v opts)) (cl_cmd (sv_client s c)) (setCommand c k v opts s)"
proof (cases "set_options opts no_flags")
  case None
  then show ?thesis
    using performs_addReply [OF performs_nothing [OF assms(1)]] by (simp add: setCommand_def)
next
  case (Some a)
  then have "\<not> sa_xx a" using set_options_xx assms(2) by (simp add: no_flags_def)
  moreover have "kapply N (cl_db (sv_client s c)) (SET k v opts) = kset (cl_db (sv_client s c)) a k v"
    by (rule ext) (simp add: Some)
  ultimately show ?thesis using setGeneric_performs [OF assms(1) _ assms(3)] Some by (simp add: setCommand_def)
qed

lemma getGeneric_ok:
  assumes "db_ok s"
  obtains s' ds q where "getGenericCommand c k s =
      Some (addReply c q s', \<nexists>x. ks s' (cl_db (sv_client s c)) k = Some (OtherObj x))" and "expiry s ds s'"
proof -
  obtain s' ds where 1: "lookupKeyWrite (cl_db (sv_client s c)) k s = Some (s', ks s' (cl_db (sv_client s c)) k)"
      "expiry s ds s'"
    using lookupKeyWrite_ok [OF assms] by metis
  then have "\<exists>q. getGenericCommand c k s =
      Some (addReply c q s', \<nexists>x. ks s' (cl_db (sv_client s c)) k = Some (OtherObj x))"
    by (auto simp: getGenericCommand_def lookupKeyRead_eq split: option.splits robj.splits)
  then show ?thesis using that 1(2) by blast
qed

lemma getsetCommand_performs:
  assumes "db_ok s" and "cl_db (sv_client s c) < sv_dbnum s"
  shows "performs True c s (kapply N (cl_db (sv_client s c)) (GETSET k v)) (cl_cmd (sv_client s c)) (getsetCommand c k v s)"
proof -
  define d where "d = cl_db (sv_client s c)"
  obtain s1 ds q where 1: "getGenericCommand c k s = Some (addReply c q s1, \<nexists>x. ks s1 d k = Some (OtherObj x))"
      "expiry s ds s1"
    using getGeneric_ok [OF assms(1)] unfolding d_def by metis
  note e = expiryD [OF 1(2)]
  show ?thesis
  proof (cases "\<exists>x. ks s1 d k = Some (OtherObj x)")
    case True
    then show ?thesis
      using performs_addReply [OF performs_expiry [OF 1(2)]] 1(1) e(2)
      by (auto simp: getsetCommand_def d_def [symmetric])
  next
    case False
    have "db_ok (addReply c q s1)" "d < sv_dbnum (addReply c q s1)" using e(1,8) assms(2) by (simp_all add: d_def)
    then obtain s2 ds' where 2: "setKey d k (StringObj v) (addReply c q s1) = Some s2" "set ds' \<subseteq> {(d, k)}"
        "outcome True c (addReply c q s1) ds' (kput d k (Some (StringObj v))) (cl_cmd (sv_client s1 c)) 0 s2"
      using setKey_outcome [of "addReply c q s1" d k "StringObj v" c] by (metis addReply_fields(11))
    have o: "outcome True c s (ds @ ds') (kput d k (Some (StringObj v))) (cl_cmd (sv_client s c)) 1 (incr_dirty 1 s2)"
      using outcome_incr_dirty [OF outcome_seq [OF outcome_addReply [OF outcome_expiry [OF 1(2)]] 2(3)], of "kput d k (Some (StringObj v))" 1]
        expiry_exps [OF 1(2)] by (simp add: dels_append e(6) del: not_None_eq)
    have "kapply N d (GETSET k v) (dels (ds @ ds') (ks s)) = kput d k (Some (StringObj v)) (dels (ds @ ds') (ks s))"
      using False e(2) by (auto simp: dels_append dels_def split: option.splits robj.splits)
    then have "performs True c s (kapply N d (GETSET k v)) (cl_cmd (sv_client s c)) (Some (incr_dirty 1 s2))"
      using performs_changed [OF outcome_cong [OF o _ refl]] by simp
    moreover have "getsetCommand c k v s = Some (incr_dirty 1 s2)"
      using 1(1) 2(1) False e(6) by (simp add: getsetCommand_def d_def)
    ultimately show ?thesis by (simp add: d_def)
  qed
qed

lemma mget_loop_reads:
  assumes "db_ok s"
  shows "\<exists>s' ds. mget_loop c keys s = Some s' \<and> outcome True c s ds (\<lambda>K. K) (cl_cmd (sv_client s c)) 0 s'"
  using assms
proof (induction keys arbitrary: s)
  case Nil
  then show ?case using outcome_refl by auto
next
  case (Cons k keys)
  obtain s1 ds where 1: "lookupKeyWrite (cl_db (sv_client s c)) k s = Some (s1, ks s1 (cl_db (sv_client s c)) k)"
      "expiry s ds s1"
    using lookupKeyWrite_ok [OF Cons.prems] by metis
  let ?s2 = "addReply c (case ks s1 (cl_db (sv_client s c)) k of Some (StringObj v) \<Rightarrow> ReplyBulk v | _ \<Rightarrow> ReplyNull) s1"
  have o: "outcome True c s ds (\<lambda>K. K) (cl_cmd (sv_client s c)) 0 ?s2"
    using outcome_addReply [OF outcome_expiry [OF 1(2)]] .
  obtain s3 ds' where 3: "mget_loop c keys ?s2 = Some s3"
      "outcome True c ?s2 ds' (\<lambda>K. K) (cl_cmd (sv_client ?s2 c)) 0 s3"
    using Cons.IH [OF outcomeD(1) [OF o]] by blast
  have "outcome True c s (ds @ ds') (\<lambda>K. K) (cl_cmd (sv_client s c)) 0 s3"
    using outcome_seq [OF o 3(2), of "\<lambda>K. K"] outcomeD(8) [OF o] expiry_exps [OF 1(2)]
    by (simp add: dels_append del: not_None_eq)
  then show ?case using 1(1) 3(1) by (auto simp: lookupKeyRead_eq)
qed

lemma mget_performs:
  assumes "db_ok s"
  shows "performs True c s (kapply N d (MGET keys)) (cl_cmd (sv_client s c)) (mgetCommand c keys s)"
proof -
  let ?s = "addReply c (ReplyMultiLen (length keys)) s"
  have f: "kapply N d (MGET keys) = (\<lambda>K. K)" by (rule ext) simp
  have "db_ok ?s" using assms by simp
  then obtain s' ds where 1: "mget_loop c keys ?s = Some s'" "outcome True c ?s ds (\<lambda>K. K) (cl_cmd (sv_client ?s c)) 0 s'"
    using mget_loop_reads by blast
  have "outcome True c s ds (\<lambda>K. K) (cl_cmd (sv_client s c)) 0 s'"
    using outcome_seq [OF outcome_addReply [OF outcome_refl [OF assms]] 1(2), of "\<lambda>K. K"] by simp
  then show ?thesis using 1(1) by (auto simp: f performs_def mgetCommand_def)
qed

lemma exists_loop_ok:
  assumes "db_ok s"
  shows "\<exists>s' m ds. exists_loop d keys n s = Some (s', m) \<and> expiry s ds s'"
  using assms
proof (induction keys arbitrary: s n)
  case Nil
  then show ?case using expiry_refl by auto
next
  case (Cons k keys)
  obtain s1 e ds where 1: "expireIfNeeded d k s = Some (s1, e)" "expiry s ds s1"
    using expireIfNeeded_ok [OF Cons.prems] by metis
  obtain s2 m ds' where 2: "exists_loop d keys (if dbExists d k s1 then n + 1 else n) s1 = Some (s2, m)" "expiry s1 ds' s2"
    using Cons.IH [OF expiryD(1) [OF 1(2)]] by metis
  show ?case using 1(1) 2(1) expiry_trans [OF 1(2) 2(2)] by auto
qed

lemma exists_performs:
  assumes "db_ok s"
  shows "performs True c s (kapply N d (EXISTS keys)) (cl_cmd (sv_client s c)) (existsCommand c keys s)"
proof -
  obtain s' m ds where "exists_loop (cl_db (sv_client s c)) keys 0 s = Some (s', m)" "expiry s ds s'"
    using exists_loop_ok [OF assms] by metis
  then show ?thesis
    using performs_addReply [OF performs_expiry [of s ds s' "kapply N d (EXISTS keys)"]]
    by (auto simp: existsCommand_def)
qed

lemma mset_busy_ok:
  assumes "db_ok s" and "distinct (map fst kvs)"
  shows "\<exists>s' ds. mset_busy d kvs n s = Some (s', n + length (filter (\<lambda>(k, v). ks s' d k \<noteq> None) kvs)) \<and> expiry s ds s' \<and>
    set ds \<subseteq> {d} \<times> fst ` set kvs"
  using assms
proof (induction kvs arbitrary: s n)
  case Nil
  then show ?case using expiry_refl [of s] by (auto intro!: exI [of _ "[]"])
next
  case (Cons kv kvs)
  obtain k v where kv: "kv = (k, v)" by (cases kv)
  obtain s1 ds where 1: "lookupKeyWrite d k s = Some (s1, ks s1 d k)" "expiry s ds s1" "set ds \<subseteq> {(d, k)}"
    using lookupKeyWrite_ok [OF Cons.prems(1)] by metis
  let ?n = "if ks s1 d k \<noteq> None then Suc n else n"
  obtain s2 ds' where 2: "mset_busy d kvs ?n s1 = Some (s2, ?n + length (filter (\<lambda>(k, v). ks s2 d k \<noteq> None) kvs))"
      "expiry s1 ds' s2" "set ds' \<subseteq> {d} \<times> fst ` set kvs"
    using Cons.IH [OF expiryD(1) [OF 1(2)], of ?n] Cons.prems(2) kv by auto
  have "ks s2 d k = ks s1 d k"
    using expiryD(2) [OF 2(2)] 2(3) Cons.prems(2) kv by (auto simp: dels_def)
  then have "mset_busy d (kv # kvs) n s = Some (s2, n + length (filter (\<lambda>(k, v). ks s2 d k \<noteq> None) (kv # kvs)))"
    using 1(1) 2(1) kv by simp
  moreover have "set (ds @ ds') \<subseteq> {d} \<times> fst ` set (kv # kvs)" using 1(3) 2(3) kv by auto
  ultimately show ?case using expiry_trans [OF 1(2) 2(2)] by blast
qed

lemma kmset_Cons: "kmset d ((k, v) # kvs) K = kmset d kvs (kput d k (Some (StringObj v)) K)"
  by (simp add: kmset_def)

lemma mset_loop_outcome:
  assumes "db_ok s" and "d < sv_dbnum s"
  shows "\<exists>s' ds. mset_loop d kvs s = Some s' \<and> outcome True c s ds (kmset d kvs) (cl_cmd (sv_client s c)) 0 s' \<and>
    (\<forall>j k. (j, k) \<in> set ds \<longrightarrow> exps s j k \<noteq> None)"
  using assms
proof (induction kvs arbitrary: s)
  case Nil
  then show ?case using outcome_refl [OF Nil(1), of True c] by (auto simp: kmset_def id_def intro!: exI [of _ "[]"])
next
  case (Cons kv kvs)
  obtain k v where kv: "kv = (k, v)" by (cases kv)
  obtain s1 ds where 1: "setKey d k (StringObj v) s = Some s1" "set ds \<subseteq> {(d, k)}"
      "outcome True c s ds (kput d k (Some (StringObj v))) (cl_cmd (sv_client s c)) 0 s1"
      "exps s1 = (exps s)(d := (exps s d)(k := None))" "\<And>j k'. (j, k') \<in> set ds \<Longrightarrow> exps s j k' \<noteq> None"
    using setKey_outcome [OF Cons.prems] by metis
  have "d < sv_dbnum s1" using Cons.prems(2) outcomeD(12) [OF 1(3)] by simp
  then obtain s2 ds' where 2: "mset_loop d kvs s1 = Some s2"
      "outcome True c s1 ds' (kmset d kvs) (cl_cmd (sv_client s1 c)) 0 s2"
      "\<And>j k. (j, k) \<in> set ds' \<Longrightarrow> exps s1 j k \<noteq> None"
    using Cons.IH [OF outcomeD(1) [OF 1(3)]] by metis
  have n: "(d, k) \<notin> set ds'" using 2(3) [of d k] 1(4) by auto
  have "outcome True c s (ds @ ds') (kmset d (kv # kvs)) (cl_cmd (sv_client s c)) (0 + 0) s2"
    by (rule outcome_seq [OF 1(3) 2(2) [unfolded outcomeD(8) [OF 1(3)]]])
      (simp_all add: kv kmset_Cons dels_kput [OF n] dels_append 1(4) split: if_splits)
  moreover have "exps s j k' \<noteq> None" if "(j, k') \<in> set (ds @ ds')" for j k'
    using that 1(4,5) 2(3) [of j k'] by (auto split: if_splits)
  ultimately show ?case using 1(1) 2(1) kv by auto
qed

lemma mset_performs:
  assumes "db_ok s" and "nx \<Longrightarrow> distinct (map fst kvs)" and "cl_db (sv_client s c) < sv_dbnum s"
  shows "performs True c s (kapply N (cl_db (sv_client s c)) (if nx then MSETNX kvs odd_arg else MSET kvs odd_arg))
    (cl_cmd (sv_client s c)) (msetGenericCommand c nx kvs odd_arg s)"
proof (cases "odd_arg = None")
  case False
  then show ?thesis
    using performs_addReply [OF performs_nothing [OF assms(1)]] by (auto simp: msetGenericCommand_def)
next
  case True
  define d where "d = cl_db (sv_client s c)"
  let ?f = "kapply N d (if nx then MSETNX kvs odd_arg else MSET kvs odd_arg)"
  have "\<exists>s1 ds. (if nx then mset_busy d kvs 0 s else Some (s, 0)) =
      Some (s1, if nx then length (filter (\<lambda>(k, v). ks s1 d k \<noteq> None) kvs) else 0) \<and> expiry s ds s1"
    using mset_busy_ok [OF assms(1,2), of d 0] expiry_refl [OF assms(1)] by fastforce
  then obtain s1 ds where 1: "(if nx then mset_busy d kvs 0 s else Some (s, 0)) =
      Some (s1, if nx then length (filter (\<lambda>(k, v). ks s1 d k \<noteq> None) kvs) else 0)" and e: "expiry s ds s1"
    by blast
  note eD = expiryD [OF e]
  let ?busy = "nx \<and> (\<exists>(k, v) \<in> set kvs. ks s1 d k \<noteq> None)"
  show ?thesis
  proof (cases ?busy)
    case b: True
    then have "filter (\<lambda>(k, v). ks s1 d k \<noteq> None) kvs \<noteq> []" by (auto simp: filter_empty_conv)
    then have "msetGenericCommand c nx kvs odd_arg s = Some (addReply c (ReplyInt 0) s1)"
      using 1 b True by (simp add: msetGenericCommand_def d_def [symmetric])
    moreover have "?f (dels ds (ks s)) = dels ds (ks s)" using b eD(2) by auto
    ultimately show ?thesis using performs_addReply [OF performs_expiry [OF e]] unfolding d_def [symmetric] by metis
  next
    case False
    obtain s2 ds' where 2: "mset_loop d kvs s1 = Some s2" "outcome True c s1 ds' (kmset d kvs) (cl_cmd (sv_client s1 c)) 0 s2"
      using mset_loop_outcome [OF eD(1)] eD(8) assms(3) unfolding d_def by metis
    have o: "outcome True c s (ds @ ds') (kmset d kvs) (cl_cmd (sv_client s c)) (int (length kvs)) (incr_dirty (int (length kvs)) s2)"
      using outcome_incr_dirty [OF outcome_after_expiry [OF e 2(2)]] eD(6) by simp
    have "dels ds (ks s) d k = None" if "nx" "(k, v) \<in> set kvs" for k v
      using that False unfolding eD(2) by (cases "dels ds (ks s) d k") auto
    then have "dels (ds @ ds') (ks s) d k = None" if "nx" "(k, v) \<in> set kvs" for k v
      using that by (metis dels_append dels_def)
    then have "\<not> (nx \<and> (\<exists>(k, v) \<in> set kvs. dels (ds @ ds') (ks s) d k \<noteq> None))" by fastforce
    then have f: "?f (dels (ds @ ds') (ks s)) = kmset d kvs (dels (ds @ ds') (ks s))" using True by auto
    have r: "msetGenericCommand c nx kvs odd_arg s =
        Some (addReply c (if nx then ReplyInt 1 else ReplyOk) (incr_dirty (int (length kvs)) s2))"
      using 1 2(1) False True by (auto simp: msetGenericCommand_def d_def [symmetric] filter_empty_conv)
    have "outcome True c s (ds @ ds') ?f (cl_cmd (sv_client s c)) (int (length kvs)) (incr_dirty (int (length kvs)) s2)"
      by (rule outcome_cong [OF o _ refl]) (rule f)
    moreover have "int (length kvs) = 0 \<and> ?f (dels (ds @ ds') (ks s)) = dels (ds @ ds') (ks s) \<or> 0 < int (length kvs)"
      using f by (cases kvs) (simp_all add: kmset_def)
    ultimately have "performs True c s ?f (cl_cmd (sv_client s c)) (Some (incr_dirty (int (length kvs)) s2))"
      unfolding performs_def by blast
    then show ?thesis using performs_addReply r unfolding d_def [symmetric] by metis
  qed
qed

subsection \<open>Keys\<close>

lemma absent_outcome:
  assumes "db_ok s" and "ks s d k = None"
  shows "outcome True c s [] (kput d k None) (cl_cmd (sv_client s c)) 0 (fst (dbDelete d k s))"
  using assms by (auto simp: outcome_def frame_def unnoticed_def kput_def)

lemma fold_kput_None:
  "fold (\<lambda>k. kput d k None) keys (kput d k None K) = kput d k None (fold (\<lambda>k. kput d k None) keys K)"
proof (induction keys arbitrary: K)
  case (Cons k' keys)
  have "kput d k' None (kput d k None K) = kput d k None (kput d k' None K)" by (auto simp: fun_eq_iff kput_apply)
  then show ?case using Cons by simp
qed simp

lemma fold_kput_absent: "(\<And>k. k \<in> set keys \<Longrightarrow> K d k = None) \<Longrightarrow> fold (\<lambda>k. kput d k None) keys K = K"
proof (induction keys)
  case (Cons k keys)
  then have "kput d k None K = K" by (auto simp: fun_eq_iff kput_apply)
  then show ?case using Cons by simp
qed simp

lemma del_loop_outcome:
  assumes "db_ok s"
  shows "\<exists>s' n ds. del_loop d keys m s = Some (s', m + n) \<and>
    outcome True c s ds (fold (\<lambda>k. kput d k None) keys) (cl_cmd (sv_client s c)) n s' \<and>
    (n = 0 \<and> fold (\<lambda>k. kput d k None) keys (dels ds (ks s)) = dels ds (ks s) \<or> 0 < n)"
  using assms
proof (induction keys arbitrary: s m)
  case Nil
  then show ?case using outcome_refl [OF Nil, of True c] by (auto simp: id_def intro!: exI [of _ "[]"])
next
  case (Cons k keys)
  let ?f = "fold (\<lambda>k. kput d k None) keys"
  obtain s1 e ds where 1: "expireIfNeeded d k s = Some (s1, e)" "expiry s ds s1"
    using expireIfNeeded_ok [OF Cons.prems] by metis
  note eD = expiryD [OF 1(2)]
  define p where "p = (ks s1 d k \<noteq> None)"
  define s2 where "s2 = (if p then incr_dirty 1 (signalModifiedKey d k (fst (dbDelete d k s1))) else fst (dbDelete d k s1))"
  have o1: "outcome True c s1 [] (kput d k None) (cl_cmd (sv_client s c)) (if p then 1 else 0) s2"
  proof (cases p)
    case True
    then show ?thesis
      using outcome_incr_dirty [OF delete_outcome [OF eD(1), of c d k], of 1] eD(6)
      by (simp add: s2_def signalModifiedKey_def touchWatchedKey_marked)
  next
    case False
    then show ?thesis using absent_outcome [OF eD(1), of d k c] eD(6) by (simp add: s2_def p_def)
  qed
  have o2: "outcome True c s ds (kput d k None) (cl_cmd (sv_client s c)) (if p then 1 else 0) s2"
    using outcome_after_expiry0 [OF 1(2) o1] .
  obtain s3 n ds' where 3: "del_loop d keys (if p then m + 1 else m) s2 = Some (s3, (if p then m + 1 else m) + n)"
      "outcome True c s2 ds' ?f (cl_cmd (sv_client s2 c)) n s3"
      "n = 0 \<and> ?f (dels ds' (ks s2)) = dels ds' (ks s2) \<or> 0 < n"
    using Cons.IH [OF outcomeD(1) [OF o2]] by metis
  let ?n = "(if p then 1 else 0) + n"
  have "snd (dbDelete d k s1) = p" by (simp add: p_def)
  then obtain t where "dbDelete d k s1 = (t, p)" by (cases "dbDelete d k s1") auto
  then have "del_loop d (k # keys) m s = del_loop d keys (if p then m + 1 else m) s2"
    using 1(1) by (simp add: s2_def)
  then have r: "del_loop d (k # keys) m s = Some (s3, m + ?n)" using 3(1) by (simp add: ac_simps)
  have "exps s j k' \<noteq> None" if "exps s2 j k' \<noteq> None" for j k'
    using that expiry_exps [OF 1(2), of j k'] by (auto simp: s2_def signalModifiedKey_def touchWatchedKey_marked split: if_splits)
  then have o3: "outcome True c s (ds @ ds') (fold (\<lambda>k. kput d k None) (k # keys)) (cl_cmd (sv_client s c)) ?n s3"
    using outcome_seq [OF o2 3(2), of "fold (\<lambda>k. kput d k None) (k # keys)"] outcomeD(8) [OF o2]
    by (simp add: dels_kput_None dels_append del: not_None_eq)
  have "fold (\<lambda>k. kput d k None) (k # keys) (dels (ds @ ds') (ks s)) = dels (ds @ ds') (ks s)" if "?n = 0"
  proof -
    have np: "\<not> p" and n0: "n = 0" using that 3(3) by (auto split: if_splits)
    then have "kput d k None (dels ds (ks s)) = dels ds (ks s)" using eD(2) by (auto simp: p_def fun_eq_iff kput_apply)
    moreover from this have "ks s2 = dels ds (ks s)" using outcomeD(4) [OF o2] by simp
    ultimately show ?thesis using 3(3) n0 by (simp add: dels_append dels_kput_None [symmetric])
  qed
  then have "?n = 0 \<and> fold (\<lambda>k. kput d k None) (k # keys) (dels (ds @ ds') (ks s)) = dels (ds @ ds') (ks s) \<or> 0 < ?n"
    using 3(3) by (cases p) auto
  then show ?case using r o3 by blast
qed

lemma del_performs:
  assumes "db_ok s"
  shows "performs True c s (kapply N (cl_db (sv_client s c)) (DEL keys)) (cl_cmd (sv_client s c)) (delCommand c keys s)"
proof -
  let ?d = "cl_db (sv_client s c)"
  obtain s' n ds where 1: "del_loop ?d keys 0 s = Some (s', 0 + n)"
      "outcome True c s ds (fold (\<lambda>k. kput ?d k None) keys) (cl_cmd (sv_client s c)) n s'"
      "n = 0 \<and> fold (\<lambda>k. kput ?d k None) keys (dels ds (ks s)) = dels ds (ks s) \<or> 0 < n"
    using del_loop_outcome [OF assms] by metis
  moreover have f: "kapply N ?d (DEL keys) = fold (\<lambda>k. kput ?d k None) keys" by (rule ext) simp
  ultimately have "performs True c s (kapply N ?d (DEL keys)) (cl_cmd (sv_client s c)) (Some s')"
    unfolding performs_def f by blast
  then show ?thesis using performs_addReply 1(1) by (simp add: delCommand_def)
qed

lemma rename_outcome:
  assumes ok: "db_ok s" and k: "k \<noteq> k'" and v: "ks s d k = Some v"
  shows "\<exists>s2 s3. dbAdd d k' v (if ks s d k' \<noteq> None then fst (dbDelete d k' s) else s) = Some s2 \<and>
    (if expire \<noteq> -1 then setExpire d k' expire s2 else Some s2) = Some s3 \<and>
    outcome True c s [] (krename d False k k') (cl_cmd (sv_client s c)) 0
      (signalModifiedKey d k' (signalModifiedKey d k (fst (dbDelete d k s3))))"
proof -
  define s1 where "s1 = (if ks s d k' \<noteq> None then fst (dbDelete d k' s) else s)"
  have ok1: "db_ok s1" using ok by (simp add: s1_def)
  have k1: "ks s1 = kput d k' None (ks s)" by (auto simp: s1_def kput_apply fun_eq_iff)
  have e1: "exps s1 = kput d k' None (exps s)" using db_ok_exps [OF ok, of d k'] by (auto simp: s1_def kput_apply fun_eq_iff)
  define s2 where "s2 = upd_db d (\<lambda>b. b\<lparr>db_dict := AList.update k' v (db_dict b)\<rparr>) s1"
  define s3 where "s3 = (if expire \<noteq> -1 then upd_db d (\<lambda>b. b\<lparr>db_expires := AList.update k' expire (db_expires b)\<rparr>) s2 else s2)"
  have k3: "ks s3 = kput d k' (Some v) (ks s)" by (auto simp: s3_def s2_def k1 kput_def update_conv')
  have e3: "exps s3 = kput d k' (if expire = -1 then None else Some expire) (exps s)"
    by (auto simp: s3_def s2_def e1 kput_def update_conv')
  define s4 where "s4 = fst (dbDelete d k s3)"
  have k4: "ks s4 = kput d k None (kput d k' (Some v) (ks s))" by (simp add: s4_def k3 kput_def)
  have e4: "exps s4 = kput d k None (kput d k' (if expire = -1 then None else Some expire) (exps s))"
    by (simp add: s4_def e3 kput_def)
  have "exps s3 d' j \<noteq> None \<longrightarrow> ks s3 d' j \<noteq> None" for d' j
    unfolding k3 e3 using db_ok_exps [OF ok, of d' j] by (cases "ks s d' j") (auto simp: kput_apply)
  moreover have "distinct (map fst (db_dict (sv_db s3 d')))" for d'
    using ok1 by (simp add: s3_def s2_def db_ok_def distinct_update)
  moreover have "ks s3 d' j \<noteq> None \<longrightarrow> d' < sv_dbnum s3" for d' j
    unfolding k3 using db_ok_bound [OF ok, of d' j] db_ok_bound [OF ok, of d k] v
    by (auto simp: kput_apply s3_def s2_def s1_def)
  ultimately have "db_ok s3" unfolding db_ok_def by simp
  then have ok4: "db_ok s4" by (simp add: s4_def)
  have f: "krename d False k k' (ks s) = kput d k None (kput d k' (Some v) (ks s))" using k v by (simp add: krename_def)
  have w: "watchers s4 = watchers s" "dirty_cas s4 = dirty_cas s" "feedst s4 = feedst s" "sv_dirty s4 = sv_dirty s"
      "sv_client s4 = sv_client s" "frame c s s4"
    by (simp_all add: s4_def s3_def s2_def s1_def frame_def)
  let ?s' = "marked (set (watchers s d k') \<union> set (watchers s d k)) s4"
  have "frame c s ?s'" by (rule frame_marked [OF w(6)]) auto
  moreover have "unnoticed s [] ?s'"
    by (auto simp: unnoticed_def w(2) k4 e4 kput_apply)
  ultimately have "outcome True c s [] (krename d False k k') (cl_cmd (sv_client s c)) 0 ?s'"
    using ok4 w k4 f by (simp add: outcome_def)
  moreover have "signalModifiedKey d k' (signalModifiedKey d k s4) = ?s'"
    by (simp add: signalModifiedKey_def touchWatchedKey_marked w(1) marked_marked)
  moreover have "dbAdd d k' v s1 = Some s2" by (simp add: dbAdd_def k1 s2_def kput_apply)
  moreover have "(if expire \<noteq> -1 then setExpire d k' expire s2 else Some s2) = Some s3"
    by (simp add: setExpire_def s3_def s2_def update_conv')
  ultimately show ?thesis unfolding s1_def [symmetric] s4_def by metis
qed

lemma rename_performs:
  assumes "db_ok s"
  shows "performs True c s (krename (cl_db (sv_client s c)) nx k k') (cl_cmd (sv_client s c)) (renameGenericCommand c nx k k' s)"
proof (cases "k = k'")
  case True
  then show ?thesis
    using performs_addReply [OF performs_nothing [OF assms]] by (simp add: renameGenericCommand_def krename_def)
next
  case k: False
  define d where "d = cl_db (sv_client s c)"
  obtain s1 ds where 1: "lookupKeyWrite d k s = Some (s1, ks s1 d k)" "expiry s ds s1"
    using lookupKeyWrite_ok [OF assms] by metis
  note e1 = expiryD [OF 1(2)]
  show ?thesis
  proof (cases "ks s1 d k")
    case None
    then have "krename d nx k k' (dels ds (ks s)) = dels ds (ks s)" using e1(2) by (simp add: krename_def)
    then show ?thesis
      using performs_addReply [OF performs_expiry [OF 1(2)]] 1(1) None k
      by (simp add: renameGenericCommand_def d_def [symmetric])
  next
    case (Some v)
    obtain e where e: "getExpire d k s1 = Some e" using getExpire_ok [OF e1(1)] by metis
    obtain s2 ds' where 2: "lookupKeyWrite d k' s1 = Some (s2, ks s2 d k')" "expiry s1 ds' s2" "set ds' \<subseteq> {(d, k')}"
      using lookupKeyWrite_ok [OF e1(1)] by metis
    note e2 = expiryD [OF 2(2)]
    have v: "ks s2 d k = Some v" using Some 2(3) k e2(2) by (auto simp: dels_def)
    have e12: "expiry s (ds @ ds') s2" using expiry_trans [OF 1(2) 2(2)] .
    have K: "ks s2 = dels (ds @ ds') (ks s)" using expiryD(2) [OF e12] .
    show ?thesis
    proof (cases "nx \<and> ks s2 d k' \<noteq> None")
      case True
      then have "krename d nx k k' (dels (ds @ ds') (ks s)) = dels (ds @ ds') (ks s)" using K by (simp add: krename_def)
      moreover have "renameGenericCommand c nx k k' s = Some (addReply c (ReplyInt 0) s2)"
        using 1(1) e 2(1) Some True k by (auto simp: renameGenericCommand_def d_def [symmetric])
      ultimately show ?thesis
        using performs_addReply [OF performs_expiry [OF e12]] by (simp add: d_def)
    next
      case False
      define s3 where "s3 = (if ks s2 d k' \<noteq> None then fst (dbDelete d k' s2) else s2)"
      obtain s4 s5 where 3: "dbAdd d k' v s3 = Some s4" "(if e \<noteq> -1 then setExpire d k' e s4 else Some s4) = Some s5"
          "outcome True c s2 [] (krename d False k k') (cl_cmd (sv_client s2 c)) 0
            (signalModifiedKey d k' (signalModifiedKey d k (fst (dbDelete d k s5))))" (is "outcome _ _ _ _ _ _ _ ?s6")
        using rename_outcome [OF e2(1) k v] unfolding s3_def by metis
      have o: "outcome True c s (ds @ ds') (krename d False k k') (cl_cmd (sv_client s c)) 1 (incr_dirty 1 ?s6)"
        using outcome_incr_dirty [OF outcome_after_expiry0 [OF e12 3(3)], of 1] expiryD(6) [OF e12] by simp
      have "krename d nx k k' (dels (ds @ ds') (ks s)) = krename d False k k' (dels (ds @ ds') (ks s))"
        using False K by (auto simp: krename_def)
      then have "performs True c s (krename d nx k k') (cl_cmd (sv_client s c)) (Some (incr_dirty 1 ?s6))"
        by (intro performs_changed [OF outcome_cong [OF o _ refl]]) simp_all
      moreover have "renameGenericCommand c nx k k' s =
          Some (addReply c (if nx then ReplyInt 1 else ReplyOk) (incr_dirty 1 ?s6))"
        unfolding renameGenericCommand_def d_def [symmetric] Let_def
        by (simp add: k 1(1) Some e 2(1) s3_def [symmetric, simplified] 3(1) 3(2) [simplified]) (use False in auto)
      ultimately show ?thesis unfolding d_def [symmetric] using performs_addReply by metis
    qed
  qed
qed

lemma move_outcome:
  assumes ok: "db_ok s" and d: "d \<noteq> d'" and v: "ks s d k = Some v" and n: "ks s d' k = None" and b: "d' < sv_dbnum s"
  shows "\<exists>s'. dbAdd d' k v s = Some s' \<and>
    outcome False c s [] (\<lambda>K. kput d k None (kput d' k (K d k) K)) (cl_cmd (sv_client s c)) 0 (fst (dbDelete d k s'))"
proof -
  define s1 where "s1 = upd_db d' (\<lambda>b. b\<lparr>db_dict := AList.update k v (db_dict b)\<rparr>) s"
  have k1: "ks s1 = kput d' k (Some v) (ks s)" by (auto simp: s1_def kput_def update_conv')
  have e1: "exps s1 = exps s" by (auto simp: s1_def)
  have "exps s1 j i \<noteq> None \<longrightarrow> ks s1 j i \<noteq> None" for j i
    unfolding k1 e1 using db_ok_exps [OF ok, of j i] by (cases "ks s j i") (auto simp: kput_apply)
  moreover have "distinct (map fst (db_dict (sv_db s1 j)))" for j
    using ok by (simp add: s1_def db_ok_def distinct_update)
  moreover have "ks s1 j i \<noteq> None \<longrightarrow> j < sv_dbnum s1" for j i
    unfolding k1 using db_ok_bound [OF ok, of j i] b by (auto simp: kput_apply s1_def)
  ultimately have ok1: "db_ok s1" unfolding db_ok_def by simp
  have "ks (fst (dbDelete d k s1)) = kput d k None (kput d' k (ks s d k) (ks s))"
    using v by (simp add: k1) (simp add: kput_def)
  moreover have "frame c s (fst (dbDelete d k s1))" by (simp add: s1_def frame_def)
  ultimately have "outcome False c s [] (\<lambda>K. kput d k None (kput d' k (K d k) K)) (cl_cmd (sv_client s c)) 0 (fst (dbDelete d k s1))"
    using ok1 by (simp add: outcome_def s1_def)
  moreover have "dbAdd d' k v s = Some s1" using n by (simp add: dbAdd_def s1_def)
  ultimately show ?thesis by blast
qed

lemma select_back:
  assumes "cl_db (sv_client s c) < sv_dbnum s" and "selectDb c i s = (s', ok)"
  shows "fst (selectDb c (int (cl_db (sv_client s c))) s') = s"
    and "ok \<longleftrightarrow> 0 \<le> i \<and> i < int (sv_dbnum s)" and "ok \<Longrightarrow> cl_db (sv_client s' c) = nat i"
  using assms by (auto simp: selectDb_def upd_client_def split: if_splits)

lemma move_performs:
  assumes "db_ok s" and "cl_db (sv_client s c) < sv_dbnum s"
  shows "performs False c s (kmove (sv_dbnum s) (cl_db (sv_client s c)) k i) (cl_cmd (sv_client s c)) (moveCommand c k i s)"
proof -
  define d where "d = cl_db (sv_client s c)"
  note nothing = performs_addReply [OF performs_nothing [OF assms(1)]]
  show ?thesis
  proof (cases i)
    case None
    have "moveCommand c k None s = Some (addReply c (ReplyError ''index out of range'') s)"
      by (simp add: moveCommand_def)
    moreover have "kmove (sv_dbnum s) (cl_db (sv_client s c)) k None (ks s) = ks s" by (simp add: kmove_def)
    ultimately show ?thesis unfolding None using performs_addReply [OF performs_nothing [OF assms(1)]] by metis
  next
    case (Some j)
    obtain t ok where t: "selectDb c j s = (t, ok)" by (cases "selectDb c j s")
    note sb = select_back [OF assms(2) t, folded d_def]
    show ?thesis
    proof (cases "j < 0 \<or> int (sv_dbnum s) \<le> j \<or> 2 ^ 31 \<le> j \<or> nat j = d")
      case True
      then have "kmove (sv_dbnum s) d k i (ks s) = ks s" by (auto simp: Some kmove_def)
      moreover have "\<exists>q. moveCommand c k i s = Some (addReply c q s)"
      proof (cases "j < - (2 ^ 31) \<or> 2 ^ 31 - 1 < j")
        case r: False
        show ?thesis
        proof (cases ok)
          case o: True
          then have "nat j = d" using True sb(2) r by auto
          then show ?thesis using r o sb(1,3) by (auto simp: moveCommand_def Some t Let_def d_def [symmetric])
        next
          case o: False
          then have "t = s" using t by (simp add: selectDb_def split: if_splits)
          then show ?thesis using r o t by (auto simp: moveCommand_def Some)
        qed
      qed (auto simp: moveCommand_def Some)
      ultimately show ?thesis
        using performs_addReply [OF performs_nothing [OF assms(1)]] unfolding d_def [symmetric] by metis
    next
      case False
      then have ok: "ok" "cl_db (sv_client t c) = nat j" "d \<noteq> nat j" "\<not> j < - (2 ^ 31)" "\<not> 2 ^ 31 - 1 < j"
        using sb by auto
      obtain s1 ds where 1: "lookupKeyWrite d k s = Some (s1, ks s1 d k)" "expiry s ds s1" "set ds \<subseteq> {(d, k)}"
        using lookupKeyWrite_ok [OF assms(1)] by metis
      note e1 = expiryD [OF 1(2)]
      note m = moveCommand_def Some t ok(1,2,3) ok(4,5) [simplified] sb(1)
      show ?thesis
      proof (cases "ks s1 d k")
        case None
        then have "kmove (sv_dbnum s) d k i (dels ds (ks s)) = dels ds (ks s)" using e1(2) by (auto simp: kmove_def Some)
        then show ?thesis
          using performs_addReply [OF performs_expiry [OF 1(2)]] 1(1) None by (simp add: m d_def [symmetric])
      next
        case v: (Some v)
        obtain s2 ds' where 2: "lookupKeyWrite (nat j) k s1 = Some (s2, ks s2 (nat j) k)" "expiry s1 ds' s2"
            "set ds' \<subseteq> {(nat j, k)}"
          using lookupKeyWrite_ok [OF e1(1)] by metis
        note e2 = expiryD [OF 2(2)]
        have v2: "ks s2 d k = Some v" using v 2(3) ok(3) e2(2) by (auto simp: dels_def)
        have e12: "expiry s (ds @ ds') s2" using expiry_trans [OF 1(2) 2(2)] .
        have b2: "nat j < sv_dbnum s2" using expiryD(8) [OF e12] False by auto
        have K: "ks s2 = dels (ds @ ds') (ks s)" using expiryD(2) [OF e12] .
        show ?thesis
        proof (cases "ks s2 (nat j) k")
          case n: (Some y)
          then have "kmove (sv_dbnum s) d k i (dels (ds @ ds') (ks s)) = dels (ds @ ds') (ks s)"
            using K by (auto simp: kmove_def Some)
          then show ?thesis
            using performs_addReply [OF performs_expiry [OF e12]] 1(1) 2(1) v n by (simp add: m d_def [symmetric])
        next
          case n: None
          let ?f = "\<lambda>K. kput d k None (kput (nat j) k (K d k) K)"
          obtain s3 where 3: "dbAdd (nat j) k v s2 = Some s3"
              "outcome False c s2 [] ?f (cl_cmd (sv_client s2 c)) 0 (fst (dbDelete d k s3))"
            using move_outcome [OF e2(1) ok(3) v2 n b2, of c] by (elim exE conjE) (rule that; assumption)
          have o: "outcome False c s (ds @ ds') ?f (cl_cmd (sv_client s c)) 1 (incr_dirty 1 (fst (dbDelete d k s3)))"
            using outcome_incr_dirty [OF outcome_after_expiry0 [OF e12 3(2)], of 1] expiryD(6) [OF e12] by simp
          have "kmove (sv_dbnum s) d k i (dels (ds @ ds') (ks s)) = ?f (dels (ds @ ds') (ks s))"
            using False v2 n K ok(3) by (auto simp: kmove_def Some)
          then have "performs False c s (kmove (sv_dbnum s) d k i) (cl_cmd (sv_client s c))
              (Some (incr_dirty 1 (fst (dbDelete d k s3))))"
            by (intro performs_changed [OF outcome_cong [OF o _ refl]]) simp_all
          then show ?thesis using performs_addReply 1(1) 2(1) 3(1) v n by (simp add: m d_def [symmetric])
        qed
      qed
    qed
  qed
qed

subsection \<open>Flushing\<close>

text \<open>The two tables of WATCH agree at least in this direction.\<close>

definition watch_sound :: "('k, 'v) redisServer \<Rightarrow> bool" where
  "watch_sound s \<longleftrightarrow> (\<forall>d k x. x \<in> set (watchers s d k) \<longrightarrow> x \<in> set (sv_clients s) \<and> (d, k) \<in> set (watched s x))"

lemma incr_dirty_commute:
  "marked A (incr_dirty n s) = incr_dirty n (marked A s)" "upd_db d f (incr_dirty n s) = incr_dirty n (upd_db d f s)"
  by (simp_all add: marked_def upd_db_def incr_dirty_def cong: if_cong)

lemma flushdb_performs:
  assumes "db_ok s" and "watch_sound s"
  shows "performs True c s (kapply N (cl_db (sv_client s c)) FLUSHDB) (cl_cmd (sv_client s c)) (Some (flushdbCommand c s))"
proof -
  let ?d = "cl_db (sv_client s c)"
  let ?n = "int (length (db_dict (sv_db s ?d)))"
  let ?A = "{x \<in> set (sv_clients s). \<exists>wk \<in> set (watched s x). flushed (int ?d) s wk}"
  define s1 where "s1 = upd_db ?d (\<lambda>b. b\<lparr>db_dict := [], db_expires := []\<rparr>) (marked ?A s)"
  have k: "ks s1 = (ks s)(?d := (\<lambda>k. None))" and e: "exps s1 = (exps s)(?d := (\<lambda>k. None))"
    by (auto simp: s1_def)
  have "db_ok s1" using assms(1) unfolding db_ok_def k e by (simp add: s1_def)
  moreover have "frame c s s1"
  proof (rule frame_trans)
    show "frame c s (marked ?A s)" by (rule frame_marked [OF frame_refl]) auto
    show "frame c (marked ?A s) s1" by (simp add: s1_def frame_def)
  qed
  moreover have "unnoticed s [] s1"
    unfolding unnoticed_def
  proof (intro allI impI)
    fix d k' x
    assume x: "x \<in> set (watchers s d k')" "\<not> dirty_cas s1 x"
    have "ks s d k' = None" if "d = ?d"
    proof (rule ccontr)
      assume "ks s d k' \<noteq> None"
      then have "flushed (int ?d) s (d, k')" using that by (simp add: flushed_def)
      moreover have "x \<in> set (sv_clients s)" "(d, k') \<in> set (watched s x)" using assms(2) x(1) by (auto simp: watch_sound_def)
      ultimately show False using x(2) by (auto simp: s1_def)
    qed
    then show "ks s1 d k' = dels [] (ks s) d k' \<and> (exps s1 d k' = None \<or> exps s1 d k' = exps s d k') \<and>
        ((d, k') \<in> set [] \<longrightarrow> exps s d k' \<noteq> None)"
      by (auto simp: k e)
  qed
  ultimately have "outcome True c s [] (kapply N ?d FLUSHDB) (cl_cmd (sv_client s c)) 0 s1"
    using k by (simp add: outcome_def s1_def)
  then have o: "outcome True c s [] (kapply N ?d FLUSHDB) (cl_cmd (sv_client s c)) ?n (addReply c ReplyOk (incr_dirty ?n s1))"
    by (intro outcome_addReply) (use outcome_incr_dirty in fastforce)
  have "flushed (int ?d) (incr_dirty ?n s) = flushed (int ?d) s" by (simp add: flushed_def fun_eq_iff)
  then have f: "flushdbCommand c s = addReply c ReplyOk (incr_dirty ?n s1)"
    by (simp add: flushdbCommand_def Let_def signalFlushedDb_def touchWatchedKeysOnFlush_marked s1_def incr_dirty_commute)
  have "ks s ?d = (\<lambda>k. None)" if "?n = 0" using that by (auto simp: ks_def simp del: fold_views)
  then have "?n = 0 \<and> kapply N ?d FLUSHDB (dels [] (ks s)) = dels [] (ks s) \<or> 0 < ?n"
    by (cases "?n = 0") (auto simp: fun_eq_iff)
  then show ?thesis unfolding performs_def f using o by blast
qed

lemma emptyDb_loop_ok:
  assumes "db_ok s" and "0 \<le> n"
  shows "\<exists>s' m. emptyDb_loop js n s = (s', m) \<and> n \<le> m \<and> db_ok s' \<and> frame c s s' \<and> sv_client s' = sv_client s \<and>
    ks s' = (\<lambda>j. if j \<in> set js then (\<lambda>k. None) else ks s j) \<and>
    exps s' = (\<lambda>j. if j \<in> set js then (\<lambda>k. None) else exps s j) \<and> feedst s' = feedst s \<and> sv_dirty s' = sv_dirty s"
  using assms
proof (induction js arbitrary: s n)
  case Nil
  then show ?case by (simp add: frame_refl)
next
  case (Cons j js)
  let ?s = "upd_db j (\<lambda>b. b\<lparr>db_dict := [], db_expires := []\<rparr>) s"
  have ok: "db_ok ?s" using Cons.prems(1) by (simp add: db_ok_def)
  obtain s' m where 1: "emptyDb_loop js (n + int (length (db_dict (sv_db s j)))) ?s = (s', m)"
      "n + int (length (db_dict (sv_db s j))) \<le> m" "db_ok s'" "frame c ?s s'" "sv_client s' = sv_client ?s"
      "ks s' = (\<lambda>i. if i \<in> set js then (\<lambda>k. None) else ks ?s i)"
      "exps s' = (\<lambda>i. if i \<in> set js then (\<lambda>k. None) else exps ?s i)" "feedst s' = feedst ?s" "sv_dirty s' = sv_dirty ?s"
    using Cons.IH [OF ok, of "n + int (length (db_dict (sv_db s j)))"] Cons.prems(2) by auto
  have "frame c s ?s" by (simp add: frame_def)
  from frame_trans [OF this 1(4)] show ?case using 1 by (auto simp: fun_eq_iff)
qed

lemma outcome_set_dirty:
  assumes "outcome b c s ds f r n s'"
  shows "outcome b c s ds f r (x - sv_dirty s) (s'\<lparr>sv_dirty := x\<rparr>)"
proof -
  have "s'\<lparr>sv_dirty := x\<rparr> = incr_dirty (x - sv_dirty s') s'" by (simp add: incr_dirty_def)
  moreover have "n + (x - sv_dirty s') = x - sv_dirty s" using outcomeD(7) [OF assms] by simp
  ultimately show ?thesis using outcome_incr_dirty [OF assms, of "x - sv_dirty s'"] by metis
qed

lemma flushall_outcome:
  assumes "db_ok s" and "watch_sound s"
  shows "\<exists>n. outcome True c s [] (kapply (sv_dbnum s) d FLUSHALL) (cl_cmd (sv_client s c)) n (flushallCommand c s) \<and>
    (\<not> sv_saveparams s \<longrightarrow> 0 < n)"
proof -
  let ?A = "{x \<in> set (sv_clients s). \<exists>wk \<in> set (watched s x). flushed (-1) s wk}"
  have ok: "db_ok (marked ?A s)" using assms(1) by simp
  obtain s1 m where "emptyDb_loop [0..<sv_dbnum s] 0 (marked ?A s) = (s1, m)" "0 \<le> m" "db_ok s1"
      "frame c (marked ?A s) s1" "sv_client s1 = sv_client (marked ?A s)"
      "ks s1 = (\<lambda>j. if j \<in> set [0..<sv_dbnum s] then (\<lambda>k. None) else ks (marked ?A s) j)"
      "exps s1 = (\<lambda>j. if j \<in> set [0..<sv_dbnum s] then (\<lambda>k. None) else exps (marked ?A s) j)"
      "feedst s1 = feedst (marked ?A s)" "sv_dirty s1 = sv_dirty (marked ?A s)"
    using emptyDb_loop_ok [OF ok order.refl, of "[0..<sv_dbnum s]" c] by (elim exE conjE) (rule that; assumption)
  note 1 = this [unfolded marked_views feedst_marked marked_fields]
  have "frame c s (marked ?A s)" by (rule frame_marked [OF frame_refl]) auto
  then have fr: "frame c s s1" by (rule frame_trans) (rule 1(4))
  have dc: "dirty_cas s1 x = (dirty_cas s x \<or> x \<in> ?A)" for x by (simp only: dirty_cas_def 1(5) marked_fields)
  have "unnoticed s [] s1"
    unfolding unnoticed_def
  proof (intro allI impI)
    fix d k' x
    assume x: "x \<in> set (watchers s d k')" "\<not> dirty_cas s1 x"
    have "ks s d k' = None"
    proof (rule ccontr)
      assume "ks s d k' \<noteq> None"
      then have "flushed (-1) s (d, k')" by (simp add: flushed_def)
      moreover have "x \<in> set (sv_clients s)" "(d, k') \<in> set (watched s x)" using assms(2) x(1) by (auto simp: watch_sound_def)
      ultimately show False using x(2) by (auto simp: dc)
    qed
    then show "ks s1 d k' = dels [] (ks s) d k' \<and> (exps s1 d k' = None \<or> exps s1 d k' = exps s d k') \<and>
        ((d, k') \<in> set [] \<longrightarrow> exps s d k' \<noteq> None)"
      using 1(6,7) by auto
  qed
  moreover have "ks s1 = kapply (sv_dbnum s) d FLUSHALL (ks s)" using 1(6) by auto
  ultimately have o0: "outcome True c s [] (kapply (sv_dbnum s) d FLUSHALL) (cl_cmd (sv_client s c)) 0 s1"
    using 1(3,5,8,9) fr by (simp add: outcome_def)
  then have o: "outcome True c s [] (kapply (sv_dbnum s) d FLUSHALL) (cl_cmd (sv_client s c)) (0 + m + 1)
      (incr_dirty 1 (addReply c ReplyOk (incr_dirty m s1)))"
    by (intro outcome_incr_dirty outcome_addReply)
  have w: "flushallCommand c s = (let s = addReply c ReplyOk (incr_dirty m s1) in
      incr_dirty 1 (if sv_saveparams s then s\<lparr>sv_dirty := c_int (sv_dirty s)\<rparr> else s))"
    using 1(1) by (simp add: flushallCommand_def Let_def signalFlushedDb_def touchWatchedKeysOnFlush_marked emptyDb_def)
  have sp: "sv_saveparams s1 = sv_saveparams s" using fr by (simp add: frame_def)
  show ?thesis
  proof (cases "sv_saveparams s")
    case False
    then have "flushallCommand c s = incr_dirty 1 (addReply c ReplyOk (incr_dirty m s1))"
      using w sp by simp
    then show ?thesis using o 1(2) by (intro exI conjI) (auto intro: exI)
  next
    case True
    have "outcome True c s [] (kapply (sv_dbnum s) d FLUSHALL) (cl_cmd (sv_client s c)) (0 + m) (addReply c ReplyOk (incr_dirty m s1))"
      using o0 by (intro outcome_incr_dirty outcome_addReply)
    from outcome_incr_dirty [OF outcome_set_dirty [OF this]]
    show ?thesis using True w sp by (auto simp: Let_def)
  qed
qed

lemma flushall_performs:
  assumes "db_ok s" and "watch_sound s" and "\<not> sv_saveparams s"
  shows "performs True c s (kapply (sv_dbnum s) d FLUSHALL) (cl_cmd (sv_client s c)) (Some (flushallCommand c s))"
  using flushall_outcome [OF assms(1,2), of c d] assms(3) performs_changed by metis

subsection \<open>Times to live\<close>

lemma expire_outcome:
  assumes "db_ok s" and "ks s d k \<noteq> None"
  shows "outcome True c s [] (\<lambda>K. K) (cl_cmd (sv_client s c)) 0
    (marked (set (watchers s d k)) (addReply c q (upd_db d (\<lambda>b. b\<lparr>db_expires := AList.update k w (db_expires b)\<rparr>) s)))"
    (is "outcome _ _ _ _ _ _ _ (marked _ ?s')")
proof -
  have k: "ks ?s' = ks s" by simp
  have e: "exps ?s' = kput d k (Some w) (exps s)" by (simp add: update_conv' kput_def)
  have "exps ?s' d' k' \<noteq> None \<longrightarrow> ks ?s' d' k' \<noteq> None" for d' k'
    unfolding k e using db_ok_exps [OF assms(1), of d' k'] assms(2) by (cases "ks s d' k'") (auto simp: kput_apply)
  then have "db_ok ?s'" using assms(1) unfolding db_ok_def by simp
  moreover have "frame c s (marked (set (watchers s d k)) ?s')"
    by (rule frame_marked) (auto simp: frame_def)
  moreover have "unnoticed s [] (marked (set (watchers s d k)) ?s')"
    unfolding unnoticed_def marked_views k e by (auto simp: kput_apply)
  ultimately show ?thesis by (simp add: outcome_def)
qed

lemma expire_delete_outcome:
  assumes "db_ok s"
  shows "outcome True c s [] (kput d k None) (Cmd (DEL [k])) 1
    (addReply c q (marked (set (watchers s d k)) (upd_client c (\<lambda>cl. cl\<lparr>cl_cmd := Cmd (DEL [k])\<rparr>)
      (incr_dirty 1 (fst (dbDelete d k s))))))"
proof -
  let ?s' = "upd_client c (\<lambda>cl. cl\<lparr>cl_cmd := Cmd (DEL [k])\<rparr>) (incr_dirty 1 (fst (dbDelete d k s)))"
  have w: "watched ?s' = watched s" "dirty_cas ?s' = dirty_cas s"
    by (auto simp: watched_def dirty_cas_def fun_eq_iff)
  have "frame c s (marked (set (watchers s d k)) ?s')" by (auto simp: frame_def w)
  moreover have "unnoticed s [] (marked (set (watchers s d k)) ?s')" by (auto simp: unnoticed_def w)
  moreover have "ks ?s' = kput d k None (ks s)" by (simp add: kput_def)
  ultimately show ?thesis using assms by (intro outcome_addReply) (auto simp: outcome_def)
qed

text \<open>The command that is propagated is the one given or, where the key is deleted at once, a \<open>DEL\<close>.\<close>

lemma expireGeneric_performs:
  assumes "db_ok s"
  shows "performs True c s (\<lambda>K. K) (cl_cmd (sv_client s c)) (expireGenericCommand c k param base sec s) \<or>
    \<not> sv_masterhost s \<and> performs True c s (kput (cl_db (sv_client s c)) k None) (Cmd (DEL [k])) (expireGenericCommand c k param base sec s)"
proof (cases param)
  case None
  then show ?thesis
    using performs_addReply [OF performs_nothing [OF assms], of "\<lambda>K. K"] by (simp add: expireGenericCommand_def)
next
  case (Some w0)
  define d where "d = cl_db (sv_client s c)"
  define w where "w = ll ((if sec then ll (w0 * 1000) else w0) + base)"
  obtain s1 ds where 1: "lookupKeyWrite d k s = Some (s1, ks s1 d k)" "expiry s ds s1"
    using lookupKeyWrite_ok [OF assms] by metis
  note e1 = expiryD [OF 1(2)]
  define s2 where "s2 = snd (mstime s1)"
  obtain now where now: "mstime s1 = (now, s2)" by (simp add: mstime_def s2_def)
  have ok2: "db_ok s2" and k2: "ks s2 = ks s1" and m2: "sv_masterhost s2 = sv_masterhost s"
    and c2: "sv_client s2 = sv_client s1" using e1 by (simp_all add: s2_def)
  have e2: "expiry s ds s2" using expiry_trans [OF 1(2) expiry_clock [OF e1(1)]] by (simp add: s2_def)
  show ?thesis
  proof (cases "ks s1 d k = None")
    case True
    then have "expireGenericCommand c k param base sec s = Some (addReply c (ReplyInt 0) s1)"
      using 1(1) Some by (simp add: expireGenericCommand_def d_def [symmetric] lookupKeyRead_eq)
    then show ?thesis using performs_addReply [OF performs_expiry [OF 1(2), of "\<lambda>K. K"]] by simp
  next
    case p: False
    have "expireGenericCommand c k param base sec s = (if w \<le> now \<and> \<not> sv_masterhost s2 then
               (case dbDelete d k s2 of (s, present) \<Rightarrow>
                 if \<not> present then None
                 else Some (addReply c (ReplyInt 1) (signalModifiedKey d k
                   (upd_client c (\<lambda>cl. cl\<lparr>cl_cmd := Cmd (DEL [k])\<rparr>) (incr_dirty 1 s)))))
             else do {
               s \<leftarrow> setExpire d k w s2;
               Some (incr_dirty 1 (signalModifiedKey d k (addReply c (ReplyInt 1) s))) })"
      unfolding expireGenericCommand_def d_def [symmetric] lookupKeyRead_eq Let_def Some option.case w_def [symmetric]
      by (simp add: 1(1) now) (use p in auto)
    note r = this
    show ?thesis
    proof (cases "w \<le> now \<and> \<not> sv_masterhost s2")
      case True
      have "snd (dbDelete d k s2)" using p k2 by simp
      then obtain t where t: "dbDelete d k s2 = (t, True)" by (cases "dbDelete d k s2") simp
      then have "watchers t = watchers s2" by (metis dbDelete_fields(9) fst_conv)
      then have "expireGenericCommand c k param base sec s =
          Some (addReply c (ReplyInt 1) (marked (set (watchers s2 d k)) (upd_client c (\<lambda>cl. cl\<lparr>cl_cmd := Cmd (DEL [k])\<rparr>)
            (incr_dirty 1 (fst (dbDelete d k s2))))))"
        unfolding r using True by (simp add: signalModifiedKey_def touchWatchedKey_marked t)
      moreover have "outcome True c s ds (kput d k None) (Cmd (DEL [k])) 1
          (addReply c (ReplyInt 1) (marked (set (watchers s2 d k)) (upd_client c (\<lambda>cl. cl\<lparr>cl_cmd := Cmd (DEL [k])\<rparr>)
            (incr_dirty 1 (fst (dbDelete d k s2))))))"
        using outcome_after_expiry0 [OF e2 expire_delete_outcome [OF ok2]] .
      ultimately have "performs True c s (kput d k None) (Cmd (DEL [k])) (expireGenericCommand c k param base sec s)"
        by (metis performs_changed zero_less_one)
      then show ?thesis using True m2 by (simp add: d_def)
    next
      case False
      have p2: "ks s2 d k \<noteq> None" using p k2 by simp
      let ?s3 = "marked (set (watchers s2 d k)) (addReply c (ReplyInt 1)
        (upd_db d (\<lambda>b. b\<lparr>db_expires := AList.update k w (db_expires b)\<rparr>) s2))"
      have "expireGenericCommand c k param base sec s = Some (incr_dirty 1 ?s3)"
        unfolding r using False p2 by (auto simp: setExpire_def signalModifiedKey_def touchWatchedKey_marked)
      moreover have "outcome True c s ds (\<lambda>K. K) (cl_cmd (sv_client s c)) 1 (incr_dirty 1 ?s3)"
        using outcome_incr_dirty [OF outcome_after_expiry0 [OF e2 expire_outcome [OF ok2 p2]], where m = 1] c2 e1(6) by simp
      then have "performs True c s (\<lambda>K. K) (cl_cmd (sv_client s c)) (Some (incr_dirty 1 ?s3))"
        by (rule performs_changed) simp
      ultimately show ?thesis by (simp only: simp_thms)
    qed
  qed
qed

lemma performs_from_clock: "performs b c (snd (mstime s)) f r res \<Longrightarrow> performs b c s f r res"
  unfolding performs_def using outcome_from_clock by fastforce

lemma expire_clock_performs:
  assumes "db_ok s" and "mstime s = (now, s')"
  shows "performs True c s (\<lambda>K. K) (cl_cmd (sv_client s c)) (expireGenericCommand c k param now sec s') \<or>
    \<not> sv_masterhost s \<and> performs True c s (kput (cl_db (sv_client s c)) k None) (Cmd (DEL [k])) (expireGenericCommand c k param now sec s')"
proof -
  have s': "s' = snd (mstime s)" using assms(2) by simp
  then have "db_ok s'" "sv_client s' = sv_client s" "sv_masterhost s' = sv_masterhost s" using assms(1) by simp_all
  then show ?thesis using expireGeneric_performs [of s' c k param now sec] performs_from_clock s' by metis
qed

lemma ttl_performs:
  assumes "db_ok s"
  shows "performs True c s (\<lambda>K. K) (cl_cmd (sv_client s c)) (ttlGenericCommand c k output_ms s)"
proof -
  define d where "d = cl_db (sv_client s c)"
  obtain s1 ds where 1: "lookupKeyWrite d k s = Some (s1, ks s1 d k)" "expiry s ds s1"
    using lookupKeyWrite_ok [OF assms] by metis
  note ok = expiryD(1) [OF 1(2)]
  have e2: "expiry s ds (snd (mstime s1))" using expiry_trans [OF 1(2) expiry_clock [OF ok]] by simp
  have "\<exists>q s2. ttlGenericCommand c k output_ms s = Some (addReply c q s2) \<and> (s2 = s1 \<or> s2 = snd (mstime s1))"
    using 1(1) getExpire_ok [OF ok, of d k]
    by (auto simp: ttlGenericCommand_def d_def [symmetric] lookupKeyRead_eq mstime_def)
  then show ?thesis
    using performs_addReply [OF performs_expiry [OF 1(2), of "\<lambda>K. K"]] performs_addReply [OF performs_expiry [OF e2, of "\<lambda>K. K"]]
    by auto
qed

lemma persist_performs:
  assumes "db_ok s"
  shows "performs True c s (\<lambda>K. K) (cl_cmd (sv_client s c)) (persistCommand c k s)"
proof -
  define d where "d = cl_db (sv_client s c)"
  let ?s1 = "upd_db d (\<lambda>b. b\<lparr>db_expires := AList.delete k (db_expires b)\<rparr>) s"
  have e: "exps ?s1 = kput d k None (exps s)" by (simp add: delete_conv' kput_def)
  have k: "ks ?s1 = ks s" by simp
  have "exps ?s1 d' k' \<noteq> None \<longrightarrow> ks ?s1 d' k' \<noteq> None" for d' k'
    unfolding k e using db_ok_exps [OF assms(1), of d' k'] by (cases "ks s d' k'") (auto simp: kput_apply)
  then have "db_ok ?s1" using assms(1) unfolding db_ok_def by simp
  moreover have "frame c s ?s1" by (simp add: frame_def)
  moreover have "unnoticed s [] ?s1" unfolding unnoticed_def k e by (auto simp: kput_apply)
  ultimately have o: "outcome True c s [] (\<lambda>K. K) (cl_cmd (sv_client s c)) 0 ?s1" by (simp add: outcome_def)
  have "outcome True c s [] (\<lambda>K. K) (cl_cmd (sv_client s c)) 1 (incr_dirty 1 (addReply c q ?s1))" for q
    using outcome_incr_dirty [OF outcome_addReply [OF o], of 1] by simp
  then have "performs True c s (\<lambda>K. K) (cl_cmd (sv_client s c)) (Some (incr_dirty 1 (addReply c q ?s1)))" for q
    using performs_changed by fastforce
  moreover have "performs True c s (\<lambda>K. K) (cl_cmd (sv_client s c)) (Some (addReply c q ?s1))" for q
    using outcome_addReply [OF o] by (auto simp: performs_def)
  ultimately show ?thesis
    using performs_addReply [OF performs_nothing [OF assms], of "\<lambda>K. K"]
    by (auto simp: persistCommand_def removeExpire_def d_def [symmetric])
qed

subsection \<open>All commands\<close>

text \<open>
  A command that looks up a key a second time after it has decided by the first answer may find that the
  key has expired in between: \<open>SET\<close> with \<open>XX\<close>, and \<open>MSETNX\<close> with a repeated key.
\<close>

fun decides_once :: "('k, 'v) command \<Rightarrow> bool" where
  "decides_once (SET k v opts) = (OptXX \<notin> set opts)"
| "decides_once (MSETNX kvs odd_arg) = distinct (map fst kvs)"
| "decides_once _ = True"

fun is_move :: "('k, 'v) command \<Rightarrow> bool" where
  "is_move (MOVE k i) = True"
| "is_move _ = False"

fun changes_client :: "('k, 'v) command \<Rightarrow> bool" where
  "changes_client (SELECT i) = True"
| "changes_client UNWATCH = True"
| "changes_client _ = False"

text \<open>The key whose time to live a command sets; such a command becomes a \<open>DEL\<close> when that time is past.\<close>

fun expires_key :: "('k, 'v) command \<Rightarrow> 'k option" where
  "expires_key (EXPIRE k n) = Some k" | "expires_key (EXPIREAT k n) = Some k"
| "expires_key (PEXPIRE k n) = Some k" | "expires_key (PEXPIREAT k n) = Some k"
| "expires_key _ = None"

definition refines :: "nat \<Rightarrow> ('k, 'v) command \<Rightarrow> ('k, 'v) redisServer \<Rightarrow> ('k, 'v) redisServer option \<Rightarrow> bool" where
  "refines c cmd s res \<longleftrightarrow> (\<exists>cmd'. performs (\<not> is_move cmd) c s (kapply (sv_dbnum s) (cl_db (sv_client s c)) cmd') (Cmd cmd') res \<and>
    (cmd' = cmd \<or> \<not> sv_masterhost s \<and> (\<exists>k. expires_key cmd = Some k \<and> cmd' = DEL [k])))"

lemma refinesI:
  assumes "performs True c s f (cl_cmd (sv_client s c)) res"
    and "cl_cmd (sv_client s c) = Cmd cmd" and "f = kapply (sv_dbnum s) (cl_db (sv_client s c)) cmd"
  shows "refines c cmd s res"
  using performs_weaken [OF assms(1), of "\<not> is_move cmd"] assms(2,3) unfolding refines_def by auto

lemma refines_expire:
  assumes "performs True c s (\<lambda>K. K) (cl_cmd (sv_client s c)) res \<or>
      \<not> sv_masterhost s \<and> performs True c s (kput (cl_db (sv_client s c)) k None) (Cmd (DEL [k])) res"
    and "cl_cmd (sv_client s c) = Cmd cmd" and "kapply (sv_dbnum s) (cl_db (sv_client s c)) cmd = (\<lambda>K. K)"
    and "expires_key cmd = Some k"
  shows "refines c cmd s res"
  using assms(1)
proof
  assume "performs True c s (\<lambda>K. K) (cl_cmd (sv_client s c)) res"
  then show ?thesis using refinesI assms(2,3) by metis
next
  assume a: "\<not> sv_masterhost s \<and> performs True c s (kput (cl_db (sv_client s c)) k None) (Cmd (DEL [k])) res"
  have "kapply (sv_dbnum s) (cl_db (sv_client s c)) (DEL [k]) = kput (cl_db (sv_client s c)) k None"
    by (rule ext) simp
  then have "performs (\<not> is_move cmd) c s (kapply (sv_dbnum s) (cl_db (sv_client s c)) (DEL [k])) (Cmd (DEL [k])) res"
    using a performs_weaken by metis
  then show ?thesis using a assms(4) unfolding refines_def by blast
qed

theorem command_proc_refines:
  assumes "db_ok s" and "watch_sound s" and "cl_db (sv_client s c) < sv_dbnum s"
    and "cl_cmd (sv_client s c) = Cmd cmd" and "decides_once cmd" and "\<not> changes_client cmd"
    and "cmd = FLUSHALL \<Longrightarrow> \<not> sv_saveparams s"
  shows "refines c cmd s (command_proc c cmd s)"
proof (cases cmd)
  case (GET k)
  obtain s' ds q where "getGenericCommand c k s =
      Some (addReply c q s', \<nexists>x. ks s' (cl_db (sv_client s c)) k = Some (OtherObj x))" "expiry s ds s'"
    using getGeneric_ok [OF assms(1)] .
  then have "performs True c s (\<lambda>K. K) (cl_cmd (sv_client s c)) (command_proc c cmd s)"
    using performs_addReply [OF performs_expiry [of s ds s' "\<lambda>K. K"]] GET by (simp add: getCommand_def)
  then show ?thesis by (rule refinesI [OF _ assms(4)]) (rule ext, simp add: GET)
next
  case (SET k v opts)
  show ?thesis by (rule refinesI [OF _ assms(4) refl]) (use setCommand_performs assms(1,3,5) SET in auto)
next
  case (SETNX k v)
  have "kapply (sv_dbnum s) d cmd = kset d (no_flags\<lparr>sa_nx := True\<rparr>) k v" for d by (rule ext) (simp add: SETNX)
  moreover have "\<not> sa_xx (no_flags\<lparr>sa_nx := True\<rparr>)" by (simp add: no_flags_def)
  ultimately show ?thesis
    by (intro refinesI [OF _ assms(4)]) (use setGeneric_performs [OF assms(1) _ assms(3)] SETNX in \<open>auto simp: setnxCommand_def\<close>)
next
  case (SETEX k n v)
  let ?a = "no_flags\<lparr>sa_expire := Some n, sa_seconds := True\<rparr>"
  have "kapply (sv_dbnum s) d cmd = kset d ?a k v" for d by (rule ext) (simp add: SETEX)
  moreover have "\<not> sa_xx ?a" by (simp add: no_flags_def)
  ultimately show ?thesis
    by (intro refinesI [OF _ assms(4)]) (use setGeneric_performs [OF assms(1) _ assms(3)] SETEX in \<open>auto simp: setexCommand_def\<close>)
next
  case (PSETEX k n v)
  let ?a = "no_flags\<lparr>sa_expire := Some n, sa_seconds := False\<rparr>"
  have "kapply (sv_dbnum s) d cmd = kset d ?a k v" for d by (rule ext) (simp add: PSETEX)
  moreover have "\<not> sa_xx ?a" by (simp add: no_flags_def)
  ultimately show ?thesis
    by (intro refinesI [OF _ assms(4)]) (use setGeneric_performs [OF assms(1) _ assms(3)] PSETEX in \<open>auto simp: psetexCommand_def\<close>)
next
  case (GETSET k v)
  show ?thesis by (rule refinesI [OF _ assms(4) refl]) (use getsetCommand_performs assms(1,3) GETSET in auto)
next
  case (MGET keys)
  show ?thesis by (rule refinesI [OF _ assms(4) refl]) (use mget_performs assms(1) MGET in auto)
next
  case (MSET kvs o')
  show ?thesis
    by (rule refinesI [OF _ assms(4) refl]) (use mset_performs [OF assms(1) _ assms(3), of False] MSET in auto)
next
  case (MSETNX kvs o')
  show ?thesis
    by (rule refinesI [OF _ assms(4) refl]) (use mset_performs [OF assms(1) _ assms(3), of True] assms(5) MSETNX in auto)
next
  case (DEL keys)
  show ?thesis by (rule refinesI [OF _ assms(4) refl]) (use del_performs assms(1) DEL in auto)
next
  case (EXISTS keys)
  show ?thesis by (rule refinesI [OF _ assms(4) refl]) (use exists_performs assms(1) EXISTS in auto)
next
  case FLUSHDB
  show ?thesis by (rule refinesI [OF _ assms(4) refl]) (use flushdb_performs assms(1,2) FLUSHDB in auto)
next
  case FLUSHALL
  show ?thesis by (rule refinesI [OF _ assms(4) refl]) (use flushall_performs assms(1,2,7) FLUSHALL in auto)
next
  case (RENAME k k')
  have "kapply N d cmd = krename d False k k'" for N d by (rule ext) (simp add: RENAME)
  then show ?thesis by (intro refinesI [OF _ assms(4)]) (use rename_performs assms(1) RENAME in auto)
next
  case (RENAMENX k k')
  have "kapply N d cmd = krename d True k k'" for N d by (rule ext) (simp add: RENAMENX)
  then show ?thesis by (intro refinesI [OF _ assms(4)]) (use rename_performs assms(1) RENAMENX in auto)
next
  case (MOVE k i)
  have "kapply (sv_dbnum s) d cmd = kmove (sv_dbnum s) d k i" for d by (rule ext) (simp add: MOVE)
  then have "performs False c s (kapply (sv_dbnum s) (cl_db (sv_client s c)) cmd) (Cmd cmd) (command_proc c cmd s)"
    using move_performs [OF assms(1,3), of k i] assms(4) MOVE by simp
  then show ?thesis unfolding refines_def using MOVE by auto
next
  case (EXPIRE k w)
  obtain now s' where "mstime s = (now, s')" by (cases "mstime s")
  then show ?thesis
    by (intro refines_expire [OF _ assms(4), of _ k])
      (use expire_clock_performs [OF assms(1)] EXPIRE in \<open>auto simp: expireCommand_def\<close>)
next
  case (PEXPIRE k w)
  obtain now s' where "mstime s = (now, s')" by (cases "mstime s")
  then show ?thesis
    by (intro refines_expire [OF _ assms(4), of _ k])
      (use expire_clock_performs [OF assms(1)] PEXPIRE in \<open>auto simp: pexpireCommand_def\<close>)
next
  case (EXPIREAT k w)
  show ?thesis
    by (intro refines_expire [OF _ assms(4), of _ k])
      (use expireGeneric_performs [OF assms(1)] EXPIREAT in \<open>auto simp: expireatCommand_def\<close>)
next
  case (PEXPIREAT k w)
  show ?thesis
    by (intro refines_expire [OF _ assms(4), of _ k])
      (use expireGeneric_performs [OF assms(1)] PEXPIREAT in \<open>auto simp: pexpireatCommand_def\<close>)
next
  case (TTL k)
  show ?thesis by (rule refinesI [OF _ assms(4), of "\<lambda>K. K"]) (use ttl_performs assms(1) TTL in auto)
next
  case (PTTL k)
  show ?thesis by (rule refinesI [OF _ assms(4), of "\<lambda>K. K"]) (use ttl_performs assms(1) PTTL in auto)
next
  case (PERSIST k)
  show ?thesis by (rule refinesI [OF _ assms(4), of "\<lambda>K. K"]) (use persist_performs assms(1) PERSIST in auto)
next
  case DBSIZE
  show ?thesis
    by (rule refinesI [OF _ assms(4), of "\<lambda>K. K"])
      (use performs_addReply [OF performs_nothing [OF assms(1)]] DBSIZE in \<open>auto simp: dbsizeCommand_def\<close>)
qed (use assms(6) in auto)

subsection \<open>When an expiry becomes a deletion\<close>

text \<open>The time in milliseconds at which a command makes its key expire, where \<open>t\<close> is the time it starts at.\<close>

fun deadline :: "int \<Rightarrow> ('k, 'v) command \<Rightarrow> ('k \<times> int) option" where
  "deadline t (EXPIRE k (Some n)) = Some (k, ll (ll (n * 1000) + t))"
| "deadline t (PEXPIRE k (Some n)) = Some (k, ll (n + t))"
| "deadline t (EXPIREAT k (Some n)) = Some (k, ll (ll (n * 1000)))"
| "deadline t (PEXPIREAT k (Some n)) = Some (k, ll n)"
| "deadline t _ = None"

text \<open>From \<open>s\<close> to \<open>s'\<close> the clock has been read, and \<open>t\<close> is the last reading.\<close>

definition last_reading :: "('k, 'v) redisServer \<Rightarrow> ('k, 'v) redisServer \<Rightarrow> int \<Rightarrow> bool" where
  "last_reading s s' t \<longleftrightarrow> (\<exists>n. sv_mstime s' = (\<lambda>i. sv_mstime s (Suc n + i)) \<and> t = sv_mstime s n)"

lemma lookupKeyWrite_clock:
  "lookupKeyWrite d k s = Some (s', x) \<Longrightarrow> \<exists>n. sv_mstime s' = (\<lambda>i. sv_mstime s (n + i))"
  by (auto simp: lookupKeyWrite_def expireIfNeeded_def mstime_def propagateExpire_def replicationFeedSlaves_def
      dbDelete_def Let_def split: bind_splits if_splits intro: exI [of _ 0] exI [of _ 1])

lemma last_reading_from_clock: "last_reading (snd (mstime s)) s' t \<Longrightarrow> last_reading s s' t"
  unfolding last_reading_def mstime_def
  by (elim exE conjE, rule exI [of _ "Suc _"]) simp

lemma expireGeneric_decides:
  assumes "db_ok s" and "expireGenericCommand c k (Some w0) base sec s = Some s'"
    and "cl_cmd (sv_client s c) \<noteq> Cmd (DEL [k])" and "w = ll ((if sec then ll (w0 * 1000) else w0) + base)"
  shows "if cl_cmd (sv_client s' c) = Cmd (DEL [k]) then \<exists>t. last_reading s s' t \<and> w \<le> t
    else ks s' (cl_db (sv_client s c)) k \<noteq> None \<longrightarrow> exps s' (cl_db (sv_client s c)) k = Some w \<and>
      (\<exists>t. last_reading s s' t \<and> (sv_masterhost s \<or> t < w))"
proof -
  define d where "d = cl_db (sv_client s c)"
  obtain s1 ds where 1: "lookupKeyWrite d k s = Some (s1, ks s1 d k)" "expiry s ds s1"
    using lookupKeyWrite_ok [OF assms(1)] by metis
  obtain n where n: "sv_mstime s1 = (\<lambda>i. sv_mstime s (n + i))" using lookupKeyWrite_clock [OF 1(1)] by blast
  note e1 = expiryD(6,10) [OF 1(2)]
  show ?thesis
  proof (cases "ks s1 d k")
    case None
    then have "s' = addReply c (ReplyInt 0) s1"
      using 1(1) assms(2) by (simp add: expireGenericCommand_def d_def [symmetric] lookupKeyRead_eq)
    then show ?thesis using None assms(3) e1 by (simp add: addReply_def d_def)
  next
    case (Some v)
    define s2 where "s2 = snd (mstime s1)"
    have m: "mstime s1 = (sv_mstime s1 0, s2)" by (simp add: mstime_def s2_def)
    have r: "last_reading s t (sv_mstime s1 0)" if "sv_mstime t = sv_mstime s2" for t
      unfolding last_reading_def using that n by (intro exI [of _ n]) (simp add: s2_def mstime_def)
    have s2: "ks s2 = ks s1" "sv_client s2 = sv_client s" "sv_masterhost s2 = sv_masterhost s"
      using e1 by (simp_all add: s2_def)
    show ?thesis
    proof (cases "w \<le> sv_mstime s1 0 \<and> \<not> sv_masterhost s2")
      case True
      have "sv_mstime s' = sv_mstime s2 \<and> cl_cmd (sv_client s' c) = Cmd (DEL [k])"
        using assms(2) 1(1) Some True m
        by (auto simp: expireGenericCommand_def d_def [symmetric] lookupKeyRead_eq assms(4) dbDelete_def Let_def
            signalModifiedKey_def touchWatchedKey_marked addReply_def incr_dirty_def split: if_splits)
      then show ?thesis using r True by auto
    next
      case False
      then have "s' = incr_dirty 1 (signalModifiedKey d k (addReply c (ReplyInt 1)
          (upd_db d (\<lambda>b. b\<lparr>db_expires := AList.update k w (db_expires b)\<rparr>) s2)))"
        using assms(2) 1(1) Some m s2(1)
        by (auto simp: expireGenericCommand_def d_def [symmetric] lookupKeyRead_eq assms(4) setExpire_def Let_def
            split: if_splits)
      then have "sv_mstime s' = sv_mstime s2" "cl_cmd (sv_client s' c) = cl_cmd (sv_client s c)" "exps s' d k = Some w"
        using s2(2) by (simp_all add: signalModifiedKey_def touchWatchedKey_marked addReply_def incr_dirty_def
            update_conv' view_defs del: fold_views)
      then show ?thesis using r False assms(3) s2(3) unfolding d_def by (metis not_le)
    qed
  qed
qed

lemma expire_decides:
  assumes "db_ok s" and "command_proc c cmd s = Some s'" and "cl_cmd (sv_client s c) = Cmd cmd"
    and "deadline (sv_mstime s 0) cmd = Some (k, w)"
  shows "if cl_cmd (sv_client s' c) = Cmd (DEL [k]) then \<exists>t. last_reading s s' t \<and> w \<le> t
    else ks s' (cl_db (sv_client s c)) k \<noteq> None \<longrightarrow> exps s' (cl_db (sv_client s c)) k = Some w \<and>
      (\<exists>t. last_reading s s' t \<and> (sv_masterhost s \<or> t < w))"
proof -
  have ok: "db_ok (snd (mstime s))" using assms(1) by simp
  have l: "\<exists>t. last_reading s s' t \<and> P t" if "\<exists>t. last_reading (snd (mstime s)) s' t \<and> P t" for P
    using that last_reading_from_clock by blast
  have late: ?thesis if "expireGenericCommand c k (Some n) (sv_mstime s 0) sec (snd (mstime s)) = Some s'"
    and "w = ll ((if sec then ll (n * 1000) else n) + sv_mstime s 0)" and "cmd \<noteq> DEL [k]" for n sec
    using expireGeneric_decides [OF ok that(1) _ that(2)] that(3) assms(3) l by (simp split: if_splits)
  from assms(4) consider n where "cmd = EXPIRE k (Some n)" "w = ll (ll (n * 1000) + sv_mstime s 0)"
    | n where "cmd = PEXPIRE k (Some n)" "w = ll (n + sv_mstime s 0)"
    | n where "cmd = EXPIREAT k (Some n)" "w = ll (ll (n * 1000) + 0)" | n where "cmd = PEXPIREAT k (Some n)" "w = ll (n + 0)"
    by (cases "(sv_mstime s 0, cmd)" rule: deadline.cases) auto
  then show ?thesis
  proof cases
    case (1 n)
    then show ?thesis using late [of n True] assms(2) by (simp add: expireCommand_def case_prod_beta mstime_def)
  next
    case (2 n)
    then show ?thesis using late [of n False] assms(2) by (simp add: pexpireCommand_def case_prod_beta mstime_def)
  next
    case (3 n)
    then show ?thesis
      using expireGeneric_decides [OF assms(1), of c k n 0 True s' w] assms(2,3) by (simp add: expireatCommand_def)
  next
    case (4 n)
    then show ?thesis
      using expireGeneric_decides [OF assms(1), of c k n 0 False s' w] assms(2,3) by (simp add: pexpireatCommand_def)
  qed
qed

subsection \<open>No command fails an assertion\<close>

lemma mset_busy_total:
  assumes "db_ok s"
  shows "\<exists>s' m ds. mset_busy d kvs n s = Some (s', m) \<and> expiry s ds s'"
  using assms
proof (induction kvs arbitrary: s n)
  case Nil
  then show ?case using expiry_refl by auto
next
  case (Cons kv kvs)
  obtain k v where kv: "kv = (k, v)" by (cases kv)
  obtain s1 ds where 1: "lookupKeyWrite d k s = Some (s1, ks s1 d k)" "expiry s ds s1"
    using lookupKeyWrite_ok [OF Cons.prems] by metis
  obtain s2 m ds' where 2: "mset_busy d kvs (if ks s1 d k \<noteq> None then Suc n else n) s1 = Some (s2, m)" "expiry s1 ds' s2"
    using Cons.IH [OF expiryD(1) [OF 1(2)]] by metis
  show ?case using 1(1) 2(1) kv expiry_trans [OF 1(2) 2(2)] by auto
qed

definition completes :: "nat \<Rightarrow> ('k, 'v) command \<Rightarrow> ('k, 'v) redisServer \<Rightarrow> ('k, 'v) redisServer option \<Rightarrow> bool" where
  "completes c cmd s res \<longleftrightarrow> (\<exists>s' ds f r n. res = Some s' \<and> outcome (\<not> is_move cmd) c s ds f r n s')"

lemma completesI: "outcome True c s ds f r n s' \<Longrightarrow> res = Some s' \<Longrightarrow> completes c cmd s res"
  unfolding completes_def using outcome_weaken by blast

lemma completes_reply: "db_ok s \<Longrightarrow> res = Some (addReply c q s) \<Longrightarrow> completes c cmd s res"
  by (rule completesI [OF outcome_addReply [OF outcome_refl]])

lemma completes_refines: "refines c cmd s res \<Longrightarrow> completes c cmd s res"
  unfolding refines_def performs_def completes_def by blast

lemma setCommand_completes:
  assumes "db_ok s" and "cl_db (sv_client s c) < sv_dbnum s"
  shows "completes c cmd s (setCommand c k v opts s)"
proof (cases "set_options opts no_flags")
  case None
  then show ?thesis by (intro completes_reply [OF assms(1)]) (simp add: setCommand_def)
next
  case (Some a)
  have r: "completes c cmd s (set_checked c a ms k v ReplyOk ReplyNull s)" for ms
    using set_checked_total [OF assms, of a ms k v ReplyOk ReplyNull] completesI by metis
  show ?thesis
    using r completes_reply [OF assms(1) refl]
    by (auto simp: setCommand_def Some setGenericCommand_def split: option.split)
qed

lemma mset_completes:
  assumes "db_ok s" and "cl_db (sv_client s c) < sv_dbnum s"
  shows "completes c cmd s (msetGenericCommand c True kvs odd_arg s)"
proof (cases "odd_arg = None")
  case False
  then show ?thesis by (intro completes_reply [OF assms(1)]) (auto simp: msetGenericCommand_def)
next
  case True
  define d where "d = cl_db (sv_client s c)"
  obtain s1 n ds where 1: "mset_busy d kvs 0 s = Some (s1, n)" "expiry s ds s1"
    using mset_busy_total [OF assms(1)] by metis
  show ?thesis
  proof (cases "n = 0")
    case False
    then show ?thesis
      using 1 True by (intro completesI [OF outcome_addReply [OF outcome_expiry [OF 1(2)]]])
        (simp add: msetGenericCommand_def d_def [symmetric])
  next
    case n: True
    have "d < sv_dbnum s1" using expiryD(8) [OF 1(2)] assms(2) by (simp add: d_def)
    then obtain s2 ds' where 2: "mset_loop d kvs s1 = Some s2"
        "outcome True c s1 ds' (kmset d kvs) (cl_cmd (sv_client s1 c)) 0 s2"
      using mset_loop_outcome [OF expiryD(1) [OF 1(2)]] by metis
    show ?thesis
      by (rule completesI [OF outcome_addReply [OF outcome_incr_dirty [OF outcome_after_expiry [OF 1(2) 2(2)]]]])
        (use 1(1) 2(1) n True in \<open>simp add: msetGenericCommand_def d_def [symmetric]\<close>)
  qed
qed

theorem command_proc_completes:
  assumes "db_ok s" and "watch_sound s" and "cl_db (sv_client s c) < sv_dbnum s"
    and "cl_cmd (sv_client s c) = Cmd cmd" and "\<not> changes_client cmd"
  shows "completes c cmd s (command_proc c cmd s)"
proof (cases "decides_once cmd \<and> (cmd = FLUSHALL \<longrightarrow> \<not> sv_saveparams s)")
  case True
  then show ?thesis using completes_refines [OF command_proc_refines [OF assms(1-4) _ assms(5)]] by blast
next
  case False
  then consider k v opts where "cmd = SET k v opts" | kvs odd_arg where "cmd = MSETNX kvs odd_arg" | "cmd = FLUSHALL"
    by (cases cmd) auto
  then show ?thesis
  proof cases
    case 1
    then show ?thesis using setCommand_completes [OF assms(1,3)] by simp
  next
    case 2
    then show ?thesis using mset_completes [OF assms(1,3)] by simp
  next
    case 3
    then show ?thesis using flushall_outcome [OF assms(1,2)] completesI by (metis command_proc.simps(13))
  qed
qed

text \<open>A command with the read-only flag leaves the counter of changes alone.\<close>

lemma reading_commands:
  assumes "db_ok s" and "command_proc c cmd s = Some s'"
    and "(\<exists>k. cmd = GET k \<or> cmd = TTL k \<or> cmd = PTTL k) \<or> (\<exists>keys. cmd = MGET keys \<or> cmd = EXISTS keys) \<or> cmd = DBSIZE"
  shows "sv_dirty s' = sv_dirty s"
proof -
  have ttl: "sv_dirty s' = sv_dirty s" if "ttlGenericCommand c k b s = Some s'" for k b
  proof -
    obtain s1 ds where 1: "lookupKeyWrite (cl_db (sv_client s c)) k s = Some (s1, ks s1 (cl_db (sv_client s c)) k)" "expiry s ds s1"
      using lookupKeyWrite_ok [OF assms(1)] by metis
    then show ?thesis
      using that getExpire_ok [OF expiryD(1) [OF 1(2)]] expiryD(9) [OF 1(2)]
      by (auto simp: ttlGenericCommand_def lookupKeyRead_eq mstime_def Let_def split: if_splits)
  qed
  from assms(3) consider k where "cmd = GET k" | k where "cmd = TTL k" | k where "cmd = PTTL k"
    | keys where "cmd = MGET keys" | keys where "cmd = EXISTS keys" | "cmd = DBSIZE" by blast
  then show ?thesis
  proof cases
    case 1
    obtain s1 ds q b where "getGenericCommand c k s = Some (addReply c q s1, b)" "expiry s ds s1"
      using getGeneric_ok [OF assms(1), of c k] by metis
    then show ?thesis using 1 assms(2) expiryD(9) by (auto simp: getCommand_def)
  next
    case (4 keys)
    have "db_ok (addReply c (ReplyMultiLen (length keys)) s)" using assms(1) by simp
    then obtain s1 ds where "mget_loop c keys (addReply c (ReplyMultiLen (length keys)) s) = Some s1"
        "outcome True c (addReply c (ReplyMultiLen (length keys)) s) ds (\<lambda>K. K)
          (cl_cmd (sv_client (addReply c (ReplyMultiLen (length keys)) s) c)) 0 s1"
      using mget_loop_reads by blast
    then show ?thesis using assms(2) 4 outcomeD(7) by (fastforce simp: mgetCommand_def)
  next
    case (5 keys)
    obtain s1 m ds where "exists_loop (cl_db (sv_client s c)) keys 0 s = Some (s1, m)" "expiry s ds s1"
      using exists_loop_ok [OF assms(1)] by metis
    then show ?thesis using assms(2) 5 expiryD(9) by (auto simp: existsCommand_def)
  qed (use ttl assms(2) in \<open>auto simp: dbsizeCommand_def\<close>)
qed

end
