(* ===== verification/Multi.thy ===== *)
theory Multi
  imports Key_Spec
begin

text \<open>
  Transactions: the other half of \<^verbatim>\<open>src/redis-3.0.3/src/multi.c\<close>, \<open>call\<close> and the last part of
  \<open>processCommand\<close> of \<^verbatim>\<open>redis.c\<close>, the arrival and the departure of clients (\<^verbatim>\<open>networking.c\<close>), and the
  runs of a server.

  Of the checks \<open>processCommand\<close> makes before it queues or calls a command, that for an unknown command
  or a wrong number of arguments is modelled; the others depend on the configuration (a password, a
  memory limit, a failing disk and so on), which is taken not to interfere.
\<close>

text \<open>The flag of read-only commands in the command table.\<close>

fun cmd_readonly :: "('k, 'v) command \<Rightarrow> bool" where
  "cmd_readonly (GET k) = True" | "cmd_readonly (MGET keys) = True" | "cmd_readonly (EXISTS keys) = True"
| "cmd_readonly (SELECT i) = True" | "cmd_readonly (TTL k) = True" | "cmd_readonly (PTTL k) = True"
| "cmd_readonly DBSIZE = True" | "cmd_readonly UNWATCH = True" | "cmd_readonly _ = False"

definition propagate :: "('k, 'v) request \<Rightarrow> nat \<Rightarrow> ('k, 'v) redisServer \<Rightarrow> ('k, 'v) redisServer" where
  "propagate cmd dbid s = replicationFeedSlaves dbid cmd s"

text \<open>\<open>proc\<close> is the function of the current command of the client.\<close>

definition call :: "nat \<Rightarrow> (('k, 'v) redisServer \<Rightarrow> ('k, 'v) redisServer option) \<Rightarrow> ('k, 'v) redisServer \<Rightarrow>
    ('k, 'v) redisServer option" where
  "call c proc s = do {
     s' \<leftarrow> proc s;
     let dirty = max 0 (sv_dirty s' - sv_dirty s);
     Some (if dirty \<noteq> 0 then propagate (cl_cmd (sv_client s' c)) (cl_db (sv_client s' c)) s' else s') }"

definition queueMultiCommand :: "nat \<Rightarrow> ('k, 'v) command \<Rightarrow> ('k, 'v) redisServer \<Rightarrow> ('k, 'v) redisServer" where
  "queueMultiCommand c cmd = upd_client c (\<lambda>cl. cl\<lparr>cl_mstate := cl_mstate cl @ [cmd]\<rparr>)"

definition discardTransaction :: "nat \<Rightarrow> ('k, 'v) redisServer \<Rightarrow> ('k, 'v) redisServer option" where
  "discardTransaction c s = unwatchAllKeys c (upd_client c (\<lambda>cl. cl\<lparr>cl_mstate := [], cl_multi := False,
     cl_dirty_cas := False, cl_dirty_exec := False\<rparr>) s)"

definition flagTransaction :: "nat \<Rightarrow> ('k, 'v) redisServer \<Rightarrow> ('k, 'v) redisServer" where
  "flagTransaction c s =
    (if cl_multi (sv_client s c) then upd_client c (\<lambda>cl. cl\<lparr>cl_dirty_exec := True\<rparr>) s else s)"

definition multiCommand :: "nat \<Rightarrow> ('k, 'v) redisServer \<Rightarrow> ('k, 'v) redisServer" where
  "multiCommand c s =
    (if cl_multi (sv_client s c) then addReply c (ReplyError ''MULTI calls can not be nested'') s
     else addReply c ReplyOk (upd_client c (\<lambda>cl. cl\<lparr>cl_multi := True\<rparr>) s))"

definition discardCommand :: "nat \<Rightarrow> ('k, 'v) redisServer \<Rightarrow> ('k, 'v) redisServer option" where
  "discardCommand c s =
    (if \<not> cl_multi (sv_client s c) then Some (addReply c (ReplyError ''DISCARD without MULTI'') s)
     else do {
       s \<leftarrow> discardTransaction c s;
       Some (addReply c ReplyOk s) })"

definition execCommandPropagateMulti :: "nat \<Rightarrow> ('k, 'v) redisServer \<Rightarrow> ('k, 'v) redisServer" where
  "execCommandPropagateMulti c s = propagate MULTI (cl_db (sv_client s c)) s"

text \<open>
  The queued commands from the \<open>j\<close>-th on; \<open>must_propagate\<close> says that \<open>MULTI\<close> has been propagated.  What a
  command makes of its own arguments goes back into the queue.
\<close>

fun exec_loop :: "nat \<Rightarrow> nat \<Rightarrow> ('k, 'v) command list \<Rightarrow> bool \<Rightarrow> ('k, 'v) redisServer \<Rightarrow>
    (('k, 'v) redisServer \<times> bool) option" where
  "exec_loop c j [] must_propagate s = Some (s, must_propagate)"
| "exec_loop c j (cmd # cmds) must_propagate s = do {
     let s = upd_client c (\<lambda>cl. cl\<lparr>cl_cmd := Cmd cmd\<rparr>) s;
     let start = \<not> must_propagate \<and> \<not> cmd_readonly cmd;
     let s = (if start then execCommandPropagateMulti c s else s);
     s \<leftarrow> call c (command_proc c cmd) s;
     let s = upd_client c (\<lambda>cl. cl\<lparr>cl_mstate := (case cl_cmd cl of Cmd x \<Rightarrow> (cl_mstate cl)[j := x] | _ \<Rightarrow> cl_mstate cl)\<rparr>) s;
     exec_loop c (Suc j) cmds (must_propagate \<or> start) s }"

definition execCommand :: "nat \<Rightarrow> ('k, 'v) redisServer \<Rightarrow> ('k, 'v) redisServer option" where
  "execCommand c s =
    (if \<not> cl_multi (sv_client s c) then Some (addReply c (ReplyError ''EXEC without MULTI'') s)
     else if cl_dirty_cas (sv_client s c) \<or> cl_dirty_exec (sv_client s c) then
       discardTransaction c (addReply c
         (if cl_dirty_exec (sv_client s c) then ReplyError ''EXECABORT'' else ReplyNullMulti) s)
     else do {
       s \<leftarrow> unwatchAllKeys c s;
       let orig_cmd = cl_cmd (sv_client s c);
       let s = addReply c (ReplyMultiLen (length (cl_mstate (sv_client s c)))) s;
       (s, must_propagate) \<leftarrow> exec_loop c 0 (cl_mstate (sv_client s c)) False s;
       let s = upd_client c (\<lambda>cl. cl\<lparr>cl_cmd := orig_cmd\<rparr>) s;
       s \<leftarrow> discardTransaction c s;
       Some (if must_propagate then incr_dirty 1 s else s) })"

fun request_proc :: "nat \<Rightarrow> ('k, 'v) request \<Rightarrow> ('k, 'v) redisServer \<Rightarrow> ('k, 'v) redisServer option" where
  "request_proc c (Cmd cmd) s = command_proc c cmd s"
| "request_proc c MULTI s = Some (multiCommand c s)"
| "request_proc c EXEC s = execCommand c s"
| "request_proc c DISCARD s = discardCommand c s"
| "request_proc c (WATCH keys) s = Some (watchCommand c keys s)"
| "request_proc c BadRequest s = None"

text \<open>\<open>rejectCommand\<close> is the answer to a request that cannot be a command.\<close>

definition rejectCommand :: "nat \<Rightarrow> ('k, 'v) redisServer \<Rightarrow> ('k, 'v) redisServer" where
  "rejectCommand c s = addReply c (ReplyError ''unknown command'') (flagTransaction c s)"

definition processCommand :: "nat \<Rightarrow> ('k, 'v) request \<Rightarrow> ('k, 'v) redisServer \<Rightarrow> ('k, 'v) redisServer option" where
  "processCommand c r s =
    (case r of
       BadRequest \<Rightarrow> Some (rejectCommand c s)
     | _ \<Rightarrow>
       let s = upd_client c (\<lambda>cl. cl\<lparr>cl_cmd := r\<rparr>) s in
       (case r of
          Cmd cmd \<Rightarrow>
            if cl_multi (sv_client s c) then Some (addReply c ReplyQueued (queueMultiCommand c cmd s))
            else call c (request_proc c r) s
        | _ \<Rightarrow> call c (request_proc c r) s))"

definition createClient :: "nat \<Rightarrow> ('k, 'v) redisServer \<Rightarrow> ('k, 'v) redisServer" where
  "createClient c s =
    (let s = upd_client c (\<lambda>cl. \<lparr>cl_db = 0, cl_multi = False, cl_dirty_cas = False, cl_dirty_exec = False,
         cl_mstate = [], cl_watched_keys = [], cl_cmd = BadRequest, cl_reply = []\<rparr>) s
     in s\<lparr>sv_clients := sv_clients s @ [c]\<rparr>)"

definition freeClient :: "nat \<Rightarrow> ('k, 'v) redisServer \<Rightarrow> ('k, 'v) redisServer option" where
  "freeClient c s = do {
     s \<leftarrow> unwatchAllKeys c s;
     if c \<notin> set (sv_clients s) then None
     else Some (s\<lparr>sv_clients := remove1 c (sv_clients s)\<rparr>) }"

subsection \<open>Runs\<close>

datatype ('k, 'v) event =
    Request nat "('k, 'v) request" | Connect nat | Disconnect nat | ExpireCycle nat 'k int

fun step :: "('k, 'v) event \<Rightarrow> ('k, 'v) redisServer \<Rightarrow> ('k, 'v) redisServer option" where
  "step (Request c r) s = processCommand c r s"
| "step (Connect c) s = Some (createClient c s)"
| "step (Disconnect c) s = freeClient c s"
| "step (ExpireCycle d k now) s = Some (activeExpireCycleTryExpire d k now s)"

text \<open>Requests come from clients; keys expire in the background on a master.\<close>

fun enabled :: "('k, 'v) event \<Rightarrow> ('k, 'v) redisServer \<Rightarrow> bool" where
  "enabled (Request c r) s = (c \<in> set (sv_clients s))"
| "enabled (Connect c) s = (c \<notin> set (sv_clients s))"
| "enabled (Disconnect c) s = (c \<in> set (sv_clients s))"
| "enabled (ExpireCycle d k now) s = (d < sv_dbnum s \<and> \<not> sv_masterhost s)"

inductive reach :: "('k, 'v) redisServer \<Rightarrow> ('k, 'v) event list \<Rightarrow> ('k, 'v) redisServer \<Rightarrow> bool" for s where
  reach_refl: "reach s [] s"
| reach_step: "reach s es s1 \<Longrightarrow> enabled e s1 \<Longrightarrow> step e s1 = Some s2 \<Longrightarrow> reach s (es @ [e]) s2"

end
