(* ===== verification/Multi_Correct.thy ===== *)
theory Multi_Correct
  imports Multi
begin

text \<open>
  The state of the server stays well formed under every request, and no assertion of the program fails;
  and a client whose watched keys have changed knows it.
\<close>

subsection \<open>Well-formed servers\<close>

definition watch_ok :: "('k, 'v) redisServer \<Rightarrow> bool" where
  "watch_ok s \<longleftrightarrow>
    (\<forall>d k x. x \<in> set (watchers s d k) \<longleftrightarrow> x \<in> set (sv_clients s) \<and> (d, k) \<in> set (watched s x)) \<and>
    (\<forall>d k. distinct (watchers s d k)) \<and> (\<forall>x \<in> set (sv_clients s). distinct (watched s x))"

definition server_ok :: "('k, 'v) redisServer \<Rightarrow> bool" where
  "server_ok s \<longleftrightarrow> db_ok s \<and> watch_ok s \<and> distinct (sv_clients s) \<and> 0 < sv_dbnum s \<and> sv_dbnum s < 2 ^ 31 \<and>
    (\<forall>x \<in> set (sv_clients s). cl_db (sv_client s x) < sv_dbnum s \<and>
      (\<not> cl_multi (sv_client s x) \<longrightarrow> cl_mstate (sv_client s x) = [] \<and> \<not> cl_dirty_exec (sv_client s x)))"

lemma server_okD:
  assumes "server_ok s"
  shows "db_ok s" "watch_ok s" "distinct (sv_clients s)" "0 < sv_dbnum s"
    "x \<in> set (sv_clients s) \<Longrightarrow> cl_db (sv_client s x) < sv_dbnum s"
    "x \<in> set (sv_clients s) \<Longrightarrow> \<not> cl_multi (sv_client s x) \<Longrightarrow> cl_mstate (sv_client s x) = []"
    "x \<in> set (sv_clients s) \<Longrightarrow> \<not> cl_multi (sv_client s x) \<Longrightarrow> \<not> cl_dirty_exec (sv_client s x)"
    "sv_dbnum s < 2 ^ 31"
  using assms unfolding server_ok_def by blast+

lemma watch_okD:
  assumes "watch_ok s"
  shows "x \<in> set (watchers s d k) \<longleftrightarrow> x \<in> set (sv_clients s) \<and> (d, k) \<in> set (watched s x)"
    "distinct (watchers s d k)" "x \<in> set (sv_clients s) \<Longrightarrow> distinct (watched s x)"
  using assms by (auto simp: watch_ok_def)

lemma watch_ok_sound: "watch_ok s \<Longrightarrow> watch_sound s"
  by (auto simp: watch_ok_def watch_sound_def)

lemma outcome_server_ok:
  assumes "server_ok s" and "outcome b c s ds f r n s'"
  shows "server_ok s'"
proof -
  have fr: "frame c s s'" and db: "\<And>x. cl_db (sv_client s' x) = cl_db (sv_client s x)" and ok: "db_ok s'"
    using assms(2) by (auto simp: outcome_def)
  have "watch_ok s'" using server_okD(2) [OF assms(1)] fr by (simp add: watch_ok_def frame_def)
  then show ?thesis using assms(1) fr db ok by (simp add: server_ok_def frame_def)
qed

text \<open>Changes of a client that leave what it watches alone.\<close>

lemma watched_upd_client [simp]:
  "watched (upd_client c f s) x = (if x = c then cl_watched_keys (f (sv_client s c)) else watched s x)"
  by (simp add: watched_def)

lemma dirty_cas_upd_client [simp]:
  "dirty_cas (upd_client c f s) x = (if x = c then cl_dirty_cas (f (sv_client s c)) else dirty_cas s x)"
  by (simp add: dirty_cas_def)

lemma watch_ok_upd_client:
  "watch_ok s \<Longrightarrow> cl_watched_keys (f (sv_client s c)) = cl_watched_keys (sv_client s c) \<Longrightarrow> watch_ok (upd_client c f s)"
  by (simp add: watch_ok_def watched_def)

lemma server_ok_upd_client:
  assumes "server_ok s" and "cl_watched_keys (f (sv_client s c)) = cl_watched_keys (sv_client s c)"
    and "cl_db (sv_client s c) < sv_dbnum s \<Longrightarrow> cl_db (f (sv_client s c)) < sv_dbnum s"
    and "\<not> cl_multi (f (sv_client s c)) \<Longrightarrow> (\<not> cl_multi (sv_client s c) \<longrightarrow> cl_mstate (sv_client s c) = [] \<and> \<not> cl_dirty_exec (sv_client s c)) \<Longrightarrow>
      cl_mstate (f (sv_client s c)) = [] \<and> \<not> cl_dirty_exec (f (sv_client s c))"
  shows "server_ok (upd_client c f s)"
  using assms watch_ok_upd_client [of s f c] by (auto simp: server_ok_def)

lemma server_ok_fields [simp]:
  "server_ok (addReply c q s) = server_ok s" "server_ok (incr_dirty n s) = server_ok s"
  "server_ok (propagate r d s) = server_ok s"
  by (simp_all add: server_ok_def watch_ok_def propagate_def)

subsection \<open>Unwatching\<close>

text \<open>All that unwatching changes.\<close>

definition unwatched :: "nat \<Rightarrow> ('k, 'v) redisServer \<Rightarrow> ('k, 'v) redisServer \<Rightarrow> bool" where
  "unwatched c s s' \<longleftrightarrow> ks s' = ks s \<and> exps s' = exps s \<and> feedst s' = feedst s \<and> sv_dirty s' = sv_dirty s \<and>
    sv_clients s' = sv_clients s \<and> sv_dbnum s' = sv_dbnum s \<and> sv_masterhost s' = sv_masterhost s \<and>
    sv_saveparams s' = sv_saveparams s \<and> (\<forall>d. db_dict (sv_db s' d) = db_dict (sv_db s d)) \<and>
    sv_client s' = (sv_client s)(c := (sv_client s c)\<lparr>cl_watched_keys := []\<rparr>) \<and>
    (\<forall>d k. watchers s' d k = (if (d, k) \<in> set (watched s c) then remove1 c (watchers s d k) else watchers s d k))"

lemma watchers_upd_db:
  "watchers (upd_db d (\<lambda>b. b\<lparr>db_watched_keys := (if cs = [] then AList.delete k (db_watched_keys b)
      else AList.update k cs (db_watched_keys b))\<rparr>) s) = (watchers s)(d := (watchers s d)(k := cs))"
  by (auto simp: watchers_def fun_eq_iff update_conv' delete_conv')

lemma unwatch_loop_ok:
  assumes "cl_watched_keys (sv_client s c) = wks" and "distinct wks"
    and "\<And>d k. (d, k) \<in> set wks \<Longrightarrow> c \<in> set (watchers s d k)"
  shows "\<exists>s'. unwatch_loop c wks s = Some s' \<and> unwatched c s s'"
  using assms
proof (induction wks arbitrary: s)
  case Nil
  have "(sv_client s)(c := (sv_client s c)\<lparr>cl_watched_keys := []\<rparr>) = sv_client s"
    using Nil(1) by (simp add: fun_eq_iff)
  then show ?case using Nil by (simp add: unwatched_def watched_def)
next
  case (Cons wk wks)
  obtain d k where wk: "wk = (d, k)" by (cases wk)
  have w: "map_of (db_watched_keys (sv_db s d)) k = Some (watchers s d k)" "c \<in> set (watchers s d k)"
    using Cons.prems(3) [of d k] wk
    by (cases "map_of (db_watched_keys (sv_db s d)) k"; simp add: watchers_def)+
  let ?cs = "remove1 c (watchers s d k)"
  let ?s1 = "upd_db d (\<lambda>b. b\<lparr>db_watched_keys := (if ?cs = [] then AList.delete k (db_watched_keys b)
      else AList.update k ?cs (db_watched_keys b))\<rparr>) s"
  let ?s2 = "upd_client c (\<lambda>cl. cl\<lparr>cl_watched_keys := tl (cl_watched_keys cl)\<rparr>) ?s1"
  have wt: "watchers ?s2 = (watchers s)(d := (watchers s d)(k := ?cs))"
    by (simp add: watchers_upd_db)
  have "cl_watched_keys (sv_client ?s2 c) = wks" using Cons.prems(1) by simp
  moreover have "c \<in> set (watchers ?s2 d' k')" if "(d', k') \<in> set wks" for d' k'
  proof -
    have "(d', k') \<noteq> (d, k)" using that Cons.prems(2) wk by auto
    then have "watchers ?s2 d' k' = watchers s d' k'" unfolding wt by auto
    then show ?thesis using Cons.prems(3) that by simp
  qed
  ultimately obtain s' where s': "unwatch_loop c wks ?s2 = Some s'" "unwatched c ?s2 s'"
    using Cons.IH [of ?s2] Cons.prems(2) by auto
  have "unwatch_loop c (wk # wks) s = Some s'"
    using w s'(1) by (simp add: wk Let_def)
  moreover have "unwatched c s s'"
    unfolding unwatched_def
  proof (intro conjI allI)
    have ww: "watched ?s2 c = wks" "watched s c = (d, k) # wks" using Cons.prems(1) wk by (simp_all add: watched_def)
    fix d' k'
    have "watchers s' d' k' = (if (d', k') \<in> set wks then remove1 c (watchers ?s2 d' k') else watchers ?s2 d' k')"
      using s'(2) ww(1) unfolding unwatched_def by simp
    then show "watchers s' d' k' =
        (if (d', k') \<in> set (watched s c) then remove1 c (watchers s d' k') else watchers s d' k')"
      using Cons.prems(2) wk unfolding wt ww(2) by auto
  qed (use s'(2) in \<open>auto simp: unwatched_def fun_eq_iff\<close>)
  ultimately show ?case by blast
qed

lemma unwatchAllKeys_ok:
  assumes "server_ok s" and "c \<in> set (sv_clients s)"
  obtains s' where "unwatchAllKeys c s = Some s'" and "unwatched c s s'" and "server_ok s'"
proof -
  note w = watch_okD [OF server_okD(2) [OF assms(1)]]
  obtain s' where s': "unwatchAllKeys c s = Some s'" "unwatched c s s'"
    using unwatch_loop_ok [of s c "cl_watched_keys (sv_client s c)"] w(1,3) assms(2)
    unfolding unwatchAllKeys_def watched_def by blast
  have cl: "sv_client s' = (sv_client s)(c := (sv_client s c)\<lparr>cl_watched_keys := []\<rparr>)"
    and wt: "watchers s' d k = (if (d, k) \<in> set (watched s c) then remove1 c (watchers s d k) else watchers s d k)"
    and v: "ks s' = ks s" "exps s' = exps s" "sv_clients s' = sv_clients s" "sv_dbnum s' = sv_dbnum s"
      "db_dict (sv_db s' d) = db_dict (sv_db s d)" for d k
    using s'(2) unfolding unwatched_def by auto
  have wd: "watched s' x = (if x = c then [] else watched s x)" for x by (simp add: watched_def cl)
  have "watch_ok s'"
    using w unfolding watch_ok_def wt wd v by (auto simp: in_set_remove1 set_remove1_eq distinct_remove1)
  moreover have "db_ok s'" using server_okD(1) [OF assms(1)] unfolding db_ok_def v by simp
  ultimately have "server_ok s'" using assms(1) by (auto simp: server_ok_def v cl)
  then show ?thesis using that s' by blast
qed

lemma watchForKey_ok:
  assumes "server_ok s" and "c \<in> set (sv_clients s)"
  shows "server_ok (watchForKey c k s)"
proof (cases "(cl_db (sv_client s c), k) \<in> set (watched s c)")
  case True
  then show ?thesis using assms(1) by (simp add: watchForKey_def watched_def)
next
  case False
  define d where "d = cl_db (sv_client s c)"
  let ?s1 = "upd_db d (\<lambda>b. b\<lparr>db_watched_keys := AList.update k (watchers s d k @ [c]) (db_watched_keys b)\<rparr>) s"
  let ?s2 = "upd_client c (\<lambda>cl. cl\<lparr>cl_watched_keys := cl_watched_keys cl @ [(d, k)]\<rparr>) ?s1"
  have s2: "watchForKey c k s = ?s2"
    using False by (simp add: watchForKey_def watched_def d_def watchers_def Let_def)
  have wt: "watchers ?s2 = (watchers s)(d := (watchers s d)(k := watchers s d k @ [c]))"
    by (auto simp: watchers_def fun_eq_iff update_conv')
  have wd: "watched ?s2 x = (if x = c then watched s c @ [(d, k)] else watched s x)" for x
    by (simp add: watched_def)
  note w = watch_okD [OF server_okD(2) [OF assms(1)]]
  have n: "c \<notin> set (watchers s d k)" using False w(1) by (simp add: d_def)
  have "watch_ok ?s2"
    unfolding watch_ok_def
  proof (intro conjI allI ballI)
    show "x \<in> set (watchers ?s2 d' k') \<longleftrightarrow> x \<in> set (sv_clients ?s2) \<and> (d', k') \<in> set (watched ?s2 x)" for d' k' x
      unfolding wt wd using w(1) assms(2) by auto
    show "distinct (watchers ?s2 d' k')" for d' k' unfolding wt using w(2) n by auto
    show "distinct (watched ?s2 x)" if "x \<in> set (sv_clients ?s2)" for x
      unfolding wd using w(3) that False assms(2) by (auto simp: d_def)
  qed
  moreover have "db_ok ?s2" using server_okD(1) [OF assms(1)] by (simp add: db_ok_def)
  ultimately show ?thesis unfolding s2 using assms(1) by (auto simp: server_ok_def)
qed

lemma watchForKey_frame [simp]:
  "sv_clients (watchForKey c k s) = sv_clients s" "ks (watchForKey c k s) = ks s" "exps (watchForKey c k s) = exps s"
  "feedst (watchForKey c k s) = feedst s" "sv_dirty (watchForKey c k s) = sv_dirty s"
  "sv_dbnum (watchForKey c k s) = sv_dbnum s" "sv_masterhost (watchForKey c k s) = sv_masterhost s"
  "sv_saveparams (watchForKey c k s) = sv_saveparams s" "dirty_cas (watchForKey c k s) x = dirty_cas s x"
  "x \<noteq> c \<Longrightarrow> sv_client (watchForKey c k s) x = sv_client s x"
  "cl_mstate (sv_client (watchForKey c k s) x) = cl_mstate (sv_client s x)"
  by (auto simp: watchForKey_def Let_def dirty_cas_def)

lemma watched_watchForKey: "set (watched s x) \<subseteq> set (watched (watchForKey c k s) x)"
  by (auto simp: watchForKey_def Let_def watched_def)

subsection \<open>Keeping track of a watched key\<close>

text \<open>
  Since \<open>s\<close> the client \<open>c\<close> has gone on watching the key \<open>k\<close> of database \<open>d\<close>, and either it is marked or
  the key has not changed, but for its expiry.
\<close>

definition tracked :: "nat \<Rightarrow> nat \<Rightarrow> 'k \<Rightarrow> ('k, 'v) redisServer \<Rightarrow> ('k, 'v) redisServer \<Rightarrow> bool" where
  "tracked c d k s t \<longleftrightarrow> c \<in> set (sv_clients t) \<and> (d, k) \<in> set (watched t c) \<and>
    (dirty_cas t c \<or>
      (exps t d k = None \<or> exps t d k = exps s d k) \<and>
      (ks t d k = ks s d k \<or> ks t d k = None \<and> exps s d k \<noteq> None))"

lemma tracked_refl: "c \<in> set (sv_clients s) \<Longrightarrow> (d, k) \<in> set (watched s c) \<Longrightarrow> tracked c d k s s"
  by (simp add: tracked_def)

lemma tracked_cong:
  assumes "tracked c d k s t" and "ks t' = ks t" and "exps t' = exps t" and "c \<in> set (sv_clients t) \<Longrightarrow> c \<in> set (sv_clients t')"
    and "set (watched t c) \<subseteq> set (watched t' c)" and "dirty_cas t c \<Longrightarrow> dirty_cas t' c"
  shows "tracked c d k s t'"
  using assms by (auto simp: tracked_def)

lemma tracked_outcome:
  assumes "tracked c d k s t" and "watch_ok t" and "outcome True x t ds f r n t'"
  shows "tracked c d k s t'"
proof -
  have fr: "frame x t t'" and un: "unnoticed t ds t'" using assms(3) by (auto simp: outcome_def)
  have c: "c \<in> set (sv_clients t)" "(d, k) \<in> set (watched t c)" using assms(1) by (auto simp: tracked_def)
  then have w: "c \<in> set (watchers t d k)" using watch_okD(1) [OF assms(2)] by simp
  have f: "sv_clients t' = sv_clients t" "watched t' = watched t" "dirty_cas t c \<Longrightarrow> dirty_cas t' c"
    using fr by (auto simp: frame_def)
  show ?thesis
  proof (cases "dirty_cas t' c")
    case True
    then show ?thesis using c f by (simp add: tracked_def)
  next
    case False
    then have u: "ks t' d k = dels ds (ks t) d k" "exps t' d k = None \<or> exps t' d k = exps t d k"
        "(d, k) \<in> set ds \<longrightarrow> exps t d k \<noteq> None"
      using un w by (auto simp: unnoticed_def)
    have "\<not> dirty_cas t c" using False f(3) by blast
    then have t: "exps t d k = None \<or> exps t d k = exps s d k" "ks t d k = ks s d k \<or> ks t d k = None \<and> exps s d k \<noteq> None"
      using assms(1) by (auto simp: tracked_def)
    have "exps t' d k = None \<or> exps t' d k = exps s d k" using u(2) t(1) by auto
    moreover have "ks t' d k = ks s d k \<or> ks t' d k = None \<and> exps s d k \<noteq> None"
      using u(1,3) t by (auto simp: dels_def)
    ultimately show ?thesis using c f by (simp add: tracked_def)
  qed
qed

lemma tracked_fields [simp]:
  "tracked c d k s (addReply x q t) = tracked c d k s t" "tracked c d k s (incr_dirty n t) = tracked c d k s t"
  "tracked c d k s (propagate r i t) = tracked c d k s t"
  by (simp_all add: tracked_def propagate_def)

lemma tracked_upd_client:
  assumes "tracked c d k s t" and "x = c \<Longrightarrow> cl_watched_keys (f (sv_client t x)) = cl_watched_keys (sv_client t x)"
    and "x = c \<Longrightarrow> cl_dirty_cas (sv_client t x) \<Longrightarrow> cl_dirty_cas (f (sv_client t x))"
  shows "tracked c d k s (upd_client x f t)"
  by (rule tracked_cong [OF assms(1)]) (use assms(2,3) in \<open>auto simp: watched_def dirty_cas_def\<close>)

lemma tracked_unwatched: "tracked c d k s t \<Longrightarrow> unwatched x t t' \<Longrightarrow> x \<noteq> c \<Longrightarrow> tracked c d k s t'"
  by (erule tracked_cong) (auto simp: unwatched_def watched_def dirty_cas_def)

subsection \<open>Commands\<close>

text \<open>What every command leaves alone.\<close>

definition cmd_frame :: "nat \<Rightarrow> ('k, 'v) redisServer \<Rightarrow> ('k, 'v) redisServer \<Rightarrow> bool" where
  "cmd_frame c s s' \<longleftrightarrow> sv_clients s' = sv_clients s \<and> sv_dbnum s' = sv_dbnum s \<and>
    sv_masterhost s' = sv_masterhost s \<and> sv_saveparams s' = sv_saveparams s \<and>
    (\<forall>x. cl_multi (sv_client s' x) = cl_multi (sv_client s x) \<and>
      cl_dirty_exec (sv_client s' x) = cl_dirty_exec (sv_client s x) \<and>
      cl_mstate (sv_client s' x) = cl_mstate (sv_client s x))"

lemma cmd_frame_trans: "cmd_frame c s s1 \<Longrightarrow> cmd_frame c s1 s2 \<Longrightarrow> cmd_frame c s s2"
  by (simp add: cmd_frame_def)

lemma command_ok:
  assumes "server_ok s" and "c \<in> set (sv_clients s)" and "cl_cmd (sv_client s c) = Cmd cmd"
  shows "\<exists>s'. command_proc c cmd s = Some s' \<and> server_ok s' \<and> cmd_frame c s s' \<and>
    (\<forall>x d k t. tracked x d k t s \<longrightarrow> \<not> is_move cmd \<longrightarrow> x = c \<longrightarrow> cmd \<noteq> UNWATCH \<longrightarrow> tracked x d k t s') \<and>
    (\<forall>x d k t. tracked x d k t s \<longrightarrow> \<not> is_move cmd \<longrightarrow> x \<noteq> c \<longrightarrow> tracked x d k t s')"
proof (cases "changes_client cmd")
  case False
  then obtain s' ds f r n where s': "command_proc c cmd s = Some s'" "outcome (\<not> is_move cmd) c s ds f r n s'"
    using command_proc_completes [OF _ watch_ok_sound _ assms(3)] server_okD(1,2,5) [OF assms(1)] assms(2)
    unfolding completes_def by blast
  have "cmd_frame c s s'" using outcomeD(2) [OF s'(2)] by (simp add: frame_def cmd_frame_def)
  moreover have "tracked x d k t s'" if "tracked x d k t s" "\<not> is_move cmd" for x d k t
    using tracked_outcome [OF that(1) server_okD(2) [OF assms(1)]] s'(2) that(2) by simp
  ultimately show ?thesis using s'(1) outcome_server_ok [OF assms(1) s'(2)] by blast
next
  case True
  then consider i where "cmd = SELECT i" | "cmd = UNWATCH" by (cases cmd) auto
  then show ?thesis
  proof cases
    case 1
    define s' where "s' = selectCommand c i s"
    obtain f q where s': "s' = addReply c q (upd_client c f s)" "cl_watched_keys (f (sv_client s c)) = cl_watched_keys (sv_client s c)"
        "cl_db (sv_client s c) < sv_dbnum s \<Longrightarrow> cl_db (f (sv_client s c)) < sv_dbnum s"
        "cl_multi (f (sv_client s c)) = cl_multi (sv_client s c)" "cl_mstate (f (sv_client s c)) = cl_mstate (sv_client s c)"
        "cl_dirty_exec (f (sv_client s c)) = cl_dirty_exec (sv_client s c)" "cl_dirty_cas (f (sv_client s c)) = cl_dirty_cas (sv_client s c)"
    proof -
      have u: "upd_client c (\<lambda>cl. cl) s = s" by (simp add: upd_client_def)
      show ?thesis
      proof (cases "\<exists>j. map_option c_int i = Some j \<and> 0 \<le> j \<and> j < int (sv_dbnum s)")
        case True
        then obtain j where j: "map_option c_int i = Some j" "0 \<le> j" "j < int (sv_dbnum s)" by blast
        show ?thesis
          by (rule that [of ReplyOk "\<lambda>cl. cl\<lparr>cl_db := nat j\<rparr>"])
            (use j in \<open>auto simp: s'_def selectCommand_def selectDb_def\<close>)
      next
        case False
        have "s' = addReply c (ReplyError ''invalid DB index'') s"
        proof (cases i)
          case (Some j)
          then have "c_int j < 0 \<or> int (sv_dbnum s) \<le> c_int j" using False by auto
          then show ?thesis using Some by (simp add: s'_def selectCommand_def selectDb_def)
        qed (simp add: s'_def selectCommand_def)
        then show ?thesis by (intro that [of "ReplyError ''invalid DB index''" "\<lambda>cl. cl"]) (simp_all add: u)
      qed
    qed
    have "server_ok s'" unfolding s'(1) using s'(2-6) by (auto intro!: server_ok_upd_client [OF assms(1)])
    moreover have "cmd_frame c s s'" unfolding s'(1) using s'(4-6) by (simp add: cmd_frame_def)
    moreover have "tracked x d k t s'" if "tracked x d k t s" for x d k t
      unfolding s'(1) using s'(2,7) by (auto intro!: tracked_upd_client [OF that])
    ultimately show ?thesis using 1 s'_def by auto
  next
    case 2
    obtain s1 where s1: "unwatchAllKeys c s = Some s1" "unwatched c s s1" "server_ok s1"
      using unwatchAllKeys_ok [OF assms(1,2)] by metis
    let ?s' = "addReply c ReplyOk (upd_client c (\<lambda>cl. cl\<lparr>cl_dirty_cas := False\<rparr>) s1)"
    have "server_ok ?s'" by (auto intro!: server_ok_upd_client [OF s1(3)])
    moreover have "cmd_frame c s ?s'" using s1(2) by (simp add: cmd_frame_def unwatched_def)
    moreover have "tracked x d k t ?s'" if "tracked x d k t s" "x \<noteq> c" for x d k t
      using tracked_unwatched [OF that(1) s1(2)] that(2) by (auto intro!: tracked_upd_client)
    ultimately show ?thesis using 2 s1(1) by (auto simp: unwatchCommand_def)
  qed
qed

lemma call_ok:
  assumes "proc s = Some s'" and "server_ok s'"
  shows "\<exists>t. call c proc s = Some t \<and> server_ok t \<and> (\<forall>x d k u. tracked x d k u s' \<longrightarrow> tracked x d k u t) \<and>
    sv_client t = sv_client s' \<and> sv_clients t = sv_clients s' \<and> sv_dbnum t = sv_dbnum s' \<and>
    sv_masterhost t = sv_masterhost s' \<and> sv_saveparams t = sv_saveparams s'"
proof -
  define t where "t = (if max 0 (sv_dirty s' - sv_dirty s) \<noteq> 0
    then propagate (cl_cmd (sv_client s' c)) (cl_db (sv_client s' c)) s' else s')"
  have "call c proc s = Some t" using assms(1) by (simp add: call_def t_def Let_def)
  then show ?thesis using assms(2) by (auto simp: t_def propagate_def [of _ _ s', symmetric]) (auto simp: propagate_def)
qed

lemma exec_loop_ok:
  assumes "server_ok s" and "c \<in> set (sv_clients s)" and "cl_multi (sv_client s c)"
  shows "\<exists>s' m. exec_loop c j cmds mp s = Some (s', m) \<and> server_ok s' \<and> sv_clients s' = sv_clients s \<and>
    cl_multi (sv_client s' c) \<and> sv_masterhost s' = sv_masterhost s \<and> sv_saveparams s' = sv_saveparams s \<and>
    sv_dbnum s' = sv_dbnum s \<and> (\<forall>x. x \<noteq> c \<longrightarrow> cl_mstate (sv_client s' x) = cl_mstate (sv_client s x)) \<and>
    (\<forall>x d k t. tracked x d k t s \<longrightarrow> (\<forall>cmd \<in> set cmds. \<not> is_move cmd) \<longrightarrow> x \<noteq> c \<longrightarrow> tracked x d k t s')"
  using assms
proof (induction cmds arbitrary: s j mp)
  case Nil
  then show ?case by simp
next
  case (Cons cmd cmds)
  let ?start = "\<not> mp \<and> \<not> cmd_readonly cmd"
  define s1 where "s1 = upd_client c (\<lambda>cl. cl\<lparr>cl_cmd := Cmd cmd\<rparr>) s"
  define s2 where "s2 = (if ?start then execCommandPropagateMulti c s1 else s1)"
  have ok1: "server_ok s1" unfolding s1_def by (rule server_ok_upd_client [OF Cons.prems(1)]) auto
  have t1: "tracked x d k t s1" if "tracked x d k t s" for x d k t
    unfolding s1_def by (rule tracked_upd_client [OF that]) auto
  have 2: "server_ok s2" "\<And>x d k t. tracked x d k t s \<Longrightarrow> tracked x d k t s2" "sv_client s2 = sv_client s1"
      "sv_clients s2 = sv_clients s" "sv_dbnum s2 = sv_dbnum s" "sv_masterhost s2 = sv_masterhost s"
      "sv_saveparams s2 = sv_saveparams s"
    using ok1 t1 by (auto simp: s2_def execCommandPropagateMulti_def s1_def) (auto simp: propagate_def)
  have cm: "cl_cmd (sv_client s2 c) = Cmd cmd" by (simp add: 2(3) s1_def)
  obtain s3 where 3: "command_proc c cmd s2 = Some s3" "server_ok s3" "cmd_frame c s2 s3"
      "\<And>x d k t. tracked x d k t s2 \<Longrightarrow> \<not> is_move cmd \<Longrightarrow> x \<noteq> c \<Longrightarrow> tracked x d k t s3"
    using command_ok [OF 2(1) _ cm] 2(4) Cons.prems(2) by auto
  obtain s4 where 4: "call c (command_proc c cmd) s2 = Some s4" "server_ok s4" "sv_client s4 = sv_client s3"
      "\<And>x d k t. tracked x d k t s3 \<Longrightarrow> tracked x d k t s4" "sv_clients s4 = sv_clients s3" "sv_dbnum s4 = sv_dbnum s3"
      "sv_masterhost s4 = sv_masterhost s3" "sv_saveparams s4 = sv_saveparams s3"
    using call_ok [of "command_proc c cmd" s2 s3 c, OF 3(1,2)] by auto
  define s5 where "s5 = upd_client c (\<lambda>cl. cl\<lparr>cl_mstate := (case cl_cmd cl of Cmd x \<Rightarrow> (cl_mstate cl)[j := x] | _ \<Rightarrow> cl_mstate cl)\<rparr>) s4"
  have m: "cl_multi (sv_client s4 c)" using 3(3) Cons.prems(3) by (simp add: 4(3) cmd_frame_def 2(3) s1_def)
  have ok5: "server_ok s5" unfolding s5_def by (rule server_ok_upd_client [OF 4(2)]) (use m in auto)
  have t5: "tracked x d k t s5" if "tracked x d k t s4" for x d k t
    unfolding s5_def by (rule tracked_upd_client [OF that]) auto
  have f5: "sv_clients s5 = sv_clients s" "sv_dbnum s5 = sv_dbnum s" "sv_masterhost s5 = sv_masterhost s"
      "sv_saveparams s5 = sv_saveparams s" "cl_multi (sv_client s5 c)"
      "x \<noteq> c \<Longrightarrow> cl_mstate (sv_client s5 x) = cl_mstate (sv_client s x)" for x
    using 3(3) 4 2 m by (auto simp: s5_def cmd_frame_def s1_def)
  obtain s6 m' where 6: "exec_loop c (Suc j) cmds (mp \<or> ?start) s5 = Some (s6, m')" "server_ok s6"
      "sv_clients s6 = sv_clients s5" "cl_multi (sv_client s6 c)" "sv_masterhost s6 = sv_masterhost s5"
      "sv_saveparams s6 = sv_saveparams s5" "sv_dbnum s6 = sv_dbnum s5"
      "\<And>x. x \<noteq> c \<Longrightarrow> cl_mstate (sv_client s6 x) = cl_mstate (sv_client s5 x)"
      "\<And>x d k t. tracked x d k t s5 \<Longrightarrow> \<forall>cmd \<in> set cmds. \<not> is_move cmd \<Longrightarrow> x \<noteq> c \<Longrightarrow> tracked x d k t s6"
    using Cons.IH [OF ok5, of "Suc j" "mp \<or> ?start"] f5(1,5) Cons.prems(2) by auto
  have "exec_loop c j (cmd # cmds) mp s = Some (s6, m')"
    using 4(1) 6(1) by (simp add: Let_def s1_def [symmetric] s2_def [symmetric] s5_def [symmetric])
  moreover have "tracked x d k t s6"
    if "tracked x d k t s" "\<forall>cmd \<in> set (cmd # cmds). \<not> is_move cmd" "x \<noteq> c" for x d k t
    using 6(9) [OF t5 [OF 4(4) [OF 3(4) [OF 2(2) [OF that(1)]]]]] that(2,3) by simp
  ultimately show ?case using 6 f5 by auto
qed

subsection \<open>Transactions\<close>

lemma discardTransaction_ok:
  assumes "server_ok s" and "c \<in> set (sv_clients s)"
  shows "\<exists>s'. discardTransaction c s = Some s' \<and> server_ok s' \<and> sv_clients s' = sv_clients s \<and>
    sv_dbnum s' = sv_dbnum s \<and> sv_masterhost s' = sv_masterhost s \<and> sv_saveparams s' = sv_saveparams s \<and>
    (\<forall>x. x \<noteq> c \<longrightarrow> cl_mstate (sv_client s' x) = cl_mstate (sv_client s x)) \<and> cl_mstate (sv_client s' c) = [] \<and>
    \<not> cl_multi (sv_client s' c) \<and>
    (\<forall>x d k t. tracked x d k t s \<longrightarrow> x \<noteq> c \<longrightarrow> tracked x d k t s')"
proof -
  define s1 where "s1 = upd_client c (\<lambda>cl. cl\<lparr>cl_mstate := [], cl_multi := False, cl_dirty_cas := False, cl_dirty_exec := False\<rparr>) s"
  have ok1: "server_ok s1" unfolding s1_def by (rule server_ok_upd_client [OF assms(1)]) auto
  have t1: "tracked x d k t s1" if "tracked x d k t s" "x \<noteq> c" for x d k t
    unfolding s1_def by (rule tracked_upd_client [OF that(1)]) (use that(2) in auto)
  obtain s' where s': "unwatchAllKeys c s1 = Some s'" "unwatched c s1 s'" "server_ok s'"
    using unwatchAllKeys_ok [OF ok1, of c] assms(2) by (metis s1_def upd_client_fields(2))
  have "discardTransaction c s = Some s'" using s'(1) by (simp add: discardTransaction_def s1_def)
  moreover have "tracked x d k t s'" if "tracked x d k t s" "x \<noteq> c" for x d k t
    using tracked_unwatched [OF t1 [OF that] s'(2)] that(2) by simp
  ultimately show ?thesis using s'(2,3) by (auto simp: unwatched_def s1_def)
qed

lemma execCommand_ok:
  assumes "server_ok s" and "c \<in> set (sv_clients s)"
  shows "\<exists>s'. execCommand c s = Some s' \<and> server_ok s' \<and> sv_clients s' = sv_clients s \<and> sv_dbnum s' = sv_dbnum s \<and>
    (\<forall>x. x \<noteq> c \<longrightarrow> cl_mstate (sv_client s' x) = cl_mstate (sv_client s x)) \<and> cl_mstate (sv_client s' c) = [] \<and>
    (\<forall>x d k t. tracked x d k t s \<longrightarrow> (\<forall>cmd \<in> set (cl_mstate (sv_client s c)). \<not> is_move cmd) \<longrightarrow> x \<noteq> c \<longrightarrow> tracked x d k t s')"
proof -
  consider "\<not> cl_multi (sv_client s c)"
    | "cl_multi (sv_client s c)" "cl_dirty_cas (sv_client s c) \<or> cl_dirty_exec (sv_client s c)"
    | "cl_multi (sv_client s c)" "\<not> (cl_dirty_cas (sv_client s c) \<or> cl_dirty_exec (sv_client s c))" by blast
  then show ?thesis
  proof cases
    case 1
    then show ?thesis using assms server_okD(6) [OF assms] by (simp add: execCommand_def)
  next
    case 2
    let ?s = "addReply c (if cl_dirty_exec (sv_client s c) then ReplyError ''EXECABORT'' else ReplyNullMulti) s"
    have "execCommand c s = discardTransaction c ?s" using 2 by (simp add: execCommand_def)
    moreover have "server_ok ?s" "c \<in> set (sv_clients ?s)" using assms by simp_all
    ultimately show ?thesis using discardTransaction_ok [of ?s c] by auto
  next
    case 3
    obtain s1 where s1: "unwatchAllKeys c s = Some s1" "unwatched c s s1" "server_ok s1"
      using unwatchAllKeys_ok [OF assms] by metis
    have c1: "sv_clients s1 = sv_clients s" "sv_dbnum s1 = sv_dbnum s" "cl_multi (sv_client s1 c)" "cl_mstate (sv_client s1 x) = cl_mstate (sv_client s x)" for x
      using s1(2) 3(1) by (auto simp: unwatched_def)
    let ?s2 = "addReply c (ReplyMultiLen (length (cl_mstate (sv_client s1 c)))) s1"
    have ok2: "server_ok ?s2" "c \<in> set (sv_clients ?s2)" "cl_multi (sv_client ?s2 c)" using s1(3) c1 assms(2) by simp_all
    obtain s3 m where s3: "exec_loop c 0 (cl_mstate (sv_client ?s2 c)) False ?s2 = Some (s3, m)" "server_ok s3"
        "sv_clients s3 = sv_clients ?s2" "sv_dbnum s3 = sv_dbnum ?s2"
        "\<And>x. x \<noteq> c \<Longrightarrow> cl_mstate (sv_client s3 x) = cl_mstate (sv_client ?s2 x)"
        "\<And>x d k t. tracked x d k t ?s2 \<Longrightarrow> \<forall>cmd \<in> set (cl_mstate (sv_client ?s2 c)). \<not> is_move cmd \<Longrightarrow> x \<noteq> c \<Longrightarrow> tracked x d k t s3"
      using exec_loop_ok [OF ok2, of 0 "cl_mstate (sv_client ?s2 c)" False] by auto
    define s4 where "s4 = upd_client c (\<lambda>cl. cl\<lparr>cl_cmd := cl_cmd (sv_client s1 c)\<rparr>) s3"
    have ok4: "server_ok s4" unfolding s4_def by (rule server_ok_upd_client [OF s3(2)]) auto
    have t4: "tracked x d k t s4" if "tracked x d k t s3" for x d k t
      unfolding s4_def by (rule tracked_upd_client [OF that]) auto
    have c4: "sv_clients s4 = sv_clients s" "sv_dbnum s4 = sv_dbnum s" "x \<noteq> c \<Longrightarrow> cl_mstate (sv_client s4 x) = cl_mstate (sv_client s x)" for x
      using s3(3-5) c1 by (auto simp: s4_def)
    obtain s5 where s5: "discardTransaction c s4 = Some s5" "server_ok s5" "sv_clients s5 = sv_clients s4" "sv_dbnum s5 = sv_dbnum s4"
        "\<And>x. x \<noteq> c \<Longrightarrow> cl_mstate (sv_client s5 x) = cl_mstate (sv_client s4 x)" "cl_mstate (sv_client s5 c) = []"
        "\<And>x d k t. tracked x d k t s4 \<Longrightarrow> x \<noteq> c \<Longrightarrow> tracked x d k t s5"
      using discardTransaction_ok [OF ok4, of c] c4(1) assms(2) by auto
    have "execCommand c s = Some (if m then incr_dirty 1 s5 else s5)"
      using 3 s1(1) s3(1) s5(1) by (simp add: execCommand_def Let_def s4_def)
    moreover have "tracked x d k t s5"
      if "tracked x d k t s" "\<forall>cmd \<in> set (cl_mstate (sv_client s c)). \<not> is_move cmd" "x \<noteq> c" for x d k t
      using s5(7) [OF t4 [OF s3(6)]] tracked_unwatched [OF that(1) s1(2)] that(2,3) c1(4) by auto
    ultimately show ?thesis using s5 c4 by auto
  qed
qed

text \<open>A pending or queued \<open>MOVE\<close>, and the requests by which a client stops watching.\<close>

definition no_moves :: "('k, 'v) redisServer \<Rightarrow> bool" where
  "no_moves s \<longleftrightarrow> (\<forall>x \<in> set (sv_clients s). \<forall>cmd \<in> set (cl_mstate (sv_client s x)). \<not> is_move cmd)"

fun moves :: "('k, 'v) event \<Rightarrow> bool" where
  "moves (Request c (Cmd cmd)) = is_move cmd"
| "moves e = False"

fun releases :: "nat \<Rightarrow> ('k, 'v) event \<Rightarrow> bool" where
  "releases x (Request c (Cmd UNWATCH)) = (c = x)"
| "releases x (Request c EXEC) = (c = x)"
| "releases x (Request c DISCARD) = (c = x)"
| "releases x (Disconnect c) = (c = x)"
| "releases x e = False"

definition keeps :: "('k, 'v) event \<Rightarrow> ('k, 'v) redisServer \<Rightarrow> ('k, 'v) redisServer \<Rightarrow> bool" where
  "keeps e s s' \<longleftrightarrow> server_ok s' \<and> sv_dbnum s' = sv_dbnum s \<and> (no_moves s \<longrightarrow> \<not> moves e \<longrightarrow> no_moves s' \<and>
    (\<forall>x d k t. tracked x d k t s \<longrightarrow> \<not> releases x e \<longrightarrow> tracked x d k t s'))"

lemma no_moves_cong:
  "no_moves s \<Longrightarrow> sv_clients s' = sv_clients s \<Longrightarrow>
    (\<And>x cmd. x \<in> set (sv_clients s) \<Longrightarrow> cmd \<in> set (cl_mstate (sv_client s' x)) \<Longrightarrow> cmd \<in> set (cl_mstate (sv_client s x)) \<or> \<not> is_move cmd) \<Longrightarrow>
    no_moves s'"
  by (auto simp: no_moves_def)

lemma fold_watchForKey_ok:
  assumes "server_ok s" and "c \<in> set (sv_clients s)"
  shows "server_ok (fold (watchForKey c) keys s) \<and> sv_clients (fold (watchForKey c) keys s) = sv_clients s \<and>
    sv_dbnum (fold (watchForKey c) keys s) = sv_dbnum s \<and>
    (\<forall>x. cl_mstate (sv_client (fold (watchForKey c) keys s) x) = cl_mstate (sv_client s x)) \<and>
    (\<forall>x d k t. tracked x d k t s \<longrightarrow> tracked x d k t (fold (watchForKey c) keys s))"
  using assms
proof (induction keys arbitrary: s)
  case (Cons k keys)
  have "tracked x d k' t (watchForKey c k s)" if "tracked x d k' t s" for x d k' t
    by (rule tracked_cong [OF that]) (use watched_watchForKey [of s x c k] in simp_all)
  then show ?case using Cons.IH [of "watchForKey c k s"] watchForKey_ok [OF Cons.prems] Cons.prems(2) by simp
qed simp

text \<open>The call of a request, given what its function does.\<close>

lemma keeps_call:
  assumes "proc s = Some s1" and "server_ok s1" and "sv_dbnum s1 = sv_dbnum s" and "no_moves s \<Longrightarrow> \<not> moves e \<Longrightarrow> no_moves s1"
    and "\<And>x d k t. no_moves s \<Longrightarrow> \<not> moves e \<Longrightarrow> tracked x d k t s \<Longrightarrow> \<not> releases x e \<Longrightarrow> tracked x d k t s1"
  shows "\<exists>s'. call c proc s = Some s' \<and> keeps e s s'"
proof -
  obtain s' where s': "call c proc s = Some s'" "server_ok s'" "\<And>x d k u. tracked x d k u s1 \<Longrightarrow> tracked x d k u s'"
      "sv_client s' = sv_client s1" "sv_clients s' = sv_clients s1" "sv_dbnum s' = sv_dbnum s1"
    using call_ok [of proc s s1 c, OF assms(1,2)] by auto
  have "no_moves s'" if "no_moves s1" using that s'(4,5) by (simp add: no_moves_def)
  then show ?thesis using s' assms(3-5) unfolding keeps_def by metis
qed

lemma command_keeps:
  assumes "server_ok s" and "c \<in> set (sv_clients s)" and "cl_cmd (sv_client s c) = Cmd cmd"
  shows "\<exists>s'. call c (command_proc c cmd) s = Some s' \<and> keeps (Request c (Cmd cmd)) s s'"
proof -
  obtain s1 where s1: "command_proc c cmd s = Some s1" "server_ok s1" "cmd_frame c s s1"
      "\<And>x d k t. tracked x d k t s \<Longrightarrow> \<not> is_move cmd \<Longrightarrow> x = c \<Longrightarrow> cmd \<noteq> UNWATCH \<Longrightarrow> tracked x d k t s1"
      "\<And>x d k t. tracked x d k t s \<Longrightarrow> \<not> is_move cmd \<Longrightarrow> x \<noteq> c \<Longrightarrow> tracked x d k t s1"
    using command_ok [OF assms] by blast
  show ?thesis
  proof (rule keeps_call [of "command_proc c cmd", OF s1(1,2)])
    show "sv_dbnum s1 = sv_dbnum s" using s1(3) by (simp add: cmd_frame_def)
    show "no_moves s1" if "no_moves s" by (rule no_moves_cong [OF that]) (use s1(3) in \<open>auto simp: cmd_frame_def\<close>)
    fix x d k t
    assume "\<not> moves (Request c (Cmd cmd))" "tracked x d k t s" "\<not> releases x (Request c (Cmd cmd))"
    then show "tracked x d k t s1" using s1(4,5) by (cases "x = c"; cases "cmd = UNWATCH") auto
  qed
qed

lemma keeps_refl: "server_ok s' \<Longrightarrow> s' = s \<Longrightarrow> keeps e s s'"
  by (simp add: keeps_def)

text \<open>A request that only changes the flags or the queue of its client.\<close>

lemma keeps_upd_client:
  assumes "server_ok (upd_client c f s)"
    and "cl_watched_keys (f (sv_client s c)) = cl_watched_keys (sv_client s c)"
    and "cl_dirty_cas (sv_client s c) \<Longrightarrow> cl_dirty_cas (f (sv_client s c))"
    and "\<And>cmd. \<not> moves e \<Longrightarrow> cmd \<in> set (cl_mstate (f (sv_client s c))) \<Longrightarrow> cmd \<in> set (cl_mstate (sv_client s c)) \<or> \<not> is_move cmd"
  shows "keeps e s (upd_client c f s)"
  unfolding keeps_def
proof (intro conjI impI allI)
  show "no_moves (upd_client c f s)" if "no_moves s" "\<not> moves e"
  proof (rule no_moves_cong [OF that(1)])
    fix x cmd
    assume "cmd \<in> set (cl_mstate (sv_client (upd_client c f s) x))"
    then show "cmd \<in> set (cl_mstate (sv_client s x)) \<or> \<not> is_move cmd"
      using assms(4) [OF that(2)] by (cases "x = c") simp_all
  qed simp
  show "tracked x d k t (upd_client c f s)" if "tracked x d k t s" for x d k t
    by (rule tracked_upd_client [OF that]) (use assms(2,3) in auto)
qed (use assms(1) in simp_all)

lemma keeps_addReply: "keeps e s s' \<Longrightarrow> keeps e s (addReply x q s')"
  by (simp add: keeps_def no_moves_def)

lemma keeps_from_cmd:
  assumes "keeps e (upd_client c (\<lambda>cl. cl\<lparr>cl_cmd := r\<rparr>) s) s'" shows "keeps e s s'"
proof -
  have "no_moves (upd_client c (\<lambda>cl. cl\<lparr>cl_cmd := r\<rparr>) s) = no_moves s" by (auto simp: no_moves_def)
  moreover have "tracked x d k t (upd_client c (\<lambda>cl. cl\<lparr>cl_cmd := r\<rparr>) s) = tracked x d k t s" for x d k t
    by (auto simp: tracked_def watched_def dirty_cas_def)
  ultimately show ?thesis using assms by (simp add: keeps_def)
qed

lemma exec_keeps:
  assumes "server_ok s" and "c \<in> set (sv_clients s)"
  shows "\<exists>s'. call c (execCommand c) s = Some s' \<and> keeps (Request c EXEC) s s'"
proof -
  obtain s1 where s1: "execCommand c s = Some s1" "server_ok s1" "sv_clients s1 = sv_clients s" "sv_dbnum s1 = sv_dbnum s"
      "\<And>x. x \<noteq> c \<Longrightarrow> cl_mstate (sv_client s1 x) = cl_mstate (sv_client s x)" "cl_mstate (sv_client s1 c) = []"
      "\<And>x d k t. tracked x d k t s \<Longrightarrow> \<forall>cmd \<in> set (cl_mstate (sv_client s c)). \<not> is_move cmd \<Longrightarrow> x \<noteq> c \<Longrightarrow> tracked x d k t s1"
    using execCommand_ok [OF assms] by blast
  show ?thesis
  proof (rule keeps_call [of "execCommand c", OF s1(1,2,4)])
    show "no_moves s1" if "no_moves s"
    proof (rule no_moves_cong [OF that s1(3)])
      fix x cmd
      assume "cmd \<in> set (cl_mstate (sv_client s1 x))"
      then show "cmd \<in> set (cl_mstate (sv_client s x)) \<or> \<not> is_move cmd" using s1(5,6) by (cases "x = c") auto
    qed
    show "tracked x d k t s1" if "no_moves s" "tracked x d k t s" "\<not> releases x (Request c EXEC)" for x d k t
      using s1(7) [OF that(2)] that(1,3) assms(2) by (auto simp: no_moves_def)
  qed
qed

lemma discard_keeps:
  assumes "server_ok s" and "c \<in> set (sv_clients s)"
  shows "\<exists>s'. call c (discardCommand c) s = Some s' \<and> keeps (Request c DISCARD) s s'"
proof -
  obtain s1 where s1: "discardTransaction c s = Some s1" "server_ok s1" "sv_clients s1 = sv_clients s" "sv_dbnum s1 = sv_dbnum s"
      "\<And>x. x \<noteq> c \<Longrightarrow> cl_mstate (sv_client s1 x) = cl_mstate (sv_client s x)" "cl_mstate (sv_client s1 c) = []"
      "\<And>x d k t. tracked x d k t s \<Longrightarrow> x \<noteq> c \<Longrightarrow> tracked x d k t s1"
    using discardTransaction_ok [OF assms] by blast
  define s2 where "s2 = (if cl_multi (sv_client s c) then addReply c ReplyOk s1
    else addReply c (ReplyError ''DISCARD without MULTI'') s)"
  have d: "discardCommand c s = Some s2" using s1(1) by (simp add: discardCommand_def s2_def)
  have n: "sv_dbnum s2 = sv_dbnum s" using s1(4) by (simp add: s2_def)
  have ok: "server_ok s2" using assms(1) s1(2) by (simp add: s2_def)
  show ?thesis
  proof (rule keeps_call [of "discardCommand c", OF d ok n])
    show "no_moves s2" if "no_moves s"
    proof (rule no_moves_cong [OF that])
      show "sv_clients s2 = sv_clients s" using s1(3) by (simp add: s2_def)
      fix x cmd
      assume "cmd \<in> set (cl_mstate (sv_client s2 x))"
      then show "cmd \<in> set (cl_mstate (sv_client s x)) \<or> \<not> is_move cmd"
        using s1(5,6) by (cases "x = c") (auto simp: s2_def split: if_splits)
    qed
    show "tracked x d k t s2" if "tracked x d k t s" "\<not> releases x (Request c DISCARD)" for x d k t
      using s1(7) [OF that(1)] that by (auto simp: s2_def)
  qed
qed

lemma processCommand_keeps:
  assumes ok: "server_ok s" and c: "c \<in> set (sv_clients s)"
  shows "\<exists>s'. processCommand c r s = Some s' \<and> keeps (Request c r) s s'"
proof (cases "r = BadRequest")
  case True
  have "server_ok (flagTransaction c s)"
    using ok by (auto simp: flagTransaction_def intro!: server_ok_upd_client [OF ok])
  then have "keeps (Request c r) s (flagTransaction c s)"
    by (auto simp: flagTransaction_def keeps_refl ok intro!: keeps_upd_client)
  then show ?thesis using True keeps_addReply by (auto simp: processCommand_def rejectCommand_def)
next
  case False
  define s1 where "s1 = upd_client c (\<lambda>cl. cl\<lparr>cl_cmd := r\<rparr>) s"
  have ok1: "server_ok s1" unfolding s1_def by (rule server_ok_upd_client [OF ok]) auto
  have c1: "c \<in> set (sv_clients s1)" "cl_cmd (sv_client s1 c) = r" using c by (simp_all add: s1_def)
  have "\<exists>s'. processCommand c r s = Some s' \<and> keeps (Request c r) s1 s'"
  proof (cases r)
    case (Cmd cmd)
    show ?thesis
    proof (cases "cl_multi (sv_client s1 c)")
      case True
      have "server_ok (queueMultiCommand c cmd s1)" unfolding queueMultiCommand_def
        by (rule server_ok_upd_client [OF ok1]) (use True in auto)
      then have "keeps (Request c r) s1 (queueMultiCommand c cmd s1)"
        unfolding queueMultiCommand_def by (rule keeps_upd_client) (use Cmd in auto)
      moreover have "processCommand c r s = Some (addReply c ReplyQueued (queueMultiCommand c cmd s1))"
        using True Cmd by (simp add: processCommand_def s1_def)
      ultimately show ?thesis using keeps_addReply by auto
    next
      case False
      have "request_proc c r = command_proc c cmd" by (rule ext) (simp add: Cmd)
      then have "processCommand c r s = call c (command_proc c cmd) s1"
        using False Cmd by (simp add: processCommand_def s1_def)
      then show ?thesis using command_keeps [OF ok1 c1(1)] c1(2) Cmd by simp
    qed
  next
    case MULTI
    have "request_proc c r = (\<lambda>s. Some (multiCommand c s))" by (rule ext) (simp add: MULTI)
    moreover have "processCommand c r s = call c (request_proc c r) s1" using MULTI by (simp add: processCommand_def s1_def)
    ultimately have p: "processCommand c r s = call c (\<lambda>s. Some (multiCommand c s)) s1" by (simp only:)
    let ?f = "\<lambda>cl. cl\<lparr>cl_multi := True\<rparr>"
    have "server_ok (upd_client c ?f s1)" by (rule server_ok_upd_client [OF ok1]) auto
    then have "keeps (Request c r) s1 (upd_client c ?f s1)" by (rule keeps_upd_client) auto
    then have "keeps (Request c r) s1 (multiCommand c s1)"
      using keeps_refl [OF ok1 refl] by (simp add: multiCommand_def keeps_addReply)
    then show ?thesis unfolding p by (intro keeps_call [of "\<lambda>s. Some (multiCommand c s)", OF refl]) (auto simp: keeps_def)
  next
    case EXEC
    have "request_proc c r = execCommand c" by (rule ext) (simp add: EXEC)
    then have "processCommand c r s = call c (execCommand c) s1" using EXEC by (simp add: processCommand_def s1_def)
    then show ?thesis using exec_keeps [OF ok1 c1(1)] EXEC by simp
  next
    case DISCARD
    have "request_proc c r = discardCommand c" by (rule ext) (simp add: DISCARD)
    then have "processCommand c r s = call c (discardCommand c) s1" using DISCARD by (simp add: processCommand_def s1_def)
    then show ?thesis using discard_keeps [OF ok1 c1(1)] DISCARD by simp
  next
    case (WATCH keys)
    have "request_proc c r = (\<lambda>s. Some (watchCommand c keys s))" by (rule ext) (simp add: WATCH)
    moreover have "processCommand c r s = call c (request_proc c r) s1" using WATCH by (simp add: processCommand_def s1_def)
    ultimately have p: "processCommand c r s = call c (\<lambda>s. Some (watchCommand c keys s)) s1" by (simp only:)
    have "keeps (Request c r) s1 (watchCommand c keys s1)"
      using fold_watchForKey_ok [OF ok1 c1(1), of keys] ok1
      by (auto simp: watchCommand_def keeps_def no_moves_def)
    then show ?thesis unfolding p by (intro keeps_call [of "\<lambda>s. Some (watchCommand c keys s)", OF refl]) (auto simp: keeps_def)
  qed (use False in simp)
  then show ?thesis unfolding s1_def using keeps_from_cmd by blast
qed

subsection \<open>Every step\<close>

lemma createClient_keeps:
  assumes "server_ok s" and "c \<notin> set (sv_clients s)"
  shows "keeps e s (createClient c s)"
proof -
  let ?s = "createClient c s"
  have v: "sv_clients ?s = sv_clients s @ [c]" "ks ?s = ks s" "exps ?s = exps s" "watchers ?s = watchers s"
      "sv_dbnum ?s = sv_dbnum s" "sv_db ?s = sv_db s"
      "sv_client ?s x = (if x = c then \<lparr>cl_db = 0, cl_multi = False, cl_dirty_cas = False, cl_dirty_exec = False,
         cl_mstate = [], cl_watched_keys = [], cl_cmd = BadRequest, cl_reply = []\<rparr> else sv_client s x)" for x
    by (auto simp: createClient_def view_defs fun_eq_iff simp del: fold_views)
  have wd: "watched ?s x = (if x = c then [] else watched s x)" for x by (simp add: watched_def v)
  note w = watch_okD [OF server_okD(2) [OF assms(1)]]
  have "watch_ok ?s"
    unfolding watch_ok_def v wd
  proof (intro conjI allI ballI)
    show "x \<in> set (watchers s d k) \<longleftrightarrow> x \<in> set (sv_clients s @ [c]) \<and> (d, k) \<in> set (if x = c then [] else watched s x)" for d k x
      using w(1) [of x d k] assms(2) by auto
    show "distinct (if x = c then [] else watched s x)" if "x \<in> set (sv_clients s @ [c])" for x
      using w(3) [of x] that by (cases "x = c") simp_all
  qed (rule w(2))
  moreover have "db_ok ?s" using server_okD(1) [OF assms(1)] by (simp add: db_ok_def v)
  ultimately have "server_ok ?s" using assms by (simp add: server_ok_def v)
  moreover have "no_moves ?s" if "no_moves s" using that by (auto simp: no_moves_def v)
  moreover have "tracked x d k t ?s" if "tracked x d k t s" for x d k t
  proof (rule tracked_cong [OF that v(2,3)])
    have "x \<noteq> c" using that assms(2) by (auto simp: tracked_def)
    then show "set (watched s x) \<subseteq> set (watched ?s x)" "dirty_cas s x \<Longrightarrow> dirty_cas ?s x"
      by (simp_all add: wd dirty_cas_def v)
  qed (simp add: v)
  ultimately show ?thesis by (simp add: keeps_def v(5))
qed

lemma freeClient_keeps:
  assumes "server_ok s" and "c \<in> set (sv_clients s)"
  shows "\<exists>s'. freeClient c s = Some s' \<and> keeps (Disconnect c) s s'"
proof -
  obtain s1 where s1: "unwatchAllKeys c s = Some s1" "unwatched c s s1" "server_ok s1"
    using unwatchAllKeys_ok [OF assms] by metis
  have cl: "sv_clients s1 = sv_clients s" "sv_client s1 = (sv_client s)(c := (sv_client s c)\<lparr>cl_watched_keys := []\<rparr>)"
      "sv_dbnum s1 = sv_dbnum s"
    using s1(2) by (simp_all add: unwatched_def)
  let ?s = "s1\<lparr>sv_clients := remove1 c (sv_clients s1)\<rparr>"
  have v: "ks ?s = ks s1" "exps ?s = exps s1" "watchers ?s = watchers s1" "watched ?s = watched s1" "dirty_cas ?s = dirty_cas s1"
    by (simp_all add: view_defs fun_eq_iff del: fold_views)
  have e: "watched s1 c = []" by (simp add: watched_def cl)
  have set: "set (sv_clients ?s) = set (sv_clients s1) - {c}"
    using set_remove1_eq [OF server_okD(3) [OF s1(3)]] by simp
  note w = watch_okD [OF server_okD(2) [OF s1(3)]]
  have "watch_ok ?s"
    unfolding watch_ok_def v set
  proof (intro conjI allI ballI)
    show "x \<in> set (watchers s1 d k) \<longleftrightarrow> x \<in> set (sv_clients s1) - {c} \<and> (d, k) \<in> set (watched s1 x)" for d k x
      using w(1) [of x d k] e by auto
  qed (use w(2,3) in auto)
  moreover have "db_ok ?s" using server_okD(1) [OF s1(3)] by (simp add: db_ok_def v)
  ultimately have "server_ok ?s"
    using s1(3) set by (auto simp: server_ok_def distinct_remove1)
  moreover have "no_moves ?s" if "no_moves s" using that set by (auto simp: no_moves_def cl)
  moreover have "tracked x d k t ?s" if "tracked x d k t s" "x \<noteq> c" for x d k t
    by (rule tracked_cong [OF tracked_unwatched [OF that(1) s1(2) that(2) [symmetric]] v(1,2)]) (use that(2) set in \<open>auto simp: v\<close>)
  moreover have "freeClient c s = Some ?s" using s1(1) assms(2) by (simp add: freeClient_def cl)
  ultimately show ?thesis by (auto simp: keeps_def cl)
qed

lemma expire_keeps:
  assumes "server_ok s" and "\<not> sv_masterhost s"
  shows "keeps e s (activeExpireCycleTryExpire d k now s)"
proof -
  let ?s = "fst (dbDelete d k (propagateExpire d k s))"
  consider "activeExpireCycleTryExpire d k now s = s" | "activeExpireCycleTryExpire d k now s = ?s" "exps s d k \<noteq> None"
    unfolding activeExpireCycleTryExpire_def by (cases "exps s d k") (simp_all, metis)
  then show ?thesis
  proof cases
    case 1
    then show ?thesis using keeps_refl [OF assms(1) refl] by simp
  next
    case 2
    have "outcome True c s [(d, k)] (\<lambda>K. K) (cl_cmd (sv_client s c)) 0 ?s" for c
      by (rule outcome_expiry [OF expiry_key [OF server_okD(1) [OF assms(1)] 2(2) assms(2)]])
    note o' = this
    have "frame 0 s ?s" using o' [of 0] unfolding outcome_def by (elim conjE)
    then have "sv_dbnum ?s = sv_dbnum s" "sv_clients ?s = sv_clients s" "\<And>x. cl_mstate (sv_client ?s x) = cl_mstate (sv_client s x)"
      unfolding frame_def by blast+
    note v = this
    have "no_moves ?s" if "no_moves s" using that v(2,3) unfolding no_moves_def by metis
    moreover have "server_ok ?s" by (rule outcome_server_ok [OF assms(1) o'])
    moreover have "tracked x d k t ?s" if "tracked x d k t s" for x d k t
      by (rule tracked_outcome [OF that server_okD(2) [OF assms(1)] o'])
    ultimately show ?thesis unfolding 2(1) keeps_def using v(1) by blast
  qed
qed

lemma step_keeps:
  assumes "server_ok s" and "enabled e s"
  shows "\<exists>s'. step e s = Some s' \<and> keeps e s s'"
  using assms createClient_keeps freeClient_keeps expire_keeps processCommand_keeps
  by (cases e) auto

lemma reach_ok: "reach s es s' \<Longrightarrow> server_ok s \<Longrightarrow> server_ok s'"
proof (induction rule: reach.induct)
  case (reach_step es s1 e s2)
  then show ?case using step_keeps [of s1 e] by (auto simp: keeps_def)
qed simp

lemma reach_dbnum: "reach s es s' \<Longrightarrow> server_ok s \<Longrightarrow> sv_dbnum s' = sv_dbnum s"
proof (induction rule: reach.induct)
  case (reach_step es s1 e s2)
  then show ?case using step_keeps [of s1 e] reach_ok by (auto simp: keeps_def)
qed simp

text \<open>While a client goes on watching.\<close>

definition holds_on :: "nat \<Rightarrow> ('k, 'v) event list \<Rightarrow> bool" where
  "holds_on x es = (\<not> list_ex (\<lambda>e. moves e \<or> releases x e) es)"

lemma reach_tracked:
  assumes "reach s es s'" and "server_ok s" and "no_moves s" and "tracked x d k s s" and "holds_on x es"
  shows "no_moves s' \<and> tracked x d k s s'"
  using assms
proof (induction rule: reach.induct)
  case (reach_step es s1 e s2)
  then have "no_moves s1" "tracked x d k s s1" "\<not> moves e" "\<not> releases x e" by (auto simp: holds_on_def)
  moreover have "keeps e s1 s2"
    using step_keeps [OF reach_ok [OF reach_step.hyps(1)] reach_step.hyps(2)] reach_step by auto
  ultimately show ?case by (simp add: keeps_def)
qed simp

end
