(* ===== verification/Transactions.thy ===== *)
theory Transactions
  imports Multi_Correct
begin

text \<open>
  What the transactions of \<^verbatim>\<open>multi.c\<close> promise, over the runs of a server: the state stays well formed and no
  assertion fails; the commands do to the values of the keyspace what their specification says; and \<open>EXEC\<close>
  does nothing when a watched key has changed, unless \<open>MOVE\<close> took it away.
\<close>

subsection \<open>Starting and running\<close>

definition initServer :: "nat \<Rightarrow> bool \<Rightarrow> bool \<Rightarrow> (nat \<Rightarrow> int) \<Rightarrow> ('k, 'v) redisServer" where
  "initServer dbnum masterhost saveparams clock =
    \<lparr>sv_dbnum = dbnum, sv_db = (\<lambda>d. \<lparr>db_dict = [], db_expires = [], db_watched_keys = []\<rparr>), sv_clients = [],
     sv_client = (\<lambda>c. \<lparr>cl_db = 0, cl_multi = False, cl_dirty_cas = False, cl_dirty_exec = False,
         cl_mstate = [], cl_watched_keys = [], cl_cmd = BadRequest, cl_reply = []\<rparr>),
     sv_dirty = 0, sv_masterhost = masterhost, sv_saveparams = saveparams, sv_mstime = clock,
     sv_slaveseldb = -1, sv_stream = []\<rparr>"

lemma initServer_ok: "0 < dbnum \<Longrightarrow> dbnum < 2 ^ 31 \<Longrightarrow> server_ok (initServer dbnum m p clock)"
  by (simp add: initServer_def server_ok_def watch_ok_def db_ok_def view_defs del: fold_views)

fun run :: "('k, 'v) event list \<Rightarrow> ('k, 'v) redisServer \<Rightarrow> ('k, 'v) redisServer option" where
  "run [] s = Some s"
| "run (e # es) s = (if enabled e s then Option.bind (step e s) (run es) else None)"

lemma reach_Cons: "reach s2 es s3 \<Longrightarrow> enabled e s1 \<Longrightarrow> step e s1 = Some s2 \<Longrightarrow> reach s1 (e # es) s3"
proof (induction rule: reach.induct)
  case reach_refl
  then show ?case using reach.reach_step [OF reach.reach_refl [of s1]] by simp
next
  case (reach_step es s e' s')
  then show ?case using reach.reach_step [of s1 "e # es" s e' s'] by simp
qed

lemma run_reach: "run es s = Some s' \<Longrightarrow> reach s es s'"
  by (induction es arbitrary: s) (auto intro: reach_refl reach_Cons split: if_splits bind_splits)

lemma reach_the_run: "run es s \<noteq> None \<Longrightarrow> reach s es (the (run es s))"
  by (auto intro: run_reach)

text \<open>(C6)
  From the start of a server with at least one database, whatever its clients send, connect and disconnect,
  and whatever the clock and the background expiry do, its state stays well formed -- the lists of watching
  clients and the watched keys of the clients agree, every time to live belongs to a key, no key is outside
  the databases, only clients in a transaction have queued commands -- and every next step succeeds, so that
  none of the assertions of db.c, multi.c and networking.c on the way fails.
\<close>

theorem server_well_formed:
  assumes "0 < dbnum" and "dbnum < 2 ^ 31" and "reach (initServer dbnum m p clock) es s"
  shows "server_ok s \<and> (\<forall>e. enabled e s \<longrightarrow> step e s \<noteq> None)"
proof -
  have "server_ok s" by (rule reach_ok [OF assms(3) initServer_ok [OF assms(1,2)]])
  then show ?thesis using step_keeps [of s] by fastforce
qed

subsection \<open>One command\<close>

text \<open>(C12)
  A command on the keyspace never fails an assertion.  It removes some keys that had a time to live, telling
  the slaves, but none on a slave, and then does to the values exactly what its specification \<open>kapply\<close> says; the
  counter of changes grows unless the values are left as they are, so that a change is always propagated;
  and the command to propagate is the one that was sent or, on a master, a \<open>DEL\<close> in place of an expiry that
  is past.  Which of the two is decided by the last reading of the clock: an \<open>EXPIRE\<close>, \<open>PEXPIRE\<close>, \<open>EXPIREAT\<close> or
  \<open>PEXPIREAT\<close> with a number becomes the \<open>DEL\<close> only when its time is not after that reading; otherwise the key, if it
  is there, gets exactly this time to live, and on a master the time is after that reading.
  Excepted are the commands on the connection (\<open>SELECT\<close>, \<open>UNWATCH\<close>), those that decide twice (\<open>SET\<close> with \<open>XX\<close>,
  \<open>MSETNX\<close> of a repeated key) and a \<open>FLUSHALL\<close> that saves a dump, which truncates the counter.
\<close>

theorem command_proc_spec:
  assumes "server_ok s" and "c \<in> set (sv_clients s)" and "cl_cmd (sv_client s c) = Cmd cmd"
    and "decides_once cmd" and "\<not> changes_client cmd" and "cmd = FLUSHALL \<Longrightarrow> \<not> sv_saveparams s"
  shows "\<exists>s' ds cmd' n. command_proc c cmd s = Some s' \<and>
    ks s' = kapply (sv_dbnum s) (cl_db (sv_client s c)) cmd' (dels ds (ks s)) \<and>
    (\<forall>(d, k) \<in> set ds. exps s d k \<noteq> None) \<and> feedst s' = feed_dels ds (feedst s) \<and> (sv_masterhost s \<longrightarrow> ds = []) \<and>
    sv_dirty s' = sv_dirty s + n \<and> (n = 0 \<and> ks s' = dels ds (ks s) \<or> 0 < n) \<and>
    cl_cmd (sv_client s' c) = Cmd cmd' \<and>
    (cmd' = cmd \<or> \<not> sv_masterhost s \<and> (\<exists>k. expires_key cmd = Some k \<and> cmd' = DEL [k])) \<and>
    (\<forall>k w. deadline (sv_mstime s 0) cmd = Some (k, w) \<longrightarrow>
      (if cmd' = DEL [k] then \<exists>t. last_reading s s' t \<and> w \<le> t
       else ks s' (cl_db (sv_client s c)) k \<noteq> None \<longrightarrow> exps s' (cl_db (sv_client s c)) k = Some w \<and>
         (\<exists>t. last_reading s s' t \<and> (sv_masterhost s \<or> t < w))))"
proof -
  have "refines c cmd s (command_proc c cmd s)"
    using command_proc_refines [OF server_okD(1) [OF assms(1)] watch_ok_sound [OF server_okD(2) [OF assms(1)]]
        server_okD(5) [OF assms(1,2)] assms(3-6)] .
  then obtain s' ds cmd' n where s': "command_proc c cmd s = Some s'"
      "outcome (\<not> is_move cmd) c s ds (kapply (sv_dbnum s) (cl_db (sv_client s c)) cmd') (Cmd cmd') n s'"
      "n = 0 \<and> kapply (sv_dbnum s) (cl_db (sv_client s c)) cmd' (dels ds (ks s)) = dels ds (ks s) \<or> 0 < n"
      "cmd' = cmd \<or> \<not> sv_masterhost s \<and> (\<exists>k. expires_key cmd = Some k \<and> cmd' = DEL [k])"
    unfolding refines_def performs_def by blast
  note o' = outcomeD [OF s'(2)]
  have "if cmd' = DEL [k] then \<exists>t. last_reading s s' t \<and> w \<le> t
      else ks s' (cl_db (sv_client s c)) k \<noteq> None \<longrightarrow> exps s' (cl_db (sv_client s c)) k = Some w \<and>
        (\<exists>t. last_reading s s' t \<and> (sv_masterhost s \<or> t < w))"
    if "deadline (sv_mstime s 0) cmd = Some (k, w)" for k w
    using expire_decides [OF server_okD(1) [OF assms(1)] s'(1) assms(3) that] o'(8) by simp
  then show ?thesis
    by (intro exI [of _ s'] exI [of _ ds] exI [of _ cmd'] exI [of _ n] conjI)
      (use s'(1,3,4) o'(4-8,13) in auto)
qed

definition renaming :: "(nat, string) redisServer" where
  "renaming = the (run [Connect 1, Request 1 (Cmd (SET 7 ''10'' [])), Request 1 (Cmd (RENAME 7 7))]
     (initServer 16 True False (\<lambda>i. 1000)))"

theorem command_proc_spec_witness:
  "\<exists>s'. command_proc 1 (RENAME 7 8) (upd_client 1 (\<lambda>cl. cl\<lparr>cl_cmd := Cmd (RENAME 7 8)\<rparr>) renaming) = Some s' \<and>
    ks s' 0 8 = Some (StringObj ''10'') \<and> ks s' 0 7 = None"
proof -
  let ?cmd = "RENAME 7 8 :: (nat, string) command"
  let ?s = "upd_client 1 (\<lambda>cl. cl\<lparr>cl_cmd := Cmd ?cmd\<rparr>) renaming"
  have r: "run [Connect 1, Request 1 (Cmd (SET (7::nat) ''10'' [])), Request 1 (Cmd (RENAME 7 7))]
      (initServer 16 True False (\<lambda>i. 1000)) \<noteq> None" by code_simp
  have "server_ok renaming"
    unfolding renaming_def by (rule reach_ok [OF reach_the_run [OF r]]) (rule initServer_ok, simp_all)
  then have ok: "server_ok ?s" by (rule server_ok_upd_client) auto
  have st: "1 \<in> set (sv_clients renaming)" "sv_masterhost renaming" "ks renaming 0 7 = Some (StringObj ''10'')"
      "cl_db (sv_client renaming 1) = 0" by code_simp+
  obtain s' where "command_proc 1 ?cmd ?s = Some s'" "ks s' = kapply (sv_dbnum ?s) 0 ?cmd (ks renaming)"
    using command_proc_spec [OF ok, of 1 ?cmd] st(1,2,4) by auto
  then show ?thesis using st(3) by (auto simp: krename_def kput_apply)
qed

subsection \<open>An aborted transaction\<close>

lemma exec_aborts:
  assumes "server_ok s" and "c \<in> set (sv_clients s)" and "cl_multi (sv_client s c)" and "cl_dirty_cas (sv_client s c)"
    and "\<not> cl_dirty_exec (sv_client s c)"
  shows "\<exists>s'. step (Request c EXEC) s = Some s' \<and> ks s' = ks s \<and> exps s' = exps s \<and> sv_stream s' = sv_stream s \<and>
    cl_reply (sv_client s' c) = cl_reply (sv_client s c) @ [ReplyNullMulti] \<and> watched s' c = [] \<and> \<not> dirty_cas s' c"
proof -
  define s1 where "s1 = addReply c ReplyNullMulti (upd_client c (\<lambda>cl. cl\<lparr>cl_cmd := EXEC\<rparr>) s)"
  define s2 where "s2 = upd_client c (\<lambda>cl. cl\<lparr>cl_mstate := [], cl_multi := False, cl_dirty_cas := False, cl_dirty_exec := False\<rparr>) s1"
  have "server_ok s2" unfolding s2_def s1_def server_ok_fields
    by (rule server_ok_upd_client) (auto intro!: server_ok_upd_client [OF assms(1)])
  moreover have "c \<in> set (sv_clients s2)" using assms(2) by (simp add: s2_def s1_def)
  ultimately obtain s3 where s3: "unwatchAllKeys c s2 = Some s3" "unwatched c s2 s3"
    using unwatchAllKeys_ok by metis
  have "execCommand c (upd_client c (\<lambda>cl. cl\<lparr>cl_cmd := EXEC\<rparr>) s) = Some s3"
    using assms(3-5) s3(1) by (simp add: execCommand_def discardTransaction_def s1_def s2_def)
  moreover have "sv_dirty s3 = sv_dirty s" using s3(2) by (simp add: unwatched_def s1_def s2_def)
  ultimately have "step (Request c EXEC) s = Some s3" by (simp add: processCommand_def call_def)
  moreover have "sv_stream s3 = sv_stream s" using s3(2) by (simp add: unwatched_def s1_def s2_def feedst_def addReply_def)
  moreover have "cl_reply (sv_client s3 c) = cl_reply (sv_client s c) @ [ReplyNullMulti]"
    using s3(2) by (simp add: unwatched_def s1_def s2_def addReply_def)
  moreover have "ks s3 = ks s" "exps s3 = exps s" "watched s3 c = []" "\<not> dirty_cas s3 c"
    using s3(2) by (simp_all add: unwatched_def s1_def s2_def watched_def dirty_cas_def)
  ultimately show ?thesis by blast
qed

text \<open>(C4)
  A client watches a key.  In the run that follows, other clients and the expiry cycle do what they like,
  but no \<open>MOVE\<close> is sent or already queued and the client does not itself stop watching.  If then the value of the key is
  another one, or the key is gone although it had no time to live, the \<open>EXEC\<close> of the client does nothing: no
  queued command runs, the reply is the null multi-bulk, nothing reaches the replication stream, and the
  client is free to try again; the transaction has no command that was refused when it was queued, which
  would abort it with another reply.  (The expiry of a key does not abort a transaction, as the test suite has it.)
\<close>

theorem exec_after_change:
  assumes "server_ok s" and "no_moves s" and "c \<in> set (sv_clients s)" and "(d, k) \<in> set (watched s c)"
    and "reach s es s'" and "holds_on c es"
    and "ks s' d k \<noteq> ks s d k" and "ks s' d k = None \<Longrightarrow> exps s d k = None"
    and "cl_multi (sv_client s' c)" and "\<not> cl_dirty_exec (sv_client s' c)"
  shows "\<exists>s''. step (Request c EXEC) s' = Some s'' \<and> ks s'' = ks s' \<and> exps s'' = exps s' \<and>
    sv_stream s'' = sv_stream s' \<and> cl_reply (sv_client s'' c) = cl_reply (sv_client s' c) @ [ReplyNullMulti] \<and>
    watched s'' c = [] \<and> \<not> dirty_cas s'' c"
proof -
  have "tracked c d k s s'"
    using reach_tracked [OF assms(5,1,2) tracked_refl [OF assms(3,4)] assms(6)] by blast
  then have "c \<in> set (sv_clients s')" "cl_dirty_cas (sv_client s' c)"
    using assms(7,8) by (auto simp: tracked_def dirty_cas_def)
  then show ?thesis using exec_aborts [OF reach_ok [OF assms(5,1)] _ assms(9) _ assms(10)] by blast
qed

text \<open>
  The optimistic increment of the documentation: client 0 watches a counter and queues its new value, client 1
  writes the counter in between.
\<close>

definition lost_race :: "(nat, string) event list" where
  "lost_race = [Request 0 (Cmd (GET 7)), Request 0 MULTI, Request 0 (Cmd (SET 7 ''11'' [])),
     Request 1 (Cmd (SET 7 ''20'' []))]"

definition racing :: "(nat, string) redisServer" where
  "racing = the (run [Connect 0, Connect 1, Request 1 (Cmd (SET 7 ''10'' [])), Request 0 (WATCH [7])]
     (initServer 16 False False (\<lambda>i. 1000)))"

lemma racing_reach: "reach (initServer 16 False False (\<lambda>i. 1000)) [Connect 0, Connect 1,
    Request 1 (Cmd (SET 7 ''10'' [])), Request 0 (WATCH [7])] racing"
proof -
  have "run [Connect 0, Connect 1, Request 1 (Cmd (SET (7::nat) ''10'' [])), Request 0 (WATCH [7])]
     (initServer 16 False False (\<lambda>i. 1000)) \<noteq> None" by code_simp
  then show ?thesis unfolding racing_def by (rule reach_the_run)
qed

lemma racing_state: "0 \<in> set (sv_clients racing)" "(0, 7) \<in> set (watched racing 0)" "ks racing 0 7 = Some (StringObj ''10'')"
    "exps racing 0 7 = None"
    "list_all (\<lambda>x. list_all (\<lambda>cmd. \<not> is_move cmd) (cl_mstate (sv_client racing x))) (sv_clients racing)"
  by code_simp+

lemma lost_race_state: "case run lost_race racing of None \<Rightarrow> False
    | Some s' \<Rightarrow> ks s' 0 7 = Some (StringObj ''20'') \<and> cl_multi (sv_client s' 0) \<and> \<not> cl_dirty_exec (sv_client s' 0)"
  by code_simp

theorem exec_after_change_witness:
  "\<exists>s' s''. run lost_race racing = Some s' \<and> step (Request 0 EXEC) s' = Some s'' \<and>
    ks s'' 0 7 = Some (StringObj ''20'') \<and> cl_reply (sv_client s'' 0) = cl_reply (sv_client s' 0) @ [ReplyNullMulti]"
proof -
  obtain s' where s': "run lost_race racing = Some s'" "ks s' 0 7 = Some (StringObj ''20'')"
      "cl_multi (sv_client s' 0)" "\<not> cl_dirty_exec (sv_client s' 0)"
    using lost_race_state by (auto split: option.splits)
  have ok: "server_ok racing" by (rule reach_ok [OF racing_reach]) (simp add: initServer_ok)
  have nm: "no_moves racing" using racing_state(5) by (simp add: no_moves_def list_all_iff)
  have h: "holds_on 0 lost_race" by code_simp
  have c: "ks s' 0 7 \<noteq> ks racing 0 7" "ks s' 0 7 = None \<Longrightarrow> exps racing 0 7 = None"
    using s'(2) racing_state(3,4) by simp_all
  obtain s'' where s'': "step (Request 0 EXEC) s' = Some s''" "ks s'' = ks s'"
      "cl_reply (sv_client s'' 0) = cl_reply (sv_client s' 0) @ [ReplyNullMulti]"
    using exec_after_change [OF ok nm racing_state(1,2) run_reach [OF s'(1)] h c s'(3,4)] by blast
  show ?thesis using s'(1,2) s'' by (intro exI [of _ s'] exI [of _ s'']) simp
qed

theorem server_well_formed_witness:
  "server_ok racing \<and> step (Request 0 EXEC) racing \<noteq> None"
proof -
  have "(0::nat) < 16" "(16::nat) < 2 ^ 31" by simp_all
  from server_well_formed [OF this racing_reach] show ?thesis
    using racing_state(1) by (auto dest: spec [of _ "Request 0 EXEC"])
qed

text \<open>(C38)
  \<open>MOVE\<close> takes a key out of its database without \<open>signalModifiedKey\<close>: it succeeds, and no client is marked by it,
  whoever watches the key, so that the \<open>EXEC\<close> of a watching client, which tests this mark alone, still runs.
  \<open>DEL\<close> of the same key marks every client that watches it.  The key is one without a time to live, the other
  database exists and lacks it.
\<close>

theorem move_not_signalled:
  assumes "server_ok s" and "d = cl_db (sv_client s c)" and "j < sv_dbnum s" and "j \<noteq> d" and "c \<in> set (sv_clients s)"
    and "ks s d k = Some v" and "exps s d k = None" and "ks s j k = None"
  shows "(\<exists>s'. moveCommand c k (Some (int j)) s = Some s' \<and>
      ks s' d k = None \<and> ks s' j k = Some v \<and> (\<forall>x. dirty_cas s' x = dirty_cas s x)) \<and>
    (\<exists>s'. delCommand c [k] s = Some s' \<and>
      ks s' d k = None \<and> (\<forall>x \<in> set (watchers s d k). dirty_cas s' x))"
proof -
  have e: "exps s j k = None" using db_ok_exps [OF server_okD(1) [OF assms(1)], of j k] assms(8) by blast
  have j: "j < 2 ^ 31" using assms(1,3) by (simp add: server_ok_def)
  have look: "lookupKeyWrite b k s = Some (s, ks s b k)" if "exps s b k = None" for b
    using that by (simp add: lookupKeyWrite_def lookupKey_def expireIfNeeded_def getExpire_def view_defs del: fold_views)
  obtain s1 where add: "dbAdd j k v s = Some s1" "ks s1 = kput j k (Some v) (ks s)" "dirty_cas s1 = dirty_cas s"
    using assms(8) by (simp add: dbAdd_def update_conv' kput_def)
  have sel: "selectDb c (int j) s = (upd_client c (\<lambda>cl. cl\<lparr>cl_db := j\<rparr>) s, True)"
    using assms(3) by (simp add: selectDb_def)
  have bk: "fst (selectDb c (int d) (upd_client c (\<lambda>cl. cl\<lparr>cl_db := j\<rparr>) s)) = s"
    using server_okD(5) [OF assms(1,5)] assms(2) by (simp add: selectDb_def upd_client_def)
  have "moveCommand c k (Some (int j)) s = Some (addReply c (ReplyInt 1) (incr_dirty 1 (fst (dbDelete d k s1))))"
    using j assms(4,6,8) look [OF assms(7)] look [OF e] add(1) bk
    by (auto simp: moveCommand_def sel assms(2) [symmetric] Let_def)
  moreover have "ks (addReply c (ReplyInt 1) (incr_dirty 1 (fst (dbDelete d k s1)))) = kput d k None (kput j k (Some v) (ks s))"
    by (simp add: add(2) kput_def)
  moreover have "dirty_cas (addReply c (ReplyInt 1) (incr_dirty 1 (fst (dbDelete d k s1)))) = dirty_cas s"
    by (simp add: add(3))
  moreover have "\<exists>s'. delCommand c [k] s = Some s' \<and> ks s' d k = None \<and> (\<forall>x \<in> set (watchers s d k). dirty_cas s' x)"
    using assms(2,6,7)
    by (auto simp: delCommand_def expireIfNeeded_def getExpire_def signalModifiedKey_def touchWatchedKey_marked view_defs
        dbDelete_def Let_def delete_conv' addReply_def incr_dirty_def marked_def simp del: fold_views)
  ultimately show ?thesis using assms(4) by (auto simp: kput_apply)
qed

theorem move_not_signalled_witness:
  "\<exists>s'. moveCommand 1 7 (Some 1) racing = Some s' \<and> 0 \<in> set (watchers racing 0 7) \<and> ks s' 0 7 = None \<and> \<not> dirty_cas s' 0"
proof -
  have ok: "server_ok racing" by (rule reach_ok [OF racing_reach]) (simp add: initServer_ok)
  have "cl_db (sv_client racing 1) = 0" "sv_dbnum racing = 16" "1 \<in> set (sv_clients racing)"
    "ks racing 0 7 = Some (StringObj ''10'')" "exps racing 0 7 = None" "ks racing 1 7 = None"
    "0 \<in> set (watchers racing 0 7)" "\<not> dirty_cas racing 0" by code_simp+
  then show ?thesis using move_not_signalled [OF ok, of 0 1 1 7 "StringObj ''10''"] by auto
qed

end
