(* ===== verification/Replication.thy ===== *)
theory Replication
  imports Transactions
begin

text \<open>
  The replication stream (\<^verbatim>\<open>replicationFeedSlaves\<close>, \<^verbatim>\<open>propagate\<close> and \<^verbatim>\<open>propagateExpire\<close>): a slave that executes it
  gets the values of the master.
\<close>

subsection \<open>The meaning of a stream\<close>

type_synonym ('k, 'v) keyspace = "nat \<Rightarrow> 'k \<Rightarrow> 'v robj option"

definition kcmd :: "nat \<Rightarrow> ('k, 'v) command \<Rightarrow> ('k, 'v) keyspace \<times> nat \<Rightarrow> ('k, 'v) keyspace \<times> nat" where
  "kcmd N cmd Kd =
    (case cmd of
       SELECT i \<Rightarrow> (fst Kd, case i of None \<Rightarrow> snd Kd | Some i \<Rightarrow> if 0 \<le> c_int i \<and> c_int i < int N then nat (c_int i) else snd Kd)
     | _ \<Rightarrow> (kapply N (snd Kd) cmd (fst Kd), snd Kd))"

text \<open>\<open>MULTI\<close> and \<open>EXEC\<close> delay the commands between them, which does not change their sum.\<close>

definition krequest :: "nat \<Rightarrow> ('k, 'v) request \<Rightarrow> ('k, 'v) keyspace \<times> nat \<Rightarrow> ('k, 'v) keyspace \<times> nat" where
  "krequest N r Kd = (case r of Cmd cmd \<Rightarrow> kcmd N cmd Kd | _ \<Rightarrow> Kd)"

definition kstream :: "nat \<Rightarrow> ('k, 'v) request list \<Rightarrow> ('k, 'v) keyspace \<times> nat" where
  "kstream N rs = fold (krequest N) rs (\<lambda>d k. None, 0)"

fun bracket :: "('k, 'v) request \<Rightarrow> bool \<Rightarrow> bool" where
  "bracket MULTI b = True" | "bracket EXEC b = False" | "bracket r b = b"

definition in_block :: "('k, 'v) request list \<Rightarrow> bool" where
  "in_block rs = fold bracket rs False"

text \<open>Entries a slave executes as the master did; with \<open>nf\<close> there is no \<open>FLUSHALL\<close> among them.\<close>

definition safe :: "bool \<Rightarrow> ('k, 'v) command \<Rightarrow> bool" where
  "safe nf cmd \<longleftrightarrow> decides_once cmd \<and> (nf \<longrightarrow> cmd \<noteq> FLUSHALL)"

definition good_cmd :: "bool \<Rightarrow> ('k, 'v) command \<Rightarrow> bool" where
  "good_cmd nf cmd \<longleftrightarrow> safe nf cmd \<and> cmd \<noteq> UNWATCH"

fun good_entry :: "bool \<Rightarrow> ('k, 'v) request \<Rightarrow> bool" where
  "good_entry nf (Cmd cmd) = good_cmd nf cmd" | "good_entry nf MULTI = True" | "good_entry nf EXEC = True"
| "good_entry nf r = False"

text \<open>The stream so far stands for the values \<open>K\<close>; \<open>b\<close>: a block is open.\<close>

definition streamed :: "bool \<Rightarrow> nat \<Rightarrow> bool \<Rightarrow> int \<times> ('k, 'v) request list \<Rightarrow> ('k, 'v) keyspace \<Rightarrow> bool" where
  "streamed nf N b st K \<longleftrightarrow> N < 2 ^ 31 \<and> kstream N (snd st) = (K, nat (fst st)) \<and> list_all (good_entry nf) (snd st) \<and> in_block (snd st) = b"

lemma krequest_select: "d < N \<Longrightarrow> N < 2 ^ 31 \<Longrightarrow> krequest N (Cmd (SELECT (Some (int d)))) (K, x) = (K, d)"
  by (simp add: krequest_def kcmd_def c_int_def signed_take_bit_int_eq_self)

lemma streamed_feed1:
  assumes "streamed nf N b st K" and "d < N" and "good_entry nf r" and "krequest N r (K, d) = (K', d)"
  shows "streamed nf N (bracket r b) (feed1 (d, r) st) K'"
proof -
  have "fold (krequest N) (if fst st \<noteq> int d then [Cmd (SELECT (Some (int d)))] else []) (K, nat (fst st)) = (K, d)"
    using krequest_select [OF assms(2), of K] assms(1) by (auto simp: streamed_def)
  then show ?thesis using assms(1,3,4) by (auto simp: streamed_def feed1_def kstream_def in_block_def good_cmd_def safe_def simp del: fold_simps)
qed

lemma kcmd_plain: "\<not> changes_client cmd \<Longrightarrow> kcmd N cmd Kd = (kapply N (snd Kd) cmd (fst Kd), snd Kd)"
  by (cases cmd) (simp_all add: kcmd_def)

lemma streamed_cmd:
  assumes "streamed nf N b st K" and "d < N" and "safe nf cmd" and "\<not> changes_client cmd"
  shows "streamed nf N b (feed1 (d, Cmd cmd) st) (kapply N d cmd K)"
proof -
  have "cmd \<noteq> UNWATCH" using assms(4) by auto
  then show ?thesis
    using streamed_feed1 [OF assms(1,2), of "Cmd cmd"] assms(3) kcmd_plain [OF assms(4), of N "(K, d)"]
    by (simp add: krequest_def good_cmd_def)
qed

lemma streamed_feed_dels:
  assumes "streamed nf N b st K" and "\<And>d k. (d, k) \<in> set ds \<Longrightarrow> d < N"
  shows "streamed nf N b (feed_dels ds st) (dels ds K)"
  using assms
proof (induction ds arbitrary: st K)
  case Nil
  then show ?case by simp
next
  case (Cons dk ds)
  obtain d k where dk: "dk = (d, k)" by (cases dk)
  have "streamed nf N b (feed1 (d, Cmd (DEL [k])) st) (kput d k None K)"
    using streamed_cmd [OF Cons.prems(1), of d "DEL [k]"] Cons.prems(2) [of d k] dk by (simp add: safe_def)
  then have "streamed nf N b (feed_dels ds (feed1 (d, Cmd (DEL [k])) st)) (dels ds (kput d k None K))"
    by (rule Cons.IH) (use Cons.prems(2) in auto)
  moreover have "dels ds (kput d k None K) = dels (dk # ds) K"
    by (auto simp: dk dels_def kput_apply fun_eq_iff)
  ultimately show ?case by (simp add: feed_dels_def dk)
qed

subsection \<open>The master\<close>

definition mirrored :: "bool \<Rightarrow> bool \<Rightarrow> ('k, 'v) redisServer \<Rightarrow> bool" where
  "mirrored nf b s \<longleftrightarrow> server_ok s \<and> \<not> sv_masterhost s \<and> (sv_saveparams s \<longrightarrow> nf) \<and> streamed nf (sv_dbnum s) b (feedst s) (ks s)"

lemma mirroredI:
  assumes "mirrored nf b s" and "server_ok s'" and "ks s' = ks s" and "feedst s' = feedst s" and "sv_dbnum s' = sv_dbnum s"
    and "sv_masterhost s' = sv_masterhost s" and "sv_saveparams s' = sv_saveparams s"
  shows "mirrored nf b s'"
  using assms by (simp add: mirrored_def)

lemma mirrored_propagate:
  assumes "mirrored nf b s" and "d < sv_dbnum s" and "r = MULTI \<or> r = EXEC"
  shows "mirrored nf (bracket r b) (propagate r d s)"
proof -
  have "streamed nf (sv_dbnum s) (bracket r b) (feed1 (d, r) (feedst s)) (ks s)"
    using assms by (intro streamed_feed1 [of nf _ b _ "ks s"]) (auto simp: mirrored_def krequest_def)
  then show ?thesis using assms(1) unfolding mirrored_def server_ok_fields by (simp add: propagate_def)
qed

text \<open>The two commands that change their client.\<close>

lemma changes_client_quiet:
  assumes "server_ok s" and "c \<in> set (sv_clients s)" and "changes_client cmd" and "command_proc c cmd s = Some s'"
  shows "ks s' = ks s \<and> feedst s' = feedst s \<and> sv_dirty s' = sv_dirty s \<and> cl_cmd (sv_client s' c) = cl_cmd (sv_client s c)"
proof -
  consider i where "cmd = SELECT i" | "cmd = UNWATCH" using assms(3) by (cases cmd) auto
  then show ?thesis
  proof cases
    case 1
    then have "s' = selectCommand c i s" using assms(4) by simp
    then show ?thesis by (auto simp: selectCommand_def selectDb_def split: option.split)
  next
    case 2
    obtain s1 where "unwatchAllKeys c s = Some s1" "unwatched c s s1" using unwatchAllKeys_ok [OF assms(1,2)] by metis
    then show ?thesis using 2 assms(4) by (auto simp: unwatchCommand_def unwatched_def)
  qed
qed

lemma command_mirrored:
  assumes "mirrored nf b s" and "c \<in> set (sv_clients s)" and "cl_cmd (sv_client s c) = Cmd cmd" and "safe nf cmd"
  shows "\<exists>s1 s2. command_proc c cmd s = Some s1 \<and> server_ok s1 \<and> cmd_frame c s s1 \<and> sv_dirty s \<le> sv_dirty s1 \<and>
    call c (command_proc c cmd) s = Some s2 \<and> mirrored nf b s2 \<and> sv_client s2 = sv_client s1 \<and>
    sv_clients s2 = sv_clients s1 \<and> sv_dirty s2 = sv_dirty s1 \<and> (\<exists>cmd'. cl_cmd (sv_client s1 c) = Cmd cmd' \<and> safe nf cmd')"
proof -
  note m = assms(1) [unfolded mirrored_def]
  have ok: "server_ok s" using m by blast
  obtain s1 where s1: "command_proc c cmd s = Some s1" "server_ok s1" "cmd_frame c s s1"
    using command_ok [OF ok assms(2,3)] by blast
  note fr = s1(3) [unfolded cmd_frame_def]
  show ?thesis
  proof (cases "changes_client cmd")
    case True
    have q: "ks s1 = ks s" "feedst s1 = feedst s" "sv_dirty s1 = sv_dirty s" "cl_cmd (sv_client s1 c) = Cmd cmd"
      using assms(3) changes_client_quiet [OF ok assms(2) True s1(1)] by simp_all
    then have "call c (command_proc c cmd) s = Some s1" using s1(1) by (simp add: call_def)
    moreover have "mirrored nf b s1" using fr by (intro mirroredI [OF assms(1) s1(2) q(1,2)]) simp_all
    ultimately show ?thesis using s1 q assms(4) by auto
  next
    case False
    have "refines c cmd s (command_proc c cmd s)"
      using command_proc_refines [OF _ watch_ok_sound _ assms(3) _ False] server_okD(1,2,5) [OF ok] assms(2,4) m
      by (auto simp: safe_def)
    then obtain cmd' ds n where p: "outcome (\<not> is_move cmd) c s ds (kapply (sv_dbnum s) (cl_db (sv_client s c)) cmd') (Cmd cmd') n s1"
        "n = 0 \<and> kapply (sv_dbnum s) (cl_db (sv_client s c)) cmd' (dels ds (ks s)) = dels ds (ks s) \<or> 0 < n"
        "safe nf cmd'" "\<not> changes_client cmd'"
      using s1(1) False assms(4) unfolding refines_def performs_def by (auto simp: safe_def)
    note p' = outcomeD [OF p(1)]
    have d: "cl_db (sv_client s c) < sv_dbnum s" using server_okD(5) [OF ok assms(2)] .
    have st: "streamed nf (sv_dbnum s) b (feedst s1) (dels ds (ks s))"
      using streamed_feed_dels [of nf "sv_dbnum s" b "feedst s" "ks s" ds] m p'(5,11) by simp
    define s2 where "s2 = (if n = 0 then s1 else propagate (Cmd cmd') (cl_db (sv_client s c)) s1)"
    have "call c (command_proc c cmd) s = Some s2" using s1(1) p(2) p'(3,7,8) by (auto simp: call_def s2_def)
    moreover have "streamed nf (sv_dbnum s) b (feedst s2) (ks s2)"
      using streamed_cmd [OF st d p(3,4)] st p(2) p'(4) by (auto simp: s2_def propagate_def)
    then have "mirrored nf b s2" using m fr s1(2) unfolding mirrored_def
      by (auto simp: s2_def) (auto simp: propagate_def)
    moreover have "sv_client s2 = sv_client s1" "sv_clients s2 = sv_clients s1" "sv_dirty s2 = sv_dirty s1"
      by (simp_all add: s2_def propagate_def)
    ultimately show ?thesis using s1 p p'(7,8) by auto
  qed
qed

lemma mirrored_upd_client:
  assumes "mirrored nf b s" and "server_ok (upd_client c f s)"
  shows "mirrored nf b (upd_client c f s)"
  by (rule mirroredI [OF assms]) simp_all

lemma mirrored_addReply: "mirrored nf b s \<Longrightarrow> mirrored nf b (addReply c q s)"
  by (simp add: mirrored_def)

lemma mirrored_incr_dirty: "mirrored nf b s \<Longrightarrow> mirrored nf b (incr_dirty n s)"
  by (simp add: mirrored_def)

lemma mirrored_unwatched: "mirrored nf b s \<Longrightarrow> unwatched c s s' \<Longrightarrow> server_ok s' \<Longrightarrow> mirrored nf b s'"
  by (erule mirroredI) (simp_all add: unwatched_def)

lemma exec_loop_mirrored:
  assumes "mirrored nf mp s" and "c \<in> set (sv_clients s)" and "cl_multi (sv_client s c)" and "list_all (safe nf) cmds"
  shows "\<exists>s' m. exec_loop c j cmds mp s = Some (s', m) \<and> mirrored nf m s' \<and> sv_clients s' = sv_clients s \<and>
    sv_dirty s \<le> sv_dirty s' \<and> (\<forall>x. x \<noteq> c \<longrightarrow> cl_mstate (sv_client s' x) = cl_mstate (sv_client s x))"
  using assms
proof (induction cmds arbitrary: s j mp)
  case Nil
  then show ?case by simp
next
  case (Cons cmd cmds)
  let ?start = "\<not> mp \<and> \<not> cmd_readonly cmd"
  define s1 where "s1 = upd_client c (\<lambda>cl. cl\<lparr>cl_cmd := Cmd cmd\<rparr>) s"
  define s2 where "s2 = (if ?start then execCommandPropagateMulti c s1 else s1)"
  have ok: "server_ok s" using Cons.prems(1) by (simp add: mirrored_def)
  have ok1: "server_ok s1" unfolding s1_def by (rule server_ok_upd_client [OF ok]) auto
  have m1: "mirrored nf mp s1" using mirrored_upd_client [OF Cons.prems(1)] ok1 by (simp add: s1_def)
  have "cl_db (sv_client s1 c) < sv_dbnum s1" using server_okD(5) [OF ok Cons.prems(2)] by (simp add: s1_def)
  then have m2: "mirrored nf (mp \<or> ?start) s2"
    using m1 mirrored_propagate [OF m1, of _ MULTI] by (cases mp) (simp_all add: s2_def execCommandPropagateMulti_def)
  have v2: "sv_client s2 = sv_client s1" "sv_clients s2 = sv_clients s" "sv_dirty s2 = sv_dirty s"
    by (simp_all add: s2_def execCommandPropagateMulti_def propagate_def) (simp_all add: s1_def)
  have c2: "c \<in> set (sv_clients s2)" "cl_cmd (sv_client s2 c) = Cmd cmd" "safe nf cmd"
    using Cons.prems(2,4) by (simp_all add: v2) (simp add: s1_def)
  obtain s3 s4 where 3: "command_proc c cmd s2 = Some s3" "server_ok s3" "cmd_frame c s2 s3" "sv_dirty s2 \<le> sv_dirty s3"
      and 4: "call c (command_proc c cmd) s2 = Some s4" "mirrored nf (mp \<or> ?start) s4" "sv_client s4 = sv_client s3"
      "sv_clients s4 = sv_clients s3" "sv_dirty s4 = sv_dirty s3"
    using command_mirrored [OF m2 c2] by blast
  define s5 where "s5 = upd_client c (\<lambda>cl. cl\<lparr>cl_mstate := (case cl_cmd cl of Cmd x \<Rightarrow> (cl_mstate cl)[j := x] | _ \<Rightarrow> cl_mstate cl)\<rparr>) s4"
  have mu: "cl_multi (sv_client s4 c)" using 3(3) Cons.prems(3) by (simp add: 4(3) cmd_frame_def v2 s1_def)
  have ok4: "server_ok s4" using 4(2) by (simp add: mirrored_def)
  have "server_ok s5" unfolding s5_def by (rule server_ok_upd_client [OF ok4]) (use mu in auto)
  then have m5: "mirrored nf (mp \<or> ?start) s5" unfolding s5_def by (rule mirrored_upd_client [OF 4(2)])
  have f5: "sv_clients s5 = sv_clients s" "cl_multi (sv_client s5 c)" "sv_dirty s \<le> sv_dirty s5"
      "x \<noteq> c \<Longrightarrow> cl_mstate (sv_client s5 x) = cl_mstate (sv_client s x)" for x
    using 3(3,4) 4(3-5) v2 mu by (auto simp: s5_def cmd_frame_def s1_def)
  obtain s6 m where 6: "exec_loop c (Suc j) cmds (mp \<or> ?start) s5 = Some (s6, m)" "mirrored nf m s6"
      "sv_clients s6 = sv_clients s5" "sv_dirty s5 \<le> sv_dirty s6"
      "\<And>x. x \<noteq> c \<Longrightarrow> cl_mstate (sv_client s6 x) = cl_mstate (sv_client s5 x)"
    using Cons.IH [OF m5, of "Suc j"] f5(1,2) Cons.prems(2,4) by auto
  have "exec_loop c j (cmd # cmds) mp s = Some (s6, m)"
    using 4(1) 6(1) by (simp add: Let_def s1_def [symmetric] s2_def [symmetric] s5_def [symmetric])
  then show ?case using 6 f5 by auto
qed

text \<open>Leaving the transaction.\<close>

lemma discardTransaction_quiet:
  assumes "mirrored nf b s" and "c \<in> set (sv_clients s)"
  shows "\<exists>s'. discardTransaction c s = Some s' \<and> mirrored nf b s' \<and> sv_clients s' = sv_clients s \<and> sv_dirty s' = sv_dirty s \<and>
    cl_cmd (sv_client s' c) = cl_cmd (sv_client s c) \<and> cl_mstate (sv_client s' c) = [] \<and>
    (\<forall>x. x \<noteq> c \<longrightarrow> cl_mstate (sv_client s' x) = cl_mstate (sv_client s x))"
proof -
  define s1 where "s1 = upd_client c (\<lambda>cl. cl\<lparr>cl_mstate := [], cl_multi := False, cl_dirty_cas := False, cl_dirty_exec := False\<rparr>) s"
  have "server_ok s" using assms(1) by (simp add: mirrored_def)
  then have ok1: "server_ok s1" unfolding s1_def by (rule server_ok_upd_client) auto
  have m1: "mirrored nf b s1" using ok1 mirrored_upd_client [OF assms(1)] by (simp add: s1_def)
  have "c \<in> set (sv_clients s1)" using assms(2) by (simp add: s1_def)
  then obtain s' where s': "unwatchAllKeys c s1 = Some s'" "unwatched c s1 s'" "server_ok s'"
    using unwatchAllKeys_ok [OF ok1] by metis
  have "discardTransaction c s = Some s'" using s'(1) by (simp add: discardTransaction_def s1_def)
  then show ?thesis using mirrored_unwatched [OF m1 s'(2,3)] s'(2) by (auto simp: unwatched_def s1_def)
qed

text \<open>What \<open>call\<close> sends to the slaves after \<open>EXEC\<close>.\<close>

lemma call_exec_mirrored:
  assumes "proc s = Some s1" and "mirrored nf b s1" and "c \<in> set (sv_clients s1)" and "cl_cmd (sv_client s1 c) = EXEC"
    and "b \<Longrightarrow> sv_dirty s < sv_dirty s1"
  shows "\<exists>s2. call c proc s = Some s2 \<and> mirrored nf False s2 \<and> sv_client s2 = sv_client s1 \<and> sv_clients s2 = sv_clients s1"
proof -
  define s2 where "s2 = (if max 0 (sv_dirty s1 - sv_dirty s) \<noteq> 0 then propagate EXEC (cl_db (sv_client s1 c)) s1 else s1)"
  have "cl_db (sv_client s1 c) < sv_dbnum s1" using server_okD(5) [OF _ assms(3)] assms(2) by (simp add: mirrored_def)
  then have "mirrored nf False s2" using mirrored_propagate [OF assms(2), of _ EXEC] assms(2,5) by (cases b) (auto simp: s2_def)
  moreover have "call c proc s = Some s2" using assms(1,4) by (simp add: call_def s2_def)
  moreover have "sv_client s2 = sv_client s1" "sv_clients s2 = sv_clients s1" by (simp_all add: s2_def propagate_def)
  ultimately show ?thesis by blast
qed

lemma exec_mirrored:
  assumes "mirrored nf False s" and "c \<in> set (sv_clients s)" and "cl_cmd (sv_client s c) = EXEC"
    and "list_all (safe nf) (cl_mstate (sv_client s c))"
  shows "\<exists>s'. call c (execCommand c) s = Some s' \<and> mirrored nf False s' \<and> sv_clients s' = sv_clients s \<and>
    (\<forall>x. cl_mstate (sv_client s' x) = cl_mstate (sv_client s x) \<or> cl_mstate (sv_client s' x) = [])"
proof -
  have "\<exists>s1 b. execCommand c s = Some s1 \<and> mirrored nf b s1 \<and> sv_clients s1 = sv_clients s \<and> cl_cmd (sv_client s1 c) = EXEC \<and>
      (b \<longrightarrow> sv_dirty s < sv_dirty s1) \<and> (\<forall>x. cl_mstate (sv_client s1 x) = cl_mstate (sv_client s x) \<or> cl_mstate (sv_client s1 x) = [])"
  proof -
    consider "\<not> cl_multi (sv_client s c)"
      | "cl_multi (sv_client s c)" "cl_dirty_cas (sv_client s c) \<or> cl_dirty_exec (sv_client s c)"
      | "cl_multi (sv_client s c)" "\<not> (cl_dirty_cas (sv_client s c) \<or> cl_dirty_exec (sv_client s c))" by blast
    then show ?thesis
    proof cases
      case 1
      let ?s = "addReply c (ReplyError ''EXEC without MULTI'') s"
      have "execCommand c s = Some ?s" using 1 by (simp add: execCommand_def)
      then show ?thesis using mirrored_addReply [OF assms(1)] assms(3) by (intro exI [of _ ?s] exI [of _ False]) simp
    next
      case 2
      let ?s = "addReply c (if cl_dirty_exec (sv_client s c) then ReplyError ''EXECABORT'' else ReplyNullMulti) s"
      have e: "execCommand c s = discardTransaction c ?s" using 2 by (simp add: execCommand_def)
      have "c \<in> set (sv_clients ?s)" using assms(2) by simp
      then obtain s1 where "discardTransaction c ?s = Some s1" "mirrored nf False s1" "sv_clients s1 = sv_clients ?s"
          "cl_cmd (sv_client s1 c) = cl_cmd (sv_client ?s c)" "cl_mstate (sv_client s1 c) = []"
          "\<forall>x. x \<noteq> c \<longrightarrow> cl_mstate (sv_client s1 x) = cl_mstate (sv_client ?s x)"
        using discardTransaction_quiet [OF mirrored_addReply [OF assms(1)]] by blast
      then show ?thesis using e assms(3) by (intro exI [of _ s1] exI [of _ False]) auto
    next
      case 3
      have ok: "server_ok s" using assms(1) by (simp add: mirrored_def)
      obtain s1 where s1: "unwatchAllKeys c s = Some s1" "unwatched c s s1" "server_ok s1"
        using unwatchAllKeys_ok [OF ok assms(2)] by metis
      have v1: "sv_clients s1 = sv_clients s" "cl_multi (sv_client s1 c)" "cl_cmd (sv_client s1 c) = EXEC"
          "sv_dirty s1 = sv_dirty s" "cl_mstate (sv_client s1 x) = cl_mstate (sv_client s x)" for x
        using s1(2) 3(1) assms(3) by (auto simp: unwatched_def)
      let ?s2 = "addReply c (ReplyMultiLen (length (cl_mstate (sv_client s1 c)))) s1"
      have m2: "mirrored nf False ?s2" by (rule mirrored_addReply [OF mirrored_unwatched [OF assms(1) s1(2,3)]])
      obtain s3 m where s3: "exec_loop c 0 (cl_mstate (sv_client ?s2 c)) False ?s2 = Some (s3, m)" "mirrored nf m s3"
          "sv_clients s3 = sv_clients ?s2" "sv_dirty ?s2 \<le> sv_dirty s3"
          "\<And>x. x \<noteq> c \<Longrightarrow> cl_mstate (sv_client s3 x) = cl_mstate (sv_client ?s2 x)"
        using exec_loop_mirrored [OF m2, of c "cl_mstate (sv_client ?s2 c)" 0] v1 assms(2,4) by auto
      define s4 where "s4 = upd_client c (\<lambda>cl. cl\<lparr>cl_cmd := cl_cmd (sv_client s1 c)\<rparr>) s3"
      have "server_ok s3" using s3(2) by (simp add: mirrored_def)
      then have ok4: "server_ok s4" unfolding s4_def by (rule server_ok_upd_client) auto
      have m4: "mirrored nf m s4" using ok4 mirrored_upd_client [OF s3(2)] by (simp add: s4_def)
      have v4: "c \<in> set (sv_clients s4)" "cl_cmd (sv_client s4 c) = EXEC" "sv_clients s4 = sv_clients s"
          "sv_dirty s \<le> sv_dirty s4" "x \<noteq> c \<Longrightarrow> cl_mstate (sv_client s4 x) = cl_mstate (sv_client s x)" for x
        using s3(3-5) v1 assms(2) by (auto simp: s4_def)
      obtain s5 where s5: "discardTransaction c s4 = Some s5" "mirrored nf m s5" "sv_clients s5 = sv_clients s4"
          "sv_dirty s5 = sv_dirty s4" "cl_cmd (sv_client s5 c) = cl_cmd (sv_client s4 c)" "cl_mstate (sv_client s5 c) = []"
          "\<forall>x. x \<noteq> c \<longrightarrow> cl_mstate (sv_client s5 x) = cl_mstate (sv_client s4 x)"
        using discardTransaction_quiet [OF m4 v4(1)] by blast
      let ?s6 = "if m then incr_dirty 1 s5 else s5"
      have "execCommand c s = Some ?s6"
        using 3 s1(1) s3(1) s5(1) by (simp add: execCommand_def Let_def s4_def)
      moreover have "mirrored nf m ?s6" using s5(2) mirrored_incr_dirty by auto
      moreover have "cl_mstate (sv_client ?s6 x) = cl_mstate (sv_client s x) \<or> cl_mstate (sv_client ?s6 x) = []" for x
        using s5(6,7) v4(5) by (cases "x = c") auto
      ultimately show ?thesis using s5(3-5) v4(2-4) by (intro exI [of _ ?s6] exI [of _ m]) auto
    qed
  qed
  then obtain s1 b where s1: "execCommand c s = Some s1" "mirrored nf b s1" "sv_clients s1 = sv_clients s"
      "cl_cmd (sv_client s1 c) = EXEC" "b \<Longrightarrow> sv_dirty s < sv_dirty s1"
      "\<And>x. cl_mstate (sv_client s1 x) = cl_mstate (sv_client s x) \<or> cl_mstate (sv_client s1 x) = []" by blast
  then show ?thesis using call_exec_mirrored [of "execCommand c", OF s1(1,2) _ s1(4,5)] assms(2) by auto
qed

text \<open>Between two steps no block is open.\<close>

definition steady :: "bool \<Rightarrow> ('k, 'v) redisServer \<Rightarrow> bool" where
  "steady nf s \<longleftrightarrow> mirrored nf False s \<and> (\<forall>x \<in> set (sv_clients s). list_all (safe nf) (cl_mstate (sv_client s x)))"

fun plain :: "bool \<Rightarrow> ('k, 'v) event \<Rightarrow> bool" where
  "plain nf (Request c (Cmd cmd)) = safe nf cmd"
| "plain nf e = True"

lemma steadyI:
  assumes "steady nf s" and "mirrored nf False s'" and "set (sv_clients s') \<subseteq> set (sv_clients s)"
    and "\<And>x. x \<in> set (sv_clients s') \<Longrightarrow> cl_mstate (sv_client s' x) = cl_mstate (sv_client s x) \<or> list_all (safe nf) (cl_mstate (sv_client s' x))"
  shows "steady nf s'"
  unfolding steady_def
proof (intro conjI ballI)
  fix x
  assume "x \<in> set (sv_clients s')"
  then show "list_all (safe nf) (cl_mstate (sv_client s' x))"
    using assms(3) assms(4) [of x] assms(1) by (auto simp: steady_def)
qed (rule assms(2))

lemma call_quiet: "proc s = Some s' \<Longrightarrow> sv_dirty s' = sv_dirty s \<Longrightarrow> call c proc s = Some s'"
  by (simp add: call_def)

lemma fold_watchForKey_quiet:
  "ks (fold (watchForKey c) keys s) = ks s \<and> feedst (fold (watchForKey c) keys s) = feedst s \<and>
   sv_dirty (fold (watchForKey c) keys s) = sv_dirty s \<and> sv_dbnum (fold (watchForKey c) keys s) = sv_dbnum s \<and>
   sv_masterhost (fold (watchForKey c) keys s) = sv_masterhost s \<and> sv_saveparams (fold (watchForKey c) keys s) = sv_saveparams s"
  by (induction keys arbitrary: s) simp_all

lemma processCommand_steady:
  assumes "steady nf s" and "c \<in> set (sv_clients s)" and "plain nf (Request c r)"
  shows "\<exists>s'. processCommand c r s = Some s' \<and> steady nf s'"
proof -
  define s1 where "s1 = upd_client c (\<lambda>cl. cl\<lparr>cl_cmd := r\<rparr>) s"
  have ok: "server_ok s" using assms(1) by (simp add: steady_def mirrored_def)
  have ok1: "server_ok s1" unfolding s1_def by (rule server_ok_upd_client [OF ok]) auto
  have m1: "mirrored nf False s1" unfolding s1_def
    by (rule mirrored_upd_client) (use assms(1) ok1 in \<open>simp_all add: steady_def s1_def\<close>)
  have st1: "steady nf s1" by (rule steadyI [OF assms(1) m1]) (auto simp: s1_def)
  have c1: "c \<in> set (sv_clients s1)" "cl_cmd (sv_client s1 c) = r" using assms(2) by (simp_all add: s1_def)
  obtain s' where s': "processCommand c r s = Some s'" "server_ok s'"
    using processCommand_keeps [OF ok assms(2), of r] by (auto simp: keeps_def)
  show ?thesis
  proof (cases r)
    case BadRequest
    have "mirrored nf False s'" by (rule mirroredI [OF m1 s'(2)])
      (use s'(1) BadRequest in \<open>auto simp: processCommand_def rejectCommand_def flagTransaction_def s1_def split: if_splits\<close>)
    then have "steady nf s'" by (rule steadyI [OF assms(1)])
      (use s'(1) BadRequest in \<open>auto simp: processCommand_def rejectCommand_def flagTransaction_def split: if_splits\<close>)
    then show ?thesis using s'(1) by blast
  next
    case (Cmd cmd)
    show ?thesis
    proof (cases "cl_multi (sv_client s1 c)")
      case True
      have e: "s' = addReply c ReplyQueued (queueMultiCommand c cmd s1)"
        using s'(1) True Cmd by (simp add: processCommand_def s1_def)
      have "mirrored nf False s'" by (rule mirroredI [OF m1 s'(2)]) (simp_all add: e queueMultiCommand_def)
      then have "steady nf s'" by (rule steadyI [OF st1])
        (use assms(3) Cmd st1 in \<open>auto simp: e queueMultiCommand_def steady_def\<close>)
      then show ?thesis using s'(1) by blast
    next
      case False
      have "request_proc c r = command_proc c cmd" by (rule ext) (simp add: Cmd)
      then have p: "processCommand c r s = call c (command_proc c cmd) s1"
        using False Cmd by (simp add: processCommand_def s1_def)
      obtain s2 s3 where "cmd_frame c s1 s2" "call c (command_proc c cmd) s1 = Some s3" "mirrored nf False s3"
          "sv_client s3 = sv_client s2" "sv_clients s3 = sv_clients s2"
        using command_mirrored [OF m1 c1(1), of cmd] c1(2) Cmd assms(3) by auto
      then have "steady nf s3" by (intro steadyI [OF st1]) (auto simp: cmd_frame_def)
      then show ?thesis using p \<open>call c (command_proc c cmd) s1 = Some s3\<close> by auto
    qed
  next
    case EXEC
    have "request_proc c r = execCommand c" by (rule ext) (simp add: EXEC)
    then have p: "processCommand c r s = call c (execCommand c) s1" using EXEC by (simp add: processCommand_def s1_def)
    have "list_all (safe nf) (cl_mstate (sv_client s1 c))" using st1 c1(1) by (simp add: steady_def)
    then obtain s2 where s2: "call c (execCommand c) s1 = Some s2" "mirrored nf False s2" "sv_clients s2 = sv_clients s1"
        "\<forall>x. cl_mstate (sv_client s2 x) = cl_mstate (sv_client s1 x) \<or> cl_mstate (sv_client s2 x) = []"
      using exec_mirrored [OF m1 c1(1)] c1(2) EXEC by auto
    have "steady nf s2"
    proof (rule steadyI [OF st1 s2(2)])
      show "cl_mstate (sv_client s2 x) = cl_mstate (sv_client s1 x) \<or> list_all (safe nf) (cl_mstate (sv_client s2 x))" for x
        using s2(4) [rule_format, of x] by auto
    qed (simp add: s2(3))
    then show ?thesis using p s2(1) by simp
  next
    case MULTI
    have "request_proc c r = (\<lambda>s. Some (multiCommand c s))" by (rule ext) (simp add: MULTI)
    moreover have "processCommand c r s = call c (request_proc c r) s1" using MULTI by (simp add: processCommand_def s1_def)
    moreover have "call c (\<lambda>s. Some (multiCommand c s)) s1 = Some (multiCommand c s1)"
      by (rule call_quiet) (simp_all add: multiCommand_def)
    ultimately have e: "s' = multiCommand c s1" using s'(1) by simp
    have "mirrored nf False s'" by (rule mirroredI [OF m1 s'(2)]) (simp_all add: e multiCommand_def)
    then have "steady nf s'" by (rule steadyI [OF st1]) (simp_all add: e multiCommand_def)
    then show ?thesis using s'(1) by blast
  next
    case (WATCH keys)
    have "request_proc c r = (\<lambda>s. Some (watchCommand c keys s))" by (rule ext) (simp add: WATCH)
    moreover have "processCommand c r s = call c (request_proc c r) s1" using WATCH by (simp add: processCommand_def s1_def)
    moreover have "call c (\<lambda>s. Some (watchCommand c keys s)) s1 = Some (watchCommand c keys s1)"
      by (rule call_quiet) (simp_all add: watchCommand_def fold_watchForKey_quiet)
    ultimately have e: "s' = watchCommand c keys s1" using s'(1) by simp
    have "mirrored nf False s'" by (rule mirroredI [OF m1 s'(2)]) (simp_all add: e watchCommand_def fold_watchForKey_quiet)
    then have "steady nf s'" by (rule steadyI [OF st1])
      (use fold_watchForKey_ok [OF ok1 c1(1), of keys] in \<open>auto simp: e watchCommand_def\<close>)
    then show ?thesis using s'(1) by blast
  next
    case DISCARD
    have "request_proc c r = discardCommand c" by (rule ext) (simp add: DISCARD)
    then have p: "processCommand c r s = call c (discardCommand c) s1" using DISCARD by (simp add: processCommand_def s1_def)
    obtain s2 where s2: "discardTransaction c s1 = Some s2" "mirrored nf False s2" "sv_clients s2 = sv_clients s1"
        "sv_dirty s2 = sv_dirty s1" "cl_mstate (sv_client s2 c) = []"
        "\<And>x. x \<noteq> c \<Longrightarrow> cl_mstate (sv_client s2 x) = cl_mstate (sv_client s1 x)"
      using discardTransaction_quiet [OF m1 c1(1)] by blast
    define s3 where "s3 = (if cl_multi (sv_client s1 c) then addReply c ReplyOk s2
      else addReply c (ReplyError ''DISCARD without MULTI'') s1)"
    have "discardCommand c s1 = Some s3" using s2(1) by (simp add: discardCommand_def s3_def)
    then have "processCommand c r s = Some s3" unfolding p by (rule call_quiet) (simp add: s3_def s2(4))
    moreover have "mirrored nf False s3" using s2(2) m1 by (simp add: s3_def mirrored_addReply)
    then have "steady nf s3"
    proof (rule steadyI [OF st1])
      show "cl_mstate (sv_client s3 x) = cl_mstate (sv_client s1 x) \<or> list_all (safe nf) (cl_mstate (sv_client s3 x))" for x
        using s2(5,6) by (cases "x = c") (simp_all add: s3_def)
    qed (simp add: s3_def s2(3))
    ultimately show ?thesis by blast
  qed
qed

lemma step_steady:
  assumes "steady nf s" and "enabled e s" and "step e s = Some s'" and "plain nf e"
  shows "steady nf s'"
proof (cases e)
  case (Request c r)
  then show ?thesis using processCommand_steady [OF assms(1), of c r] assms by auto
next
  case (Connect c)
  have ok: "server_ok s" and m: "mirrored nf False s" using assms(1) by (simp_all add: steady_def mirrored_def)
  have s': "s' = createClient c s" "c \<notin> set (sv_clients s)" using assms(2,3) Connect by simp_all
  have "server_ok s'" using createClient_keeps [OF ok s'(2)] s'(1) by (simp add: keeps_def)
  then have "mirrored nf False s'"
    by (rule mirroredI [OF m]) (auto simp: s'(1) createClient_def feedst_def view_defs fun_eq_iff simp del: fold_views)
  then show ?thesis using assms(1) by (auto simp: steady_def s'(1) createClient_def)
next
  case (Disconnect c)
  have ok: "server_ok s" and m: "mirrored nf False s" using assms(1) by (simp_all add: steady_def mirrored_def)
  have c: "c \<in> set (sv_clients s)" using assms(2) Disconnect by simp
  obtain s1 where s1: "unwatchAllKeys c s = Some s1" "unwatched c s s1" "server_ok s1"
    using unwatchAllKeys_ok [OF ok c] by metis
  have v: "sv_clients s1 = sv_clients s" "sv_client s1 = (sv_client s)(c := (sv_client s c)\<lparr>cl_watched_keys := []\<rparr>)"
    using s1(2) by (simp_all add: unwatched_def)
  have s': "s' = s1\<lparr>sv_clients := remove1 c (sv_clients s1)\<rparr>"
    using assms(3) Disconnect s1(1) c by (simp add: freeClient_def v(1))
  have "server_ok s'" using freeClient_keeps [OF ok c] assms(3) Disconnect by (auto simp: keeps_def)
  then have "mirrored nf False s'"
    by (rule mirroredI [OF mirrored_unwatched [OF m s1(2,3)]])
      (auto simp: s' feedst_def view_defs fun_eq_iff simp del: fold_views)
  then show ?thesis by (rule steadyI [OF assms(1)]) (auto simp: s' v set_remove1_subset)
next
  case (ExpireCycle d k now)
  have ok: "server_ok s" and m: "mirrored nf False s" using assms(1) by (simp_all add: steady_def mirrored_def)
  let ?s = "fst (dbDelete d k (propagateExpire d k s))"
  consider "s' = s" | "s' = ?s" "exps s d k \<noteq> None"
    using assms(3) unfolding ExpireCycle by (cases "exps s d k") (auto simp: activeExpireCycleTryExpire_def split: if_splits)
  then show ?thesis
  proof cases
    case 1
    then show ?thesis using assms(1) by simp
  next
    case 2
    have e: "expiry s [(d, k)] s'"
      unfolding 2(1) by (rule expiry_key [OF server_okD(1) [OF ok] 2(2)]) (use assms(2) ExpireCycle in simp)
    note e' = expiryD [OF e]
    have st: "streamed nf (sv_dbnum s) False (feedst s') (ks s')"
      using streamed_feed_dels [of nf "sv_dbnum s" False "feedst s" "ks s" "[(d, k)]"] m e'(2,5) assms(2) ExpireCycle
      by (simp add: mirrored_def)
    have ok': "server_ok s'" using expire_keeps [OF ok, of e d k now] assms(2,3) ExpireCycle by (simp add: keeps_def)
    have v: "sv_client s' = sv_client s" "sv_clients s' = sv_clients s" "sv_dbnum s' = sv_dbnum s"
        "sv_masterhost s' = sv_masterhost s" "sv_saveparams s' = sv_saveparams s"
      using e by (simp_all add: expiry_def)
    have "mirrored nf False s'" using st ok' m by (simp add: mirrored_def v)
    then show ?thesis by (rule steadyI [OF assms(1)]) (simp_all add: v)
  qed
qed

lemma reach_steady: "reach s es s' \<Longrightarrow> steady nf s \<Longrightarrow> list_all (plain nf) es \<Longrightarrow> steady nf s'"
proof (induction rule: reach.induct)
  case (reach_step es s1 e s2)
  then show ?case using step_steady [of nf s1 e s2] by simp
qed simp

subsection \<open>The slave\<close>

text \<open>\<open>m\<close> is the link to the master, the one client that is not refused; no client writes to a slave.\<close>

definition slave_ok :: "bool \<Rightarrow> nat \<Rightarrow> ('k, 'v) redisServer \<Rightarrow> bool" where
  "slave_ok nf m t \<longleftrightarrow> server_ok t \<and> sv_masterhost t \<and> (sv_saveparams t \<longrightarrow> nf) \<and> m \<in> set (sv_clients t) \<and> watched t m = [] \<and>
    \<not> dirty_cas t m \<and> \<not> cl_dirty_exec (sv_client t m) \<and> list_all (good_cmd nf) (cl_mstate (sv_client t m))"

definition sview :: "nat \<Rightarrow> ('k, 'v) redisServer \<Rightarrow> ('k, 'v) keyspace \<times> nat" where
  "sview m t = (ks t, cl_db (sv_client t m))"

lemma slave_okD:
  assumes "slave_ok nf m t"
  shows "server_ok t" "sv_masterhost t" "sv_saveparams t \<Longrightarrow> nf" "m \<in> set (sv_clients t)" "watched t m = []"
    "\<not> dirty_cas t m" "\<not> cl_dirty_exec (sv_client t m)" "list_all (good_cmd nf) (cl_mstate (sv_client t m))"
  using assms by (auto simp: slave_ok_def)

lemma slave_ok_upd_client:
  assumes "slave_ok nf m t" and "server_ok (upd_client m f t)"
    and "cl_watched_keys (f (sv_client t m)) = cl_watched_keys (sv_client t m)"
    and "cl_dirty_cas (sv_client t m) = cl_dirty_cas (f (sv_client t m))" and "cl_dirty_exec (f (sv_client t m)) = cl_dirty_exec (sv_client t m)"
    and "list_all (good_cmd nf) (cl_mstate (f (sv_client t m)))"
  shows "slave_ok nf m (upd_client m f t)"
  using assms by (simp add: slave_ok_def watched_def dirty_cas_def)

lemma slave_ok_addReply [simp]: "slave_ok nf m (addReply c q t) = slave_ok nf m t"
  by (simp add: slave_ok_def)

lemma slave_ok_propagate [simp]: "slave_ok nf m (propagate r d t) = slave_ok nf m t"
  unfolding slave_ok_def server_ok_fields by (simp add: propagate_def)

lemma slave_ok_incr_dirty [simp]: "slave_ok nf m (incr_dirty n t) = slave_ok nf m t"
  by (simp add: slave_ok_def)

lemma sview_fields [simp]:
  "sview m (addReply c q t) = sview m t" "sview m (propagate r d t) = sview m t" "sview m (incr_dirty n t) = sview m t"
  by (simp_all add: sview_def propagate_def)

text \<open>What \<open>call\<close> adds is of no concern to the slave itself.\<close>

lemma call_slave:
  assumes "proc t = Some t1"
  shows "\<exists>r d. call c proc t = Some t1 \<or> call c proc t = Some (propagate r d t1)"
  using assms by (auto simp: call_def)

lemma slave_command:
  assumes "slave_ok nf m t" and "cl_cmd (sv_client t m) = Cmd cmd" and "good_cmd nf cmd"
  shows "\<exists>t1. call m (command_proc m cmd) t = Some t1 \<and> slave_ok nf m t1 \<and> sview m t1 = kcmd (sv_dbnum t) cmd (sview m t) \<and>
    sv_client t1 m = (sv_client t m)\<lparr>cl_db := cl_db (sv_client t1 m), cl_reply := cl_reply (sv_client t1 m)\<rparr> \<and> sv_dbnum t1 = sv_dbnum t"
proof -
  note t = slave_okD [OF assms(1)]
  have d: "cl_db (sv_client t m) < sv_dbnum t" using server_okD(5) [OF t(1,4)] .
  obtain t1 where t1: "command_proc m cmd t = Some t1" "server_ok t1" "cmd_frame m t t1"
    using command_ok [OF t(1,4) assms(2)] by blast
  note fr = t1(3) [unfolded cmd_frame_def]
  have "watched t1 m = [] \<and> \<not> dirty_cas t1 m \<and> sview m t1 = kcmd (sv_dbnum t) cmd (sview m t) \<and> cl_cmd (sv_client t1 m) = Cmd cmd"
  proof (cases "changes_client cmd")
    case True
    then obtain i where i: "cmd = SELECT i" using assms(3) by (cases cmd) (auto simp: good_cmd_def)
    then have "t1 = selectCommand m i t" using t1(1) by simp
    then show ?thesis using t(5,6) assms(2)
      by (auto simp: i selectCommand_def selectDb_def sview_def kcmd_def watched_def dirty_cas_def split: option.split)
  next
    case False
    have "refines m cmd t (command_proc m cmd t)"
      using command_proc_refines [OF _ watch_ok_sound d assms(2) _ False] server_okD(1,2) [OF t(1)] t(3) assms(3)
      by (auto simp: good_cmd_def safe_def)
    then obtain ds n where p: "outcome (\<not> is_move cmd) m t ds (kapply (sv_dbnum t) (cl_db (sv_client t m)) cmd) (Cmd cmd) n t1"
      using t1(1) t(2) unfolding refines_def performs_def by auto
    note p' = outcomeD [OF p]
    have w: "m \<notin> set (watchers t j k)" for j k using watch_okD(1) [OF server_okD(2) [OF t(1)], of m j k] t(5) by simp
    have "\<not> dirty_cas t1 m" "watched t1 m = []" using p'(2) t(5,6) w by (auto simp: frame_def)
    moreover have "ds = []" using p'(6) t(2) by simp
    then have "sview m t1 = kcmd (sv_dbnum t) cmd (sview m t)" using p'(3,4) kcmd_plain [OF False] by (simp add: sview_def)
    ultimately show ?thesis using p'(8) by simp
  qed
  then have s1: "slave_ok nf m t1" "sview m t1 = kcmd (sv_dbnum t) cmd (sview m t)" "cl_cmd (sv_client t1 m) = cl_cmd (sv_client t m)"
      "watched t1 m = watched t m" "dirty_cas t1 m = dirty_cas t m"
    using t t1(2) fr assms(2) by (simp_all add: slave_ok_def)
  have c: "sv_client t1 m = (sv_client t m)\<lparr>cl_db := cl_db (sv_client t1 m), cl_reply := cl_reply (sv_client t1 m)\<rparr>"
    using s1(3-5) fr by (simp add: watched_def dirty_cas_def)
  obtain r d where "call m (command_proc m cmd) t = Some t1 \<or> call m (command_proc m cmd) t = Some (propagate r d t1)"
    using call_slave [of "command_proc m cmd", OF t1(1)] by blast
  then show ?thesis
  proof
    assume "call m (command_proc m cmd) t = Some t1"
    then show ?thesis using s1 c fr by (intro exI [of _ t1]) simp
  next
    assume "call m (command_proc m cmd) t = Some (propagate r d t1)"
    moreover have "sv_client (propagate r d t1) = sv_client t1" "sv_dbnum (propagate r d t1) = sv_dbnum t1" by (simp_all add: propagate_def)
    ultimately show ?thesis using s1 c fr by (intro exI [of _ "propagate r d t1"]) simp
  qed
qed

lemma slave_exec_loop:
  assumes "slave_ok nf m t" and "cl_multi (sv_client t m)" and "list_all (good_cmd nf) cmds"
  shows "\<exists>t' b. exec_loop m j cmds mp t = Some (t', b) \<and> slave_ok nf m t' \<and> sview m t' = fold (kcmd (sv_dbnum t)) cmds (sview m t) \<and>
    sv_dbnum t' = sv_dbnum t"
  using assms
proof (induction cmds arbitrary: t j mp)
  case Nil
  then show ?case by simp
next
  case (Cons cmd cmds)
  let ?start = "\<not> mp \<and> \<not> cmd_readonly cmd"
  define t1 where "t1 = upd_client m (\<lambda>cl. cl\<lparr>cl_cmd := Cmd cmd\<rparr>) t"
  define t2 where "t2 = (if ?start then execCommandPropagateMulti m t1 else t1)"
  note t = slave_okD [OF Cons.prems(1)]
  have good: "good_cmd nf cmd" "list_all (good_cmd nf) cmds" using Cons.prems(3) by simp_all
  have "server_ok t1" unfolding t1_def by (rule server_ok_upd_client [OF t(1)]) auto
  then have "slave_ok nf m t1" unfolding t1_def by (rule slave_ok_upd_client [OF Cons.prems(1)]) (use t(8) in simp_all)
  then have s2: "slave_ok nf m t2" by (simp add: t2_def execCommandPropagateMulti_def)
  have v2: "sv_client t2 m = (sv_client t m)\<lparr>cl_cmd := Cmd cmd\<rparr>" "sv_dbnum t2 = sv_dbnum t" "sview m t2 = sview m t"
    by (auto simp: t2_def execCommandPropagateMulti_def t1_def) (auto simp: propagate_def sview_def)
  obtain t3 where 3: "call m (command_proc m cmd) t2 = Some t3" "slave_ok nf m t3" "sview m t3 = kcmd (sv_dbnum t) cmd (sview m t)"
      "sv_client t3 m = (sv_client t2 m)\<lparr>cl_db := cl_db (sv_client t3 m), cl_reply := cl_reply (sv_client t3 m)\<rparr>"
      "sv_dbnum t3 = sv_dbnum t"
    using slave_command [OF s2 _ good(1)] v2 by auto
  have v3: "cl_multi (sv_client t3 m)" "cl_cmd (sv_client t3 m) = Cmd cmd" "cl_mstate (sv_client t3 m) = cl_mstate (sv_client t m)"
    using Cons.prems(2) by (subst 3(4), simp add: v2)+
  define t4 where "t4 = upd_client m (\<lambda>cl. cl\<lparr>cl_mstate := (case cl_cmd cl of Cmd x \<Rightarrow> (cl_mstate cl)[j := x] | _ \<Rightarrow> cl_mstate cl)\<rparr>) t3"
  have "server_ok t4" unfolding t4_def by (rule server_ok_upd_client [OF slave_okD(1) [OF 3(2)]]) (use v3(1) in auto)
  moreover have "list_all (good_cmd nf) ((cl_mstate (sv_client t m))[j := cmd])"
    using t(8) good(1) set_update_subset_insert [of "cl_mstate (sv_client t m)" j cmd] unfolding list_all_iff by blast
  ultimately have s4: "slave_ok nf m t4" unfolding t4_def
    by (intro slave_ok_upd_client [OF 3(2)]) (use v3 in simp_all)
  have v4: "cl_multi (sv_client t4 m)" "sview m t4 = kcmd (sv_dbnum t) cmd (sview m t)" "sv_dbnum t4 = sv_dbnum t"
    using v3(1) 3(3,5) by (simp_all add: t4_def sview_def)
  obtain t5 b where 5: "exec_loop m (Suc j) cmds (mp \<or> ?start) t4 = Some (t5, b)" "slave_ok nf m t5"
      "sview m t5 = fold (kcmd (sv_dbnum t4)) cmds (sview m t4)" "sv_dbnum t5 = sv_dbnum t4"
    using Cons.IH [OF s4 v4(1) good(2)] by blast
  have "exec_loop m j (cmd # cmds) mp t = Some (t5, b)"
    using 3(1) 5(1) by (simp add: Let_def t1_def [symmetric] t2_def [symmetric] t4_def [symmetric])
  then show ?case using 5 v4 by auto
qed

text \<open>What is queued on the link counts as done.\<close>

definition ahead :: "nat \<Rightarrow> ('k, 'v) redisServer \<Rightarrow> ('k, 'v) keyspace \<times> nat" where
  "ahead m t = fold (kcmd (sv_dbnum t)) (cl_mstate (sv_client t m)) (sview m t)"

lemma slave_execCommand:
  assumes "slave_ok nf m t"
  shows "\<exists>t'. execCommand m t = Some t' \<and> slave_ok nf m t' \<and> ahead m t' = ahead m t \<and> \<not> cl_multi (sv_client t' m) \<and>
    sv_dbnum t' = sv_dbnum t"
proof (cases "cl_multi (sv_client t m)")
  case False
  then show ?thesis using assms by (simp add: execCommand_def ahead_def)
next
  case True
  note t = slave_okD [OF assms]
  obtain t1 where t1: "unwatchAllKeys m t = Some t1" "unwatched m t t1" "server_ok t1"
    using unwatchAllKeys_ok [OF t(1,4)] by metis
  have v1: "sv_client t1 m = sv_client t m" "sv_dbnum t1 = sv_dbnum t" "sview m t1 = sview m t"
    using t1(2) t(5) by (auto simp: unwatched_def watched_def sview_def)
  have ok1: "slave_ok nf m t1" using t t1(2,3) v1 by (simp add: slave_ok_def unwatched_def watched_def dirty_cas_def)
  let ?t2 = "addReply m (ReplyMultiLen (length (cl_mstate (sv_client t1 m)))) t1"
  obtain t3 b where 3: "exec_loop m 0 (cl_mstate (sv_client ?t2 m)) False ?t2 = Some (t3, b)" "slave_ok nf m t3"
      "sview m t3 = ahead m t" "sv_dbnum t3 = sv_dbnum t"
    using slave_exec_loop [of nf m ?t2 "cl_mstate (sv_client ?t2 m)" 0 False] ok1 True t(8) v1 by (auto simp: ahead_def)
  define t4 where "t4 = upd_client m (\<lambda>cl. cl\<lparr>cl_cmd := cl_cmd (sv_client t1 m)\<rparr>) t3"
  note s3 = slave_okD [OF 3(2)]
  have "server_ok t4" unfolding t4_def by (rule server_ok_upd_client [OF s3(1)]) auto
  then have s4: "slave_ok nf m t4" unfolding t4_def by (rule slave_ok_upd_client [OF 3(2)]) (use s3 in simp_all)
  define t5 where "t5 = upd_client m (\<lambda>cl. cl\<lparr>cl_mstate := [], cl_multi := False, cl_dirty_cas := False, cl_dirty_exec := False\<rparr>) t4"
  have "server_ok t5" unfolding t5_def by (rule server_ok_upd_client [OF slave_okD(1) [OF s4]]) auto
  then have s5: "slave_ok nf m t5" unfolding t5_def
    by (rule slave_ok_upd_client [OF s4]) (use slave_okD(6,7) [OF s4] in \<open>simp_all add: dirty_cas_def\<close>)
  have v5: "sview m t5 = ahead m t" "sv_dbnum t5 = sv_dbnum t" "cl_mstate (sv_client t5 m) = []" "\<not> cl_multi (sv_client t5 m)"
    using 3(3,4) by (simp_all add: t5_def t4_def sview_def)
  obtain t6 where t6: "unwatchAllKeys m t5 = Some t6" "unwatched m t5 t6" "server_ok t6"
    using unwatchAllKeys_ok [OF slave_okD(1,4) [OF s5]] by metis
  have v6: "sv_client t6 m = sv_client t5 m" "sv_dbnum t6 = sv_dbnum t" "sview m t6 = ahead m t"
    using t6(2) slave_okD(5) [OF s5] v5 by (auto simp: unwatched_def watched_def sview_def)
  have ok6: "slave_ok nf m t6" using slave_okD [OF s5] t6(2,3) v6 by (simp add: slave_ok_def unwatched_def watched_def dirty_cas_def)
  have "execCommand m t = Some (if b then incr_dirty 1 t6 else t6)"
    using True t(6,7) t1(1) 3(1) t6(1)
    by (simp add: execCommand_def Let_def discardTransaction_def dirty_cas_def t4_def t5_def)
  then show ?thesis using ok6 v6 v5(3,4) by (auto simp: ahead_def)
qed

lemma slave_request:
  assumes "slave_ok nf m t" and "good_entry nf r"
  shows "\<exists>t'. processCommand m r t = Some t' \<and> slave_ok nf m t' \<and> ahead m t' = krequest (sv_dbnum t) r (ahead m t) \<and>
    cl_multi (sv_client t' m) = bracket r (cl_multi (sv_client t m)) \<and> sv_dbnum t' = sv_dbnum t"
proof -
  note t = slave_okD [OF assms(1)]
  define t1 where "t1 = upd_client m (\<lambda>cl. cl\<lparr>cl_cmd := r\<rparr>) t"
  have "server_ok t1" unfolding t1_def by (rule server_ok_upd_client [OF t(1)]) auto
  then have s1: "slave_ok nf m t1" unfolding t1_def by (rule slave_ok_upd_client [OF assms(1)]) (use t in simp_all)
  have v1: "sv_client t1 m = (sv_client t m)\<lparr>cl_cmd := r\<rparr>" "sv_dbnum t1 = sv_dbnum t" "ahead m t1 = ahead m t" "sview m t1 = sview m t"
    by (simp_all add: t1_def ahead_def sview_def)
  have ms: "cl_mstate (sv_client t1 m) = []" if "\<not> cl_multi (sv_client t1 m)"
    using server_okD(6) [OF slave_okD(1,4) [OF s1] that] .
  consider cmd where "r = Cmd cmd" "good_cmd nf cmd" "cl_multi (sv_client t1 m)" | cmd where "r = Cmd cmd" "good_cmd nf cmd" "\<not> cl_multi (sv_client t1 m)"
    | "r = MULTI" | "r = EXEC" using assms(2) by (cases r) auto
  then show ?thesis
  proof cases
    case (1 cmd)
    let ?t = "addReply m ReplyQueued (queueMultiCommand m cmd t1)"
    have "processCommand m r t = Some ?t" using 1 by (simp add: processCommand_def t1_def)
    moreover have "server_ok (queueMultiCommand m cmd t1)" unfolding queueMultiCommand_def
      by (rule server_ok_upd_client [OF slave_okD(1) [OF s1]]) (use 1(3) in auto)
    then have "slave_ok nf m ?t" unfolding slave_ok_addReply queueMultiCommand_def
      by (rule slave_ok_upd_client [OF s1]) (use slave_okD(8) [OF s1] 1(2) in simp_all)
    moreover have "ahead m ?t = krequest (sv_dbnum t) r (ahead m t)"
      by (simp add: 1(1) ahead_def krequest_def queueMultiCommand_def v1 sview_def) (simp add: t1_def)
    ultimately show ?thesis using 1 by (intro exI [of _ ?t]) (simp add: queueMultiCommand_def v1)
  next
    case (2 cmd)
    have "request_proc m r = command_proc m cmd" by (rule ext) (simp add: 2(1))
    then have p: "processCommand m r t = call m (command_proc m cmd) t1"
      using 2 by (simp add: processCommand_def t1_def)
    obtain t2 where t2: "call m (command_proc m cmd) t1 = Some t2" "slave_ok nf m t2" "sview m t2 = kcmd (sv_dbnum t) cmd (sview m t)"
        "sv_client t2 m = (sv_client t1 m)\<lparr>cl_db := cl_db (sv_client t2 m), cl_reply := cl_reply (sv_client t2 m)\<rparr>" "sv_dbnum t2 = sv_dbnum t"
      using slave_command [OF s1 _ 2(2)] v1 2(1) by auto
    have c2: "cl_mstate (sv_client t2 m) = []" "cl_multi (sv_client t2 m) = cl_multi (sv_client t m)" "cl_mstate (sv_client t m) = []"
    proof -
      show c: "cl_mstate (sv_client t m) = []" using ms [OF 2(3)] by (simp add: v1)
      show "cl_mstate (sv_client t2 m) = []" using c by (subst t2(4)) (simp add: v1)
      show "cl_multi (sv_client t2 m) = cl_multi (sv_client t m)" by (subst t2(4)) (simp add: v1)
    qed
    then show ?thesis using p t2(1-3,5) 2(1) by (simp add: ahead_def krequest_def)
  next
    case 3
    have "request_proc m r = (\<lambda>s. Some (multiCommand m s))" by (rule ext) (simp add: 3)
    moreover have "processCommand m r t = call m (request_proc m r) t1" using 3 by (simp add: processCommand_def t1_def)
    moreover have "call m (\<lambda>s. Some (multiCommand m s)) t1 = Some (multiCommand m t1)"
      by (rule call_quiet) (simp_all add: multiCommand_def)
    ultimately have p: "processCommand m r t = Some (multiCommand m t1)" by simp
    have "server_ok (upd_client m (\<lambda>cl. cl\<lparr>cl_multi := True\<rparr>) t1)"
      by (rule server_ok_upd_client [OF slave_okD(1) [OF s1]]) auto
    then have "slave_ok nf m (upd_client m (\<lambda>cl. cl\<lparr>cl_multi := True\<rparr>) t1)"
      by (rule slave_ok_upd_client [OF s1]) (use slave_okD(8) [OF s1] in simp_all)
    then have "slave_ok nf m (multiCommand m t1)" using s1 by (simp add: multiCommand_def)
    moreover have "ahead m (multiCommand m t1) = ahead m t" unfolding v1(3) [symmetric]
      by (simp add: multiCommand_def ahead_def) (simp add: sview_def)
    ultimately show ?thesis using p 3 v1(2) by (simp add: krequest_def multiCommand_def)
  next
    case 4
    have "request_proc m r = execCommand m" by (rule ext) (simp add: 4)
    then have p: "processCommand m r t = call m (execCommand m) t1" using 4 by (simp add: processCommand_def t1_def)
    obtain t2 where t2: "execCommand m t1 = Some t2" "slave_ok nf m t2" "ahead m t2 = ahead m t" "\<not> cl_multi (sv_client t2 m)"
        "sv_dbnum t2 = sv_dbnum t"
      using slave_execCommand [OF s1] v1 by auto
    obtain q d where "call m (execCommand m) t1 = Some t2 \<or> call m (execCommand m) t1 = Some (propagate q d t2)"
      using call_slave [of "execCommand m", OF t2(1)] by blast
    then show ?thesis
    proof
      assume "call m (execCommand m) t1 = Some t2"
      then show ?thesis using p t2 4 by (simp add: krequest_def)
    next
      assume c: "call m (execCommand m) t1 = Some (propagate q d t2)"
      have "sv_client (propagate q d t2) = sv_client t2" "sv_dbnum (propagate q d t2) = sv_dbnum t2" by (simp_all add: propagate_def)
      then show ?thesis using p c t2 4 by (simp add: krequest_def ahead_def)
    qed
  qed
qed

lemma slave_stream:
  assumes "slave_ok nf m t" and "list_all (good_entry nf) rs"
  shows "\<exists>t'. run (map (Request m) rs) t = Some t' \<and> slave_ok nf m t' \<and> ahead m t' = fold (krequest (sv_dbnum t)) rs (ahead m t) \<and>
    cl_multi (sv_client t' m) = fold bracket rs (cl_multi (sv_client t m))"
  using assms
proof (induction rs arbitrary: t)
  case Nil
  then show ?case by simp
next
  case (Cons r rs)
  obtain t1 where t1: "processCommand m r t = Some t1" "slave_ok nf m t1" "ahead m t1 = krequest (sv_dbnum t) r (ahead m t)"
      "cl_multi (sv_client t1 m) = bracket r (cl_multi (sv_client t m))" "sv_dbnum t1 = sv_dbnum t"
    using slave_request [OF Cons.prems(1), of r] Cons.prems(2) by auto
  obtain t2 where "run (map (Request m) rs) t1 = Some t2" "slave_ok nf m t2" "ahead m t2 = fold (krequest (sv_dbnum t1)) rs (ahead m t1)"
      "cl_multi (sv_client t2 m) = fold bracket rs (cl_multi (sv_client t1 m))"
    using Cons.IH [OF t1(2)] Cons.prems(2) by auto
  then show ?case using t1 slave_okD(4) [OF Cons.prems(1)] by auto
qed

subsection \<open>Together\<close>


lemma initServer_steady: "(p \<longrightarrow> nf) \<Longrightarrow> 0 < N \<Longrightarrow> N < 2 ^ 31 \<Longrightarrow> steady nf (initServer N False p clock)"
  using initServer_ok [of N False p clock]
  by (simp add: steady_def mirrored_def streamed_def kstream_def in_block_def)
    (simp add: initServer_def feedst_def view_defs fun_eq_iff del: fold_views)

lemma initServer_slave:
  assumes "p \<longrightarrow> nf" and "0 < N" and "N < 2 ^ 31"
  shows "slave_ok nf m (createClient m (initServer N True p clock))"
    and "ahead m (createClient m (initServer N True p clock)) = (\<lambda>d k. None, 0)"
proof -
  have "m \<notin> set (sv_clients (initServer N True p clock))" by (simp add: initServer_def)
  then have "server_ok (createClient m (initServer N True p clock))"
    using createClient_keeps [OF initServer_ok [OF assms(2,3)]] unfolding keeps_def by blast
  then show "slave_ok nf m (createClient m (initServer N True p clock))"
    using assms(1) by (auto simp: slave_ok_def createClient_def initServer_def view_defs simp del: fold_views)
  show "ahead m (createClient m (initServer N True p clock)) = (\<lambda>d k. None, 0)"
    by (simp add: ahead_def sview_def createClient_def initServer_def view_defs fun_eq_iff del: fold_views)
qed

text \<open>(C5)
  A master and a slave start empty.  Whatever the clients of the master send -- transactions, commands that
  find keys expired, \<open>SELECT\<close>, commands that are rewritten -- as long as every command decides once (no
  \<open>SET\<close> with \<open>XX\<close>, no key twice in an \<open>MSETNX\<close>) and, when one of the two servers has save points configured, no
  \<open>FLUSHALL\<close> is among them (with save points it passes the counter of changes through an \<open>int\<close>): when the slave
  executes the stream the master has fed by then, whatever its own clock says, none of its steps fails and it
  ends with the values of the master.  The number of databases is positive and fits an \<open>int\<close>.
\<close>

theorem replica_converges:
  fixes s :: "('k, 'v) redisServer"
  assumes "0 < N" and "N < 2 ^ 31" and "reach (initServer N False p clock) es s" and "list_all (plain (p \<or> p')) es"
  shows "\<exists>t. run (Connect m # map (Request m) (sv_stream s)) (initServer N True p' clock') = Some t \<and> ks t = ks s"
proof -
  let ?nf = "p \<or> p'"
  have "p \<longrightarrow> ?nf" "p' \<longrightarrow> ?nf" by simp_all
  note st = reach_steady [OF assms(3) initServer_steady [OF this(1) assms(1,2)] assms(4)]
  have N: "sv_dbnum s = N" using reach_dbnum [OF assms(3) initServer_ok [OF assms(1,2)]] by (simp add: initServer_def)
  have f: "fold (krequest N) (sv_stream s) (\<lambda>d k. None, 0) = (ks s, nat (sv_slaveseldb s))"
      "list_all (good_entry ?nf) (sv_stream s)" "\<not> fold bracket (sv_stream s) False"
    using st N by (simp_all add: steady_def mirrored_def streamed_def kstream_def in_block_def feedst_def)
  define t0 :: "('k, 'v) redisServer" where "t0 = createClient m (initServer N True p' clock')"
  have v: "sv_dbnum t0 = N" "cl_multi (sv_client t0 m) = False" by (simp_all add: t0_def createClient_def initServer_def)
  have i: "slave_ok ?nf m t0" "ahead m t0 = (\<lambda>d k. None, 0)"
    unfolding t0_def by (rule initServer_slave [OF \<open>p' \<longrightarrow> ?nf\<close> assms(1,2)])+
  obtain t where t: "run (map (Request m) (sv_stream s)) t0 = Some t" "slave_ok ?nf m t" "ahead m t = (ks s, nat (sv_slaveseldb s))"
      "\<not> cl_multi (sv_client t m)"
    using slave_stream [OF i(1) f(2)] f(1,3) unfolding i(2) v by auto
  have "cl_mstate (sv_client t m) = []" using server_okD(6) [OF slave_okD(1,4) [OF t(2)] t(4)] .
  then have "ks t = ks s" using t(3) by (simp add: ahead_def sview_def)
  moreover have "m \<notin> set (sv_clients (initServer N True p' clock' :: ('k, 'v) redisServer))" by (simp add: initServer_def)
  ultimately show ?thesis using t(1) by (simp add: t0_def)
qed

definition busy_master :: "(nat, string) event list" where
  "busy_master = [Connect 0, Connect 1, Request 0 (Cmd (SET 7 ''10'' [OptPX (Some 50)])), Request 1 (Cmd (SELECT (Some 3))),
     Request 1 MULTI, Request 1 (Cmd (SET 8 ''a'' [])), Request 1 (Cmd (GET 8)), Request 0 (Cmd (MOVE 7 (Some 3))),
     Request 1 (Cmd (RENAME 8 9)), Request 1 EXEC, Request 0 (Cmd (SETEX 5 (Some 1) ''x'')), Request 0 (Cmd (GET 5)),
     ExpireCycle 0 5 5000]"

theorem replica_converges_witness:
  "\<exists>s t. run busy_master (initServer 16 False True (\<lambda>i. 1000 * int i)) = Some s \<and>
     run (Connect 4 # map (Request 4) (sv_stream s)) (initServer 16 True False (\<lambda>i. 0)) = Some t \<and> ks t = ks s"
proof -
  have "run busy_master (initServer 16 False True (\<lambda>i. 1000 * int i)) \<noteq> None" by code_simp
  then obtain s where s: "run busy_master (initServer 16 False True (\<lambda>i. 1000 * int i)) = Some s" by blast
  have "list_all (plain (True \<or> False)) busy_master" by code_simp
  then show ?thesis using replica_converges [OF _ _ run_reach [OF s], of False 4 "\<lambda>i. 0"] s by auto
qed

text \<open>(C39)
  \<open>SET\<close> with \<open>XX\<close> looks the key up twice, and the two lookups read the clock anew.  When the key expires in
  between (the first reading is not after its time, the second is), the master has found it, deletes it with a
  \<open>DEL\<close> to the slaves, stores the new value, and sends the \<open>SET\<close> on; any slave that executes these two entries
  in the same database ends without the key, for it executes the \<open>DEL\<close> and then refuses the \<open>SET\<close>.
\<close>

lemma request_Cmd: "request_proc c (Cmd cmd) = command_proc c cmd"
  by (rule ext) simp

lemma call_slave_frame:
  assumes "proc t = Some t1"
  obtains t' where "call c proc t = Some t'" "ks t' = ks t1" "sv_client t' = sv_client t1" "sv_clients t' = sv_clients t1"
    "server_ok t' \<longleftrightarrow> server_ok t1"
proof -
  obtain r d where "call c proc t = Some t1 \<or> call c proc t = Some (propagate r d t1)"
    using call_slave [of proc, OF assms] by blast
  then show ?thesis
  proof
    assume "call c proc t = Some t1"
    then show ?thesis by (rule that) simp_all
  next
    assume "call c proc t = Some (propagate r d t1)"
    moreover have "ks (propagate r d t1) = ks t1" "sv_client (propagate r d t1) = sv_client t1"
      "sv_clients (propagate r d t1) = sv_clients t1" by (simp_all add: propagate_def)
    moreover have "server_ok (propagate r d t1) \<longleftrightarrow> server_ok t1" unfolding server_ok_fields ..
    ultimately show ?thesis by (rule that)
  qed
qed

lemma set_xx_slave:
  assumes "server_ok t" and "sv_masterhost t" and "m \<in> set (sv_clients t)" and "\<not> cl_multi (sv_client t m)"
  shows "\<exists>t'. run [Request m (Cmd (DEL [k])), Request m (Cmd (SET k v [OptXX]))] t = Some t' \<and>
    ks t' (cl_db (sv_client t m)) k = None"
proof -
  let ?set = "SET k v [OptXX]" and ?d = "cl_db (sv_client t m)"
  define t1 where "t1 = upd_client m (\<lambda>cl. cl\<lparr>cl_cmd := Cmd (DEL [k])\<rparr>) t"
  have ok1: "server_ok t1" unfolding t1_def by (rule server_ok_upd_client [OF assms(1)]) auto
  have v1: "m \<in> set (sv_clients t1)" "cl_cmd (sv_client t1 m) = Cmd (DEL [k])" "sv_masterhost t1"
      "cl_db (sv_client t1 m) = ?d" "\<not> cl_multi (sv_client t1 m)"
    using assms by (simp_all add: t1_def)
  obtain t2 where t2: "command_proc m (DEL [k]) t1 = Some t2" "server_ok t2" "cmd_frame m t1 t2"
    using command_ok [OF ok1 v1(1,2)] by blast
  have "refines m (DEL [k]) t1 (command_proc m (DEL [k]) t1)"
    using command_proc_refines [OF server_okD(1) [OF ok1] watch_ok_sound [OF server_okD(2) [OF ok1]]
        server_okD(5) [OF ok1 v1(1)] v1(2)] by simp
  then obtain ds n where o2: "outcome True m t1 ds (kapply (sv_dbnum t1) ?d (DEL [k])) (Cmd (DEL [k])) n t2"
    using t2(1) v1(3,4) unfolding refines_def performs_def by auto
  have k2: "ks t2 ?d k = None" "cl_db (sv_client t2 m) = ?d" "m \<in> set (sv_clients t2)" "\<not> cl_multi (sv_client t2 m)"
    using outcomeD(3,4) [OF o2] v1 t2(3) by (simp_all add: kput_apply cmd_frame_def)
  obtain t3 where t3: "call m (command_proc m (DEL [k])) t1 = Some t3" "ks t3 = ks t2" "sv_client t3 = sv_client t2"
      "sv_clients t3 = sv_clients t2" "server_ok t3"
    using call_slave_frame [of "command_proc m (DEL [k])", OF t2(1)] t2(2) by metis
  have p1: "processCommand m (Cmd (DEL [k])) t = Some t3"
    using t3(1) v1(5) by (simp add: processCommand_def t1_def request_Cmd)
  define t4 where "t4 = upd_client m (\<lambda>cl. cl\<lparr>cl_cmd := Cmd ?set\<rparr>) t3"
  have ok4: "server_ok t4" unfolding t4_def by (rule server_ok_upd_client [OF t3(5)]) auto
  have v4: "ks t4 ?d k = None" "cl_db (sv_client t4 m) = ?d" "\<not> cl_multi (sv_client t4 m)"
    using t3(2-4) k2 by (simp_all add: t4_def)
  obtain t5 ds' where t5: "lookupKeyWrite ?d k t4 = Some (t5, ks t5 ?d k)" "expiry t4 ds' t5"
    using lookupKeyWrite_ok [OF server_okD(1) [OF ok4]] by metis
  have k5: "ks t5 ?d k = None" using expiryD(2) [OF t5(2)] v4(1) by (simp add: dels_def)
  have c: "command_proc m ?set t4 = Some (addReply m ReplyNull t5)"
    using t5(1) k5 by (simp add: setCommand_def setGenericCommand_def set_checked_def no_flags_def v4(2))
  obtain t6 where t6: "call m (command_proc m ?set) t4 = Some t6" "ks t6 = ks (addReply m ReplyNull t5)"
    using call_slave_frame [of "command_proc m ?set", OF c] by metis
  have "processCommand m (Cmd ?set) t3 = Some t6" "ks t6 = ks t5"
    using t6 v4(3) by (simp_all add: processCommand_def t4_def request_Cmd del: command_proc.simps)
  then show ?thesis using p1 k5 k2(3) assms(3) t3(4) by auto
qed

theorem set_xx_diverges:
  assumes "server_ok s" and "cl_cmd (sv_client s c) = Cmd (SET k v [OptXX])" and "d = cl_db (sv_client s c)"
    and "\<not> sv_masterhost s" and "ks s d k \<noteq> None" and "exps s d k = Some w"
    and "0 \<le> w" and "sv_mstime s 0 \<le> w" and "w < sv_mstime s 1"
    and "server_ok t" and "sv_masterhost t" and "m \<in> set (sv_clients t)" and "\<not> cl_multi (sv_client t m)"
    and "cl_db (sv_client t m) = d"
  shows "\<exists>s' t'. call c (command_proc c (SET k v [OptXX])) s = Some s' \<and> ks s' d k = Some (StringObj v) \<and>
    sv_stream s' = sv_stream s @ (if sv_slaveseldb s = int d then [] else [Cmd (SELECT (Some (int d)))]) @
      [Cmd (DEL [k]), Cmd (SET k v [OptXX])] \<and>
    run [Request m (Cmd (DEL [k])), Request m (Cmd (SET k v [OptXX]))] t = Some t' \<and> ks t' d k = None"
proof -
  define s1 where "s1 = snd (mstime s)"
  define x where "x = snd (mstime s1)"
  define s2 where "s2 = fst (dbDelete d k (propagateExpire d k x))"
  have m: "mstime s = (sv_mstime s 0, s1)" "mstime s1 = (sv_mstime s 1, x)"
    by (simp_all add: mstime_def s1_def x_def)
  have v1: "ks s1 = ks s" "exps s1 = exps s" "\<not> sv_masterhost s1" "\<not> sv_masterhost x"
    using assms(4) by (simp_all add: s1_def x_def)
  obtain b where b: "dbDelete d k (propagateExpire d k x) = (s2, b)" unfolding s2_def by (metis prod.collapse)
  have l1: "lookupKeyWrite d k s = Some (s1, ks s d k)"
    using assms(4-8) v1 m(1) by (simp add: lookupKeyWrite_def lookupKey_def expireIfNeeded_def getExpire_def)
  have k2: "ks s2 d k = None" "sv_client s2 = sv_client s" "sv_dirty s2 = sv_dirty s" "sv_slaveseldb s2 = int d"
      "sv_stream s2 = sv_stream s @ (if sv_slaveseldb s = int d then [] else [Cmd (SELECT (Some (int d)))]) @ [Cmd (DEL [k])]"
    by (auto simp: s2_def x_def) (auto simp: x_def s1_def dbDelete_def Let_def propagateExpire_def replicationFeedSlaves_def mstime_def)
  have l2: "lookupKeyWrite d k s1 = Some (s2, None)"
    using assms(5,6,7,9) v1 m(2) k2(1)
    by (auto simp: lookupKeyWrite_def lookupKey_def expireIfNeeded_def getExpire_def b)
  define s3 where "s3 = addReply c ReplyOk (incr_dirty 1 (signalModifiedKey d k
    (upd_db d (\<lambda>b. b\<lparr>db_expires := AList.delete k (db_expires b)\<rparr>) (upd_db d (\<lambda>b. b\<lparr>db_dict := AList.update k (StringObj v) (db_dict b)\<rparr>) s2))))"
  have s3: "set_store c d None k v ReplyOk s1 = Some s3" "ks s3 d k = Some (StringObj v)"
      "sv_stream s3 = sv_stream s2" "sv_slaveseldb s3 = int d" "sv_dirty s < sv_dirty s3"
      "cl_cmd (sv_client s3 c) = Cmd (SET k v [OptXX])" "cl_db (sv_client s3 c) = d"
    using k2 assms(2) assms(3) [symmetric]
    by (simp_all add: set_store_def setKey_def l2 dbAdd_def removeExpire_def s3_def update_conv' signalModifiedKey_def
        touchWatchedKey_marked) (simp_all add: addReply_def incr_dirty_def)
  have "command_proc c (SET k v [OptXX]) s = Some s3"
    using l1 s3(1) assms(3,5) by (auto simp: setCommand_def setGenericCommand_def set_checked_def no_flags_def)
  then have "call c (command_proc c (SET k v [OptXX])) s = Some (propagate (Cmd (SET k v [OptXX])) d s3)"
    using s3(5-7) by (simp add: call_def)
  moreover have "ks (propagate (Cmd (SET k v [OptXX])) d s3) d k = Some (StringObj v)" using s3(2) by (simp add: propagate_def)
  moreover have "sv_stream (propagate (Cmd (SET k v [OptXX])) d s3) = sv_stream s3 @ [Cmd (SET k v [OptXX])]"
    using s3(4) by (simp add: propagate_def replicationFeedSlaves_def)
  ultimately show ?thesis using s3(3) k2(5) set_xx_slave [OF assms(10-13), of k v] assms(14) by auto
qed

definition late_master :: "(nat, string) redisServer" where
  "late_master = upd_client 0 (\<lambda>cl. cl\<lparr>cl_cmd := Cmd (SET 7 ''20'' [OptXX])\<rparr>)
     (the (run [Connect 0, Request 0 (Cmd (SET 7 ''10'' [OptPX (Some 5)]))]
       (initServer 16 False False (\<lambda>i. if i < 2 then 1000 else 1006))))"

theorem set_xx_diverges_witness:
  "\<exists>s'. call 0 (command_proc 0 (SET 7 ''20'' [OptXX])) late_master = Some s' \<and> ks s' 0 7 = Some (StringObj ''20'')"
proof -
  have r: "run [Connect 0, Request 0 (Cmd (SET (7::nat) ''10'' [OptPX (Some 5)]))]
      (initServer 16 False False (\<lambda>i. if i < 2 then 1000 else 1006)) \<noteq> None" by code_simp
  have ok: "server_ok late_master" unfolding late_master_def
    by (rule server_ok_upd_client [OF reach_ok [OF reach_the_run [OF r]]]) (auto intro!: initServer_ok)
  have m: "cl_cmd (sv_client late_master 0) = Cmd (SET 7 ''20'' [OptXX])" "cl_db (sv_client late_master 0) = 0"
    "\<not> sv_masterhost late_master" "ks late_master 0 7 \<noteq> None" "exps late_master 0 7 = Some 1005"
    "sv_mstime late_master 0 \<le> 1005" "1005 < sv_mstime late_master 1" by code_simp+
  let ?t = "createClient 4 (initServer 16 True False (\<lambda>i. 0)) :: (nat, string) redisServer"
  have "slave_ok False 4 ?t" by (rule initServer_slave) simp_all
  note t = slave_okD(1,2,4) [OF this]
  have "\<not> cl_multi (sv_client ?t 4)" "cl_db (sv_client ?t 4) = 0" by (simp_all add: createClient_def initServer_def)
  from set_xx_diverges [OF ok m(1) m(2) [symmetric] m(3-5) _ m(6,7) t this] show ?thesis by auto
qed

subsection \<open>Numbers\<close>

text \<open>The number of a database is read as a \<open>long\<close> and passed on as an \<open>int\<close>: \<open>SELECT 4294967297\<close> selects 1.\<close>

lemma select_truncates:
  "map_option (\<lambda>s. (cl_db (sv_client s 0), cl_reply (sv_client s 0)))
     (run [Connect 0, Request 0 (Cmd (SELECT (Some 4294967297)))] (initServer 16 False False (\<lambda>i. 0) :: (nat, string) redisServer)) =
   Some (1, [ReplyOk])"
  by code_simp

text \<open>
  With save points \<open>FLUSHALL\<close> keeps the counter of changes in an \<open>int\<close> over the dump.  After 2147483648 changes it
  turns negative, \<open>call\<close> sees no change, and the slaves keep their keys.
\<close>

lemma flushall_not_propagated:
  "map_option (\<lambda>s. (sv_dirty s, sv_stream s, ks s 0 7))
     (call 0 (command_proc 0 FLUSHALL) (upd_client 0 (\<lambda>cl. cl\<lparr>cl_cmd := Cmd FLUSHALL\<rparr>)
       (upd_db 0 (\<lambda>b. b\<lparr>db_dict := [(7, StringObj ''10'')]\<rparr>)
         ((createClient 0 (initServer 16 False True (\<lambda>i. 0)) :: (nat, string) redisServer)\<lparr>sv_dirty := 2147483648\<rparr>)))) =
   Some (-2147483646, [], None)"
  by code_simp

text \<open>Seconds become milliseconds without a test: a time to live of 584 million years is one of 384 ms.\<close>

lemma set_expire_wraps:
  "map_option (\<lambda>s. (exps s 0 7, cl_reply (sv_client s 0)))
     (run [Connect 0, Request 0 (Cmd (SET 7 ''10'' [OptEX (Some 18446744073709552)]))]
       (initServer 16 False False (\<lambda>i. 1000) :: (nat, string) redisServer)) =
   Some (Some 1384, [ReplyOk])"
  by code_simp

end
