(* ===== verification/Spec2Isabelle.thy ===== *)
theory Spec2Isabelle
  imports Dict_Scan_Laws Util Glob Adlist Intset Sds_Text Crc Cluster_Safety Cluster_Redirect Skiplist_Refine Dump Dict_Rehash Replication
begin

text \<open>
  A verification library for the Redis server in \<^verbatim>\<open>src/redis-3.0.3/src\<close>, the program of this repository with a
  core of its own; the other directories hold exercises, network clients and vendored code.

  The program and its parts.  A server keeps a keyspace of several databases.  Clients send commands;
  \<^verbatim>\<open>processCommand\<close> (\<^verbatim>\<open>redis.c\<close>) queues them inside a transaction (\<^verbatim>\<open>multi.c\<close>) or runs them through \<^verbatim>\<open>call\<close>, which
  sends every command that changed something to the slaves (\<^verbatim>\<open>replication.c\<close>).  The commands work on the keyspace
  (\<^verbatim>\<open>db.c\<close>, \<^verbatim>\<open>t_string.c\<close>), which removes expired keys when they are looked up.  Databases, sets and sorted sets are
  built from the data structures in \<^verbatim>\<open>dict.c\<close>, \<^verbatim>\<open>adlist.c\<close>, \<^verbatim>\<open>intset.c\<close>, \<^verbatim>\<open>sds.c\<close> and \<^verbatim>\<open>t_zset.c\<close>.  Values are
  serialised by \<^verbatim>\<open>rdb.c\<close> through \<^verbatim>\<open>rio.c\<close>, compressed by \<^verbatim>\<open>lzf_c.c\<close> and \<^verbatim>\<open>lzf_d.c\<close> and protected by \<^verbatim>\<open>crc64.c\<close>.  In a
  cluster (\<^verbatim>\<open>cluster.c\<close>) the keys are spread over 16384 slots by \<^verbatim>\<open>crc16.c\<close>; nodes agree on the owners of slots by
  epochs, elect slaves in place of failed masters, and redirect clients.
\<close>

section \<open>Which theory models what\<close>

text \<open>
  \<^item> \<open>Prelude\<close>: the option type as the type of a computation that may fault, checked array access
    (\<open>array_get\<close>), the narrowing to the C types \<open>int\<close>, \<open>unsigned int\<close> and \<open>unsigned long\<close> (\<open>c_int\<close>, \<open>c_uint\<close>,
    \<open>c_ulong\<close>), and generic lemmas.  \<open>Bytes\<close>: little endian integers in byte lists.
  \<^item> \<open>Kv_Store\<close> and \<open>Set_Store\<close>: the interfaces of a finite map and of a finite set as locales.  The first is
    interpreted on the hash table (\<open>Dict_Laws\<close>), the second on the integer set (\<open>Intset\<close>); the trace theorems
    of both components are the theorems of the locales on these providers.
  \<^item> \<open>Dict\<close>, \<open>Dict_Correct\<close>, \<open>Dict_Laws\<close>, \<open>Dict_Rehash\<close> (\<^verbatim>\<open>dict.c\<close>, \<^verbatim>\<open>dict.h\<close>): the two tables as lists of chains,
    \<open>rehashidx\<close>, and every operation with its incremental rehashing step.  The invariant \<open>dict_inv\<close> places every
    key in its chain; \<open>dict_map\<close> reads the tables as a finite map; every operation refines the map operation; \<open>n\<close>
    calls of \<open>dictRehash\<close>, or as many lookups as there are buckets, free the old table.
  \<^item> \<open>Dict_Scan\<close>, \<open>Dict_Scan_Laws\<close>: the reversed binary cursor of \<open>dictScan\<close>; a scan returns every element that is
    present throughout, while the table grows and rehashes any number of times.
  \<^item> \<open>Util\<close>, \<open>Glob\<close> (\<^verbatim>\<open>util.c\<close>): decimal conversions against arithmetic, glob matching against a matching relation.
  \<^item> \<open>Adlist\<close> (\<^verbatim>\<open>adlist.c\<close>): doubly linked lists over a store of nodes, against lists.
  \<^item> \<open>Intset\<close> (\<^verbatim>\<open>intset.c\<close>): the sorted array of 16, 32 or 64 bit integers at the level of its bytes, against sets.
  \<^item> \<open>Sds\<close>, \<open>Sds_Text\<close> (\<^verbatim>\<open>sds.c\<close>): the header and buffer of dynamic strings against character lists; formatting,
    splitting, quoting and argument parsing with their round trips.
  \<^item> \<open>Crc\<close>: both tables against bit-serial shift registers.
  \<^item> \<open>Skiplist\<close>, \<open>Skiplist_Correct\<close>, \<open>Skiplist_Delete\<close>, \<open>Skiplist_Refine\<close> (\<^verbatim>\<open>t_zset.c\<close>): the skip list over a store
    of nodes with levels, spans and back pointers, against a sorted list of scores and objects.
  \<^item> \<open>Lzf\<close>, \<open>Lzf_Format\<close>, \<open>Lzf_Compress\<close>: compressor and decompressor, the token grammar of the format, and the
    round trip for every content of the uninitialised hash table.
  \<^item> \<open>Rio\<close>, \<open>Rdb\<close>, \<open>Rdb_Correct\<close>, \<open>Dump\<close> (\<^verbatim>\<open>rio.c\<close>, \<^verbatim>\<open>rdb.c\<close>, \<^verbatim>\<open>object.c\<close>, \<^verbatim>\<open>cluster.c\<close> 4311 to 4428): string
    objects in the dump format and the payload of \<^verbatim>\<open>DUMP\<close> and \<^verbatim>\<open>RESTORE\<close>: round trip and detection of damage.
  \<^item> \<open>Watch\<close>, \<open>Keyspace\<close>, \<open>Key_Commands\<close>, \<open>Multi\<close> (\<^verbatim>\<open>db.c\<close>, \<^verbatim>\<open>t_string.c\<close>, \<^verbatim>\<open>multi.c\<close>, \<^verbatim>\<open>redis.c\<close>, \<^verbatim>\<open>networking.c\<close>,
    \<^verbatim>\<open>replication.c\<close>): the state \<open>redisServer\<close> (databases with values, times to live and watchers; clients with
    their transaction; the counter of changes; the stream to the slaves; the readings of the clock), the
    commands, and the events \<open>step\<close> of a server.  \<open>Keyspace_Correct\<close>, \<open>Key_Refine\<close> and \<open>Key_Spec\<close> show that every
    command refines its specification \<open>kapply\<close> on the values; \<open>Multi_Correct\<close> and \<open>Transactions\<close> that the state
    stays well formed and what a transaction promises; \<open>Replication\<close> that a slave converges to its master.
  \<^item> \<open>Command_Keys\<close> (\<^verbatim>\<open>db.c\<close> 987 to 1142): which arguments of a command are keys.
  \<^item> \<open>Cluster\<close>, \<open>Cluster_Slots\<close>, \<open>Cluster_Config\<close> (\<^verbatim>\<open>cluster.c\<close>): nodes in a store, the slot table, bitmaps and
    counters with their agreement \<open>slots_wf\<close>, epochs, failure reports, updates of the configuration, the state of
    the cluster.  \<open>Cluster_Election\<close> and \<open>Cluster_Safety\<close>: the handlers of an election and the system of nodes
    that exchange its messages.  \<open>Cluster_Redirect\<close>: the slot of a key and the routing of requests.
\<close>

section \<open>Conventions and bounds\<close>

text \<open>
  A result \<open>None\<close> is an access outside an object, a null or dangling dereference, a failed assertion or an abort
  of the server; a theorem with \<open>Some\<close> on the right shows that none of them happens.  Errors the code
  reports are values of the result.  Fresh memory, the addresses \<open>malloc\<close> returns, random numbers and the
  clock are arguments, of which the theorems assume what the C library and the system promise and no more.

  Integers.  Machine words are words, or naturals and integers narrowed where the code stores them; a signed
  overflow is a fault or, where the compiler is known to wrap (times in milliseconds), written out.  Where a
  narrowing could lose a value the theorems carry the bound that excludes it: a hash table has at most half of
  2^31 keys, so that a bucket index fits the \<open>int\<close> it is kept in (\<open>dict_room\<close>, \<open>dict_fits\<close>); an intset fewer than 2^29
  elements (\<open>intset_room\<close>); a skip list fewer than 2^32 (\<open>zsl_wf\<close>); a string in a dump at most 2^31 - 16 bytes
  (\<open>DUMP_MAX\<close>); two strings compared by \<open>sdscmp\<close> differ in length by less than 2^31; databases fewer than 2^31.

  Loops.  Loops over a counter or a list are structural recursion or recursion with a measure.  The walks
  along the pointers of a skip list and the inner loop of \<open>dictScan\<close> might not end on a malformed
  structure; they are partial functions into the option type, where not ending is \<open>None\<close> as well, and the
  theorems show that the result is \<open>Some\<close>.  A client that follows redirections takes at most three steps.
\<close>

section \<open>What is not modelled\<close>

text \<open>
  Sockets, files, the event loop, child processes and the configuration are input and output.  Of
  \<^verbatim>\<open>processCommand\<close> the checks for a password, for memory, for a failing disk, for a read-only slave and for
  the loading phase are left out, and scripts, \<^verbatim>\<open>MONITOR\<close>, the append only file, notifications and statistics with
  them; the members of \<open>dictType\<close> that copy and release keys and values, which belong to the callers of a table;
  of \<^verbatim>\<open>replicationFeedSlaves\<close> the early return without slaves and the slaves that wait for their first dump.  The
  ziplist encoding, the commands of the other data types, dumps of aggregate values and whole databases, the
  \<^verbatim>\<open>CLUSTER\<close> command and key migration, sentinel and the client programs have no model.  The manifest beside the
  theories lists every part with its reason.
\<close>

end
